(* ===== verification/Prelude.thy ===== *)
theory Prelude
  imports Main "HOL-Library.Word"
begin

section \<open>Prelude: results, sequencing and shared lemmas\<close>

text \<open>
  What every component theory of the development shares:
  \<^item> \<open>exn\<close>, the ways in which the C++ code leaves a function abnormally (a thrown standard
    exception, undefined behaviour, a wait that only another thread can end, a loop that does not
    end within its fuel), and the result
    type \<open>'a res\<close> whose left values are such an exit;
  \<^item> \<open>bindE\<close>, sequencing that stops at the first abnormal exit, and the iteration schemes
    \<open>mapE\<close> and \<open>mapS\<close> (a loop that fills a vector, without and with a threaded state);
  \<^item> \<open>wpE\<close>, the total-correctness reading of a result, and the same for computations on a state
    (\<open>bindS\<close>, \<open>wpS\<close>), with the rules of the components' operations in \<open>wp_rules\<close>;
  \<^item> truncating division, C++'s division on signed integers; \<open>int\<close>: the conversion of a size to it, its product and
    the \<open>reserve\<close> of a vector with it;
  \<^item> list lemmas used by several components.
\<close>

named_theorems wp_rules \<open>rules that decompose a weakest precondition\<close>
named_theorems share_simps \<open>equations of the reconstruction of a shared value\<close>

subsection \<open>Abnormal exits\<close>

datatype exn =
    RuntimeError string
  | LogicError string
  | OutOfRangeError
  | InvalidArgument
  | BadOptionalAccess
  | RangeError
  | OverflowError
  | UndefinedBehaviour
  | ProcessExit
  | ThrownCString string
  | JsonError
  | Blocked
  | OutOfFuel

type_synonym 'a res = "exn + 'a"

fun bindE :: "'a res \<Rightarrow> ('a \<Rightarrow> 'b res) \<Rightarrow> 'b res" where
  "bindE (Inl e) f = Inl e"
| "bindE (Inr x) f = f x"

lemma bindE_Inr_right [simp]: "bindE m Inr = m"
  by (cases m) auto

lemma bindE_assoc: "bindE (bindE m f) g = bindE m (\<lambda>x. bindE (f x) g)"
  by (cases m) auto

lemma bindE_eq_Inr: "bindE m f = Inr y \<longleftrightarrow> (\<exists>x. m = Inr x \<and> f x = Inr y)"
  by (cases m) auto

lemma bindE_eq_Inl: "bindE m f = Inl e \<longleftrightarrow> m = Inl e \<or> (\<exists>x. m = Inr x \<and> f x = Inl e)"
  by (cases m) auto

lemma bindE_cong [fundef_cong]:
  "m = m' \<Longrightarrow> (\<And>x. m' = Inr x \<Longrightarrow> f x = f' x) \<Longrightarrow> bindE m f = bindE m' f'"
  by (cases m') auto

subsection \<open>Loops that fill a vector\<close>

fun mapE :: "('a \<Rightarrow> 'b res) \<Rightarrow> 'a list \<Rightarrow> 'b list res" where
  "mapE f [] = Inr []"
| "mapE f (x # xs) = bindE (f x) (\<lambda>y. bindE (mapE f xs) (\<lambda>ys. Inr (y # ys)))"

fun mapS :: "('a \<Rightarrow> 's \<Rightarrow> ('b \<times> 's) res) \<Rightarrow> 'a list \<Rightarrow> 's \<Rightarrow> ('b list \<times> 's) res" where
  "mapS f [] s = Inr ([], s)"
| "mapS f (x # xs) s =
     bindE (f x s) (\<lambda>(y, s1). bindE (mapS f xs s1) (\<lambda>(ys, s2). Inr (y # ys, s2)))"

lemma mapE_Inr: "(\<And>x. x \<in> set xs \<Longrightarrow> f x = Inr (g x)) \<Longrightarrow> mapE f xs = Inr (map g xs)"
  by (induction xs) auto

lemma mapE_eq_Inr:
  "mapE f xs = Inr ys \<longleftrightarrow> length ys = length xs \<and> (\<forall>i < length xs. f (xs ! i) = Inr (ys ! i))"
proof (induction xs arbitrary: ys)
  case Nil
  then show ?case by auto
next
  case (Cons x xs)
  then show ?case
    by (cases ys) (auto simp: bindE_eq_Inr nth_Cons less_Suc_eq_0_disj split: nat.splits)
qed

subsection \<open>Weakest preconditions\<close>

text \<open>
  \<open>wpE E Q m\<close>: the computation \<open>m\<close> either ends normally with a result in \<open>Q\<close> or leaves through an
  exit that \<open>E\<close> admits. With \<open>E = (\<lambda>_. False)\<close> this is total correctness.
\<close>

definition wpE :: "(exn \<Rightarrow> bool) \<Rightarrow> ('a \<Rightarrow> bool) \<Rightarrow> 'a res \<Rightarrow> bool" where
  "wpE E Q m = (case m of Inl e \<Rightarrow> E e | Inr x \<Rightarrow> Q x)"

lemma wpE_Inr [simp]: "wpE E Q (Inr x) = Q x"
  by (simp add: wpE_def)

lemma wpE_Inl [simp]: "wpE E Q (Inl e) = E e"
  by (simp add: wpE_def)

lemma wpE_bindE [simp]: "wpE E Q (bindE m f) = wpE E (\<lambda>x. wpE E Q (f x)) m"
  by (cases m) auto

lemma wpE_mono: "wpE E Q m \<Longrightarrow> (\<And>x. Q x \<Longrightarrow> Q' x) \<Longrightarrow> wpE E Q' m"
  by (cases m) auto

lemma wpE_conj: "wpE E Q m \<Longrightarrow> wpE E R m \<Longrightarrow> wpE E (\<lambda>x. Q x \<and> R x) m"
  by (cases m) auto

lemma wpE_total: "wpE (\<lambda>_. False) Q m \<longleftrightarrow> (\<exists>x. m = Inr x \<and> Q x)"
  by (cases m) auto

lemma wpE_InrD: "wpE E Q (Inr x) \<Longrightarrow> Q x"
  by simp

text \<open>
  The rule for a loop that fills a vector: an invariant of the state that every iteration keeps,
  and a relation between the element read and the element written.
\<close>

lemma wpE_mapS:
  assumes step: "\<And>x s. x \<in> set xs \<Longrightarrow> I s \<Longrightarrow> wpE E (\<lambda>(y, s'). I s' \<and> R x y) (f x s)"
    and "I s"
  shows "wpE E (\<lambda>(ys, s'). I s' \<and> list_all2 R xs ys) (mapS f xs s)"
  using assms
proof (induction xs arbitrary: s)
  case Nil
  then show ?case by simp
next
  case (Cons x xs)
  have "wpE E (\<lambda>(y, s'). I s' \<and> R x y) (f x s)"
    using Cons.prems by simp
  moreover have "\<And>s'. I s' \<Longrightarrow> wpE E (\<lambda>(ys, s''). I s'' \<and> list_all2 R xs ys) (mapS f xs s')"
    using Cons by simp
  ultimately show ?case
    by (fastforce elim!: wpE_mono)
qed

subsection \<open>Computations on a state\<close>

text \<open>
  A function that reads and writes a state: it returns its value with the new state, or leaves
  abnormally. \<open>wpS\<close> reads such a computation as \<open>wpE\<close> reads a result.
\<close>

type_synonym ('s, 'a) comp = "'s \<Rightarrow> ('a \<times> 's) res"

definition retS :: "'a \<Rightarrow> ('s, 'a) comp" where
  "retS x s = Inr (x, s)"

definition raiseS :: "exn \<Rightarrow> ('s, 'a) comp" where
  "raiseS e s = Inl e"

definition bindS :: "('s, 'a) comp \<Rightarrow> ('a \<Rightarrow> ('s, 'b) comp) \<Rightarrow> ('s, 'b) comp" where
  "bindS m f s = bindE (m s) (\<lambda>(x, s'). f x s')"

definition liftS :: "'a res \<Rightarrow> ('s, 'a) comp" where
  "liftS r s = bindE r (\<lambda>x. Inr (x, s))"

definition wpS :: "(exn \<Rightarrow> bool) \<Rightarrow> ('a \<Rightarrow> 's \<Rightarrow> bool) \<Rightarrow> ('s, 'a) comp \<Rightarrow> 's \<Rightarrow> bool" where
  "wpS E Q m s = wpE E (\<lambda>(x, s'). Q x s') (m s)"

lemma wpS_retS [simp]: "wpS E Q (retS x) s = Q x s"
  by (simp add: wpS_def retS_def)

lemma wpS_raiseS [simp]: "wpS E Q (raiseS e) s = E e"
  by (simp add: wpS_def raiseS_def)

lemma wpS_bindS [simp]: "wpS E Q (bindS m f) s = wpS E (\<lambda>x s'. wpS E Q (f x) s') m s"
  by (simp add: wpS_def bindS_def case_prod_unfold)

lemma wpS_liftS [simp]: "wpS E Q (liftS r) s = wpE E (\<lambda>x. Q x s) r"
  by (simp add: wpS_def liftS_def)

lemma wpS_mono: "wpS E Q m s \<Longrightarrow> (\<And>x s'. Q x s' \<Longrightarrow> Q' x s') \<Longrightarrow> wpS E Q' m s"
  unfolding wpS_def by (erule wpE_mono) auto

lemma wpS_conj: "wpS E Q m s \<Longrightarrow> wpS E R m s \<Longrightarrow> wpS E (\<lambda>x s'. Q x s' \<and> R x s') m s"
  unfolding wpS_def by (drule (1) wpE_conj) (erule wpE_mono, auto)

lemma wpS_total: "wpS (\<lambda>_. False) Q m s \<longleftrightarrow> (\<exists>x s'. m s = Inr (x, s') \<and> Q x s')"
  by (auto simp: wpS_def wpE_total)

lemma wpS_weaken_exits: "wpS E Q m s \<Longrightarrow> (\<And>e. E e \<Longrightarrow> E' e) \<Longrightarrow> wpS E' Q m s"
  by (cases "m s") (auto simp: wpS_def)

lemma wpS_mapS:
  assumes step: "\<And>x s. x \<in> set xs \<Longrightarrow> I s \<Longrightarrow> wpS E (\<lambda>y s'. I s' \<and> R x y) (f x) s"
    and "I s" and post: "\<And>ys s'. I s' \<Longrightarrow> list_all2 R xs ys \<Longrightarrow> Q ys s'"
  shows "wpS E Q (mapS f xs) s"
proof -
  have "wpE E (\<lambda>(ys, s'). I s' \<and> list_all2 R xs ys) (mapS f xs s)"
    using step \<open>I s\<close> by (intro wpE_mapS) (simp_all add: wpS_def case_prod_unfold)
  then show ?thesis
    unfolding wpS_def by (rule wpE_mono) (auto intro: post)
qed

subsection \<open>Signed division of C++\<close>

definition tdiv :: "int \<Rightarrow> int \<Rightarrow> int" where
  "tdiv a b = sgn a * sgn b * (\<bar>a\<bar> div \<bar>b\<bar>)"

definition tmod :: "int \<Rightarrow> int \<Rightarrow> int" where
  "tmod a b = a - b * tdiv a b"

lemma tdiv_nonneg: "0 \<le> a \<Longrightarrow> 0 < b \<Longrightarrow> tdiv a b = a div b"
  by (auto simp: tdiv_def sgn_if)

lemma tdiv_mult_cancel [simp]: "0 < b \<Longrightarrow> tdiv (a * b) b = a"
  by (auto simp: tdiv_def sgn_if abs_mult zero_less_mult_iff)

lemma tdiv_error: "0 < b \<Longrightarrow> \<bar>a - b * tdiv a b\<bar> < b"
proof -
  assume b: "0 < b"
  have "b * tdiv a b = sgn a * (b * (\<bar>a\<bar> div b))"
    using b by (simp add: tdiv_def)
  also have "b * (\<bar>a\<bar> div b) = \<bar>a\<bar> - \<bar>a\<bar> mod b"
    by (simp add: minus_mod_eq_mult_div)
  finally have "a - b * tdiv a b = sgn a * (\<bar>a\<bar> mod b)"
    by (simp add: right_diff_distrib sgn_mult_abs)
  moreover have "0 \<le> \<bar>a\<bar> mod b" "\<bar>a\<bar> mod b < b"
    using b by simp_all
  ultimately show ?thesis
    by (auto simp: sgn_if abs_mult)
qed

lemma tdiv_abs_le: "0 < b \<Longrightarrow> \<bar>b * tdiv a b\<bar> \<le> \<bar>a\<bar>"
proof -
  assume b: "0 < b"
  have "b * (\<bar>a\<bar> div b) \<le> \<bar>a\<bar>"
    using b by (metis minus_mod_eq_mult_div pos_mod_sign diff_le_eq le_add_same_cancel1)
  moreover have "0 \<le> \<bar>a\<bar> div b"
    using b by (simp add: pos_imp_zdiv_nonneg_iff)
  ultimately show ?thesis
    using b by (auto simp: tdiv_def abs_mult sgn_if)
qed

subsection \<open>The type int of C++\<close>

text \<open>
  A size stored in an \<open>int\<close> wraps around, a product outside the type is undefined behaviour, and a vector of a negative size
  (\<open>reserve\<close> or the constructor, whose argument is unsigned) is a length error.
\<close>

definition int32 :: "int \<Rightarrow> int" where
  "int32 x = (x + 2 ^ 31) mod 2 ^ 32 - 2 ^ 31"

definition isize :: "'a list \<Rightarrow> int" where
  "isize xs = int32 (int (length xs))"

definition int32_times :: "int \<Rightarrow> int \<Rightarrow> int res" where
  "int32_times a b = (if - (2 ^ 31) \<le> a * b \<and> a * b < 2 ^ 31 then Inr (a * b) else Inl UndefinedBehaviour)"

definition vector_size :: "int \<Rightarrow> unit res" where
  "vector_size n = (if n < 0 then Inl (LogicError ''cannot create std::vector larger than max_size()'') else Inr ())"

text \<open>The first records of a table, as many as its number of records stored in an \<open>int\<close>.\<close>

definition int_rows :: "'a list \<Rightarrow> 'a list res" where
  "int_rows t = bindE (vector_size (isize t)) (\<lambda>_. Inr (take (nat (isize t)) t))"

lemma int32_id: "- (2 ^ 31) \<le> x \<Longrightarrow> x < 2 ^ 31 \<Longrightarrow> int32 x = x"
  by (simp add: int32_def)

lemma isize_small: "length xs < 2 ^ 31 \<Longrightarrow> isize xs = int (length xs)"
  unfolding isize_def by (rule int32_id) (simp_all add: less_imp_of_nat_less)

lemma isize_le: "isize xs \<le> int (length xs)"
proof -
  have "int32 x \<le> x" if "0 \<le> x" for x
  proof (cases "x < 2 ^ 31")
    case False
    then have "(x + 2 ^ 31) mod 2 ^ 32 < 2 ^ 32" "2 ^ 31 \<le> x" by simp_all
    moreover have "(x + 2 ^ 31) mod 2 ^ 32 \<le> x + 2 ^ 31" using that by (intro zmod_le_nonneg_dividend) simp
    ultimately show ?thesis by (simp add: int32_def)
  qed (use that in \<open>simp add: int32_id\<close>)
  then show ?thesis by (simp add: isize_def)
qed

lemma int32_times_nat:
  "int32_times (int a) (int b) = (if a * b < 2 ^ 31 then Inr (int (a * b)) else Inl UndefinedBehaviour)"
proof -
  have "int a * int b < 2 ^ 31 \<longleftrightarrow> a * b < 2 ^ 31"
    by (metis of_nat_less_iff of_nat_mult of_nat_numeral of_nat_power)
  moreover have "- (2 ^ 31) \<le> int a * int b" by (rule order_trans [of _ 0]) simp_all
  ultimately show ?thesis by (simp add: int32_times_def)
qed

lemma vector_size_ok [simp]: "0 \<le> n \<Longrightarrow> vector_size n = Inr ()"
  by (simp add: vector_size_def)

lemma int_rows_small: "length t < 2 ^ 31 \<Longrightarrow> int_rows t = Inr t"
  by (simp add: int_rows_def isize_small)

subsection \<open>Lists\<close>

lemma sum_list_map2_plus:
  "length xs = length ys \<Longrightarrow>
   sum_list (map2 (+) xs ys) = sum_list xs + (sum_list ys :: 'a :: comm_monoid_add)"
  by (induction xs ys rule: list_induct2) (auto simp: algebra_simps)

lemma sum_list_replicate_if:
  assumes "k < n"
  shows "sum_list (map (\<lambda>i. if i = k then x else 0) [0..<n]) = (x :: 'a :: comm_monoid_add)"
proof -
  have "sum_list (map (\<lambda>i. if i = k then x else 0) [0..<n]) = (\<Sum>i = 0..<n. if i = k then x else 0)"
    by (simp add: interv_sum_list_conv_sum_set_nat)
  also have "\<dots> = x"
    using assms by simp
  finally show ?thesis .
qed

end
