(* ===== verification/Numth.thy ===== *)
theory Numth
  imports Prelude
begin

section \<open>Primality certificates\<close>

text \<open>
  The modulus of the code's prime field is the constant \<open>2^64 - 59\<close>. That it is prime, and that
  every nonzero residue is a power of 2, is what makes \<open>getInv\<close> an inverse and \<open>modsqrt\<close> a square
  root. The library holds no number theory beyond \<open>gcd\<close>, so this theory proves Lucas' criterion:
  if \<open>g^(n-1) = 1\<close> modulo \<open>n\<close> and \<open>g^((n-1)/q) \<noteq> 1\<close> for every prime \<open>q\<close> dividing \<open>n - 1\<close>, then
  every residue from 1 to \<open>n - 1\<close> is a power of \<open>g\<close>, and \<open>n\<close> is prime.
\<close>

definition is_prime :: "nat \<Rightarrow> bool" where
  "is_prime q \<longleftrightarrow> 1 < q \<and> (\<forall>d. d dvd q \<longrightarrow> d = 1 \<or> d = q)"

lemma is_primeD: "is_prime q \<Longrightarrow> d dvd q \<Longrightarrow> d = 1 \<or> d = q"
  by (simp add: is_prime_def)

lemma is_prime_gt_1: "is_prime q \<Longrightarrow> 1 < q"
  by (simp add: is_prime_def)

lemma prime_factor_exists:
  assumes "1 < (m :: nat)"
  shows "\<exists>q. is_prime q \<and> q dvd m"
  using assms
proof (induction m rule: less_induct)
  case (less m)
  show ?case
  proof (cases "is_prime m")
    case True
    then show ?thesis using dvd_refl by metis
  next
    case False
    then obtain d where d: "d dvd m" "d \<noteq> 1" "d \<noteq> m"
      using less.prems by (auto simp: is_prime_def)
    then have "1 < d" "d < m"
      using less.prems dvd_imp_le [of d m] by (auto intro: Nat.gr0I simp: nat_neq_iff)
    then obtain q where "is_prime q" "q dvd d"
      using less.IH by blast
    then show ?thesis
      using d(1) dvd_trans by blast
  qed
qed

lemma is_prime_dvd_mult:
  assumes "is_prime q" "q dvd a * b"
  shows "q dvd a \<or> q dvd b"
proof (cases "q dvd a")
  case False
  have "gcd q a = 1"
    using is_primeD [OF assms(1), of "gcd q a"] False by (metis gcd_dvd1 gcd_dvd2)
  then have "coprime q a"
    by (simp add: coprime_iff_gcd_eq_1)
  then show ?thesis
    using assms(2) by (simp add: coprime_dvd_mult_right_iff)
qed simp

lemma is_prime_dvd_power: "is_prime q \<Longrightarrow> q dvd a ^ k \<Longrightarrow> q dvd a"
proof (induction k)
  case 0
  then show ?case by (simp add: is_prime_def)
next
  case (Suc k)
  then show ?case using is_prime_dvd_mult [of q a "a ^ k"] by auto
qed

lemma is_prime_dvd_prime: "is_prime q \<Longrightarrow> is_prime r \<Longrightarrow> q dvd r \<Longrightarrow> q = r"
  using is_primeD is_prime_gt_1 by (metis less_irrefl)

text \<open>Trial division up to a bound whose square exceeds the candidate.\<close>

lemma is_prime_trial:
  assumes "1 < n" "n < k * k" "list_all (\<lambda>d. n mod d \<noteq> 0) [2..<k]"
  shows "is_prime n"
proof (rule ccontr)
  assume "\<not> is_prime n"
  then obtain d where d: "d dvd n" "d \<noteq> 1" "d \<noteq> n"
    using assms(1) by (auto simp: is_prime_def)
  obtain e where e: "n = d * e"
    using d(1) by blast
  have "1 < d" "1 < e"
    using d e assms(1) by (auto simp: nat_neq_iff intro: Nat.gr0I)
  moreover have "d < k \<or> e < k"
    using assms(2) e by (meson le_less_linear less_le_not_le mult_le_mono)
  ultimately have "\<exists>c \<in> set [2..<k]. n mod c = 0"
    using e by (metis One_nat_def Suc_leI atLeastLessThan_iff mod_mult_self1_is_0
        mod_mult_self2_is_0 numeral_2_eq_2 set_upt)
  then show False
    using assms(3) unfolding list_all_iff by metis
qed

subsection \<open>Modular powers by certificate\<close>

text \<open>
  A power \<open>g^e\<close> modulo \<open>n\<close> is certified by the chain of its left-to-right binary evaluation: for each
  bit of the exponent the quotient and the remainder of the new square (times \<open>g\<close> where the bit is
  set), so that a step is checked by multiplications only.
\<close>

definition pow_is :: "int \<Rightarrow> int \<Rightarrow> nat \<Rightarrow> int \<Rightarrow> bool" where
  "pow_is n g e r \<longleftrightarrow> g ^ e mod n = r mod n"

type_synonym chain = "(bool \<times> int \<times> int) list"

fun chain_ok :: "int \<Rightarrow> int \<Rightarrow> int \<Rightarrow> chain \<Rightarrow> bool" where
  "chain_ok n g x [] = True"
| "chain_ok n g x ((b, q, r) # cs) =
     ((if b then g * (x * x) else x * x) = q * n + r \<and> chain_ok n g r cs)"

fun chain_exp :: "nat \<Rightarrow> chain \<Rightarrow> nat" where
  "chain_exp e [] = e"
| "chain_exp e ((b, q, r) # cs) = chain_exp (if b then 2 * e + 1 else 2 * e) cs"

fun chain_res :: "int \<Rightarrow> chain \<Rightarrow> int" where
  "chain_res x [] = x"
| "chain_res x ((b, q, r) # cs) = chain_res r cs"

lemma pow_is_square: "pow_is n g e x \<Longrightarrow> pow_is n g (2 * e) (x * x)"
  by (simp add: pow_is_def mult_2 power_add) (metis mod_mult_eq)

lemma pow_is_Suc: "pow_is n g e x \<Longrightarrow> pow_is n g (Suc e) (g * x)"
  by (simp add: pow_is_def) (metis mod_mult_right_eq)

lemma pow_is_mult: "pow_is n g e x \<Longrightarrow> pow_is n x k r \<Longrightarrow> pow_is n g (e * k) r"
  by (simp add: pow_is_def power_mult) (metis power_mod)

lemma pow_is_reduce: "pow_is n g e (q * n + r) = pow_is n g e r"
  by (simp add: pow_is_def)

lemma pow_chain_sound_aux:
  "pow_is n g e x \<Longrightarrow> chain_ok n g x cs \<Longrightarrow> pow_is n g (chain_exp e cs) (chain_res x cs)"
proof (induction cs arbitrary: e x)
  case Nil
  then show ?case by simp
next
  case (Cons c cs)
  obtain b q r where c: "c = (b, q, r)" by (cases c)
  have "pow_is n g (if b then 2 * e + 1 else 2 * e) (q * n + r)"
    using Cons.prems c pow_is_square [OF Cons.prems(1)]
      pow_is_Suc [OF pow_is_square [OF Cons.prems(1)]] by (auto split: if_splits)
  then have "pow_is n g (if b then 2 * e + 1 else 2 * e) r"
    by (simp only: pow_is_reduce)
  from Cons.IH [OF this] show ?case
    using Cons.prems(2) c by simp
qed

lemma pow_chain_sound:
  assumes "chain_ok n g g cs" "chain_exp 1 cs = e" "chain_res g cs = r"
  shows "pow_is n g e r"
  using pow_chain_sound_aux [of n g 1 g cs] assms by (simp add: pow_is_def)

lemma pow_is_nat:
  assumes "pow_is (int n) (int g) e (int r)" "r < n"
  shows "g ^ e mod n = r"
proof -
  have "int (g ^ e mod n) = int r"
    using assms by (simp add: pow_is_def zmod_int)
  then show ?thesis by linarith
qed

subsection \<open>Lucas' criterion\<close>

lemma power_mod_cycle:
  assumes "g ^ d mod n = (1 :: nat)"
  shows "g ^ (d * k + r) mod n = g ^ r mod n"
proof -
  have "g ^ (d * k) mod n = (g ^ d mod n) ^ k mod n"
    by (simp add: power_mult power_mod)
  then have k: "g ^ (d * k) mod n = 1 mod n"
    using assms by simp
  have "g ^ (d * k + r) mod n = (g ^ (d * k) mod n) * g ^ r mod n"
    by (simp add: power_add mod_mult_left_eq)
  also have "\<dots> = (1 mod n) * g ^ r mod n"
    by (simp only: k)
  also have "\<dots> = g ^ r mod n"
    by (simp add: mod_mult_left_eq)
  finally show ?thesis .
qed

lemma power_order_exists:
  assumes "1 < n" "g ^ m mod n = (1 :: nat)" "0 < m"
  shows "\<exists>d > 0. d dvd m \<and> (\<forall>k. g ^ k mod n = 1 \<longleftrightarrow> d dvd k)"
proof -
  define d where "d = (LEAST d. 0 < d \<and> g ^ d mod n = 1)"
  have d: "0 < d" "g ^ d mod n = 1"
    using LeastI [of "\<lambda>d. 0 < d \<and> g ^ d mod n = 1" m] assms by (auto simp: d_def)
  have least: "\<not> (0 < r \<and> g ^ r mod n = 1)" if "r < d" for r
    using not_less_Least that by (auto simp: d_def)
  have "d dvd k" if "g ^ k mod n = 1" for k
  proof -
    have "g ^ (k mod d) mod n = g ^ (d * (k div d) + k mod d) mod n"
      by (simp only: power_mod_cycle [OF d(2)])
    also have "\<dots> = 1"
      using that by simp
    finally show ?thesis
      using least [of "k mod d"] d(1) by (auto simp: dvd_eq_mod_eq_0)
  qed
  moreover have "g ^ k mod n = 1" if "d dvd k" for k
    using that power_mod_cycle [OF d(2), of _ 0] assms(1) by auto
  ultimately show ?thesis
    using d(1) assms(2) by blast
qed

lemma lucas_order:
  assumes n: "1 < n" and full: "g ^ (n - 1) mod n = 1"
    and cofactors: "\<And>q. is_prime q \<Longrightarrow> q dvd n - 1 \<Longrightarrow> g ^ ((n - 1) div q) mod n \<noteq> 1"
  shows "g ^ k mod n = 1 \<longleftrightarrow> n - 1 dvd (k :: nat)"
proof -
  from n full obtain d where d: "0 < d" "d dvd n - 1" "\<And>k. g ^ k mod n = 1 \<longleftrightarrow> d dvd k"
    using power_order_exists [of n g "n - 1"] by auto
  obtain m where m: "n - 1 = d * m"
    using d(2) by blast
  have "m = 1"
  proof (rule ccontr)
    assume "m \<noteq> 1"
    moreover have "m \<noteq> 0"
      using m n by (cases m) auto
    ultimately obtain q where q: "is_prime q" "q dvd m"
      using prime_factor_exists [of m] by auto
    then have "(n - 1) div q = d * (m div q)"
      by (simp only: m div_mult_swap)
    then have "g ^ ((n - 1) div q) mod n = 1"
      by (simp only: d(3) dvd_triv_left)
    then show False
      using cofactors [OF q(1)] q(2) m by auto
  qed
  then show ?thesis
    using d(3) m by simp
qed

lemma lucas_powers_inj:
  assumes n: "1 < n" and full: "g ^ (n - 1) mod n = 1"
    and ord: "\<And>k. g ^ k mod n = 1 \<longleftrightarrow> n - 1 dvd (k :: nat)"
  shows "inj_on (\<lambda>k. g ^ k mod n) {..<n - 1}"
proof (rule linorder_inj_onI')
  fix i j
  assume ij: "i \<in> {..<n - 1}" "j \<in> {..<n - 1}" "i < j"
  show "g ^ i mod n \<noteq> g ^ j mod n"
  proof
    assume eq: "g ^ i mod n = g ^ j mod n"
    let ?c = "n - 1 - i"
    have "g ^ (j + ?c) mod n = (g ^ i mod n) * g ^ ?c mod n"
      by (simp add: power_add eq mod_mult_left_eq)
    also have "\<dots> = g ^ (n - 1) mod n"
      using ij by (simp add: mod_mult_left_eq flip: power_add)
    finally have "n - 1 dvd j + ?c"
      using full ord by simp
    moreover have "j + ?c = (n - 1) + (j - i)"
      using ij by auto
    ultimately have "n - 1 dvd j - i"
      by (metis dvd_add_right_iff dvd_refl)
    then show False
      using ij by (auto dest: dvd_imp_le)
  qed
qed

lemma lucas_generator:
  assumes n: "1 < n" and full: "g ^ (n - 1) mod n = 1"
    and ord: "\<And>k. g ^ k mod n = 1 \<longleftrightarrow> n - 1 dvd (k :: nat)"
  shows "(\<lambda>k. g ^ k mod n) ` {..<n - 1} = {1..<n}"
proof (rule card_subset_eq)
  have "g ^ k mod n \<noteq> 0" if "k < n - 1" for k
  proof
    assume "g ^ k mod n = 0"
    then have "(g ^ k * g ^ (n - 1 - k)) mod n = 0"
      by (metis mod_mult_left_eq mult_0 mod_0)
    then show False
      using full that by (simp flip: power_add)
  qed
  then show "(\<lambda>k. g ^ k mod n) ` {..<n - 1} \<subseteq> {1..<n}"
    using n by (auto simp: Suc_le_eq)
  show "card ((\<lambda>k. g ^ k mod n) ` {..<n - 1}) = card {1..<n}"
    using lucas_powers_inj [OF assms] by (simp add: card_image)
qed simp

lemma lucas_prime:
  assumes n: "1 < n" and full: "g ^ (n - 1) mod n = 1"
    and ord: "\<And>k. g ^ k mod n = 1 \<longleftrightarrow> n - 1 dvd (k :: nat)"
  shows "is_prime n"
  unfolding is_prime_def
proof (intro conjI allI impI)
  fix d
  assume d: "d dvd n"
  show "d = 1 \<or> d = n"
  proof (rule ccontr)
    assume "\<not> (d = 1 \<or> d = n)"
    then have "d \<in> {1..<n}"
      using d n dvd_imp_le [of d n] by (auto intro: Nat.gr0I simp: Suc_le_eq)
    then have "d \<in> (\<lambda>k. g ^ k mod n) ` {..<n - 1}"
      by (simp only: lucas_generator [OF assms])
    then obtain k where k: "k < n - 1" "d = g ^ k mod n"
      by auto
    have "d * g ^ (n - 1 - k) mod n = 1"
      using k full by (simp add: mod_mult_left_eq flip: power_add)
    moreover have "d dvd d * g ^ (n - 1 - k) mod n"
      using d by (simp only: dvd_mod_iff dvd_triv_left)
    ultimately have "d dvd 1"
      by simp
    then show False
      using \<open>\<not> (d = 1 \<or> d = n)\<close> by simp
  qed
qed (rule n)

lemma is_prime_dvd_prod_list:
  assumes "is_prime q" "q dvd prod_list rs" "list_all is_prime rs"
  shows "q \<in> set rs"
  using assms
proof (induction rs)
  case Nil
  then show ?case by (simp add: is_prime_def)
next
  case (Cons r rs)
  then show ?case
    using is_prime_dvd_mult [of q r "prod_list rs"] is_prime_dvd_prime by auto
qed

text \<open>The criterion as a certificate: the factorisation of \<open>n - 1\<close> and the modular powers.\<close>

lemma lucas_certificate:
  assumes n: "1 < n" and full: "pow_is (int n) (int g) (n - 1) 1"
    and factors: "prod_list rs = n - 1" "list_all is_prime rs"
    and cofactors: "list_all (\<lambda>q. \<exists>r. pow_is (int n) (int g) ((n - 1) div q) (int r) \<and> r \<noteq> 1 \<and> r < n) rs"
  shows "is_prime n" "(\<lambda>k. g ^ k mod n) ` {..<n - 1} = {1..<n}"
proof -
  have full': "g ^ (n - 1) mod n = 1"
    using full n pow_is_nat [of n g "n - 1" 1] by simp
  have "g ^ ((n - 1) div q) mod n \<noteq> 1" if "is_prime q" "q dvd n - 1" for q
  proof -
    have "q \<in> set rs"
      using that is_prime_dvd_prod_list factors by simp
    then obtain r where "pow_is (int n) (int g) ((n - 1) div q) (int r)" "r \<noteq> 1" "r < n"
      using cofactors unfolding list_all_iff by metis
    then show ?thesis
      using pow_is_nat by metis
  qed
  then have "\<And>k. g ^ k mod n = 1 \<longleftrightarrow> n - 1 dvd k"
    using lucas_order [OF n full'] by metis
  then show "is_prime n" "(\<lambda>k. g ^ k mod n) ` {..<n - 1} = {1..<n}"
    using lucas_prime [OF n full'] lucas_generator [OF n full'] by metis+
qed

subsection \<open>The certificate of the modulus\<close>

lemma is_prime_2: "is_prime 2" by (rule is_prime_trial [of 2 2]) simp_all
lemma is_prime_3: "is_prime 3" by (rule is_prime_trial [of 3 2]) simp_all
lemma is_prime_5: "is_prime 5" by (rule is_prime_trial [of 5 3]) simp_all
lemma is_prime_11: "is_prime 11" by (rule is_prime_trial [of 11 4]) simp_all
lemma is_prime_137: "is_prime 137" by (rule is_prime_trial [of 137 12]) simp_all
lemma is_prime_547: "is_prime 547" by (rule is_prime_trial [of 547 24]) simp_all
lemma is_prime_1427: "is_prime 1427" by (rule is_prime_trial [of 1427 38]) simp_all
lemma is_prime_2131: "is_prime 2131" by (rule is_prime_trial [of 2131 47]) simp_all
lemma is_prime_15331: "is_prime 15331" by (rule is_prime_trial [of 15331 124]) simp_all

lemmas is_prime_small = is_prime_2 is_prime_3 is_prime_5 is_prime_11 is_prime_137 is_prime_547
  is_prime_1427 is_prime_2131 is_prime_15331

text \<open>Powers of 13 modulo 5594472617641, the large prime factor of \<open>p - 1\<close>.\<close>

lemma pow13_1: "pow_is 5594472617641 13 5594472617640 1"
  by (rule pow_chain_sound [where cs = "
    [(False, 0, 169), (True, 0, 371293), (False, 0, 137858491849),
     (False, 3397096576, 966801141585), (False, 167076418324, 2908198258541),
     (True, 19653152308950, 2996380645903), (False, 1604851357540, 563268322269),
     (True, 737250125119, 1895840384414), (True, 8351947201231, 5086476088077),
     (False, 4624607315620, 761394705509), (True, 1347112620542, 1948966156631),
     (False, 678968213682, 439254505999), (False, 34488419950, 4446940650051),
     (True, 45952259034273, 1574758523820), (False, 443270452432, 3584092839488),
     (False, 2296145206174, 1063117586610), (False, 202024226447, 1624620340573),
     (False, 471785533935, 5034224820994), (True, 58891065636671, 2173849811357),
     (False, 844694991881, 123173808728), (False, 2711924464, 1603183108560),
     (False, 459417045222, 88733312298), (True, 18296060458, 4881921190874),
     (True, 55381629307429, 4146873735399), (False, 3073848591753, 5547990774528),
     (True, 71524636653588, 1492442350284), (True, 5175821954096, 781951640992),
     (False, 109295086532, 4104010033052), (False, 3010632011725, 2527578593979),
     (True, 14845455829338, 757531530075), (False, 102575177014, 3269115401651),
     (True, 24833887144779, 176019389074), (True, 71995477825, 3852158196363),
     (False, 2652461417545, 1907632516424), (True, 8456168590612, 1392848534796),
     (False, 346775679045, 2247601728771), (True, 11738778682763, 1551502793650),
     (False, 430274859351, 5252403911509), (True, 64106258723004, 182511628489),
     (False, 5954179564, 2391128334597), (False, 1021989936009, 5594472617640),
     (False, 5594472617639, 1)]"])
    simp_all

lemma pow13_2: "pow_is 5594472617641 13 2797236308820 5594472617640"
  by (rule pow_chain_sound [where cs = "
    [(False, 0, 169), (True, 0, 371293), (False, 0, 137858491849),
     (False, 3397096576, 966801141585), (False, 167076418324, 2908198258541),
     (True, 19653152308950, 2996380645903), (False, 1604851357540, 563268322269),
     (True, 737250125119, 1895840384414), (True, 8351947201231, 5086476088077),
     (False, 4624607315620, 761394705509), (True, 1347112620542, 1948966156631),
     (False, 678968213682, 439254505999), (False, 34488419950, 4446940650051),
     (True, 45952259034273, 1574758523820), (False, 443270452432, 3584092839488),
     (False, 2296145206174, 1063117586610), (False, 202024226447, 1624620340573),
     (False, 471785533935, 5034224820994), (True, 58891065636671, 2173849811357),
     (False, 844694991881, 123173808728), (False, 2711924464, 1603183108560),
     (False, 459417045222, 88733312298), (True, 18296060458, 4881921190874),
     (True, 55381629307429, 4146873735399), (False, 3073848591753, 5547990774528),
     (True, 71524636653588, 1492442350284), (True, 5175821954096, 781951640992),
     (False, 109295086532, 4104010033052), (False, 3010632011725, 2527578593979),
     (True, 14845455829338, 757531530075), (False, 102575177014, 3269115401651),
     (True, 24833887144779, 176019389074), (True, 71995477825, 3852158196363),
     (False, 2652461417545, 1907632516424), (True, 8456168590612, 1392848534796),
     (False, 346775679045, 2247601728771), (True, 11738778682763, 1551502793650),
     (False, 430274859351, 5252403911509), (True, 64106258723004, 182511628489),
     (False, 5954179564, 2391128334597), (False, 1021989936009, 5594472617640)]"])
    simp_all

lemma pow13_3: "pow_is 5594472617641 13 1864824205880 633520002390"
  by (rule pow_chain_sound [where cs = "
    [(True, 0, 2197), (False, 0, 4826809), (True, 54, 773585239639),
     (True, 1390594633407, 1291662921286), (False, 298221694206, 3108768805750),
     (False, 1727498577279, 3130775883661), (True, 22776561428948, 5347295046305),
     (False, 5111038388511, 1219583830474), (False, 265866833428, 1767489761328),
     (False, 558411895081, 3636882599663), (True, 30735675607080, 4035267778117),
     (True, 37838064997747, 5071415399130), (False, 4597261602359, 3084414141781),
     (False, 1700537521270, 2508155127891), (False, 1124474561861, 693311717980),
     (False, 85920724104, 664010961736), (False, 78811817921, 24911589335),
     (False, 110928647, 5042221280498), (True, 59078301625320, 1055132393932),
     (False, 199000771800, 147935096824), (True, 50854178183, 2811470404385),
     (True, 18367550057802, 2164759081843), (True, 10889384690056, 5309056718541),
     (True, 65496626254543, 1878832999790), (False, 630982343173, 3585064329207),
     (False, 2297390142553, 1324820671376), (True, 4078480512178, 4757976401790),
     (True, 52605211042032, 2701381966788), (False, 1304406157512, 4205939167752),
     (False, 3162036083088, 1768466178096), (True, 7267377441744, 4441808201904),
     (False, 3526634492818, 3088754622878), (False, 1705326984757, 2888504704647),
     (False, 1491375505612, 1017177693317), (True, 2404240202150, 2170287884207),
     (True, 10945078774946, 4958171822651), (True, 57125148971209, 2719782183444),
     (False, 1322236362736, 3627359075360), (False, 2351916750849, 633520002391),
     (False, 71740022851, 633520002390)]"])
    simp_all

lemma pow13_5: "pow_is 5594472617641 13 1118894523528 5539104407118"
  by (rule pow_chain_sound [where cs = "
    [(False, 0, 169), (False, 0, 28561), (False, 0, 815730721), (False, 118941, 4441568341660),
     (False, 3526253622446, 4830358385714), (True, 54217926957266, 3822626037842),
     (False, 2611947689065, 2796314221299), (False, 1397696218868, 1644731397013),
     (True, 6285996945855, 3596934360142), (False, 2312628495199, 3022627054605),
     (False, 1633089468061, 4926717041924), (False, 4338664691046, 1672619279290),
     (False, 500074885455, 4641935592445), (False, 3851581286940, 3399814169485),
     (True, 26859291894213, 1248597536392), (True, 3622673107485, 4969236766747),
     (False, 4413877005336, 2668440229633), (True, 16546233880333, 2871768336504),
     (False, 1474143130585, 5587941292031), (False, 5581417591485, 2468081718076),
     (True, 14154784764270, 2207258356018), (True, 11321149852987, 488265868545),
     (True, 553983631852, 715360720193), (True, 1189143809366, 222980818631),
     (True, 115536501004, 632012672529), (False, 71399047870, 2895025781171),
     (False, 1498116953368, 3723886966353), (False, 2478756280698, 3139931527191),
     (False, 1762305523555, 2071738316726), (True, 9973647080322, 2302266507586),
     (False, 947440703389, 3948305662047), (False, 2786521387520, 753226989889),
     (True, 1318365855363, 3009598761490), (False, 1619041744274, 3526603882466),
     (False, 2223075487867, 3426116579409), (False, 2098191486126, 1843448440515),
     (True, 7896710021884, 2111540592281), (False, 796965858549, 3265308720052),
     (False, 1905852752523, 1977729824461), (False, 699157101283, 5539104407118)]"])
    simp_all

lemma pow13_1427: "pow_is 5594472617641 13 3920443320 693744849281"
  by (rule pow_chain_sound [where cs = "
    [(True, 0, 2197), (True, 0, 62748517), (False, 703, 4462135497666),
     (True, 46266826077173, 106601609335), (False, 2031273345, 5265419063080),
     (False, 4955719654864, 4309861230576), (True, 43162915658439, 2010082870689),
     (True, 9388844043289, 3182090290124), (False, 1809946943447, 4177410386849),
     (True, 40550712020047, 2150860085286), (False, 826923183409, 2322221783627),
     (True, 12531169057742, 5157451750055), (True, 61809402751120, 4835258031405),
     (False, 4179074924157, 80631020388), (True, 15107357674, 2429302590038),
     (False, 1054882466553, 4978556579971), (False, 4430449001004, 738801249277),
     (True, 1268350960331, 1880887496306), (True, 8220719664238, 884651770710),
     (False, 139889639097, 490048393923), (True, 558035901217, 5528695719980),
     (True, 71027998507066, 652370853894), (True, 988947641943, 4277421205605),
     (True, 42515592526461, 2904656509824), (False, 1508100944753, 3759974323303),
     (True, 32851405738431, 5440872526246), (True, 68789365202297, 3674369161331),
     (True, 31372546714265, 4923748641428), (False, 4333438080922, 3182795134182),
     (False, 1810748851326, 4414230967158), (False, 3482979784363, 693744849281)]"])
    simp_all

lemma pow13_2131: "pow_is 5594472617641 13 2625280440 2614630137118"
  by (rule pow_chain_sound [where cs = "
    [(False, 0, 169), (False, 0, 28561), (True, 0, 10604499373),
     (True, 261315121, 1365401461116), (True, 4332164371277, 1084395653371),
     (False, 210192097346, 3189474782855), (False, 1818357168893, 4849753709612),
     (False, 4204169481450, 1368128931094), (True, 4349489165524, 3121989069984),
     (True, 22648891763406, 4646973038082), (True, 50179289202592, 4055486977940),
     (True, 38218199422931, 1335395841029), (False, 318757847989, 4917442004892),
     (True, 56190473671805, 672087799627), (False, 80740767053, 2123381957156),
     (True, 10477084467775, 4317693889593), (False, 3332303471366, 1592163738043),
     (False, 453123206063, 1904873512466), (True, 8431726009648, 2081165214660),
     (True, 10064618473900, 3150787832900), (False, 1774512924890, 3532800425510),
     (False, 2230894616791, 3675697350069), (True, 31395231530334, 2582270939799),
     (True, 15494865666434, 4660938123019), (False, 3883180001294, 1452830446907),
     (True, 4904718258957, 1137611806000), (True, 3007269715094, 3126799626746),
     (True, 22718743206439, 5545964940309), (False, 5497877855751, 2824757112090),
     (False, 1426274340344, 4548611759596), (False, 3698269766178, 2614630137118)]"])
    simp_all

lemma pow13_15331: "pow_is 5594472617641 13 364912440 4170830691369"
  by (rule pow_chain_sound [where cs = "
    [(False, 0, 169), (True, 0, 371293), (False, 0, 137858491849),
     (True, 44162255490, 1379469605323), (True, 4421895464842, 423844668555),
     (True, 417443448100, 3379547312225), (False, 2041540072884, 872230303981),
     (False, 135988815243, 383132946598), (False, 26238550941, 2862926023423),
     (False, 1465079190797, 3181277587052), (False, 1809022543781, 1323842610083),
     (False, 313266214002, 5115346857607), (False, 4677254723013, 1541021294116),
     (False, 424480874467, 1013165549109), (False, 183485468614, 5291362474307),
     (True, 65060774039865, 2699020434772), (True, 16927645100361, 4414962927391),
     (True, 45293754527290, 2827524946563), (True, 18577920084359, 45800091478),
     (True, 4874352024, 5100200462908), (False, 4649597297129, 1182399763775),
     (False, 249901875820, 3064278910005), (True, 21819298518506, 1946457735979),
     (True, 8803880848048, 3866598934965), (True, 34741011082523, 4701017577682),
     (False, 3950250144399, 2527139750365), (False, 1141561636701, 1686791990884),
     (False, 508585422607, 4170830691369)]"])
    simp_all

text \<open>
  Powers of 2 modulo \<open>p\<close>: first \<open>u = 2^5594472617641\<close>, then powers of \<open>u\<close>.
\<close>

lemma pow2_u: "pow_is 18446744073709551557 2 5594472617641 2715265821331066152"
  by (rule pow_chain_sound [where cs = "
    [(False, 0, 4), (True, 0, 32), (False, 0, 1024), (False, 0, 1048576),
     (False, 0, 1099511627776), (True, 131072, 7733248), (False, 0, 59803124629504),
     (True, 387755552, 22877577568), (True, 56, 13749442631978702056),
     (False, 10248267766640996177, 8321915967997229547),
     (True, 7508564666120026263, 16482602352027108927),
     (False, 14727595244422817503, 15889612057342589158),
     (False, 13686955829385804482, 2224664233278470490),
     (True, 536585852880349363, 16886027983381072009),
     (False, 15457358757522392636, 7749825984804161829),
     (False, 3255848433455718188, 14335190264372006525),
     (False, 11140051550269129025, 7442590960919933700),
     (False, 3002815022002308559, 2389833909762813637),
     (True, 619221049897040162, 18266558058947703304),
     (False, 18088132083777992572, 4801633988615481812),
     (False, 1249851402963115577, 2739032180671499955),
     (False, 406700350846543535, 17704686701237468030),
     (True, 33984960157355332855, 579598406025656565),
     (True, 36422071117282765, 18311823518140183345),
     (False, 18177889779336007361, 13712094988054377948),
     (True, 20385337185806770036, 15903823810272635356),
     (True, 27422900299102103190, 18300609624243326642),
     (False, 18155632846680363634, 3124177490876118026),
     (False, 529116951777290523, 3474461688646142365),
     (True, 1308836288684109800, 8654721401946627850),
     (False, 4060564956396130472, 14640136045212877596),
     (True, 23238093678310559730, 11733729945794478822),
     (True, 14927340878226564197, 14562131951471210639),
     (False, 11495561825150607737, 8410024564022191812),
     (True, 7668400763282611473, 13347949894346473227),
     (False, 9658493968911845180, 15761892089815848269),
     (True, 26935619777484111160, 6955993263721516602),
     (False, 2623001766143598702, 4639957268374347390),
     (True, 2334200915490938048, 4137984001450683464),
     (False, 928234897597214548, 6817421367326588060),
     (False, 2519535909099582209, 18142799519489114187),
     (True, 35687726038710277698, 2715265821331066152)]"])
    simp_all

lemma powu_1: "pow_is 18446744073709551557 2715265821331066152 3297316 1"
  by (rule pow_chain_sound [where cs = "
    [(True, 1085218868819599482064525254861582380, 4206685795973338148),
     (False, 959313216214920669, 16536883026031638271),
     (False, 14824757102062408168, 16268799181417951865),
     (True, 38958625590170338683253130312154431086, 5208709299978039298),
     (False, 1470755622958120888, 14348688626557710188),
     (False, 11161040912110628683, 3268041432527485913),
     (True, 1572055007428204858319193365221979307, 12875435281554345489),
     (False, 8986780161695901034, 11692783917982039183),
     (True, 20124656600385531098622571577857888251, 6964973113914955521),
     (False, 2629778473844403108, 9145798466391342285),
     (False, 4534438665903033503, 16122840451952207054),
     (False, 14091700042046095367, 8213398757262022497),
     (False, 3657009544678280458, 4566767849877541903),
     (False, 1130571796916637805, 16037465166778049024),
     (False, 13942855603563297774, 882850066151018458),
     (True, 114727237979749814510723740350885130, 10481686445434836718),
     (False, 5955834281725301128, 5980479585654755228),
     (False, 1938886121665636289, 5522736409337680011),
     (True, 4489533966128486937366227368288108343, 2296021864060584341),
     (False, 285780318693613425, 18446744073709551556), (False, 18446744073709551555, 1)]"])
    simp_all

lemma powu_2: "pow_is 18446744073709551557 2715265821331066152 1648658 18446744073709551556"
  by (rule pow_chain_sound [where cs = "
    [(True, 1085218868819599482064525254861582380, 4206685795973338148),
     (False, 959313216214920669, 16536883026031638271),
     (False, 14824757102062408168, 16268799181417951865),
     (True, 38958625590170338683253130312154431086, 5208709299978039298),
     (False, 1470755622958120888, 14348688626557710188),
     (False, 11161040912110628683, 3268041432527485913),
     (True, 1572055007428204858319193365221979307, 12875435281554345489),
     (False, 8986780161695901034, 11692783917982039183),
     (True, 20124656600385531098622571577857888251, 6964973113914955521),
     (False, 2629778473844403108, 9145798466391342285),
     (False, 4534438665903033503, 16122840451952207054),
     (False, 14091700042046095367, 8213398757262022497),
     (False, 3657009544678280458, 4566767849877541903),
     (False, 1130571796916637805, 16037465166778049024),
     (False, 13942855603563297774, 882850066151018458),
     (True, 114727237979749814510723740350885130, 10481686445434836718),
     (False, 5955834281725301128, 5980479585654755228),
     (False, 1938886121665636289, 5522736409337680011),
     (True, 4489533966128486937366227368288108343, 2296021864060584341),
     (False, 285780318693613425, 18446744073709551556)]"])
    simp_all

lemma powu_11: "pow_is 18446744073709551557 2715265821331066152 299756 7233656613878036887"
  by (rule pow_chain_sound [where cs = "
    [(False, 399673159178060904, 10259862434326059576),
     (False, 5706415004766031671, 15933614639231938029),
     (True, 37369840926416448950337278486929704221, 3415150430584019735),
     (False, 632266182959668036, 2880521199722538173),
     (False, 449803084430303093, 9056278458822112128),
     (True, 12072359662338038065756667613240921177, 3600837118995355779),
     (False, 702889784003349491, 18377955803234489354),
     (False, 18309424045569278194, 1862463325220489258),
     (True, 510585044272898923027161918336639717, 15822123741911200359),
     (False, 13570936892930395313, 3756297996277076540),
     (True, 2076886233418546280282145294370364381, 1595122148722191983),
     (True, 374524748614572686402450297910544765, 275883995145912823),
     (True, 11203291688934011258994021657516216, 2324680873025223696),
     (False, 292959079380915886, 15981710309842565914),
     (True, 37595783403429578485192558551183841074, 2343482768102503974),
     (True, 808381115266926292431446492447533436, 7294920275989742900),
     (False, 2884837650503860041, 928663288498776163),
     (False, 46751638118863626, 7233656613878036887)]"])
    simp_all

lemma powu_137: "pow_is 18446744073709551557 2715265821331066152 24068 808296807897363856"
  by (rule pow_chain_sound [where cs = "
    [(False, 399673159178060904, 10259862434326059576),
     (True, 15494433624771958757758114754958103289, 15016055147562010979),
     (True, 33189777397248549287895913336400408508, 7365814970734502076),
     (True, 7986090746202171950274726975084656925, 13683807793899719727),
     (True, 27561735531371549362449452425563188780, 8316609803613071948),
     (False, 3749496298597702034, 10992788824577747766),
     (False, 6550825753255045592, 2256735215208404012),
     (False, 276084159416517190, 12586656538535931314),
     (False, 8588178064705541441, 14213591368336192959),
     (False, 10951861140306623040, 14244979774237102401),
     (False, 11000285359714322919, 5578980307182729918),
     (True, 4581442996082349071326737600513227421, 10155823581609721551),
     (False, 5591271403161989173, 6700062861834553240),
     (False, 2433537440166116592, 808296807897363856)]"])
    simp_all

lemma powu_547: "pow_is 18446744073709551557 2715265821331066152 6028 16285151747536493802"
  by (rule pow_chain_sound [where cs = "
    [(False, 399673159178060904, 10259862434326059576),
     (True, 15494433624771958757758114754958103289, 15016055147562010979),
     (True, 33189777397248549287895913336400408508, 7365814970734502076),
     (True, 7986090746202171950274726975084656925, 13683807793899719727),
     (True, 27561735531371549362449452425563188780, 8316609803613071948),
     (False, 3749496298597702034, 10992788824577747766),
     (False, 6550825753255045592, 2256735215208404012),
     (False, 276084159416517190, 12586656538535931314),
     (True, 23319186366600138170711426201119081631, 9384949056701709125),
     (True, 12964520819759061440393922082064218556, 1562805362464533308),
     (False, 132400633477035839, 13042536835934171541),
     (False, 9221560533229206147, 16285151747536493802)]"])
    simp_all

lemma pow2_c: "pow_is 18446744073709551557 2 3297316 11493017446059487016"
  by (rule pow_chain_sound [where cs = "
    [(True, 0, 8), (False, 0, 64), (False, 0, 4096), (True, 0, 33554432),
     (False, 0, 1125899906842624), (False, 68719476736, 4054449127424),
     (True, 1782272, 105154048), (False, 0, 11057373810786304),
     (True, 13256053762432, 7961574084174254208),
     (False, 3436197826809680545, 18236870514628348699),
     (False, 18029384743366254100, 15207024341622358901),
     (False, 12536282197153665668, 10692998876667082725),
     (False, 6198396016094900125, 3199590993540181000),
     (False, 554969618759651071, 11075302503556232453),
     (False, 6649537991915781284, 15945028504836738021),
     (True, 27565182560580607465, 15724941571777419877),
     (False, 13404738876831402928, 1929396281097936233),
     (False, 201800924577252815, 12498645655068347334),
     (True, 16936988184662829964, 7387159903147361164),
     (False, 2958252752714335200, 13518867379275528496),
     (False, 9907427266739755000, 11493017446059487016)]"])
    simp_all

lemma is_prime_5594472617641: "is_prime 5594472617641"
proof (rule lucas_certificate(1) [where g = 13 and rs = "[2, 2, 2, 3, 5, 1427, 2131, 15331]"])
  show "pow_is (int 5594472617641) (int 13) (5594472617641 - 1) 1"
    using pow13_1 by simp
  let ?ok = "\<lambda>q. \<exists>r. pow_is (int 5594472617641) (int 13) ((5594472617641 - 1) div q) (int r) \<and>
    r \<noteq> 1 \<and> r < 5594472617641"
  have "?ok 2"
    by (rule exI [of _ 5594472617640]) (use pow13_2 in simp)
  moreover have "?ok 3"
    by (rule exI [of _ 633520002390]) (use pow13_3 in simp)
  moreover have "?ok 5"
    by (rule exI [of _ 5539104407118]) (use pow13_5 in simp)
  moreover have "?ok 1427"
    by (rule exI [of _ 693744849281]) (use pow13_1427 in simp)
  moreover have "?ok 2131"
    by (rule exI [of _ 2614630137118]) (use pow13_2131 in simp)
  moreover have "?ok 15331"
    by (rule exI [of _ 4170830691369]) (use pow13_15331 in simp)
  ultimately show "list_all ?ok [2, 2, 2, 3, 5, 1427, 2131, 15331]"
    by (simp only: list.pred_inject simp_thms)
qed (simp_all add: is_prime_small)

text \<open>The modulus of the prime field is prime, and 2 generates its residues.\<close>

lemma modulus_certificate:
  "is_prime 18446744073709551557"
  "(\<lambda>k. 2 ^ k mod 18446744073709551557) ` {..<18446744073709551557 - 1} =
   {1..<18446744073709551557 :: nat}"
proof -
  let ?p = "18446744073709551557 :: nat"
  let ?rs = "[2, 2, 11, 137, 547, 5594472617641] :: nat list"
  have full: "pow_is (int ?p) (int 2) (?p - 1) 1"
    using pow_is_mult [OF pow2_u powu_1] by simp
  let ?ok = "\<lambda>q. \<exists>r. pow_is (int ?p) (int 2) ((?p - 1) div q) (int r) \<and> r \<noteq> 1 \<and> r < ?p"
  have "?ok 2"
    by (rule exI [of _ 18446744073709551556]) (use pow_is_mult [OF pow2_u powu_2] in simp)
  moreover have "?ok 11"
    by (rule exI [of _ 7233656613878036887]) (use pow_is_mult [OF pow2_u powu_11] in simp)
  moreover have "?ok 137"
    by (rule exI [of _ 808296807897363856]) (use pow_is_mult [OF pow2_u powu_137] in simp)
  moreover have "?ok 547"
    by (rule exI [of _ 16285151747536493802]) (use pow_is_mult [OF pow2_u powu_547] in simp)
  moreover have "?ok 5594472617641"
    by (rule exI [of _ 11493017446059487016]) (use pow2_c in simp)
  ultimately have cof: "list_all ?ok ?rs"
    by (simp only: list.pred_inject simp_thms)
  have facs: "prod_list ?rs = ?p - 1" "list_all is_prime ?rs"
    by (simp_all add: is_prime_small is_prime_5594472617641)
  show "is_prime ?p" "(\<lambda>k. 2 ^ k mod ?p) ` {..<?p - 1} = {1..<?p}"
    by (rule lucas_certificate [OF _ full facs cof]; simp)+
qed

end
