(* ===== verification/GFp.thy ===== *)
theory GFp
  imports Numth
begin

section \<open>The field of integers modulo the code's prime\<close>

text \<open>
  The abstract specification of \<open>PrimeField\<close>: the field \<open>gfp\<close> of integers modulo
  \<open>p = 2^64 - 59\<close>, an instance of the library's type class \<open>field\<close>. \<open>of_int\<close> maps an integer to its
  residue class, and every operation of the C++ class is shown elsewhere to commute with it.
\<close>

definition pf_p :: int where
  "pf_p = 18446744073709551557"

lemma pf_p_pos [simp]: "0 < pf_p" "0 \<le> pf_p" "pf_p \<noteq> 0" "1 < pf_p" "2 < pf_p"
  by (simp_all add: pf_p_def)

typedef gfp = "{0..<pf_p}" morphisms gf_rep Abs_gfp
proof
  show "0 \<in> {0..<pf_p}" by simp
qed

setup_lifting type_definition_gfp

lemma gf_rep_bounds: "0 \<le> gf_rep x" "gf_rep x < pf_p"
  using gf_rep [of x] by auto

instantiation gfp :: comm_ring_1
begin

lift_definition zero_gfp :: gfp is 0 by simp
lift_definition one_gfp :: gfp is 1 by simp
lift_definition plus_gfp :: "gfp \<Rightarrow> gfp \<Rightarrow> gfp" is "\<lambda>a b. (a + b) mod pf_p" by simp
lift_definition minus_gfp :: "gfp \<Rightarrow> gfp \<Rightarrow> gfp" is "\<lambda>a b. (a - b) mod pf_p" by simp
lift_definition uminus_gfp :: "gfp \<Rightarrow> gfp" is "\<lambda>a. (- a) mod pf_p" by simp
lift_definition times_gfp :: "gfp \<Rightarrow> gfp \<Rightarrow> gfp" is "\<lambda>a b. (a * b) mod pf_p" by simp

instance
proof
  fix a b c :: gfp
  show "a + b + c = a + (b + c)"
    by transfer (simp add: mod_simps add.assoc)
  show "a + b = b + a"
    by transfer (simp add: add.commute)
  show "0 + a = a"
    by transfer simp
  show "- a + a = 0"
    by transfer (simp add: mod_simps)
  show "a - b = a + - b"
    by transfer (simp add: mod_simps)
  show "a * b * c = a * (b * c)"
    by transfer (simp add: mod_simps mult.assoc)
  show "a * b = b * a"
    by transfer (simp add: mult.commute)
  show "1 * a = a"
    by transfer simp
  show "(a + b) * c = a * c + b * c"
    by transfer (simp add: mod_simps distrib_right)
  show "(0 :: gfp) \<noteq> 1"
    by transfer simp
qed

end

lemma gf_rep_0 [simp]: "gf_rep 0 = 0" by transfer simp
lemma gf_rep_1 [simp]: "gf_rep 1 = 1" by transfer simp

lemma gf_rep_of_nat: "gf_rep (of_nat n) = int n mod pf_p"
proof (induction n)
  case 0
  then show ?case by simp
next
  case (Suc n)
  have "gf_rep (of_nat (Suc n)) = (1 + gf_rep (of_nat n)) mod pf_p"
    by (simp add: plus_gfp.rep_eq)
  also have "\<dots> = int (Suc n) mod pf_p"
    by (simp add: Suc.IH mod_simps)
  finally show ?case .
qed

lemma gf_rep_of_int: "gf_rep (of_int z) = z mod pf_p"
proof (cases z)
  case (nonneg n)
  then show ?thesis by (simp add: gf_rep_of_nat)
next
  case (neg n)
  have "gf_rep (of_int z) = gf_rep (- of_nat (Suc n))"
    by (simp add: neg)
  also have "\<dots> = (- (int (Suc n) mod pf_p)) mod pf_p"
    by (simp only: uminus_gfp.rep_eq gf_rep_of_nat)
  also have "\<dots> = z mod pf_p"
    by (simp add: neg mod_simps)
  finally show ?thesis .
qed

lemma of_int_gfp_eq_iff: "(of_int a :: gfp) = of_int b \<longleftrightarrow> a mod pf_p = b mod pf_p"
  by (metis gf_rep_inject gf_rep_of_int)

lemma of_int_gfp_mod [simp]: "(of_int (a mod pf_p) :: gfp) = of_int a"
  by (simp add: of_int_gfp_eq_iff)

lemma of_int_gf_rep [simp]: "of_int (gf_rep x) = x"
proof -
  have "gf_rep (of_int (gf_rep x)) = gf_rep x"
    using gf_rep_bounds [of x] by (simp add: gf_rep_of_int)
  then show ?thesis by (simp only: gf_rep_inject)
qed

lemma of_int_pf_p [simp]: "(of_int pf_p :: gfp) = 0"
  using of_int_gfp_mod [of pf_p] by simp

lemma of_int_gfp_eq_0_iff: "(of_int a :: gfp) = 0 \<longleftrightarrow> pf_p dvd a"
  using of_int_gfp_eq_iff [of a 0] by (auto simp: dvd_eq_mod_eq_0)

lemma of_int_gfp_inj: "0 \<le> a \<Longrightarrow> a < pf_p \<Longrightarrow> 0 \<le> b \<Longrightarrow> b < pf_p \<Longrightarrow>
    (of_int a :: gfp) = of_int b \<longleftrightarrow> a = b"
  by (simp add: of_int_gfp_eq_iff)

subsection \<open>Every nonzero residue is a power of 2\<close>

lemma gfp_power_of_2:
  assumes "x \<noteq> (0 :: gfp)"
  shows "\<exists>k. x = 2 ^ k"
proof -
  have "gf_rep x \<noteq> 0"
    using assms by (metis gf_rep_0 gf_rep_inject)
  then have "nat (gf_rep x) \<in> {1..<18446744073709551557}"
    using gf_rep_bounds [of x] by (auto simp: pf_p_def)
  then have "nat (gf_rep x) \<in> (\<lambda>k. 2 ^ k mod 18446744073709551557) ` {..<18446744073709551557 - 1}"
    by (simp only: modulus_certificate(2))
  then obtain k where k: "nat (gf_rep x) = 2 ^ k mod 18446744073709551557"
    by blast
  have "gf_rep x = int (2 ^ k mod 18446744073709551557)"
    using k gf_rep_bounds(1) [of x] by (simp flip: k)
  also have "\<dots> = 2 ^ k mod pf_p"
    by (simp add: zmod_int pf_p_def)
  finally have "of_int (gf_rep x) = (of_int (2 ^ k mod pf_p) :: gfp)"
    by simp
  then have "x = 2 ^ k"
    by simp
  then show ?thesis ..
qed

lemma gfp_two_full: "(2 :: gfp) ^ nat (pf_p - 1) = 1"
proof -
  have "pow_is pf_p 2 (nat (pf_p - 1)) 1"
    using pow_is_mult [OF pow2_u powu_1] by (simp add: pf_p_def)
  then have "(of_int (2 ^ nat (pf_p - 1)) :: gfp) = of_int 1"
    by (simp only: pow_is_def of_int_gfp_eq_iff)
  then show ?thesis by simp
qed

text \<open>Fermat's little theorem for the modulus.\<close>

lemma gfp_fermat:
  assumes "x \<noteq> (0 :: gfp)"
  shows "x ^ nat (pf_p - 1) = 1"
proof -
  obtain k where "x = 2 ^ k"
    using gfp_power_of_2 [OF assms] ..
  then have "x ^ nat (pf_p - 1) = (2 ^ nat (pf_p - 1)) ^ k"
    by (simp add: mult.commute flip: power_mult)
  then show ?thesis
    by (simp add: gfp_two_full)
qed

instantiation gfp :: field
begin

definition inverse_gfp :: "gfp \<Rightarrow> gfp" where
  "inverse_gfp x = x ^ nat (pf_p - 2)"

definition divide_gfp :: "gfp \<Rightarrow> gfp \<Rightarrow> gfp" where
  "divide_gfp x y = x * inverse y"

instance
proof
  fix x y :: gfp
  have e: "nat (pf_p - 1) = Suc (nat (pf_p - 2))"
    by (simp add: pf_p_def)
  show "inverse x * x = 1" if "x \<noteq> 0"
    using gfp_fermat [OF that] by (simp add: inverse_gfp_def e power_Suc2 del: power_Suc)
  show "x div y = x * inverse y"
    by (simp add: divide_gfp_def)
  show "inverse (0 :: gfp) = 0"
    by (simp add: inverse_gfp_def power_0_left pf_p_def)
qed

end

lemma of_int_gfp_numeral_neq_0:
  "0 < a \<Longrightarrow> a < pf_p \<Longrightarrow> (of_int a :: gfp) \<noteq> 0"
  by (auto simp: of_int_gfp_eq_0_iff dest: zdvd_imp_le)

lemma gfp_two_neq_0 [simp]: "(2 :: gfp) \<noteq> 0"
  using of_int_gfp_numeral_neq_0 [of 2] by simp

end
