(* ===== verification/PrimeField.thy ===== *)
theory PrimeField
  imports GFp
begin

section \<open>PrimeField\<close>

text \<open>
  \<open>PrimeField/PrimeField.hpp\<close>: the class \<open>PrimeField<checked_uint128_t>\<close> with its operators, and the
  functions \<open>modpow\<close>, \<open>Legendre\<close> and \<open>modsqrt\<close>. Two layers:
  \<^item> the operations as the code runs them, on checked 128-bit integers: a subtraction below zero or
    a value of more than 128 bits throws, so each returns a result of type \<open>res\<close>;
  \<^item> the total operations, an instance of the library's arithmetic classes, on which the protocols
    are written. \<open>pf_checked_ok\<close> shows that on well-formed values (\<open>wf_pf\<close>: at most \<open>p\<close>) every
    checked operation ends normally with the value of the total one, which is well-formed again.
  The total operations refine the field \<open>gfp\<close> through \<open>gf\<close>, the residue class of the stored value.
\<close>

subsection \<open>Checked 128-bit integers\<close>

definition checked128 :: "int \<Rightarrow> int res" where
  "checked128 x = (if x < 0 then Inl RangeError else if 2 ^ 128 \<le> x then Inl OverflowError else Inr x)"

lemma checked128_ok: "0 \<le> x \<Longrightarrow> x < 2 ^ 128 \<Longrightarrow> checked128 x = Inr x"
  by (simp add: checked128_def)

lemma checked128_eq_Inr: "checked128 x = Inr y \<longleftrightarrow> y = x \<and> 0 \<le> x \<and> x < 2 ^ 128"
  by (auto simp: checked128_def)

definition mulmod :: "int \<Rightarrow> int \<Rightarrow> int res" where
  "mulmod a b = bindE (checked128 (a * b)) (\<lambda>v. Inr (v mod pf_p))"

lemma mulmod_ok:
  assumes "0 \<le> a" "a \<le> pf_p" "0 \<le> b" "b \<le> pf_p"
  shows "mulmod a b = Inr (a * b mod pf_p)"
proof -
  have "a * b \<le> pf_p * pf_p"
    using assms by (intro mult_mono) auto
  also have "\<dots> < 2 ^ 128"
    by (simp add: pf_p_def)
  finally show ?thesis
    using assms by (simp add: mulmod_def checked128_ok)
qed

subsection \<open>modpow\<close>

fun modpow_loop :: "int \<Rightarrow> nat \<Rightarrow> int \<Rightarrow> int res" where
  "modpow_loop a b ret =
     (if b = 0 then Inr ret
      else bindE (if odd b then mulmod ret a else Inr ret) (\<lambda>ret'.
           bindE (mulmod a a) (\<lambda>a'. modpow_loop a' (b div 2) ret')))"

declare modpow_loop.simps [simp del]

definition modpow :: "int \<Rightarrow> int \<Rightarrow> int res" where
  "modpow a b = modpow_loop a (nat b) 1"

lemma power_split_odd:
  "(a :: 'a :: comm_monoid_mult) ^ b = (if odd b then a else 1) * (a * a) ^ (b div 2)"
  by (cases "odd b") (auto elim!: oddE evenE simp: power_mult power2_eq_square power_add)

lemma modpow_loop_ok:
  assumes "0 \<le> a" "a \<le> pf_p" "0 \<le> ret" "ret < pf_p"
  shows "modpow_loop a b ret = Inr (ret * a ^ b mod pf_p)"
  using assms
proof (induction b arbitrary: a ret rule: less_induct)
  case (less b)
  show ?case
  proof (cases "b = 0")
    case True
    with less.prems show ?thesis by (simp add: modpow_loop.simps)
  next
    case False
    let ?r = "if odd b then ret * a mod pf_p else ret"
    have "modpow_loop a b ret = modpow_loop (a * a mod pf_p) (b div 2) ?r"
      using False less.prems by (subst modpow_loop.simps) (simp add: mulmod_ok)
    also have "\<dots> = Inr (?r * (a * a mod pf_p) ^ (b div 2) mod pf_p)"
      using False less.prems by (intro less.IH) (auto intro: less_imp_le)
    also have "?r * (a * a mod pf_p) ^ (b div 2) mod pf_p = ?r * (a * a) ^ (b div 2) mod pf_p"
      by (metis mod_mult_right_eq power_mod)
    also have "\<dots> = ret * a ^ b mod pf_p"
      by (subst (2) power_split_odd) (simp add: mod_mult_left_eq mult.assoc)
    finally show ?thesis .
  qed
qed

lemma modpow_ok: "0 \<le> a \<Longrightarrow> a \<le> pf_p \<Longrightarrow> modpow a b = Inr (a ^ nat b mod pf_p)"
  by (simp add: modpow_def modpow_loop_ok)

subsection \<open>The class\<close>

datatype pf = PF (getVal: int)

definition wf_pf :: "pf \<Rightarrow> bool" where
  "wf_pf x \<longleftrightarrow> 0 \<le> getVal x \<and> getVal x \<le> pf_p"

definition gf :: "pf \<Rightarrow> gfp" where
  "gf x = of_int (getVal x)"

definition pf_make :: "int \<Rightarrow> pf res" where
  "pf_make obj =
     (if obj < 0 \<or> pf_p < obj then Inl (RuntimeError ''PrimeField'') else Inr (PF (obj mod pf_p)))"

definition pf_getInv :: "pf \<Rightarrow> pf res" where
  "pf_getInv x = bindE (modpow (getVal x) (pf_p - 2)) pf_make"

definition pf_neg :: "pf \<Rightarrow> pf res" where
  "pf_neg x = bindE (checked128 (pf_p - getVal x)) (\<lambda>v. Inr (PF v))"

definition pf_add :: "pf \<Rightarrow> pf \<Rightarrow> pf res" where
  "pf_add x y = bindE (checked128 (getVal x + getVal y)) (\<lambda>v. Inr (PF (v mod pf_p)))"

definition pf_sub :: "pf \<Rightarrow> pf \<Rightarrow> pf res" where
  "pf_sub x y =
     bindE (checked128 (pf_p - getVal y)) (\<lambda>d.
     bindE (checked128 (getVal x + d)) (\<lambda>v. Inr (PF (v mod pf_p))))"

definition pf_mul :: "pf \<Rightarrow> pf \<Rightarrow> pf res" where
  "pf_mul x y = bindE (mulmod (getVal x) (getVal y)) (\<lambda>v. Inr (PF v))"

definition pf_div :: "pf \<Rightarrow> pf \<Rightarrow> pf res" where
  "pf_div x y = bindE (pf_getInv y) (\<lambda>t. bindE (mulmod (getVal x) (getVal t)) (\<lambda>v. Inr (PF v)))"

definition pf_mod :: "pf \<Rightarrow> pf \<Rightarrow> pf res" where
  "pf_mod x y = (if getVal y = 0 then Inl OverflowError else Inr (PF (getVal x mod getVal y)))"

definition pf_eq :: "pf \<Rightarrow> pf \<Rightarrow> bool" where
  "pf_eq x y \<longleftrightarrow> getVal x = getVal y"

definition pf_less :: "pf \<Rightarrow> pf \<Rightarrow> bool" where
  "pf_less x y \<longleftrightarrow> getVal x < getVal y"

subsection \<open>The total operations\<close>

instantiation pf :: "{zero, one, plus, minus, uminus, times, inverse}"
begin

definition zero_pf :: pf where "zero_pf = PF 0"
definition one_pf :: pf where "one_pf = PF 1"
definition plus_pf :: "pf \<Rightarrow> pf \<Rightarrow> pf" where
  "plus_pf x y = PF ((getVal x + getVal y) mod pf_p)"
definition minus_pf :: "pf \<Rightarrow> pf \<Rightarrow> pf" where
  "minus_pf x y = PF ((getVal x + (pf_p - getVal y)) mod pf_p)"
definition uminus_pf :: "pf \<Rightarrow> pf" where
  "uminus_pf x = PF (pf_p - getVal x)"
definition times_pf :: "pf \<Rightarrow> pf \<Rightarrow> pf" where
  "times_pf x y = PF (getVal x * getVal y mod pf_p)"
definition inverse_pf :: "pf \<Rightarrow> pf" where
  "inverse_pf x = (case pf_getInv x of Inr y \<Rightarrow> y | Inl _ \<Rightarrow> PF 0)"
definition divide_pf :: "pf \<Rightarrow> pf \<Rightarrow> pf" where
  "divide_pf x y = PF (getVal x * getVal (inverse y) mod pf_p)"

instance ..

end

instantiation pf :: linorder
begin

definition less_pf :: "pf \<Rightarrow> pf \<Rightarrow> bool" where
  "less_pf = pf_less"
definition less_eq_pf :: "pf \<Rightarrow> pf \<Rightarrow> bool" where
  "less_eq_pf x y \<longleftrightarrow> \<not> getVal y < getVal x"

instance
  by standard (auto simp: less_pf_def pf_less_def less_eq_pf_def pf.expand)

end

lemma wf_pf_val: "wf_pf x \<Longrightarrow> 0 \<le> getVal x" "wf_pf x \<Longrightarrow> getVal x \<le> pf_p"
  by (simp_all add: wf_pf_def)

lemma pf_getInv_ok: "wf_pf x \<Longrightarrow> pf_getInv x = Inr (PF (getVal x ^ nat (pf_p - 2) mod pf_p))"
  by (simp add: pf_getInv_def wf_pf_def modpow_ok pf_make_def less_imp_le not_less)

lemma pf_inverse_val: "wf_pf x \<Longrightarrow> inverse x = PF (getVal x ^ nat (pf_p - 2) mod pf_p)"
  by (simp add: inverse_pf_def pf_getInv_ok)

lemma wf_pf_mod [simp, intro]: "wf_pf (PF (v mod pf_p))"
  by (simp add: wf_pf_def less_imp_le)

lemma wf_pf_ops [simp, intro]:
  "wf_pf 0" "wf_pf 1" "wf_pf (x + y)" "wf_pf (x - y)" "wf_pf (x * y)" "wf_pf (x / y)"
  by (simp_all add: zero_pf_def one_pf_def plus_pf_def minus_pf_def times_pf_def divide_pf_def
      wf_pf_def less_imp_le)

lemma wf_pf_uminus [simp, intro]: "wf_pf x \<Longrightarrow> wf_pf (- x)"
  by (simp add: uminus_pf_def wf_pf_def)

lemma wf_pf_inverse [simp, intro]: "wf_pf x \<Longrightarrow> wf_pf (inverse x)"
  by (simp add: pf_inverse_val)

text \<open>The residue class of a result, for every operator.\<close>

lemma gf_PF: "gf (PF v) = of_int v"
  by (simp add: gf_def)

lemma gf_ops [simp]:
  "gf 0 = 0" "gf 1 = 1" "gf (x + y) = gf x + gf y" "gf (x - y) = gf x - gf y"
  "gf (x * y) = gf x * gf y" "gf (- x) = - gf x"
  by (simp_all add: gf_def zero_pf_def one_pf_def plus_pf_def minus_pf_def times_pf_def uminus_pf_def)

lemma gf_inverse [simp]: "wf_pf x \<Longrightarrow> gf (inverse x) = inverse (gf x)"
  by (simp add: pf_inverse_val gf_def inverse_gfp_def)

lemma gf_eq_iff: "gf x = gf y \<longleftrightarrow> getVal x mod pf_p = getVal y mod pf_p"
  by (simp add: gf_def of_int_gfp_eq_iff)

lemma gf_inj: "0 \<le> getVal x \<Longrightarrow> getVal x < pf_p \<Longrightarrow> 0 \<le> getVal y \<Longrightarrow> getVal y < pf_p \<Longrightarrow>
    gf x = gf y \<longleftrightarrow> x = y"
  by (auto simp: gf_eq_iff pf.expand)

lemma gf_rep_gf: "gf_rep (gf x) = getVal x mod pf_p"
  by (simp add: gf_def gf_rep_of_int)

subsection \<open>Legendre and modsqrt\<close>

definition Legendre :: "int \<Rightarrow> bool res" where
  "Legendre a = bindE (modpow a (pf_p div 2)) (\<lambda>ret. Inr (ret \<noteq> pf_p - 1))"

text \<open>The inner loop of step 4: the least \<open>i\<close> below \<open>M\<close> at which the repeated square is 1, else \<open>M\<close>.\<close>

function modsqrt_inner :: "int \<Rightarrow> int \<Rightarrow> int \<Rightarrow> int res" where
  "modsqrt_inner t2 i M =
     (if i < M
      then bindE (mulmod t2 t2) (\<lambda>t2'. if t2' = 1 then Inr i else modsqrt_inner t2' (i + 1) M)
      else Inr i)"
  by pat_completeness auto
termination
  by (relation "measure (\<lambda>(t2, i, M). nat (M - i))") auto

declare modsqrt_inner.simps [simp del]

lemma modsqrt_inner_ge: "modsqrt_inner t2 i M = Inr j \<Longrightarrow> i \<le> j"
proof (induction t2 i M arbitrary: j rule: modsqrt_inner.induct)
  case (1 t2 i M)
  from "1.prems" show ?case
    by (subst (asm) modsqrt_inner.simps)
      (auto simp: bindE_eq_Inr split: if_splits dest!: "1.IH")
qed

function modsqrt_loop :: "int \<Rightarrow> int \<Rightarrow> int \<Rightarrow> int \<Rightarrow> int res" where
  "modsqrt_loop R t c M =
     (if t = 1 then Inr R
      else bindE (modsqrt_inner t 1 M) (\<lambda>i.
           bindE (checked128 (M - i)) (\<lambda>d.
           bindE (checked128 (d - 1)) (\<lambda>d1.
           bindE (modpow 1 d1) (\<lambda>e.
           bindE (modpow c e) (\<lambda>b.
           bindE (mulmod R b) (\<lambda>R'.
           bindE (mulmod t b) (\<lambda>tb.
           bindE (mulmod tb b) (\<lambda>t'.
           bindE (mulmod b b) (\<lambda>c'. modsqrt_loop R' t' c' i))))))))))"
  by pat_completeness auto
termination
proof (relation "measure (\<lambda>(R, t, c, M). nat M)")
  fix R t c M i d d1 e b R' tb t' c' :: int
  assume "modsqrt_inner t 1 M = Inr i" "checked128 (M - i) = Inr d" "checked128 (d - 1) = Inr d1"
  then show "((R', t', c', i), R, t, c, M) \<in> measure (\<lambda>(R, t, c, M). nat M)"
    by (auto simp: checked128_eq_Inr dest: modsqrt_inner_ge)
qed simp

declare modsqrt_loop.simps [simp del]

definition modsqrt :: "pf \<Rightarrow> pf res" where
  "modsqrt x =
     (let n = getVal x; Q = 4611686018427387889; S = 2; c = 2296021864060584341
      in bindE (modpow n ((Q + 1) div 2)) (\<lambda>R.
         bindE (modpow n Q) (\<lambda>t.
         bindE (modsqrt_loop R t c S) (\<lambda>R.
         if R \<le> pf_p div 2 then pf_make R
         else bindE (checked128 (pf_p - R)) pf_make))))"

text \<open>
  The constants of the source: \<open>p - 1 = 4 Q\<close>, and the square of \<open>c\<close> is -1. The proof of
  \<open>modsqrt\<close> works in the field: \<open>t = n^Q\<close> is a square root of 1 when \<open>n\<close> is a square, so at most
  one round of the loop runs; otherwise the inner loop runs to \<open>M\<close> and \<open>M - i - 1\<close> throws.
\<close>

abbreviation "sqrt_Q \<equiv> 4611686018427387889 :: int"
abbreviation "sqrt_c \<equiv> 2296021864060584341 :: int"

lemma sqrt_Q_eq: "nat (pf_p - 1) = 2 * nat sqrt_Q * 2"
  by (simp add: pf_p_def)

lemma sqrt_c_square: "(of_int sqrt_c :: gfp) * of_int sqrt_c = - 1"
proof -
  have "sqrt_c * sqrt_c mod pf_p = (- 1) mod pf_p"
    by (simp add: pf_p_def)
  then have "(of_int (sqrt_c * sqrt_c) :: gfp) = of_int (- 1)"
    by (simp only: of_int_gfp_eq_iff)
  then show ?thesis by simp
qed

lemma gfp_square_eq_1: "(t :: gfp) * t = 1 \<longleftrightarrow> t = 1 \<or> t = - 1"
  by (rule square_eq_1_iff)

lemma sqrt_t_of_square:
  assumes "n = y * y" "n \<noteq> (0 :: gfp)"
  shows "n ^ nat sqrt_Q * n ^ nat sqrt_Q = 1"
proof -
  have "n ^ nat sqrt_Q * n ^ nat sqrt_Q = y ^ (2 * nat sqrt_Q * 2)"
    unfolding assms(1) by (simp add: power_mult_distrib flip: power_add)
  also have "\<dots> = y ^ nat (pf_p - 1)"
    by (simp only: sqrt_Q_eq)
  also have "\<dots> = 1"
    using assms by (intro gfp_fermat) auto
  finally show ?thesis .
qed

lemma sqrt_R_square: "(n :: gfp) ^ nat ((sqrt_Q + 1) div 2) * n ^ nat ((sqrt_Q + 1) div 2) = n * n ^ nat sqrt_Q"
proof -
  have "nat ((sqrt_Q + 1) div 2) + nat ((sqrt_Q + 1) div 2) = Suc (nat sqrt_Q)"
    by simp
  then show ?thesis
    by (metis power_Suc power_add)
qed

text \<open>One round of the loop, and the two ways in which it can be entered.\<close>

lemma modsqrt_loop_done: "modsqrt_loop R 1 c M = Inr R"
  by (simp add: modsqrt_loop.simps)

lemma modsqrt_inner_2:
  "0 \<le> t \<Longrightarrow> t < pf_p \<Longrightarrow> modsqrt_inner t 1 2 = Inr (if t * t mod pf_p = 1 then 1 else 2)"
  by (simp add: modsqrt_inner.simps mulmod_ok)

lemma modsqrt_loop_round:
  assumes "0 \<le> R" "R < pf_p" "0 \<le> c" "c < pf_p" "0 \<le> t" "t < pf_p" "t \<noteq> 1" "t * t mod pf_p = 1"
  shows "modsqrt_loop R t c 2 =
    modsqrt_loop (R * c mod pf_p) (t * c mod pf_p * c mod pf_p) (c * c mod pf_p) 1"
  using assms
  by (subst modsqrt_loop.simps)
    (simp add: modsqrt_inner_2 checked128_ok modpow_ok mulmod_ok less_imp_le)

lemma modsqrt_loop_minus_1:
  assumes "0 \<le> R" "R < pf_p"
  shows "modsqrt_loop R (pf_p - 1) sqrt_c 2 = Inr (R * sqrt_c mod pf_p)"
proof -
  have "(pf_p - 1) * sqrt_c mod pf_p * sqrt_c mod pf_p = 1"
    by (simp add: pf_p_def)
  moreover have "modsqrt_loop R (pf_p - 1) sqrt_c 2 =
      modsqrt_loop (R * sqrt_c mod pf_p) ((pf_p - 1) * sqrt_c mod pf_p * sqrt_c mod pf_p)
        (sqrt_c * sqrt_c mod pf_p) 1"
    using assms by (intro modsqrt_loop_round) (simp_all add: pf_p_def)
  ultimately show ?thesis
    by (simp only: modsqrt_loop_done)
qed

lemma modsqrt_loop_throws:
  assumes "0 \<le> t" "t < pf_p" "t * t mod pf_p \<noteq> 1"
  shows "modsqrt_loop R t c 2 = Inl RangeError"
proof -
  have "t \<noteq> 1"
    using assms by auto
  then show ?thesis
    using assms by (subst modsqrt_loop.simps) (simp add: modsqrt_inner_2 checked128_def)
qed

lemma modsqrt_eq:
  assumes "wf_pf x"
  defines "n \<equiv> getVal x"
  shows "modsqrt x =
    bindE (modsqrt_loop (n ^ nat ((sqrt_Q + 1) div 2) mod pf_p) (n ^ nat sqrt_Q mod pf_p) sqrt_c 2)
      (\<lambda>R. if R \<le> pf_p div 2 then pf_make R else bindE (checked128 (pf_p - R)) pf_make)"
  using assms(1) by (simp add: modsqrt_def Let_def modpow_ok wf_pf_def n_def)

lemma modsqrt_finish:
  assumes "0 \<le> R" "R < pf_p" "(of_int R :: gfp) * of_int R = gf x"
  shows "\<exists>r. (if R \<le> pf_p div 2 then pf_make R else bindE (checked128 (pf_p - R)) pf_make) = Inr r \<and>
    gf r * gf r = gf x \<and> 0 \<le> getVal r \<and> getVal r \<le> pf_p div 2"
proof (cases "R \<le> pf_p div 2")
  case True
  have "pf_p div 2 < pf_p" by (simp add: pf_p_def)
  with True assms show ?thesis
    by (intro exI [of _ "PF R"]) (auto simp: pf_make_def gf_def)
next
  case False
  have b: "0 \<le> pf_p - R" "pf_p - R \<le> pf_p div 2" "pf_p - R < pf_p"
    using False assms by (simp_all add: pf_p_def)
  moreover have "- R mod pf_p = pf_p - R"
    using mod_pos_pos_trivial [of "pf_p - R" pf_p] b by simp
  moreover have "pf_p - R < 2 ^ 128"
    using b by (simp add: pf_p_def)
  ultimately show ?thesis
    using False assms
    by (intro exI [of _ "PF (pf_p - R)"]) (simp add: checked128_ok pf_make_def gf_def)
qed

lemma modsqrt_square:
  assumes wf: "wf_pf x" and y: "gf x = y * y" and nz: "gf x \<noteq> 0"
  shows "\<exists>r. modsqrt x = Inr r \<and> gf r * gf r = gf x \<and> 0 \<le> getVal r \<and> getVal r \<le> pf_p div 2"
proof -
  define n where "n = getVal x"
  define R where "R = n ^ nat ((sqrt_Q + 1) div 2) mod pf_p"
  define t where "t = n ^ nat sqrt_Q mod pf_p"
  have b: "0 \<le> R" "R < pf_p" "0 \<le> t" "t < pf_p"
    by (simp_all add: R_def t_def)
  have gft: "of_int t = gf x ^ nat sqrt_Q" and RR: "of_int R * of_int R = gf x * of_int t"
    using sqrt_R_square [of "gf x"] by (simp_all add: t_def R_def n_def gf_def)
  have eq: "modsqrt x = bindE (modsqrt_loop R t sqrt_c 2)
      (\<lambda>R. if R \<le> pf_p div 2 then pf_make R else bindE (checked128 (pf_p - R)) pf_make)"
    using modsqrt_eq [OF wf] by (simp only: R_def t_def n_def)
  have "of_int t * of_int t = (1 :: gfp)"
    unfolding gft by (rule sqrt_t_of_square [OF y nz])
  then consider "of_int t = (of_int 1 :: gfp)" | "of_int t = (of_int (pf_p - 1) :: gfp)"
    by (auto simp: gfp_square_eq_1)
  then show ?thesis
  proof cases
    case 1
    then have "t = 1"
      using b of_int_gfp_inj [of t 1] by simp
    then show ?thesis
      using eq modsqrt_finish [OF b(1,2), of x] RR by (simp add: modsqrt_loop_done)
  next
    case 2
    then have t: "t = pf_p - 1"
      using b of_int_gfp_inj [of t "pf_p - 1"] by simp
    have "of_int (R * sqrt_c mod pf_p) * of_int (R * sqrt_c mod pf_p) =
        (of_int R * of_int R) * (of_int sqrt_c * of_int sqrt_c :: gfp)"
      by (simp only: of_int_gfp_mod of_int_mult mult_ac)
    also have "\<dots> = gf x"
      unfolding RR sqrt_c_square by (simp add: t)
    finally show ?thesis
      using eq t modsqrt_finish [of "R * sqrt_c mod pf_p" x] by (simp add: modsqrt_loop_minus_1 b)
  qed
qed

lemma modsqrt_nonsquare:
  assumes wf: "wf_pf x" and ns: "gf x = 0 \<or> (\<nexists>y. gf x = y * y)"
  shows "modsqrt x = Inl RangeError"
proof -
  define n where "n = getVal x"
  define R where "R = n ^ nat ((sqrt_Q + 1) div 2) mod pf_p"
  define t where "t = n ^ nat sqrt_Q mod pf_p"
  have b: "0 \<le> t" "t < pf_p"
    by (simp_all add: t_def)
  have gft: "of_int t = gf x ^ nat sqrt_Q" and RR: "of_int R * of_int R = gf x * of_int t"
    using sqrt_R_square [of "gf x"] by (simp_all add: t_def R_def n_def gf_def)
  have "t * t mod pf_p \<noteq> 1"
  proof
    assume "t * t mod pf_p = 1"
    then have "of_int (t * t mod pf_p) = (of_int 1 :: gfp)"
      by simp
    then have tt: "of_int t * of_int t = (1 :: gfp)"
      by simp
    then have nz: "gf x \<noteq> 0"
      by (auto simp: gft power_0_left)
    from tt consider "of_int t = (1 :: gfp)" | "of_int t = (- 1 :: gfp)"
      by (auto simp: gfp_square_eq_1)
    then have "\<exists>y. gf x = y * y"
    proof cases
      case 1
      then show ?thesis using RR by (intro exI [of _ "of_int R"]) simp
    next
      case 2
      have "(of_int R * of_int sqrt_c) * (of_int R * of_int sqrt_c) =
          (of_int R * of_int R) * (of_int sqrt_c * of_int sqrt_c :: gfp)"
        by (simp only: mult_ac)
      also have "\<dots> = gf x"
        unfolding RR sqrt_c_square by (simp add: 2)
      finally show ?thesis by metis
    qed
    then show False
      using ns nz by blast
  qed
  then show ?thesis
    using modsqrt_eq [OF wf] modsqrt_loop_throws [OF b] by (simp add: R_def t_def n_def)
qed

lemma gfp_half_order: "(2 :: gfp) ^ nat (pf_p div 2) = - 1"
proof -
  have "pow_is pf_p 2 (nat (pf_p div 2)) (pf_p - 1)"
    using pow_is_mult [OF pow2_u powu_2] by (simp add: pf_p_def)
  then have "(of_int (2 ^ nat (pf_p div 2)) :: gfp) = of_int (pf_p - 1)"
    by (simp only: pow_is_def of_int_gfp_eq_iff)
  then show ?thesis by simp
qed

lemma minus_one_neq_one_gfp: "(- 1 :: gfp) \<noteq> 1"
proof
  assume "(- 1 :: gfp) = 1"
  then have "(2 :: gfp) = 0"
    by (metis add_eq_0_iff one_add_one)
  then show False by simp
qed

lemma euler_criterion:
  assumes "x \<noteq> (0 :: gfp)"
  shows "x ^ nat (pf_p div 2) = - 1 \<longleftrightarrow> (\<nexists>y. x = y * y)"
proof -
  obtain k where k: "x = 2 ^ k"
    using gfp_power_of_2 [OF assms] ..
  have "x ^ nat (pf_p div 2) = (2 ^ nat (pf_p div 2)) ^ k"
    unfolding k by (metis mult.commute power_mult)
  then have e: "x ^ nat (pf_p div 2) = (- 1) ^ k"
    by (simp only: gfp_half_order)
  have full: "nat (pf_p div 2) + nat (pf_p div 2) = nat (pf_p - 1)"
    by (simp add: pf_p_def)
  show ?thesis
  proof
    assume m: "x ^ nat (pf_p div 2) = - 1"
    show "\<nexists>y. x = y * y"
    proof
      assume "\<exists>y. x = y * y"
      then obtain y where y: "x = y * y" ..
      then have "x ^ nat (pf_p div 2) = y ^ nat (pf_p - 1)"
        by (simp add: power_mult_distrib full flip: power_add)
      also have "\<dots> = 1"
        using y assms by (intro gfp_fermat) auto
      finally show False
        using m minus_one_neq_one_gfp by simp
    qed
  next
    assume ns: "\<nexists>y. x = y * y"
    have "odd k"
    proof
      assume "even k"
      then have "x = 2 ^ (k div 2) * 2 ^ (k div 2)"
        by (simp add: k flip: power_add mult_2)
      then show False using ns by blast
    qed
    then show "x ^ nat (pf_p div 2) = - 1"
      by (simp add: e)
  qed
qed

subsection \<open>Properties\<close>



text \<open>
  C17. The operators of \<open>PrimeField\<close>, as they run on checked 128-bit integers, compute in the field of integers modulo \<open>p\<close>: on operands up to \<open>p\<close>
  (unary minus stores \<open>p\<close> itself) addition, subtraction, multiplication, division and \<open>getInv\<close> end normally with the value between 0 and \<open>p - 1\<close> that
  represents the field operation on the residue classes, division by 0 giving 0; unary minus represents the negation but
  reaches \<open>p\<close>. On values below \<open>p\<close> the class's equality is equality in the field. Numbers outside the range are refused.
\<close>

theorem pf_refines_field:
  assumes "wf_pf x" "wf_pf y"
  defines "canonical_of \<equiv> \<lambda>r v. \<exists>z. r = Inr z \<and> gf z = v \<and> 0 \<le> getVal z \<and> getVal z < pf_p"
  shows "canonical_of (pf_add x y) (gf x + gf y) \<and> canonical_of (pf_sub x y) (gf x - gf y) \<and>
    canonical_of (pf_mul x y) (gf x * gf y) \<and> canonical_of (pf_div x y) (gf x / gf y) \<and>
    canonical_of (pf_getInv x) (inverse (gf x)) \<and>
    (\<exists>z. pf_neg x = Inr z \<and> gf z = - gf x \<and> wf_pf z \<and> (getVal z = pf_p \<longleftrightarrow> getVal x = 0)) \<and>
    (getVal x < pf_p \<and> getVal y < pf_p \<longrightarrow> (pf_eq x y \<longleftrightarrow> gf x = gf y)) \<and>
    (if 0 \<le> v \<and> v \<le> pf_p then canonical_of (pf_make v) (of_int v) else pf_make v = Inl (RuntimeError ''PrimeField''))"
proof (intro conjI)
  have b: "0 \<le> getVal x" "getVal x \<le> pf_p" "0 \<le> getVal y" "getVal y \<le> pf_p"
    using assms(1,2) by (simp_all add: wf_pf_def)
  have big: "2 * pf_p < 2 ^ 128" by (simp add: pf_p_def)
  have m: "canonical_of (Inr (PF (k mod pf_p))) v" if "of_int k = v" for k v
    using that by (simp add: canonical_of_def gf_PF)
  have inv: "pf_getInv y = Inr (PF (getVal y ^ nat (pf_p - 2) mod pf_p))" "gf (PF (getVal y ^ nat (pf_p - 2) mod pf_p)) = inverse (gf y)"
    if "wf_pf y" for y
    using gf_inverse [OF that] that by (simp_all add: pf_getInv_ok pf_inverse_val)
  have "pf_add x y = Inr (PF ((getVal x + getVal y) mod pf_p))"
    using b big by (simp add: pf_add_def checked128_ok)
  then show "canonical_of (pf_add x y) (gf x + gf y)" by (simp add: m gf_def)
  have "pf_sub x y = Inr (PF ((getVal x + (pf_p - getVal y)) mod pf_p))"
    using b big by (simp add: pf_sub_def checked128_ok)
  then show "canonical_of (pf_sub x y) (gf x - gf y)" by (simp add: m gf_def)
  have "pf_mul x y = Inr (PF (getVal x * getVal y mod pf_p))"
    using b by (simp add: pf_mul_def mulmod_ok)
  then show "canonical_of (pf_mul x y) (gf x * gf y)" by (simp add: m gf_def)
  define t where "t = getVal y ^ nat (pf_p - 2) mod pf_p"
  have t: "0 \<le> t" "t \<le> pf_p" by (simp_all add: t_def less_imp_le)
  then have "pf_div x y = Inr (PF (getVal x * t mod pf_p))"
    using b inv(1) [OF assms(2)] by (simp add: pf_div_def mulmod_ok flip: t_def)
  moreover have "of_int (getVal x * t) = gf x / gf y"
    using inv(2) [OF assms(2)] by (simp add: divide_inverse gf_def flip: t_def)
  ultimately show "canonical_of (pf_div x y) (gf x / gf y)" by (simp only: m)
  show "canonical_of (pf_getInv x) (inverse (gf x))"
    using inv [OF assms(1)] by (simp add: canonical_of_def)
  have "pf_neg x = Inr (PF (pf_p - getVal x))" using b big by (simp add: pf_neg_def checked128_ok)
  then show "\<exists>z. pf_neg x = Inr z \<and> gf z = - gf x \<and> wf_pf z \<and> (getVal z = pf_p \<longleftrightarrow> getVal x = 0)"
    using b by (simp add: gf_def wf_pf_def)
  show "getVal x < pf_p \<and> getVal y < pf_p \<longrightarrow> (pf_eq x y \<longleftrightarrow> gf x = gf y)"
    using b gf_inj [of x y] by (auto simp: pf_eq_def pf.expand)
  have "pf_make v = Inr (PF (v mod pf_p))" if "0 \<le> v" "v \<le> pf_p" using that by (simp add: pf_make_def)
  then show "if 0 \<le> v \<and> v \<le> pf_p then canonical_of (pf_make v) (of_int v) else pf_make v = Inl (RuntimeError ''PrimeField'')"
    by (auto simp: m) (auto simp: pf_make_def)
qed

theorem pf_refines_field_witness:
  "\<exists>z. pf_div (PF 7) (PF 2) = Inr z \<and> gf z = gf (PF 7) / gf (PF 2) \<and> 0 \<le> getVal z \<and> getVal z < pf_p"
proof -
  have "wf_pf (PF 7)" "wf_pf (PF 2)"
    by (simp_all add: wf_pf_def pf_p_def)
  then show ?thesis
    using pf_refines_field [of "PF 7" "PF 2" 0] by blast
qed

text \<open>
  \<open>getInv\<close> (a power to the \<open>p - 2\<close>) returns the multiplicative inverse of every value that is
  not 0 modulo \<open>p\<close>: the product with it is exactly the value 1.
\<close>

theorem pf_getInv_correct:
  assumes "wf_pf x" "getVal x mod pf_p \<noteq> 0"
  shows "\<exists>y. pf_getInv x = Inr y \<and> pf_mul x y = Inr 1"
proof -
  have nz: "gf x \<noteq> 0"
    using assms(2) by (simp add: gf_def of_int_gfp_eq_0_iff dvd_eq_mod_eq_0)
  have inv: "pf_getInv x = Inr (inverse x)" "wf_pf (inverse x)"
    using assms(1) by (simp_all add: pf_getInv_ok pf_inverse_val)
  have "gf (x * inverse x) = gf 1"
    using assms(1) nz by simp
  then have "x * inverse x = 1"
    by (subst (asm) gf_inj) (simp_all add: times_pf_def one_pf_def)
  moreover have "pf_mul x (inverse x) = Inr (x * inverse x)"
    using assms(1) inv(2) by (simp add: pf_mul_def mulmod_ok wf_pf_def times_pf_def)
  ultimately show ?thesis
    using inv(1) by simp
qed

theorem pf_getInv_correct_witness:
  "wf_pf (PF 3) \<and> getVal (PF 3) mod pf_p \<noteq> 0 \<and>
   (\<exists>y. pf_getInv (PF 3) = Inr y \<and> pf_mul (PF 3) y = Inr 1)"
proof -
  have "wf_pf (PF 3)" "getVal (PF 3) mod pf_p \<noteq> 0"
    by (simp_all add: wf_pf_def pf_p_def)
  then show ?thesis
    using pf_getInv_correct [of "PF 3"] by simp
qed

text \<open>
  C37. \<open>modsqrt\<close> terminates on every well-formed value. On a nonzero square it returns the square root
  in the lower half of the residues; on 0 and on every non-square it leaves with the range error of the
  checked subtraction \<open>M - i - 1\<close>.
\<close>

theorem modsqrt_correct:
  assumes "wf_pf x"
  shows "if gf x \<noteq> 0 \<and> (\<exists>y. gf x = y * y)
    then \<exists>r. modsqrt x = Inr r \<and> gf r * gf r = gf x \<and> 0 \<le> getVal r \<and> getVal r \<le> pf_p div 2
    else modsqrt x = Inl RangeError"
  using modsqrt_square [OF assms] modsqrt_nonsquare [OF assms] by (auto simp: Let_def)

theorem modsqrt_correct_witness:
  "wf_pf (PF 4) \<and> gf (PF 4) \<noteq> 0 \<and>
   (\<exists>r. modsqrt (PF 4) = Inr r \<and> gf r * gf r = gf (PF 4) \<and> 0 \<le> getVal r \<and> getVal r \<le> pf_p div 2)"
proof -
  have wf: "wf_pf (PF 4)" and nz: "gf (PF 4) \<noteq> 0"
    by (simp_all add: wf_pf_def gf_def of_int_gfp_eq_0_iff [of 4, simplified] pf_p_def)
  have "gf (PF 4) = 2 * 2"
    by (simp add: gf_def)
  then have "\<exists>y. gf (PF 4) = y * y" ..
  then show ?thesis
    using modsqrt_correct [OF wf] wf nz by simp
qed

text \<open>
  \<open>Legendre\<close> answers false exactly for the non-squares modulo \<open>p\<close> (0 counts as a square).
\<close>

theorem Legendre_correct:
  assumes "wf_pf x"
  shows "Legendre (getVal x) = Inr (gf x = 0 \<or> (\<exists>y. gf x = y * y))"
proof -
  define r where "r = getVal x ^ nat (pf_p div 2) mod pf_p"
  have L: "Legendre (getVal x) = Inr (r \<noteq> pf_p - 1)"
    using assms by (simp add: Legendre_def modpow_ok wf_pf_def r_def)
  have "r = pf_p - 1 \<longleftrightarrow> of_int r = (of_int (pf_p - 1) :: gfp)"
    by (rule of_int_gfp_inj [symmetric]) (simp_all add: r_def)
  also have "\<dots> \<longleftrightarrow> gf x ^ nat (pf_p div 2) = - 1"
    by (simp add: r_def gf_def)
  also have "\<dots> \<longleftrightarrow> gf x \<noteq> 0 \<and> (\<nexists>y. gf x = y * y)"
    using euler_criterion [of "gf x"] by (cases "gf x = 0") (auto simp: power_0_left pf_p_def)
  finally show ?thesis
    using L by auto
qed

theorem Legendre_correct_witness:
  "wf_pf (PF 2) \<and> Legendre (getVal (PF 2)) = Inr (gf (PF 2) = 0 \<or> (\<exists>y. gf (PF 2) = y * y))"
proof -
  have "wf_pf (PF 2)"
    by (simp add: wf_pf_def pf_p_def)
  then show ?thesis
    using Legendre_correct [of "PF 2"] by simp
qed

text \<open>
  Unary minus does not normalise: the negation of 0 stores \<open>p\<close>, which is 0 modulo \<open>p\<close> but is
  unequal to 0 under the class's \<open>operator==\<close> and is not below \<open>p\<close>.
\<close>

theorem pf_neg_zero_not_canonical:
  "\<exists>z. pf_neg 0 = Inr z \<and> gf z = gf 0 \<and> \<not> pf_eq z 0 \<and> getVal z = pf_p"
  by (rule exI [of _ "PF pf_p"])
    (simp add: pf_neg_def zero_pf_def checked128_ok pf_eq_def gf_def, simp add: pf_p_def checked128_def)

end
