(* ===== verification/FixedPoint.thy ===== *)
theory FixedPoint
  imports PrimeField
begin

section \<open>FixedPoint\<close>

text \<open>
  \<open>FixedPoint/FixedPoint.hpp\<close> and \<open>FixedPoint/MathLib.cpp\<close>: decimal fixed-point numbers over
  unbounded integers (\<open>cpp_int\<close>), scaled by \<open>shift = 10^8\<close>. Addition and subtraction are exact,
  multiplication drops the last eight digits by a truncating division, equality is up to one unit in
  the last place. Conversions to and from strings, division and \<open>getInv\<close> go through Boost's 50-digit
  decimal floats, which are not part of the sources: they are the record \<open>dec\<close> of operations, an
  argument of the definitions that use it.
\<close>

subsection \<open>mypow and pow\<close>

text \<open>
  Both \<open>mypow\<close> and \<open>pow\<close> square and multiply on signed 64-bit integers, where an overflow is undefined
  behaviour; \<open>mypow\<close> squares once more after the last bit it uses.
\<close>

definition signed64 :: "int \<Rightarrow> int res" where
  "signed64 x = (if - (2 ^ 63) \<le> x \<and> x < 2 ^ 63 then Inr x else Inl UndefinedBehaviour)"

fun mypow_loop :: "int \<Rightarrow> nat \<Rightarrow> int \<Rightarrow> int res" where
  "mypow_loop a n ret =
     (if n = 0 then Inr ret
      else bindE (if odd n then signed64 (ret * a) else Inr ret) (\<lambda>ret'.
           bindE (signed64 (a * a)) (\<lambda>a'. mypow_loop a' (n div 2) ret')))"

declare mypow_loop.simps [simp del]

definition mypow :: "int \<Rightarrow> int \<Rightarrow> int res" where
  "mypow a n = mypow_loop a (nat n) 1"

fun pow_loop :: "int \<Rightarrow> nat \<Rightarrow> int \<Rightarrow> int res" where
  "pow_loop x n ret =
     (if n = 0 then Inr ret
      else bindE (if odd n then signed64 (ret * x) else Inr ret) (\<lambda>ret'.
           bindE (signed64 (x * x)) (\<lambda>x'. pow_loop x' (n div 2) ret')))"

declare pow_loop.simps [simp del]

definition pow :: "int \<Rightarrow> int \<Rightarrow> int res" where
  "pow x n = pow_loop x (nat n) 1"

lemma mypow_loop_Inr: "mypow_loop a n ret = Inr r \<Longrightarrow> r = ret * a ^ n"
proof (induction a n ret rule: mypow_loop.induct)
  case (1 a n ret)
  show ?case
  proof (cases "n = 0")
    case True
    with "1.prems" show ?thesis by (simp add: mypow_loop.simps)
  next
    case False
    from "1.prems" False obtain ret' a' where
      r': "(if odd n then signed64 (ret * a) else Inr ret) = Inr ret'" and
      a': "signed64 (a * a) = Inr a'" and
      rest: "mypow_loop a' (n div 2) ret' = Inr r"
      by (subst (asm) mypow_loop.simps) (auto simp: bindE_eq_Inr split: if_splits)
    have "r = ret' * (a * a) ^ (n div 2)"
      using "1.IH" [OF False r' a' rest] a' by (simp add: signed64_def split: if_splits)
    also have "\<dots> = ret * a ^ n"
      using r' by (subst (2) power_split_odd) (simp add: signed64_def split: if_splits)
    finally show ?thesis .
  qed
qed

lemma pow_loop_eq_mypow_loop: "pow_loop a n ret = mypow_loop a n ret"
proof (induction a n ret rule: pow_loop.induct)
  case (1 a n ret)
  show ?case
  proof (cases "n = 0")
    case True
    then show ?thesis by (simp add: mypow_loop.simps pow_loop.simps)
  next
    case False
    then show ?thesis
      using "1.IH" by (subst mypow_loop.simps, subst pow_loop.simps) (auto intro!: bindE_cong)
  qed
qed

text \<open>A power whose next square still fits in 63 bits is computed without overflow.\<close>

lemma mypow_loop_ok:
  assumes "1 \<le> a" "1 \<le> ret" "ret * a ^ (2 * n) < 2 ^ 63"
  shows "mypow_loop a n ret = Inr (ret * a ^ n)"
  using assms
proof (induction a n ret rule: mypow_loop.induct)
  case (1 a n ret)
  show ?case
  proof (cases "n = 0")
    case True
    then show ?thesis by (simp add: mypow_loop.simps)
  next
    case False
    define ret' where "ret' = (if odd n then ret * a else ret)"
    have split: "ret * a ^ n = ret' * (a * a) ^ (n div 2)"
      by (subst power_split_odd) (simp add: ret'_def)
    have pos: "1 \<le> ret'"
      using "1.prems" by (auto simp: ret'_def intro: order_trans [of 1 ret "ret * a"] simp: mult_le_cancel_left1)
    have "ret' * (a * a) ^ (2 * (n div 2)) \<le> ret * a ^ (2 * n)"
    proof -
      have "ret' * (a * a) ^ (2 * (n div 2)) = ret * a ^ n * (a * a) ^ (n div 2)"
        unfolding split by (simp add: mult.assoc mult_2 power_add)
      also have "(a * a) ^ (n div 2) \<le> a ^ n"
        using "1.prems" by (simp add: power_increasing flip: power2_eq_square power_mult)
      finally show ?thesis
        using "1.prems" by (simp add: mult_2 power_add mult.assoc mult_left_mono)
    qed
    then have small: "ret' * (a * a) ^ (2 * (n div 2)) < 2 ^ 63"
      using "1.prems"(3) by linarith
    have aa: "a * a \<le> ret * a ^ (2 * n)"
    proof -
      have "a * a = a ^ 2" by (simp add: power2_eq_square)
      also have "\<dots> \<le> a ^ (2 * n)"
        using False "1.prems" by (intro power_increasing) auto
      also have "\<dots> \<le> ret * a ^ (2 * n)"
        using "1.prems" by (simp add: mult_le_cancel_right1)
      finally show ?thesis .
    qed
    have ra: "ret * a \<le> ret * a ^ (2 * n)"
      using False "1.prems" power_increasing [of 1 "2 * n" a] by (intro mult_left_mono) auto
    have "0 \<le> ret * a"
      using "1.prems" by simp
    moreover have "ret * a < 2 ^ 63"
      using ra "1.prems"(3) by linarith
    ultimately have s1: "(if odd n then signed64 (ret * a) else Inr ret) = Inr ret'"
      by (simp add: signed64_def ret'_def)
    have "- (2 ^ 63) \<le> a * a"
      by (rule order_trans [of _ 0]) auto
    moreover have "a * a < 2 ^ 63"
      using aa "1.prems"(3) by linarith
    ultimately have s2: "signed64 (a * a) = Inr (a * a)"
      by (simp add: signed64_def)
    have "mypow_loop a n ret = mypow_loop (a * a) (n div 2) ret'"
      using False by (subst mypow_loop.simps) (simp add: s1 s2)
    also have "\<dots> = Inr (ret' * (a * a) ^ (n div 2))"
      by (rule "1.IH" [OF False s1 s2 _ pos small]) (use "1.prems" mult_mono [of 1 a 1 a] in simp)
    finally show ?thesis
      by (simp only: split)
  qed
qed

subsection \<open>The class\<close>

definition shift :: int where "shift = 10 ^ 8"

definition maxInt :: int where "maxInt = 10 ^ 10"

lemma shift_pos [simp]: "0 < shift" "shift \<noteq> 0" "0 \<le> shift"
  by (simp_all add: shift_def)

datatype fp = FP (fpVal: int)

definition fp_of_int :: "int \<Rightarrow> fp" where
  "fp_of_int v = FP (v * shift)"

definition fp_add :: "fp \<Rightarrow> fp \<Rightarrow> fp" where
  "fp_add x y = FP (fpVal x + fpVal y)"

definition fp_sub :: "fp \<Rightarrow> fp \<Rightarrow> fp" where
  "fp_sub x y = FP (fpVal x - fpVal y)"

definition fp_neg :: "fp \<Rightarrow> fp" where
  "fp_neg x = FP (- fpVal x)"

definition fp_mul :: "fp \<Rightarrow> fp \<Rightarrow> fp" where
  "fp_mul x y = FP (tdiv (fpVal x * fpVal y) shift)"

instantiation fp :: "{zero, one, plus, minus, uminus, times}"
begin

definition zero_fp :: fp where "zero_fp = FP 0"
definition one_fp :: fp where "one_fp = fp_of_int 1"
definition plus_fp :: "fp \<Rightarrow> fp \<Rightarrow> fp" where "plus_fp = fp_add"
definition minus_fp :: "fp \<Rightarrow> fp \<Rightarrow> fp" where "minus_fp = fp_sub"
definition uminus_fp :: "fp \<Rightarrow> fp" where "uminus_fp = fp_neg"
definition times_fp :: "fp \<Rightarrow> fp \<Rightarrow> fp" where "times_fp = fp_mul"

instance ..

end

definition fp_mod :: "fp \<Rightarrow> fp \<Rightarrow> fp res" where
  "fp_mod x y = (if fpVal y = 0 then Inl OverflowError else Inr (FP (tmod (fpVal x) (fpVal y))))"

definition fp_incr :: "fp \<Rightarrow> fp" where "fp_incr x = FP (fpVal x + shift)"

definition fp_decr :: "fp \<Rightarrow> fp" where "fp_decr x = FP (fpVal x - shift)"

definition fp_eq :: "fp \<Rightarrow> fp \<Rightarrow> bool" where
  "fp_eq x y \<longleftrightarrow> - 1 \<le> fpVal x - fpVal y \<and> fpVal x - fpVal y \<le> 1"

definition fp_less :: "fp \<Rightarrow> fp \<Rightarrow> bool" where
  "fp_less x y \<longleftrightarrow> fpVal x < fpVal y"

definition fp_abs :: "fp \<Rightarrow> fp" where
  "fp_abs x = (if fp_less x (FP 0) then - x else x)"

lemma fpVal_ops [simp]:
  "fpVal 0 = 0" "fpVal 1 = shift" "fpVal (x + y) = fpVal x + fpVal y"
  "fpVal (x - y) = fpVal x - fpVal y" "fpVal (- x) = - fpVal x"
  "fpVal (x * y) = tdiv (fpVal x * fpVal y) shift"
  by (simp_all add: zero_fp_def one_fp_def fp_of_int_def plus_fp_def fp_add_def minus_fp_def fp_sub_def
      uminus_fp_def fp_neg_def times_fp_def fp_mul_def)

subsection \<open>Conversions through 50-digit decimal floats\<close>

record 'd dec =
  d_of_string :: "string \<Rightarrow> 'd"
  d_of_int :: "int \<Rightarrow> 'd"
  d_isinf :: "'d \<Rightarrow> bool"
  d_max :: 'd
  d_mul :: "'d \<Rightarrow> 'd \<Rightarrow> 'd"
  d_div :: "'d \<Rightarrow> 'd \<Rightarrow> 'd"
  d_to_int :: "'d \<Rightarrow> int"
  d_str20 :: "'d \<Rightarrow> string"

definition fp_of_string :: "'d dec \<Rightarrow> string \<Rightarrow> fp" where
  "fp_of_string D str =
     (let v = d_of_string D str
      in if d_isinf D v then FP (d_to_int D (d_max D))
         else FP (d_to_int D (d_mul D v (d_of_int D shift))))"

definition fp_clamp :: "'d dec \<Rightarrow> fp \<Rightarrow> 'd" where
  "fp_clamp D x = (let v = d_of_int D (fpVal x) in if d_isinf D v then d_max D else v)"

definition fp_getStrVal :: "'d dec \<Rightarrow> fp \<Rightarrow> string" where
  "fp_getStrVal D x = d_str20 D (d_div D (fp_clamp D x) (d_of_int D shift))"

definition fp_of_dec :: "'d dec \<Rightarrow> 'd \<Rightarrow> fp" where
  "fp_of_dec D v = FP (d_to_int D (d_mul D v (d_of_int D shift)))"

definition fp_getInv :: "'d dec \<Rightarrow> fp \<Rightarrow> fp" where
  "fp_getInv D x = fp_of_dec D (d_div D (d_of_int D shift) (fp_clamp D x))"

definition fp_div :: "'d dec \<Rightarrow> fp \<Rightarrow> fp \<Rightarrow> fp" where
  "fp_div D x y =
     FP (d_to_int D (d_mul D (d_div D (d_of_int D (fpVal x)) (fp_clamp D y)) (d_of_int D shift)))"

subsection \<open>FixedPoint to PrimeField\<close>

definition Fp2Pf :: "fp \<Rightarrow> pf res" where
  "Fp2Pf x = bindE (checked128 (fpVal x + pf_p div 2)) pf_make"

subsection \<open>Properties\<close>

text \<open>
  \<open>mypow\<close> and \<open>pow\<close> compute powers whenever they return, agree with each other, and return without
  signed overflow whenever the square of the power fits in 63 bits; so \<open>shift\<close> and \<open>maxInt\<close> are the
  constants \<open>10^8\<close> and \<open>10^10\<close>.
\<close>

theorem mypow_correct:
  "(\<forall>r. mypow a n = Inr r \<longrightarrow> r = a ^ nat n) \<and> pow a n = mypow a n \<and>
   (1 \<le> a \<and> a ^ (2 * nat n) < 2 ^ 63 \<longrightarrow> mypow a n = Inr (a ^ nat n)) \<and>
   mypow 10 8 = Inr shift \<and> mypow 10 (18 - 8) = Inr maxInt"
proof -
  have "\<forall>r. mypow a n = Inr r \<longrightarrow> r = a ^ nat n"
    using mypow_loop_Inr [of a "nat n" 1] by (auto simp: mypow_def)
  moreover have "pow a n = mypow a n"
    by (simp add: pow_def mypow_def pow_loop_eq_mypow_loop)
  moreover have "1 \<le> a \<and> a ^ (2 * nat n) < 2 ^ 63 \<longrightarrow> mypow a n = Inr (a ^ nat n)"
    using mypow_loop_ok [of a 1 "nat n"] by (simp add: mypow_def)
  moreover have "mypow 10 8 = Inr shift" "mypow 10 (18 - 8) = Inr maxInt"
    by (simp_all add: mypow_def mypow_loop.simps signed64_def shift_def maxInt_def)
  ultimately show ?thesis
    by (intro conjI)
qed

theorem mypow_correct_witness:
  "(1 :: int) \<le> 3 \<and> 3 ^ (2 * nat 5) < (2 :: int) ^ 63 \<and> mypow 3 5 = Inr 243 \<and> pow 3 5 = Inr 243"
proof -
  have "(1 :: int) \<le> 3" "3 ^ (2 * nat 5) < (2 :: int) ^ 63"
    by simp_all
  moreover from this have "mypow 3 5 = Inr (3 ^ nat 5)" "pow 3 5 = mypow 3 5"
    using mypow_correct [of 3 5] by metis+
  ultimately show ?thesis
    by simp
qed

text \<open>
  The product of two fixed-point numbers is the exact product truncated towards zero: it is less
  than one unit in the last place away from the exact quotient, and exact when a factor is a whole number.
\<close>

theorem fp_mul_truncates:
  "\<bar>fpVal (x * y) * shift - fpVal x * fpVal y\<bar> < shift \<and>
   \<bar>fpVal (x * y) * shift\<bar> \<le> \<bar>fpVal x * fpVal y\<bar> \<and>
   fpVal (fp_of_int k * x) = k * fpVal x \<and> fpVal (x * fp_of_int k) = fpVal x * k"
proof -
  let ?v = "fpVal x * fpVal y"
  have "\<bar>?v - shift * tdiv ?v shift\<bar> < shift"
    by (rule tdiv_error) simp
  moreover have "\<bar>shift * tdiv ?v shift\<bar> \<le> \<bar>?v\<bar>"
    by (rule tdiv_abs_le) simp
  moreover have "fpVal (fp_of_int k * x) = k * fpVal x" "fpVal (x * fp_of_int k) = fpVal x * k"
    using tdiv_mult_cancel [of shift "k * fpVal x"]
    by (simp_all add: fp_of_int_def mult.assoc mult.commute mult.left_commute)
  ultimately show ?thesis
    by (simp add: mult.commute abs_minus_commute)
qed

text \<open>
  \<open>Fp2Pf\<close> keeps order and equality of the fixed-point values in its range and throws outside it:
  a value below \<open>- (p div 2)\<close> fails the unsigned cast, a value above \<open>p - p div 2\<close> the field's
  constructor.
\<close>

theorem Fp2Pf_order:
  assumes "- (pf_p div 2) \<le> fpVal x" "fpVal x < pf_p div 2" "- (pf_p div 2) \<le> fpVal y"
    "fpVal y < pf_p div 2"
  shows "\<exists>a b. Fp2Pf x = Inr a \<and> Fp2Pf y = Inr b \<and> wf_pf a \<and> wf_pf b \<and>
    (a < b \<longleftrightarrow> fp_less x y) \<and> (a = b \<longleftrightarrow> fpVal x = fpVal y)"
proof -
  have "Fp2Pf z = Inr (PF (fpVal z + pf_p div 2)) \<and> wf_pf (PF (fpVal z + pf_p div 2))"
    if "- (pf_p div 2) \<le> fpVal z" "fpVal z < pf_p div 2" for z
    using that by (simp add: Fp2Pf_def checked128_def pf_make_def wf_pf_def pf_p_def)
  from this [OF assms(1,2)] this [OF assms(3,4)] show ?thesis
    by (simp add: less_pf_def pf_less_def fp_less_def)
qed

theorem Fp2Pf_order_witness:
  "\<exists>a b. Fp2Pf (FP (- 3)) = Inr a \<and> Fp2Pf (FP 4) = Inr b \<and> a < b"
proof -
  have "- (pf_p div 2) \<le> - 3" "4 < pf_p div 2" "- 3 < pf_p div 2" "- (pf_p div 2) \<le> 4"
    by (simp_all add: pf_p_def)
  then show ?thesis
    using Fp2Pf_order [of "FP (- 3)" "FP 4"] by (auto simp: fp_less_def)
qed

end
