(* ===== verification/Randgen.thy ===== *)
theory Randgen
  imports FixedPoint
begin

section \<open>Random numbers\<close>

text \<open>
  \<open>Random/Csprng.cpp\<close> and \<open>Random/Random.cpp\<close>. The generator of libsodium is a parameter: the
  record \<open>csprng\<close> holds what its calls return (\<open>sodium_ret k\<close>, the result of the \<open>k\<close>-th call of
  \<open>sodium_init\<close>; \<open>rnd_bytes k n\<close>, the \<open>n\<close> bytes the \<open>k\<close>-th request fills in) with the counters of
  the calls made, and the static counter of \<open>entropyCheck\<close>. \<open>sodium_ok\<close> is what the code relies on:
  the library initialises and fills the buffer it is given. \<open>rng\<close> is the singleton
  \<open>RandGenerator\<close>, a pool of 64-bit numbers refilled \<open>n_hold\<close> at a time and consumed from its end.
\<close>

subsection \<open>CSPRNG\<close>

record csprng =
  sodium_ret :: "nat \<Rightarrow> int"
  init_calls :: nat
  entropy_ctr :: nat
  rnd_bytes :: "nat \<Rightarrow> nat \<Rightarrow> 8 word list"
  rnd_calls :: nat

definition sodium_ok :: "csprng \<Rightarrow> bool" where
  "sodium_ok c \<longleftrightarrow> (\<forall>k. 0 \<le> sodium_ret c k) \<and> (\<forall>k n. length (rnd_bytes c k n) = n)"

function entropyCheck :: "csprng \<Rightarrow> bool \<times> csprng" where
  "entropyCheck c =
     (let r = sodium_ret c (init_calls c);
          c1 = c\<lparr>init_calls := init_calls c + 1\<rparr>
      in if r < 0
         then let ctr = (entropy_ctr c + 1) mod 2 ^ 32; c2 = c1\<lparr>entropy_ctr := ctr\<rparr>
              in if 3000 < ctr then (False, c2) else entropyCheck c2
         else (True, c1))"
  by pat_completeness auto
termination
proof (relation "measure (\<lambda>c. if 3000 < entropy_ctr c then 3002 else 3001 - entropy_ctr c)")
  fix c c1 c2 :: csprng and r ctr
  assume "ctr = (entropy_ctr c + 1) mod 2 ^ 32" "c2 = c1\<lparr>entropy_ctr := ctr\<rparr>" "\<not> 3000 < ctr"
  then show "(c2, c) \<in> measure (\<lambda>c. if 3000 < entropy_ctr c then 3002 else 3001 - entropy_ctr c)"
    by (cases "entropy_ctr c < 3001") auto
qed simp

declare entropyCheck.simps [simp del]

definition GetRand :: "nat \<Rightarrow> (csprng, 8 word list) comp" where
  "GetRand byteSize c =
     (case entropyCheck c of
        (False, c1) \<Rightarrow> Inl (ThrownCString ''There is a serious lack of entropy.'')
      | (True, c1) \<Rightarrow>
          Inr (rnd_bytes c1 (rnd_calls c1) byteSize, c1\<lparr>rnd_calls := rnd_calls c1 + 1\<rparr>))"

text \<open>
  A byte is printed as eight binary digits, the digits of eight bytes are read back in base 2.
  \<open>std::stoull\<close> throws on a value of more than 64 bits.
\<close>

definition bitset8 :: "8 word \<Rightarrow> string" where
  "bitset8 b = map (\<lambda>i. if bit b (7 - i) then CHR ''1'' else CHR ''0'') [0..<8]"

definition stoull2 :: "string \<Rightarrow> 64 word res" where
  "stoull2 s =
     (let v = foldl (\<lambda>acc d. 2 * acc + (if d = CHR ''1'' then 1 else 0)) (0 :: nat) s
      in if s = [] then Inl InvalidArgument
         else if 2 ^ 64 \<le> v then Inl OutOfRangeError else Inr (of_nat v))"

definition bytes2LL :: "8 word list \<Rightarrow> 64 word res" where
  "bytes2LL bs = stoull2 (concat (map bitset8 bs))"

definition GetRandLL :: "(csprng, 64 word) comp" where
  "GetRandLL = bindS (GetRand 8) (\<lambda>rnd. liftS (bytes2LL rnd))"

fun chunk8 :: "8 word list \<Rightarrow> 8 word list list" where
  "chunk8 bs = (if length bs < 8 then [] else take 8 bs # chunk8 (drop 8 bs))"

declare chunk8.simps [simp del]

definition GetRandLLVec :: "nat \<Rightarrow> (csprng, 64 word list) comp" where
  "GetRandLLVec n = bindS (GetRand (n * 8 mod 2 ^ 32)) (\<lambda>rnd. liftS (mapE bytes2LL (chunk8 rnd)))"

subsection \<open>RandGenerator\<close>

record rng =
  n_hold :: nat
  rands :: "64 word list"
  gen :: csprng

definition generateRand :: "(rng, 64 word) comp" where
  "generateRand g =
     bindE (if rands g = []
            then bindE (GetRandLLVec (n_hold g) (gen g)) (\<lambda>(v, c). Inr (g\<lparr>rands := v, gen := c\<rparr>))
            else Inr g) (\<lambda>g1.
       if rands g1 = [] then Inl UndefinedBehaviour
       else Inr (last (rands g1), g1\<lparr>rands := butlast (rands g1)\<rparr>))"

text \<open>
  \<open>rnd % (max_val - min_val)\<close> is computed on unsigned 64-bit numbers after a signed subtraction; the
  remainder is cast back to a signed number.
\<close>

definition rand_ll :: "64 word \<Rightarrow> int \<Rightarrow> int \<Rightarrow> int res" where
  "rand_ll rnd min_val max_val =
     bindE (signed64 (max_val - min_val)) (\<lambda>d.
       if d = 0 then Inl UndefinedBehaviour
       else bindE (signed64 \<bar>sint (rnd mod word_of_int d)\<bar>) (\<lambda>a. signed64 (a + min_val)))"

definition getRand_ll :: "int \<Rightarrow> int \<Rightarrow> (rng, int) comp" where
  "getRand_ll min_val max_val = bindS generateRand (\<lambda>rnd. liftS (rand_ll rnd min_val max_val))"

definition fp_of_ll :: "int \<Rightarrow> fp res" where
  "fp_of_ll v = bindE (signed64 (v * shift)) (\<lambda>x. Inr (FP x))"

definition getRand_fp :: "int \<Rightarrow> int \<Rightarrow> (rng, fp) comp" where
  "getRand_fp min_val max_val = bindS (getRand_ll min_val max_val) (\<lambda>v. liftS (fp_of_ll v))"

definition getRandVec_fp :: "int \<Rightarrow> int \<Rightarrow> nat \<Rightarrow> (rng, fp list) comp" where
  "getRandVec_fp min_val max_val n = mapS (\<lambda>_. getRand_fp min_val max_val) [0..<n]"

definition getRand_pf :: "int \<Rightarrow> int \<Rightarrow> (rng, pf) comp" where
  "getRand_pf min_val max_val =
     bindS generateRand (\<lambda>rnd.
     bindS (liftS (signed64 (max_val - min_val))) (\<lambda>d.
       if d = 0 then raiseS UndefinedBehaviour
       else liftS (pf_make (uint (rnd mod word_of_int d + word_of_int min_val)))))"

definition rand_max :: int where "rand_max = 9223372036854775807"

subsection \<open>Reading the bytes\<close>

definition be_value :: "8 word list \<Rightarrow> nat" where
  "be_value bs = foldl (\<lambda>acc b. 256 * acc + unat b) 0 bs"

lemma be_value_snoc: "be_value (bs @ [b]) = 256 * be_value bs + unat b"
  by (simp add: be_value_def)

lemma be_value_bound: "be_value bs < 256 ^ length bs"
proof (induction bs rule: rev_induct)
  case (snoc b bs)
  have "unat b < 256"
    using unsigned_less [of b, where 'a = nat] by simp
  with snoc show ?case
    by (simp add: be_value_snoc)
qed (simp add: be_value_def)

lemma upt_8: "[0..<8] = [0, 1, 2, 3, 4, 5, 6, 7 :: nat]"
  by (simp add: upt_conv_Cons)

abbreviation bindig :: "nat \<Rightarrow> char \<Rightarrow> nat" where
  "bindig acc d \<equiv> 2 * acc + (if d = CHR ''1'' then 1 else 0)"

lemma bindig_bit: "bindig acc (if P then CHR ''1'' else CHR ''0'') = 2 * acc + of_bool P"
  by simp

lemma foldl_bitset8: "foldl bindig acc (bitset8 b) = 256 * acc + unat b"
proof -
  have "unat b = foldl bindig 0 (bitset8 b)"
  proof -
    have "unat b < 2 ^ 8"
      using unsigned_less [of b, where 'a = nat] by simp
    then have "unat b = take_bit 8 (unat b)"
      by (simp add: take_bit_nat_eq_self)
    also have "\<dots> = horner_sum of_bool 2 (map (bit (unat b)) [0..<8])"
      by (simp only: horner_sum_bit_eq_take_bit)
    also have "map (bit (unat b)) [0..<8] = map (bit b) [0..<8]"
      by (simp add: bit_unsigned_iff)
    finally have "unat b = horner_sum of_bool 2 (map (bit b) [0..<8])" .
    then show ?thesis
      by (simp only: bitset8_def upt_8 list.map foldl.simps bindig_bit horner_sum_simps) simp
  qed
  moreover have "foldl bindig acc (bitset8 b) = 256 * acc + foldl bindig 0 (bitset8 b)"
    by (simp only: bitset8_def upt_8 list.map foldl.simps bindig_bit horner_sum_simps) simp
  ultimately show ?thesis
    by simp
qed

lemma foldl_bitsets: "foldl bindig acc (concat (map bitset8 bs)) = 256 ^ length bs * acc + be_value bs"
proof (induction bs rule: rev_induct)
  case (snoc b bs)
  then show ?case
    by (simp add: foldl_bitset8 be_value_snoc)
qed (simp add: be_value_def)

lemma bytes2LL_ok: "length bs = 8 \<Longrightarrow> bytes2LL bs = Inr (of_nat (be_value bs))"
proof -
  assume len: "length bs = 8"
  have "concat (map bitset8 bs) \<noteq> []"
    using len by (cases bs) (auto simp: bitset8_def)
  then show ?thesis
    using len be_value_bound [of bs]
    by (simp del: concat_eq_Nil_conv add: bytes2LL_def stoull2_def foldl_bitsets Let_def)
qed

lemma chunk8_length: "cs \<in> set (chunk8 bs) \<Longrightarrow> length cs = 8"
proof (induction bs rule: chunk8.induct)
  case (1 bs)
  then show ?case by (subst (asm) (2) chunk8.simps) (auto split: if_splits)
qed

lemma chunk8_concat: "length bs = 8 * n \<Longrightarrow> length (chunk8 bs) = n \<and> concat (chunk8 bs) = bs"
proof (induction n arbitrary: bs)
  case (Suc n)
  then have "length (chunk8 (drop 8 bs)) = n \<and> concat (chunk8 (drop 8 bs)) = drop 8 bs"
    by simp
  with Suc.prems show ?case
    by (subst (1 2) chunk8.simps) simp
qed (simp add: chunk8.simps)

subsection \<open>The pool of random numbers\<close>

text \<open>
  \<open>tape P g\<close>: libsodium behaves as documented and every number the generator will ever hand out,
  from the pool and from the blocks to come, satisfies \<open>P\<close>. \<open>wf_rng\<close> is the instance without a
  restriction on the numbers.
\<close>

definition block :: "csprng \<Rightarrow> nat \<Rightarrow> 64 word list" where
  "block c k = map (\<lambda>bs. of_nat (be_value bs)) (chunk8 (rnd_bytes c k 8000))"

definition tape :: "(64 word \<Rightarrow> bool) \<Rightarrow> rng \<Rightarrow> bool" where
  "tape P g \<longleftrightarrow> n_hold g = 1000 \<and> sodium_ok (gen g) \<and> (\<forall>r \<in> set (rands g). P r) \<and>
     (\<forall>k. \<forall>r \<in> set (block (gen g) k). P r)"

definition wf_rng :: "rng \<Rightarrow> bool" where
  "wf_rng g \<longleftrightarrow> n_hold g = 1000 \<and> sodium_ok (gen g)"

lemma wf_rng_tape: "wf_rng g = tape (\<lambda>_. True) g"
  by (simp add: wf_rng_def tape_def)

lemma entropyCheck_ok: "sodium_ok c \<Longrightarrow> entropyCheck c = (True, c\<lparr>init_calls := init_calls c + 1\<rparr>)"
proof -
  assume "sodium_ok c"
  then have "\<not> sodium_ret c (init_calls c) < 0"
    by (simp add: sodium_ok_def not_less)
  then show ?thesis
    by (subst entropyCheck.simps) (simp add: Let_def)
qed

lemma GetRandLLVec_ok:
  assumes "sodium_ok c"
  shows "\<exists>c'. GetRandLLVec 1000 c = Inr (block c (rnd_calls c), c') \<and>
    sodium_ret c' = sodium_ret c \<and> rnd_bytes c' = rnd_bytes c"
proof -
  let ?bs = "chunk8 (rnd_bytes c (rnd_calls c) 8000)"
  have "mapE bytes2LL ?bs = Inr (map (\<lambda>bs. of_nat (be_value bs)) ?bs)"
    by (intro mapE_Inr bytes2LL_ok chunk8_length)
  with assms show ?thesis
    by (simp add: GetRandLLVec_def bindS_def liftS_def GetRand_def entropyCheck_ok block_def)
qed

lemma block_length: "sodium_ok c \<Longrightarrow> length (block c k) = 1000"
  using chunk8_concat [of "rnd_bytes c k 8000" 1000] by (simp add: block_def sodium_ok_def)

lemma tape_generateRand [wp_rules]:
  assumes "tape P g"
  shows "wpS (\<lambda>_. False) (\<lambda>r g'. P r \<and> tape P g') generateRand g"
proof (cases "rands g = []")
  case False
  then have "last (rands g) \<in> set (rands g)" "set (butlast (rands g)) \<subseteq> set (rands g)"
    by (auto dest: in_set_butlastD)
  with False assms show ?thesis
    by (auto simp: wpS_total generateRand_def tape_def dest: in_set_butlastD)
next
  case True
  from assms have ok: "sodium_ok (gen g)" and n: "n_hold g = 1000"
    by (auto simp: tape_def)
  from GetRandLLVec_ok [OF ok] obtain c' where c':
    "GetRandLLVec 1000 (gen g) = Inr (block (gen g) (rnd_calls (gen g)), c')"
    "sodium_ret c' = sodium_ret (gen g)" "rnd_bytes c' = rnd_bytes (gen g)"
    by auto
  let ?b = "block (gen g) (rnd_calls (gen g))"
  have b: "?b \<noteq> []"
    using block_length [OF ok, of "rnd_calls (gen g)"] by auto
  have "block c' = block (gen g)" "sodium_ok c'"
    using c' ok by (auto simp: block_def sodium_ok_def)
  moreover have "P (last ?b)"
    using assms last_in_set [OF b] unfolding tape_def by metis
  ultimately show ?thesis
    using True b c' n assms [unfolded tape_def]
    by (auto simp: wpS_total generateRand_def tape_def dest: in_set_butlastD)
qed

subsection \<open>Ranges\<close>

lemma signed64_ok: "- (2 ^ 63) \<le> x \<Longrightarrow> x < 2 ^ 63 \<Longrightarrow> signed64 x = Inr x"
  by (simp add: signed64_def)

lemma uint_mod_word: "0 < d \<Longrightarrow> d < 2 ^ 64 \<Longrightarrow> uint (r mod word_of_int d :: 64 word) = uint r mod d"
  by (simp add: uint_mod_distrib uint_word_of_int)

lemma sint_small: "uint (x :: 64 word) < 2 ^ 63 \<Longrightarrow> sint x = uint x"
  by (simp add: sint_uint) (rule signed_take_bit_int_eq_self, auto intro: order_trans [of _ 0])

lemma mod_range: "lo < hi \<Longrightarrow> lo \<le> v mod (hi - lo) + lo \<and> v mod (hi - lo) + lo < (hi :: int)"
  using pos_mod_bound [of "hi - lo" v] pos_mod_sign [of "hi - lo" v] by linarith

lemma rand_ll_value:
  assumes "- (2 ^ 63) \<le> lo" "lo < hi" "hi < 2 ^ 63" "hi - lo < 2 ^ 63"
  shows "rand_ll rnd lo hi = Inr (uint rnd mod (hi - lo) + lo)"
proof -
  define m where "m = uint rnd mod (hi - lo)"
  have m: "0 \<le> m" "m + lo < hi"
    using mod_range [OF assms(2), of "uint rnd"] by (auto simp: m_def)
  have u: "uint (rnd mod word_of_int (hi - lo)) = m"
    unfolding m_def using assms by (intro uint_mod_word) auto
  have "sint (rnd mod word_of_int (hi - lo)) = m"
    using m assms u by (subst sint_small) linarith+
  then show ?thesis
    unfolding m_def [symmetric] using m assms
    by (simp add: rand_ll_def signed64_ok del: of_int_diff)
qed

lemma rand_pf_value:
  assumes "0 \<le> lo" "lo < hi" "hi < 2 ^ 63"
  shows "uint (rnd mod word_of_int (hi - lo) + word_of_int lo :: 64 word) = uint rnd mod (hi - lo) + lo"
proof -
  define m where "m = uint rnd mod (hi - lo)"
  have m: "0 \<le> m" "m + lo < hi"
    using mod_range [OF assms(2), of "uint rnd"] by (auto simp: m_def)
  have u: "uint (rnd mod word_of_int (hi - lo)) = m"
    unfolding m_def using assms by (intro uint_mod_word) auto
  have l: "uint (word_of_int lo :: 64 word) = lo"
    using assms by (simp add: uint_word_of_int)
  have "uint (rnd mod word_of_int (hi - lo) + word_of_int lo :: 64 word) = (m + lo) mod 2 ^ 64"
    by (subst uint_word_ariths(1)) (simp only: u l, simp)
  also have "\<dots> = m + lo"
    using m assms by (intro mod_pos_pos_trivial) auto
  finally show ?thesis
    by (simp only: m_def)
qed

lemma pf_make_small: "0 \<le> v \<Longrightarrow> v < pf_p \<Longrightarrow> pf_make v = Inr (PF v) \<and> wf_pf (PF v)"
  by (simp add: pf_make_def wf_pf_def)

lemma tape_getRand_pf [wp_rules]:
  assumes "tape P g" "0 \<le> lo" "lo < hi" "hi < 2 ^ 63"
  shows "wpS (\<lambda>_. False) (\<lambda>x g'. tape P g' \<and>
    (\<exists>r. P r \<and> x = PF (uint r mod (hi - lo) + lo)) \<and> lo \<le> getVal x \<and> getVal x < hi \<and> wf_pf x)
    (getRand_pf lo hi) g"
proof -
  have v: "0 \<le> uint r mod (hi - lo) + lo" "uint r mod (hi - lo) + lo < pf_p"
    "lo \<le> uint r mod (hi - lo) + lo" "uint r mod (hi - lo) + lo < hi" for r :: "64 word"
    using mod_range [OF assms(3), of "uint r"] assms by (auto simp: pf_p_def)
  have d: "signed64 (hi - lo) = Inr (hi - lo)" "hi - lo \<noteq> 0"
    using assms by (auto intro: signed64_ok)
  show ?thesis
    unfolding getRand_pf_def wpS_bindS wpS_liftS d wpE_Inr if_not_P [OF d(2)]
      rand_pf_value [OF assms(2-4)] pf_make_small [OF v(1,2), THEN conjunct1]
    using tape_generateRand [OF assms(1)]
    by (rule wpS_mono) (use v pf_make_small [OF v(1,2)] in auto)
qed

lemma tape_getRand_fp_draw:
  assumes "tape P g" "- (2 ^ 36) \<le> lo" "lo < hi" "hi < 2 ^ 36"
  shows "wpS (\<lambda>_. False) (\<lambda>x g'. tape P g' \<and> (\<exists>r. P r \<and> x = fp_of_int (uint r mod (hi - lo) + lo)))
    (getRand_fp lo hi) g"
proof -
  have l: "rand_ll r lo hi = Inr (uint r mod (hi - lo) + lo)" for r
    using assms by (intro rand_ll_value) auto
  have f: "fp_of_ll (uint r mod (hi - lo) + lo) = Inr (fp_of_int (uint r mod (hi - lo) + lo))" for r :: "64 word"
    using mod_range [OF assms(3), of "uint r"] assms(2,4)
    by (simp add: fp_of_ll_def fp_of_int_def signed64_def shift_def)
  show ?thesis
    unfolding getRand_fp_def getRand_ll_def wpS_bindS wpS_liftS l f wpE_Inr
    using tape_generateRand [OF assms(1)]
    by (rule wpS_mono) auto
qed

lemma tape_getRand_fp [wp_rules]:
  assumes "tape P g" "- (2 ^ 36) \<le> lo" "lo < hi" "hi < 2 ^ 36"
  shows "wpS (\<lambda>_. False) (\<lambda>x g'. tape P g' \<and> (\<exists>k. lo \<le> k \<and> k < hi \<and> x = fp_of_int k))
    (getRand_fp lo hi) g"
  using tape_getRand_fp_draw [OF assms]
  by (rule wpS_mono) (use mod_range [OF assms(3)] in blast)

lemma chunk8_replicate: "b \<in> set (chunk8 (replicate m x)) \<Longrightarrow> b = replicate 8 x"
proof (induction m rule: less_induct)
  case (less m)
  show ?case
  proof (cases "m < 8")
    case True
    with less.prems show ?thesis by (simp add: chunk8.simps)
  next
    case False
    then have "chunk8 (replicate m x) = replicate 8 x # chunk8 (replicate (m - 8) x)"
      by (subst chunk8.simps) simp
    with less.prems consider "b = replicate 8 x" | "b \<in> set (chunk8 (replicate (m - 8) x))" by auto
    then show ?thesis
      using less.IH [of "m - 8"] False by cases auto
  qed
qed

text \<open>
  The byte-to-number conversion of the generator, which goes through a string of binary digits,
  is the big-endian value of the eight bytes and never fails; a block of bytes of length \<open>8 n\<close> is
  cut into \<open>n\<close> such groups without loss.
\<close>

theorem bytes2LL_big_endian:
  assumes "length bs = 8 * n"
  shows "mapE bytes2LL (chunk8 bs) = Inr (map (\<lambda>b. of_nat (be_value b)) (chunk8 bs)) \<and>
    length (chunk8 bs) = n \<and> concat (chunk8 bs) = bs \<and>
    (\<forall>b \<in> set (chunk8 bs). unat (of_nat (be_value b) :: 64 word) = be_value b)"
proof -
  have "unat (of_nat (be_value b) :: 64 word) = be_value b" if "b \<in> set (chunk8 bs)" for b
    using be_value_bound [of b] chunk8_length [OF that] by (simp add: unat_of_nat)
  moreover have "mapE bytes2LL (chunk8 bs) = Inr (map (\<lambda>b. of_nat (be_value b)) (chunk8 bs))"
    by (intro mapE_Inr bytes2LL_ok chunk8_length)
  ultimately show ?thesis
    using chunk8_concat [OF assms] by simp
qed

theorem bytes2LL_big_endian_witness:
  "length (chunk8 [0, 0, 0, 0, 0, 0, 1, 2]) = 1 \<and> mapE bytes2LL [[0, 0, 0, 0, 0, 0, 1, 2]] = Inr [258]"
proof -
  have "chunk8 [0, 0, 0, 0, 0, 0, 1, 2] = [[0, 0, 0, 0, 0, 0, 1, 2]]"
    by (simp add: chunk8.simps)
  then show ?thesis
    using bytes2LL_big_endian [of "[0, 0, 0, 0, 0, 0, 1, 2]" 1] by (simp add: be_value_def)
qed

text \<open>
  With libsodium behaving as documented, drawing a random number never fails and stays in its range: \<open>getRand<PrimeField>(lo, hi)\<close>
  lies in \<open>[lo, hi)\<close>, so with the default bounds it is below \<open>2^63 - 1\<close> and not, as the comment of
  \<open>subRNS\<close> says, anywhere below \<open>p\<close>; \<open>getRand<FixedPoint>(lo, hi)\<close> is a whole number in
  \<open>[lo, hi)\<close>.
\<close>

theorem getRand_range:
  assumes "wf_rng g" "lo < hi"
  shows "(0 \<le> lo \<and> hi < 2 ^ 63 \<longrightarrow>
      (\<exists>x g'. getRand_pf lo hi g = Inr (x, g') \<and> wf_rng g' \<and> lo \<le> getVal x \<and> getVal x < hi)) \<and>
    (- (2 ^ 36) \<le> lo \<and> hi < 2 ^ 36 \<longrightarrow>
      (\<exists>k g'. getRand_fp lo hi g = Inr (fp_of_int k, g') \<and> wf_rng g' \<and> lo \<le> k \<and> k < hi)) \<and>
    (\<exists>x g'. getRand_pf 0 rand_max g = Inr (x, g') \<and> getVal x < 2 ^ 63 - 1)"
proof -
  have "\<exists>x g'. getRand_pf lo hi g = Inr (x, g') \<and> wf_rng g' \<and> lo \<le> getVal x \<and> getVal x < hi"
    if "0 \<le> lo" "hi < 2 ^ 63" "lo < hi" for lo hi
    using tape_getRand_pf [of "\<lambda>_. True" g lo hi] assms that by (auto simp: wf_rng_tape wpS_total)
  from this [of lo hi] this [of 0 rand_max] show ?thesis
    using tape_getRand_fp [of "\<lambda>_. True" g lo hi] assms
    by (auto simp: wf_rng_tape wpS_total rand_max_def)
qed

definition zero_csprng :: csprng where
  "zero_csprng = \<lparr>sodium_ret = \<lambda>_. 0, init_calls = 0, entropy_ctr = 0,
     rnd_bytes = \<lambda>_ n. replicate n 0, rnd_calls = 0\<rparr>"

theorem getRand_range_witness:
  "\<exists>k g'. getRand_fp 1 1000 \<lparr>n_hold = 1000, rands = [7], gen = zero_csprng\<rparr> = Inr (fp_of_int k, g') \<and>
     1 \<le> k \<and> k < 1000"
  using getRand_range [of "\<lparr>n_hold = 1000, rands = [7], gen = zero_csprng\<rparr>" 1 1000]
  by (auto simp: wf_rng_def sodium_ok_def zero_csprng_def)

end
