(* ===== verification/Triples.thy ===== *)
theory Triples
  imports Randgen
begin

section \<open>Beaver triples\<close>

text \<open>
  \<open>Client/ComputationToBts/Client.cpp\<close> and \<open>TripleHandler/TripleHandler.hpp\<close>. The Beaver triple
  service is not part of the sources: the record \<open>bts\<close> holds the reply to its \<open>k\<close>-th call as a
  function of the request, and the number of calls made. \<open>handler\<close> is one party's handler: the two
  thread-local queues, the refill threshold, the job of the thread and the parameters its refill reads.
  \<open>readTriples\<close> retries without a bound on three status codes, so it takes fuel.
  \<open>bts_group\<close> states what the parties rely on: after at most \<open>bts_fuel\<close> retries the service answers
  with as many triples as requested, and the \<open>m\<close>-th answers to the parties are additive shares of
  Beaver triples.
\<close>

subsection \<open>Decimal numerals\<close>

fun digits :: "nat \<Rightarrow> string" where
  "digits n = (if n < 10 then [char_of (48 + n)] else digits (n div 10) @ [char_of (48 + n mod 10)])"

declare digits.simps [simp del]

definition to_string :: "int \<Rightarrow> string" where
  "to_string i = (if i < 0 then CHR ''-'' # digits (nat (- i)) else digits (nat i))"

subsection \<open>The client of the triple service\<close>

datatype grpc_status = DEADLINE_EXCEEDED | UNAVAILABLE | RESOURCE_EXHAUSTED | OtherStatus int

datatype reply = ReplyOk "(int \<times> int \<times> int) list" | ReplyErr grpc_status

record bts =
  bts_reply :: "nat \<Rightarrow> nat \<Rightarrow> nat \<Rightarrow> reply"
  bts_calls :: nat

definition retryable :: "grpc_status \<Rightarrow> bool" where
  "retryable st \<longleftrightarrow> st = DEADLINE_EXCEEDED \<or> st = UNAVAILABLE \<or> st = RESOURCE_EXHAUSTED"

fun readTriples :: "nat \<Rightarrow> nat \<Rightarrow> nat \<Rightarrow> (bts, (string \<times> string \<times> string) list) comp" where
  "readTriples 0 job amount b = Inl OutOfFuel"
| "readTriples (Suc fuel) job amount b =
     (let r = bts_reply b (bts_calls b) job amount;
          b' = b\<lparr>bts_calls := bts_calls b + 1\<rparr>
      in case r of
           ReplyOk ts \<Rightarrow> Inr (map (\<lambda>(x, y, z). (to_string x, to_string y, to_string z)) ts, b')
         | ReplyErr st \<Rightarrow>
             if retryable st then readTriples fuel job amount b'
             else Inl (RuntimeError ''unrecoverable error''))"

subsection \<open>The triple handler\<close>

record handler =
  threshold :: nat
  triple_fp_queue :: "(fp \<times> fp \<times> fp) list"
  triple_pf_queue :: "(pf \<times> pf \<times> pf) list"
  h_bts :: bts
  h_fuel :: nat
  h_job :: nat
  h_parties :: nat
  str2fp :: "string \<Rightarrow> fp"

definition convertStr2Triple_fp :: "handler \<Rightarrow> string \<times> string \<times> string \<Rightarrow> (fp \<times> fp \<times> fp) res" where
  "convertStr2Triple_fp h buf =
     (case buf of (x, y, z) \<Rightarrow> Inr (str2fp h x, str2fp h y, str2fp h z))"

definition convertStr2Triple_pf :: "handler \<Rightarrow> string \<times> string \<times> string \<Rightarrow> (pf \<times> pf \<times> pf) res" where
  "convertStr2Triple_pf h buf =
     bindE (pf_make 1) (\<lambda>a. bindE (pf_make 1) (\<lambda>b. bindE (pf_make (int (h_parties h))) (\<lambda>c.
       Inr (a, b, c))))"

definition takeOutTriple ::
    "(handler \<Rightarrow> string \<times> string \<times> string \<Rightarrow> 't res) \<Rightarrow> 't list \<Rightarrow> (handler, 't \<times> 't list) comp" where
  "takeOutTriple conv q h =
     bindE (if length q < threshold h
            then bindE (readTriples (h_fuel h) (h_job h) (threshold h) (h_bts h)) (\<lambda>(ts, b).
                 bindE (mapE (conv h) ts) (\<lambda>new. Inr (q @ new, h\<lparr>h_bts := b\<rparr>)))
            else Inr (q, h)) (\<lambda>(q1, h1).
       case q1 of [] \<Rightarrow> Inl UndefinedBehaviour | t # q2 \<Rightarrow> Inr ((t, q2), h1))"

definition take_fp :: "(handler, fp \<times> fp \<times> fp) comp" where
  "take_fp h = bindE (takeOutTriple convertStr2Triple_fp (triple_fp_queue h) h) (\<lambda>((t, q), h1).
     Inr (t, h1\<lparr>triple_fp_queue := q\<rparr>))"

definition take_pf :: "(handler, pf \<times> pf \<times> pf) comp" where
  "take_pf h = bindE (takeOutTriple convertStr2Triple_pf (triple_pf_queue h) h) (\<lambda>((t, q), h1).
     Inr (t, h1\<lparr>triple_pf_queue := q\<rparr>))"

definition getTriple_fp :: "nat \<Rightarrow> (handler, (fp \<times> fp \<times> fp) list) comp" where
  "getTriple_fp needCount = mapS (\<lambda>_. take_fp) [0..<needCount]"

definition getTriple_pf :: "nat \<Rightarrow> (handler, (pf \<times> pf \<times> pf) list) comp" where
  "getTriple_pf needCount = mapS (\<lambda>_. take_pf) [0..<needCount]"

subsection \<open>One party\<close>

text \<open>
  \<open>bts_answers F amount b\<close>: whatever has been asked before, the service answers a request for
  \<open>amount\<close> triples within \<open>F\<close> tries, with exactly that many.
\<close>

definition is_ok :: "reply \<Rightarrow> bool" where
  "is_ok r = (case r of ReplyOk _ \<Rightarrow> True | ReplyErr _ \<Rightarrow> False)"

definition bts_answers :: "nat \<Rightarrow> nat \<Rightarrow> nat \<Rightarrow> (nat \<Rightarrow> nat \<Rightarrow> nat \<Rightarrow> reply) \<Rightarrow> bool" where
  "bts_answers F job amount rep \<longleftrightarrow>
     (\<forall>k. \<exists>j < F. (\<exists>ts. rep (k + j) job amount = ReplyOk ts) \<and>
        (\<forall>i < j. \<exists>st. rep (k + i) job amount = ReplyErr st \<and> retryable st)) \<and>
     (\<forall>k ts. rep k job amount = ReplyOk ts \<longrightarrow> length ts = amount \<and>
        (\<forall>(x, y, z) \<in> set ts. \<forall>v \<in> {x, y, z}. - (2 ^ 63) \<le> v \<and> v < 2 ^ 63))"

definition oks :: "(nat \<Rightarrow> nat \<Rightarrow> nat \<Rightarrow> reply) \<Rightarrow> nat \<Rightarrow> nat \<Rightarrow> nat \<Rightarrow> nat" where
  "oks rep job amount k = length (filter (\<lambda>i. is_ok (rep i job amount)) [0..<k])"

definition ok_reply ::
    "(nat \<Rightarrow> nat \<Rightarrow> nat \<Rightarrow> reply) \<Rightarrow> nat \<Rightarrow> nat \<Rightarrow> nat \<Rightarrow> (int \<times> int \<times> int) list \<Rightarrow> bool" where
  "ok_reply rep job amount m ts \<longleftrightarrow> (\<exists>k. rep k job amount = ReplyOk ts \<and> oks rep job amount k = m)"

abbreviation h_oks :: "handler \<Rightarrow> nat" where
  "h_oks h \<equiv> oks (bts_reply (h_bts h)) (h_job h) (threshold h) (bts_calls (h_bts h))"

lemma readTriples_retries:
  assumes "bts_reply b (bts_calls b + j) job amount = ReplyOk ts" "j < F"
    "\<forall>i < j. \<exists>st. bts_reply b (bts_calls b + i) job amount = ReplyErr st \<and> retryable st"
  shows "\<exists>b'. readTriples F job amount b =
      Inr (map (\<lambda>(x, y, z). (to_string x, to_string y, to_string z)) ts, b') \<and>
    bts_reply b' = bts_reply b \<and>
    oks (bts_reply b) job amount (bts_calls b') = oks (bts_reply b) job amount (bts_calls b) + 1 \<and>
    ok_reply (bts_reply b) job amount (oks (bts_reply b) job amount (bts_calls b)) ts"
  using assms
proof (induction j arbitrary: F b)
  case 0
  then obtain f where F: "F = Suc f" by (cases F) auto
  have "ok_reply (bts_reply b) job amount (oks (bts_reply b) job amount (bts_calls b)) ts"
    using 0 by (auto simp: ok_reply_def)
  with 0 F show ?case
    by (intro exI [of _ "b\<lparr>bts_calls := bts_calls b + 1\<rparr>"] conjI) (auto simp: oks_def is_ok_def)
next
  case (Suc j)
  then obtain f where F: "F = Suc f" by (cases F) auto
  let ?b = "b\<lparr>bts_calls := bts_calls b + 1\<rparr>"
  from Suc.prems obtain st where st: "bts_reply b (bts_calls b) job amount = ReplyErr st" "retryable st"
    by fastforce
  have "\<forall>i < j. \<exists>st. bts_reply ?b (bts_calls ?b + i) job amount = ReplyErr st \<and> retryable st"
    using Suc.prems(3) by (auto dest: spec [of _ "Suc _"])
  moreover have "oks (bts_reply b) job amount (Suc (bts_calls b)) = oks (bts_reply b) job amount (bts_calls b)"
    using st by (simp add: oks_def is_ok_def)
  ultimately show ?case
    using Suc.IH [of ?b f] Suc.prems st F by simp
qed

text \<open>What one party's handler keeps, whatever the other parties do.\<close>

definition wf_handler :: "nat \<Rightarrow> nat \<Rightarrow> nat \<Rightarrow> handler \<Rightarrow> bool" where
  "wf_handler T J n h \<longleftrightarrow> 0 < T \<and> threshold h = T \<and> h_job h = J \<and> h_parties h = n \<and> int n < pf_p \<and>
     bts_answers (h_fuel h) J T (bts_reply (h_bts h)) \<and>
     (\<forall>v. - (2 ^ 63) \<le> v \<and> v < 2 ^ 63 \<longrightarrow> str2fp h (to_string v) = fp_of_int v) \<and>
     (\<forall>t \<in> set (triple_pf_queue h). t = (1, 1, PF (int n)))"

abbreviation fp_triple :: "int \<times> int \<times> int \<Rightarrow> fp \<times> fp \<times> fp" where
  "fp_triple t \<equiv> (case t of (x, y, z) \<Rightarrow> (fp_of_int x, fp_of_int y, fp_of_int z))"

lemma wf_handler_readTriples:
  assumes "wf_handler T J n h"
  obtains ts b where "readTriples (h_fuel h) (h_job h) (threshold h) (h_bts h) =
      Inr (map (\<lambda>(x, y, z). (to_string x, to_string y, to_string z)) ts, b)"
    "bts_reply b = bts_reply (h_bts h)"
    "oks (bts_reply (h_bts h)) J T (bts_calls b) = h_oks h + 1"
    "ok_reply (bts_reply (h_bts h)) J T (h_oks h) ts" "length ts = T"
    "mapE (convertStr2Triple_fp h) (map (\<lambda>(x, y, z). (to_string x, to_string y, to_string z)) ts) =
       Inr (map fp_triple ts)"
proof -
  let ?b = "h_bts h"
  have a: "bts_answers (h_fuel h) J T (bts_reply ?b)" and st: "threshold h = T" "h_job h = J"
    using assms by (auto simp: wf_handler_def)
  then obtain j ts where j: "j < h_fuel h" "bts_reply ?b (bts_calls ?b + j) J T = ReplyOk ts"
    "\<forall>i < j. \<exists>st. bts_reply ?b (bts_calls ?b + i) J T = ReplyErr st \<and> retryable st"
    unfolding bts_answers_def by meson
  have len: "length ts = T"
    and r: "\<forall>(x, y, z) \<in> set ts. \<forall>v \<in> {x, y, z}. - (2 ^ 63) \<le> v \<and> v < 2 ^ 63"
    using a j(2) unfolding bts_answers_def by (blast, blast)
  have "convertStr2Triple_fp h (to_string x, to_string y, to_string z) = Inr (fp_triple (x, y, z))"
    if "(x, y, z) \<in> set ts" for x y z
    using that r assms by (fastforce simp: convertStr2Triple_fp_def wf_handler_def)
  then have conv: "mapE (convertStr2Triple_fp h) (map (\<lambda>(x, y, z). (to_string x, to_string y, to_string z)) ts) =
       Inr (map fp_triple ts)"
    by (induction ts) auto
  from readTriples_retries [OF j(2,1,3)] show ?thesis
    using that [of ts] len conv st by auto
qed

lemma pf_make_nat: "int n < pf_p \<Longrightarrow> pf_make (int n) = Inr (PF (int n))"
  using pf_make_small [of "int n"] by simp

lemma convertStr2Triple_pf_ok:
  "wf_handler T J n h \<Longrightarrow> convertStr2Triple_pf h buf = Inr (1, 1, PF (int n))"
  using pf_make_nat [of 1] pf_make_nat [of n]
  by (simp add: convertStr2Triple_pf_def wf_handler_def one_pf_def pf_p_def)

definition fp_taken :: "handler \<Rightarrow> (fp \<times> fp \<times> fp) \<Rightarrow> handler \<Rightarrow> bool" where
  "fp_taken h t h' \<longleftrightarrow> bts_reply (h_bts h') = bts_reply (h_bts h) \<and>
     triple_pf_queue h' = triple_pf_queue h \<and>
     (if threshold h \<le> length (triple_fp_queue h)
      then h_oks h' = h_oks h \<and> triple_fp_queue h = t # triple_fp_queue h'
      else h_oks h' = h_oks h + 1 \<and>
        (\<exists>ts. ok_reply (bts_reply (h_bts h)) (h_job h) (threshold h) (h_oks h) ts \<and>
          length ts = threshold h \<and> triple_fp_queue h @ map fp_triple ts = t # triple_fp_queue h'))"

definition pf_taken :: "handler \<Rightarrow> (pf \<times> pf \<times> pf) \<Rightarrow> handler \<Rightarrow> bool" where
  "pf_taken h t h' \<longleftrightarrow> bts_reply (h_bts h') = bts_reply (h_bts h) \<and>
     triple_fp_queue h' = triple_fp_queue h \<and> t = (1, 1, PF (int (h_parties h))) \<and>
     (if threshold h \<le> length (triple_pf_queue h)
      then h_oks h' = h_oks h \<and> length (triple_pf_queue h) = Suc (length (triple_pf_queue h'))
      else h_oks h' = h_oks h + 1 \<and>
        length (triple_pf_queue h) + threshold h = Suc (length (triple_pf_queue h')))"

lemma wf_handler_take_fp:
  assumes "wf_handler T J n h"
  shows "\<exists>t h'. take_fp h = Inr (t, h') \<and> wf_handler T J n h' \<and> fp_taken h t h'"
proof (cases "threshold h \<le> length (triple_fp_queue h)")
  case True
  moreover have "0 < threshold h"
    using assms by (simp add: wf_handler_def)
  ultimately show ?thesis
    using assms
    by (cases "triple_fp_queue h")
      (auto simp: take_fp_def takeOutTriple_def wf_handler_def fp_taken_def)
next
  case False
  from wf_handler_readTriples [OF assms] obtain ts b where r:
    "readTriples (h_fuel h) (h_job h) (threshold h) (h_bts h) =
      Inr (map (\<lambda>(x, y, z). (to_string x, to_string y, to_string z)) ts, b)"
    "bts_reply b = bts_reply (h_bts h)" "oks (bts_reply (h_bts h)) J T (bts_calls b) = h_oks h + 1"
    "ok_reply (bts_reply (h_bts h)) J T (h_oks h) ts" "length ts = T"
    "mapE (convertStr2Triple_fp h) (map (\<lambda>(x, y, z). (to_string x, to_string y, to_string z)) ts) =
       Inr (map fp_triple ts)"
    by blast
  have st: "threshold h = T" "h_job h = J" "0 < T"
    using assms by (auto simp: wf_handler_def)
  obtain t q where q: "triple_fp_queue h @ map fp_triple ts = t # q"
    using r(5) st by (cases "triple_fp_queue h @ map fp_triple ts") auto
  show ?thesis
    using False r st q assms
    by (intro exI [of _ t] exI [of _ "h\<lparr>h_bts := b, triple_fp_queue := q\<rparr>"])
      (auto simp: take_fp_def takeOutTriple_def fp_taken_def wf_handler_def)
qed

lemma wf_handler_take_pf:
  assumes "wf_handler T J n h"
  shows "\<exists>t h'. take_pf h = Inr (t, h') \<and> wf_handler T J n h' \<and> pf_taken h t h'"
proof (cases "threshold h \<le> length (triple_pf_queue h)")
  case True
  moreover have "0 < threshold h"
    using assms by (simp add: wf_handler_def)
  ultimately show ?thesis
    using assms
    by (cases "triple_pf_queue h")
      (auto simp: take_pf_def takeOutTriple_def wf_handler_def pf_taken_def)
next
  case False
  from wf_handler_readTriples [OF assms] obtain ts :: "(int \<times> int \<times> int) list" and b where r:
    "readTriples (h_fuel h) (h_job h) (threshold h) (h_bts h) =
      Inr (map (\<lambda>(x, y, z). (to_string x, to_string y, to_string z)) ts, b)"
    "bts_reply b = bts_reply (h_bts h)" "oks (bts_reply (h_bts h)) J T (bts_calls b) = h_oks h + 1"
    "length ts = T"
    by blast
  let ?new = "map (\<lambda>_. (1, 1, PF (int n))) ts"
  have "mapE (convertStr2Triple_pf h) (map (\<lambda>(x, y, z). (to_string x, to_string y, to_string z)) ts) = Inr ?new"
    using convertStr2Triple_pf_ok [OF assms] by (induction ts) auto
  moreover have st: "threshold h = T" "h_job h = J" "0 < T" "h_parties h = n"
    using assms by (auto simp: wf_handler_def)
  moreover obtain t q where q: "triple_pf_queue h @ ?new = t # q"
    using r(4) st by (cases "triple_pf_queue h @ ?new") auto
  moreover have "length (triple_pf_queue h) + T = Suc (length q)"
    using arg_cong [OF q, of length] r(4) by simp
  moreover have "\<forall>u \<in> set (t # q). u = (1, 1, PF (int n))"
    using assms unfolding q [symmetric] by (auto simp: wf_handler_def)
  ultimately show ?thesis
    using False r assms
    by (intro exI [of _ t] exI [of _ "h\<lparr>h_bts := b, triple_pf_queue := q\<rparr>"])
      (auto simp: take_pf_def takeOutTriple_def pf_taken_def wf_handler_def)
qed

subsection \<open>All parties\<close>

text \<open>
  \<open>par m\<close> runs one computation at every party. \<open>handlers\<close> is the joint invariant of the parties'
  handlers: the queues have the same length everywhere, and the entries at one position of the
  fixed-point queues are shares of one Beaver triple.
\<close>

definition par :: "('s, 'a) comp \<Rightarrow> ('s list, 'a list) comp" where
  "par m ss = bindE (mapE m ss) (\<lambda>rs. Inr (map fst rs, map snd rs))"

lemma par_eq_Inr:
  "par m ss = Inr (xs, ss') \<longleftrightarrow> length xs = length ss \<and> length ss' = length ss \<and>
     (\<forall>i < length ss. m (ss ! i) = Inr (xs ! i, ss' ! i))"
  (is "?L \<longleftrightarrow> ?R")
proof
  assume ?L
  then show ?R by (auto simp: par_def bindE_eq_Inr mapE_eq_Inr)
next
  assume R: ?R
  then have "mapE m ss = Inr (zip xs ss')"
    by (simp add: mapE_eq_Inr)
  with R show ?L by (simp add: par_def)
qed

lemma wpS_par_mapS:
  assumes step: "\<And>ss. I ss \<Longrightarrow> length ss = n \<Longrightarrow> wpS (\<lambda>_. False) (\<lambda>ts ss'. I ss' \<and> R ts) (par m) ss"
    and "I ss" "length ss = n"
  shows "wpS (\<lambda>_. False) (\<lambda>rs ss'. I ss' \<and> length ss' = n \<and> length rs = n \<and>
      (\<forall>r \<in> set rs. length r = length ks) \<and> (\<forall>t < length ks. R (map (\<lambda>r. r ! t) rs)))
    (par (mapS (\<lambda>_. m) ks)) ss"
  using assms(2,3)
proof (induction ks arbitrary: ss)
  case Nil
  then have "par (mapS (\<lambda>_. m) []) ss = Inr (map (\<lambda>_. []) ss, ss)"
    by (simp add: par_eq_Inr)
  with Nil show ?case
    unfolding wpS_total by (intro exI conjI) auto
next
  case (Cons k ks)
  from step [OF Cons.prems] obtain ts ss1 where 1: "par m ss = Inr (ts, ss1)" "I ss1" "R ts"
    by (auto simp: wpS_total)
  then have len1: "length ss1 = n" "length ts = n"
    using Cons.prems by (auto simp: par_eq_Inr)
  from Cons.IH [OF 1(2) len1(1)] obtain rs ss2 where 2: "par (mapS (\<lambda>_. m) ks) ss1 = Inr (rs, ss2)"
    "I ss2" "length ss2 = n" "length rs = n" "\<forall>r \<in> set rs. length r = length ks"
    "\<forall>t < length ks. R (map (\<lambda>r. r ! t) rs)"
    by (auto simp: wpS_total)
  let ?rs = "map2 (#) ts rs"
  have "par (mapS (\<lambda>_. m) (k # ks)) ss = Inr (?rs, ss2)"
    using 1(1) 2(1) len1 2(3,4) Cons.prems by (simp add: par_eq_Inr)
  moreover have "R (map (\<lambda>r. r ! t) (map2 (#) ts rs))" if "t < length (k # ks)" for t
  proof (cases t)
    case 0
    have "map (\<lambda>r. r ! 0) (map2 (#) ts rs) = ts"
      using len1 2(4) by (intro nth_equalityI) auto
    with 0 1 show ?thesis by simp
  next
    case (Suc u)
    have "map (\<lambda>r. r ! Suc u) (map2 (#) ts rs) = map (\<lambda>r. r ! u) rs"
      using len1 2(4) by (intro nth_equalityI) auto
    with Suc 2(6) that show ?thesis by simp
  qed
  moreover have "\<forall>r \<in> set (map2 (#) ts rs). length r = length (k # ks)"
    using 2(5) by (auto dest!: set_zip_rightD)
  ultimately show ?case
    unfolding wpS_total using 2 len1 by (intro exI [of _ ?rs] exI [of _ ss2] conjI allI impI) simp_all
qed

text \<open>The shares of one triple, whose components are 64-bit signed integers on the wire.\<close>

definition beaver_int :: "(int \<times> int \<times> int) list \<Rightarrow> bool" where
  "beaver_int ts \<longleftrightarrow>
     sum_list (map fst ts) * sum_list (map (fst \<circ> snd) ts) = sum_list (map (snd \<circ> snd) ts) \<and>
     (\<forall>t \<in> set ts. \<bar>fst t\<bar> \<le> 2 ^ 63 \<and> \<bar>fst (snd t)\<bar> \<le> 2 ^ 63 \<and> \<bar>snd (snd t)\<bar> \<le> 2 ^ 63)"

definition beaver_fp :: "(fp \<times> fp \<times> fp) list \<Rightarrow> bool" where
  "beaver_fp ts \<longleftrightarrow> (\<exists>is. ts = map fp_triple is \<and> beaver_int is)"

definition bts_group :: "nat \<Rightarrow> nat \<Rightarrow> (nat \<Rightarrow> nat \<Rightarrow> nat \<Rightarrow> reply) list \<Rightarrow> bool" where
  "bts_group J T reps \<longleftrightarrow>
     (\<forall>m tss. list_all2 (\<lambda>rep ts. ok_reply rep J T m ts) reps tss \<longrightarrow>
        (\<forall>t < T. beaver_int (map (\<lambda>ts. ts ! t) tss)))"

definition handlers :: "nat \<Rightarrow> nat \<Rightarrow> handler list \<Rightarrow> bool" where
  "handlers T J hs \<longleftrightarrow> hs \<noteq> [] \<and> (\<forall>h \<in> set hs. wf_handler T J (length hs) h) \<and>
     bts_group J T (map (\<lambda>h. bts_reply (h_bts h)) hs) \<and>
     (\<exists>m. \<forall>h \<in> set hs. h_oks h = m) \<and> (\<exists>l. \<forall>h \<in> set hs. length (triple_pf_queue h) = l) \<and>
     (\<exists>l. (\<forall>h \<in> set hs. length (triple_fp_queue h) = l) \<and>
        (\<forall>t < l. beaver_fp (map (\<lambda>h. triple_fp_queue h ! t) hs)))"

text \<open>
  The common step: once every party has a head and a rest of an extended queue whose entries are
  correlated, the heads are a Beaver triple and the rests are again correlated.
\<close>

lemma correlated_split:
  assumes "\<forall>h \<in> set hs. Q h = f h # q h" "\<forall>h \<in> set hs. length (Q h) = l" "hs \<noteq> []"
    "\<forall>t < l. beaver_fp (map (\<lambda>h. Q h ! t) hs)"
  shows "beaver_fp (map f hs)" "\<forall>h \<in> set hs. length (q h) = l - 1"
    "\<forall>t < l - 1. beaver_fp (map (\<lambda>h. q h ! t) hs)"
proof -
  have l: "0 < l"
    using assms by (cases hs) auto
  have "map f hs = map (\<lambda>h. Q h ! 0) hs"
    using assms(1) by auto
  with l assms(4) show "beaver_fp (map f hs)" by metis
  show "\<forall>h \<in> set hs. length (q h) = l - 1"
    using assms(1,2) by fastforce
  show "\<forall>t < l - 1. beaver_fp (map (\<lambda>h. q h ! t) hs)"
  proof (intro allI impI)
    fix t assume "t < l - 1"
    moreover have "map (\<lambda>h. q h ! t) hs = map (\<lambda>h. Q h ! Suc t) hs"
      using assms(1) by auto
    ultimately show "beaver_fp (map (\<lambda>h. q h ! t) hs)"
      using assms(4) by (simp del: map_eq_conv)
  qed
qed

lemma bts_group_batch:
  assumes "bts_group J T (map (\<lambda>h. bts_reply (h_bts h)) hs)"
    "\<forall>h \<in> set hs. ok_reply (bts_reply (h_bts h)) J T m (g h) \<and> length (g h) = T" "t < T"
  shows "beaver_fp (map (\<lambda>h. map fp_triple (g h) ! t) hs)"
proof -
  have "list_all2 (\<lambda>rep ts. ok_reply rep J T m ts) (map (\<lambda>h. bts_reply (h_bts h)) hs) (map g hs)"
    using assms(2) by (auto simp: list_all2_conv_all_nth)
  with assms(1,3) have "beaver_int (map (\<lambda>ts. ts ! t) (map g hs))"
    unfolding bts_group_def by blast
  moreover have "map (\<lambda>h. map fp_triple (g h) ! t) hs = map fp_triple (map (\<lambda>ts. ts ! t) (map g hs))"
    using assms(2,3) by auto
  ultimately show ?thesis
    unfolding beaver_fp_def by metis
qed

lemma handlers_extended:
  assumes hs: "handlers T J hs" and taken: "\<forall>h \<in> set hs. fp_taken h (f h) (s h)"
  obtains Q l m where "\<forall>h \<in> set hs. Q h = f h # triple_fp_queue (s h)" "\<forall>h \<in> set hs. length (Q h) = l"
    "\<forall>t < l. beaver_fp (map (\<lambda>h. Q h ! t) hs)"
    "\<forall>h \<in> set hs. oks (bts_reply (h_bts (s h))) (h_job (s h)) (threshold (s h)) (bts_calls (h_bts (s h))) = m"
proof -
  from hs obtain m l where m: "\<forall>h \<in> set hs. h_oks h = m"
    and l: "\<forall>h \<in> set hs. length (triple_fp_queue h) = l"
    and b: "\<forall>t < l. beaver_fp (map (\<lambda>h. triple_fp_queue h ! t) hs)"
    by (auto simp: handlers_def)
  have T: "\<forall>h \<in> set hs. threshold h = T \<and> h_job h = J"
    using hs by (auto simp: handlers_def wf_handler_def)
  show thesis
  proof (cases "T \<le> l")
    case True
    show thesis
      by (rule that [of triple_fp_queue l m])
        (use True taken T m l b in \<open>auto simp: fp_taken_def\<close>)
  next
    case False
    then have "\<forall>h \<in> set hs. \<exists>ts. ok_reply (bts_reply (h_bts h)) J T m ts \<and> length ts = T \<and>
        triple_fp_queue h @ map fp_triple ts = f h # triple_fp_queue (s h)"
      using taken T m l by (simp add: fp_taken_def)
    then obtain g where g: "\<forall>h \<in> set hs. ok_reply (bts_reply (h_bts h)) J T m (g h) \<and> length (g h) = T \<and>
        triple_fp_queue h @ map fp_triple (g h) = f h # triple_fp_queue (s h)"
      by metis
    let ?Q = "\<lambda>h. triple_fp_queue h @ map fp_triple (g h)"
    have "beaver_fp (map (\<lambda>h. ?Q h ! t) hs)" if t: "t < l + T" for t
    proof (cases "t < l")
      case True
      then have "map (\<lambda>h. ?Q h ! t) hs = map (\<lambda>h. triple_fp_queue h ! t) hs"
        using l by (auto simp: nth_append)
      with True b show ?thesis by (simp del: map_eq_conv)
    next
      case False
      then have "map (\<lambda>h. ?Q h ! t) hs = map (\<lambda>h. map fp_triple (g h) ! (t - l)) hs"
        using l by (auto simp: nth_append)
      moreover have "beaver_fp (map (\<lambda>h. map fp_triple (g h) ! (t - l)) hs)"
        using hs g False t by (intro bts_group_batch [of J T]) (auto simp: handlers_def)
      ultimately show ?thesis by (simp del: map_eq_conv)
    qed
    moreover have "\<forall>h \<in> set hs. oks (bts_reply (h_bts (s h))) (h_job (s h)) (threshold (s h)) (bts_calls (h_bts (s h))) = m + 1"
    proof
      fix h assume h: "h \<in> set hs"
      with taken False T l have "h_oks (s h) = h_oks h + 1"
        unfolding fp_taken_def by metis
      with h m show "h_oks (s h) = m + 1" by simp
    qed
    moreover have "\<forall>h \<in> set hs. length (?Q h) = l + T"
      using g l by (simp only: length_append length_map) simp
    moreover have "\<forall>h \<in> set hs. ?Q h = f h # triple_fp_queue (s h)"
      using g by blast
    ultimately show thesis
      by (intro that [of ?Q "l + T" "m + 1"]) blast+
  qed
qed

lemma handlers_take_fp:
  assumes hs: "handlers T J hs"
  shows "wpS (\<lambda>_. False) (\<lambda>ts hs'. handlers T J hs' \<and> beaver_fp ts) (par take_fp) hs"
proof -
  let ?n = "length hs"
  have "\<forall>h \<in> set hs. \<exists>t h'. take_fp h = Inr (t, h') \<and> wf_handler T J ?n h' \<and> fp_taken h t h'"
    using hs wf_handler_take_fp unfolding handlers_def by blast
  then obtain f s where fs: "\<forall>h \<in> set hs. take_fp h = Inr (f h, s h) \<and> wf_handler T J ?n (s h) \<and> fp_taken h (f h) (s h)"
    by metis
  then have "par take_fp hs = Inr (map f hs, map s hs)"
    by (simp add: par_eq_Inr)
  moreover from fs have taken: "\<forall>h \<in> set hs. fp_taken h (f h) (s h)" by simp
  from handlers_extended [OF hs taken] obtain Q l m where Q: "\<forall>h \<in> set hs. Q h = f h # triple_fp_queue (s h)"
    "\<forall>h \<in> set hs. length (Q h) = l" "\<forall>t < l. beaver_fp (map (\<lambda>h. Q h ! t) hs)"
    "\<forall>h \<in> set hs. oks (bts_reply (h_bts (s h))) (h_job (s h)) (threshold (s h)) (bts_calls (h_bts (s h))) = m"
    by blast
  have ne: "hs \<noteq> []" using hs by (simp add: handlers_def)
  note split = correlated_split [OF Q(1,2) ne Q(3)]
  have "handlers T J (map s hs)"
    unfolding handlers_def
  proof (intro conjI)
    show "map s hs \<noteq> []" "\<forall>h \<in> set (map s hs). wf_handler T J (length (map s hs)) h"
      using ne fs by auto
    have "map (\<lambda>h. bts_reply (h_bts h)) (map s hs) = map (\<lambda>h. bts_reply (h_bts h)) hs"
      using taken by (auto simp: fp_taken_def)
    then show "bts_group J T (map (\<lambda>h. bts_reply (h_bts h)) (map s hs))"
      using hs unfolding handlers_def by metis
    show "\<exists>m. \<forall>h \<in> set (map s hs). h_oks h = m"
      using Q(4) by auto
    show "\<exists>l. \<forall>h \<in> set (map s hs). length (triple_pf_queue h) = l"
      using hs taken by (auto simp: handlers_def fp_taken_def)
    show "\<exists>l. (\<forall>h \<in> set (map s hs). length (triple_fp_queue h) = l) \<and>
        (\<forall>t < l. beaver_fp (map (\<lambda>h. triple_fp_queue h ! t) (map s hs)))"
      using split(2,3) by (intro exI [of _ "l - 1"]) (simp add: comp_def)
  qed
  ultimately show ?thesis
    using split(1) by (simp add: wpS_def)
qed

lemma handlers_take_pf:
  assumes hs: "handlers T J hs"
  shows "wpS (\<lambda>_. False) (\<lambda>ts hs'. handlers T J hs' \<and>
    ts = replicate (length hs) (1, 1, PF (int (length hs)))) (par take_pf) hs"
proof -
  let ?n = "length hs"
  have "\<forall>h \<in> set hs. \<exists>t h'. take_pf h = Inr (t, h') \<and> wf_handler T J ?n h' \<and> pf_taken h t h'"
    using hs wf_handler_take_pf unfolding handlers_def by blast
  then obtain f s where fs: "\<forall>h \<in> set hs. take_pf h = Inr (f h, s h) \<and> wf_handler T J ?n (s h) \<and> pf_taken h (f h) (s h)"
    by metis
  then have "par take_pf hs = Inr (map f hs, map s hs)"
    by (simp add: par_eq_Inr)
  moreover have P: "\<forall>h \<in> set hs. threshold h = T \<and> h_job h = J \<and> h_parties h = ?n"
    using hs by (auto simp: handlers_def wf_handler_def)
  then have "map f hs = replicate ?n (1, 1, PF (int ?n))"
    using fs by (intro nth_equalityI) (auto simp: pf_taken_def)
  moreover from hs obtain m l where m: "\<forall>h \<in> set hs. h_oks h = m" "\<forall>h \<in> set hs. length (triple_pf_queue h) = l"
    by (auto simp: handlers_def)
  have "handlers T J (map s hs)"
    unfolding handlers_def
  proof (intro conjI)
    show "map s hs \<noteq> []" "\<forall>h \<in> set (map s hs). wf_handler T J (length (map s hs)) h"
      using hs fs by (auto simp: handlers_def)
    have "map (\<lambda>h. bts_reply (h_bts h)) (map s hs) = map (\<lambda>h. bts_reply (h_bts h)) hs"
      using fs by (auto simp: pf_taken_def)
    then show "bts_group J T (map (\<lambda>h. bts_reply (h_bts h)) (map s hs))"
      using hs unfolding handlers_def by metis
    show "\<exists>m. \<forall>h \<in> set (map s hs). h_oks h = m"
      using fs m P by (intro exI [of _ "if T \<le> l then m else m + 1"]) (auto simp: pf_taken_def)
    show "\<exists>l. \<forall>h \<in> set (map s hs). length (triple_pf_queue h) = l"
      using fs m P by (intro exI [of _ "if T \<le> l then l - 1 else l + T - 1"]) (fastforce simp: pf_taken_def)
    have "map (\<lambda>h. triple_fp_queue h ! t) (map s hs) = map (\<lambda>h. triple_fp_queue h ! t) hs" for t
      using fs by (auto simp: pf_taken_def)
    moreover have "\<forall>h \<in> set hs. triple_fp_queue (s h) = triple_fp_queue h"
      using fs by (auto simp: pf_taken_def)
    ultimately show "\<exists>l. (\<forall>h \<in> set (map s hs). length (triple_fp_queue h) = l) \<and>
        (\<forall>t < l. beaver_fp (map (\<lambda>h. triple_fp_queue h ! t) (map s hs)))"
      using hs by (simp add: handlers_def del: map_map map_eq_conv)
  qed
  ultimately show ?thesis
    by (simp add: wpS_def)
qed

subsection \<open>A concrete service\<close>

text \<open>Decimal numerals read back, and two parties served with one correlated batch after another.\<close>

definition of_digits :: "string \<Rightarrow> nat" where
  "of_digits s = foldl (\<lambda>acc c. 10 * acc + (of_char c - 48)) 0 s"

definition parse_int :: "string \<Rightarrow> int" where
  "parse_int s = (case s of [] \<Rightarrow> 0
     | c # cs \<Rightarrow> if c = CHR ''-'' then - int (of_digits cs) else int (of_digits s))"

lemma of_digits_digits: "of_digits (digits n) = n"
proof (induction n rule: digits.induct)
  case (1 n)
  then show ?case
    by (subst digits.simps) (simp add: of_digits_def)
qed

lemma digits_head: "\<exists>c cs. digits n = c # cs \<and> c \<noteq> CHR ''-''"
proof (induction n rule: digits.induct)
  case (1 n)
  have "char_of (48 + n) \<noteq> CHR ''-''" if "n < 10"
  proof
    assume "char_of (48 + n) = CHR ''-''"
    then have "of_char (char_of (48 + n) :: char) = (45 :: nat)" by simp
    with that show False by simp
  qed
  with 1 show ?case
    by (subst digits.simps) auto
qed

lemma parse_int_to_string: "parse_int (to_string v) = v"
proof (cases "v < 0")
  case False
  obtain c cs where c: "digits (nat v) = c # cs" "c \<noteq> CHR ''-''"
    using digits_head by blast
  then have "of_digits (c # cs) = nat v"
    using of_digits_digits [of "nat v"] by simp
  with False c show ?thesis by (simp add: parse_int_def to_string_def)
qed (simp add: parse_int_def to_string_def of_digits_digits)

definition demo_handler :: "int \<times> int \<times> int \<Rightarrow> handler" where
  "demo_handler t = \<lparr>threshold = 100000, triple_fp_queue = [], triple_pf_queue = [],
     h_bts = \<lparr>bts_reply = (\<lambda>k job amount. if even k then ReplyErr UNAVAILABLE
                                       else ReplyOk (replicate amount t)), bts_calls = 0\<rparr>,
     h_fuel = 2, h_job = 1, h_parties = 2, str2fp = fp_of_int \<circ> parse_int\<rparr>"

definition demo_handlers :: "handler list" where
  "demo_handlers = [demo_handler (1, 2, 3), demo_handler (3, 4, 21)]"

lemma bts_answers_demo:
  assumes "t \<in> {(1, 2, 3), (3, 4, 21)}"
  shows "bts_answers 2 J T (bts_reply (h_bts (demo_handler t)))"
proof -
  have "\<exists>j < 2. (\<exists>ts. bts_reply (h_bts (demo_handler t)) (k + j) J T = ReplyOk ts) \<and>
      (\<forall>i < j. \<exists>st. bts_reply (h_bts (demo_handler t)) (k + i) J T = ReplyErr st \<and> retryable st)" for k
    by (intro exI [of _ "if even k then 1 else 0"]) (auto simp: demo_handler_def retryable_def)
  then show ?thesis
    using assms by (auto simp: bts_answers_def demo_handler_def split: if_splits)
qed

lemma handlers_demo: "handlers 100000 1 demo_handlers"
proof -
  have "wf_handler 100000 1 2 (demo_handler t)" if "t \<in> {(1, 2, 3), (3, 4, 21)}" for t
    using bts_answers_demo [OF that] by (auto simp: wf_handler_def demo_handler_def parse_int_to_string pf_p_def)
  moreover have "bts_group 1 100000 (map (\<lambda>h. bts_reply (h_bts h)) demo_handlers)"
    by (auto simp: bts_group_def demo_handlers_def demo_handler_def list_all2_Cons1 ok_reply_def
        beaver_int_def split: if_splits)
  ultimately show ?thesis
    by (simp add: handlers_def demo_handlers_def flip: numeral_2_eq_2)
      (simp add: demo_handler_def oks_def)
qed

subsection \<open>Properties\<close>

text \<open>
  Fetching triples ends: when the service answers after at most \<open>F - 1\<close> retryable failures, \<open>readTriples\<close> returns
  the triples of its first successful reply, and a status outside the three retried ones is an error.
\<close>

theorem readTriples_outcome:
  assumes "j < F" "\<forall>i < j. \<exists>st. bts_reply b (bts_calls b + i) job amount = ReplyErr st \<and> retryable st"
  shows "(\<forall>ts. bts_reply b (bts_calls b + j) job amount = ReplyOk ts \<longrightarrow>
      (\<exists>b'. readTriples F job amount b =
        Inr (map (\<lambda>(x, y, z). (to_string x, to_string y, to_string z)) ts, b'))) \<and>
    (\<forall>st. bts_reply b (bts_calls b + j) job amount = ReplyErr st \<and> \<not> retryable st \<longrightarrow>
      readTriples F job amount b = Inl (RuntimeError ''unrecoverable error''))"
proof (intro conjI allI impI)
  fix ts assume "bts_reply b (bts_calls b + j) job amount = ReplyOk ts"
  from readTriples_retries [OF this assms] show "\<exists>b'. readTriples F job amount b =
      Inr (map (\<lambda>(x, y, z). (to_string x, to_string y, to_string z)) ts, b')"
    by blast
next
  fix st assume "bts_reply b (bts_calls b + j) job amount = ReplyErr st \<and> \<not> retryable st"
  with assms show "readTriples F job amount b = Inl (RuntimeError ''unrecoverable error'')"
  proof (induction j arbitrary: F b)
    case 0
    then show ?case by (cases F) auto
  next
    case (Suc j)
    then obtain f where F: "F = Suc f" by (cases F) auto
    let ?b = "b\<lparr>bts_calls := bts_calls b + 1\<rparr>"
    from Suc.prems obtain st where st: "bts_reply b (bts_calls b) job amount = ReplyErr st" "retryable st"
      by fastforce
    have "\<forall>i < j. \<exists>st. bts_reply ?b (bts_calls ?b + i) job amount = ReplyErr st \<and> retryable st"
      using Suc.prems(2) by (auto dest: spec [of _ "Suc _"])
    then show ?case
      using Suc.IH [of f ?b] Suc.prems st F by simp
  qed
qed

theorem readTriples_outcome_witness:
  "\<exists>b'. readTriples 2 1 1 (h_bts (demo_handler (3, 4, 21))) = Inr ([(''3'', ''4'', ''21'')], b')"
  using readTriples_outcome [of 1 2 "h_bts (demo_handler (3, 4, 21))" 1 1]
  by (simp add: demo_handler_def retryable_def to_string_def digits.simps char_of_def bit_0)

text \<open>
  C30. Given a triple service that answers every party after a bounded number of retries with
  correlated batches, \<open>getTriple\<close> never fails or reads an empty queue, across refills: the fixed-point triples the parties
  take at the same position are always additive shares of a Beaver triple (integers \<open>a\<close>, \<open>b\<close> and
  their product), and the joint state stays correlated. The field triples are the same at every call: \<open>(1, 1, n)\<close>.
\<close>

theorem getTriple_beaver:
  assumes "handlers T J hs"
  shows "(\<exists>tss hs'. par (getTriple_fp n) hs = Inr (tss, hs') \<and> handlers T J hs' \<and>
      length tss = length hs \<and> (\<forall>ts \<in> set tss. length ts = n) \<and>
      (\<forall>t < n. beaver_fp (map (\<lambda>ts. ts ! t) tss))) \<and>
    (\<exists>hs'. par (getTriple_pf n) hs =
        Inr (replicate (length hs) (replicate n (1, 1, PF (int (length hs)))), hs') \<and> handlers T J hs')"
proof (rule conjI)
  show "\<exists>tss hs'. par (getTriple_fp n) hs = Inr (tss, hs') \<and> handlers T J hs' \<and>
      length tss = length hs \<and> (\<forall>ts \<in> set tss. length ts = n) \<and>
      (\<forall>t < n. beaver_fp (map (\<lambda>ts. ts ! t) tss))"
    using wpS_par_mapS [of "handlers T J" "length hs" beaver_fp take_fp hs "[0..<n]"] assms handlers_take_fp
    unfolding getTriple_fp_def by (auto simp: wpS_total)
  let ?t = "(1, 1, PF (int (length hs)))"
  have "wpS (\<lambda>_. False) (\<lambda>ts ss'. handlers T J ss' \<and> ts = replicate (length hs) ?t) (par take_pf) ss"
    if "handlers T J ss" "length ss = length hs" for ss
    using handlers_take_pf [OF that(1)] that by simp
  from wpS_par_mapS [of "handlers T J" "length hs" "\<lambda>ts. ts = replicate (length hs) ?t" take_pf hs "[0..<n]", OF this]
  obtain tss hs' where *: "par (getTriple_pf n) hs = Inr (tss, hs')" "handlers T J hs'" "length tss = length hs"
    "\<forall>ts \<in> set tss. length ts = n" "\<forall>t < n. map (\<lambda>ts. ts ! t) tss = replicate (length hs) ?t"
    using assms unfolding getTriple_pf_def by (auto simp: wpS_total)
  have "tss ! i = replicate n ?t" if i: "i < length hs" for i
  proof (rule nth_equalityI)
    show "length (tss ! i) = length (replicate n ?t)"
      using * i by simp
    fix t assume "t < length (tss ! i)"
    then have t: "t < n" using * i by simp
    have "map (\<lambda>ts. ts ! t) tss ! i = replicate (length hs) ?t ! i"
      using *(5) t by simp
    then show "tss ! i ! t = replicate n ?t ! t"
      using t i *(3) by simp
  qed
  then have "tss = replicate (length hs) (replicate n ?t)"
    using *(3) by (intro nth_equalityI) auto
  with * show "\<exists>hs'. par (getTriple_pf n) hs = Inr (replicate (length hs) (replicate n ?t), hs') \<and> handlers T J hs'"
    by simp
qed

theorem getTriple_beaver_witness:
  "\<exists>tss hs'. par (getTriple_fp 3) demo_handlers = Inr (tss, hs') \<and> length tss = 2 \<and>
     (\<forall>t < 3. beaver_fp (map (\<lambda>ts. ts ! t) tss))"
  using getTriple_beaver [OF handlers_demo, of 3] by (auto simp: demo_handlers_def)

end
