(* ===== verification/Share.thy ===== *)
theory Share
  imports Triples
begin

section \<open>Additive shares\<close>

text \<open>
  \<open>Share/Share.hpp\<close> and the reconstruction of \<open>Share/Networking.hpp\<close>. The parties run one program
  in lockstep, so a value of type \<open>Share<SV>\<close> is modelled by the list of the values the parties hold
  (position \<open>i\<close> is party \<open>i + 1\<close>), a \<open>std::vector<Share<SV>>\<close> by a list of such lists. \<open>world\<close> is
  the state of all parties: their random generators, their triple handlers and the index of the party
  whose id is \<open>sp_id\<close>. An operator works on every party's own value; opening a share sends it to
  every other party, after which every party reconstructs the same sum (the transport is the subject
  of \<open>Network\<close>).

  \<open>w_ok\<close> is a history variable. No operation reads it; it records whether the random values drawn so
  far had the properties the protocols need and do not check (\<open>Compare\<close>).
\<close>

record world =
  w_rngs :: "rng list"
  w_ths :: "handler list"
  w_sp :: nat
  w_ok :: bool

definition n_parties :: "world \<Rightarrow> nat" where
  "n_parties w = length (w_rngs w)"

subsection \<open>Running the parties\<close>

definition on_rngs :: "(rng, 'a) comp \<Rightarrow> (world, 'a list) comp" where
  "on_rngs m w = bindE (par m (w_rngs w)) (\<lambda>(xs, gs). Inr (xs, w\<lparr>w_rngs := gs\<rparr>))"

definition on_ths :: "(handler, 'a) comp \<Rightarrow> (world, 'a list) comp" where
  "on_ths m w = bindE (par m (w_ths w)) (\<lambda>(xs, hs). Inr (xs, w\<lparr>w_ths := hs\<rparr>))"

definition on_sp_rng :: "(rng, 'a) comp \<Rightarrow> (world, 'a) comp" where
  "on_sp_rng m w =
     (if length (w_rngs w) \<le> w_sp w then Inl UndefinedBehaviour
      else bindE (m (w_rngs w ! w_sp w)) (\<lambda>(x, g). Inr (x, w\<lparr>w_rngs := (w_rngs w)[w_sp w := g]\<rparr>)))"

definition withW :: "(world \<Rightarrow> (world, 'a) comp) \<Rightarrow> (world, 'a) comp" where
  "withW f w = f w w"

definition note_ok :: "bool \<Rightarrow> (world, unit) comp" where
  "note_ok b w = Inr ((), w\<lparr>w_ok := (w_ok w \<and> b)\<rparr>)"

subsection \<open>Operators on the parties' own values\<close>

definition share_add :: "'v :: plus list \<Rightarrow> 'v list \<Rightarrow> 'v list" where
  "share_add xs ys = map2 (+) xs ys"

definition share_sub :: "'v :: minus list \<Rightarrow> 'v list \<Rightarrow> 'v list" where
  "share_sub xs ys = map2 (-) xs ys"

definition share_neg :: "'v :: uminus list \<Rightarrow> 'v list" where
  "share_neg xs = map uminus xs"

definition share_scale :: "'v :: times \<Rightarrow> 'v list \<Rightarrow> 'v list" where
  "share_scale v xs = map (\<lambda>x. x * v) xs"

definition share_addc :: "nat \<Rightarrow> 'v :: plus list \<Rightarrow> 'v \<Rightarrow> 'v list" where
  "share_addc sp xs v = map (\<lambda>(i, x). if i = sp then x + v else x) (zip [0..<length xs] xs)"

definition share_subc :: "nat \<Rightarrow> 'v :: minus list \<Rightarrow> 'v \<Rightarrow> 'v list" where
  "share_subc sp xs v = map (\<lambda>(i, x). if i = sp then x - v else x) (zip [0..<length xs] xs)"

definition share_csub :: "nat \<Rightarrow> 'v :: {plus, uminus} \<Rightarrow> 'v list \<Rightarrow> 'v list" where
  "share_csub sp v xs = share_addc sp (share_neg xs) v"

definition getConstantShare :: "nat \<Rightarrow> nat \<Rightarrow> 'v :: {plus, zero} \<Rightarrow> 'v list" where
  "getConstantShare n sp t = share_addc sp (replicate n 0) t"

definition recons :: "'v :: {plus, zero} list \<Rightarrow> 'v" where
  "recons xs = foldl (+) 0 xs"

definition vec_add :: "'v :: plus list list \<Rightarrow> 'v list list \<Rightarrow> 'v list list res" where
  "vec_add xs ys = (if length xs \<noteq> length ys
     then Inl (RuntimeError ''Not Equal Length operator vector<Share> !!'')
     else Inr (map2 share_add xs ys))"

definition vec_sub :: "'v :: minus list list \<Rightarrow> 'v list list \<Rightarrow> 'v list list res" where
  "vec_sub xs ys = (if length xs \<noteq> length ys
     then Inl (RuntimeError ''Not Equal Length operator vector<Share> !!'')
     else Inr (map2 share_sub xs ys))"

definition vec_addc :: "nat \<Rightarrow> 'v :: plus list list \<Rightarrow> 'v \<Rightarrow> 'v list list" where
  "vec_addc sp xs v = map (\<lambda>x. share_addc sp x v) xs"

definition vec_subc :: "nat \<Rightarrow> 'v :: {plus, uminus} list list \<Rightarrow> 'v \<Rightarrow> 'v list list" where
  "vec_subc sp xs v = vec_addc sp xs (- v)"

definition getAdditiveInvVec :: "'v :: uminus list list \<Rightarrow> 'v list list" where
  "getAdditiveInvVec xs = map share_neg xs"

definition vec_csub :: "nat \<Rightarrow> 'v :: {plus, uminus} \<Rightarrow> 'v list list \<Rightarrow> 'v list list" where
  "vec_csub sp v xs = vec_addc sp (getAdditiveInvVec xs) v"

definition vec_scale :: "'v :: times \<Rightarrow> 'v list list \<Rightarrow> 'v list list" where
  "vec_scale v xs = map (share_scale v) xs"

subsection \<open>Multiplication with Beaver triples\<close>

definition beaver_combine ::
    "nat \<Rightarrow> 'v :: {plus, times} list \<Rightarrow> 'v list \<Rightarrow> 'v list \<Rightarrow> 'v \<Rightarrow> 'v \<Rightarrow> 'v list" where
  "beaver_combine sp a b c d e =
     share_addc sp (share_add (share_add c (share_scale d b)) (share_scale e a)) (d * e)"

definition share_mult ::
    "(nat \<Rightarrow> (handler, ('v \<times> 'v \<times> 'v) list) comp) \<Rightarrow> 'v :: {plus, minus, times, zero} list \<Rightarrow> 'v list \<Rightarrow>
     (world, 'v list) comp" where
  "share_mult getTriple x y =
     bindS (on_ths (getTriple 1)) (\<lambda>t. withW (\<lambda>w.
       let a = map (\<lambda>ts. fst (ts ! 0)) t; b = map (\<lambda>ts. fst (snd (ts ! 0))) t;
           c = map (\<lambda>ts. snd (snd (ts ! 0))) t;
           de_rec = map recons [share_sub x a, share_sub y b]
       in retS (beaver_combine (w_sp w) a b c (de_rec ! 0) (de_rec ! 1))))"

definition vec_mult ::
    "(nat \<Rightarrow> (handler, ('v \<times> 'v \<times> 'v) list) comp) \<Rightarrow> 'v :: {plus, minus, times, zero} list list \<Rightarrow>
     'v list list \<Rightarrow> (world, 'v list list) comp" where
  "vec_mult getTriple xs ys =
     (let n = length xs in
      if n \<noteq> length ys then raiseS (RuntimeError ''Not Equal Length operator vector<Share> !!'')
      else bindS (on_ths (getTriple n)) (\<lambda>t. withW (\<lambda>w.
        let a = map (\<lambda>i. map (\<lambda>ts. fst (ts ! i)) t) [0..<n];
            b = map (\<lambda>i. map (\<lambda>ts. fst (snd (ts ! i))) t) [0..<n];
            c = map (\<lambda>i. map (\<lambda>ts. snd (snd (ts ! i))) t) [0..<n];
            de = map2 share_sub xs a @ map2 share_sub ys b;
            de_rec = map recons de
        in retS (map (\<lambda>i. beaver_combine (w_sp w) (a ! i) (b ! i) (c ! i) (de_rec ! i) (de_rec ! (n + i)))
                   [0..<n]))))"

subsection \<open>Sharing a value, inverting a share\<close>

definition others :: "nat \<Rightarrow> nat \<Rightarrow> nat list" where
  "others n sp = filter (\<lambda>i. i \<noteq> sp) [0..<n]"

definition sharize :: "(int \<Rightarrow> int \<Rightarrow> (rng, 'v) comp) \<Rightarrow> 'v :: {plus, minus, zero} \<Rightarrow> (world, 'v list) comp" where
  "sharize getRand secret = withW (\<lambda>w.
     bindS (on_sp_rng (mapS (\<lambda>_. getRand 1 1000) (others (n_parties w) (w_sp w)))) (\<lambda>rs.
     retS (map (\<lambda>i. if i = w_sp w then secret - foldl (+) 0 rs
                     else rs ! (if i < w_sp w then i else i - 1)) [0..<n_parties w])))"

definition share_getInv ::
    "(nat \<Rightarrow> (handler, ('v \<times> 'v \<times> 'v) list) comp) \<Rightarrow> (int \<Rightarrow> int \<Rightarrow> (rng, 'v) comp) \<Rightarrow> ('v \<Rightarrow> 'v res) \<Rightarrow>
     'v :: {plus, minus, times, zero} list \<Rightarrow> (world, 'v list) comp" where
  "share_getInv getTriple getRand invf s =
     bindS (on_rngs (getRand 1 1000)) (\<lambda>r.
     bindS (share_mult getTriple s r) (\<lambda>u.
     bindS (liftS (invf (recons u))) (\<lambda>u_inv.
     bindS (sharize getRand u_inv) (\<lambda>s_inv. share_mult getTriple s_inv r))))"

definition share_div ::
    "(nat \<Rightarrow> (handler, ('v \<times> 'v \<times> 'v) list) comp) \<Rightarrow> (int \<Rightarrow> int \<Rightarrow> (rng, 'v) comp) \<Rightarrow> ('v \<Rightarrow> 'v res) \<Rightarrow>
     'v :: {plus, minus, times, zero} list \<Rightarrow> 'v list \<Rightarrow> (world, 'v list) comp" where
  "share_div getTriple getRand invf x y =
     bindS (share_getInv getTriple getRand invf y) (\<lambda>y_inv. share_mult getTriple x y_inv)"

definition share_cdiv ::
    "(nat \<Rightarrow> (handler, ('v \<times> 'v \<times> 'v) list) comp) \<Rightarrow> (int \<Rightarrow> int \<Rightarrow> (rng, 'v) comp) \<Rightarrow> ('v \<Rightarrow> 'v res) \<Rightarrow>
     'v :: {plus, minus, times, zero} \<Rightarrow> 'v list \<Rightarrow> (world, 'v list) comp" where
  "share_cdiv getTriple getRand invf v x =
     bindS (share_getInv getTriple getRand invf x) (\<lambda>x_inv. retS (share_scale v x_inv))"

definition getMultiplicativeInvVec ::
    "(nat \<Rightarrow> (handler, ('v \<times> 'v \<times> 'v) list) comp) \<Rightarrow> (int \<Rightarrow> int \<Rightarrow> (rng, 'v) comp) \<Rightarrow> ('v \<Rightarrow> 'v res) \<Rightarrow>
     'v :: {plus, minus, times, zero, one} list list \<Rightarrow> (world, 'v list list) comp" where
  "getMultiplicativeInvVec getTriple getRand invf xs = mapS (share_cdiv getTriple getRand invf 1) xs"

subsection \<open>The joint invariant\<close>

text \<open>
  \<open>wf_world P T J n sp w\<close>: \<open>n\<close> parties, one of them \<open>sp\<close>, whose generators hand out numbers in \<open>P\<close>
  and whose triple handlers are correlated.
\<close>

definition wf_world :: "(64 word \<Rightarrow> bool) \<Rightarrow> nat \<Rightarrow> nat \<Rightarrow> nat \<Rightarrow> nat \<Rightarrow> world \<Rightarrow> bool" where
  "wf_world P T J n sp w \<longleftrightarrow> length (w_rngs w) = n \<and> length (w_ths w) = n \<and> w_sp w = sp \<and> sp < n \<and>
     1000 * int n < pf_p \<and> (\<forall>g \<in> set (w_rngs w). tape P g) \<and> handlers T J (w_ths w)"

lemma wf_world_ok [simp]: "wf_world P T J n sp (w\<lparr>w_ok := b\<rparr>) = wf_world P T J n sp w"
  by (simp add: wf_world_def)

lemma wpS_withW [simp]: "wpS E Q (withW f) w = wpS E Q (f w) w"
  by (simp add: wpS_def withW_def)

lemma wpS_note_ok [simp]: "wpS E Q (note_ok b) w = Q () (w\<lparr>w_ok := (w_ok w \<and> b)\<rparr>)"
  by (simp add: wpS_def note_ok_def)

lemma wpS_false: "wpS (\<lambda>_. False) Q m s \<Longrightarrow> wpS E Q m s"
  by (erule wpS_weaken_exits) simp

lemma par_tape:
  assumes "\<forall>g \<in> set gs. tape P g"
    and rule: "\<And>g. tape P g \<Longrightarrow> wpS (\<lambda>_. False) (\<lambda>x g'. tape P g' \<and> R x) m g"
  shows "\<exists>xs gs'. par m gs = Inr (xs, gs') \<and> length xs = length gs \<and> length gs' = length gs \<and>
    (\<forall>x \<in> set xs. R x) \<and> (\<forall>g \<in> set gs'. tape P g)"
proof -
  have "\<forall>g \<in> set gs. \<exists>x g'. m g = Inr (x, g') \<and> tape P g' \<and> R x"
    using assms by (simp add: wpS_total)
  then obtain f s where "\<forall>g \<in> set gs. m g = Inr (f g, s g) \<and> tape P (s g) \<and> R (f g)"
    by metis
  then show ?thesis
    by (intro exI [of _ "map f gs"] exI [of _ "map s gs"]) (auto simp: par_eq_Inr)
qed

lemma wpS_on_rngs:
  assumes "wf_world P T J n sp w"
    and rule: "\<And>g. tape P g \<Longrightarrow> wpS (\<lambda>_. False) (\<lambda>x g'. tape P g' \<and> R x) m g"
    and post: "\<And>xs w'. wf_world P T J n sp w' \<Longrightarrow> w_ok w' = w_ok w \<Longrightarrow> length xs = n \<Longrightarrow>
      \<forall>x \<in> set xs. R x \<Longrightarrow> Q xs w'"
  shows "wpS E Q (on_rngs m) w"
proof -
  from assms(1) have "\<forall>g \<in> set (w_rngs w). tape P g" by (simp add: wf_world_def)
  from par_tape [OF this rule] obtain xs gs where r: "par m (w_rngs w) = Inr (xs, gs)"
    "length xs = n" "length gs = n" "\<forall>x \<in> set xs. R x" "\<forall>g \<in> set gs. tape P g"
    using assms(1) by (auto simp: wf_world_def)
  then have "Q xs (w\<lparr>w_rngs := gs\<rparr>)"
    using assms(1) by (intro post) (auto simp: wf_world_def)
  with r show ?thesis by (simp add: wpS_def on_rngs_def)
qed

lemma wpS_on_sp_rng:
  assumes "wf_world P T J n sp w"
    and rule: "\<And>g. tape P g \<Longrightarrow> wpS (\<lambda>_. False) (\<lambda>x g'. tape P g' \<and> R x) m g"
    and post: "\<And>x w'. wf_world P T J n sp w' \<Longrightarrow> w_ok w' = w_ok w \<Longrightarrow> R x \<Longrightarrow> Q x w'"
  shows "wpS E Q (on_sp_rng m) w"
proof -
  from assms(1) have "tape P (w_rngs w ! sp)" and sp: "sp < length (w_rngs w)" "w_sp w = sp"
    by (auto simp: wf_world_def)
  from rule [OF this(1)] obtain x g where r: "m (w_rngs w ! sp) = Inr (x, g)" "tape P g" "R x"
    by (auto simp: wpS_total)
  then have "Q x (w\<lparr>w_rngs := (w_rngs w)[sp := g]\<rparr>)"
    using assms(1) set_update_subset_insert [of "w_rngs w" sp g]
    by (intro post) (auto simp: wf_world_def)
  with r sp show ?thesis by (simp add: wpS_def on_sp_rng_def)
qed

lemma wpS_on_ths:
  assumes "wf_world P T J n sp w"
    and rule: "\<And>hs. handlers T J hs \<Longrightarrow> length hs = n \<Longrightarrow>
      wpS (\<lambda>_. False) (\<lambda>x hs'. handlers T J hs' \<and> length hs' = n \<and> R x) (par m) hs"
    and post: "\<And>x w'. wf_world P T J n sp w' \<Longrightarrow> w_ok w' = w_ok w \<Longrightarrow> R x \<Longrightarrow> Q x w'"
  shows "wpS E Q (on_ths m) w"
proof -
  from rule [of "w_ths w"] assms(1) obtain xs hs where r: "par m (w_ths w) = Inr (xs, hs)" "R xs"
    "handlers T J hs" "length hs = n"
    by (auto simp: wf_world_def wpS_total)
  then have "Q xs (w\<lparr>w_ths := hs\<rparr>)"
    using assms(1) by (intro post) (auto simp: wf_world_def)
  with r show ?thesis by (simp add: wpS_def on_ths_def)
qed

subsection \<open>The secret behind a share of field elements\<close>

definition sec :: "pf list \<Rightarrow> gfp" where
  "sec xs = sum_list (map gf xs)"

lemma gf_recons: "gf (recons xs) = sec xs"
proof -
  have "gf (foldl (+) a xs) = gf a + sum_list (map gf xs)" for a
    by (induction xs arbitrary: a) (auto simp: algebra_simps)
  then show ?thesis by (simp add: recons_def sec_def)
qed

lemma recons_canonical: "0 \<le> getVal (recons xs :: pf)" "getVal (recons xs :: pf) < pf_p"
proof -
  have "0 \<le> getVal (foldl (+) a xs) \<and> getVal (foldl (+) a xs) < pf_p"
    if "0 \<le> getVal a" "getVal a < pf_p" for a :: pf
    using that by (induction xs arbitrary: a) (auto simp: plus_pf_def)
  from this [of 0] show "0 \<le> getVal (recons xs :: pf)" "getVal (recons xs :: pf) < pf_p"
    by (simp_all add: recons_def zero_pf_def)
qed

lemma wf_pf_recons [simp, intro]: "wf_pf (recons xs)"
  using recons_canonical [of xs] by (simp add: wf_pf_def)

lemma getVal_recons: "getVal (recons xs) = gf_rep (sec xs)"
  using recons_canonical [of xs] by (simp add: gf_recons [symmetric] gf_rep_gf)

lemma share_length [simp]:
  "length (share_add xs ys) = min (length xs) (length ys)"
  "length (share_sub xs' ys') = min (length xs') (length ys')"
  "length (share_neg zs) = length zs" "length (share_scale v us) = length us"
  "length (share_addc sp xs c) = length xs" "length (share_subc sp xs' c') = length xs'"
  "length (share_csub sp v2 vs) = length vs" "length (getConstantShare n sp v3) = n"
  by (simp_all add: share_add_def share_sub_def share_neg_def share_scale_def share_addc_def
      share_subc_def share_csub_def getConstantShare_def)

lemma sec_add [share_simps]: "length xs = length ys \<Longrightarrow> sec (share_add xs ys) = sec xs + sec ys"
  by (induction xs ys rule: list_induct2) (auto simp: sec_def share_add_def)

lemma sec_sub [share_simps]: "length xs = length ys \<Longrightarrow> sec (share_sub xs ys) = sec xs - sec ys"
  by (induction xs ys rule: list_induct2) (auto simp: sec_def share_sub_def)

lemma sec_neg [share_simps]: "sec (share_neg xs) = - sec xs"
  by (induction xs) (auto simp: sec_def share_neg_def)

lemma sec_scale [share_simps]: "sec (share_scale v xs) = gf v * sec xs"
  by (induction xs) (auto simp: sec_def share_scale_def algebra_simps)

lemma sum_list_at:
  assumes "sp < length xs" "\<And>x. f (g x) = f x + (d :: 'a :: comm_monoid_add)"
  shows "sum_list (map f (map (\<lambda>(i, x). if i = sp then g x else x) (zip [0..<length xs] xs))) =
    sum_list (map f xs) + d"
  using assms(1)
proof (induction xs rule: rev_induct)
  case (snoc x xs)
  have "map (\<lambda>(i, x). if i = length xs then g x else x) (zip [0..<length xs] xs) = xs"
    by (rule nth_equalityI) auto
  then show ?case
    using snoc assms(2) by (cases "sp = length xs") (auto simp: algebra_simps)
qed simp

lemma sec_addc [share_simps]: "sp < length xs \<Longrightarrow> sec (share_addc sp xs v) = sec xs + gf v"
  unfolding sec_def share_addc_def by (rule sum_list_at) simp_all

lemma sec_subc [share_simps]: "sp < length xs \<Longrightarrow> sec (share_subc sp xs v) = sec xs - gf v"
  unfolding sec_def share_subc_def diff_conv_add_uminus by (rule sum_list_at) simp_all

lemma sec_csub [share_simps]: "sp < length xs \<Longrightarrow> sec (share_csub sp v xs) = gf v - sec xs"
  by (simp add: share_csub_def share_simps)

lemma sec_replicate [share_simps]: "sec (replicate n x) = of_nat n * gf x"
  by (induction n) (auto simp: sec_def algebra_simps)

lemma sec_constant [share_simps]: "sp < n \<Longrightarrow> sec (getConstantShare n sp v) = gf v"
  by (simp add: getConstantShare_def share_simps)

lemma sec_Nil [simp]: "sec [] = 0"
  by (simp add: sec_def)

lemma sec_combine:
  assumes "length a = n" "length b = n" "length c = n" "sp < n"
  shows "sec (beaver_combine sp a b c d e) = sec c + gf d * sec b + gf e * sec a + gf d * gf e"
  using assms by (simp add: beaver_combine_def share_simps)

lemma beaver_identity:
  assumes "sec c = sec a * sec b" "gf d = x - sec a" "gf e = y - sec b"
  shows "sec c + gf d * sec b + gf e * sec a + gf d * gf e = x * y"
  unfolding assms by (simp add: algebra_simps)

subsection \<open>Multiplication of field shares\<close>

definition pf_share_mult :: "pf list \<Rightarrow> pf list \<Rightarrow> (world, pf list) comp" where
  "pf_share_mult = share_mult getTriple_pf"

definition pf_vec_mult :: "pf list list \<Rightarrow> pf list list \<Rightarrow> (world, pf list list) comp" where
  "pf_vec_mult = vec_mult getTriple_pf"

definition pf_sharize :: "pf \<Rightarrow> (world, pf list) comp" where
  "pf_sharize = sharize getRand_pf"

definition pf_share_getInv :: "pf list \<Rightarrow> (world, pf list) comp" where
  "pf_share_getInv = share_getInv getTriple_pf getRand_pf pf_getInv"

lemma handlers_getTriple_pf:
  assumes "handlers T J hs" "length hs = n"
  shows "wpS (\<lambda>_. False) (\<lambda>t hs'. handlers T J hs' \<and> length hs' = n \<and>
    t = replicate n (replicate k (1, 1, PF (int n)))) (par (getTriple_pf k)) hs"
proof -
  have "wpS (\<lambda>_. False) (\<lambda>ts ss'. handlers T J ss' \<and> ts = replicate n (1, 1, PF (int n))) (par take_pf) ss"
    if "handlers T J ss" "length ss = n" for ss
    using handlers_take_pf [OF that(1)] that by simp
  from wpS_par_mapS [of "handlers T J" n "\<lambda>ts. ts = replicate n (1, 1, PF (int n))" take_pf hs "[0..<k]", OF this]
  have "wpS (\<lambda>_. False) (\<lambda>rs ss'. handlers T J ss' \<and> length ss' = n \<and> length rs = n \<and>
     (\<forall>r \<in> set rs. length r = k) \<and> (\<forall>t < k. map (\<lambda>r. r ! t) rs = replicate n (1, 1, PF (int n))))
     (par (getTriple_pf k)) hs"
    using assms by (simp add: getTriple_pf_def)
  then show ?thesis
  proof (rule wpS_mono)
    fix rs ss'
    assume *: "handlers T J ss' \<and> length ss' = n \<and> length rs = n \<and>
     (\<forall>r \<in> set rs. length r = k) \<and> (\<forall>t < k. map (\<lambda>r. r ! t) rs = replicate n (1, 1, PF (int n)))"
    have "rs = replicate n (replicate k (1, 1, PF (int n)))"
    proof (rule nth_equalityI)
      fix i assume "i < length rs"
      with * have i: "i < n" "length (rs ! i) = k" by auto
      have "rs ! i ! t = (1, 1, PF (int n))" if "t < k" for t
        using * i that by (metis nth_map nth_replicate)
      with i show "rs ! i = replicate n (replicate k (1, 1, PF (int n))) ! i"
        by (simp add: list_eq_iff_nth_eq)
    qed (use * in simp)
    with * show "handlers T J ss' \<and> length ss' = n \<and> rs = replicate n (replicate k (1, 1, PF (int n)))"
      by simp
  qed
qed

lemma pf_combine_ok:
  assumes "length x = n" "length y = n" "sp < n"
  shows "sec (beaver_combine sp (replicate n 1) (replicate n 1) (replicate n (PF (int n)))
      (recons (share_sub x (replicate n 1))) (recons (share_sub y (replicate n 1)))) = sec x * sec y"
    and "length (beaver_combine sp (replicate n 1) (replicate n 1) (replicate n (PF (int n)))
      (recons (share_sub x (replicate n 1))) (recons (share_sub y (replicate n 1)))) = n"
proof -
  show "sec (beaver_combine sp (replicate n 1) (replicate n 1) (replicate n (PF (int n)))
      (recons (share_sub x (replicate n 1))) (recons (share_sub y (replicate n 1)))) = sec x * sec y"
    using assms by (subst sec_combine [of _ n], simp_all)
      (rule beaver_identity, simp_all add: gf_PF gf_recons share_simps)
qed (simp add: beaver_combine_def)

lemma wpS_pf_share_mult:
  assumes "wf_world P T J n sp w" "length x = n" "length y = n"
    and post: "\<And>z w'. wf_world P T J n sp w' \<Longrightarrow> w_ok w' = w_ok w \<Longrightarrow> length z = n \<Longrightarrow>
      sec z = sec x * sec y \<Longrightarrow> Q z w'"
  shows "wpS E Q (pf_share_mult x y) w"
  unfolding pf_share_mult_def share_mult_def wpS_bindS
proof (rule wpS_on_ths [OF assms(1) handlers_getTriple_pf [of _ _ _ _ 1]])
  fix t :: "(pf \<times> pf \<times> pf) list list" and w'
  assume w': "wf_world P T J n sp w'" "w_ok w' = w_ok w"
    and t: "t = replicate n (replicate 1 (1, 1, PF (int n)))"
  have sp: "w_sp w' = sp" "sp < n"
    using w' by (auto simp: wf_world_def)
  show "wpS E Q (withW (\<lambda>w.
       let a = map (\<lambda>ts. fst (ts ! 0)) t; b = map (\<lambda>ts. fst (snd (ts ! 0))) t;
           c = map (\<lambda>ts. snd (snd (ts ! 0))) t;
           de_rec = map recons [share_sub x a, share_sub y b]
       in retS (beaver_combine (w_sp w) a b c (de_rec ! 0) (de_rec ! 1)))) w'"
    using post [OF w'] pf_combine_ok [OF assms(2,3) sp(2)] sp t by (simp add: Let_def)
qed

lemma wpS_pf_vec_mult:
  assumes "wf_world P T J n sp w" "length xs = length ys" "\<forall>x \<in> set xs. length x = n" "\<forall>y \<in> set ys. length y = n"
    and post: "\<And>zs w'. wf_world P T J n sp w' \<Longrightarrow> w_ok w' = w_ok w \<Longrightarrow> length zs = length xs \<Longrightarrow>
      \<forall>z \<in> set zs. length z = n \<Longrightarrow> \<forall>i < length xs. sec (zs ! i) = sec (xs ! i) * sec (ys ! i) \<Longrightarrow> Q zs w'"
  shows "wpS E Q (pf_vec_mult xs ys) w"
proof -
  let ?k = "length xs" and ?one = "replicate n (1 :: pf)"
  let ?zs = "map (\<lambda>i. beaver_combine sp ?one ?one (replicate n (PF (int n)))
      (recons (share_sub (xs ! i) ?one)) (recons (share_sub (ys ! i) ?one))) [0..<?k]"
  have sp: "sp < n" using assms(1) by (simp add: wf_world_def)
  have zs: "\<forall>z \<in> set ?zs. length z = n" "\<forall>i < ?k. sec (?zs ! i) = sec (xs ! i) * sec (ys ! i)"
    using assms(2-4) sp by (auto intro!: pf_combine_ok)
  show ?thesis
    unfolding pf_vec_mult_def vec_mult_def Let_def if_not_P [OF not_not [THEN iffD2, OF assms(2)]] wpS_bindS
  proof (rule wpS_on_ths [OF assms(1) handlers_getTriple_pf [of _ _ _ _ ?k]])
    fix t :: "(pf \<times> pf \<times> pf) list list" and w'
    assume w': "wf_world P T J n sp w'" "w_ok w' = w_ok w"
      and t: "t = replicate n (replicate ?k (1, 1, PF (int n)))"
    let ?a = "map (\<lambda>i. map (\<lambda>ts. fst (ts ! i)) t) [0..<?k]"
    let ?b = "map (\<lambda>i. map (\<lambda>ts. fst (snd (ts ! i))) t) [0..<?k]"
    let ?c = "map (\<lambda>i. map (\<lambda>ts. snd (snd (ts ! i))) t) [0..<?k]"
    let ?de = "map recons (map2 share_sub xs ?a @ map2 share_sub ys ?b)"
    have abc: "?a ! i = ?one" "?b ! i = ?one" "?c ! i = replicate n (PF (int n))" if "i < ?k" for i
      using that by (simp_all add: t)
    have "?de ! i = recons (share_sub (xs ! i) ?one)"
      "?de ! (?k + i) = recons (share_sub (ys ! i) ?one)" if "i < ?k" for i
      using that assms(2) abc [OF that] by (simp_all add: nth_append)
    then have eq: "map (\<lambda>i. beaver_combine (w_sp w') (?a ! i) (?b ! i) (?c ! i) (?de ! i) (?de ! (?k + i))) [0..<?k] = ?zs"
      using abc w' by (intro map_cong) (auto simp: wf_world_def)
    have "Q ?zs w'"
      by (rule post [OF w' _ zs]) simp
    then show "wpS E Q (withW (\<lambda>w. retS (map (\<lambda>i. beaver_combine (w_sp w) (?a ! i) (?b ! i) (?c ! i)
        (?de ! i) (?de ! (?k + i))) [0..<?k]))) w'"
      by (simp only: wpS_withW wpS_retS eq)
  qed
qed

subsection \<open>Sharing and inverting field elements\<close>

lemma length_others: "sp < n \<Longrightarrow> length (others n sp) = n - 1"
proof -
  assume "sp < n"
  have "length (others n sp) = card (set (others n sp))"
    unfolding others_def by (rule distinct_card [symmetric]) simp
  also have "set (others n sp) = {0..<n} - {sp}"
    by (auto simp: others_def)
  finally show ?thesis
    using \<open>sp < n\<close> by simp
qed

lemma sec_split:
  assumes "length rs = n - 1" "sp < n"
  shows "sec (map (\<lambda>i. if i = sp then v else rs ! (if i < sp then i else i - 1)) [0..<n]) = gf v + sec rs"
proof -
  let ?f = "\<lambda>i. if i = sp then v else rs ! (if i < sp then i else i - 1)"
  have "[0..<n] = [0..<sp] @ sp # [Suc sp..<n]"
    using assms(2) upt_add_eq_append [of 0 sp "n - sp"] by (simp add: upt_conv_Cons)
  moreover have "map ?f [0..<sp] = take sp rs"
    using assms by (intro nth_equalityI) auto
  moreover have "map ?f [Suc sp..<n] = drop sp rs"
    using assms by (intro nth_equalityI) (auto simp del: upt_Suc)
  ultimately have "map ?f [0..<n] = take sp rs @ v # drop sp rs"
    by simp
  moreover have "sec rs = sec (take sp rs) + sec (drop sp rs)"
    by (metis append_take_drop_id map_append sec_def sum_list.append)
  ultimately show ?thesis
    by (simp add: sec_def)
qed

lemma wpS_mapS_tape:
  assumes "tape P g" and rule: "\<And>g. tape P g \<Longrightarrow> wpS (\<lambda>_. False) (\<lambda>x g'. tape P g' \<and> R x) m g"
  shows "wpS (\<lambda>_. False) (\<lambda>xs g'. tape P g' \<and> (length xs = length ks \<and> (\<forall>x \<in> set xs. R x))) (mapS (\<lambda>_. m) ks) g"
  by (rule wpS_mapS [where I = "tape P" and R = "\<lambda>_. R"])
    (use assms in \<open>auto simp: list_all2_conv_all_nth in_set_conv_nth\<close>)

lemma wpS_pf_sharize:
  assumes "wf_world P T J n sp w"
    and post: "\<And>z w'. wf_world P T J n sp w' \<Longrightarrow> w_ok w' = w_ok w \<Longrightarrow> length z = n \<Longrightarrow>
      sec z = gf secret \<Longrightarrow> Q z w'"
  shows "wpS E Q (pf_sharize secret) w"
proof -
  have sp: "w_sp w = sp" "n_parties w = n" "sp < n"
    using assms(1) by (auto simp: wf_world_def n_parties_def)
  have rule: "wpS (\<lambda>_. False) (\<lambda>x g'. tape P g' \<and> True) (getRand_pf 1 1000) g" if "tape P g" for g
    using tape_getRand_pf [OF that, of 1 1000] by (auto elim: wpS_mono)
  show ?thesis
    unfolding pf_sharize_def sharize_def wpS_withW wpS_bindS wpS_retS sp
  proof (rule wpS_on_sp_rng [OF assms(1) wpS_mapS_tape [OF _ rule]])
    fix rs :: "pf list" and w'
    assume w': "wf_world P T J n sp w'" "w_ok w' = w_ok w"
      and rs: "length rs = length (others n sp) \<and> (\<forall>x \<in> set rs. True)"
    let ?z = "map (\<lambda>i. if i = sp then secret - foldl (+) 0 rs else rs ! (if i < sp then i else i - 1)) [0..<n]"
    have "sec ?z = gf (secret - foldl (+) 0 rs) + sec rs"
      using rs sp by (intro sec_split) (auto simp: length_others)
    then have "sec ?z = gf secret"
      by (simp flip: recons_def add: gf_recons)
    with w' show "Q ?z w'"
      by (intro post) auto
  qed
qed

lemma sec_small_nonzero:
  assumes "xs \<noteq> []" "\<forall>x \<in> set xs. 1 \<le> getVal x \<and> getVal x < 1000" "1000 * int (length xs) < pf_p"
  shows "sec xs \<noteq> 0"
proof -
  have "sec xs = of_int (sum_list (map getVal xs))"
    by (induction xs) (auto simp: sec_def gf_def)
  moreover have "int (length xs) \<le> sum_list (map getVal xs) \<and> sum_list (map getVal xs) \<le> 1000 * int (length xs)"
    using assms(2) by (induction xs) auto
  moreover have "0 < int (length xs)"
    using assms(1) by simp
  ultimately have "0 < sum_list (map getVal xs)" "sum_list (map getVal xs) < pf_p"
    using assms(3) by linarith+
  then show ?thesis
    using \<open>sec xs = _\<close> by (auto simp: of_int_gfp_eq_0_iff dest!: zdvd_imp_le)
qed

lemma wpS_pf_share_getInv:
  assumes "wf_world P T J n sp w" "length s = n"
    and post: "\<And>z w'. wf_world P T J n sp w' \<Longrightarrow> w_ok w' = w_ok w \<Longrightarrow> length z = n \<Longrightarrow>
      sec z = inverse (sec s) \<Longrightarrow> Q z w'"
  shows "wpS E Q (pf_share_getInv s) w"
  unfolding pf_share_getInv_def share_getInv_def wpS_bindS pf_share_mult_def [symmetric] pf_sharize_def [symmetric]
proof (rule wpS_on_rngs [OF assms(1), where R = "\<lambda>x. 1 \<le> getVal x \<and> getVal x < 1000"])
  show "wpS (\<lambda>_. False) (\<lambda>x g'. tape P g' \<and> (1 \<le> getVal x \<and> getVal x < 1000)) (getRand_pf 1 1000) g"
    if "tape P g" for g
    using tape_getRand_pf [OF that, of 1 1000] by (auto elim: wpS_mono)
  fix r w1
  assume w1: "wf_world P T J n sp w1" "w_ok w1 = w_ok w" and r: "length r = n"
    "\<forall>x \<in> set r. 1 \<le> getVal x \<and> getVal x < 1000"
  have nz: "sec r \<noteq> 0"
    using w1 r by (intro sec_small_nonzero) (auto simp: wf_world_def)
  show "wpS E (\<lambda>u. wpS E (\<lambda>v. wpS E (\<lambda>s_inv. wpS E Q (pf_share_mult s_inv r)) (pf_sharize v))
      (liftS (pf_getInv (recons u)))) (pf_share_mult s r) w1"
  proof (rule wpS_pf_share_mult [OF w1(1) assms(2) r(1)])
    fix u w2
    assume w2: "wf_world P T J n sp w2" "w_ok w2 = w_ok w1" and u: "length u = n" "sec u = sec s * sec r"
    have inv: "pf_getInv (recons u) = Inr (inverse (recons u))"
      by (simp add: pf_inverse_val pf_getInv_ok)
    show "wpS E (\<lambda>v. wpS E (\<lambda>s_inv. wpS E Q (pf_share_mult s_inv r)) (pf_sharize v))
      (liftS (pf_getInv (recons u))) w2"
      unfolding inv wpS_liftS wpE_Inr
    proof (rule wpS_pf_sharize [OF w2(1)])
      fix v w3
      assume w3: "wf_world P T J n sp w3" "w_ok w3 = w_ok w2" and v: "length v = n"
        "sec v = gf (inverse (recons u))"
      show "wpS E Q (pf_share_mult v r) w3"
      proof (rule wpS_pf_share_mult [OF w3(1) v(1) r(1)])
        fix z w4
        assume w4: "wf_world P T J n sp w4" "w_ok w4 = w_ok w3" and z: "length z = n" "sec z = sec v * sec r"
        have "sec z = inverse (sec s)"
          using z v u nz by (simp add: gf_recons)
        then show "Q z w4"
          using w4 w3 w2 w1 z by (intro post) auto
      qed
    qed
  qed
qed

subsection \<open>Shares of fixed-point numbers\<close>

definition fsec :: "fp list \<Rightarrow> int" where
  "fsec xs = sum_list (map fpVal xs)"

definition fp_share_mult :: "fp list \<Rightarrow> fp list \<Rightarrow> (world, fp list) comp" where
  "fp_share_mult = share_mult getTriple_fp"

definition fp_vec_mult :: "fp list list \<Rightarrow> fp list list \<Rightarrow> (world, fp list list) comp" where
  "fp_vec_mult = vec_mult getTriple_fp"

lemma fpVal_recons: "fpVal (recons xs) = fsec xs"
proof -
  have "fpVal (foldl (+) a xs) = fpVal a + sum_list (map fpVal xs)" for a
    by (induction xs arbitrary: a) auto
  then show ?thesis by (simp add: recons_def fsec_def)
qed

lemma fsec_add [share_simps]: "length xs = length ys \<Longrightarrow> fsec (share_add xs ys) = fsec xs + fsec ys"
  by (induction xs ys rule: list_induct2) (auto simp: fsec_def share_add_def)

lemma fsec_sub [share_simps]: "length xs = length ys \<Longrightarrow> fsec (share_sub xs ys) = fsec xs - fsec ys"
  by (induction xs ys rule: list_induct2) (auto simp: fsec_def share_sub_def)

lemma fsec_addc [share_simps]: "sp < length xs \<Longrightarrow> fsec (share_addc sp xs v) = fsec xs + fpVal v"
  unfolding fsec_def share_addc_def by (rule sum_list_at) simp_all

lemma fsec_scale_ints [share_simps]:
  "fsec (share_scale v (map (fp_of_int \<circ> f) ts)) = fpVal v * sum_list (map f ts)"
proof (induction ts)
  case (Cons t ts)
  have "tdiv (f t * shift * fpVal v) shift = f t * fpVal v"
    using tdiv_mult_cancel [of shift "f t * fpVal v"] by (simp add: mult.assoc mult.left_commute mult.commute)
  with Cons show ?case
    by (simp add: fsec_def share_scale_def fp_of_int_def algebra_simps)
qed (simp add: fsec_def share_scale_def)

text \<open>Every party truncates its own product with a public number.\<close>

lemma fsec_scale_error: "\<bar>shift * fsec (share_scale v xs) - fpVal v * fsec xs\<bar> \<le> shift * int (length xs)"
proof (induction xs)
  case (Cons x xs)
  define q where "q = tdiv (fpVal x * fpVal v) shift"
  have "\<bar>fpVal x * fpVal v - shift * q\<bar> < shift"
    unfolding q_def by (rule tdiv_error) (simp add: shift_def)
  moreover have "shift * fsec (share_scale v (x # xs)) - fpVal v * fsec (x # xs) =
      (shift * q - fpVal x * fpVal v) + (shift * fsec (share_scale v xs) - fpVal v * fsec xs)"
    by (simp add: q_def fsec_def share_scale_def algebra_simps)
  ultimately show ?case
    using Cons by (auto simp: abs_if distrib_left split: if_splits)
qed (simp add: fsec_def share_scale_def)

lemma fsec_ints [share_simps]: "fsec (map (fp_of_int \<circ> f) ts) = shift * sum_list (map f ts)"
  by (induction ts) (auto simp: fsec_def fp_of_int_def algebra_simps)

subsection \<open>Bounds of the parties' own values\<close>

definition fbound :: "int \<Rightarrow> fp list \<Rightarrow> bool" where
  "fbound c xs \<longleftrightarrow> (\<forall>x \<in> set xs. \<bar>fpVal x\<bar> \<le> c)"

named_theorems fbound_intros \<open>bounds of the parties' own values\<close>

lemma fbound_mono: "fbound c xs \<Longrightarrow> c \<le> d \<Longrightarrow> fbound d xs"
  unfolding fbound_def by (meson order_trans)

lemma fbound_map2:
  assumes "fbound c xs" "fbound d ys" "\<And>x y. \<bar>fpVal (f x y)\<bar> \<le> \<bar>fpVal x\<bar> + \<bar>fpVal y\<bar>"
  shows "fbound (c + d) (map2 f xs ys)"
  unfolding fbound_def
proof
  fix z assume "z \<in> set (map2 f xs ys)"
  then obtain x y where "z = f x y" "x \<in> set xs" "y \<in> set ys"
    by (auto dest: set_zip_leftD set_zip_rightD)
  then have "\<bar>fpVal z\<bar> \<le> \<bar>fpVal x\<bar> + \<bar>fpVal y\<bar>" "\<bar>fpVal x\<bar> \<le> c" "\<bar>fpVal y\<bar> \<le> d"
    using assms by (auto simp: fbound_def)
  then show "\<bar>fpVal z\<bar> \<le> c + d" by linarith
qed

lemma fbound_add [fbound_intros]: "fbound c xs \<Longrightarrow> fbound d ys \<Longrightarrow> fbound (c + d) (share_add xs ys)"
  unfolding share_add_def by (erule (1) fbound_map2) simp

lemma fbound_sub [fbound_intros]: "fbound c xs \<Longrightarrow> fbound d ys \<Longrightarrow> fbound (c + d) (share_sub xs ys)"
  unfolding share_sub_def by (erule (1) fbound_map2) simp

lemma fbound_addc [fbound_intros]: "fbound c xs \<Longrightarrow> fbound (c + \<bar>fpVal v\<bar>) (share_addc sp xs v)"
  by (fastforce simp: fbound_def share_addc_def dest: set_zip_rightD)

lemma fbound_subc [fbound_intros]: "fbound c xs \<Longrightarrow> fbound (c + \<bar>fpVal v\<bar>) (share_subc sp xs v)"
  by (fastforce simp: fbound_def share_subc_def dest: set_zip_rightD)

lemma sum_list_bound: "\<forall>k \<in> set ks. \<bar>k\<bar> \<le> (c :: int) \<Longrightarrow> \<bar>sum_list ks\<bar> \<le> c * int (length ks)"
  by (induction ks) (auto simp: algebra_simps)

lemma fbound_ints [fbound_intros]: "\<forall>t \<in> set ts. \<bar>f t\<bar> \<le> c \<Longrightarrow> fbound (c * shift) (map (fp_of_int \<circ> f) ts)"
  by (auto simp: fbound_def fp_of_int_def abs_mult mult_right_mono)

lemma fbound_scale_ints [fbound_intros]:
  assumes "\<forall>t \<in> set ts. \<bar>f t\<bar> \<le> c" "\<bar>fpVal v\<bar> \<le> d"
  shows "fbound (c * d) (share_scale v (map (fp_of_int \<circ> f) ts))"
  unfolding fbound_def
proof
  fix z assume "z \<in> set (share_scale v (map (fp_of_int \<circ> f) ts))"
  then obtain t where "t \<in> set ts" "z = fp_of_int (f t) * v"
    by (auto simp: share_scale_def)
  moreover from this have "fpVal z = f t * fpVal v"
    using tdiv_mult_cancel [of shift "f t * fpVal v"] by (simp add: fp_of_int_def mult_ac)
  moreover have "0 \<le> c" if "t \<in> set ts" for t
    using assms(1) that by (meson abs_ge_zero order_trans)
  ultimately show "\<bar>fpVal z\<bar> \<le> c * d"
    using assms by (simp add: abs_mult mult_mono)
qed

text \<open>
  \<open>mult_ok n x y z\<close>: \<open>z\<close> shares the product of \<open>x\<close> and \<open>y\<close> up to one unit in the last place; the parties' own values
  stay below \<open>10 ^ 51\<close>, which the size of the triples allows.
\<close>

definition mult_ok :: "nat \<Rightarrow> fp list \<Rightarrow> fp list \<Rightarrow> fp list \<Rightarrow> bool" where
  "mult_ok n x y z \<longleftrightarrow> length z = n \<and> \<bar>shift * fsec z - fsec x * fsec y\<bar> < shift \<and>
     (n \<le> 100 \<and> \<bar>fsec x\<bar> \<le> 10 ^ 25 \<and> \<bar>fsec y\<bar> \<le> 10 ^ 25 \<longrightarrow> fbound (10 ^ 51) z)"

lemma fp_combine_error:
  assumes "beaver_int ts" "length ts = n" "length x = n" "length y = n" "sp < n"
    "a = map (fp_of_int \<circ> fst) ts" "b = map (fp_of_int \<circ> (fst \<circ> snd)) ts"
    "c = map (fp_of_int \<circ> (snd \<circ> snd)) ts"
    "z = beaver_combine sp a b c (recons (share_sub x a)) (recons (share_sub y b))"
  shows "mult_ok n x y z"
proof -
  let ?A = "sum_list (map fst ts)" and ?B = "sum_list (map (fst \<circ> snd) ts)"
    and ?C = "sum_list (map (snd \<circ> snd) ts)"
  let ?d = "fsec x - shift * ?A" and ?e = "fsec y - shift * ?B"
  have len: "length z = n"
    using assms by (simp add: beaver_combine_def)
  have de: "fsec (share_sub x a) = ?d" "fsec (share_sub y b) = ?e"
    using assms by (simp_all add: share_simps)
  then have "fsec z = shift * ?C + ?d * ?B + ?e * ?A + tdiv (?d * ?e) shift"
    using assms by (simp add: beaver_combine_def share_simps fpVal_recons)
  moreover have "?C = ?A * ?B"
    using assms(1) by (simp add: beaver_int_def)
  moreover have "S * (S * (A * B) + d * B + e * A + q) - (d + S * A) * (e + S * B) = S * q - d * e"
    for S A B d e q :: int
    by (simp add: algebra_simps)
  from this [of shift ?A ?B ?d ?e "tdiv (?d * ?e) shift"]
  have "shift * (shift * (?A * ?B) + ?d * ?B + ?e * ?A + tdiv (?d * ?e) shift) - fsec x * fsec y =
      shift * tdiv (?d * ?e) shift - ?d * ?e"
    by simp
  ultimately have "shift * fsec z - fsec x * fsec y = shift * tdiv (?d * ?e) shift - ?d * ?e"
    by (simp only:)
  also have "\<bar>\<dots>\<bar> < shift"
    using tdiv_error [of shift "?d * ?e"] by (simp add: abs_minus_commute)
  finally have err: "\<bar>shift * fsec z - fsec x * fsec y\<bar> < shift" .
  have "fbound (10 ^ 51) z" if n: "n \<le> 100" and s: "\<bar>fsec x\<bar> \<le> 10 ^ 25" "\<bar>fsec y\<bar> \<le> 10 ^ 25"
  proof -
    have ts: "\<forall>t \<in> set ts. \<bar>fst t\<bar> \<le> 2 ^ 63" "\<forall>t \<in> set ts. \<bar>(fst \<circ> snd) t\<bar> \<le> 2 ^ 63"
      "\<forall>t \<in> set ts. \<bar>(snd \<circ> snd) t\<bar> \<le> 2 ^ 63"
      using assms(1) by (simp_all add: beaver_int_def)
    have n': "int (length ts) \<le> 100"
      using n assms(2) by simp
    have "\<bar>?A\<bar> \<le> 2 ^ 63 * int (length ts)" "\<bar>?B\<bar> \<le> 2 ^ 63 * int (length ts)"
      using sum_list_bound [of "map fst ts" "2 ^ 63"] sum_list_bound [of "map (fst \<circ> snd) ts" "2 ^ 63"] ts by simp_all
    then have "\<bar>?A\<bar> \<le> 10 ^ 21" "\<bar>?B\<bar> \<le> 10 ^ 21"
      using n' by simp_all
    then have d: "\<bar>?d\<bar> \<le> 2 * 10 ^ 29" "\<bar>?e\<bar> \<le> 2 * 10 ^ 29"
      using s by (simp_all add: shift_def abs_if split: if_splits)
    let ?D = "recons (share_sub x a)" and ?E = "recons (share_sub y b)"
    have D: "\<bar>fpVal ?D\<bar> \<le> 2 * 10 ^ 29" "\<bar>fpVal ?E\<bar> \<le> 2 * 10 ^ 29"
      using d by (simp_all only: fpVal_recons de)
    have "\<bar>fpVal ?D * fpVal ?E\<bar> \<le> 2 * 10 ^ 29 * (2 * 10 ^ 29)"
      unfolding abs_mult using D by (intro mult_mono) simp_all
    moreover have "\<bar>shift * fpVal (?D * ?E)\<bar> \<le> \<bar>fpVal ?D * fpVal ?E\<bar>"
      by (simp add: tdiv_abs_le)
    ultimately have DE: "\<bar>fpVal (?D * ?E)\<bar> \<le> 4 * 10 ^ 50"
      by (simp only: abs_mult) (simp add: shift_def)
    have "fbound (2 ^ 63 * shift + 2 ^ 63 * (2 * 10 ^ 29) + 2 ^ 63 * (2 * 10 ^ 29) + \<bar>fpVal (?D * ?E)\<bar>) z"
      unfolding assms(9) beaver_combine_def unfolding assms(6-8)
      by (intro fbound_addc fbound_add fbound_ints fbound_scale_ints ts) (use D in \<open>simp_all only: assms(6-8)\<close>)
    then show ?thesis
      by (rule fbound_mono) (use DE in \<open>simp add: shift_def\<close>)
  qed
  with len err show ?thesis by (simp add: mult_ok_def)
qed

lemma handlers_getTriple_fp:
  assumes "handlers T J hs" "length hs = n"
  shows "wpS (\<lambda>_. False) (\<lambda>t hs'. handlers T J hs' \<and> length hs' = n \<and>
    (length t = n \<and> (\<forall>i < k. beaver_fp (map (\<lambda>ts. ts ! i) t)))) (par (getTriple_fp k)) hs"
  using wpS_par_mapS [of "handlers T J" n beaver_fp take_fp hs "[0..<k]", OF handlers_take_fp] assms
  unfolding getTriple_fp_def by (auto elim!: wpS_mono)

lemma fp_column_error:
  assumes t: "beaver_fp (map (\<lambda>ts. ts ! i) t)" "length t = n" and "length x = n" "length y = n" "sp < n"
    and z: "a = map (\<lambda>ts. fst (ts ! i)) t" "b = map (\<lambda>ts. fst (snd (ts ! i))) t" "c = map (\<lambda>ts. snd (snd (ts ! i))) t"
      "z = beaver_combine sp a b c (recons (share_sub x a)) (recons (share_sub y b))"
  shows "mult_ok n x y z"
proof -
  from t(1) obtain u where u: "map (\<lambda>ts. ts ! i) t = map fp_triple u" "beaver_int u"
    by (auto simp: beaver_fp_def)
  then have len: "length u = n"
    using t(2) by (metis length_map)
  have a: "a = map (fp_of_int \<circ> fst) u"
    using arg_cong [OF u(1), of "map fst"] z(1) by (simp add: comp_def case_prod_unfold)
  have b: "b = map (fp_of_int \<circ> (fst \<circ> snd)) u"
    using arg_cong [OF u(1), of "map (fst \<circ> snd)"] z(2) by (simp add: comp_def case_prod_unfold)
  have c: "c = map (fp_of_int \<circ> (snd \<circ> snd)) u"
    using arg_cong [OF u(1), of "map (snd \<circ> snd)"] z(3) by (simp add: comp_def case_prod_unfold)
  show ?thesis
    by (rule fp_combine_error [OF u(2) len assms(3-5) a b c z(4)])
qed

lemma wpS_fp_mult_ok:
  assumes "wf_world P T J n sp w" "length x = n" "length y = n"
    and post: "\<And>z w'. wf_world P T J n sp w' \<Longrightarrow> w_ok w' = w_ok w \<Longrightarrow> mult_ok n x y z \<Longrightarrow> Q z w'"
  shows "wpS E Q (fp_share_mult x y) w"
  unfolding fp_share_mult_def share_mult_def wpS_bindS
proof (rule wpS_on_ths [OF assms(1) handlers_getTriple_fp [of _ _ _ _ 1]])
  fix t :: "(fp \<times> fp \<times> fp) list list" and w'
  assume w': "wf_world P T J n sp w'" "w_ok w' = w_ok w"
    and t: "length t = n \<and> (\<forall>i < 1. beaver_fp (map (\<lambda>ts. ts ! i) t))"
  have sp: "w_sp w' = sp" "sp < n"
    using w' by (auto simp: wf_world_def)
  from t have "beaver_fp (map (\<lambda>ts. ts ! 0) t)" "length t = n" by auto
  from fp_column_error [OF this assms(2,3) sp(2) refl refl refl refl]
  show "wpS E Q (withW (\<lambda>w.
       let a = map (\<lambda>ts. fst (ts ! 0)) t; b = map (\<lambda>ts. fst (snd (ts ! 0))) t;
           c = map (\<lambda>ts. snd (snd (ts ! 0))) t;
           de_rec = map recons [share_sub x a, share_sub y b]
       in retS (beaver_combine (w_sp w) a b c (de_rec ! 0) (de_rec ! 1)))) w'"
    using post [OF w'] sp by (simp add: Let_def)
qed

lemma wpS_fp_share_mult:
  assumes "wf_world P T J n sp w" "length x = n" "length y = n"
    and post: "\<And>z w'. wf_world P T J n sp w' \<Longrightarrow> w_ok w' = w_ok w \<Longrightarrow> length z = n \<Longrightarrow>
      \<bar>shift * fsec z - fsec x * fsec y\<bar> < shift \<Longrightarrow> Q z w'"
  shows "wpS E Q (fp_share_mult x y) w"
  using assms by (intro wpS_fp_mult_ok [OF assms(1-3)]) (simp add: mult_ok_def)

lemma wpS_fp_vec_mult_ok:
  assumes "wf_world P T J n sp w" "length xs = length ys" "\<forall>x \<in> set xs. length x = n" "\<forall>y \<in> set ys. length y = n"
    and post: "\<And>zs w'. wf_world P T J n sp w' \<Longrightarrow> w_ok w' = w_ok w \<Longrightarrow> length zs = length xs \<Longrightarrow>
      \<forall>i < length xs. mult_ok n (xs ! i) (ys ! i) (zs ! i) \<Longrightarrow> Q zs w'"
  shows "wpS E Q (fp_vec_mult xs ys) w"
proof -
  let ?k = "length xs"
  have sp: "sp < n" using assms(1) by (simp add: wf_world_def)
  show ?thesis
    unfolding fp_vec_mult_def vec_mult_def Let_def if_not_P [OF not_not [THEN iffD2, OF assms(2)]] wpS_bindS
  proof (rule wpS_on_ths [OF assms(1) handlers_getTriple_fp [of _ _ _ _ ?k]])
    fix t :: "(fp \<times> fp \<times> fp) list list" and w'
    assume w': "wf_world P T J n sp w'" "w_ok w' = w_ok w"
      and t: "length t = n \<and> (\<forall>i < ?k. beaver_fp (map (\<lambda>ts. ts ! i) t))"
    let ?a = "map (\<lambda>i. map (\<lambda>ts. fst (ts ! i)) t) [0..<?k]"
    let ?b = "map (\<lambda>i. map (\<lambda>ts. fst (snd (ts ! i))) t) [0..<?k]"
    let ?c = "map (\<lambda>i. map (\<lambda>ts. snd (snd (ts ! i))) t) [0..<?k]"
    let ?de = "map recons (map2 share_sub xs ?a @ map2 share_sub ys ?b)"
    let ?z = "\<lambda>i. beaver_combine sp (?a ! i) (?b ! i) (?c ! i) (?de ! i) (?de ! (?k + i))"
    have z: "mult_ok n (xs ! i) (ys ! i) (?z i)" if "i < ?k" for i
    proof -
      have x: "length (xs ! i) = n" "length (ys ! i) = n" and b: "beaver_fp (map (\<lambda>ts. ts ! i) t)" "length t = n"
        using that assms(2-4) t by (auto dest: nth_mem)
      have "?z i = beaver_combine sp (?a ! i) (?b ! i) (?c ! i) (recons (share_sub (xs ! i) (?a ! i)))
          (recons (share_sub (ys ! i) (?b ! i)))"
        using that assms(2) by (simp add: nth_append)
      moreover have "?a ! i = map (\<lambda>ts. fst (ts ! i)) t" "?b ! i = map (\<lambda>ts. fst (snd (ts ! i))) t"
        "?c ! i = map (\<lambda>ts. snd (snd (ts ! i))) t"
        using that by simp_all
      ultimately show ?thesis
        using fp_column_error [OF b x sp, of "?a ! i" "?b ! i" "?c ! i" "?z i"] by simp
    qed
    have "Q (map ?z [0..<?k]) w'"
      by (rule post [OF w']) (use z in simp_all)
    then show "wpS E Q (withW (\<lambda>w. retS (map (\<lambda>i. beaver_combine (w_sp w) (?a ! i) (?b ! i) (?c ! i)
        (?de ! i) (?de ! (?k + i))) [0..<?k]))) w'"
      using w'(1) by (simp only: wpS_withW wpS_retS) (simp add: wf_world_def)
  qed
qed

lemma wpS_fp_vec_mult:
  assumes "wf_world P T J n sp w" "length xs = length ys" "\<forall>x \<in> set xs. length x = n" "\<forall>y \<in> set ys. length y = n"
    and post: "\<And>zs w'. wf_world P T J n sp w' \<Longrightarrow> w_ok w' = w_ok w \<Longrightarrow> length zs = length xs \<Longrightarrow>
      \<forall>i < length xs. length (zs ! i) = n \<and> \<bar>shift * fsec (zs ! i) - fsec (xs ! i) * fsec (ys ! i)\<bar> < shift \<Longrightarrow> Q zs w'"
  shows "wpS E Q (fp_vec_mult xs ys) w"
  using assms by (intro wpS_fp_vec_mult_ok [OF assms(1-4)]) (simp add: mult_ok_def)

subsection \<open>A concrete world\<close>

definition demo_rng :: rng where
  "demo_rng = \<lparr>n_hold = 1000, rands = [], gen = zero_csprng\<rparr>"

definition demo_world :: world where
  "demo_world = \<lparr>w_rngs = [demo_rng, demo_rng], w_ths = demo_handlers, w_sp = 0, w_ok = True\<rparr>"

lemma wf_demo_world: "wf_world (\<lambda>_. True) 100000 1 2 0 demo_world"
  using handlers_demo
  by (simp add: wf_world_def demo_world_def demo_rng_def demo_handlers_def pf_p_def
      flip: wf_rng_tape) (simp add: wf_rng_def sodium_ok_def zero_csprng_def)

subsection \<open>Properties\<close>

text \<open>
  C2. Multiplication of two shared field elements returns shares of their product, keeps the joint
  invariant and never fails; so does the element-wise product of two vectors of equal length, and
  vectors of different length are rejected with an exception before any triple is consumed.
\<close>

theorem pf_mult_correct:
  assumes "wf_world P T J n sp w" "length x = n" "length y = n" "length xs = length ys"
    "\<forall>u \<in> set xs. length u = n" "\<forall>u \<in> set ys. length u = n"
  shows "(\<exists>z w'. pf_share_mult x y w = Inr (z, w') \<and> wf_world P T J n sp w' \<and> length z = n \<and>
      sec z = sec x * sec y) \<and>
    (\<exists>zs w'. pf_vec_mult xs ys w = Inr (zs, w') \<and> wf_world P T J n sp w' \<and> length zs = length xs \<and>
      (\<forall>i < length xs. sec (zs ! i) = sec (xs ! i) * sec (ys ! i))) \<and>
    pf_vec_mult (x # xs) ys w = Inl (RuntimeError ''Not Equal Length operator vector<Share> !!'')"
proof (intro conjI)
  show "\<exists>z w'. pf_share_mult x y w = Inr (z, w') \<and> wf_world P T J n sp w' \<and> length z = n \<and>
      sec z = sec x * sec y"
    by (rule wpS_total [THEN iffD1], rule wpS_pf_share_mult [OF assms(1-3)]) simp
  show "\<exists>zs w'. pf_vec_mult xs ys w = Inr (zs, w') \<and> wf_world P T J n sp w' \<and> length zs = length xs \<and>
      (\<forall>i < length xs. sec (zs ! i) = sec (xs ! i) * sec (ys ! i))"
    by (rule wpS_total [THEN iffD1], rule wpS_pf_vec_mult [OF assms(1,4-6)]) simp
  show "pf_vec_mult (x # xs) ys w = Inl (RuntimeError ''Not Equal Length operator vector<Share> !!'')"
    using assms(4) by (simp add: pf_vec_mult_def vec_mult_def raiseS_def)
qed

theorem pf_mult_correct_witness:
  "\<exists>z w'. pf_share_mult [PF 2, PF 3] [PF 4, PF 5] demo_world = Inr (z, w') \<and> sec z = of_int 45"
proof -
  have "sec [PF 2, PF 3] * sec [PF 4, PF 5] = of_int (5 * 9)"
    unfolding of_int_mult by (simp add: sec_def gf_PF)
  then show ?thesis
    using pf_mult_correct [OF wf_demo_world, of "[PF 2, PF 3]" "[PF 4, PF 5]" "[]" "[]"] by auto
qed

text \<open>
  Multiplication of two shared fixed-point numbers is exact up to the final truncation: whatever the number of parties,
  the reconstructed product differs from the exact product by less than one unit in the last place, because the triples
  of the service are whole numbers and only the public product \<open>de\<close> is rounded.
\<close>

theorem fp_mult_error:
  assumes "wf_world P T J n sp w" "length x = n" "length y = n"
  shows "\<exists>z w'. fp_share_mult x y w = Inr (z, w') \<and> wf_world P T J n sp w' \<and> length z = n \<and>
    \<bar>shift * fpVal (recons z) - fpVal (recons x) * fpVal (recons y)\<bar> < shift"
  unfolding fpVal_recons by (rule wpS_total [THEN iffD1], rule wpS_fp_share_mult [OF assms]) simp

theorem fp_mult_error_witness:
  "\<exists>z w'. fp_share_mult [FP 150000000, FP 50000000] [FP 300000000, FP 0] demo_world = Inr (z, w') \<and>
    \<bar>shift * fpVal (recons z) - 200000000 * 300000000\<bar> < shift"
proof -
  have "fpVal (recons [FP 150000000, FP 50000000]) = 200000000" "fpVal (recons [FP 300000000, FP 0]) = 300000000"
    by (simp_all add: fpVal_recons fsec_def)
  then show ?thesis
    using fp_mult_error [OF wf_demo_world, of "[FP 150000000, FP 50000000]" "[FP 300000000, FP 0]"] by simp metis
qed

text \<open>
  C31. Sharing then reconstructing a field element gives it back: \<open>sharize\<close> splits the value of the party \<open>sp\<close>
  into one share per party that sum to it; opening and summing the shares returns the canonical
  representative.
\<close>

theorem sharize_recons:
  assumes "wf_world P T J n sp w"
  shows "\<exists>z w'. pf_sharize v w = Inr (z, w') \<and> wf_world P T J n sp w' \<and> length z = n \<and>
    getVal (recons z) = getVal v mod pf_p"
  unfolding getVal_recons
  by (rule wpS_total [THEN iffD1], rule wpS_pf_sharize [OF assms]) (simp add: gf_rep_gf)

theorem sharize_recons_witness:
  "\<exists>z w'. pf_sharize (PF 42) demo_world = Inr (z, w') \<and> getVal (recons z) = 42"
  using sharize_recons [OF wf_demo_world, of "PF 42"] by (auto simp: pf_p_def)

text \<open>
  \<open>getInv\<close> on a share masks it with a random factor in \<open>[1, 1000)\<close> per party, opens the product
  to \<open>sp\<close> and returns shares of the inverse: for a shared field element the result is the inverse of
  the secret (0 for 0), the mask never being 0.
\<close>

theorem share_getInv_correct:
  assumes "wf_world P T J n sp w" "length s = n"
  shows "\<exists>z w'. pf_share_getInv s w = Inr (z, w') \<and> wf_world P T J n sp w' \<and> length z = n \<and>
    sec z = inverse (sec s)"
  by (rule wpS_total [THEN iffD1], rule wpS_pf_share_getInv [OF assms]) simp

theorem share_getInv_correct_witness:
  "\<exists>z w'. pf_share_getInv [PF 2, PF 3] demo_world = Inr (z, w') \<and> sec z * sec [PF 2, PF 3] = 1"
proof -
  have "sec [PF 2, PF 3] = of_int 5"
    by (simp add: sec_def gf_PF)
  then have "sec [PF 2, PF 3] \<noteq> 0"
    by (simp only: of_int_gfp_eq_0_iff) (simp add: pf_p_def)
  then show ?thesis
    using share_getInv_correct [OF wf_demo_world, of "[PF 2, PF 3]"] by fastforce
qed

text \<open>
  The field triples hide nothing: with the constant triple \<open>(1, 1, n)\<close> the value opened for an
  operand \<open>x\<close> is \<open>x - n\<close>, from which every party reads the secret.
\<close>

theorem pf_mult_opens_secret:
  assumes "handlers T J hs" "length hs = length x"
  shows "\<exists>t hs'. par (getTriple_pf 1) hs = Inr (t, hs') \<and>
    gf (recons (share_sub x (map (\<lambda>ts. fst (ts ! 0)) t))) + of_nat (length x) = sec x"
proof -
  have "gf (recons (share_sub x (replicate (length x) 1))) + of_nat (length x) = sec x"
    by (simp add: gf_recons share_simps)
  then show ?thesis
    using handlers_getTriple_pf [OF assms, of 1] by (auto simp: wpS_total)
qed

theorem pf_mult_opens_secret_witness:
  "\<exists>t hs'. par (getTriple_pf 1) demo_handlers = Inr (t, hs') \<and>
    gf (recons (share_sub [PF 7, PF 8] (map (\<lambda>ts. fst (ts ! 0)) t))) + 2 = sec [PF 7, PF 8]"
  using pf_mult_opens_secret [OF handlers_demo, of "[PF 7, PF 8]"] by (simp add: demo_handlers_def)

end
