(* ===== verification/F65.thy ===== *)
theory F65
  imports GFp
begin

section \<open>The polynomials of the fan-in protocols\<close>

text \<open>
  \<open>f_65_or_coefficient\<close> and \<open>f_65_and_coefficient\<close> of \<open>Share/Compare.hpp\<close>: the coefficients modulo \<open>p\<close>,
  constant term first, of two polynomials of degree 64. On the arguments \<open>1, \<dots>, 65\<close> (one more than the
  number of set bits among 64) the first is 0 at 1 and 1 elsewhere, the second is 1 at 65 and 0 elsewhere.
  The tables are checked through a functional equation: a polynomial \<open>q\<close> with
  \<open>(x - b) * q (x + 1) = (x - a) * q x\<close> vanishes on \<open>a + 1, \<dots>, b\<close>; the shifted polynomial is a table
  of sums (\<open>taylor\<close>), so only additions and the products with \<open>a\<close> and \<open>b\<close> are evaluated.
\<close>

definition f_65_or_coefficient :: "int list" where
  "f_65_or_coefficient = [
    18446744073709551493, 2575104960981055254, 4007652756006865783, 4100635666949508952,
    13520771370602560384, 10644542489970931539, 13748537863183121296, 11359914866391222416,
    11247219807349180267, 10960075435459066463, 16764588636202349672, 17506652363315270202,
    16166875542546532309, 3964617125041583173, 11719255904316824165, 10424936898019828672,
    4205127743406738449, 14520034406506226582, 13839012095455519695, 10500139574289659412,
    2962336181382223452, 6767675871271430215, 6933421926280334339, 15958841553693851655,
    15160740279984758829, 7422142630459751295, 8493480566397125402, 5197722549818600602,
    14735780618044279429, 1253747699690153233, 16331314050017923346, 8939522708637072316,
    14886963398089785966, 9073751420990236602, 12505410719513991034, 2125245660187079351,
    15846075763828250700, 3886182126918060030, 8108428213219044342, 7230779232974847667,
    16872135629383927467, 6378144199063646497, 17663587804867607672, 16148746862917335565,
    15537620600452524460, 5258026759045415754, 13903054235566673560, 13960238641761739087,
    17636644537631434137, 14478303024279957496, 2874963986830092253, 3027861925099033411,
    3827102190137661457, 12528878074288803348, 5215393447045447612, 9586533887964671917,
    3356091034157294274, 2902984712153508625, 6333090465997358509, 9996528576620247823,
    11806089667835996467, 15792408873328964335, 14951514151164516184, 2230240327554514938,
    17774600287293087221]"

definition f_65_and_coefficient :: "int list" where
  "f_65_and_coefficient = [
    1, 1095567251290110014, 15603599130927532848, 3927973679664754768, 13253920145236317331,
    5072689204291235733, 3435840349470671764, 16549778763406408630, 12459576446030141042,
    10696557716079594807, 3197018912709867365, 9970630734852788482, 10106868463622397398,
    6870526778099185113, 16162773849234898198, 6512084038109877353, 17791231165580233294,
    4939553442392971102, 6613779837673282520, 6112835044719072700, 11561852329015516476,
    3241087653075867336, 11115359391888299599, 1734929295488186025, 11958404333307668373,
    1438215050425705879, 11073690707525551423, 17532628264929026480, 6082710703763137390,
    5125529121156609847, 3536240549677738615, 168123567554747533, 17222647251913610444,
    6314115150414057577, 5720266728093558989, 11315745394801430483, 13585209705064903598,
    10609659846084906928, 6341781282790677798, 394864220565298862, 5249871464994426133,
    13296832158245447365, 12801767259528789327, 8166545265620715462, 12622067858020089155,
    10852787575795086238, 15358952924301378654, 14141418894305759068, 13215619082908852856,
    9900973216959770499, 11398882017370494561, 1875791515713213273, 18179510337970552075,
    12349041994205078879, 4559441349647564738, 4543633939816633313, 9247229033112764012,
    9230709934058803069, 12860062884571458050, 14898881793951465380, 9282848170176021024,
    16257860633325038337, 546853837372292893, 3893473855680099452, 672143786416464336]"

subsection \<open>Polynomials over the field\<close>

fun peval :: "int list \<Rightarrow> gfp \<Rightarrow> gfp" where
  "peval [] x = 0"
| "peval (c # cs) x = of_int c + x * peval cs x"

fun padd1 :: "int \<Rightarrow> int list \<Rightarrow> int list" where
  "padd1 c [] = [c]"
| "padd1 c (t # ts) = (c + t) # padd1 t ts"

fun taylor :: "int list \<Rightarrow> int list" where
  "taylor [] = []"
| "taylor (c # cs) = padd1 c (taylor cs)"

fun pmul :: "int \<Rightarrow> int \<Rightarrow> int list \<Rightarrow> int list" where
  "pmul a k [] = [k]"
| "pmul a k (c # cs) = (k - a * c) # pmul a c cs"

lemma peval_padd1: "peval (padd1 c ts) x = of_int c + (x + 1) * peval ts x"
  by (induction c ts rule: padd1.induct) (auto simp: algebra_simps)

lemma peval_taylor: "peval (taylor cs) x = peval cs (x + 1)"
  by (induction cs) (auto simp: peval_padd1)

lemma peval_pmul: "peval (pmul a k cs) x = of_int k + (x - of_int a) * peval cs x"
proof (induction a k cs rule: pmul.induct)
  case (2 a k c cs)
  show ?case
    unfolding pmul.simps peval.simps "2.IH" by (simp add: algebra_simps)
qed simp

lemma peval_congruent:
  "length cs = length ds \<Longrightarrow> map2 (-) cs ds = map (\<lambda>q. q * pf_p) qs \<Longrightarrow> peval cs x = peval ds x"
proof (induction cs ds arbitrary: qs rule: list_induct2)
  case (Cons c cs d ds)
  then obtain q qs' where q: "qs = q # qs'" "c - d = q * pf_p" by (cases qs) auto
  then have "c = d + q * pf_p" by simp
  then have "(of_int c :: gfp) = of_int d" by (simp add: of_int_gfp_eq_iff)
  with Cons q show ?case by auto
qed simp

lemma vanishing:
  assumes eq: "\<And>x. (x - of_int b) * peval cs (x + 1) = (x - of_int a) * peval cs x"
    and "a < k" "k \<le> b" "b - a < pf_p"
  shows "peval cs (of_int k) = 0"
  using assms(2-)
proof (induction "nat (b - k)" arbitrary: k)
  case 0
  then have "k = b" by simp
  with eq [of "of_int b"] have "of_int (b - a) * peval cs (of_int b) = 0" by simp
  moreover have "\<not> pf_p dvd b - a"
    using 0 by (auto dest!: zdvd_imp_le)
  ultimately show ?case
    using \<open>k = b\<close> by (simp add: of_int_gfp_eq_0_iff del: of_int_diff)
next
  case (Suc m)
  then have "peval cs (of_int (k + 1)) = 0" by (intro Suc.hyps) auto
  with eq [of "of_int k"] have "of_int (k - a) * peval cs (of_int k) = 0" by simp
  moreover have "\<not> pf_p dvd k - a"
    using Suc.prems by (auto dest!: zdvd_imp_le)
  ultimately show ?case
    by (simp add: of_int_gfp_eq_0_iff del: of_int_diff)
qed

subsection \<open>The two tables\<close>

definition or_minus_1 :: "int list" where
  "or_minus_1 = (hd f_65_or_coefficient - 1) # tl f_65_or_coefficient"

lemma taylor_or: "taylor or_minus_1 = [
    664082786653543856051, 20899065468261631804067, 434589686777466107150072,
    6710331270231496486032008, 81864054401032525236430689, 821419784152006286635615859,
    6969204294207293672791086590, 51000864696013123081601473082, 326730435795384316673470550670,
    1853532959744434354374008601652, 9396807693274333296543092542753,
    42891986865402571675734427812863, 177377018165530582137385122174230,
    668101441921817452532593750191556, 2302426730741380659721746948647584,
    7288528666720638085224707411569637, 21266688423977340187864777134278659,
    57369114660177506915184381453946609, 143459799721701335482236653102335766,
    333330789859524405885945247854857032, 721129940786509050838319341866923479,
    1455251840922945420989267701557751513, 2743771850930954544243698894221848897,
    4840118321058881346107534211904675022, 7998287136139436151432537012239987425,
    12394650658657701178916233942468572263, 18028717818057516145004966502226308746,
    24633363999759290197370188266321859781, 31636449689366637206162990780353378338,
    38210110190040958413393708192544401782, 43417379925095366179535029401161140114,
    46425909235562808992539917492465479952, 46723457932654729141087976815923582290,
    44259209966369455765429858043270906082, 39457807522607378901774970325370867897,
    33100835492994040111319316543874819577, 26120791520958515061416021219580800818,
    19381467694919307040303713408539824796, 13514381803820044955265061554377745195,
    8849380068415756067542532776192008805, 5437165567231056408666047659738509357,
    3131443081139249824330317640405581932, 1688595095547955491582403899319722878,
    851398573049405831544771353676243179, 400770813639373909945164489941732299,
    175810978329126514697430268043319384, 71730254428453041801832502106240169,
    27155510234742163887653083913437919, 9513907628649964833457956002055996,
    3075249067937619107184615652746701, 913892109289824376844735000592229,
    248675906752476705093039332610371, 61664290546414809286468419798802,
    13857016298837453572810727474454, 2803246675633912992590493952621,
    506459572845409695594347975793, 80926427963920362177000698195, 11298818449984084463000340963,
    1357245930142024250084574600, 137446214025726231960952695, 11411367962077442931757860,
    745859392015738682617401, 35989050833969962794814, 1139804658714312097082, 17774600287293087221]"
  by (simp add: or_minus_1_def f_65_or_coefficient_def)

lemma taylor_and: "taylor f_65_and_coefficient = [
    571849066284996098267, 18800979206000005289243, 394225985488555984156612,
    6041268962426629385257122, 72266623212833569599947645, 704563570110024432265762051,
    5769131830686364199050869201, 40546114223424442271393403892, 248607576539472278876755143659,
    1346702024352443543105739619541, 6509514336218058557202802088489,
    28303877352249074669830076272352, 111441211890028153098299798589216,
    399537809345615159771749914657257, 1310456067080313422357346593009138,
    3948078041880498010247531017006372, 10963648916701598811351463065987533,
    28147581608878580474148650674126458, 66986751135580614330389728108793833,
    148116476778541436132359364410021428, 304907457825434544874214452958076244,
    585410738109094208034180440811759850, 1049942456984466996960438619389013292,
    1761501891249742919683902751166309049, 2767825223269053626967442730519506337,
    4077447502324841498706084187812380237, 5636700693378860325722938637921930004,
    7317824775455362729702308369498376641, 8927654106339573239479243278340300275,
    10240377460885246679610485741354293635, 11048209242800098321396232600160002333,
    11214753693799518532992917097345906373, 10712369083914335929345771770043192874,
    9629571878372814832765861411857656943, 8145791373608451490476004400818533013,
    6483272650803355493080063226323343519, 4853657385554807746522312603644898236,
    3416521773515595850027479350018280763, 2260011068437836739385644876970026416,
    1403978732648851525250054320674165213, 818433485862172633421582346650993017,
    447260236709545164761137166642343061, 228874758540882949805607759435420908,
    109526899903898564344446509751326540, 48939804762441650985571509630246201,
    20382289569821142446181438001215625, 7896009569556996976149336207147349,
    2838626626378415823884954460766050, 944459843448397707783802232364737,
    289923411484046297494399813472674, 81817585548664768726570313599912,
    21137843000686388810057035355940, 4975161609664455825245469928529,
    1060700396278446984905711812097, 203448173408715098216231474294, 34819802694958399181153977253,
    5264535204332305558821602201, 694457557399798201048303354, 78667690240229152502803657,
    7494980236361865217576402, 583712883674333882508952, 35658315955949211522563,
    1600877580160810659745, 46910676186333816956, 672143786416464336]"
  by (simp add: f_65_and_coefficient_def)

lemma or_shift: "map2 (-) (pmul 65 0 (taylor or_minus_1)) (pmul 1 0 or_minus_1) = map (\<lambda>q. q * pf_p) [
    - 2339, - 73606, - 1530212, - 23621347, - 288097085, - 2889963763, - 24512556662,
    - 179331755660, - 1148521244581, - 6513502408202, - 33010647552212, - 150627250394716,
    - 622690603176140, - 2344544735587878, - 8076744354501516, - 25557460694541602,
    - 74541404889523753, - 200996216441894549, - 502393150261056124, - 1166766419870387721,
    - 2522944709120397659, - 5088715891764854379, - 9589221694775612924, - 16906176925952331381,
    - 27920837599848084297, - 43240910292317334372, - 62855103474198989160, - 85822188232263717567,
    - 110140621981345665866, - 132924309182449999784, - 150916583100907356895,
    - 161235321989718290628, - 162120688856372230864, - 153421393963766057972,
    - 136636485492057357163, - 114496980664039362663, - 90246311583079067092,
    - 66877634541861479256, - 46569375393336397931, - 30449564454235411865, - 18678980985738382800,
    - 10739382186646333749, - 5780274161305455359, - 2908497669739405752, - 1366024498026364173,
    - 597771765775703331, - 243222085241304935, - 91798200488031027, - 32051644629805303,
    - 10320373125283530, - 3053532797485911, - 826706424108504, - 203803064852109,
    - 45484545431181, - 9126489582371, - 1632625542967, - 257701750825, - 35426130957,
    - 4169959029, - 410736873, - 32758773, - 2009541, - 86380, - 2066, 0, 0]"
  by (simp add: taylor_or) (simp add: or_minus_1_def f_65_or_coefficient_def pf_p_def)

lemma and_shift: "map2 (-) (pmul 64 0 (taylor f_65_and_coefficient)) (pmul 0 0 f_65_and_coefficient) = map (\<lambda>q. q * pf_p) [
    - 1984, - 65198, - 1366727, - 20938492, - 250397718, - 2440528350, - 19977502378,
    - 140359847143, - 860332789402, - 4658834189851, - 22511409809466, - 97845919528972,
    - 385105016648122, - 1380133994622590, - 4524898819556784, - 13626607362733524,
    - 37823772576832449, - 97062200619096589, - 230881096092087508, - 510250899837971747,
    - 1049830839885169384, - 2014522434564443976, - 3610984477408736582, - 6054519872814580999,
    - 9507331575544634992, - 13996443702685374372, - 19335195167707301314, - 25083238705263653999,
    - 30577322251365152227, - 35044477269658185215, - 37776043907470380132, - 38310068396707360722,
    - 36558043250453359528, - 32828570110376477946, - 27739370914884029938, - 22051786301819932056,
    - 16488047907499433124, - 11590323759310898442, - 7655778496313601777, - 4748514289084176702,
    - 2763401723298219741, - 1507378296811650860, - 769822807383442288, - 367590443506653447,
    - 163856591321187698, - 68062240289629122, - 26289860202104657, - 9420420960158965,
    - 3122871067334898, - 954674625568715, - 268144993168749, - 68901284769637, - 16115174516977,
    - 3410339705522, - 648351961414, - 109776510748, - 16377440332, - 2123992631, - 235286759,
    - 21738853, - 1618858, - 92072, - 3622, - 76, 0, 0]"
  by (simp add: taylor_and) (simp add: f_65_and_coefficient_def pf_p_def)

lemma length_taylor: "length (taylor cs) = length cs"
proof -
  have "length (padd1 c ts) = Suc (length ts)" for c ts
    by (induction c ts rule: padd1.induct) auto
  then show ?thesis by (induction cs) auto
qed

lemma length_pmul: "length (pmul a k cs) = Suc (length cs)"
  by (induction a k cs rule: pmul.induct) auto

lemma or_vanishes: "1 < k \<Longrightarrow> k \<le> 65 \<Longrightarrow> peval or_minus_1 (of_int k) = 0"
proof (rule vanishing [of 65 _ 1])
  fix x
  show "(x - of_int 65) * peval or_minus_1 (x + 1) = (x - of_int 1) * peval or_minus_1 x"
    using peval_congruent [OF _ or_shift, of x] by (simp add: length_taylor length_pmul peval_pmul peval_taylor)
qed (simp_all add: pf_p_def)

lemma and_vanishes: "0 < k \<Longrightarrow> k \<le> 64 \<Longrightarrow> peval f_65_and_coefficient (of_int k) = 0"
proof (rule vanishing [of 64 _ 0])
  fix x
  show "(x - of_int 64) * peval f_65_and_coefficient (x + 1) = (x - of_int 0) * peval f_65_and_coefficient x"
    using peval_congruent [OF _ and_shift, of x] by (simp add: length_taylor length_pmul peval_pmul peval_taylor)
qed (simp_all add: pf_p_def)

lemma peval_horner: "peval cs (of_int k) = of_int (foldr (\<lambda>c acc. c + k * acc) cs 0)"
  by (induction cs) auto

lemma or_at_1: "peval or_minus_1 (of_int 1) = - 1"
proof -
  have "foldr (\<lambda>c acc. c + 1 * acc) or_minus_1 0 = - 1 + 36 * pf_p"
    by (simp add: or_minus_1_def f_65_or_coefficient_def pf_p_def)
  then show ?thesis
    unfolding peval_horner by (simp only: of_int_add of_int_mult of_int_gfp_eq_0_iff [THEN iffD2, OF dvd_refl]) simp
qed

lemma and_at_65: "peval f_65_and_coefficient (of_int 65) = 1"
proof -
  have "foldr (\<lambda>c acc. c + 65 * acc) f_65_and_coefficient 0 =
      1 + 4218753335502685189456222301727078941813234998751086240791443083188889186088902199695059834091835482656882570424530 * pf_p"
    by (simp add: f_65_and_coefficient_def pf_p_def)
  then show ?thesis
    unfolding peval_horner by (simp only: of_int_add of_int_mult of_int_gfp_eq_0_iff [THEN iffD2, OF dvd_refl]) simp
qed

lemma peval_or: "peval f_65_or_coefficient x = peval or_minus_1 x + 1"
proof -
  have "f_65_or_coefficient = hd f_65_or_coefficient # tl f_65_or_coefficient"
    by (simp add: f_65_or_coefficient_def)
  then have "peval f_65_or_coefficient x = peval (hd f_65_or_coefficient # tl f_65_or_coefficient) x"
    by simp
  then show ?thesis
    by (simp add: or_minus_1_def)
qed

lemma f65_tables:
  assumes "c \<le> 64"
  shows "peval f_65_or_coefficient (of_nat c + 1) = (if c = 0 then 0 else 1) \<and>
    peval f_65_and_coefficient (of_nat c + 1) = (if c = 64 then 1 else 0)"
proof -
  have "(of_nat c + 1 :: gfp) = of_int (int c + 1)" by simp
  then show ?thesis
    using or_vanishes [of "int c + 1"] or_at_1 and_vanishes [of "int c + 1"] and_at_65 assms
    by (auto simp: peval_or simp del: of_int_add of_int_of_nat_eq)
qed

text \<open>
  The coefficient tables define the two Boolean functions of a bit count: for \<open>c\<close> set bits among
  64, the OR polynomial at \<open>c + 1\<close> is 1 iff \<open>c > 0\<close> and the AND polynomial is 1 iff \<open>c = 64\<close>, and both are 0
  otherwise.
\<close>

theorem f65_tables_correct:
  assumes "c \<le> 64"
  shows "peval f_65_or_coefficient (of_nat c + 1) = (if c = 0 then 0 else 1) \<and>
    peval f_65_and_coefficient (of_nat c + 1) = (if c = 64 then 1 else 0)"
  using assms by (rule f65_tables)

theorem f65_tables_correct_witness:
  "peval f_65_or_coefficient (of_nat 5 + 1) = 1 \<and> peval f_65_and_coefficient (of_nat 64 + 1) = 1"
  using f65_tables_correct [of 5] f65_tables_correct [of 64] by simp

end
