(* ===== verification/Bits.thy ===== *)
theory Bits
  imports Share F65
begin

section \<open>Random bits and unbounded fan-in gates\<close>

text \<open>
  The first sub-protocols of \<open>Share/Compare.cpp\<close>: random numbers and bits (\<open>subRNS\<close>, \<open>subRBS\<close>,
  \<open>subRBVS\<close>) and the OR and AND of 64 shared bits. \<open>subRBS\<close> repeats until the square it opens is not
  zero, so it takes fuel. Two conditions are needed and not checked by the code: the masks of a fan-in
  gate must be invertible, and the number drawn by \<open>subRBVS\<close> must be below \<open>p\<close>; the history variable
  \<open>w_ok\<close> records them (\<open>note_ok\<close>).

  The locale \<open>pf_gates\<close> is the interface on which the gates are verified: an invariant
  \<open>I b\<close> of the world, where \<open>b\<close> is what is known when the conditions hold, with the rules of
  multiplication, masks and sharing; \<open>pf_protocol\<close> adds the rule of the random bits. They are
  interpreted for arbitrary random numbers (\<open>gates\<close>, and \<open>any\<close>, where a run can also exhaust its fuel),
  and for random numbers of a range for which no condition can fail and no fuel runs out (\<open>lucky\<close>).
\<close>

definition pf_l :: nat where "pf_l = 64"

definition inverse_of_two :: int where "inverse_of_two = 9223372036854775779"

subsection \<open>Random numbers and bits\<close>

definition subRNS :: "(world, pf list) comp" where
  "subRNS = on_rngs (getRand_pf 0 rand_max)"

fun subRBS :: "nat \<Rightarrow> (world, pf list) comp" where
  "subRBS 0 = raiseS OutOfFuel"
| "subRBS (Suc fuel) =
     bindS subRNS (\<lambda>r.
     bindS (pf_share_mult r r) (\<lambda>square_r.
       let square_r_rec = recons square_r
       in if getVal square_r_rec \<noteq> 0
          then bindS (liftS (modsqrt square_r_rec)) (\<lambda>r_dash.
               bindS (liftS (pf_getInv r_dash)) (\<lambda>inv_r_dash.
               bindS (liftS (pf_make inverse_of_two)) (\<lambda>inv_two. withW (\<lambda>w.
                 retS (share_scale inv_two (share_addc (w_sp w) (share_scale inv_r_dash r) 1))))))
          else subRBS fuel))"

declare subRBS.simps [simp del]

definition bits_value :: "pf list list \<Rightarrow> int" where
  "bits_value rs = foldl (\<lambda>acc r. 2 * acc + getVal (recons r)) 0 rs"

definition subRBVS :: "nat \<Rightarrow> (world, pf list list) comp" where
  "subRBVS fuel =
     bindS (mapS (\<lambda>_. subRBS fuel) [0..<pf_l]) (\<lambda>r_shares.
     bindS (note_ok (bits_value r_shares < pf_p)) (\<lambda>_. retS r_shares))"

subsection \<open>Fan-in gates\<close>

definition f65 :: "int list \<Rightarrow> pf list list \<Rightarrow> (world, pf list) comp" where
  "f65 coefficient A_shares = withW (\<lambda>w.
     bindS (liftS (mapE pf_make coefficient)) (\<lambda>coef.
     retS (share_addc (w_sp w)
       (foldl (\<lambda>ans i. share_add ans (share_scale (coef ! i) (A_shares ! (i - 1))))
          (replicate (n_parties w) 0) [1..<pf_l + 1])
       (coef ! 0))))"

definition f65Or :: "pf list list \<Rightarrow> (world, pf list) comp" where
  "f65Or = f65 f_65_or_coefficient"

definition f65And :: "pf list list \<Rightarrow> (world, pf list) comp" where
  "f65And = f65 f_65_and_coefficient"

text \<open>Steps 3 to 5 of both gates: 64 random masks with their inverses.\<close>

definition fanInMasks :: "(world, pf list list \<times> pf list list) comp" where
  "fanInMasks =
     bindS (mapS (\<lambda>_. bindS subRNS (\<lambda>b. bindS subRNS (\<lambda>b_dash. retS (b, b_dash)))) [0..<pf_l]) (\<lambda>bs.
     let b_shares = map fst bs; b_dash_shares = map snd bs
     in bindS (pf_vec_mult b_shares b_dash_shares) (\<lambda>B_shares.
        let B_recons = map recons B_shares
        in bindS (note_ok (\<forall>B \<in> set B_recons. getVal B \<noteq> 0)) (\<lambda>_.
           bindS (liftS (mapE pf_getInv B_recons)) (\<lambda>B_inv.
           retS (b_shares, map2 share_scale B_inv b_dash_shares)))))"

fun products :: "pf \<Rightarrow> pf list \<Rightarrow> pf list" where
  "products tmp [] = []"
| "products tmp (c # cs) = (tmp * c) # products (tmp * c) cs"

definition fanInGate :: "(pf list list \<Rightarrow> (world, pf list) comp) \<Rightarrow> pf list list \<Rightarrow> (world, pf list) comp" where
  "fanInGate f a_shares = withW (\<lambda>w.
     if length a_shares < pf_l then raiseS UndefinedBehaviour
     else
       let n = n_parties w;
           A_share = share_addc (w_sp w) (foldl (\<lambda>A i. share_add A (a_shares ! i)) (replicate n 0) [0..<pf_l]) 1
       in bindS fanInMasks (\<lambda>(b_shares, b_inverse_shares).
          bindS (pf_vec_mult (replicate pf_l A_share) b_inverse_shares) (\<lambda>c0_shares.
          bindS (liftS (bindE (pf_make (int n)) pf_getInv)) (\<lambda>n_inv.
          bindS (pf_vec_mult c0_shares (replicate n n_inv # butlast b_shares)) (\<lambda>c_shares.
            let c_recons = map recons c_shares
            in f (map2 share_scale (products 1 c_recons) b_shares))))))"

definition subUnboundedFanInOr :: "pf list list \<Rightarrow> (world, pf list) comp" where
  "subUnboundedFanInOr = fanInGate f65Or"

definition subUnboundedFanInAnd :: "pf list list \<Rightarrow> (world, pf list) comp" where
  "subUnboundedFanInAnd = fanInGate f65And"

subsection \<open>Public values to shared bits\<close>

fun PFtoBS_loop :: "nat \<Rightarrow> int \<Rightarrow> (world, pf list list) comp" where
  "PFtoBS_loop 0 y = retS []"
| "PFtoBS_loop (Suc k) y =
     bindS (on_rngs (getRand_pf 0 rand_max)) (\<lambda>r. withW (\<lambda>w.
     bindS (pf_sharize (r ! w_sp w)) (\<lambda>s.
     bindS (liftS (pf_make (y mod 2))) (\<lambda>bit_y.
     bindS (PFtoBS_loop k (y div 2)) (\<lambda>bit_shares.
     retS (bit_shares @ [s[w_sp w := bit_y - r ! w_sp w + s ! w_sp w]]))))))"

definition PFtoBS :: "pf \<Rightarrow> (world, pf list list) comp" where
  "PFtoBS x = PFtoBS_loop pf_l (getVal x)"

definition BStoSC :: "nat \<Rightarrow> pf list list \<Rightarrow> pf list" where
  "BStoSC n a_shares =
     fst (foldl (\<lambda>(ret, coef) i. (share_add ret (share_scale coef (a_shares ! i)), coef * PF 2))
            (replicate n 0, 1) (rev [0..<pf_l]))"

subsection \<open>Sums and products over vectors of shares\<close>

definition shares_n :: "nat \<Rightarrow> nat \<Rightarrow> pf list list \<Rightarrow> bool" where
  "shares_n n k xs \<longleftrightarrow> length xs = k \<and> (\<forall>x \<in> set xs. length x = n)"

definition isbits :: "pf list list \<Rightarrow> bool" where
  "isbits xs \<longleftrightarrow> (\<forall>x \<in> set xs. sec x = 0 \<or> sec x = 1)"

definition masks_inverse :: "pf list list \<Rightarrow> pf list list \<Rightarrow> bool" where
  "masks_inverse bs cs \<longleftrightarrow> (\<forall>i < pf_l. sec (bs ! i) \<noteq> 0 \<and> sec (cs ! i) = inverse (sec (bs ! i)))"

lemma shares_n_nth: "shares_n n k xs \<Longrightarrow> i < k \<Longrightarrow> length (xs ! i) = n"
  by (auto simp: shares_n_def)

lemma shares_nI: "length xs = k \<Longrightarrow> (\<And>i. i < k \<Longrightarrow> length (xs ! i) = n) \<Longrightarrow> shares_n n k xs"
  by (auto simp: shares_n_def in_set_conv_nth)

lemma foldl_share_add:
  assumes "length z = n" "\<And>i. i \<in> set is \<Longrightarrow> length (g i) = n"
  shows "length (foldl (\<lambda>a i. share_add a (g i)) z is) = n"
    "sec (foldl (\<lambda>a i. share_add a (g i)) z is) = sec z + sum_list (map (\<lambda>i. sec (g i)) is)"
proof -
  have "length (foldl (\<lambda>a i. share_add a (g i)) z is) = n \<and>
    sec (foldl (\<lambda>a i. share_add a (g i)) z is) = sec z + sum_list (map (\<lambda>i. sec (g i)) is)"
    using assms
  proof (induction "is" arbitrary: z)
    case (Cons j js)
    from Cons.IH [of "share_add z (g j)"] Cons.prems show ?case
      by (simp add: share_simps algebra_simps)
  qed simp
  then show "length (foldl (\<lambda>a i. share_add a (g i)) z is) = n"
    "sec (foldl (\<lambda>a i. share_add a (g i)) z is) = sec z + sum_list (map (\<lambda>i. sec (g i)) is)"
    by simp_all
qed

lemma sec_zeros [simp]: "sec (replicate n 0) = 0"
  by (simp add: sec_replicate)

lemma peval_sum: "peval cs x = (\<Sum>i < length cs. of_int (cs ! i) * x ^ i)"
proof (induction cs)
  case (Cons c cs)
  show ?case
    unfolding peval.simps Cons length_Cons
    by (subst sum.lessThan_Suc_shift) (simp add: sum_distrib_left algebra_simps)
qed simp

lemma length_products [simp]: "length (products t cs) = length cs"
  by (induction cs arbitrary: t) auto

lemma products_nth: "i < length cs \<Longrightarrow> gf (products t cs ! i) = gf t * (\<Prod>j \<le> i. gf (cs ! j))"
proof (induction cs arbitrary: t i)
  case (Cons c cs)
  show ?case
  proof (cases i)
    case (Suc k)
    then have "gf (products t (c # cs) ! i) = gf (t * c) * (\<Prod>j \<le> k. gf (cs ! j))"
      using Cons by simp
    then show ?thesis
      using Suc by (simp only: prod.atMost_Suc_shift) (simp add: mult.assoc)
  qed simp
qed simp

text \<open>The telescoping product of step 7: \<open>c_i = A * b_(i-1) / b_i\<close>.\<close>

lemma telescope:
  fixes A :: "'a :: field"
  assumes "\<And>j. j \<le> i \<Longrightarrow> b j \<noteq> 0" "\<And>j. j \<le> i \<Longrightarrow> c j = A * inverse (b j) * (if j = 0 then 1 else b (j - 1))"
  shows "(\<Prod>j \<le> i. c j) = A ^ Suc i * inverse (b i)"
  using assms
proof (induction i)
  case (Suc i)
  then have "(\<Prod>j \<le> Suc i. c j) = A ^ Suc i * inverse (b i) * (A * inverse (b (Suc i)) * b i)"
    by simp
  also have "\<dots> = A ^ Suc (Suc i) * inverse (b (Suc i))"
    using Suc.prems(1) [of i] by (simp add: field_simps)
  finally show ?case .
qed simp

definition coef_ok :: "int list \<Rightarrow> bool" where
  "coef_ok cs \<longleftrightarrow> length cs = pf_l + 1 \<and> (\<forall>c \<in> set cs. 0 \<le> c \<and> c < pf_p)"

lemma coef_ok_tables: "coef_ok f_65_or_coefficient" "coef_ok f_65_and_coefficient"
  by (simp_all add: coef_ok_def pf_l_def f_65_or_coefficient_def f_65_and_coefficient_def pf_p_def)

lemma wpS_f65:
  assumes "coef_ok cs" "w_sp w < n" "n_parties w = n" "shares_n n pf_l As"
    and post: "\<And>z. length z = n \<Longrightarrow> (\<And>A. (\<forall>i < pf_l. sec (As ! i) = A ^ Suc i) \<Longrightarrow> sec z = peval cs A) \<Longrightarrow> Q z w"
  shows "wpS E Q (f65 cs As) w"
proof -
  let ?coef = "map PF cs"
  let ?g = "\<lambda>i. share_scale (?coef ! i) (As ! (i - 1))"
  let ?s = "foldl (\<lambda>a i. share_add a (?g i)) (replicate n 0) [1..<pf_l + 1]"
  have coef: "mapE pf_make cs = Inr ?coef"
    using assms(1) by (intro mapE_Inr) (auto simp: coef_ok_def pf_make_small)
  have len: "length (?g i) = n" if "i \<in> set [1..<pf_l + 1]" for i
    using that shares_n_nth [OF assms(4), of "i - 1"] by (simp add: less_diff_conv2 del: upt_Suc)
  have ls: "length ?s = n"
    by (rule foldl_share_add) (use len in auto)
  have lc: "length cs = pf_l + 1"
    using assms(1) by (simp add: coef_ok_def)
  have "sec (share_addc (w_sp w) ?s (?coef ! 0)) = peval cs A"
    if A: "\<forall>i < pf_l. sec (As ! i) = A ^ Suc i" for A
  proof -
    have "sec ?s = sum_list (map (\<lambda>i. sec (?g i)) [1..<pf_l + 1])"
      using foldl_share_add(2) [of "replicate n 0" n "[1..<pf_l + 1]" ?g] len by simp
    also have "map (\<lambda>i. sec (?g i)) [1..<pf_l + 1] = map (\<lambda>i. of_int (cs ! i) * A ^ i) [1..<pf_l + 1]"
    proof (rule map_cong [OF refl])
      fix i assume "i \<in> set [1..<pf_l + 1]"
      then have i: "1 \<le> i" "i \<le> pf_l" by auto
      then have "sec (As ! (i - 1)) = A ^ i"
        using A by (cases i) auto
      with i lc show "sec (?g i) = of_int (cs ! i) * A ^ i"
        by (simp add: share_simps gf_PF)
    qed
    also have "sum_list \<dots> = (\<Sum>i = 1..<pf_l + 1. of_int (cs ! i) * A ^ i)"
      by (simp add: interv_sum_list_conv_sum_set_nat del: upt_Suc)
    finally have "sec ?s = (\<Sum>i = 1..<pf_l + 1. of_int (cs ! i) * A ^ i)" .
    moreover have "peval cs A = of_int (cs ! 0) + (\<Sum>i = 1..<pf_l + 1. of_int (cs ! i) * A ^ i)"
      unfolding peval_sum lc
      by (simp only: lessThan_atLeast0, subst sum.atLeast_Suc_lessThan) simp_all
    ultimately show ?thesis
      using ls assms(2) lc by (simp add: share_simps gf_PF add.commute)
  qed
  then show ?thesis
    unfolding f65_def wpS_withW wpS_bindS wpS_liftS coef wpE_Inr wpS_retS assms(3)
    by (intro post) (use ls in \<open>simp_all only: share_length\<close>)
qed

subsection \<open>Numbers as shared bits\<close>

lemma bits_value_snoc: "bits_value (xs @ [x]) = 2 * bits_value xs + getVal (recons x)"
  by (simp add: bits_value_def)

lemma bits_value_take_Suc:
  "m < length a \<Longrightarrow> bits_value (take (Suc m) a) = 2 * bits_value (take m a) + getVal (recons (a ! m))"
  by (simp add: take_Suc_conv_app_nth bits_value_snoc)

lemma of_int_getVal_recons: "of_int (getVal (recons x)) = sec x"
  by (simp add: getVal_recons)

lemma BStoSC_loop:
  assumes "shares_n n k a" "m \<le> k" "length ret = n"
  shows "length (fst (foldl (\<lambda>(ret, coef) i. (share_add ret (share_scale coef (a ! i)), coef * PF 2)) (ret, coef) (rev [0..<m]))) = n \<and>
    sec (fst (foldl (\<lambda>(ret, coef) i. (share_add ret (share_scale coef (a ! i)), coef * PF 2)) (ret, coef) (rev [0..<m]))) =
      sec ret + gf coef * of_int (bits_value (take m a))"
  using assms(2,3)
proof (induction m arbitrary: ret coef)
  case 0
  then show ?case by (simp add: bits_value_def)
next
  case (Suc m)
  have am: "length (a ! m) = n" "m < length a"
    using assms(1) Suc.prems by (auto simp: shares_n_def)
  have "sec ret + gf coef * sec (a ! m) + gf (coef * PF 2) * of_int (bits_value (take m a)) =
      sec ret + gf coef * of_int (bits_value (take (Suc m) a))"
    using am by (simp add: bits_value_take_Suc of_int_getVal_recons gf_PF algebra_simps)
  then show ?case
    using Suc.IH [of "share_add ret (share_scale coef (a ! m))" "coef * PF 2"] Suc.prems am
    by (simp add: share_simps)
qed

lemma BStoSC_value:
  assumes "shares_n n pf_l a"
  shows "length (BStoSC n a) = n" "sec (BStoSC n a) = of_int (bits_value a)"
  using BStoSC_loop [OF assms le_refl, of "replicate n 0" 1] assms
  by (auto simp: BStoSC_def shares_n_def)

lemma sec_update: "i < length s \<Longrightarrow> sec (s[i := v]) = sec s - gf (s ! i) + gf v"
  by (induction s arbitrary: i) (auto simp: sec_def nth_Cons split: nat.splits)

subsection \<open>The interface of the protocols\<close>

locale pf_gates =
  fixes I :: "bool \<Rightarrow> world \<Rightarrow> bool" and E :: "exn \<Rightarrow> bool" and n sp :: nat
  assumes weaken: "\<And>b b' w. I b w \<Longrightarrow> (b \<Longrightarrow> b') \<Longrightarrow> I b' w"
    and parties: "\<And>b w. I b w \<Longrightarrow> w_sp w = sp \<and> n_parties w = n \<and> sp < n \<and> int n < pf_p"
    and mult: "\<And>b w x y Q. I b w \<Longrightarrow> length x = n \<Longrightarrow> length y = n \<Longrightarrow>
      (\<And>z w'. I b w' \<Longrightarrow> length z = n \<Longrightarrow> sec z = sec x * sec y \<Longrightarrow> Q z w') \<Longrightarrow>
      wpS E Q (pf_share_mult x y) w"
    and vmult: "\<And>b w k xs ys Q. I b w \<Longrightarrow> shares_n n k xs \<Longrightarrow> shares_n n k ys \<Longrightarrow>
      (\<And>zs w'. I b w' \<Longrightarrow> shares_n n k zs \<Longrightarrow>
         (\<forall>i < k. sec (zs ! i) = sec (xs ! i) * sec (ys ! i)) \<Longrightarrow> Q zs w') \<Longrightarrow>
      wpS E Q (pf_vec_mult xs ys) w"
    and masks: "\<And>b w Q. I b w \<Longrightarrow>
      (\<And>bs cs w'. I (b \<and> masks_inverse bs cs) w' \<Longrightarrow> shares_n n pf_l bs \<Longrightarrow> shares_n n pf_l cs \<Longrightarrow> Q (bs, cs) w') \<Longrightarrow>
      wpS E Q fanInMasks w"
    and rns: "\<And>b w Q. I b w \<Longrightarrow> (\<And>r w'. I b w' \<Longrightarrow> length r = n \<Longrightarrow> Q r w') \<Longrightarrow>
      wpS E Q (on_rngs (getRand_pf 0 rand_max)) w"
    and sharize: "\<And>b w v Q. I b w \<Longrightarrow>
      (\<And>z w'. I b w' \<Longrightarrow> length z = n \<Longrightarrow> sec z = gf v \<Longrightarrow> Q z w') \<Longrightarrow> wpS E Q (pf_sharize v) w"
begin

lemma n_inverse:
  assumes sizes: "sp < n" "int n < pf_p"
  obtains v where "bindE (pf_make (int n)) pf_getInv = Inr v" "sec (replicate n v) = 1"
proof -
  have n: "pf_make (int n) = Inr (PF (int n))" "wf_pf (PF (int n))"
    using pf_make_small [of "int n"] sizes by auto
  have "(of_int (int n) :: gfp) \<noteq> 0"
    using sizes by (subst of_int_gfp_eq_0_iff) (auto dest!: zdvd_imp_le)
  with n have "sec (replicate n (inverse (PF (int n)))) = 1"
    by (simp add: sec_replicate gf_PF)
  moreover have "pf_getInv (PF (int n)) = Inr (inverse (PF (int n)))"
    using n(2) by (simp add: pf_inverse_val pf_getInv_ok)
  ultimately show thesis
    using that [of "inverse (PF (int n))"] n by simp
qed

lemma gate_input:
  assumes "shares_n n pf_l a" "w_sp w = sp" "sp < n"
  shows "length (share_addc (w_sp w) (foldl (\<lambda>A i. share_add A (a ! i)) (replicate n 0) [0..<pf_l]) 1) = n"
    "sec (share_addc (w_sp w) (foldl (\<lambda>A i. share_add A (a ! i)) (replicate n 0) [0..<pf_l]) 1) =
      sum_list (map sec a) + 1"
proof -
  have len: "length (a ! i) = n" if "i \<in> set [0..<pf_l]" for i
    using that assms(1) by (auto intro: shares_n_nth)
  have f: "length (foldl (\<lambda>A i. share_add A (a ! i)) (replicate n 0) [0..<pf_l]) = n"
    "sec (foldl (\<lambda>A i. share_add A (a ! i)) (replicate n 0) [0..<pf_l]) =
      sec (replicate n 0) + sum_list (map (\<lambda>i. sec (a ! i)) [0..<pf_l])"
    by (rule foldl_share_add; use len in simp)+
  have "map (\<lambda>i. sec (a ! i)) [0..<pf_l] = map sec a"
    using assms(1) by (intro nth_equalityI) (auto simp: shares_n_def)
  with f assms(2,3) show
    "length (share_addc (w_sp w) (foldl (\<lambda>A i. share_add A (a ! i)) (replicate n 0) [0..<pf_l]) 1) = n"
    "sec (share_addc (w_sp w) (foldl (\<lambda>A i. share_add A (a ! i)) (replicate n 0) [0..<pf_l]) 1) =
      sum_list (map sec a) + 1"
    by (simp_all add: share_simps)
qed

lemma gate_powers:
  assumes bs: "shares_n n pf_l bs" and inv: "masks_inverse bs binv"
    and v: "sec (replicate n v) = 1"
    and c0: "\<forall>i < pf_l. sec (c0 ! i) = sec (replicate pf_l A ! i) * sec (binv ! i)"
    and c: "shares_n n pf_l c" "\<forall>i < pf_l. sec (c ! i) = sec (c0 ! i) * sec ((replicate n v # butlast bs) ! i)"
    and i: "i < pf_l"
  shows "sec (map2 share_scale (products 1 (map recons c)) bs ! i) = sec A ^ Suc i"
proof -
  have lens: "length bs = pf_l" "length c = pf_l"
    using bs c by (auto simp: shares_n_def)
  have cj: "sec (c ! j) = sec A * inverse (sec (bs ! j)) * (if j = 0 then 1 else sec (bs ! (j - 1)))"
    "sec (bs ! j) \<noteq> 0" if "j \<le> i" for j
    using that i c0 c inv v lens by (auto simp: masks_inverse_def nth_Cons nth_butlast split: nat.splits)
  have "gf (products 1 (map recons c) ! i) = (\<Prod>j \<le> i. sec (c ! j))"
    using i lens by (simp add: products_nth gf_recons)
  also have "\<dots> = sec A ^ Suc i * inverse (sec (bs ! i))"
    using cj by (intro telescope) auto
  finally have "gf (products 1 (map recons c) ! i) = sec A ^ Suc i * inverse (sec (bs ! i))" .
  with i lens cj(2) [of i] show ?thesis
    by (simp add: share_simps)
qed

lemma fan_in:
  assumes "I b w" "shares_n n pf_l a" "coef_ok cs"
    and post: "\<And>z w'. I (b \<and> sec z = peval cs (sum_list (map sec a) + 1)) w' \<Longrightarrow> length z = n \<Longrightarrow> Q z w'"
  shows "wpS E Q (fanInGate (f65 cs) a) w"
proof -
  have w: "w_sp w = sp" "n_parties w = n" and la: "\<not> length a < pf_l" and sizes: "sp < n" "int n < pf_p"
    using parties [OF assms(1)] assms(2) by (auto simp: shares_n_def)
  from n_inverse [OF sizes] obtain v where v: "bindE (pf_make (int n)) pf_getInv = Inr v" "sec (replicate n v) = 1"
    by blast
  let ?A = "share_addc (w_sp w) (foldl (\<lambda>A i. share_add A (a ! i)) (replicate n 0) [0..<pf_l]) 1"
  note A = gate_input [OF assms(2) w(1) sizes(1)]
  show ?thesis
    unfolding fanInGate_def wpS_withW if_not_P [OF la] Let_def wpS_bindS w v(1)
  proof (rule masks [OF assms(1)], unfold prod.case wpS_bindS)
    fix bs binv w1
    assume w1: "I (b \<and> masks_inverse bs binv) w1" and bs: "shares_n n pf_l bs" and binv: "shares_n n pf_l binv"
    have rA: "shares_n n pf_l (replicate pf_l ?A)"
      using A(1) by (simp add: shares_n_def)
    show "wpS E (\<lambda>c0. wpS E (\<lambda>n_inv. wpS E (\<lambda>c. wpS E Q
        (f65 cs (map2 share_scale (products 1 (map recons c)) bs)))
        (pf_vec_mult c0 (replicate n n_inv # butlast bs))) (liftS (Inr v)))
      (pf_vec_mult (replicate pf_l (share_addc sp (foldl (\<lambda>A i. share_add A (a ! i)) (replicate n 0) [0..<pf_l]) 1)) binv) w1"
      unfolding w(1) [symmetric]
    proof (rule vmult [OF w1 rA binv], unfold wpS_liftS wpE_Inr)
      fix c0 w2
      assume w2: "I (b \<and> masks_inverse bs binv) w2" and c0: "shares_n n pf_l c0"
        "\<forall>i < pf_l. sec (c0 ! i) = sec (replicate pf_l ?A ! i) * sec (binv ! i)"
      have tb: "shares_n n pf_l (replicate n v # butlast bs)"
        using bs by (auto simp: shares_n_def pf_l_def dest: in_set_butlastD)
      show "wpS E (\<lambda>c. wpS E Q (f65 cs (map2 share_scale (products 1 (map recons c)) bs)))
        (pf_vec_mult c0 (replicate n v # butlast bs)) w2"
      proof (rule vmult [OF w2 c0(1) tb])
        fix c w3
        assume w3: "I (b \<and> masks_inverse bs binv) w3" and c: "shares_n n pf_l c"
          "\<forall>i < pf_l. sec (c ! i) = sec (c0 ! i) * sec ((replicate n v # butlast bs) ! i)"
        have As: "shares_n n pf_l (map2 share_scale (products 1 (map recons c)) bs)"
          using bs c(1) by (intro shares_nI) (auto simp: shares_n_def)
        have w3': "w_sp w3 < n" "n_parties w3 = n"
          using parties [OF w3] sizes by auto
        show "wpS E Q (f65 cs (map2 share_scale (products 1 (map recons c)) bs)) w3"
        proof (rule wpS_f65 [OF assms(3) w3' As])
          fix z
          assume z: "length z = n" "\<And>A. \<forall>i < pf_l. sec (map2 share_scale (products 1 (map recons c)) bs ! i) = A ^ Suc i \<Longrightarrow>
            sec z = peval cs A"
          have "sec z = peval cs (sec ?A)" if "masks_inverse bs binv"
            using gate_powers [OF bs that v(2) c0(2) c] by (intro z(2)) auto
          then have "I (b \<and> sec z = peval cs (sum_list (map sec a) + 1)) w3"
            using A(2) by (intro weaken [OF w3]) auto
          then show "Q z w3" using z(1) by (rule post)
        qed
      qed
    qed
  qed
qed

lemma bit_count: "isbits a \<Longrightarrow> sum_list (map sec a) = of_nat (length (filter (\<lambda>x. sec x = 1) a))"
  by (induction a) (auto simp: isbits_def)

lemma fan_in_or:
  assumes "I b w" "shares_n n pf_l a" "b \<Longrightarrow> isbits a"
    and post: "\<And>z w'. I (b \<and> sec z = of_bool (\<exists>x \<in> set a. sec x = 1)) w' \<Longrightarrow> length z = n \<Longrightarrow> Q z w'"
  shows "wpS E Q (subUnboundedFanInOr a) w"
  unfolding subUnboundedFanInOr_def f65Or_def
proof (rule fan_in [OF assms(1,2) coef_ok_tables(1)])
  fix z w'
  assume z: "I (b \<and> sec z = peval f_65_or_coefficient (sum_list (map sec a) + 1)) w'" "length z = n"
  let ?c = "length (filter (\<lambda>x. sec x = 1) a)"
  have "?c \<le> 64"
    using assms(2) length_filter_le [of _ a] by (simp add: shares_n_def pf_l_def)
  note t = f65_tables [OF this, THEN conjunct1]
  have "?c = 0 \<longleftrightarrow> \<not> (\<exists>x \<in> set a. sec x = 1)"
    by (simp add: filter_empty_conv)
  then have "I (b \<and> sec z = of_bool (\<exists>x \<in> set a. sec x = 1)) w'"
    using assms(3) bit_count t by (intro weaken [OF z(1)]) auto
  then show "Q z w'" using z(2) by (rule post)
qed

lemma fan_in_and:
  assumes "I b w" "shares_n n pf_l a" "b \<Longrightarrow> isbits a"
    and post: "\<And>z w'. I (b \<and> sec z = of_bool (\<forall>x \<in> set a. sec x = 1)) w' \<Longrightarrow> length z = n \<Longrightarrow> Q z w'"
  shows "wpS E Q (subUnboundedFanInAnd a) w"
  unfolding subUnboundedFanInAnd_def f65And_def
proof (rule fan_in [OF assms(1,2) coef_ok_tables(2)])
  fix z w'
  assume z: "I (b \<and> sec z = peval f_65_and_coefficient (sum_list (map sec a) + 1)) w'" "length z = n"
  let ?c = "length (filter (\<lambda>x. sec x = 1) a)"
  have la: "length a = 64"
    using assms(2) by (simp add: shares_n_def pf_l_def)
  then have "?c \<le> 64"
    using length_filter_le [of _ a] by simp
  note t = f65_tables [OF this, THEN conjunct2]
  have "?c = 64 \<longleftrightarrow> (\<forall>x \<in> set a. sec x = 1)"
    using la filter_True [of a "\<lambda>x. sec x = 1"] length_filter_less [of _ a "\<lambda>x. sec x = 1"] by fastforce
  then have "I (b \<and> sec z = of_bool (\<forall>x \<in> set a. sec x = 1)) w'"
    using assms(3) bit_count t by (intro weaken [OF z(1)]) auto
  then show "Q z w'" using z(2) by (rule post)
qed

lemma PFtoBS_loop_rule:
  assumes "I b w" "0 \<le> y"
    and post: "\<And>bs w'. I b w' \<Longrightarrow> shares_n n k bs \<Longrightarrow> isbits bs \<Longrightarrow> bits_value bs = y mod 2 ^ k \<Longrightarrow> Q bs w'"
  shows "wpS E Q (PFtoBS_loop k y) w"
  using assms
proof (induction k arbitrary: y w Q)
  case 0
  then show ?case by (simp add: shares_n_def isbits_def bits_value_def)
next
  case (Suc k)
  show ?case
    unfolding PFtoBS_loop.simps wpS_bindS
  proof (rule rns [OF Suc.prems(1)], unfold wpS_withW wpS_bindS)
    fix r :: "pf list" and w1 assume w1: "I b w1" and r: "length r = n"
    have sp: "w_sp w1 = sp" "sp < n" using parties [OF w1] by auto
    have y2: "pf_make (y mod 2) = Inr (PF (y mod 2))"
      by (rule pf_make_small [THEN conjunct1]) (simp_all add: pf_p_def)
    show "wpS E (\<lambda>s. wpS E (\<lambda>bit_y. wpS E (\<lambda>bs. wpS E Q (retS (bs @ [s[w_sp w1 := bit_y - r ! w_sp w1 + s ! w_sp w1]])))
        (PFtoBS_loop k (y div 2))) (liftS (pf_make (y mod 2)))) (pf_sharize (r ! w_sp w1)) w1"
      unfolding sp y2 wpS_liftS wpE_Inr wpS_retS
    proof (rule sharize [OF w1], rule Suc.IH)
      fix s w2 bs w3
      assume s: "length s = n" "sec s = gf (r ! sp)" and w3: "I b w3" and bs: "shares_n n k bs" "isbits bs"
        "bits_value bs = (y div 2) mod 2 ^ k"
      let ?s = "s[sp := PF (y mod 2) - r ! sp + s ! sp]"
      have sec: "sec ?s = of_int (y mod 2)"
        using s sp by (simp add: sec_update gf_PF)
      then have val: "getVal (recons ?s) = y mod 2"
        by (simp add: getVal_recons gf_rep_of_int pf_p_def)
      have bit: "sec ?s = 0 \<or> sec ?s = 1"
        unfolding sec by (cases "y mod 2 = 0") (auto simp: odd_iff_mod_2_eq_one)
      have "2 * (y div 2 mod 2 ^ k) + y mod 2 = y mod 2 ^ Suc k"
        by (simp add: zmod_zmult2_eq)
      then show "Q (bs @ [?s]) w3"
        using bs bit s(1) w3 val
        by (intro Suc.prems(3)) (auto simp: shares_n_def isbits_def bits_value_snoc)
    qed (use Suc.prems(2) in simp_all)
  qed
qed

lemma PFtoBS_rule:
  assumes "I b w" "0 \<le> getVal x" "getVal x < pf_p"
    and post: "\<And>bs w'. I b w' \<Longrightarrow> shares_n n pf_l bs \<Longrightarrow> isbits bs \<Longrightarrow> bits_value bs = getVal x \<Longrightarrow> Q bs w'"
  shows "wpS E Q (PFtoBS x) w"
  unfolding PFtoBS_def
proof (rule PFtoBS_loop_rule [OF assms(1,2)])
  fix bs w' assume "I b w'" "shares_n n pf_l bs" "isbits bs" "bits_value bs = getVal x mod 2 ^ pf_l"
  then show "Q bs w'"
    using assms(2,3) by (intro post) (auto simp: pf_l_def pf_p_def)
qed

end

text \<open>The protocols that also draw random bits, whose loop may use up its fuel.\<close>

locale pf_protocol = pf_gates +
  fixes fuel :: nat
  assumes rbvs: "\<And>b w Q. I b w \<Longrightarrow>
      (\<And>rs w'. I (b \<and> isbits rs \<and> bits_value rs < pf_p) w' \<Longrightarrow> shares_n n pf_l rs \<Longrightarrow> Q rs w') \<Longrightarrow>
      wpS E Q (subRBVS fuel) w"

subsection \<open>Rules of the random sub-protocols\<close>

definition drawn :: "(64 word \<Rightarrow> bool) \<Rightarrow> pf list \<Rightarrow> bool" where
  "drawn P r \<longleftrightarrow> (\<forall>x \<in> set r. \<exists>u. P u \<and> x = PF (uint u mod rand_max))"

lemma wpS_subRNS:
  assumes "wf_world P T J n sp w"
    and post: "\<And>r w'. wf_world P T J n sp w' \<Longrightarrow> w_ok w' = w_ok w \<Longrightarrow> length r = n \<Longrightarrow> drawn P r \<Longrightarrow> Q r w'"
  shows "wpS E Q subRNS w"
  unfolding subRNS_def
proof (rule wpS_on_rngs [OF assms(1), where R = "\<lambda>x. \<exists>u. P u \<and> x = PF (uint u mod rand_max)"])
  show "wpS (\<lambda>_. False) (\<lambda>x g'. tape P g' \<and> (\<exists>u. P u \<and> x = PF (uint u mod rand_max))) (getRand_pf 0 rand_max) g"
    if "tape P g" for g
    using tape_getRand_pf [OF that, of 0 rand_max] by (auto simp: rand_max_def elim!: wpS_mono)
qed (auto intro: post simp: drawn_def)

lemma mapE_getInv: "\<forall>x \<in> set xs. wf_pf x \<Longrightarrow> mapE pf_getInv xs = Inr (map inverse xs)"
  by (rule mapE_Inr) (simp add: pf_inverse_val pf_getInv_ok)

lemma masks_inverse_products:
  assumes "\<forall>B \<in> set (map recons Bs). getVal B \<noteq> 0" "length Bs = pf_l" "length bs = pf_l" "length ds = pf_l"
    "\<forall>i < pf_l. sec (Bs ! i) = sec (bs ! i) * sec (ds ! i)"
  shows "masks_inverse bs (map2 share_scale (map inverse (map recons Bs)) ds)"
  unfolding masks_inverse_def
proof (intro allI impI)
  fix i assume i: "i < pf_l"
  then have "getVal (recons (Bs ! i)) \<noteq> 0"
    using assms(1,2) by simp
  then have "sec (Bs ! i) \<noteq> 0"
    by (auto simp: getVal_recons)
  moreover have "sec (map2 share_scale (map inverse (map recons Bs)) ds ! i) = inverse (sec (Bs ! i)) * sec (ds ! i)"
    using i assms(2-4) by (simp add: share_simps gf_recons)
  ultimately show "sec (bs ! i) \<noteq> 0 \<and>
      sec (map2 share_scale (map inverse (map recons Bs)) ds ! i) = inverse (sec (bs ! i))"
    using i assms(5) by auto
qed

lemma wpS_fanInMasks:
  assumes "wf_world P T J n sp w"
    and post: "\<And>bs cs w' nz. wf_world P T J n sp w' \<Longrightarrow> w_ok w' = (w_ok w \<and> nz) \<Longrightarrow>
      shares_n n pf_l bs \<Longrightarrow> shares_n n pf_l cs \<Longrightarrow> (nz \<Longrightarrow> masks_inverse bs cs) \<Longrightarrow>
      ((\<And>r. length r = n \<Longrightarrow> drawn P r \<Longrightarrow> sec r \<noteq> 0) \<Longrightarrow> nz) \<Longrightarrow> Q (bs, cs) w'"
  shows "wpS E Q fanInMasks w"
  unfolding fanInMasks_def wpS_bindS Let_def
proof (rule wpS_mapS [where I = "\<lambda>w'. wf_world P T J n sp w' \<and> w_ok w' = w_ok w" and
      R = "\<lambda>_ (r, r'). length r = n \<and> drawn P r \<and> length r' = n \<and> drawn P r'"], unfold wpS_bindS)
  fix w1 assume w1: "wf_world P T J n sp w1 \<and> w_ok w1 = w_ok w"
  show "wpS E (\<lambda>x. wpS E (\<lambda>x'. wpS E (\<lambda>y s'. (wf_world P T J n sp s' \<and> w_ok s' = w_ok w) \<and>
      (case y of (r, r') \<Rightarrow> length r = n \<and> drawn P r \<and> length r' = n \<and> drawn P r')) (retS (x, x'))) subRNS) subRNS w1"
    using w1 by (intro wpS_subRNS [of P T J n sp w1]; simp) (rule wpS_subRNS; simp)
next
  fix xs w1
  assume w1: "wf_world P T J n sp w1 \<and> w_ok w1 = w_ok w"
    and xs: "list_all2 (\<lambda>_ (r, r'). length r = n \<and> drawn P r \<and> length r' = n \<and> drawn P r') [0..<pf_l] xs"
  let ?b = "map fst xs" and ?d = "map snd xs"
  have len: "length xs = pf_l"
    using xs by (simp add: list_all2_lengthD [symmetric])
  have el: "length (fst x) = n \<and> drawn P (fst x) \<and> length (snd x) = n \<and> drawn P (snd x)" if "x \<in> set xs" for x
    using that xs by (auto simp: list_all2_conv_all_nth in_set_conv_nth case_prod_unfold)
  have bd: "shares_n n pf_l ?b" "shares_n n pf_l ?d"
    using len el by (auto simp: shares_n_def)
  show "wpS E (\<lambda>x. wpS E (\<lambda>_. wpS E (\<lambda>B_inv. wpS E Q (retS (?b, map2 share_scale B_inv ?d)))
      (liftS (mapE pf_getInv (map recons x)))) (note_ok (\<forall>B \<in> set (map recons x). getVal B \<noteq> 0))) (pf_vec_mult ?b ?d) w1"
  proof (rule wpS_pf_vec_mult [OF w1 [THEN conjunct1]])
    fix Bs w2
    assume w2: "wf_world P T J n sp w2" "w_ok w2 = w_ok w1" and Bs: "length Bs = length ?b"
      "\<forall>z \<in> set Bs. length z = n" "\<forall>i < length ?b. sec (Bs ! i) = sec (?b ! i) * sec (?d ! i)"
    let ?nz = "\<forall>B \<in> set (map recons Bs). getVal B \<noteq> 0"
    let ?cs = "map2 share_scale (map inverse (map recons Bs)) ?d"
    have cs: "shares_n n pf_l ?cs"
      using Bs len bd by (intro shares_nI) (auto simp: shares_n_def)
    have inv: "masks_inverse ?b ?cs" if ?nz
      using masks_inverse_products [OF that, of ?b ?d] Bs len by simp
    have good: ?nz if "\<And>r. length r = n \<Longrightarrow> drawn P r \<Longrightarrow> sec r \<noteq> 0"
    proof
      fix B assume "B \<in> set (map recons Bs)"
      then obtain i where i: "i < pf_l" "B = recons (Bs ! i)"
        using Bs len by (auto simp: in_set_conv_nth)
      then have "sec (Bs ! i) \<noteq> 0"
        using that el [of "xs ! i"] Bs len by simp
      with i show "getVal B \<noteq> 0"
        by (metis getVal_recons of_int_0 of_int_gf_rep)
    qed
    have "Q (?b, ?cs) (w2\<lparr>w_ok := (w_ok w2 \<and> ?nz)\<rparr>)"
      by (rule post [of _ ?nz]) (use w1 w2 bd cs inv good in simp_all)
    moreover have "mapE pf_getInv (map recons Bs) = Inr (map inverse (map recons Bs))"
      by (rule mapE_getInv) simp
    ultimately show "wpS E (\<lambda>_. wpS E (\<lambda>B_inv. wpS E Q (retS (?b, map2 share_scale B_inv ?d)))
      (liftS (mapE pf_getInv (map recons Bs)))) (note_ok ?nz) w2"
      by (simp only: wpS_note_ok wpS_liftS wpE_Inr wpS_retS)
  qed (use bd in \<open>auto simp: shares_n_def\<close>)
qed (use assms(1) in simp)

lemma square_root_cases:
  assumes "sec sq = sec r * sec r" "getVal (recons sq) \<noteq> 0"
  obtains rd where "modsqrt (recons sq) = Inr rd" "pf_getInv rd = Inr (inverse rd)" "wf_pf rd"
    "inverse (gf rd) * sec r = 1 \<or> inverse (gf rd) * sec r = - 1"
    "pf_p div 2 < gf_rep (sec r) \<Longrightarrow> inverse (gf rd) * sec r = - 1"
proof -
  have nz: "sec r \<noteq> 0"
    using assms by (auto simp: getVal_recons)
  then have "gf (recons sq) \<noteq> 0" "\<exists>y. gf (recons sq) = y * y"
    using assms(1) by (auto simp: gf_recons)
  then obtain rd where rd: "modsqrt (recons sq) = Inr rd" "gf rd * gf rd = gf (recons sq)"
    "0 \<le> getVal rd" "getVal rd \<le> pf_p div 2"
    using modsqrt_square [of "recons sq"] by blast
  then have wf: "wf_pf rd"
    by (simp add: wf_pf_def pf_p_def)
  have "(gf rd - sec r) * (gf rd + sec r) = 0"
    using rd(2) assms(1) by (simp add: gf_recons algebra_simps)
  then have pm: "gf rd = sec r \<or> gf rd = - sec r"
    by (auto simp: eq_neg_iff_add_eq_0)
  have neq: "gf rd \<noteq> sec r" if "pf_p div 2 < gf_rep (sec r)"
  proof
    assume "gf rd = sec r"
    then have "getVal rd mod pf_p = gf_rep (sec r)"
      by (metis gf_rep_gf)
    moreover have "getVal rd mod pf_p = getVal rd"
      using rd(3,4) by (intro mod_pos_pos_trivial) (auto simp: pf_p_def)
    ultimately show False using that rd(4) by simp
  qed
  show thesis
  proof (rule that [OF rd(1) _ wf])
    show "pf_getInv rd = Inr (inverse rd)"
      using wf by (simp add: pf_inverse_val pf_getInv_ok)
    show "inverse (gf rd) * sec r = 1 \<or> inverse (gf rd) * sec r = - 1"
      using pm nz by auto
    show "inverse (gf rd) * sec r = - 1" if "pf_p div 2 < gf_rep (sec r)"
      using pm nz neq [OF that] by auto
  qed
qed

lemma half_of_two: "pf_make inverse_of_two = Inr (PF inverse_of_two)" "gf (PF inverse_of_two) * 2 = 1"
proof -
  show "pf_make inverse_of_two = Inr (PF inverse_of_two)"
    by (rule pf_make_small [THEN conjunct1]) (simp_all add: inverse_of_two_def pf_p_def)
  have "gf (PF inverse_of_two) * 2 = of_int (inverse_of_two * 2)"
    by (simp add: gf_PF)
  also have "inverse_of_two * 2 = 1 + pf_p"
    by (simp add: inverse_of_two_def pf_p_def)
  finally show "gf (PF inverse_of_two) * 2 = 1" by simp
qed

lemma bit_share_value:
  assumes "length r = n" "sp < n" "wf_pf rd"
  shows "sec (share_scale (PF inverse_of_two) (share_addc sp (share_scale (inverse rd) r) 1)) =
    gf (PF inverse_of_two) * (inverse (gf rd) * sec r + 1)"
  using assms by (simp add: share_simps)

text \<open>One round of the loop: it ends with a bit or opens a zero and goes on.\<close>

lemma wpS_subRBS_round:
  assumes "wf_world P T J n sp w"
    and again: "\<And>r w'. wf_world P T J n sp w' \<Longrightarrow> w_ok w' = w_ok w \<Longrightarrow> length r = n \<Longrightarrow> drawn P r \<Longrightarrow>
      sec r = 0 \<Longrightarrow> wpS E Q (subRBS fuel) w'"
    and stop: "\<And>r z w'. wf_world P T J n sp w' \<Longrightarrow> w_ok w' = w_ok w \<Longrightarrow> length r = n \<Longrightarrow> drawn P r \<Longrightarrow>
      length z = n \<Longrightarrow> sec z = 0 \<or> sec z = 1 \<Longrightarrow> (pf_p div 2 < gf_rep (sec r) \<Longrightarrow> sec z = 0) \<Longrightarrow> Q z w'"
  shows "wpS E Q (subRBS (Suc fuel)) w"
  unfolding subRBS.simps wpS_bindS
proof (rule wpS_subRNS [OF assms(1)])
  fix r w1
  assume w1: "wf_world P T J n sp w1" "w_ok w1 = w_ok w" and r: "length r = n" "drawn P r"
  let ?loop = "\<lambda>sq. let square_r_rec = recons sq
       in if getVal square_r_rec \<noteq> 0
          then bindS (liftS (modsqrt square_r_rec)) (\<lambda>r_dash.
               bindS (liftS (pf_getInv r_dash)) (\<lambda>inv_r_dash.
               bindS (liftS (pf_make inverse_of_two)) (\<lambda>inv_two. withW (\<lambda>w.
                 retS (share_scale inv_two (share_addc (w_sp w) (share_scale inv_r_dash r) 1))))))
          else subRBS fuel"
  show "wpS E (\<lambda>sq. wpS E Q (?loop sq)) (pf_share_mult r r) w1"
  proof (rule wpS_pf_share_mult [OF w1(1) r(1) r(1)])
    fix sq w2
    assume w2: "wf_world P T J n sp w2" "w_ok w2 = w_ok w1" and sq: "length sq = n" "sec sq = sec r * sec r"
    have sp: "w_sp w2 = sp" "sp < n" using w2 by (auto simp: wf_world_def)
    show "wpS E Q (?loop sq) w2"
    proof (cases "getVal (recons sq) = 0")
      case True
      then have "sec r = 0"
        using sq(2) by (metis getVal_recons mult_eq_0_iff of_int_0 of_int_gf_rep)
      with True w1 w2 r show ?thesis by (simp add: again)
    next
      case False
      from square_root_cases [OF sq(2) False] obtain rd where rd: "modsqrt (recons sq) = Inr rd"
        "pf_getInv rd = Inr (inverse rd)" "wf_pf rd"
        "inverse (gf rd) * sec r = 1 \<or> inverse (gf rd) * sec r = - 1"
        "pf_p div 2 < gf_rep (sec r) \<Longrightarrow> inverse (gf rd) * sec r = - 1"
        by metis
      let ?z = "share_scale (PF inverse_of_two) (share_addc sp (share_scale (inverse rd) r) 1)"
      have z: "sec ?z = gf (PF inverse_of_two) * (inverse (gf rd) * sec r + 1)"
        by (rule bit_share_value [OF r(1) sp(2) rd(3)])
      have "Q ?z w2"
      proof (rule stop [OF w2(1) _ r])
        show "sec ?z = 0 \<or> sec ?z = 1"
          using rd(4) half_of_two(2) unfolding z by (auto simp: one_add_one)
        show "sec ?z = 0" if "pf_p div 2 < gf_rep (sec r)"
          using rd(5) [OF that] unfolding z by simp
      qed (use w1 w2 r in simp_all)
      then show ?thesis
        using False rd half_of_two(1) sp by simp
    qed
  qed
qed

lemma wpS_subRBS:
  assumes "wf_world P T J n sp w" "E OutOfFuel"
    and "\<And>z w'. wf_world P T J n sp w' \<Longrightarrow> w_ok w' = w_ok w \<Longrightarrow> length z = n \<Longrightarrow> sec z = 0 \<or> sec z = 1 \<Longrightarrow> Q z w'"
  shows "wpS E Q (subRBS fuel) w"
  using assms(1,3)
proof (induction fuel arbitrary: w)
  case 0
  then show ?case using assms(2) by (simp add: subRBS.simps)
next
  case (Suc fuel)
  show ?case
    by (rule wpS_subRBS_round [OF Suc.prems(1)]) (use Suc in simp_all)
qed

lemma wpS_subRBVS:
  assumes "wf_world P T J n sp w"
    and bit: "\<And>w' Q. wf_world P T J n sp w' \<Longrightarrow> (\<And>z w''. wf_world P T J n sp w'' \<Longrightarrow> w_ok w'' = w_ok w' \<Longrightarrow>
      length z = n \<Longrightarrow> sec z = 0 \<or> sec z = 1 \<Longrightarrow> R z \<Longrightarrow> Q z w'') \<Longrightarrow> wpS E Q (subRBS fuel) w'"
    and post: "\<And>rs w'. wf_world P T J n sp w' \<Longrightarrow> w_ok w' = (w_ok w \<and> bits_value rs < pf_p) \<Longrightarrow>
      shares_n n pf_l rs \<Longrightarrow> isbits rs \<Longrightarrow> \<forall>r \<in> set rs. R r \<Longrightarrow> Q rs w'"
  shows "wpS E Q (subRBVS fuel) w"
  unfolding subRBVS_def wpS_bindS
proof (rule wpS_mapS [where I = "\<lambda>w'. wf_world P T J n sp w' \<and> w_ok w' = w_ok w" and
      R = "\<lambda>_ z. length z = n \<and> (sec z = 0 \<or> sec z = 1) \<and> R z"])
  show "wpS E (\<lambda>y s'. (wf_world P T J n sp s' \<and> w_ok s' = w_ok w) \<and> length y = n \<and> (sec y = 0 \<or> sec y = 1) \<and> R y)
      (subRBS fuel) s" if "wf_world P T J n sp s \<and> w_ok s = w_ok w" for s
    using that by (intro bit) auto
next
  fix rs w1
  assume w1: "wf_world P T J n sp w1 \<and> w_ok w1 = w_ok w"
    and rs: "list_all2 (\<lambda>_ z. length z = n \<and> (sec z = 0 \<or> sec z = 1) \<and> R z) [0..<pf_l] rs"
  then have "length rs = pf_l" "\<forall>z \<in> set rs. length z = n \<and> (sec z = 0 \<or> sec z = 1) \<and> R z"
    by (auto simp: list_all2_conv_all_nth in_set_conv_nth)
  with w1 show "wpS E (\<lambda>_. wpS E Q (retS rs)) (note_ok (bits_value rs < pf_p)) w1"
    by (simp add: post shares_n_def isbits_def)
qed (use assms(1) in simp)

subsection \<open>The two interpretations\<close>

definition any_inv :: "(64 word \<Rightarrow> bool) \<Rightarrow> nat \<Rightarrow> nat \<Rightarrow> nat \<Rightarrow> nat \<Rightarrow> bool \<Rightarrow> world \<Rightarrow> bool" where
  "any_inv P T J n sp b w \<longleftrightarrow> wf_world P T J n sp w \<and> (w_ok w \<longrightarrow> b)"

lemma any_invI: "wf_world P T J n sp w \<Longrightarrow> (w_ok w \<Longrightarrow> b) \<Longrightarrow> any_inv P T J n sp b w"
  by (simp add: any_inv_def)

interpretation gates: pf_gates "any_inv P T J n sp" E n sp
  for P T J n sp E
proof (unfold_locales, goal_cases)
  case 1
  then show ?case by (auto simp: any_inv_def)
next
  case 2
  then show ?case by (auto simp: any_inv_def wf_world_def n_parties_def)
next
  case (3 b w x y Q)
  then show ?case
    by (intro wpS_pf_share_mult [of P T J n sp]) (auto simp: any_inv_def)
next
  case (4 b w k xs ys Q)
  then show ?case
    by (intro wpS_pf_vec_mult [of P T J n sp]) (auto simp: any_inv_def shares_n_def)
next
  case (5 b w Q)
  show ?case
    by (rule wpS_fanInMasks [of P T J n sp]) (use 5 in \<open>auto simp: any_inv_def\<close>)
next
  case (6 b w Q)
  show ?case
    unfolding subRNS_def [symmetric]
    by (rule wpS_subRNS [of P T J n sp]) (use 6 in \<open>auto simp: any_inv_def\<close>)
next
  case (7 b w v Q)
  show ?case
    by (rule wpS_pf_sharize [of P T J n sp]) (use 7 in \<open>auto simp: any_inv_def\<close>)
qed

interpretation any: pf_protocol "any_inv P T J n sp" "\<lambda>e. e = OutOfFuel" n sp fuel
  for P T J n sp fuel
proof unfold_locales
  fix b w Q
  assume *: "any_inv P T J n sp b w" "\<And>rs w'. any_inv P T J n sp (b \<and> isbits rs \<and> bits_value rs < pf_p) w' \<Longrightarrow>
    shares_n n pf_l rs \<Longrightarrow> Q rs w'"
  show "wpS (\<lambda>e. e = OutOfFuel) Q (subRBVS fuel) w"
    by (rule wpS_subRBVS [of P T J n sp _ "\<lambda>_. True"])
      (use * in \<open>auto simp: any_inv_def intro: wpS_subRBS\<close>)
qed

text \<open>
  A range of random numbers for which nothing goes wrong: when every party draws between \<open>p / 2n\<close> and
  \<open>p / n\<close>, the sum of \<open>n\<close> draws is between \<open>p / 2\<close> and \<open>p\<close>. Then it is invertible, the canonical root
  of its square is its negation, and every random bit is 0.
\<close>

definition lucky :: "nat \<Rightarrow> 64 word \<Rightarrow> bool" where
  "lucky n u \<longleftrightarrow> pf_p < 2 * int n * (uint u mod rand_max) \<and> int n * (uint u mod rand_max) < pf_p"

lemma sum_list_strict:
  "\<forall>x \<in> set r. a < f x \<Longrightarrow> r \<noteq> [] \<Longrightarrow> int (length r) * a < sum_list (map f r)"
  "\<forall>x \<in> set r. f x < a \<Longrightarrow> r \<noteq> [] \<Longrightarrow> sum_list (map f r) < int (length r) * a"
  by (induction r) (auto simp: algebra_simps, (case_tac "r = []", auto)+)

lemma drawn_lucky:
  assumes "drawn (lucky n) r" "length r = n" "0 < n"
  shows "pf_p div 2 < gf_rep (sec r)" "sec r \<noteq> 0"
proof -
  let ?s = "sum_list (map getVal r)"
  have el: "pf_p < 2 * int n * getVal x \<and> int n * getVal x < pf_p" if "x \<in> set r" for x
    using assms(1) that by (auto simp: drawn_def lucky_def)
  have "int n * pf_p < sum_list (map (\<lambda>x. 2 * int n * getVal x) r)"
    "sum_list (map (\<lambda>x. int n * getVal x) r) < int n * pf_p"
    using sum_list_strict [of r] el assms(2,3) by (metis length_greater_0_conv)+
  then have "int n * pf_p < int n * (2 * ?s)" "int n * ?s < int n * pf_p"
    by (simp_all add: sum_list_const_mult mult.assoc mult.left_commute)
  then have s: "pf_p < 2 * ?s" "?s < pf_p"
    using assms(3) by (simp_all add: mult_less_cancel_left)
  have "sec r = of_int ?s"
    by (induction r) (auto simp: sec_def gf_def)
  moreover have "?s mod pf_p = ?s"
    using s by (intro mod_pos_pos_trivial) auto
  ultimately have "gf_rep (sec r) = ?s"
    by (simp add: gf_rep_of_int)
  with s show "pf_p div 2 < gf_rep (sec r)" "sec r \<noteq> 0"
    by (auto simp: pf_p_def)
qed

lemma bits_value_zero: "\<forall>r \<in> set rs. sec r = 0 \<Longrightarrow> bits_value rs = 0"
  by (induction rs rule: rev_induct) (auto simp: bits_value_snoc getVal_recons, simp add: bits_value_def)

definition lucky_inv :: "nat \<Rightarrow> nat \<Rightarrow> nat \<Rightarrow> nat \<Rightarrow> bool \<Rightarrow> world \<Rightarrow> bool" where
  "lucky_inv T J n sp b w \<longleftrightarrow> wf_world (lucky n) T J n sp w \<and> w_ok w \<and> b"

lemma wpS_subRBS_lucky:
  assumes "wf_world (lucky n) T J n sp w"
    and post: "\<And>z w'. wf_world (lucky n) T J n sp w' \<Longrightarrow> w_ok w' = w_ok w \<Longrightarrow> length z = n \<Longrightarrow>
      sec z = 0 \<or> sec z = 1 \<Longrightarrow> sec z = 0 \<Longrightarrow> Q z w'"
  shows "wpS E Q (subRBS (Suc fuel)) w"
proof -
  have n: "0 < n" using assms(1) by (simp add: wf_world_def)
  show ?thesis
    by (rule wpS_subRBS_round [OF assms(1)]) (use drawn_lucky [OF _ _ n] in \<open>auto intro: post\<close>)
qed

interpretation lucky_gates: pf_gates "lucky_inv T J n sp" "\<lambda>_. False" n sp
  for T J n sp
proof (unfold_locales, goal_cases)
  case 1
  then show ?case by (auto simp: lucky_inv_def)
next
  case 2
  then show ?case by (auto simp: lucky_inv_def wf_world_def n_parties_def)
next
  case (3 b w x y Q)
  then show ?case
    by (intro wpS_pf_share_mult [of "lucky n" T J n sp]) (auto simp: lucky_inv_def)
next
  case (4 b w k xs ys Q)
  then show ?case
    by (intro wpS_pf_vec_mult [of "lucky n" T J n sp]) (auto simp: lucky_inv_def shares_n_def)
next
  case (5 b w Q)
  then have "0 < n" by (simp add: lucky_inv_def wf_world_def)
  then show ?case
    by (intro wpS_fanInMasks [of "lucky n" T J n sp])
      (use 5 drawn_lucky in \<open>auto simp: lucky_inv_def\<close>)
next
  case (6 b w Q)
  show ?case
    unfolding subRNS_def [symmetric]
    by (rule wpS_subRNS [of "lucky n" T J n sp]) (use 6 in \<open>auto simp: lucky_inv_def\<close>)
next
  case (7 b w v Q)
  show ?case
    by (rule wpS_pf_sharize [of "lucky n" T J n sp]) (use 7 in \<open>auto simp: lucky_inv_def\<close>)
qed

interpretation lucky: pf_protocol "lucky_inv T J n sp" "\<lambda>_. False" n sp "Suc fuel"
  for T J n sp fuel
proof unfold_locales
  fix b w Q
  assume *: "lucky_inv T J n sp b w" "\<And>rs w'. lucky_inv T J n sp (b \<and> isbits rs \<and> bits_value rs < pf_p) w' \<Longrightarrow>
    shares_n n pf_l rs \<Longrightarrow> Q rs w'"
  show "wpS (\<lambda>_. False) Q (subRBVS (Suc fuel)) w"
    by (rule wpS_subRBVS [of "lucky n" T J n sp _ "\<lambda>z. sec z = 0"])
      (use * bits_value_zero in \<open>auto simp: lucky_inv_def intro: wpS_subRBS_lucky\<close>)
qed

subsection \<open>A concrete world of lucky numbers\<close>

definition lucky_rng :: rng where
  "lucky_rng = \<lparr>n_hold = 1000, rands = [], gen = zero_csprng\<lparr>rnd_bytes := (\<lambda>_ n. replicate n 0x60)\<rparr>\<rparr>"

definition lucky_world :: world where
  "lucky_world = demo_world\<lparr>w_rngs := [lucky_rng, lucky_rng]\<rparr>"

lemma lucky_number: "lucky 2 (of_nat (be_value (replicate 8 0x60)))"
proof -
  have "replicate 8 x = [x, x, x, x, x, x, x, x]" for x :: "8 word"
    by (simp add: eval_nat_numeral)
  then have "be_value (replicate 8 0x60) = 6944656592455360608"
    by (simp add: be_value_def)
  then have "uint (of_nat (be_value (replicate 8 0x60)) :: 64 word) = 6944656592455360608"
    by simp
  then show ?thesis
    by (simp add: lucky_def pf_p_def rand_max_def)
qed

lemma wf_lucky_world: "wf_world (lucky 2) 100000 1 2 0 lucky_world" "w_ok lucky_world"
proof -
  have "tape (lucky 2) lucky_rng"
    using lucky_number
    by (auto simp: tape_def lucky_rng_def sodium_ok_def zero_csprng_def block_def dest!: chunk8_replicate)
  then show "wf_world (lucky 2) 100000 1 2 0 lucky_world"
    using wf_demo_world by (simp add: wf_world_def lucky_world_def)
qed (simp add: lucky_world_def demo_world_def)

subsection \<open>Properties\<close>

lemma bit_val: "(getVal (recons x) = 0 \<longleftrightarrow> sec x = 0) \<and> (getVal (recons x) = 1 \<longleftrightarrow> sec x = 1)"
  by (metis getVal_recons gf_rep_0 gf_rep_1 of_int_gf_rep)

text \<open>
  Random bits: \<open>subRBVS\<close> either is still drawing (its fuel is used up) or returns 64 shares, each
  of 0 or 1, through the square root and the inverse of an opened square. For random numbers of the
  range \<open>lucky\<close> one round per bit suffices.
\<close>

theorem subRBVS_correct:
  assumes "wf_world P T J n sp w"
  shows "(case subRBVS fuel w of
      Inl e \<Rightarrow> e = OutOfFuel
    | Inr (rs, w') \<Rightarrow> wf_world P T J n sp w' \<and> length rs = 64 \<and>
        (\<forall>r \<in> set rs. length r = n \<and> (getVal (recons r) = 0 \<or> getVal (recons r) = 1))) \<and>
    (P = lucky n \<and> 0 < fuel \<longrightarrow> (\<exists>rs w'. subRBVS fuel w = Inr (rs, w')))"
proof (intro conjI impI)
  have "wpS (\<lambda>e. e = OutOfFuel) (\<lambda>rs w'. wf_world P T J n sp w' \<and> length rs = 64 \<and>
        (\<forall>r \<in> set rs. length r = n \<and> (getVal (recons r) = 0 \<or> getVal (recons r) = 1))) (subRBVS fuel) w"
    by (rule wpS_subRBVS [of P T J n sp _ "\<lambda>_. True"])
      (use assms in \<open>auto simp: bit_val shares_n_def isbits_def pf_l_def intro: wpS_subRBS\<close>)
  then show "case subRBVS fuel w of Inl e \<Rightarrow> e = OutOfFuel
    | Inr (rs, w') \<Rightarrow> wf_world P T J n sp w' \<and> length rs = 64 \<and>
        (\<forall>r \<in> set rs. length r = n \<and> (getVal (recons r) = 0 \<or> getVal (recons r) = 1))"
    by (simp add: wpS_def wpE_def)
next
  assume P: "P = lucky n \<and> 0 < fuel"
  then obtain k where k: "fuel = Suc k" by (cases fuel) auto
  have "wpS (\<lambda>_. False) (\<lambda>_ _. True) (subRBVS (Suc k)) w"
    by (rule wpS_subRBVS [of "lucky n" T J n sp _ "\<lambda>_. True"])
      (use assms P in \<open>auto intro: wpS_subRBS_lucky\<close>)
  then show "\<exists>rs w'. subRBVS fuel w = Inr (rs, w')"
    by (simp add: wpS_total k)
qed

theorem subRBVS_correct_witness:
  "\<exists>rs w'. subRBVS 1 lucky_world = Inr (rs, w') \<and> length rs = 64"
  using subRBVS_correct [OF wf_lucky_world(1), of 1] by auto

text \<open>
  C28. The unbounded fan-in gates always return, and unless a mask they drew was 0 the opened result is the OR, respectively
  the AND, of the 64 input bits: whether some bit is set, whether all are. With random numbers of the range
  \<open>lucky\<close> no mask is 0.
\<close>

theorem fanIn_correct:
  assumes "wf_world P T J n sp w" "shares_n n 64 a" "isbits a"
  shows "(\<exists>z w'. subUnboundedFanInOr a w = Inr (z, w') \<and> wf_world P T J n sp w' \<and>
      (w_ok w' \<longrightarrow> getVal (recons z) = (if \<exists>x \<in> set a. sec x = 1 then 1 else 0)) \<and>
      (P = lucky n \<and> w_ok w \<longrightarrow> w_ok w')) \<and>
    (\<exists>z w'. subUnboundedFanInAnd a w = Inr (z, w') \<and> wf_world P T J n sp w' \<and>
      (w_ok w' \<longrightarrow> getVal (recons z) = (if \<forall>x \<in> set a. sec x = 1 then 1 else 0)) \<and>
      (P = lucky n \<and> w_ok w \<longrightarrow> w_ok w'))"
proof -
  have a: "shares_n n pf_l a" using assms(2) by (simp add: pf_l_def)
  have w: "any_inv P T J n sp True w" using assms(1) by (simp add: any_inv_def)
  have l: "lucky_inv T J n sp True w" if "P = lucky n \<and> w_ok w" using assms(1) that by (simp add: lucky_inv_def)
  have "wpS (\<lambda>_. False) (\<lambda>z w'. wf_world P T J n sp w' \<and>
      (w_ok w' \<longrightarrow> getVal (recons z) = (if \<exists>x \<in> set a. sec x = 1 then 1 else 0))) (subUnboundedFanInOr a) w"
    by (rule gates.fan_in_or [OF w a]) (use assms(3) bit_val in \<open>auto simp: any_inv_def\<close>)
  moreover have "P = lucky n \<and> w_ok w \<Longrightarrow> wpS (\<lambda>_. False) (\<lambda>z w'. w_ok w') (subUnboundedFanInOr a) w"
    by (rule lucky_gates.fan_in_or [OF l a]) (use assms(3) in \<open>auto simp: lucky_inv_def\<close>)
  moreover have "wpS (\<lambda>_. False) (\<lambda>z w'. wf_world P T J n sp w' \<and>
      (w_ok w' \<longrightarrow> getVal (recons z) = (if \<forall>x \<in> set a. sec x = 1 then 1 else 0))) (subUnboundedFanInAnd a) w"
    by (rule gates.fan_in_and [OF w a]) (use assms(3) bit_val in \<open>auto simp: any_inv_def\<close>)
  moreover have "P = lucky n \<and> w_ok w \<Longrightarrow> wpS (\<lambda>_. False) (\<lambda>z w'. w_ok w') (subUnboundedFanInAnd a) w"
    by (rule lucky_gates.fan_in_and [OF l a]) (use assms(3) in \<open>auto simp: lucky_inv_def\<close>)
  ultimately show ?thesis
    unfolding wpS_total by fastforce
qed

theorem fanIn_correct_witness:
  "\<exists>z w'. subUnboundedFanInOr ([PF 3, PF (pf_p - 2)] # replicate 63 [PF 0, PF 0]) lucky_world = Inr (z, w') \<and>
     getVal (recons z) = 1"
proof -
  have 1: "sec [PF 3, PF (pf_p - 2)] = 1" "sec [PF 0, PF 0] = 0"
    by (simp_all add: sec_def gf_PF)
  have "shares_n 2 64 ([PF 3, PF (pf_p - 2)] # replicate 63 [PF 0, PF 0])"
    "isbits ([PF 3, PF (pf_p - 2)] # replicate 63 [PF 0, PF 0])"
    using 1 by (auto simp: shares_n_def isbits_def)
  from fanIn_correct [OF wf_lucky_world(1) this] show ?thesis
    using 1 wf_lucky_world(2) by fastforce
qed

end
