(* ===== verification/Compare.thy ===== *)
theory Compare
  imports Bits
begin

section \<open>Comparison of shared field elements\<close>

text \<open>
  The remaining protocols of \<open>Share/Compare.cpp\<close> on shares of field elements: the prefix-OR of 64 bits,
  the comparison of two bit-shared numbers, the test \<open>a < p / 2\<close>, and the three main protocols
  \<open>intervalTest\<close>, \<open>comparisonTest\<close> and \<open>equalityTest\<close>. Bit vectors hold the most significant bit
  first. Each protocol is verified in the locales of \<open>Bits\<close>; the properties at the end read the
  results through the two interpretations.
\<close>

definition pf_lambda :: nat where "pf_lambda = 8"

definition subPadding0 :: "nat \<Rightarrow> pf list list \<Rightarrow> nat \<Rightarrow> pf list list res" where
  "subPadding0 n a_shares start_index =
     (if length a_shares < min start_index pf_l then Inl UndefinedBehaviour
      else Inr (map (\<lambda>i. if i < min start_index pf_l then a_shares ! i else replicate n 0) [0..<pf_l]))"

definition orOfPadding :: "nat \<Rightarrow> pf list list \<Rightarrow> nat \<Rightarrow> (world, pf list) comp" where
  "orOfPadding n xs i = bindS (liftS (subPadding0 n xs (i + 1))) subUnboundedFanInOr"

definition differences :: "nat \<Rightarrow> pf list \<Rightarrow> pf list list \<Rightarrow> pf list list" where
  "differences k first ys =
     map (\<lambda>i. if i = 0 then first else share_sub (ys ! i) (ys ! (i - 1))) [0..<k]"

definition subPrefixOr :: "pf list list \<Rightarrow> (world, pf list list) comp" where
  "subPrefixOr a_shares = withW (\<lambda>w.
     if length a_shares < pf_l then raiseS UndefinedBehaviour
     else
       let n = n_parties w in
       bindS (mapS (\<lambda>i. subUnboundedFanInOr
                (take pf_lambda (drop (i * pf_lambda) a_shares) @ replicate (pf_l - pf_lambda) (replicate n 0)))
              [0..<pf_lambda]) (\<lambda>x_shares.
       bindS (mapS (orOfPadding n x_shares) [0..<pf_lambda]) (\<lambda>y_shares.
       let f_shares = differences pf_lambda (x_shares ! 0) y_shares in
       bindS (mapS (\<lambda>j.
                bindS (mapS (\<lambda>i. pf_share_mult (f_shares ! i) (a_shares ! (pf_lambda * i + j))) [0..<pf_lambda]) (\<lambda>ps.
                retS (foldl share_add (replicate n 0) ps))) [0..<pf_lambda]) (\<lambda>ai0_shares.
       bindS (mapS (orOfPadding n ai0_shares) [0..<pf_lambda]) (\<lambda>bi0_shares.
       let s_shares = map (\<lambda>i. share_sub (y_shares ! i) (f_shares ! i)) [0..<pf_lambda] in
       mapS (\<lambda>k. bindS (pf_share_mult (f_shares ! (k div pf_lambda)) (bi0_shares ! (k mod pf_lambda))) (\<lambda>p.
              retS (share_add p (s_shares ! (k div pf_lambda))))) [0..<pf_l])))))"

definition subBitwiseLessThan :: "pf list list \<Rightarrow> pf list list \<Rightarrow> (world, pf list) comp" where
  "subBitwiseLessThan a_shares b_shares = withW (\<lambda>w.
     bindS (pf_vec_mult a_shares b_shares) (\<lambda>ab_shares.
     bindS (if length a_shares < pf_l then raiseS UndefinedBehaviour
            else retS (map (\<lambda>i. share_sub (share_add (a_shares ! i) (b_shares ! i)) (share_scale (PF 2) (ab_shares ! i)))
                         [0..<pf_l])) (\<lambda>c_shares.
     bindS (subPrefixOr c_shares) (\<lambda>d_shares.
     let e_shares = differences pf_l (d_shares ! 0) d_shares in
     bindS (pf_vec_mult e_shares b_shares) (\<lambda>eb.
     retS (foldl (\<lambda>ret i. share_add ret (eb ! i)) (replicate (n_parties w) 0) [0..<pf_l]))))))"

definition subHalfLessThan :: "nat \<Rightarrow> pf list \<Rightarrow> (world, pf list) comp" where
  "subHalfLessThan fuel a_share = withW (\<lambda>w.
     let n = n_parties w; sp = w_sp w in
     bindS (subRBVS fuel) (\<lambda>r_shares.
     let c = recons (share_add (share_scale (PF 2) a_share) (BStoSC n r_shares)); r0 = r_shares ! (pf_l - 1) in
     bindS (PFtoBS c) (\<lambda>c_shares.
     bindS (subBitwiseLessThan c_shares r_shares) (\<lambda>cr.
     bindS (if getVal c mod 2 = 0
            then bindS (pf_share_mult cr (share_csub sp 1 r0)) (\<lambda>u.
                 bindS (pf_share_mult (share_csub sp 1 cr) r0) (\<lambda>v. retS (share_add u v)))
            else bindS (pf_share_mult cr r0) (\<lambda>u.
                 bindS (pf_share_mult (share_csub sp 1 cr) (share_csub sp 1 r0)) (\<lambda>v. retS (share_add u v)))) (\<lambda>ret.
     retS (share_csub sp 1 ret))))))"

definition intervalBounds :: "pf \<Rightarrow> pf \<Rightarrow> pf \<Rightarrow> (pf \<times> pf) res" where
  "intervalBounds c1 c c2 =
     bindE (pf_make pf_p) (\<lambda>pp.
       if c1 < c \<and> c < c2 then Inr (c - c1 - 1, c + pp - c2 + 1)
       else if c2 \<le> c then Inr (c - c2, c - c1)
       else if c \<le> c1 then Inr (c + pp - c2, c + pp - c1)
       else Inr (0, 0))"

definition intervalDecide :: "pf \<Rightarrow> pf \<Rightarrow> pf \<Rightarrow> pf list list \<Rightarrow> (world, pf list) comp" where
  "intervalDecide c1 c c2 r_shares = withW (\<lambda>w.
     bindS (liftS (intervalBounds c1 c c2)) (\<lambda>(r_low, r_high).
     bindS (PFtoBS r_low) (\<lambda>r_lows.
     bindS (PFtoBS r_high) (\<lambda>r_highs.
     bindS (subBitwiseLessThan r_lows r_shares) (\<lambda>u.
     bindS (subBitwiseLessThan r_shares r_highs) (\<lambda>v.
     bindS (pf_share_mult u v) (\<lambda>uv.
     retS (if c1 < c \<and> c < c2 then share_csub (w_sp w) 1 uv else uv))))))))"

definition intervalTest :: "nat \<Rightarrow> pf \<Rightarrow> pf list \<Rightarrow> pf \<Rightarrow> (world, pf list) comp" where
  "intervalTest fuel c1 a_share c2 = withW (\<lambda>w.
     bindS (subRBVS fuel) (\<lambda>r_shares.
     let c = recons (share_add a_share (BStoSC (n_parties w) r_shares))
     in intervalDecide c1 c c2 r_shares))"

definition comparisonTest :: "nat \<Rightarrow> pf list \<Rightarrow> pf list \<Rightarrow> (world, pf list) comp" where
  "comparisonTest fuel a_share b_share = withW (\<lambda>w0.
     bindS (subHalfLessThan fuel a_share) (\<lambda>w.
     bindS (subHalfLessThan fuel b_share) (\<lambda>x.
     bindS (subHalfLessThan fuel (share_sub a_share b_share)) (\<lambda>y.
     bindS (pf_share_mult x y) (\<lambda>xy.
     bindS (pf_share_mult w (share_sub (share_add x y) (share_scale (PF 2) xy))) (\<lambda>u.
     retS (share_add (share_sub (share_sub (share_addc (w_sp w0) u 1) y) x) xy)))))))"

definition equalityTest :: "nat \<Rightarrow> pf list \<Rightarrow> pf list \<Rightarrow> (world, pf list) comp" where
  "equalityTest fuel a_share b_share = withW (\<lambda>w.
     bindS (subRBVS fuel) (\<lambda>r_shares.
     let x = getVal (recons (share_add (share_sub a_share b_share) (BStoSC (n_parties w) r_shares)));
         c_dash_shares = map (\<lambda>i. if x div 2 ^ (pf_l - 1 - i) mod 2 = 1 then r_shares ! i
                                   else share_csub (w_sp w) 1 (r_shares ! i)) [0..<pf_l]
     in subUnboundedFanInAnd c_dash_shares))"

subsection \<open>The prefix-OR in blocks\<close>

text \<open>The Boolean content of the steps of \<open>subPrefixOr\<close>, for a predicate on the 64 positions.\<close>

definition blockOr :: "(nat \<Rightarrow> bool) \<Rightarrow> nat \<Rightarrow> bool" where
  "blockOr A i \<longleftrightarrow> (\<exists>j < 8. A (8 * i + j))"

definition blockPre :: "(nat \<Rightarrow> bool) \<Rightarrow> nat \<Rightarrow> bool" where
  "blockPre A i \<longleftrightarrow> (\<exists>i' \<le> i. blockOr A i')"

definition blockFirst :: "(nat \<Rightarrow> bool) \<Rightarrow> nat \<Rightarrow> bool" where
  "blockFirst A i \<longleftrightarrow> blockPre A i \<and> (i = 0 \<or> \<not> blockPre A (i - 1))"

definition firstBits :: "(nat \<Rightarrow> bool) \<Rightarrow> nat \<Rightarrow> bool" where
  "firstBits A j \<longleftrightarrow> (\<exists>i < 8. blockFirst A i \<and> A (8 * i + j))"

lemma blockPre_mono: "blockPre A i \<Longrightarrow> i \<le> k \<Longrightarrow> blockPre A k"
  unfolding blockPre_def by (meson order_trans)

lemma first_unique:
  fixes i k :: nat
  assumes mono: "\<And>i j. i \<le> j \<Longrightarrow> D i \<Longrightarrow> D j"
    and "D i \<and> (i = 0 \<or> \<not> D (i - 1))" "D k \<and> (k = 0 \<or> \<not> D (k - 1))"
  shows "i = k"
proof (rule ccontr)
  assume "i \<noteq> k"
  then consider "i \<le> k - 1" "k \<noteq> 0" | "k \<le> i - 1" "i \<noteq> 0" by linarith
  then show False
    using assms(2,3) mono [of i "k - 1"] mono [of k "i - 1"] by cases auto
qed

lemma blockFirst_unique: "blockFirst A i \<Longrightarrow> blockFirst A k \<Longrightarrow> i = k"
  unfolding blockFirst_def using blockPre_mono by (rule first_unique [of "blockPre A"])

lemma prefix_or_blocks:
  assumes "k < 64"
  shows "(blockFirst A (k div 8) \<and> (\<exists>j \<le> k mod 8. firstBits A j)) \<or> (blockPre A (k div 8) \<and> \<not> blockFirst A (k div 8))
    \<longleftrightarrow> (\<exists>m \<le> k. A m)" (is "?L \<longleftrightarrow> ?R")
proof
  assume ?L
  then consider j i where "j \<le> k mod 8" "blockFirst A i" "blockFirst A (k div 8)" "A (8 * i + j)"
    | "blockPre A (k div 8 - 1)" "0 < k div 8"
    by (auto simp: firstBits_def blockFirst_def)
  then show ?R
  proof cases
    case 1
    then have "A (8 * (k div 8) + j)" using blockFirst_unique by metis
    moreover have "8 * (k div 8) + j \<le> k" using 1(1) div_mult_mod_eq [of k 8] by linarith
    ultimately show ?thesis by blast
  next
    case 2
    then obtain i j where ij: "i \<le> k div 8 - 1" "j < 8" "A (8 * i + j)"
      by (auto simp: blockPre_def blockOr_def)
    moreover have "8 * i + j \<le> k" using ij(1,2) 2(2) div_mult_mod_eq [of k 8] by linarith
    ultimately show ?thesis by blast
  qed
next
  assume ?R
  then obtain m where m: "m \<le> k" "A m" by blast
  have Am: "A (8 * (m div 8) + m mod 8)" using m by simp
  then have or: "blockOr A (m div 8)" unfolding blockOr_def by (metis mod_less_divisor zero_less_numeral)
  moreover have "m div 8 \<le> k div 8" using m by (simp add: div_le_mono)
  ultimately have pre: "blockPre A (k div 8)" unfolding blockPre_def by blast
  show ?L
  proof (cases "blockFirst A (k div 8)")
    case True
    have "m div 8 = k div 8"
    proof (rule ccontr)
      assume "m div 8 \<noteq> k div 8"
      then have "m div 8 \<le> k div 8 - 1" "0 < k div 8" using \<open>m div 8 \<le> k div 8\<close> by auto
      with or True show False unfolding blockFirst_def blockPre_def by auto
    qed
    moreover from this have "m mod 8 \<le> k mod 8" using m by (metis div_mult_mod_eq nat_add_left_cancel_le)
    moreover have "k div 8 < 8" using assms by simp
    ultimately show ?thesis
      using True Am unfolding firstBits_def by metis
  qed (use pre in simp)
qed

subsection \<open>Comparing bit vectors\<close>

text \<open>The value of a bit vector, most significant bit first, and its order: the first difference decides.\<close>

definition bv :: "bool list \<Rightarrow> int" where
  "bv bs = foldl (\<lambda>acc b. 2 * acc + of_bool b) 0 bs"

lemma bv_foldl: "foldl (\<lambda>acc b. 2 * acc + of_bool b) a bs = a * 2 ^ length bs + bv bs"
proof (induction bs arbitrary: a)
  case (Cons b bs)
  show ?case
    using Cons [of "2 * a + of_bool b"] Cons [of "of_bool b"] by (simp add: bv_def algebra_simps)
qed (simp add: bv_def)

lemma bv_Cons: "bv (b # bs) = of_bool b * 2 ^ length bs + bv bs"
  using bv_foldl [of "of_bool b" bs] by (simp add: bv_def)

lemma bv_bounds: "0 \<le> bv bs \<and> bv bs < 2 ^ length bs"
  by (induction bs) (auto simp: bv_def [of "[]"] bv_Cons)

lemma bv_less:
  "length as = length bs \<Longrightarrow>
   bv as < bv bs \<longleftrightarrow> (\<exists>i < length bs. (\<forall>j < i. as ! j = bs ! j) \<and> \<not> as ! i \<and> bs ! i)"
proof (induction as bs rule: list_induct2)
  case (Cons a as b bs)
  show ?case
    unfolding length_Cons Ex_less_Suc2
    using Cons bv_bounds [of as] bv_bounds [of bs]
    by (auto simp: bv_Cons All_less_Suc2)
qed (simp add: bv_def)

lemma bits_value_bv: "isbits xs \<Longrightarrow> bits_value xs = bv (map (\<lambda>x. sec x = 1) xs)"
proof (induction xs rule: rev_induct)
  case (snoc x xs)
  then have "getVal (recons x) = of_bool (sec x = 1)"
    by (auto simp: isbits_def getVal_recons)
  with snoc show ?case
    by (simp add: bits_value_snoc isbits_def bv_def)
qed (simp add: bits_value_def bv_def)

lemma bits_value_bounds: "isbits xs \<Longrightarrow> 0 \<le> bits_value xs \<and> bits_value xs < 2 ^ length xs"
  using bv_bounds [of "map (\<lambda>x. sec x = 1) xs"] by (simp add: bits_value_bv)

lemma first_difference:
  assumes "length as = 64" "length bs = 64" "\<And>m. m < 64 \<Longrightarrow> as ! m = A m" "\<And>m. m < 64 \<Longrightarrow> bs ! m = B m"
  shows "bv as < bv bs \<longleftrightarrow>
    (\<exists>i < 64. ((\<exists>m \<le> i. A m \<noteq> B m) \<and> (i = 0 \<or> \<not> (\<exists>m \<le> i - 1. A m \<noteq> B m))) \<and> B i)"
proof -
  have "(\<forall>j < i. as ! j = bs ! j) \<and> \<not> as ! i \<and> bs ! i \<longleftrightarrow> (\<forall>j < i. A j = B j) \<and> \<not> A i \<and> B i" if "i < 64" for i
  proof -
    have "j < 64" if "j \<le> i" for j
      using that \<open>i < 64\<close> by simp
    note eq = assms(3) [OF this] assms(4) [OF this]
    have "(\<forall>j < i. as ! j = bs ! j) \<longleftrightarrow> (\<forall>j < i. A j = B j)"
      by (intro all_cong) (simp only: eq less_imp_le)
    then show ?thesis
      by (simp only: eq [OF order_refl])
  qed
  moreover have "(\<forall>j < i. A j = B j) \<and> \<not> A i \<and> B i \<longleftrightarrow>
    ((\<exists>m \<le> i. A m \<noteq> B m) \<and> (i = 0 \<or> \<not> (\<exists>m \<le> i - 1. A m \<noteq> B m))) \<and> B i" for i
  proof (cases i)
    case (Suc k)
    then show ?thesis by (auto simp: less_Suc_eq_le le_Suc_eq)
  qed auto
  ultimately have key: "(\<forall>j < i. as ! j = bs ! j) \<and> \<not> as ! i \<and> bs ! i \<longleftrightarrow>
    ((\<exists>m \<le> i. A m \<noteq> B m) \<and> (i = 0 \<or> \<not> (\<exists>m \<le> i - 1. A m \<noteq> B m))) \<and> B i" if "i < 64" for i
    using that by simp
  show ?thesis
    unfolding bv_less [OF assms(1) [folded assms(2)]] assms(2)
    by (rule ex_cong1, rule conj_cong [OF refl], rule key)
qed

subsection \<open>Arithmetic of the masked openings\<close>

lemma odd_pf_p: "odd pf_p"
  by (simp add: pf_p_def)

text \<open>\<open>subHalfLessThan\<close>: \<open>2 a\<close> is reduced modulo the odd \<open>p\<close> iff its residue is odd, and the parity of the
  masked value shows the wrap-around of the mask.\<close>

lemma half_parity:
  assumes "0 \<le> a" "a < pf_p" "0 \<le> r" "r < pf_p" "c = (2 * a + r) mod pf_p"
  shows "2 * a < pf_p \<longleftrightarrow> ((odd c \<noteq> odd r) \<longleftrightarrow> c < r)"
proof -
  define q where "q = (2 * a + r) div pf_p"
  have c: "c = 2 * a + r - q * pf_p"
    using assms(5) by (simp add: q_def minus_div_mult_eq_mod)
  have "0 \<le> c" "c < pf_p" using assms(5) by simp_all
  then have "- pf_p < q * pf_p" "q * pf_p < 3 * pf_p"
    using c assms(1-4) by linarith+
  then have "- 1 < q" "q < 3"
    using mult_less_cancel_right_pos [of pf_p "- 1" q] mult_less_cancel_right_pos [of pf_p q 3] by simp_all
  then consider "q = 0" | "q = 1" | "q = 2" by linarith
  then show ?thesis
  proof cases
    case 2
    have "2 * a \<noteq> pf_p" using odd_pf_p by (metis dvd_triv_left)
    with 2 c odd_pf_p show ?thesis by auto
  qed (use c assms odd_pf_p \<open>c < pf_p\<close> \<open>0 \<le> c\<close> in auto)
qed

lemma comparison_cases:
  assumes "0 \<le> a" "a < pf_p" "0 \<le> b" "b < pf_p"
    "w \<longleftrightarrow> 2 * a < pf_p" "x \<longleftrightarrow> 2 * b < pf_p" "y \<longleftrightarrow> 2 * ((a - b) mod pf_p) < pf_p"
  shows "of_bool w * (of_bool x + of_bool y - 2 * (of_bool x * of_bool y)) + 1 - of_bool y - of_bool x +
    of_bool x * of_bool y = (of_bool (a < b) :: gfp)"
proof -
  have "(a - b) mod pf_p = (if a < b then a - b + pf_p else a - b)"
  proof (cases "a < b")
    case True
    have "(a - b) mod pf_p = (a - b + pf_p) mod pf_p" by simp
    also have "\<dots> = a - b + pf_p"
      using True assms(1-4) by (intro mod_pos_pos_trivial) auto
    finally show ?thesis using True by simp
  next
    case False
    then show ?thesis using assms(1-4) by simp
  qed
  with assms show ?thesis
    by (cases w; cases x; cases y; cases "a < b") auto
qed

lemma equality_mask:
  assumes "0 \<le> r" "r < pf_p"
  shows "gf_rep (x - y + of_int r) = r \<longleftrightarrow> x = y"
proof
  assume "gf_rep (x - y + of_int r) = r"
  then have "x - y + of_int r = of_int r" by (metis of_int_gf_rep)
  then show "x = y" by simp
next
  assume "x = y"
  then show "gf_rep (x - y + of_int r) = r" using assms by (simp add: gf_rep_of_int)
qed

lemma bv_snoc: "bv (bs @ [b]) = 2 * bv bs + of_bool b"
  by (simp add: bv_def)

lemma bv_append: "bv (xs @ ys) = bv xs * 2 ^ length ys + bv ys"
  unfolding bv_def [of "xs @ ys"] foldl_append by (simp add: bv_foldl flip: bv_def)

lemma bv_bit: "i < length bs \<Longrightarrow> odd (bv bs div 2 ^ (length bs - 1 - i)) = bs ! i"
proof -
  assume i: "i < length bs"
  have "bv bs = bv (take (Suc i) bs) * 2 ^ length (drop (Suc i) bs) + bv (drop (Suc i) bs)"
    using bv_append [of "take (Suc i) bs" "drop (Suc i) bs"] by simp
  moreover have "length (drop (Suc i) bs) = length bs - 1 - i" by simp
  ultimately have "bv bs div 2 ^ (length bs - 1 - i) = bv (take (Suc i) bs)"
    using bv_bounds [of "drop (Suc i) bs"] by (simp add: div_pos_pos_trivial)
  then show ?thesis
    using i by (simp add: take_Suc_conv_app_nth bv_snoc)
qed

lemma int_eq_bits:
  fixes x y :: int
  assumes "0 \<le> x" "x < 2 ^ k" "0 \<le> y" "y < 2 ^ k"
  shows "x = y \<longleftrightarrow> (\<forall>i < k. odd (x div 2 ^ i) = odd (y div 2 ^ i))"
proof
  assume bits: "\<forall>i < k. odd (x div 2 ^ i) = odd (y div 2 ^ i)"
  then have "\<forall>i < k. bit x i = bit y i"
    by (simp add: bit_iff_odd)
  then have "take_bit k x = take_bit k y"
    by (intro bit_eqI) (auto simp: bit_take_bit_iff)
  with assms show "x = y" by (simp add: take_bit_int_eq_self)
qed simp

text \<open>\<open>intervalTest\<close>: the bounds for the mask are the right ones as long as neither wraps around to 0.\<close>

definition interval_answer :: "int \<Rightarrow> pf \<Rightarrow> pf \<Rightarrow> pf \<Rightarrow> pf \<Rightarrow> pf \<Rightarrow> bool" where
  "interval_answer r c1 c c2 low high \<longleftrightarrow>
     ((getVal low < r \<and> r < getVal high) \<noteq> (c1 < c \<and> c < c2))"

definition canonical :: "pf \<Rightarrow> bool" where
  "canonical x \<longleftrightarrow> 0 \<le> getVal x \<and> getVal x < pf_p"

lemma pf_sub_val: "canonical x \<Longrightarrow> canonical y \<Longrightarrow>
    getVal (x - y) = (if getVal y \<le> getVal x then getVal x - getVal y else getVal x - getVal y + pf_p)"
proof -
  assume xy: "canonical x" "canonical y"
  define d where "d = getVal x - getVal y"
  have sum: "getVal x + (pf_p - getVal y) = d + pf_p" by (simp add: d_def)
  show ?thesis
  proof (cases "0 \<le> d")
    case True
    have "(d + pf_p) mod pf_p = d mod pf_p" by simp
    also have "\<dots> = d"
      using True xy by (intro mod_pos_pos_trivial) (auto simp: canonical_def d_def)
    finally have "getVal (x - y) = d"
      unfolding minus_pf_def pf.sel sum .
    with True show ?thesis by (simp add: d_def)
  next
    case False
    then have "(d + pf_p) mod pf_p = d + pf_p"
      using xy by (intro mod_pos_pos_trivial) (auto simp: canonical_def d_def)
    then have "getVal (x - y) = d + pf_p"
      unfolding minus_pf_def pf.sel sum .
    with False show ?thesis by (simp add: d_def)
  qed
qed

lemma canonical_ops [simp]: "canonical (x - y)" "canonical (x + y)" "canonical 0" "canonical 1"
  by (simp_all add: canonical_def minus_pf_def plus_pf_def zero_pf_def one_pf_def)

subsection \<open>Loops of gates\<close>

lemma wpS_mapS_Cons:
  "wpS E Q (mapS f (x # xs)) s = wpS E (\<lambda>y. wpS E (\<lambda>ys. Q (y # ys)) (mapS f xs)) (f x) s"
  by (simp add: wpS_def case_prod_unfold)

lemma wpS_mapS_Nil [simp]: "wpS E Q (mapS f []) s = Q [] s"
  by (simp add: wpS_def)

lemma sum_unique:
  fixes F :: "nat \<Rightarrow> bool"
  assumes "\<And>i k. F i \<Longrightarrow> F k \<Longrightarrow> i = k"
  shows "(\<Sum>i < m. of_bool (F i) * of_bool (G i)) = (of_bool (\<exists>i < m. F i \<and> G i) :: gfp)"
proof (induction m)
  case (Suc m)
  have "\<not> (F i \<and> F m)" if "i < m" for i
    using assms that by blast
  with Suc show ?case by (auto simp: less_Suc_eq)
qed simp

lemma sec_foldl_add:
  assumes "shares_n n k ps"
  shows "length (foldl share_add (replicate n 0) ps) = n"
    "sec (foldl share_add (replicate n 0) ps) = (\<Sum>i < k. sec (ps ! i))"
proof -
  have ps: "map (\<lambda>i. ps ! i) [0..<k] = ps"
    using assms by (intro nth_equalityI) (auto simp: shares_n_def)
  have "foldl share_add (replicate n 0) ps = foldl (\<lambda>a i. share_add a (ps ! i)) (replicate n 0) [0..<k]"
    by (subst ps [symmetric]) (simp add: foldl_map)
  moreover have "\<And>i. i \<in> set [0..<k] \<Longrightarrow> length (ps ! i) = n"
    using assms by (auto intro: shares_n_nth)
  ultimately show "length (foldl share_add (replicate n 0) ps) = n"
    "sec (foldl share_add (replicate n 0) ps) = (\<Sum>i < k. sec (ps ! i))"
    using foldl_share_add [of "replicate n 0" n "[0..<k]" "\<lambda>i. ps ! i"]
    by (simp_all add: interv_sum_list_conv_sum_set_nat atLeast0LessThan)
qed

context pf_gates
begin

lemma loop_rule:
  assumes step: "\<And>x b w Q. x \<in> set xs \<Longrightarrow> I b w \<Longrightarrow> (b \<Longrightarrow> B) \<Longrightarrow>
      (\<And>y w'. I (b \<and> R x y) w' \<Longrightarrow> length y = n \<Longrightarrow> Q y w') \<Longrightarrow> wpS E Q (f x) w"
    and "I b w" "b \<Longrightarrow> B"
    and post: "\<And>ys w'. I (b \<and> list_all2 R xs ys) w' \<Longrightarrow> shares_n n (length xs) ys \<Longrightarrow> Q ys w'"
  shows "wpS E Q (mapS f xs) w"
  using assms
proof (induction xs arbitrary: b w Q)
  case Nil
  from Nil.prems(2) have "I (b \<and> list_all2 R [] []) w" by (rule weaken) simp
  then show ?case
    unfolding wpS_mapS_Nil by (rule Nil.prems(4)) (simp add: shares_n_def)
next
  case (Cons x xs)
  show ?case
    unfolding wpS_mapS_Cons
  proof (rule Cons.prems(1) [OF _ Cons.prems(2)])
    fix y w1 assume y: "I (b \<and> R x y) w1" "length y = n"
    show "wpS E (\<lambda>ys. Q (y # ys)) (mapS f xs) w1"
    proof (rule Cons.IH [OF _ y(1)])
      fix ys w2 assume ys: "I ((b \<and> R x y) \<and> list_all2 R xs ys) w2" "shares_n n (length xs) ys"
      have "I (b \<and> list_all2 R (x # xs) (y # ys)) w2"
        using ys(1) by (rule weaken) simp
      then show "Q (y # ys) w2"
        by (rule Cons.prems(4)) (use ys(2) y(2) in \<open>auto simp: shares_n_def\<close>)
    qed (use Cons.prems in auto)
  qed (use Cons.prems in auto)
qed

lemma or_of_padding:
  assumes "I b w" "shares_n n 8 xs" "i < 8" "b \<Longrightarrow> isbits xs"
    and post: "\<And>z w'. I (b \<and> sec z = of_bool (\<exists>k \<le> i. sec (xs ! k) = 1)) w' \<Longrightarrow> length z = n \<Longrightarrow> Q z w'"
  shows "wpS E Q (orOfPadding n xs i) w"
proof -
  let ?p = "map (\<lambda>k. if k < Suc i then xs ! k else replicate n 0) [0..<pf_l]"
  have pad: "subPadding0 n xs (i + 1) = Inr ?p"
    using assms(2,3) by (simp add: subPadding0_def shares_n_def pf_l_def)
  have len: "shares_n n pf_l ?p"
    using assms(2,3) by (auto simp: shares_n_def)
  have bits: "isbits ?p" if "isbits xs"
    using that assms(2,3) by (auto simp: isbits_def shares_n_def)
  have ex: "(\<exists>x \<in> set ?p. sec x = 1) \<longleftrightarrow> (\<exists>k \<le> i. sec (xs ! k) = 1)"
    using assms(3) by (auto simp: pf_l_def less_Suc_eq_le intro!: bexI [of _ "_ :: nat"])
  show ?thesis
    unfolding orOfPadding_def wpS_bindS wpS_liftS pad wpE_Inr
    by (rule fan_in_or [OF assms(1) len]) (use assms(4) bits post ex in auto)
qed

lemma bits_nth: "length ys = k \<Longrightarrow> \<forall>i < k. sec (ys ! i) = of_bool (P i) \<Longrightarrow> isbits ys"
  by (auto simp: isbits_def in_set_conv_nth)

lemma prefix_or_x:
  assumes "I b w" "shares_n n 64 a" "b \<Longrightarrow> isbits a"
    and post: "\<And>xs w'. I (b \<and> (\<forall>i < 8. sec (xs ! i) = of_bool (blockOr (\<lambda>k. sec (a ! k) = 1) i))) w' \<Longrightarrow>
      shares_n n 8 xs \<Longrightarrow> Q xs w'"
  shows "wpS E Q (mapS (\<lambda>i. subUnboundedFanInOr
      (take pf_lambda (drop (i * pf_lambda) a) @ replicate (pf_l - pf_lambda) (replicate n 0))) [0..<pf_lambda]) w"
proof (rule loop_rule [where B = "isbits a" and R = "\<lambda>i y. sec y = of_bool (blockOr (\<lambda>k. sec (a ! k) = 1) i)", OF _ assms(1,3)])
  fix i b w Q
  assume i: "i \<in> set [0..<pf_lambda]" and w: "I b w" and b: "b \<Longrightarrow> isbits a"
    and Q: "\<And>y w'. I (b \<and> sec y = of_bool (blockOr (\<lambda>k. sec (a ! k) = 1) i)) w' \<Longrightarrow> length y = n \<Longrightarrow> Q y w'"
  let ?t = "take pf_lambda (drop (i * pf_lambda) a) @ replicate (pf_l - pf_lambda) (replicate n 0)"
  have t8: "take 8 (drop (i * 8) a) = map (\<lambda>j. a ! (8 * i + j)) [0..<8]"
    using i assms(2) by (intro nth_equalityI) (auto simp: shares_n_def pf_lambda_def mult.commute)
  have len: "shares_n n pf_l ?t"
    using i assms(2) unfolding pf_lambda_def t8 by (auto simp: shares_n_def pf_l_def)
  have bits: "isbits ?t" if "isbits a"
    using that i assms(2) unfolding pf_lambda_def t8 by (auto simp: shares_n_def isbits_def)
  have "(\<exists>x \<in> set ?t. sec x = 1) \<longleftrightarrow> blockOr (\<lambda>k. sec (a ! k) = 1) i"
    unfolding pf_lambda_def t8 blockOr_def by auto
  then show "wpS E Q (subUnboundedFanInOr ?t) w"
    by (intro fan_in_or [OF w len]) (use b bits Q in auto)
next
  fix ys w'
  assume "I (b \<and> list_all2 (\<lambda>i y. sec y = of_bool (blockOr (\<lambda>k. sec (a ! k) = 1) i)) [0..<pf_lambda] ys) w'"
    "shares_n n (length [0..<pf_lambda]) ys"
  then show "Q ys w'"
    by (intro post) (auto simp: pf_lambda_def list_all2_conv_all_nth elim!: weaken)
qed

lemma prefix_or_y:
  assumes "I b w" "shares_n n 8 xs" "b \<Longrightarrow> \<forall>i < 8. sec (xs ! i) = of_bool (X i)"
    and post: "\<And>ys w'. I (b \<and> (\<forall>i < 8. sec (ys ! i) = of_bool (\<exists>k \<le> i. X k))) w' \<Longrightarrow> shares_n n 8 ys \<Longrightarrow> Q ys w'"
  shows "wpS E Q (mapS (orOfPadding n xs) [0..<pf_lambda]) w"
proof (rule loop_rule [where B = "\<forall>i < 8. sec (xs ! i) = of_bool (X i)" and
      R = "\<lambda>i y. sec y = of_bool (\<exists>k \<le> i. X k)", OF _ assms(1,3)])
  fix i b w Q
  assume i: "i \<in> set [0..<pf_lambda]" and w: "I b w" and b: "b \<Longrightarrow> \<forall>i < 8. sec (xs ! i) = of_bool (X i)"
    and Q: "\<And>y w'. I (b \<and> sec y = of_bool (\<exists>k \<le> i. X k)) w' \<Longrightarrow> length y = n \<Longrightarrow> Q y w'"
  have i8: "i < 8" using i by (simp add: pf_lambda_def)
  show "wpS E Q (orOfPadding n xs i) w"
  proof (rule or_of_padding [OF w assms(2) i8])
    show "isbits xs" if b using b [OF that] assms(2) by (intro bits_nth [of _ 8]) (auto simp: shares_n_def)
    fix z w' assume z: "I (b \<and> sec z = of_bool (\<exists>k \<le> i. sec (xs ! k) = 1)) w'" "length z = n"
    have "I (b \<and> sec z = of_bool (\<exists>k \<le> i. X k)) w'"
      using z(1) by (rule weaken) (use b i8 in auto)
    then show "Q z w'" using z(2) by (rule Q)
  qed
next
  fix ys w'
  assume "I (b \<and> list_all2 (\<lambda>i y. sec y = of_bool (\<exists>k \<le> i. X k)) [0..<pf_lambda] ys) w'"
    "shares_n n (length [0..<pf_lambda]) ys"
  then show "Q ys w'"
    by (intro post) (auto simp: pf_lambda_def list_all2_conv_all_nth elim!: weaken)
qed

lemma prefix_or_ai:
  assumes "I b w" "shares_n n 8 fs" "shares_n n 64 a"
    "b \<Longrightarrow> (\<forall>i < 8. sec (fs ! i) = of_bool (blockFirst A i)) \<and> (\<forall>k < 64. sec (a ! k) = of_bool (A k))"
    and post: "\<And>ys w'. I (b \<and> (\<forall>j < 8. sec (ys ! j) = of_bool (firstBits A j))) w' \<Longrightarrow> shares_n n 8 ys \<Longrightarrow> Q ys w'"
  shows "wpS E Q (mapS (\<lambda>j. bindS (mapS (\<lambda>i. pf_share_mult (fs ! i) (a ! (pf_lambda * i + j))) [0..<pf_lambda]) (\<lambda>ps.
      retS (foldl share_add (replicate n 0) ps))) [0..<pf_lambda]) w"
proof (rule loop_rule [where B = "(\<forall>i < 8. sec (fs ! i) = of_bool (blockFirst A i)) \<and> (\<forall>k < 64. sec (a ! k) = of_bool (A k))"
      and R = "\<lambda>j y. sec y = of_bool (firstBits A j)", OF _ assms(1,4)])
  fix j b w Q
  assume j: "j \<in> set [0..<pf_lambda]" and w: "I b w"
    and b: "b \<Longrightarrow> (\<forall>i < 8. sec (fs ! i) = of_bool (blockFirst A i)) \<and> (\<forall>k < 64. sec (a ! k) = of_bool (A k))"
    and Q: "\<And>y w'. I (b \<and> sec y = of_bool (firstBits A j)) w' \<Longrightarrow> length y = n \<Longrightarrow> Q y w'"
  have j8: "j < 8" using j by (simp add: pf_lambda_def)
  show "wpS E Q (bindS (mapS (\<lambda>i. pf_share_mult (fs ! i) (a ! (pf_lambda * i + j))) [0..<pf_lambda]) (\<lambda>ps.
      retS (foldl share_add (replicate n 0) ps))) w"
    unfolding wpS_bindS wpS_retS
  proof (rule loop_rule [where B = True and R = "\<lambda>i y. sec y = sec (fs ! i) * sec (a ! (8 * i + j))", OF _ w])
    fix i b w Q
    assume i: "i \<in> set [0..<pf_lambda]" and w: "I b w"
      and Q: "\<And>y w'. I (b \<and> sec y = sec (fs ! i) * sec (a ! (8 * i + j))) w' \<Longrightarrow> length y = n \<Longrightarrow> Q y w'"
    have "i < 8" using i by (simp add: pf_lambda_def)
    then show "wpS E Q (pf_share_mult (fs ! i) (a ! (pf_lambda * i + j))) w"
      unfolding pf_lambda_def
      by (intro mult [OF w]) (use assms(2,3) j8 Q in \<open>auto simp: shares_n_def elim!: weaken\<close>)
  next
    fix ps w'
    assume ps: "I (b \<and> list_all2 (\<lambda>i y. sec y = sec (fs ! i) * sec (a ! (8 * i + j))) [0..<pf_lambda] ps) w'"
      "shares_n n (length [0..<pf_lambda]) ps"
    then have s: "shares_n n 8 ps" by (simp add: pf_lambda_def)
    have "(\<Sum>i < 8. sec (ps ! i)) = of_bool (firstBits A j)"
      if "b" "list_all2 (\<lambda>i y. sec y = sec (fs ! i) * sec (a ! (8 * i + j))) [0..<pf_lambda] ps"
    proof -
      have "(\<Sum>i < 8. sec (ps ! i)) = (\<Sum>i < 8. of_bool (blockFirst A i) * of_bool (A (8 * i + j)))"
        using that b j8 by (intro sum.cong) (auto simp: list_all2_conv_all_nth pf_lambda_def)
      also have "\<dots> = of_bool (firstBits A j)"
        unfolding firstBits_def by (rule sum_unique) (rule blockFirst_unique)
      finally show ?thesis .
    qed
    then have "I (b \<and> sec (foldl share_add (replicate n 0) ps) = of_bool (firstBits A j)) w'"
      using sec_foldl_add [OF s] by (intro weaken [OF ps(1)]) auto
    then show "Q (foldl share_add (replicate n 0) ps) w'"
      using sec_foldl_add [OF s] by (intro Q) auto
  qed simp
next
  fix ys w'
  assume "I (b \<and> list_all2 (\<lambda>j y. sec y = of_bool (firstBits A j)) [0..<pf_lambda] ys) w'"
    "shares_n n (length [0..<pf_lambda]) ys"
  then show "Q ys w'"
    by (intro post) (auto simp: pf_lambda_def list_all2_conv_all_nth elim!: weaken)
qed

lemma prefix_or_ret:
  assumes "I b w" "shares_n n 8 fs" "shares_n n 8 bi" "shares_n n 8 ss"
    "b \<Longrightarrow> (\<forall>i < 8. sec (fs ! i) = of_bool (blockFirst A i)) \<and>
      (\<forall>j < 8. sec (bi ! j) = of_bool (\<exists>k \<le> j. firstBits A k)) \<and>
      (\<forall>i < 8. sec (ss ! i) = of_bool (blockPre A i \<and> \<not> blockFirst A i))"
    and post: "\<And>ys w'. I (b \<and> (\<forall>k < 64. sec (ys ! k) = of_bool (\<exists>m \<le> k. A m))) w' \<Longrightarrow> shares_n n 64 ys \<Longrightarrow> Q ys w'"
  shows "wpS E Q (mapS (\<lambda>k. bindS (pf_share_mult (fs ! (k div pf_lambda)) (bi ! (k mod pf_lambda))) (\<lambda>p.
      retS (share_add p (ss ! (k div pf_lambda))))) [0..<pf_l]) w"
proof (rule loop_rule [where B = "(\<forall>i < 8. sec (fs ! i) = of_bool (blockFirst A i)) \<and>
      (\<forall>j < 8. sec (bi ! j) = of_bool (\<exists>k \<le> j. firstBits A k)) \<and>
      (\<forall>i < 8. sec (ss ! i) = of_bool (blockPre A i \<and> \<not> blockFirst A i))"
      and R = "\<lambda>k y. sec y = of_bool (\<exists>m \<le> k. A m)", OF _ assms(1,5)])
  fix k b w Q
  assume k: "k \<in> set [0..<pf_l]" and w: "I b w"
    and b: "b \<Longrightarrow> (\<forall>i < 8. sec (fs ! i) = of_bool (blockFirst A i)) \<and>
      (\<forall>j < 8. sec (bi ! j) = of_bool (\<exists>k \<le> j. firstBits A k)) \<and>
      (\<forall>i < 8. sec (ss ! i) = of_bool (blockPre A i \<and> \<not> blockFirst A i))"
    and Q: "\<And>y w'. I (b \<and> sec y = of_bool (\<exists>m \<le> k. A m)) w' \<Longrightarrow> length y = n \<Longrightarrow> Q y w'"
  have k64: "k < 64" "k div 8 < 8" "k mod 8 < 8" using k by (auto simp: pf_l_def)
  have len: "length (fs ! (k div 8)) = n" "length (bi ! (k mod 8)) = n" "length (ss ! (k div 8)) = n"
    using assms(2-4) k64 by (auto intro: shares_n_nth)
  show "wpS E Q (bindS (pf_share_mult (fs ! (k div pf_lambda)) (bi ! (k mod pf_lambda))) (\<lambda>p.
      retS (share_add p (ss ! (k div pf_lambda))))) w"
    unfolding wpS_bindS wpS_retS pf_lambda_def
  proof (rule mult [OF w len(1,2)])
    fix p w' assume p: "I b w'" "length p = n" "sec p = sec (fs ! (k div 8)) * sec (bi ! (k mod 8))"
    have "sec (share_add p (ss ! (k div 8))) = of_bool (\<exists>m \<le> k. A m)" if b
      using b [OF that] k64 len p unfolding prefix_or_blocks [OF k64(1), of A, symmetric]
      by (auto simp: share_simps)
    then have "I (b \<and> sec (share_add p (ss ! (k div 8))) = of_bool (\<exists>m \<le> k. A m)) w'"
      by (intro weaken [OF p(1)]) auto
    then show "Q (share_add p (ss ! (k div 8))) w'"
      using p len by (intro Q) auto
  qed
next
  fix ys w'
  assume "I (b \<and> list_all2 (\<lambda>k y. sec y = of_bool (\<exists>m \<le> k. A m)) [0..<pf_l] ys) w'"
    "shares_n n (length [0..<pf_l]) ys"
  then show "Q ys w'"
    by (intro post) (auto simp: pf_l_def list_all2_conv_all_nth elim!: weaken)
qed

lemma differences_first:
  assumes "shares_n n k ys" "length z = n" "sec z = of_bool (Y 0)"
    "\<And>i. i < k \<Longrightarrow> sec (ys ! i) = of_bool (Y i)" "\<And>i j. i \<le> j \<Longrightarrow> Y i \<Longrightarrow> Y j" "i < k"
  shows "sec (differences k z ys ! i) = of_bool (Y i \<and> (i = 0 \<or> \<not> Y (i - 1)))"
proof (cases "i = 0")
  case True
  with assms(3,6) show ?thesis by (simp add: differences_def)
next
  case False
  have "length (ys ! i) = n" "length (ys ! (i - 1)) = n"
    using assms(1,6) by (auto simp: shares_n_def)
  moreover have "Y (i - 1) \<Longrightarrow> Y i"
    by (rule assms(5) [of "i - 1" i]) simp_all
  ultimately show ?thesis
    using assms(4) [of i] assms(4) [of "i - 1"] assms(6) False by (auto simp: share_simps differences_def)
qed

lemma differences_shares: "shares_n n k ys \<Longrightarrow> length z = n \<Longrightarrow> shares_n n k (differences k z ys)"
  by (auto simp: shares_n_def differences_def)

lemma first_blocks:
  assumes "shares_n n 8 xs" "shares_n n 8 ys" "i < 8"
    "\<forall>i < 8. sec (xs ! i) = of_bool (blockOr A i)" "\<forall>i < 8. sec (ys ! i) = of_bool (blockPre A i)"
  shows "sec (differences 8 (xs ! 0) ys ! i) = of_bool (blockFirst A i)"
    "sec (map (\<lambda>i. share_sub (ys ! i) (differences 8 (xs ! 0) ys ! i)) [0..<8] ! i) =
      of_bool (blockPre A i \<and> \<not> blockFirst A i)"
proof -
  have x0: "length (xs ! 0) = n" "sec (xs ! 0) = of_bool (blockPre A 0)"
    using assms(1,4) by (auto simp: shares_n_def blockPre_def)
  show f: "sec (differences 8 (xs ! 0) ys ! i) = of_bool (blockFirst A i)"
    unfolding blockFirst_def
    using assms(3,5) blockPre_mono
    by (intro differences_first [where Y = "blockPre A", OF assms(2) x0]) blast+
  have "length (ys ! i) = n" "length (differences 8 (xs ! 0) ys ! i) = n"
    using assms(2,3) differences_shares [OF assms(2) x0(1)] by (auto intro: shares_n_nth)
  moreover have "blockFirst A i \<Longrightarrow> blockPre A i"
    by (simp add: blockFirst_def)
  ultimately show "sec (map (\<lambda>i. share_sub (ys ! i) (differences 8 (xs ! 0) ys ! i)) [0..<8] ! i) =
      of_bool (blockPre A i \<and> \<not> blockFirst A i)"
    using f assms(3,5) by (auto simp: share_simps)
qed

lemma prefix_or:
  assumes "I b w" "shares_n n 64 a" "b \<Longrightarrow> isbits a"
    and post: "\<And>ys w'. I (b \<and> (\<forall>k < 64. sec (ys ! k) = of_bool (\<exists>m \<le> k. sec (a ! m) = 1))) w' \<Longrightarrow>
      shares_n n 64 ys \<Longrightarrow> Q ys w'"
  shows "wpS E Q (subPrefixOr a) w"
proof -
  let ?A = "\<lambda>k. sec (a ! k) = 1"
  let ?f = "\<lambda>xs ys. differences pf_lambda (xs ! 0) ys"
  have w: "n_parties w = n" and la: "\<not> length a < pf_l"
    using parties [OF assms(1)] assms(2) by (auto simp: shares_n_def pf_l_def)
  have a: "\<forall>k < 64. sec (a ! k) = of_bool (?A k)" if "isbits a"
    using that assms(2) by (auto simp: isbits_def shares_n_def)
  show ?thesis
    unfolding subPrefixOr_def wpS_withW if_not_P [OF la] Let_def w wpS_bindS
  proof (rule prefix_or_x [OF assms(1-3)])
    fix xs w1
    assume w1: "I (b \<and> (\<forall>i < 8. sec (xs ! i) = of_bool (blockOr ?A i))) w1" and xs: "shares_n n 8 xs"
    show "wpS E (\<lambda>ys. wpS E (\<lambda>ai. wpS E (\<lambda>bi. wpS E Q (mapS (\<lambda>k. bindS (pf_share_mult (?f xs ys ! (k div pf_lambda))
        (bi ! (k mod pf_lambda))) (\<lambda>p. retS (share_add p (map (\<lambda>i. share_sub (ys ! i) (?f xs ys ! i)) [0..<pf_lambda] !
        (k div pf_lambda))))) [0..<pf_l])) (mapS (orOfPadding n ai) [0..<pf_lambda]))
        (mapS (\<lambda>j. bindS (mapS (\<lambda>i. pf_share_mult (?f xs ys ! i) (a ! (pf_lambda * i + j))) [0..<pf_lambda])
          (\<lambda>ps. retS (foldl share_add (replicate n 0) ps))) [0..<pf_lambda])) (mapS (orOfPadding n xs) [0..<pf_lambda]) w1"
    proof (rule prefix_or_y [OF w1 xs, of "blockOr ?A"])
      fix ys w2
      assume w2: "I ((b \<and> (\<forall>i < 8. sec (xs ! i) = of_bool (blockOr ?A i))) \<and>
          (\<forall>i < 8. sec (ys ! i) = of_bool (\<exists>k \<le> i. blockOr ?A k))) w2" and ys: "shares_n n 8 ys"
      let ?fs = "?f xs ys"
      let ?ss = "map (\<lambda>i. share_sub (ys ! i) (?fs ! i)) [0..<pf_lambda]"
      have fs: "shares_n n 8 ?fs" and ss: "shares_n n 8 ?ss"
        using xs ys differences_shares [OF ys, of "xs ! 0"] by (auto simp: shares_n_def pf_lambda_def)
      have w2': "I (b \<and> (\<forall>i < 8. sec (?fs ! i) = of_bool (blockFirst ?A i)) \<and>
          (\<forall>i < 8. sec (?ss ! i) = of_bool (blockPre ?A i \<and> \<not> blockFirst ?A i))) w2"
      proof (rule weaken [OF w2])
        assume *: "(b \<and> (\<forall>i < 8. sec (xs ! i) = of_bool (blockOr ?A i))) \<and>
          (\<forall>i < 8. sec (ys ! i) = of_bool (\<exists>k \<le> i. blockOr ?A k))"
        then have "\<forall>i < 8. sec (ys ! i) = of_bool (blockPre ?A i)"
          by (simp add: blockPre_def)
        note f = first_blocks [OF xs ys _ _ this]
        from * f show "b \<and> (\<forall>i < 8. sec (?fs ! i) = of_bool (blockFirst ?A i)) \<and>
          (\<forall>i < 8. sec (?ss ! i) = of_bool (blockPre ?A i \<and> \<not> blockFirst ?A i))"
          unfolding pf_lambda_def by blast
      qed
      show "wpS E (\<lambda>ai. wpS E (\<lambda>bi. wpS E Q (mapS (\<lambda>k. bindS (pf_share_mult (?fs ! (k div pf_lambda))
        (bi ! (k mod pf_lambda))) (\<lambda>p. retS (share_add p (?ss ! (k div pf_lambda))))) [0..<pf_l]))
        (mapS (orOfPadding n ai) [0..<pf_lambda]))
        (mapS (\<lambda>j. bindS (mapS (\<lambda>i. pf_share_mult (?fs ! i) (a ! (pf_lambda * i + j))) [0..<pf_lambda])
          (\<lambda>ps. retS (foldl share_add (replicate n 0) ps))) [0..<pf_lambda]) w2"
      proof (rule prefix_or_ai [OF w2' fs assms(2), of ?A], use a assms(3) in blast)
        fix ai w3
        assume w3: "I ((b \<and> (\<forall>i < 8. sec (?fs ! i) = of_bool (blockFirst ?A i)) \<and>
            (\<forall>i < 8. sec (?ss ! i) = of_bool (blockPre ?A i \<and> \<not> blockFirst ?A i))) \<and>
            (\<forall>j < 8. sec (ai ! j) = of_bool (firstBits ?A j))) w3" and ai: "shares_n n 8 ai"
        show "wpS E (\<lambda>bi. wpS E Q (mapS (\<lambda>k. bindS (pf_share_mult (?fs ! (k div pf_lambda))
            (bi ! (k mod pf_lambda))) (\<lambda>p. retS (share_add p (?ss ! (k div pf_lambda))))) [0..<pf_l]))
          (mapS (orOfPadding n ai) [0..<pf_lambda]) w3"
        proof (rule prefix_or_y [OF w3 ai, of "firstBits ?A"], blast)
          fix bi w4
          assume w4: "I (((b \<and> (\<forall>i < 8. sec (?fs ! i) = of_bool (blockFirst ?A i)) \<and>
            (\<forall>i < 8. sec (?ss ! i) = of_bool (blockPre ?A i \<and> \<not> blockFirst ?A i))) \<and>
            (\<forall>j < 8. sec (ai ! j) = of_bool (firstBits ?A j))) \<and>
            (\<forall>j < 8. sec (bi ! j) = of_bool (\<exists>k \<le> j. firstBits ?A k))) w4" and bi: "shares_n n 8 bi"
          show "wpS E Q (mapS (\<lambda>k. bindS (pf_share_mult (?fs ! (k div pf_lambda))
            (bi ! (k mod pf_lambda))) (\<lambda>p. retS (share_add p (?ss ! (k div pf_lambda))))) [0..<pf_l]) w4"
          proof (rule prefix_or_ret [OF w4 fs bi ss, of ?A], blast)
            fix zs w5
            assume w5: "I ((((b \<and> (\<forall>i < 8. sec (?fs ! i) = of_bool (blockFirst ?A i)) \<and>
              (\<forall>i < 8. sec (?ss ! i) = of_bool (blockPre ?A i \<and> \<not> blockFirst ?A i))) \<and>
              (\<forall>j < 8. sec (ai ! j) = of_bool (firstBits ?A j))) \<and>
              (\<forall>j < 8. sec (bi ! j) = of_bool (\<exists>k \<le> j. firstBits ?A k))) \<and>
              (\<forall>k < 64. sec (zs ! k) = of_bool (\<exists>m \<le> k. ?A m))) w5" and zs: "shares_n n 64 zs"
            have "I (b \<and> (\<forall>k < 64. sec (zs ! k) = of_bool (\<exists>m \<le> k. ?A m))) w5"
              using w5 by (rule weaken) blast
            then show "Q zs w5" using zs by (rule post)
          qed
        qed
      qed
    qed blast
  qed
qed

lemma bit_xor:
  assumes "sec x = of_bool p" "sec y = of_bool q" "sec xy = sec x * sec y" "length x = n" "length y = n" "length xy = n"
  shows "sec (share_sub (share_add x y) (share_scale (PF 2) xy)) = of_bool (p \<noteq> q)"
  using assms by (auto simp: share_simps gf_PF)

lemma bitwise_less:
  assumes "I b w" "shares_n n 64 as" "shares_n n 64 bs" "b \<Longrightarrow> isbits as \<and> isbits bs"
    and post: "\<And>z w'. I (b \<and> sec z = of_bool (bits_value as < bits_value bs)) w' \<Longrightarrow> length z = n \<Longrightarrow> Q z w'"
  shows "wpS E Q (subBitwiseLessThan as bs) w"
proof -
  let ?A = "\<lambda>k. sec (as ! k) = 1" and ?B = "\<lambda>k. sec (bs ! k) = 1"
  let ?c = "\<lambda>ab. map (\<lambda>i. share_sub (share_add (as ! i) (bs ! i)) (share_scale (PF 2) (ab ! i))) [0..<pf_l]"
  have w: "n_parties w = n" and la: "\<not> length as < pf_l"
    using parties [OF assms(1)] assms(2) by (auto simp: shares_n_def pf_l_def)
  have bit: "sec (as ! i) = of_bool (?A i)" "sec (bs ! i) = of_bool (?B i)" if "isbits as \<and> isbits bs" "i < 64" for i
    using that assms(2,3) by (auto simp: isbits_def shares_n_def)
  show ?thesis
    unfolding subBitwiseLessThan_def wpS_withW wpS_bindS Let_def if_not_P [OF la] wpS_retS w
  proof (rule vmult [OF assms(1-3)])
    fix ab w1
    assume w1: "I b w1" and ab: "shares_n n 64 ab" "\<forall>i < 64. sec (ab ! i) = sec (as ! i) * sec (bs ! i)"
    have c: "shares_n n 64 (?c ab)"
      using assms(2,3) ab(1) by (auto simp: shares_n_def pf_l_def)
    have len: "length (as ! i) = n" "length (bs ! i) = n" "length (ab ! i) = n" if "i < 64" for i
      using that assms(2,3) ab(1) by (auto intro: shares_n_nth)
    have cs: "sec (?c ab ! i) = of_bool (?A i \<noteq> ?B i)" if "isbits as \<and> isbits bs" "i < 64" for i
      using bit_xor [OF bit [OF that] _ len [OF that(2)], of ] ab(2) that(2) by (simp add: pf_l_def)
    show "wpS E (\<lambda>d. wpS E (\<lambda>eb. Q (foldl (\<lambda>ret i. share_add ret (eb ! i)) (replicate n 0) [0..<pf_l]))
        (pf_vec_mult (differences pf_l (d ! 0) d) bs)) (subPrefixOr (?c ab)) w1"
    proof (rule prefix_or [OF w1 c])
      show "isbits (?c ab)" if b
        by (rule bits_nth [of _ 64 "\<lambda>i. ?A i \<noteq> ?B i"])
          (use cs [OF assms(4) [OF that]] in \<open>simp add: pf_l_def, blast\<close>)
      fix d w2
      assume w2: "I (b \<and> (\<forall>k < 64. sec (d ! k) = of_bool (\<exists>m \<le> k. sec (?c ab ! m) = 1))) w2" and d: "shares_n n 64 d"
      let ?e = "differences 64 (d ! 0) d"
      have e: "shares_n n 64 ?e"
        using differences_shares [OF d] shares_n_nth [OF d, of 0] by simp
      show "wpS E (\<lambda>eb. Q (foldl (\<lambda>ret i. share_add ret (eb ! i)) (replicate n 0) [0..<pf_l]))
        (pf_vec_mult (differences pf_l (d ! 0) d) bs) w2"
        unfolding pf_l_def
      proof (rule vmult [OF w2 e assms(3)])
        fix eb w3
        assume w3: "I (b \<and> (\<forall>k < 64. sec (d ! k) = of_bool (\<exists>m \<le> k. sec (?c ab ! m) = 1))) w3"
          and eb: "shares_n n 64 eb" "\<forall>i < 64. sec (eb ! i) = sec (?e ! i) * sec (bs ! i)"
        let ?z = "foldl (\<lambda>ret i. share_add ret (eb ! i)) (replicate n 0) [0..<64]"
        have z: "length ?z = n" "sec ?z = (\<Sum>i < 64. sec (eb ! i))"
          using foldl_share_add [of "replicate n 0" n "[0..<64]" "\<lambda>i. eb ! i"] shares_n_nth [OF eb(1)]
          by (simp_all add: interv_sum_list_conv_sum_set_nat atLeast0LessThan)
        have "I (b \<and> sec ?z = of_bool (bits_value as < bits_value bs)) w3"
        proof (rule weaken [OF w3], intro conjI)
          assume *: "b \<and> (\<forall>k < 64. sec (d ! k) = of_bool (\<exists>m \<le> k. sec (?c ab ! m) = 1))"
          then have bits: "isbits as \<and> isbits bs" using assms(4) by blast
          let ?D = "\<lambda>k. \<exists>m \<le> k. ?A m \<noteq> ?B m"
          have "sec (d ! k) = of_bool (?D k)" if "k < 64" for k
            using * that cs [OF bits] by auto
          then have "sec (?e ! i) = of_bool (?D i \<and> (i = 0 \<or> \<not> ?D (i - 1)))" if "i < 64" for i
            using that d by (intro differences_first) (auto intro: shares_n_nth order_trans)
          then have "sec ?z = (\<Sum>i < 64. of_bool (?D i \<and> (i = 0 \<or> \<not> ?D (i - 1))) * of_bool (?B i))"
            unfolding z(2) using eb(2) bit [OF bits] by (intro sum.cong) auto
          also have "\<dots> = of_bool (\<exists>i < 64. (?D i \<and> (i = 0 \<or> \<not> ?D (i - 1))) \<and> ?B i)"
          proof (rule sum_unique, rule first_unique [of ?D])
            show "?D j" if "i \<le> j" "?D i" for i j using that by (meson order_trans)
          qed
          also have "(\<exists>i < 64. (?D i \<and> (i = 0 \<or> \<not> ?D (i - 1))) \<and> ?B i) \<longleftrightarrow> bits_value as < bits_value bs"
            unfolding bits_value_bv [OF bits [THEN conjunct1]] bits_value_bv [OF bits [THEN conjunct2]]
            by (rule first_difference [symmetric]) (use assms(2,3) in \<open>simp_all add: shares_n_def\<close>)
          finally show "sec ?z = of_bool (bits_value as < bits_value bs)" .
        qed simp
        then show "Q ?z w3" using z(1) by (rule post)
      qed
    qed
  qed
qed

end

lemma intervalBounds_eq:
  "intervalBounds c1 c c2 = Inr
     (if c1 < c \<and> c < c2 then (c - c1 - 1, c + 0 - c2 + 1) else if c2 \<le> c then (c - c2, c - c1)
      else (c + 0 - c2, c + 0 - c1))"
proof -
  have "pf_make pf_p = Inr 0" by (simp add: pf_make_def zero_pf_def not_less)
  then show ?thesis
    by (auto simp: intervalBounds_def not_le dest: less_le_trans)
qed

lemma pf_add_val: "canonical x \<Longrightarrow> getVal x + 1 < pf_p \<Longrightarrow> getVal (x + 1) = getVal x + 1"
  "canonical x \<Longrightarrow> getVal x + 1 = pf_p \<Longrightarrow> getVal (x + 1) = 0" "canonical x \<Longrightarrow> x + 0 = x"
  by (simp_all add: plus_pf_def one_pf_def zero_pf_def canonical_def pf.expand)

lemma getVal_one [simp]: "getVal (1 :: pf) = 1"
  by (simp add: one_pf_def)

lemma mask_residue:
  assumes "0 \<le> r" "r < pf_p" "canonical c"
  shows "(getVal c - r) mod pf_p = (if r \<le> getVal c then getVal c - r else getVal c - r + pf_p)"
proof -
  have "getVal c + (pf_p - r) = getVal c - r + pf_p" by simp
  then have "getVal (c - PF r) = (getVal c - r) mod pf_p"
    unfolding minus_pf_def pf.sel by (simp only: mod_add_self2)
  then show ?thesis
    using pf_sub_val [OF assms(3), of "PF r"] assms(1,2)
    by (cases "r \<le> getVal c") (simp_all add: canonical_def)
qed

lemma interval_answer_correct:
  assumes "canonical c1" "canonical c" "canonical c2" "c1 < c2" "0 \<le> r" "r < pf_p"
    "intervalBounds c1 c c2 = Inr (low, high)" "c \<noteq> c1" "c + 1 \<noteq> c2"
    "a = (getVal c - r) mod pf_p"
  shows "interval_answer r c1 c c2 low high \<longleftrightarrow> getVal c1 < a \<and> a < getVal c2"
proof -
  note v = assms(1-3) [unfolded canonical_def]
  have ne: "getVal c \<noteq> getVal c1" "getVal c + 1 \<noteq> getVal c2"
    using assms(8,9) pf_add_val(1) [OF assms(2)] v by (auto simp: pf.expand)
  have a: "a = (if r \<le> getVal c then getVal c - r else getVal c - r + pf_p)"
    using assms(10) mask_residue [OF assms(5,6,2)] by simp
  have le: "(c2 \<le> c) = (getVal c2 \<le> getVal c)"
    by (simp add: less_eq_pf_def not_less)
  note sub = pf_sub_val [OF assms(2,1)] pf_sub_val [OF assms(2,3)]
  consider "getVal c1 < getVal c" "getVal c < getVal c2" | "getVal c2 \<le> getVal c" | "getVal c < getVal c1"
    using ne by linarith
  then show ?thesis
  proof cases
    case 1
    have "low = c - c1 - 1" "high = c - c2 + 1"
      using 1 assms(7) pf_add_val(3) [OF assms(2)] by (auto simp: intervalBounds_eq less_pf_def pf_less_def)
    moreover have "getVal (c - c1 - 1) = getVal c - getVal c1 - 1"
      using 1 sub(1) pf_sub_val [of "c - c1" 1] by simp
    moreover have "getVal (c - c2 + 1) = getVal c - getVal c2 + pf_p + 1"
      using 1 sub(2) ne pf_add_val(1) [of "c - c2"] v by simp
    ultimately show ?thesis
      using 1 a assms(5,6) v by (auto simp: interval_answer_def less_pf_def pf_less_def split: if_splits)
  next
    case 2
    then have "low = c - c2" "high = c - c1"
      using assms(4,7) le by (auto simp: intervalBounds_eq less_pf_def pf_less_def)
    then show ?thesis
      using 2 a assms(4-6) v sub by (auto simp: interval_answer_def less_pf_def pf_less_def split: if_splits)
  next
    case 3
    then have "low = c - c2" "high = c - c1"
      using assms(4,7) le pf_add_val(3) [OF assms(2)] by (auto simp: intervalBounds_eq less_pf_def pf_less_def)
    then show ?thesis
      using 3 a assms(4-6) v sub by (auto simp: interval_answer_def less_pf_def pf_less_def split: if_splits)
  qed
qed

text \<open>When \<open>c + 1 = c2\<close> the upper bound wraps to 0 and the answer is yes for every secret.\<close>

lemma interval_answer_wraps:
  assumes "canonical c" "canonical c2" "c1 < c" "c + 1 = c2" "getVal c + 1 < pf_p" "0 \<le> r"
    "intervalBounds c1 c c2 = Inr (low, high)"
  shows "interval_answer r c1 c c2 low high"
proof -
  have "getVal c2 = getVal c + 1"
    using assms(1,4,5) pf_add_val(1) by blast
  then have lt: "c1 < c \<and> c < c2"
    using assms(3) by (simp add: less_pf_def pf_less_def)
  then have "high = c - c2 + 1"
    using assms(1,7) pf_add_val(3) by (simp add: intervalBounds_eq)
  moreover have "getVal (c - c2) + 1 = pf_p"
    using pf_sub_val [OF assms(1,2)] \<open>getVal c2 = getVal c + 1\<close> by simp
  then have "getVal (c - c2 + 1) = 0"
    by (intro pf_add_val(2)) simp_all
  ultimately show ?thesis
    using lt assms(6) by (auto simp: interval_answer_def)
qed

subsection \<open>The protocols\<close>

lemma last_bit:
  assumes "shares_n n 64 rs" "isbits rs"
  shows "sec (rs ! 63) = of_bool (odd (bits_value rs))"
proof -
  have len: "length rs = 64" using assms(1) by (simp add: shares_n_def)
  have "odd (bits_value rs) = map (\<lambda>x. sec x = 1) rs ! 63"
    using bv_bit [of 63 "map (\<lambda>x. sec x = 1) rs"] len by (simp add: bits_value_bv [OF assms(2)])
  moreover have "rs ! 63 \<in> set rs" using len by simp
  then have "sec (rs ! 63) = 0 \<or> sec (rs ! 63) = 1"
    using assms(2) unfolding isbits_def by blast
  ultimately show ?thesis using len by auto
qed

lemma reversed_index: "(\<forall>i < 64. P (63 - i)) \<longleftrightarrow> (\<forall>i < (64 :: nat). P i)"
proof
  assume P: "\<forall>i < 64. P (63 - i)"
  show "\<forall>i < 64. P i"
  proof (intro allI impI)
    fix i :: nat assume "i < 64"
    with P [rule_format, of "63 - i"] show "P i" by (simp add: less_Suc_eq_le)
  qed
qed auto

definition parity_select :: "bool \<Rightarrow> bool \<Rightarrow> bool \<Rightarrow> bool" where
  "parity_select ev p q \<longleftrightarrow> (if ev then p \<noteq> q else p = q)"

context pf_protocol
begin

lemma select_rule:
  assumes "I b w" "length x = n" "length y = n" "b \<Longrightarrow> sec x = of_bool p \<and> sec y = of_bool q"
    and post: "\<And>z w'. I (b \<and> sec z = of_bool (parity_select ev p q)) w' \<Longrightarrow> length z = n \<Longrightarrow> Q z w'"
  shows "wpS E Q (if ev
      then bindS (pf_share_mult x (share_csub sp 1 y)) (\<lambda>u. bindS (pf_share_mult (share_csub sp 1 x) y) (\<lambda>v. retS (share_add u v)))
      else bindS (pf_share_mult x y) (\<lambda>u. bindS (pf_share_mult (share_csub sp 1 x) (share_csub sp 1 y)) (\<lambda>v. retS (share_add u v)))) w"
proof -
  have sp: "sp < n" using parties [OF assms(1)] by simp
  have fin: "wpS E Q (bindS (pf_share_mult x1 y1) (\<lambda>u. bindS (pf_share_mult x2 y2) (\<lambda>v. retS (share_add u v)))) w"
    if len: "length x1 = n" "length y1 = n" "length x2 = n" "length y2 = n"
      and sum: "b \<Longrightarrow> sec x1 * sec y1 + sec x2 * sec y2 = of_bool (parity_select ev p q)" for x1 y1 x2 y2
    unfolding wpS_bindS wpS_retS
  proof (rule mult [OF assms(1) len(1,2)], rule mult [OF _ len(3,4)], assumption)
    fix u w1 v w2
    assume u: "length u = n" "sec u = sec x1 * sec y1" and v: "I b w2" "length v = n" "sec v = sec x2 * sec y2"
    have "I (b \<and> sec (share_add u v) = of_bool (parity_select ev p q)) w2"
      using sum u v by (intro weaken [OF v(1)]) (simp add: share_simps)
    then show "Q (share_add u v) w2" using u v by (intro post) auto
  qed
  show ?thesis
    by (cases ev; simp del: wpS_bindS; rule fin)
      (use assms(2-4) sp in \<open>auto simp: share_simps parity_select_def\<close>)
qed

lemma half_less:
  assumes "I b w" "length a = n"
    and post: "\<And>z w'. I (b \<and> sec z = of_bool (2 * gf_rep (sec a) < pf_p)) w' \<Longrightarrow> length z = n \<Longrightarrow> Q z w'"
  shows "wpS E Q (subHalfLessThan fuel a) w"
proof -
  have w: "n_parties w = n" "w_sp w = sp" "sp < n" using parties [OF assms(1)] by auto
  let ?c = "\<lambda>rs. recons (share_add (share_scale (PF 2) a) (BStoSC n rs))"
  show ?thesis
    unfolding subHalfLessThan_def wpS_withW Let_def w wpS_bindS
  proof (rule rbvs [OF assms(1)], rule PFtoBS_rule, assumption)
    fix rs w1 cs w2
    assume rs: "shares_n n pf_l rs" and w2: "I (b \<and> isbits rs \<and> bits_value rs < pf_p) w2"
      and cs: "shares_n n pf_l cs" "isbits cs" "bits_value cs = getVal (?c rs)"
    let ?v = "bits_value rs"
    have c: "getVal (?c rs) = (2 * gf_rep (sec a) + ?v) mod pf_p"
      using BStoSC_value [OF rs] assms(2)
      by (simp add: getVal_recons share_simps gf_PF gf_rep_of_int [symmetric])
    have r0: "length (rs ! (pf_l - 1)) = n"
      using rs by (auto simp: shares_n_def pf_l_def)
    show "wpS E (\<lambda>cr. wpS E (\<lambda>ret. wpS E Q (retS (share_csub sp 1 ret)))
        (if getVal (?c rs) mod 2 = 0
         then bindS (pf_share_mult cr (share_csub sp 1 (rs ! (pf_l - 1)))) (\<lambda>u.
              bindS (pf_share_mult (share_csub sp 1 cr) (rs ! (pf_l - 1))) (\<lambda>v. retS (share_add u v)))
         else bindS (pf_share_mult cr (rs ! (pf_l - 1))) (\<lambda>u.
              bindS (pf_share_mult (share_csub sp 1 cr) (share_csub sp 1 (rs ! (pf_l - 1)))) (\<lambda>v. retS (share_add u v)))))
        (subBitwiseLessThan cs rs) w2"
    proof (rule bitwise_less [OF w2 cs(1) [unfolded pf_l_def] rs [unfolded pf_l_def]], use cs in blast)
      fix cr w3
      assume w3: "I ((b \<and> isbits rs \<and> ?v < pf_p) \<and> sec cr = of_bool (bits_value cs < ?v)) w3" and cr: "length cr = n"
      show "wpS E (\<lambda>ret. wpS E Q (retS (share_csub sp 1 ret)))
        (if getVal (?c rs) mod 2 = 0
         then bindS (pf_share_mult cr (share_csub sp 1 (rs ! (pf_l - 1)))) (\<lambda>u.
              bindS (pf_share_mult (share_csub sp 1 cr) (rs ! (pf_l - 1))) (\<lambda>v. retS (share_add u v)))
         else bindS (pf_share_mult cr (rs ! (pf_l - 1))) (\<lambda>u.
              bindS (pf_share_mult (share_csub sp 1 cr) (share_csub sp 1 (rs ! (pf_l - 1)))) (\<lambda>v. retS (share_add u v)))) w3"
      proof (rule select_rule [OF w3 cr r0, of "bits_value cs < ?v" "odd ?v"], unfold wpS_retS)
        show "sec cr = of_bool (bits_value cs < ?v) \<and> sec (rs ! (pf_l - 1)) = of_bool (odd ?v)"
          if "(b \<and> isbits rs \<and> ?v < pf_p) \<and> sec cr = of_bool (bits_value cs < ?v)"
          using that last_bit rs by (simp add: pf_l_def)
        fix z w4
        assume z: "I (((b \<and> isbits rs \<and> ?v < pf_p) \<and> sec cr = of_bool (bits_value cs < ?v)) \<and>
            sec z = of_bool (parity_select (getVal (?c rs) mod 2 = 0) (bits_value cs < ?v) (odd ?v))) w4" "length z = n"
        have "I (b \<and> sec (share_csub sp 1 z) = of_bool (2 * gf_rep (sec a) < pf_p)) w4"
        proof (rule weaken [OF z(1)])
          assume *: "((b \<and> isbits rs \<and> ?v < pf_p) \<and> sec cr = of_bool (bits_value cs < ?v)) \<and>
            sec z = of_bool (parity_select (getVal (?c rs) mod 2 = 0) (bits_value cs < ?v) (odd ?v))"
          then have "0 \<le> ?v" "?v < pf_p" using bits_value_bounds [of rs] by auto
          then have "2 * gf_rep (sec a) < pf_p \<longleftrightarrow> ((odd (getVal (?c rs)) \<noteq> odd ?v) \<longleftrightarrow> getVal (?c rs) < ?v)"
            using gf_rep_bounds [of "sec a"] c by (intro half_parity) auto
          then have "2 * gf_rep (sec a) < pf_p \<longleftrightarrow>
              \<not> parity_select (getVal (?c rs) mod 2 = 0) (bits_value cs < ?v) (odd ?v)"
            using cs(3) by (auto simp: parity_select_def even_iff_mod_2_eq_zero)
          with * z(2) w(3) show "b \<and> sec (share_csub sp 1 z) = of_bool (2 * gf_rep (sec a) < pf_p)"
            by (simp add: share_simps)
        qed
        then show "Q (share_csub sp 1 z) w4" using z(2) by (intro post) auto
      qed
    qed
  qed (use recons_canonical in auto)
qed

lemma comparison:
  assumes "I b w" "length a = n" "length c = n"
    and post: "\<And>z w'. I (b \<and> sec z = of_bool (gf_rep (sec a) < gf_rep (sec c))) w' \<Longrightarrow> length z = n \<Longrightarrow> Q z w'"
  shows "wpS E Q (comparisonTest fuel a c) w"
proof -
  have w: "w_sp w = sp" "sp < n" using parties [OF assms(1)] by auto
  let ?W = "2 * gf_rep (sec a) < pf_p" and ?X = "2 * gf_rep (sec c) < pf_p"
    and ?Y = "2 * gf_rep (sec (share_sub a c)) < pf_p"
  have len: "length (share_sub a c) = n" using assms by simp
  show ?thesis
    unfolding comparisonTest_def wpS_withW w wpS_bindS wpS_retS
  proof (rule half_less [OF assms(1,2)], rule half_less [OF _ assms(3)], assumption,
      rule half_less [OF _ len], assumption, rule mult, assumption, assumption, assumption, rule mult, assumption, assumption)
    fix wz x y xy :: "pf list" and w1 w2 w3 w4
    assume l: "length wz = n" "length x = n" "length y = n" "length xy = n"
    then show "length (share_sub (share_add x y) (share_scale (PF 2) xy)) = n" by simp
    fix u w5
    assume xy: "sec xy = sec x * sec y"
      and w5: "I (((b \<and> sec wz = of_bool ?W) \<and> sec x = of_bool ?X) \<and> sec y = of_bool ?Y) w5"
      and u: "length u = n" "sec u = sec wz * sec (share_sub (share_add x y) (share_scale (PF 2) xy))"
    let ?z = "share_add (share_sub (share_sub (share_addc sp u 1) y) x) xy"
    have z: "sec ?z = sec wz * (sec x + sec y - 2 * (sec x * sec y)) + 1 - sec y - sec x + sec x * sec y"
      using l u xy w by (simp add: share_simps gf_PF)
    have d: "gf_rep (sec (share_sub a c)) = (gf_rep (sec a) - gf_rep (sec c)) mod pf_p"
      using assms(2,3) by (simp add: share_simps gf_rep_of_int [symmetric])
    have "sec ?z = of_bool (gf_rep (sec a) < gf_rep (sec c))"
      if "sec wz = of_bool ?W" "sec x = of_bool ?X" "sec y = of_bool ?Y"
      unfolding z that by (rule comparison_cases) (simp_all add: gf_rep_bounds d)
    then have "I (b \<and> sec ?z = of_bool (gf_rep (sec a) < gf_rep (sec c))) w5"
      by (intro weaken [OF w5]) blast
    then show "Q ?z w5" using l u by (intro post) auto
  qed
qed

lemma equality:
  assumes "I b w" "length a = n" "length c = n"
    and post: "\<And>z w'. I (b \<and> sec z = of_bool (sec a = sec c)) w' \<Longrightarrow> length z = n \<Longrightarrow> Q z w'"
  shows "wpS E Q (equalityTest fuel a c) w"
proof -
  have w: "n_parties w = n" "w_sp w = sp" "sp < n" using parties [OF assms(1)] by auto
  let ?x = "\<lambda>rs. getVal (recons (share_add (share_sub a c) (BStoSC n rs)))"
  let ?d = "\<lambda>rs. map (\<lambda>i. if ?x rs div 2 ^ (pf_l - 1 - i) mod 2 = 1 then rs ! i else share_csub sp 1 (rs ! i)) [0..<pf_l]"
  show ?thesis
    unfolding equalityTest_def wpS_withW Let_def w wpS_bindS
  proof (rule rbvs [OF assms(1)])
    fix rs w1
    assume w1: "I (b \<and> isbits rs \<and> bits_value rs < pf_p) w1" and rs: "shares_n n pf_l rs"
    let ?v = "bits_value rs"
    have len: "length rs = 64" "\<And>i. i < 64 \<Longrightarrow> length (rs ! i) = n"
      using rs by (auto simp: shares_n_def pf_l_def)
    have x: "?x rs = gf_rep (sec a - sec c + of_int ?v)"
      using BStoSC_value [OF rs] assms(2,3) by (simp add: getVal_recons share_simps)
    have d: "shares_n n pf_l (?d rs)"
      using len by (intro shares_nI) (auto simp: pf_l_def)
    have bit: "sec (?d rs ! i) = of_bool (odd (?x rs div 2 ^ (63 - i)) = odd (?v div 2 ^ (63 - i)))"
      if i: "i < 64" and rb: "isbits rs" for i
    proof -
      have "odd (?v div 2 ^ (63 - i)) \<longleftrightarrow> sec (rs ! i) = 1"
        using bv_bit [of i "map (\<lambda>x. sec x = 1) rs"] len i by (simp add: bits_value_bv [OF rb])
      moreover have "sec (rs ! i) = 0 \<or> sec (rs ! i) = 1"
        using rb len i by (simp add: isbits_def)
      ultimately show ?thesis
        using i len w(3) by (auto simp: pf_l_def share_simps odd_iff_mod_2_eq_one)
    qed
    show "wpS E Q (subUnboundedFanInAnd (?d rs)) w1"
    proof (rule fan_in_and [OF w1 d])
      show "isbits (?d rs)" if "b \<and> isbits rs \<and> ?v < pf_p"
        using bit that by (intro bits_nth [of _ 64 "\<lambda>i. odd (?x rs div 2 ^ (63 - i)) = odd (?v div 2 ^ (63 - i))"])
          (simp_all add: pf_l_def)
      fix z w2
      assume z: "I ((b \<and> isbits rs \<and> ?v < pf_p) \<and> sec z = of_bool (\<forall>x \<in> set (?d rs). sec x = 1)) w2" "length z = n"
      have "I (b \<and> sec z = of_bool (sec a = sec c)) w2"
      proof (rule weaken [OF z(1)])
        assume *: "(b \<and> isbits rs \<and> ?v < pf_p) \<and> sec z = of_bool (\<forall>x \<in> set (?d rs). sec x = 1)"
        then have rb: "isbits rs" and v: "0 \<le> ?v" "?v < pf_p" using bits_value_bounds [of rs] by auto
        have "(\<forall>x \<in> set (?d rs). sec x = 1) \<longleftrightarrow> (\<forall>i < 64. sec (?d rs ! i) = 1)"
          unfolding all_set_conv_all_nth by (simp only: length_map length_upt pf_l_def diff_zero)
        also have "\<dots> \<longleftrightarrow> (\<forall>i < 64. odd (?x rs div 2 ^ (63 - i)) = odd (?v div 2 ^ (63 - i)))"
          using bit rb by (auto simp del: nth_map)
        also have "\<dots> \<longleftrightarrow> (\<forall>i < 64. odd (?x rs div 2 ^ i) = odd (?v div 2 ^ i))"
          by (rule reversed_index)
        also have "\<dots> \<longleftrightarrow> ?x rs = ?v"
        proof -
          have "0 \<le> ?x rs" "?x rs < pf_p" by (rule recons_canonical)+
          with v show ?thesis by (intro int_eq_bits [symmetric]) (simp_all add: pf_p_def)
        qed
        also have "\<dots> \<longleftrightarrow> sec a = sec c"
          unfolding x by (rule equality_mask [OF v])
        finally show "b \<and> sec z = of_bool (sec a = sec c)" using * by simp
      qed
      then show "Q z w2" using z(2) by (rule post)
    qed
  qed
qed

end

context pf_gates
begin

lemma interval_decide:
  assumes "I b w" "shares_n n pf_l rs" "b \<Longrightarrow> isbits rs" "canonical c" "intervalBounds c1 c c2 = Inr (low, high)"
    "canonical low" "canonical high"
    and post: "\<And>z w'. I (b \<and> sec z = of_bool (interval_answer (bits_value rs) c1 c c2 low high)) w' \<Longrightarrow>
      length z = n \<Longrightarrow> Q z w'"
  shows "wpS E Q (intervalDecide c1 c c2 rs) w"
proof -
  have w: "w_sp w = sp" "sp < n" using parties [OF assms(1)] by auto
  note rs = assms(2) [unfolded pf_l_def]
  let ?r = "bits_value rs"
  show ?thesis
    unfolding intervalDecide_def wpS_withW w wpS_bindS wpS_liftS assms(5) wpE_Inr prod.case wpS_retS
  proof (rule PFtoBS_rule [OF assms(1)], use assms(6) in \<open>simp add: canonical_def\<close>, use assms(6) in \<open>simp add: canonical_def\<close>,
      rule PFtoBS_rule, assumption, use assms(7) in \<open>simp add: canonical_def\<close>, use assms(7) in \<open>simp add: canonical_def\<close>)
    fix ls w1 hs w2
    assume w2: "I b w2" and ls: "shares_n n pf_l ls" "isbits ls" "bits_value ls = getVal low"
      and hs: "shares_n n pf_l hs" "isbits hs" "bits_value hs = getVal high"
    note ls' = ls(1) [unfolded pf_l_def] and hs' = hs(1) [unfolded pf_l_def]
    show "wpS E (\<lambda>u. wpS E (\<lambda>v. wpS E (\<lambda>uv. Q (if c1 < c \<and> c < c2 then share_csub sp 1 uv else uv)) (pf_share_mult u v))
        (subBitwiseLessThan rs hs)) (subBitwiseLessThan ls rs) w2"
    proof (rule bitwise_less [OF w2 ls' rs], use assms(3) ls(2) in blast,
        rule bitwise_less [OF _ rs hs'], assumption, use assms(3) hs(2) in blast, rule mult, assumption, assumption, assumption)
      fix u w3 v w4 z w5
      assume u: "length u = n" and v: "length v = n" and z: "length z = n" "sec z = sec u * sec v"
        and w5: "I ((b \<and> sec u = of_bool (bits_value ls < ?r)) \<and> sec v = of_bool (?r < bits_value hs)) w5"
      let ?z = "if c1 < c \<and> c < c2 then share_csub sp 1 z else z"
      have "I (b \<and> sec ?z = of_bool (interval_answer ?r c1 c c2 low high)) w5"
        using z w(2) ls(3) hs(3) by (intro weaken [OF w5]) (auto simp: share_simps interval_answer_def)
      then show "Q ?z w5" using z(1) by (intro post) auto
    qed
  qed
qed

end

subsection \<open>Properties\<close>

text \<open>
  Both interpretations at once: whatever the random numbers, a protocol ends in its result or runs out of
  fuel, and with random numbers of the range \<open>lucky\<close> it ends with no mask equal to 0.
\<close>

lemma protocol_outcome:
  assumes "wpS (\<lambda>e. e = OutOfFuel) (\<lambda>z w'. any_inv P T J n sp (R z) w' \<and> L z) m w"
    and "P = lucky n \<and> w_ok w \<and> 0 < fuel \<Longrightarrow> wpS (\<lambda>_. False) (\<lambda>z w'. lucky_inv T J n sp True w') m w"
  shows "(case m w of
      Inl e \<Rightarrow> e = OutOfFuel
    | Inr (z, w') \<Rightarrow> wf_world P T J n sp w' \<and> L z \<and> (w_ok w' \<longrightarrow> R z)) \<and>
    (P = lucky n \<and> w_ok w \<and> 0 < fuel \<longrightarrow> (\<exists>z w'. m w = Inr (z, w') \<and> w_ok w'))"
  using assms by (auto simp: wpS_def wpE_def any_inv_def lucky_inv_def split: sum.splits)

lemma fuel_Suc: "0 < fuel \<Longrightarrow> (\<And>k. wpS E Q (m (Suc k)) w) \<Longrightarrow> wpS E Q (m fuel) w"
  by (cases fuel) auto

lemma of_bool_val: "sec z = of_bool b \<Longrightarrow> getVal (recons z) = (if b then 1 else 0)"
  using bit_val by auto

lemma any_start: "wf_world P T J n sp w \<Longrightarrow> any_inv P T J n sp True w"
  by (simp add: any_inv_def)

lemma lucky_start: "wf_world P T J n sp w \<Longrightarrow> P = lucky n \<and> w_ok w \<and> 0 < fuel \<Longrightarrow> lucky_inv T J n sp True w"
  by (simp add: lucky_inv_def)

text \<open>
  C1. \<open>comparisonTest\<close> on shares of \<open>a\<close> and \<open>b\<close>: the only way to fail is to run out of fuel while drawing
  random bits; if no fan-in mask was 0, the opened result is 1 if \<open>a < b\<close> (as stored values below \<open>p\<close>)
  and 0 otherwise. With random numbers of the range \<open>lucky\<close> it returns, with masks different from 0.
\<close>

theorem comparisonTest_correct:
  assumes "wf_world P T J n sp w" "length a = n" "length b = n"
  shows "(case comparisonTest fuel a b w of
      Inl e \<Rightarrow> e = OutOfFuel
    | Inr (z, w') \<Rightarrow> wf_world P T J n sp w' \<and> length z = n \<and>
        (w_ok w' \<longrightarrow> getVal (recons z) = (if getVal (recons a) < getVal (recons b) then 1 else 0))) \<and>
    (P = lucky n \<and> w_ok w \<and> 0 < fuel \<longrightarrow> (\<exists>z w'. comparisonTest fuel a b w = Inr (z, w') \<and> w_ok w'))"
proof (rule protocol_outcome)
  show "wpS (\<lambda>e. e = OutOfFuel) (\<lambda>z w'. any_inv P T J n sp
      (getVal (recons z) = (if getVal (recons a) < getVal (recons b) then 1 else 0)) w' \<and> length z = n)
      (comparisonTest fuel a b) w"
    by (rule any.comparison [OF any_start [OF assms(1)] assms(2,3)])
      (use of_bool_val in \<open>auto simp: any_inv_def getVal_recons\<close>)
  assume l: "P = lucky n \<and> w_ok w \<and> 0 < fuel"
  show "wpS (\<lambda>_. False) (\<lambda>z w'. lucky_inv T J n sp True w') (comparisonTest fuel a b) w"
    by (rule fuel_Suc [of fuel], use l in blast,
        rule lucky.comparison [OF lucky_start [OF assms(1) l] assms(2,3)]) (simp add: lucky_inv_def)
qed

theorem comparisonTest_correct_witness:
  "\<exists>z w'. comparisonTest 1 [PF 3, PF 4] [PF 10, PF (pf_p - 1)] lucky_world = Inr (z, w') \<and> getVal (recons z) = 1"
proof -
  have "getVal (recons [PF 3, PF 4]) = 7" "getVal (recons [PF 10, PF (pf_p - 1)]) = 9"
    by (simp_all add: recons_def zero_pf_def plus_pf_def pf_p_def)
  with comparisonTest_correct [OF wf_lucky_world(1), of "[PF 3, PF 4]" "[PF 10, PF (pf_p - 1)]" 1] wf_lucky_world(2)
  show ?thesis by fastforce
qed

text \<open>
  C16. \<open>equalityTest\<close> on shares of \<open>a\<close> and \<open>b\<close>: the only way to fail is to run out of fuel; if no mask was
  0, the opened result is 1 if the secrets are equal and 0 otherwise. With random numbers of the range
  \<open>lucky\<close> it returns.
\<close>

theorem equalityTest_correct:
  assumes "wf_world P T J n sp w" "length a = n" "length b = n"
  shows "(case equalityTest fuel a b w of
      Inl e \<Rightarrow> e = OutOfFuel
    | Inr (z, w') \<Rightarrow> wf_world P T J n sp w' \<and> length z = n \<and>
        (w_ok w' \<longrightarrow> getVal (recons z) = (if getVal (recons a) = getVal (recons b) then 1 else 0))) \<and>
    (P = lucky n \<and> w_ok w \<and> 0 < fuel \<longrightarrow> (\<exists>z w'. equalityTest fuel a b w = Inr (z, w') \<and> w_ok w'))"
proof (rule protocol_outcome)
  have eq: "getVal (recons a) = getVal (recons b) \<longleftrightarrow> sec a = sec b"
    using of_int_getVal_recons by (metis getVal_recons)
  show "wpS (\<lambda>e. e = OutOfFuel) (\<lambda>z w'. any_inv P T J n sp
      (getVal (recons z) = (if getVal (recons a) = getVal (recons b) then 1 else 0)) w' \<and> length z = n)
      (equalityTest fuel a b) w"
    unfolding eq by (rule any.equality [OF any_start [OF assms(1)] assms(2,3)])
      (use of_bool_val in \<open>auto simp: any_inv_def\<close>)
  assume l: "P = lucky n \<and> w_ok w \<and> 0 < fuel"
  show "wpS (\<lambda>_. False) (\<lambda>z w'. lucky_inv T J n sp True w') (equalityTest fuel a b) w"
    by (rule fuel_Suc [of fuel], use l in blast,
        rule lucky.equality [OF lucky_start [OF assms(1) l] assms(2,3)]) (simp add: lucky_inv_def)
qed

theorem equalityTest_correct_witness:
  "\<exists>z w'. equalityTest 1 [PF 3, PF 4] [PF 8, PF (pf_p - 1)] lucky_world = Inr (z, w') \<and> getVal (recons z) = 1"
proof -
  have "getVal (recons [PF 3, PF 4]) = 7" "getVal (recons [PF 8, PF (pf_p - 1)]) = 7"
    by (simp_all add: recons_def zero_pf_def plus_pf_def pf_p_def)
  with equalityTest_correct [OF wf_lucky_world(1), of "[PF 3, PF 4]" "[PF 8, PF (pf_p - 1)]" 1] wf_lucky_world(2)
  show ?thesis by fastforce
qed

text \<open>
  C29. The block-wise \<open>subPrefixOr\<close> agrees with the specification of a prefix-OR: it always returns, and if
  no mask was 0, bit \<open>k\<close> of the result is 1 exactly if one of the first \<open>k + 1\<close> input bits is.
\<close>

theorem subPrefixOr_correct:
  assumes "wf_world P T J n sp w" "shares_n n 64 a" "isbits a"
  shows "\<exists>ys w'. subPrefixOr a w = Inr (ys, w') \<and> wf_world P T J n sp w' \<and> shares_n n 64 ys \<and>
    (w_ok w' \<longrightarrow> map (\<lambda>y. getVal (recons y)) ys = map (\<lambda>k. if \<exists>m \<le> k. sec (a ! m) = 1 then 1 else 0) [0..<64])"
proof (rule wpS_total [THEN iffD1], rule gates.prefix_or [OF any_start [OF assms(1)] assms(2,3)])
  fix ys w'
  assume w': "any_inv P T J n sp (True \<and> (\<forall>k<64. sec (ys ! k) = of_bool (\<exists>m\<le>k. sec (a ! m) = 1))) w'"
    and ys: "shares_n n 64 ys"
  have "map (\<lambda>y. getVal (recons y)) ys = map (\<lambda>k. if \<exists>m \<le> k. sec (a ! m) = 1 then 1 else 0) [0..<64]" if "w_ok w'"
    using w' ys that
    by (intro nth_equalityI) (simp_all add: any_inv_def shares_n_def of_bool_val)
  with w' ys show "wf_world P T J n sp w' \<and> shares_n n 64 ys \<and>
    (w_ok w' \<longrightarrow> map (\<lambda>y. getVal (recons y)) ys = map (\<lambda>k. if \<exists>m \<le> k. sec (a ! m) = 1 then 1 else 0) [0..<64])"
    by (simp add: any_inv_def)
qed

theorem subPrefixOr_correct_witness:
  "\<exists>ys w'. subPrefixOr (replicate 64 [PF 3, PF (pf_p - 2)]) lucky_world = Inr (ys, w') \<and> length ys = 64"
proof -
  have "shares_n 2 64 (replicate 64 [PF 3, PF (pf_p - 2)])" "isbits (replicate 64 [PF 3, PF (pf_p - 2)])"
    by (simp_all add: shares_n_def isbits_def sec_def gf_PF)
  from subPrefixOr_correct [OF wf_lucky_world(1) this] show ?thesis
    by (auto simp: shares_n_def)
qed

text \<open>
  The decision step of \<open>intervalTest\<close>, for bits of a mask \<open>r < p\<close> and the opened \<open>c = a + r\<close>: it
  returns, and if no mask was 0 the result is 1 exactly if \<open>c1 < a < c2\<close>, unless the opened value is
  \<open>c1\<close> or \<open>c2 - 1\<close>; when it is \<open>c2 - 1\<close>, the upper bound wraps around to 0 and the result is 1 for every \<open>r\<close>.
\<close>

theorem intervalDecide_correct:
  assumes "wf_world P T J n sp w" "shares_n n 64 rs" "isbits rs" "bits_value rs < pf_p"
    "canonical c1" "canonical c" "canonical c2" "c1 < c2" "c1 \<noteq> c"
  shows "\<exists>z w'. intervalDecide c1 c c2 rs w = Inr (z, w') \<and> wf_world P T J n sp w' \<and>
    (w_ok w' \<longrightarrow> getVal (recons z) =
       (if (getVal c1 < (getVal c - bits_value rs) mod pf_p \<and> (getVal c - bits_value rs) mod pf_p < getVal c2) \<or>
           c + 1 = c2 then 1 else 0))"
proof -
  obtain low high where b: "intervalBounds c1 c c2 = Inr (low, high)" "canonical low" "canonical high"
    by (cases "c1 < c \<and> c < c2"; cases "c2 \<le> c") (simp_all add: intervalBounds_eq)
  have r: "0 \<le> bits_value rs" using bits_value_bounds [OF assms(3)] by simp
  have ans: "interval_answer (bits_value rs) c1 c c2 low high \<longleftrightarrow>
      (getVal c1 < (getVal c - bits_value rs) mod pf_p \<and> (getVal c - bits_value rs) mod pf_p < getVal c2) \<or>
      c + 1 = c2"
  proof (cases "c + 1 = c2")
    case True
    have "getVal c + 1 < pf_p \<or> getVal c + 1 = pf_p"
      using assms(6) by (auto simp: canonical_def)
    then have c2: "getVal c + 1 < pf_p" "getVal c2 = getVal c + 1"
      using pf_add_val(1,2) [OF assms(6)] assms(5,8) True by (auto simp: canonical_def less_pf_def pf_less_def not_less)
    moreover have "c1 < c"
      using assms(8,9) c2 pf.expand [of c1 c] by (auto simp: less_pf_def pf_less_def order_less_le)
    ultimately show ?thesis
      using interval_answer_wraps [OF assms(6,7) _ True _ r b(1)] True by simp
  next
    case False
    with assms r show ?thesis
      using interval_answer_correct [OF assms(5-8) r assms(4) b(1)] by simp
  qed
  show ?thesis
    unfolding ans [symmetric]
    by (rule wpS_total [THEN iffD1], rule gates.interval_decide [OF any_start [OF assms(1)] _ assms(3,6) b])
      (use assms(2) in \<open>auto simp: any_inv_def pf_l_def of_bool_val\<close>)
qed

theorem intervalDecide_correct_witness:
  "\<exists>z w'. intervalDecide (PF 3) (PF 8) (PF 9) (replicate 64 [PF 0, PF 0]) lucky_world = Inr (z, w') \<and>
     (w_ok w' \<longrightarrow> getVal (recons z) = 1)"
proof -
  have 1: "shares_n 2 64 (replicate 64 [PF 0, PF 0])" "isbits (replicate 64 [PF 0, PF 0])"
    by (simp_all add: shares_n_def isbits_def sec_def gf_PF)
  have 2: "bits_value (replicate 64 [PF 0, PF 0]) = 0"
    by (rule bits_value_zero) (simp add: sec_def gf_PF)
  have 3: "canonical (PF 3)" "canonical (PF 8)" "canonical (PF 9)" "PF 3 < PF 9" "PF 3 \<noteq> PF 8" "PF 8 + 1 = PF 9"
    by (simp_all add: canonical_def pf_p_def less_pf_def pf_less_def one_pf_def plus_pf_def)
  show ?thesis
    using intervalDecide_correct [OF wf_lucky_world(1) 1 _ 3(1-5)] 2 3(6) by (auto simp: pf_p_def)
qed

end
