(* ===== verification/Doubles.thy ===== *)
theory Doubles
  imports FixedPoint Complex_Main "HOL-Library.Log_Nat"
begin

section \<open>Double precision\<close>

text \<open>
  The fixed-point code leaves its integers for \<open>double\<close> in three places: \<open>getDoubleVal\<close>, the
  constructor from a floating-point number, and \<open>std::round\<close> and \<open>std::sqrt\<close> on opened values. A
  double is modelled by the rational number it denotes; every operation rounds the exact result to
  53 significant bits, half to even (\<open>rnd\<close>). The exponent is unbounded downwards (the code has no values near
  the smallest normal double); a magnitude of at least \<open>2 ^ 1024\<close> is an infinity.

  The conversions between \<open>cpp_int\<close>, 50-digit decimals and doubles belong to Boost. They are the record \<open>boost\<close>, an
  argument of the definitions that use them, and \<open>boost_ok\<close> states what the code relies on.
\<close>

subsection \<open>Rounding to 53 bits\<close>

definition elog :: "rat \<Rightarrow> int" where
  "elog x = (let (a, b) = quotient_of \<bar>x\<bar>; k = bitlen a - bitlen b
             in if 2 powi k \<le> \<bar>x\<bar> then k else k - 1)"

definition half_even :: "rat \<Rightarrow> int" where
  "half_even y = (let f = \<lfloor>y\<rfloor>; d = y - of_int f
                  in if d < 1 / 2 \<or> (d = 1 / 2 \<and> even f) then f else f + 1)"

definition rnd :: "rat \<Rightarrow> rat" where
  "rnd x = (if x = 0 then 0 else let u = 2 powi (elog x - 52) in of_int (half_even (x / u)) * u)"

lemma elog_bounds:
  assumes "x \<noteq> 0"
  shows "2 powi elog x \<le> \<bar>x\<bar>" "\<bar>x\<bar> < 2 powi (elog x + 1)"
proof -
  obtain a b where ab: "quotient_of \<bar>x\<bar> = (a, b)" by fastforce
  from quotient_of_denom_pos [OF ab] have b: "0 < b" .
  have x: "\<bar>x\<bar> = of_int a / of_int b"
    using quotient_of_div [OF ab] .
  with assms b have a: "0 < a"
    by (metis abs_ge_zero abs_zero divide_eq_0_iff of_int_0_less_iff of_int_pos order_le_less zero_less_abs_iff
        zero_less_divide_iff less_asym)
  have pos: "0 < bitlen a" "0 < bitlen b"
    using a b bitlen_eq_zero_iff bitlen_nonneg by (metis leD order_le_less)+
  have A: "2 powi (bitlen a - 1) \<le> (of_int a :: rat)" "(of_int a :: rat) < 2 powi bitlen a"
    and B: "2 powi (bitlen b - 1) \<le> (of_int b :: rat)" "(of_int b :: rat) < 2 powi bitlen b"
    using bitlen_bounds [OF a] bitlen_bounds [OF b] pos
    by (simp_all add: power_int_def flip: of_int_power_le_of_int_cancel_iff [where 'a = rat]
        of_int_less_of_int_power_cancel_iff [where 'a = rat])
  let ?k = "bitlen a - bitlen b"
  have up: "\<bar>x\<bar> < 2 powi (?k + 1)"
  proof -
    have "of_int a < 2 powi (?k + 1) * (2 powi (bitlen b - 1) :: rat)"
      using A(2) by (simp flip: power_int_add)
    also have "\<dots> \<le> 2 powi (?k + 1) * of_int b"
      using B(1) by (intro mult_left_mono) auto
    finally show ?thesis
      using b by (simp add: x pos_divide_less_eq)
  qed
  have low: "2 powi (?k - 1) \<le> \<bar>x\<bar>"
  proof -
    have "2 powi (?k - 1) * of_int b \<le> (2 powi (?k - 1) * 2 powi bitlen b :: rat)"
      using B(2) by (intro mult_left_mono) auto
    also have "\<dots> \<le> of_int a"
      using A(1) by (simp flip: power_int_add)
    finally show ?thesis
      using b by (simp add: x pos_le_divide_eq)
  qed
  show "2 powi elog x \<le> \<bar>x\<bar>" "\<bar>x\<bar> < 2 powi (elog x + 1)"
    using up low by (auto simp: elog_def ab Let_def)
qed

lemma half_even_close: "\<bar>of_int (half_even y) - y\<bar> \<le> 1 / 2"
proof -
  have "of_int \<lfloor>y\<rfloor> \<le> y" "y < of_int \<lfloor>y\<rfloor> + 1"
    by linarith+
  then show ?thesis
    by (auto simp: half_even_def Let_def)
qed

lemma half_even_int [simp]: "half_even (of_int m) = m"
  by (simp add: half_even_def Let_def)

lemma rnd_0 [simp]: "rnd 0 = 0"
  by (simp add: rnd_def)

lemma rnd_close: "\<bar>rnd x - x\<bar> * 2 ^ 53 \<le> \<bar>x\<bar>"
proof (cases "x = 0")
  case False
  define u :: rat where "u = 2 powi (elog x - 52)"
  have u: "0 < u" by (simp add: u_def)
  have "rnd x - x = (of_int (half_even (x / u)) - x / u) * u"
    using False u by (simp add: rnd_def u_def left_diff_distrib Let_def)
  then have "\<bar>rnd x - x\<bar> \<le> 1 / 2 * u"
    using half_even_close [of "x / u"] u by (simp add: abs_mult)
  moreover have "u * 2 ^ 52 = 2 powi elog x"
    using power_int_add [of "2 :: rat" "elog x - 52" 52] by (simp add: u_def)
  ultimately show ?thesis
    using elog_bounds(1) [OF False] by simp
qed simp

lemma rnd_exact:
  assumes "x = of_int m * 2 powi e" "\<bar>m\<bar> \<le> 2 ^ 53"
  shows "rnd x = x"
proof (cases "x = 0")
  case False
  define u :: rat where "u = 2 powi (elog x - 52)"
  have u: "0 < u" by (simp add: u_def)
  have ax: "\<bar>x\<bar> = of_int \<bar>m\<bar> * 2 powi e"
    by (simp add: assms(1) abs_mult)
  have m53: "of_int \<bar>m\<bar> \<le> (2 ^ 53 :: rat)"
    using assms(2) by (metis of_int_le_iff of_int_numeral of_int_power)
  have "2 powi elog x \<le> (2 ^ 53 * 2 powi e :: rat)"
    using elog_bounds(1) [OF False] mult_right_mono [OF m53, of "2 powi e"] ax
    by (metis order_trans zero_le_power_int zero_le_numeral)
  also have "\<dots> = 2 powi (53 + e)"
    by (simp add: power_int_add)
  finally have le: "elog x \<le> 53 + e"
    using power_int_strict_increasing [of "53 + e" "elog x" "2 :: rat"] by (meson leD leI one_less_numeral_iff semiring_norm(76))
  have "\<exists>k. x / u = of_int k"
  proof (cases "elog x = 53 + e")
    case True
    have "2 powi (53 + e) \<le> of_int \<bar>m\<bar> * (2 powi e :: rat)"
      using elog_bounds(1) [OF False] ax True by simp
    then have "2 ^ 53 * (2 powi e :: rat) \<le> of_int \<bar>m\<bar> * 2 powi e"
      by (simp add: power_int_add)
    then have "(2 :: rat) ^ 53 \<le> of_int \<bar>m\<bar>"
      by simp
    then have "(2 :: int) ^ 53 \<le> \<bar>m\<bar>"
      by (metis of_int_le_iff of_int_numeral of_int_power)
    with assms(2) have "m = 2 ^ 53 \<or> m = - (2 ^ 53)" by linarith
    moreover have "u = 2 * 2 powi e"
      using True power_int_add [of "2 :: rat" 1 e] by (simp add: u_def add.commute)
    ultimately have "x / u = of_int (2 ^ 52) \<or> x / u = of_int (- (2 ^ 52))"
      by (auto simp: assms(1))
    then show ?thesis by blast
  next
    case False
    define n where "n = nat (e - (elog x - 52))"
    have "e = (elog x - 52) + int n"
      using False le by (simp add: n_def)
    then have "2 powi e = u * 2 ^ n"
      by (simp add: u_def power_int_add)
    then have "x / u = of_int (m * 2 ^ n)"
      using u by (simp add: assms(1))
    then show ?thesis by blast
  qed
  then obtain k where k: "x / u = of_int k" by blast
  then have "x = of_int k * u"
    using u by (simp add: divide_eq_eq)
  moreover have "rnd x = of_int (half_even (x / u)) * u"
    using False by (simp add: rnd_def Let_def u_def)
  ultimately show ?thesis
    using k by (metis half_even_int)
qed simp

lemma rnd_int [simp]: "\<bar>m\<bar> \<le> 2 ^ 53 \<Longrightarrow> rnd (of_int m) = of_int m"
  using rnd_exact [of "of_int m" m 0] by simp

lemma rnd_shifted: "\<bar>m\<bar> \<le> 2 ^ 53 \<Longrightarrow> rnd (of_int (m * 2 ^ k)) = of_int (m * 2 ^ k)"
  using rnd_exact [of "of_int (m * 2 ^ k)" m "int k"] by simp

text \<open>\<open>std::round\<close>, half away from zero, and the truncating cast to an integer.\<close>

definition round_away :: "rat \<Rightarrow> int" where
  "round_away y = (if 0 \<le> y then \<lfloor>y + 1 / 2\<rfloor> else - \<lfloor>1 / 2 - y\<rfloor>)"

definition dtrunc :: "rat \<Rightarrow> int" where
  "dtrunc y = (if 0 \<le> y then \<lfloor>y\<rfloor> else \<lceil>y\<rceil>)"

lemma round_away_close: "\<bar>of_int (round_away y) - y\<bar> \<le> 1 / 2"
proof (cases "0 \<le> y")
  case True
  have "of_int \<lfloor>y + 1 / 2\<rfloor> \<le> y + 1 / 2" "y + 1 / 2 < of_int \<lfloor>y + 1 / 2\<rfloor> + 1"
    by linarith+
  with True show ?thesis unfolding round_away_def if_P [OF True] by arith
next
  case False
  have "of_int \<lfloor>1 / 2 - y\<rfloor> \<le> 1 / 2 - y" "1 / 2 - y < of_int \<lfloor>1 / 2 - y\<rfloor> + 1"
    by linarith+
  with False show ?thesis unfolding round_away_def if_not_P [OF False] of_int_minus by arith
qed

lemma dtrunc_int [simp]: "dtrunc (of_int m) = m"
  by (simp add: dtrunc_def)

subsection \<open>Square roots\<close>

fun isqrt :: "nat \<Rightarrow> nat" where
  "isqrt n = (if n = 0 then 0
              else let r = 2 * isqrt (n div 4) in if (r + 1) * (r + 1) \<le> n then r + 1 else r)"

declare isqrt.simps [simp del]

lemma isqrt_bounds: "isqrt n * isqrt n \<le> n \<and> n < (isqrt n + 1) * (isqrt n + 1)"
proof (induction n rule: isqrt.induct)
  case (1 n)
  show ?case
  proof (cases "n = 0")
    case True
    then show ?thesis by (simp add: isqrt.simps)
  next
    case False
    define r where "r = isqrt (n div 4)"
    have "r * r \<le> n div 4" "n div 4 < (r + 1) * (r + 1)"
      using "1.IH" [OF False] by (simp_all add: r_def)
    then have "4 * (r * r) \<le> n" "n < 4 * ((r + 1) * (r + 1))"
      by linarith+
    then have "2 * r * (2 * r) \<le> n" "n < (2 * r + 2) * (2 * r + 2)"
      by (simp_all add: algebra_simps)
    moreover have "isqrt n = (if (2 * r + 1) * (2 * r + 1) \<le> n then 2 * r + 1 else 2 * r)"
      using False by (subst isqrt.simps) (simp add: r_def Let_def)
    ultimately show ?thesis
      by (auto simp: not_le)
  qed
qed

lemma isqrt_square [simp]: "isqrt (k * k) = k"
proof -
  have "isqrt (k * k) * isqrt (k * k) \<le> k * k" "k * k < (isqrt (k * k) + 1) * (isqrt (k * k) + 1)"
    using isqrt_bounds by blast+
  then have "isqrt (k * k) \<le> k" "k < isqrt (k * k) + 1"
    using power2_le_imp_le [of "isqrt (k * k)" k] power2_less_imp_less [of k "isqrt (k * k) + 1"]
    by (simp_all add: power2_eq_square)
  then show ?thesis by linarith
qed

text \<open>
  The square root rounded to nearest: its first 600 binary places, with half a place for a remainder, decide the rounding to
  53 bits for every double.
\<close>

definition dsqrt :: "rat \<Rightarrow> rat" where
  "dsqrt x = (let s = 4 ^ 600 * x; r = isqrt (nat \<lfloor>s\<rfloor>)
              in rnd ((if of_nat (r * r) = s then of_nat r else of_nat r + 1 / 2) / 2 ^ 600))"

lemma dsqrt_square:
  assumes "k \<le> 2 ^ 53"
  shows "dsqrt (of_nat (k * k)) = of_nat k"
proof -
  define r where "r = k * 2 ^ 600"
  have s: "4 ^ 600 * (of_nat (k * k) :: rat) = of_nat (r * r)"
  proof -
    have "(4 :: rat) ^ 600 = 2 ^ 600 * 2 ^ 600"
      by (simp only: power_mult_distrib [symmetric]) simp
    then show ?thesis
      unfolding r_def of_nat_mult of_nat_power of_nat_numeral by (simp only: mult_ac)
  qed
  have "isqrt (nat \<lfloor>of_nat (r * r) :: rat\<rfloor>) = r"
    by (simp only: floor_of_nat nat_int isqrt_square)
  then have "dsqrt (of_nat (k * k)) = rnd (of_nat r / 2 ^ 600)"
    unfolding dsqrt_def Let_def s by (simp only: refl if_True)
  also have "of_nat r / 2 ^ 600 = (of_int (int k) :: rat)"
    unfolding r_def of_nat_mult of_nat_power of_nat_numeral of_int_of_nat_eq
    by (rule nonzero_mult_div_cancel_right) (rule power_not_zero, simp)
  also have "rnd \<dots> = of_int (int k)"
  proof (rule rnd_int)
    have "int k \<le> int (2 ^ 53)" using assms by (rule of_nat_mono)
    then show "\<bar>int k\<bar> \<le> 2 ^ 53" by simp
  qed
  finally show ?thesis by simp
qed

subsection \<open>Conversions\<close>

record 'd boost =
  decs :: "'d dec"
  to_double :: "int \<Rightarrow> rat"

definition dbl_max :: rat where "dbl_max = (2 ^ 53 - 1) * 2 ^ 971"

definition isinf :: "rat \<Rightarrow> bool" where "isinf v \<longleftrightarrow> 2 ^ 1024 \<le> \<bar>v\<bar>"

definition fp_getDoubleVal :: "'d boost \<Rightarrow> fp \<Rightarrow> rat" where
  "fp_getDoubleVal F x =
     (let ret = to_double F (fpVal x) in rnd ((if isinf ret then dbl_max else ret) / of_int shift))"

definition fp_of_double :: "rat \<Rightarrow> fp" where
  "fp_of_double v = (if isinf v then FP (dtrunc dbl_max) else FP (dtrunc (rnd (v * of_int shift))))"

text \<open>Decimals of this size are far from the limits of their exponent.\<close>

definition dec_range :: int where "dec_range = 10 ^ 1000"

lemma less_dec_range: "v \<le> 10 ^ k \<Longrightarrow> k < 1000 \<Longrightarrow> v < dec_range"
  unfolding dec_range_def by (erule le_less_trans) (rule power_strict_increasing, simp_all)

text \<open>
  What the code relies on: an integer with at most 53 significant bits is converted to a double without loss and any other with
  a relative error below \<open>2 ^ -52\<close>; a quotient of decimals, truncated to an integer, is less than one
  unit away from the exact quotient, up to the relative precision of 48 of the 50 digits.
\<close>

definition boost_ok :: "'d boost \<Rightarrow> bool" where
  "boost_ok F \<longleftrightarrow>
     (\<forall>m k. \<bar>m\<bar> \<le> 2 ^ 53 \<and> k \<le> 900 \<longrightarrow> to_double F (m * 2 ^ k) = of_int (m * 2 ^ k)) \<and>
     (\<forall>v. \<bar>v\<bar> < 2 ^ 1000 \<longrightarrow> \<bar>to_double F v - of_int v\<bar> * 2 ^ 52 \<le> of_int \<bar>v\<bar>) \<and>
     (\<forall>x y. fpVal y \<noteq> 0 \<and> \<bar>fpVal x\<bar> < dec_range \<and> \<bar>fpVal y\<bar> < dec_range \<longrightarrow>
        \<bar>fpVal (fp_div (decs F) x y) * fpVal y - fpVal x * shift\<bar> * 10 ^ 48 \<le>
          \<bar>fpVal y\<bar> * 10 ^ 48 + \<bar>fpVal x * shift\<bar>) \<and>
     (\<forall>x. fpVal x \<noteq> 0 \<and> \<bar>fpVal x\<bar> < dec_range \<longrightarrow>
        \<bar>fpVal (fp_getInv (decs F) x) * fpVal x - shift * shift\<bar> * 10 ^ 48 \<le> \<bar>fpVal x\<bar> * 10 ^ 48 + shift * shift)"

lemma boost_inv:
  assumes "boost_ok F" "fpVal x \<noteq> 0" "\<bar>fpVal x\<bar> < dec_range"
  shows "\<bar>fpVal (fp_getInv (decs F) x) * fpVal x - shift * shift\<bar> \<le> \<bar>fpVal x\<bar>"
proof -
  have "\<bar>fpVal (fp_getInv (decs F) x) * fpVal x - shift * shift\<bar> * 10 ^ 48 \<le> \<bar>fpVal x\<bar> * 10 ^ 48 + shift * shift"
    using assms unfolding boost_ok_def by blast
  then show ?thesis by (simp add: shift_def)
qed

lemma boost_div:
  assumes "boost_ok F" "fpVal y \<noteq> 0" "\<bar>fpVal x\<bar> < dec_range" "\<bar>fpVal y\<bar> < dec_range"
  shows "\<bar>fpVal (fp_div (decs F) x y) * fpVal y - fpVal x * shift\<bar> * 10 ^ 48 \<le>
    \<bar>fpVal y\<bar> * 10 ^ 48 + \<bar>fpVal x * shift\<bar>"
  using assms unfolding boost_ok_def by blast

lemma boost_exact:
  "boost_ok F \<Longrightarrow> \<bar>m\<bar> \<le> 2 ^ 53 \<Longrightarrow> k \<le> 900 \<Longrightarrow> to_double F (m * 2 ^ k) = of_int (m * 2 ^ k)"
  unfolding boost_ok_def by blast

lemma boost_close: "boost_ok F \<Longrightarrow> \<bar>v\<bar> < 2 ^ 1000 \<Longrightarrow> \<bar>to_double F v - of_int v\<bar> * 2 ^ 52 \<le> of_int \<bar>v\<bar>"
  unfolding boost_ok_def by blast

lemma of_int_abs_le: "\<bar>m\<bar> \<le> c \<Longrightarrow> \<bar>of_int m :: rat\<bar> \<le> of_int c"
  by (metis of_int_abs of_int_le_iff)

lemma not_isinf: "\<bar>v\<bar> \<le> 2 ^ 100 \<Longrightarrow> \<not> isinf v"
proof -
  assume "\<bar>v\<bar> \<le> 2 ^ 100"
  moreover have "(2 :: rat) ^ 100 < 2 ^ 1024"
    by (rule power_strict_increasing) auto
  ultimately show ?thesis
    unfolding isinf_def by linarith
qed

lemma fp_getDoubleVal_exact:
  assumes "boost_ok F" "\<bar>m\<bar> * 5 ^ 8 \<le> 2 ^ 53"
  shows "fp_getDoubleVal F (fp_of_int m) = of_int m"
proof -
  have v: "fpVal (fp_of_int m) = (m * 5 ^ 8) * 2 ^ 8"
    by (simp add: fp_of_int_def shift_def)
  have "\<bar>m * 5 ^ 8\<bar> \<le> 2 ^ 53"
    using assms(2) by (simp add: abs_mult)
  then have t: "to_double F (fpVal (fp_of_int m)) = of_int (fpVal (fp_of_int m))"
    unfolding v by (rule boost_exact [OF assms(1)]) simp
  have m: "\<bar>m\<bar> \<le> 2 ^ 53"
    using assms(2) by simp
  have "\<bar>fpVal (fp_of_int m)\<bar> \<le> 2 ^ 100"
    using m by (simp add: fp_of_int_def shift_def abs_mult)
  then have "\<not> isinf (of_int (fpVal (fp_of_int m)))"
    using of_int_abs_le [of "fpVal (fp_of_int m)" "2 ^ 100"] by (intro not_isinf) simp
  then have "fp_getDoubleVal F (fp_of_int m) = rnd (of_int (fpVal (fp_of_int m)) / of_int shift)"
    by (simp add: fp_getDoubleVal_def t Let_def)
  also have "of_int (fpVal (fp_of_int m)) / of_int shift = (of_int m :: rat)"
    by (simp add: fp_of_int_def)
  finally show ?thesis
    using m by simp
qed

lemma fp_getDoubleVal_close:
  assumes "boost_ok F" "\<bar>v\<bar> \<le> 2 ^ 34 * shift"
  shows "\<bar>fp_getDoubleVal F (FP v) * of_int shift - of_int v\<bar> \<le> 600"
proof -
  define t where "t = to_double F v"
  have v: "\<bar>of_int v :: rat\<bar> \<le> 1717986918400000000"
    using of_int_abs_le [OF assms(2)] by (simp add: shift_def)
  have "\<bar>v\<bar> < 2 ^ 1000"
    by (rule le_less_trans [OF assms(2)]) (simp add: shift_def)
  then have t: "\<bar>t - of_int v\<bar> * 2 ^ 52 \<le> \<bar>of_int v\<bar>"
    using boost_close [OF assms(1)] by (simp only: t_def of_int_abs)
  have c: "(2 :: rat) ^ 52 = 4503599627370496" "(2 :: rat) ^ 53 = 9007199254740992"
    by simp_all
  have t1: "\<bar>t - of_int v\<bar> \<le> 382"
  proof -
    have "a * 4503599627370496 \<le> b \<Longrightarrow> b \<le> 1717986918400000000 \<Longrightarrow> a \<le> 382" for a b :: rat
      by linarith
    from this [OF t [unfolded c] v] show ?thesis .
  qed
  with v have t2: "\<bar>t\<bar> \<le> 1717986918400000382"
    by linarith
  have "\<bar>t\<bar> \<le> 2 ^ 100"
    using t2 by (rule order_trans) simp
  then have d: "fp_getDoubleVal F (FP v) = rnd (t / of_int shift)"
    using not_isinf [of t] by (simp add: fp_getDoubleVal_def t_def Let_def)
  define r where "r = rnd (t / of_int shift)"
  have "\<bar>r - t / of_int shift\<bar> * 2 ^ 53 \<le> \<bar>t / of_int shift\<bar>"
    unfolding r_def by (rule rnd_close)
  then have "\<bar>r - t / 100000000\<bar> * 9007199254740992 \<le> \<bar>t / 100000000\<bar>"
    unfolding c by (simp add: shift_def)
  moreover have "\<bar>t / 100000000\<bar> = \<bar>t\<bar> / 100000000" "\<bar>r * 100000000 - t\<bar> = \<bar>r - t / 100000000\<bar> * 100000000"
    using abs_mult [of "r - t / 100000000" 100000000] by (simp_all add: left_diff_distrib)
  moreover have "a * 9007199254740992 \<le> b / 100000000 \<Longrightarrow> b \<le> 1717986918400000382 \<Longrightarrow> a * 100000000 \<le> 200"
    for a b :: rat
    by linarith
  ultimately have "\<bar>r * 100000000 - t\<bar> \<le> 200"
    using t2 by simp
  with t1 show ?thesis
    unfolding d r_def [symmetric] by (simp add: shift_def)
qed

lemma fp_of_double_int:
  assumes "\<bar>m\<bar> \<le> 2 ^ 34"
  shows "fp_of_double (of_int m) = fp_of_int m"
proof -
  have "\<bar>of_int m :: rat\<bar> \<le> 2 ^ 100"
    using of_int_abs_le [OF assms] by simp
  then have ni: "\<not> isinf (of_int m)"
    by (rule not_isinf)
  have "\<bar>m * 5 ^ 8\<bar> \<le> 2 ^ 53"
    using assms by (simp add: abs_mult)
  from rnd_shifted [OF this, of 8] have "rnd (of_int m * of_int shift) = of_int (m * shift)"
    by (simp add: shift_def mult.commute)
  with ni show ?thesis
    unfolding fp_of_double_def by (simp only: if_False dtrunc_int fp_of_int_def)
qed

lemma fp_of_double_half [simp]: "fp_of_double (1 / 2) = FP 50000000"
proof -
  have "\<not> isinf (1 / 2)"
    by (rule not_isinf) simp
  moreover have "rnd (1 / 2 * of_int shift) = of_int 50000000"
    using rnd_int [of 50000000] by (simp add: shift_def)
  ultimately show ?thesis
    unfolding fp_of_double_def by (simp only: if_False dtrunc_int)
qed

text \<open>An instance: exact rational arithmetic with the conversions rounded or truncated at the end.\<close>

definition ref_boost :: "rat boost" where
  "ref_boost = \<lparr>decs = \<lparr>d_of_string = (\<lambda>_. 0), d_of_int = of_int, d_isinf = (\<lambda>_. False), d_max = 0,
      d_mul = (*), d_div = (/), d_to_int = dtrunc, d_str20 = (\<lambda>_. [])\<rparr>,
    to_double = (\<lambda>v. rnd (of_int v))\<rparr>"

lemma dtrunc_close: "\<bar>of_int (dtrunc y) - y\<bar> < 1"
proof (cases "0 \<le> y")
  case True
  have "of_int \<lfloor>y\<rfloor> \<le> y" "y < of_int \<lfloor>y\<rfloor> + 1"
    by linarith+
  with True show ?thesis by (simp add: dtrunc_def)
next
  case False
  have "y \<le> of_int \<lceil>y\<rceil>" "of_int \<lceil>y\<rceil> < y + 1"
    by linarith+
  with False show ?thesis by (simp add: dtrunc_def)
qed

lemma boost_ok_ref: "boost_ok ref_boost"
proof -
  have div: "\<bar>fpVal (fp_div (decs ref_boost) x y) * fpVal y - fpVal x * shift\<bar> * 10 ^ 48 \<le>
      \<bar>fpVal y\<bar> * 10 ^ 48 + \<bar>fpVal x * shift\<bar>" if y: "fpVal y \<noteq> 0" for x y
  proof -
    define e :: rat where "e = of_int (fpVal x) / of_int (fpVal y) * of_int shift"
    have "\<bar>of_int (dtrunc e) - e\<bar> * \<bar>of_int (fpVal y)\<bar> \<le> 1 * \<bar>of_int (fpVal y)\<bar>"
      using dtrunc_close [of e] by (intro mult_right_mono) auto
    moreover have "(of_int (dtrunc e) - e) * of_int (fpVal y) =
        of_int (dtrunc e * fpVal y - fpVal x * shift)"
      using y by (simp add: e_def left_diff_distrib)
    ultimately have "\<bar>dtrunc e * fpVal y - fpVal x * shift\<bar> \<le> \<bar>fpVal y\<bar>"
      by (metis abs_mult mult_1 of_int_abs of_int_le_iff)
    then have "\<bar>dtrunc e * fpVal y - fpVal x * shift\<bar> * 10 ^ 48 \<le> \<bar>fpVal y\<bar> * 10 ^ 48 + \<bar>fpVal x * shift\<bar>"
      by (smt (verit) mult_right_mono zero_le_power)
    moreover have "fpVal (fp_div (decs ref_boost) x y) = dtrunc e"
      by (simp add: fp_div_def ref_boost_def fp_clamp_def Let_def e_def)
    ultimately show ?thesis
      by (simp only:)
  qed
  moreover have "\<bar>fpVal (fp_getInv (decs ref_boost) x) * fpVal x - shift * shift\<bar> * 10 ^ 48 \<le> \<bar>fpVal x\<bar> * 10 ^ 48 + shift * shift"
    if "fpVal x \<noteq> 0" for x
  proof -
    have "fp_getInv (decs ref_boost) x = fp_div (decs ref_boost) (FP shift) x"
      by (simp add: fp_getInv_def fp_of_dec_def fp_div_def)
    with div [OF that, of "FP shift"] show ?thesis by simp
  qed
  moreover have "to_double ref_boost (m * 2 ^ k) = of_int (m * 2 ^ k)" if "\<bar>m\<bar> \<le> 2 ^ 53" for m :: int and k
    using rnd_shifted [OF that, of k] by (simp add: ref_boost_def)
  moreover have "\<bar>to_double ref_boost v - of_int v\<bar> * 2 ^ 52 \<le> of_int \<bar>v\<bar>" for v
  proof -
    have "\<bar>rnd (of_int v) - of_int v\<bar> * 2 ^ 53 \<le> \<bar>of_int v\<bar>"
      by (rule rnd_close)
    moreover have "\<bar>d :: rat\<bar> * 2 ^ 53 = 2 * (\<bar>d\<bar> * 2 ^ 52)" for d
      by simp
    ultimately show ?thesis
      by (simp add: ref_boost_def)
  qed
  ultimately show ?thesis
    unfolding boost_ok_def by blast
qed

text \<open>The same with given values of decimal texts.\<close>

definition ref_boost_with :: "(string \<times> rat) list \<Rightarrow> rat boost" where
  "ref_boost_with tab = ref_boost\<lparr>decs := (decs ref_boost)\<lparr>d_of_string := (\<lambda>s. case map_of tab s of None \<Rightarrow> 0 | Some v \<Rightarrow> v)\<rparr>\<rparr>"

lemma boost_ok_with: "boost_ok (ref_boost_with tab)"
proof -
  have "fp_div (decs (ref_boost_with tab)) = fp_div (decs ref_boost)" "fp_getInv (decs (ref_boost_with tab)) = fp_getInv (decs ref_boost)"
    "to_double (ref_boost_with tab) = to_double ref_boost"
    by (auto intro!: ext simp: fp_div_def fp_getInv_def fp_of_dec_def fp_clamp_def ref_boost_with_def ref_boost_def)
  with boost_ok_ref show ?thesis
    by (simp only: boost_ok_def)
qed

lemma fp_of_string_with:
  "fp_of_string (decs (ref_boost_with tab)) s = FP (dtrunc ((case map_of tab s of None \<Rightarrow> 0 | Some v \<Rightarrow> v) * of_int shift))"
  by (simp add: fp_of_string_def ref_boost_with_def ref_boost_def)

text \<open>Counting in doubles is exact.\<close>

lemma count_double:
  assumes "boost_ok F" "c \<le> 10 ^ 10"
  shows "dtrunc (fp_getDoubleVal F (fp_of_int (int c))) = int c"
proof -
  have "int c \<le> int (10 ^ 10)" using assms(2) by (rule of_nat_mono)
  then show ?thesis
    by (subst fp_getDoubleVal_exact [OF assms(1)]) (simp_all only: dtrunc_int, simp)
qed

end
