(* ===== verification/Lsb.thy ===== *)
theory Lsb
  imports Share Doubles
begin

section \<open>Bits of fixed-point shares\<close>

text \<open>
  The second half of \<open>Share/Share.hpp\<close>: random bits, least significant bit, floor and square root of shares of fixed-point
  numbers. A random bit is \<open>(r / sqrt (r * r) + 1) / 2\<close> for a random whole number \<open>r\<close> whose square
  is opened; it is 0 or 1 only up to the error of one division and of every party's own truncation.
  The least significant bit of \<open>y\<close> is read off the opened sum of \<open>y\<close>, a random bit and an even mask,
  rounded in double precision.
\<close>

subsection \<open>Operators with public factors\<close>

definition share_fdiv :: "'d dec \<Rightarrow> fp \<Rightarrow> fp list \<Rightarrow> fp list" where
  "share_fdiv D v xs = map (\<lambda>x. fp_div D x v) xs"

definition fp_share_div :: "'d dec \<Rightarrow> fp list \<Rightarrow> fp list \<Rightarrow> (world, fp list) comp" where
  "fp_share_div D = share_div getTriple_fp getRand_fp (\<lambda>x. Inr (fp_getInv D x))"

definition fp_sharize :: "fp \<Rightarrow> (world, fp list) comp" where
  "fp_sharize = sharize getRand_fp"

text \<open>\<open>sqrt\<close>: Newton's iteration, 50 rounds.\<close>

fun share_sqrt_loop :: "'d dec \<Rightarrow> nat \<Rightarrow> fp list \<Rightarrow> fp list \<Rightarrow> (world, fp list) comp" where
  "share_sqrt_loop D 0 share x = retS x"
| "share_sqrt_loop D (Suc i) share x =
     bindS (fp_share_div D share x) (\<lambda>t. share_sqrt_loop D i share (share_fdiv D (fp_of_int 2) (share_add x t)))"

definition share_sqrt :: "'d dec \<Rightarrow> fp list \<Rightarrow> (world, fp list) comp" where
  "share_sqrt D share = withW (\<lambda>w.
     share_sqrt_loop D 50 share (share_fdiv D (fp_of_int 2) (share_addc (w_sp w) share (fp_of_int 1))))"

subsection \<open>Random bits\<close>

definition getRandShares :: "int \<Rightarrow> int \<Rightarrow> nat \<Rightarrow> (world, fp list list) comp" where
  "getRandShares min_val max_val n =
     bindS (on_rngs (getRandVec_fp min_val max_val n)) (\<lambda>rs. retS (map (\<lambda>j. map (\<lambda>r. r ! j) rs) [0..<n]))"

text \<open>The bit made of a random share \<open>r\<close> whose opened square has the double value \<open>d\<close>.\<close>

definition bit_of_root :: "'d boost \<Rightarrow> nat \<Rightarrow> rat \<Rightarrow> fp list \<Rightarrow> fp list" where
  "bit_of_root F sp d r =
     (let r_dash = fp_of_double (dsqrt d);
          inv_r_dash = fp_div (decs F) (fp_of_double 1) r_dash
      in share_scale (fp_of_double (1 / 2)) (share_addc sp (share_scale inv_r_dash r) (fp_of_double 1)))"

fun getRandBitShare :: "'d boost \<Rightarrow> nat \<Rightarrow> (world, fp list) comp" where
  "getRandBitShare F 0 = raiseS OutOfFuel"
| "getRandBitShare F (Suc fuel) =
     bindS (on_rngs (getRand_fp (- 1000) 1000)) (\<lambda>r.
     bindS (fp_share_mult r r) (\<lambda>square_r. withW (\<lambda>w.
     let d = fp_getDoubleVal F (recons square_r)
     in if d \<noteq> 0 then retS (bit_of_root F (w_sp w) d r) else getRandBitShare F fuel)))"

definition getRandBitShares :: "'d boost \<Rightarrow> nat \<Rightarrow> nat \<Rightarrow> (world, fp list list) comp" where
  "getRandBitShares F fuel n =
     bindS (getRandShares (- 1000) 1000 n) (\<lambda>r.
     bindS (fp_vec_mult r r) (\<lambda>square_r. withW (\<lambda>w.
     mapS (\<lambda>i. let d = fp_getDoubleVal F (recons (square_r ! i))
               in if d \<noteq> 0 then retS (bit_of_root F (w_sp w) d (r ! i)) else getRandBitShare F fuel) [0..<n])))"

subsection \<open>The least significant bit\<close>

definition parity :: "'d boost \<Rightarrow> fp \<Rightarrow> fp res" where
  "parity F c = fp_mod (fp_of_double (of_int (round_away (fp_getDoubleVal F c)))) (fp_of_int 2)"

definition unmask_bit :: "nat \<Rightarrow> fp \<Rightarrow> fp list \<Rightarrow> fp list" where
  "unmask_bit sp c r0 = share_sub (share_addc sp r0 c) (share_scale (fp_of_int 2 * c) r0)"

definition getLSBShare :: "'d boost \<Rightarrow> nat \<Rightarrow> fp list \<Rightarrow> (world, fp list) comp" where
  "getLSBShare F fuel y =
     bindS (getRandBitShare F fuel) (\<lambda>r0.
     bindS (on_rngs (getRand_fp 1 1000)) (\<lambda>r_dash. withW (\<lambda>w.
     let t = share_add (share_add y r0) (share_scale (fp_of_int 2) r_dash) in
     bindS (liftS (parity F (recons t))) (\<lambda>c. retS (unmask_bit (w_sp w) c r0)))))"

definition getLSBShares :: "'d boost \<Rightarrow> nat \<Rightarrow> fp list list \<Rightarrow> (world, fp list list) comp" where
  "getLSBShares F fuel y =
     bindS (getRandBitShares F fuel (length y)) (\<lambda>r0.
     bindS (getRandShares 0 1000 (length y)) (\<lambda>r_dash. withW (\<lambda>w.
     bindS (liftS (vec_add y r0)) (\<lambda>t0.
     bindS (liftS (vec_add t0 (vec_scale (fp_of_int 2) r_dash))) (\<lambda>t.
     let c = map recons t in
     mapS (\<lambda>j. bindS (liftS (parity F (c ! j))) (\<lambda>cj. retS (unmask_bit (w_sp w) cj (r0 ! j)))) [0..<length c])))))"

subsection \<open>Floor\<close>

definition half_share :: "fp list \<Rightarrow> fp list" where
  "half_share y = share_scale (fp_of_double (1 / 2)) y"

fun floor_loop :: "'d boost \<Rightarrow> nat \<Rightarrow> nat \<Rightarrow> fp list \<Rightarrow> (world, fp list) comp" where
  "floor_loop F fuel 0 y = retS y"
| "floor_loop F fuel (Suc i) y =
     bindS (getLSBShare F fuel y) (\<lambda>b. floor_loop F fuel i (half_share (share_sub y b)))"

definition getFloor :: "'d boost \<Rightarrow> nat \<Rightarrow> fp list \<Rightarrow> (world, fp list) comp" where
  "getFloor F fuel s = withW (\<lambda>w.
     let x = share_scale (fp_of_double (2 ^ 16)) s; y = share_addc (w_sp w) x (fp_of_double (2 ^ 32)) in
     bindS (floor_loop F fuel 16 y) (\<lambda>y. retS (share_subc (w_sp w) y (fp_of_double (2 ^ (32 - 16))))))"

fun floors_loop :: "'d boost \<Rightarrow> nat \<Rightarrow> nat \<Rightarrow> fp list list \<Rightarrow> (world, fp list list) comp" where
  "floors_loop F fuel 0 y = retS y"
| "floors_loop F fuel (Suc i) y =
     bindS (getLSBShares F fuel y) (\<lambda>b.
     bindS (liftS (vec_sub y b)) (\<lambda>d. floors_loop F fuel i (vec_scale (fp_of_double (1 / 2)) d)))"

definition getFloors :: "'d boost \<Rightarrow> nat \<Rightarrow> fp list list \<Rightarrow> (world, fp list list) comp" where
  "getFloors F fuel s = withW (\<lambda>w.
     let x = vec_scale (fp_of_double (2 ^ 16)) s; y = vec_addc (w_sp w) x (fp_of_double (2 ^ 32)) in
     bindS (floors_loop F fuel 16 y) (\<lambda>y. retS (map (\<lambda>yj. share_subc (w_sp w) yj (fp_of_double (2 ^ (32 - 16)))) y)))"

subsection \<open>Scaling by whole numbers\<close>

lemma shift_eq: "shift = 100000000"
  by (simp add: shift_def)

lemma tdiv_scale_int [simp]: "tdiv (v * fpVal (fp_of_int k)) shift = v * k"
  by (simp add: fp_of_int_def flip: mult.assoc)

lemma fbound_scale_int [fbound_intros]:
  assumes "fbound c xs" "0 \<le> k"
  shows "fbound (c * k) (share_scale (fp_of_int k) xs)"
  using assms by (auto simp: fbound_def share_scale_def abs_mult mult_right_mono)

lemma fsec_scale_int [share_simps]: "fsec (share_scale (fp_of_int k) xs) = fsec xs * k"
  by (induction xs) (auto simp: fsec_def share_scale_def algebra_simps)

lemma tdiv_half: "\<bar>2 * tdiv (v * 50000000) shift - v\<bar> \<le> 1"
proof -
  have "\<bar>v * 50000000 - shift * tdiv (v * 50000000) shift\<bar> < shift"
    by (rule tdiv_error) simp
  then show ?thesis
    unfolding shift_eq by linarith
qed

lemma fsec_half: "\<bar>2 * fsec (half_share xs) - fsec xs\<bar> \<le> int (length xs)"
proof (induction xs)
  case (Cons x xs)
  have "fsec (half_share (x # xs)) = tdiv (fpVal x * 50000000) shift + fsec (half_share xs)"
    by (simp add: fsec_def half_share_def share_scale_def)
  moreover have "fsec (x # xs) = fpVal x + fsec xs"
    by (simp add: fsec_def)
  ultimately show ?case
    using Cons tdiv_half [of "fpVal x"] by simp
qed (simp add: fsec_def half_share_def share_scale_def)

lemma length_half [simp]: "length (half_share xs) = length xs"
  by (simp add: half_share_def)

lemma fbound_half [fbound_intros]:
  assumes "fbound c xs" "0 \<le> c"
  shows "fbound (c + 1) (half_share xs)"
  unfolding fbound_def
proof
  fix z assume "z \<in> set (half_share xs)"
  then obtain x where "fpVal z = tdiv (fpVal x * 50000000) shift" "x \<in> set xs"
    by (auto simp: half_share_def share_scale_def)
  with assms(1) tdiv_half [of "fpVal x"] have "\<bar>2 * fpVal z - fpVal x\<bar> \<le> 1" "\<bar>fpVal x\<bar> \<le> c"
    by (auto simp: fbound_def)
  with assms(2) show "\<bar>fpVal z\<bar> \<le> c + 1" by linarith
qed

subsection \<open>Random bits are bits\<close>

lemma fsec_of_ints: "fsec (map fp_of_int ks) = shift * sum_list ks"
  using fsec_ints [of "\<lambda>k. k" ks] by (simp add: comp_def)

lemma less_1000: "\<bar>v\<bar> \<le> 10 ^ 50 \<Longrightarrow> \<bar>v\<bar> < dec_range"
  by (erule less_dec_range) simp

text \<open>What the parties draw with \<open>getRand<FixedPoint>(lo, hi)\<close>.\<close>

definition drawn_fp :: "(64 word \<Rightarrow> bool) \<Rightarrow> int \<Rightarrow> int \<Rightarrow> int list \<Rightarrow> bool" where
  "drawn_fp P lo hi ks \<longleftrightarrow> (\<forall>k \<in> set ks. \<exists>u. P u \<and> k = uint u mod (hi - lo) + lo)"

lemma drawn_fp_range:
  assumes "drawn_fp P lo hi ks" "lo < hi" "k \<in> set ks"
  shows "lo \<le> k" "k < hi"
proof -
  from assms obtain u :: "64 word" where "k = uint u mod (hi - lo) + lo"
    by (auto simp: drawn_fp_def)
  then show "lo \<le> k" "k < hi"
    using mod_range [OF assms(2), of "uint u"] by simp_all
qed

lemma wpS_draws:
  assumes "wf_world P T J n sp w" "- (2 ^ 36) \<le> lo" "lo < hi" "hi < 2 ^ 36"
    and post: "\<And>ks w'. wf_world P T J n sp w' \<Longrightarrow> w_ok w' = w_ok w \<Longrightarrow> length ks = n \<Longrightarrow>
      drawn_fp P lo hi ks \<Longrightarrow> Q (map fp_of_int ks) w'"
  shows "wpS E Q (on_rngs (getRand_fp lo hi)) w"
proof (rule wpS_on_rngs [OF assms(1)])
  show "wpS (\<lambda>_. False) (\<lambda>x g'. tape P g' \<and> (\<exists>u. P u \<and> x = fp_of_int (uint u mod (hi - lo) + lo)))
      (getRand_fp lo hi) g" if "tape P g" for g
    using that assms(2-4) by (rule tape_getRand_fp_draw)
  fix xs w'
  assume *: "wf_world P T J n sp w'" "w_ok w' = w_ok w" "length xs = n"
    "\<forall>x \<in> set xs. \<exists>u. P u \<and> x = fp_of_int (uint u mod (hi - lo) + lo)"
  from *(4) obtain f where f: "\<forall>x \<in> set xs. P (f x) \<and> x = fp_of_int (uint (f x) mod (hi - lo) + lo)"
    by metis
  let ?ks = "map (\<lambda>x. uint (f x) mod (hi - lo) + lo) xs"
  have "xs = map fp_of_int ?ks"
    using f by (simp add: comp_def map_idI)
  moreover have "drawn_fp P lo hi ?ks"
    using f by (auto simp: drawn_fp_def)
  ultimately show "Q xs w'"
    using post [of w' ?ks] * by simp
qed

lemma bit_of_root_close:
  assumes F: "boost_ok F" and n: "length ks = n" "n \<le> 100" and sp: "sp < n"
    and ks: "\<forall>k \<in> set ks. \<bar>k\<bar> \<le> 1000" and K: "K = sum_list ks" "K \<noteq> 0"
    and d: "d = of_int (K * K)"
  shows "length (bit_of_root F sp d (map fp_of_int ks)) = n"
    "\<bar>fsec (bit_of_root F sp d (map fp_of_int ks)) - (if 0 < K then shift else 0)\<bar> \<le> 501 * int n"
    "fbound 1000000000000 (bit_of_root F sp d (map fp_of_int ks))"
proof -
  have K': "\<bar>K\<bar> \<le> 1000 * int n" "1 \<le> \<bar>K\<bar>" "\<bar>K\<bar> \<le> 100000"
    using sum_list_bound [OF ks] n K by auto
  define q where "q = fpVal (fp_div (decs F) (fp_of_int 1) (fp_of_int \<bar>K\<bar>))"
  have d2: "d = of_nat (nat \<bar>K\<bar> * nat \<bar>K\<bar>)"
    unfolding d by (simp add: abs_mult_self)
  have "nat \<bar>K\<bar> \<le> 100000"
    using K'(3) by simp
  also have "\<dots> \<le> 2 ^ 53"
    by simp
  finally have "dsqrt d = of_int \<bar>K\<bar>"
    unfolding d2 by (subst dsqrt_square) simp_all
  then have root: "fp_of_double (dsqrt d) = fp_of_int \<bar>K\<bar>"
    using K'(3) by (simp only:) (rule fp_of_double_int, simp)
  have one: "fp_of_double 1 = fp_of_int 1"
    using fp_of_double_int [of 1] by simp
  let ?r = "share_scale (fp_div (decs F) (fp_of_int 1) (fp_of_int \<bar>K\<bar>)) (map fp_of_int ks)"
  let ?s = "share_addc sp ?r (fp_of_int 1)"
  have bit: "bit_of_root F sp d (map fp_of_int ks) = half_share ?s"
    by (simp only: bit_of_root_def root one half_share_def Let_def)
  then show len: "length (bit_of_root F sp d (map fp_of_int ks)) = n"
    using n by simp
  have "\<bar>q * (\<bar>K\<bar> * shift) - 1 * shift * shift\<bar> * 10 ^ 48 \<le> \<bar>\<bar>K\<bar> * shift\<bar> * 10 ^ 48 + \<bar>1 * shift * shift\<bar>"
  proof -
    have a: "\<bar>fpVal (fp_of_int \<bar>K\<bar>)\<bar> \<le> 10 ^ 50"
      using K'(3) by (simp add: fp_of_int_def shift_eq abs_mult)
    have b: "\<bar>fpVal (fp_of_int 1)\<bar> \<le> 10 ^ 50"
      by (simp add: fp_of_int_def shift_eq)
    have c: "fpVal (fp_of_int \<bar>K\<bar>) \<noteq> 0"
      using K'(2) by (simp add: fp_of_int_def)
    show ?thesis
      using boost_div [OF F c less_1000 [OF b] less_1000 [OF a]] by (simp only: q_def fp_of_int_def fp.sel)
  qed
  moreover have "q * (\<bar>K\<bar> * shift) - 1 * shift * shift = (q * \<bar>K\<bar> - shift) * shift"
    by (simp add: left_diff_distrib)
  ultimately have "\<bar>q * \<bar>K\<bar> - shift\<bar> * shift * 10 ^ 48 \<le> \<bar>K\<bar> * shift * 10 ^ 48 + shift * shift"
    by (simp only: abs_mult abs_abs) (simp add: shift_eq)
  then have q: "\<bar>q * \<bar>K\<bar> - shift\<bar> \<le> \<bar>K\<bar>"
    by (simp add: shift_eq)
  have "q \<le> shift + 1" "- 1 \<le> q"
  proof -
    show "q \<le> shift + 1"
    proof (rule ccontr)
      assume "\<not> q \<le> shift + 1"
      then have "(shift + 2) * \<bar>K\<bar> \<le> q * \<bar>K\<bar>" by (intro mult_right_mono) auto
      moreover have "(shift + 2) * \<bar>K\<bar> = shift * \<bar>K\<bar> + 2 * \<bar>K\<bar>" by (rule distrib_right)
      moreover have "shift * 1 \<le> shift * \<bar>K\<bar>" using K'(2) by (intro mult_left_mono) auto
      ultimately show False using q K'(2) by linarith
    qed
    show "- 1 \<le> q"
    proof (rule ccontr)
      assume "\<not> - 1 \<le> q"
      then have "q * \<bar>K\<bar> \<le> (- 2) * \<bar>K\<bar>" by (intro mult_right_mono) auto
      with q K'(2) show False unfolding shift_eq by linarith
    qed
  qed
  then have aq: "\<bar>q\<bar> \<le> shift + 1"
    unfolding shift_eq by linarith
  have "fsec ?r = q * K"
    using fsec_scale_ints [of "fp_div (decs F) (fp_of_int 1) (fp_of_int \<bar>K\<bar>)" "\<lambda>k. k" ks] K(1)
    by (simp add: comp_def q_def)
  then have "fsec ?s = q * K + shift"
    using sp n by (simp add: share_simps fp_of_int_def)
  then have h: "\<bar>2 * fsec (half_share ?s) - (q * K + shift)\<bar> \<le> int n"
    using fsec_half [of ?s] n by simp
  show "\<bar>fsec (bit_of_root F sp d (map fp_of_int ks)) - (if 0 < K then shift else 0)\<bar> \<le> 501 * int n"
  proof (cases "0 < K")
    case True
    then have "q * K = q * \<bar>K\<bar>" by simp
    with True q h K'(1) show ?thesis
      unfolding bit if_P [OF True] by linarith
  next
    case False
    then have "q * K = - (q * \<bar>K\<bar>)" by simp
    with q h K'(1) show ?thesis
      unfolding bit if_not_P [OF False] by linarith
  qed
  have "fbound (1000 * (shift + 1)) ?r"
    unfolding fbound_def
  proof
    fix z assume "z \<in> set ?r"
    then obtain k where k: "k \<in> set ks" "z = fp_of_int k * fp_div (decs F) (fp_of_int 1) (fp_of_int \<bar>K\<bar>)"
      by (auto simp: share_scale_def)
    have "fpVal z = k * q"
      using tdiv_mult_cancel [of shift "k * q"] k(2) by (simp add: fp_of_int_def q_def mult_ac)
    moreover have "\<bar>k * q\<bar> \<le> 1000 * (shift + 1)"
      unfolding abs_mult using ks k(1) aq by (intro mult_mono) auto
    ultimately show "\<bar>fpVal z\<bar> \<le> 1000 * (shift + 1)" by simp
  qed
  note b = fbound_half [OF fbound_addc [OF this, of "fp_of_int 1" sp]]
  show "fbound 1000000000000 (bit_of_root F sp d (map fp_of_int ks))"
    unfolding bit by (rule fbound_mono [OF b]) (simp_all add: fp_of_int_def shift_eq)
qed

text \<open>Draws for which no bit has to be drawn again: every party's number is positive.\<close>

definition positive_draws :: "(64 word \<Rightarrow> bool) \<Rightarrow> bool" where
  "positive_draws P \<longleftrightarrow> (\<forall>u. P u \<longrightarrow> 1000 < uint u mod 2000)"

definition enough :: "(64 word \<Rightarrow> bool) \<Rightarrow> (exn \<Rightarrow> bool) \<Rightarrow> nat \<Rightarrow> bool" where
  "enough P E fuel \<longleftrightarrow> E OutOfFuel \<or> positive_draws P \<and> 0 < fuel"

definition is_bit_share :: "int \<Rightarrow> nat \<Rightarrow> int \<Rightarrow> fp list \<Rightarrow> bool" where
  "is_bit_share c n b z \<longleftrightarrow> length z = n \<and> \<bar>fsec z - b * shift\<bar> \<le> 501 * int n \<and> fbound c z"

lemma bit_of_root_bit:
  assumes "boost_ok F" "length ks = n" "n \<le> 100" "sp < n" "drawn_fp P (- 1000) 1000 ks" "sum_list ks \<noteq> 0"
  shows "\<exists>b \<in> {0, 1}. is_bit_share (10 ^ 12) n b (bit_of_root F sp (of_int (sum_list ks * sum_list ks)) (map fp_of_int ks))"
proof -
  have "\<forall>k \<in> set ks. \<bar>k\<bar> \<le> 1000"
    using drawn_fp_range [OF assms(5)] by fastforce
  from bit_of_root_close [OF assms(1-4) this refl assms(6) refl] show ?thesis
    by (intro bexI [of _ "if 0 < sum_list ks then 1 else 0"]) (simp_all add: is_bit_share_def split: if_splits)
qed

lemma square_opened:
  assumes "boost_ok F" "length ks = n" "n \<le> 100" "drawn_fp P (- 1000) 1000 ks"
    "\<bar>shift * fsec z - fsec (map fp_of_int ks) * fsec (map fp_of_int ks)\<bar> < shift"
  shows "fp_getDoubleVal F (recons z) = of_int (sum_list ks * sum_list ks)"
proof -
  let ?K = "sum_list ks"
  have "\<forall>k \<in> set ks. \<bar>k\<bar> \<le> 1000"
    using drawn_fp_range [OF assms(4)] by fastforce
  then have K: "\<bar>?K\<bar> \<le> 100000"
    using sum_list_bound [of ks 1000] assms(2,3) by auto
  have "\<bar>?K * ?K\<bar> \<le> 100000 * 100000"
    unfolding abs_mult using K by (intro mult_mono) auto
  then have exact: "fp_getDoubleVal F (fp_of_int (?K * ?K)) = of_int (?K * ?K)"
    by (intro fp_getDoubleVal_exact [OF assms(1)]) simp
  have "\<bar>shift * (fsec z - ?K * ?K * shift)\<bar> < shift * 1"
    using assms(5) by (simp add: fsec_of_ints algebra_simps)
  then have "fsec z = ?K * ?K * shift"
    unfolding abs_mult by simp
  then have "recons z = fp_of_int (?K * ?K)"
    by (simp add: fp_of_int_def fp.expand fpVal_recons)
  with exact show ?thesis by simp
qed

lemma sum_list_pos: "ks \<noteq> [] \<Longrightarrow> \<forall>k \<in> set ks. 0 < k \<Longrightarrow> 0 < (sum_list ks :: int)"
  by (induction ks rule: list_nonempty_induct) auto

lemma wpS_getRandBitShare:
  assumes "wf_world P T J n sp w" "boost_ok F" "n \<le> 100" "enough P E fuel"
    and post: "\<And>z w' b. wf_world P T J n sp w' \<Longrightarrow> w_ok w' = w_ok w \<Longrightarrow> b \<in> {0, 1} \<Longrightarrow> is_bit_share (10 ^ 12) n b z \<Longrightarrow> Q z w'"
  shows "wpS E Q (getRandBitShare F fuel) w"
  using assms(1,4) post
proof (induction fuel arbitrary: w)
  case 0
  then show ?case by (simp add: enough_def)
next
  case (Suc fuel)
  show ?case
    unfolding getRandBitShare.simps wpS_bindS
  proof (rule wpS_draws [OF Suc.prems(1)])
    fix ks w1
    assume w1: "wf_world P T J n sp w1" "w_ok w1 = w_ok w" and ks: "length ks = n" "drawn_fp P (- 1000) 1000 ks"
    have n: "sp < n" using w1 by (simp add: wf_world_def)
    show "wpS E (\<lambda>square_r. wpS E Q (withW (\<lambda>w. let d = fp_getDoubleVal F (recons square_r)
        in if d \<noteq> 0 then retS (bit_of_root F (w_sp w) d (map fp_of_int ks)) else getRandBitShare F fuel)))
      (fp_share_mult (map fp_of_int ks) (map fp_of_int ks)) w1"
    proof (rule wpS_fp_share_mult [OF w1(1)])
      fix z w2
      assume w2: "wf_world P T J n sp w2" "w_ok w2 = w_ok w1" "length z = n"
        "\<bar>shift * fsec z - fsec (map fp_of_int ks) * fsec (map fp_of_int ks)\<bar> < shift"
      have d: "fp_getDoubleVal F (recons z) = of_int (sum_list ks * sum_list ks)"
        by (rule square_opened [OF assms(2) ks(1) assms(3) ks(2) w2(4)])
      show "wpS E Q (withW (\<lambda>w. let d = fp_getDoubleVal F (recons z)
          in if d \<noteq> 0 then retS (bit_of_root F (w_sp w) d (map fp_of_int ks)) else getRandBitShare F fuel)) w2"
      proof (cases "sum_list ks = 0")
        case False
        then obtain b where "b \<in> {0, 1}"
          "is_bit_share (10 ^ 12) n b (bit_of_root F sp (of_int (sum_list ks * sum_list ks)) (map fp_of_int ks))"
          using bit_of_root_bit [OF assms(2) ks(1) assms(3) n ks(2)] by blast
        with False w1 w2 show ?thesis
          by (simp add: d Let_def wf_world_def Suc.prems(3))
      next
        case True
        have "\<not> positive_draws P"
        proof
          assume "positive_draws P"
          then have "\<forall>k \<in> set ks. 0 < k"
            using ks(2) by (auto simp: positive_draws_def drawn_fp_def)
          with True sum_list_pos [of ks] ks(1) n show False by fastforce
        qed
        then have "enough P E fuel"
          using Suc.prems(2) by (simp add: enough_def)
        with True w1 w2 show ?thesis
          by (simp add: d Let_def) (rule Suc.IH, auto intro: Suc.prems(3))
      qed
    qed (use ks in simp_all)
  qed simp_all
qed

subsection \<open>The least significant bit\<close>

text \<open>
  Rounding the opened sum in double precision finds an integer within half a unit, up to 600 units in the last place.
\<close>

lemma parity_opened:
  assumes "boost_ok F" "\<bar>v\<bar> \<le> 2 ^ 33 * shift" "- (9 * shift) \<le> 20 * v"
  shows "\<exists>m. 0 \<le> m \<and> 2 * \<bar>m * shift - v\<bar> \<le> shift + 1200 \<and> parity F (FP v) = Inr (fp_of_int (m mod 2))"
proof -
  define d where "d = fp_getDoubleVal F (FP v)"
  define m where "m = round_away d"
  have d: "\<bar>d * of_int shift - of_int v\<bar> \<le> 600"
    unfolding d_def using assms(2) by (intro fp_getDoubleVal_close [OF assms(1)]) (simp add: shift_eq)
  have m: "\<bar>of_int m - d\<bar> \<le> 1 / 2"
    unfolding m_def by (rule round_away_close)
  have "of_int m - d \<le> 1 / 2" "d - of_int m \<le> 1 / 2"
    using m abs_ge_self [of "of_int m - d"] abs_ge_minus_self [of "of_int m - d"] by linarith+
  moreover have "d * 100000000 - of_int v \<le> 600" "of_int v - d * 100000000 \<le> 600"
    using d abs_ge_self [of "d * of_int shift - of_int v"] abs_ge_minus_self [of "d * of_int shift - of_int v"]
    by (simp_all add: shift_eq)
  ultimately have "\<bar>of_int (2 * (m * shift - v)) :: rat\<bar> \<le> of_int (shift + 1200)"
    by (simp add: shift_eq abs_le_iff)
  then have close: "2 * \<bar>m * shift - v\<bar> \<le> shift + 1200"
    unfolding of_int_abs [symmetric] of_int_le_iff abs_mult by simp
  then have m0: "0 \<le> m" "\<bar>m\<bar> \<le> 2 ^ 34"
    using assms(2,3) by (auto simp: shift_eq)
  have "fp_of_double (of_int m) = fp_of_int m"
    using m0(2) by (rule fp_of_double_int)
  moreover have "tmod (m * shift) (2 * shift) = m mod 2 * shift"
  proof -
    have "tmod (m * shift) (2 * shift) = m * shift - 2 * shift * (m * shift div (2 * shift))"
      using m0(1) by (simp add: tmod_def tdiv_nonneg)
    also have "\<dots> = m mod 2 * shift"
      by (simp add: minus_mult_div_eq_mod [symmetric] algebra_simps)
    finally show ?thesis .
  qed
  ultimately have "parity F (FP v) = Inr (fp_of_int (m mod 2))"
    by (simp add: parity_def d_def [symmetric] m_def [symmetric] fp_mod_def fp_of_int_def)
  with m0 close show ?thesis by blast
qed

lemma unmask_bit_close:
  assumes r0: "is_bit_share (10 ^ 12) n b r0" and "b \<in> {0, 1}" "c \<in> {0, 1}" "sp < n"
  shows "is_bit_share (10 ^ 13) n ((c + b) mod 2) (unmask_bit sp (fp_of_int c) r0)"
proof -
  have two: "fp_of_int 2 * fp_of_int c = fp_of_int (2 * c)"
    by (rule fp.expand) (simp, simp add: fp_of_int_def)
  have "fsec (unmask_bit sp (fp_of_int c) r0) = fsec r0 + c * shift - fsec r0 * (2 * c)"
    using assms by (simp add: unmask_bit_def two share_simps is_bit_share_def) (simp add: fp_of_int_def)
  then have "\<bar>fsec (unmask_bit sp (fp_of_int c) r0) - (c + b) mod 2 * shift\<bar> = \<bar>fsec r0 - b * shift\<bar>"
    using assms(2,3) by auto
  moreover have "length (unmask_bit sp (fp_of_int c) r0) = n"
    using r0 by (simp add: unmask_bit_def is_bit_share_def)
  moreover have "fbound (10 ^ 13) (unmask_bit sp (fp_of_int c) r0)"
  proof -
    have b: "fbound (10 ^ 12) r0" "0 \<le> 2 * c"
      using assms by (auto simp: is_bit_share_def)
    show ?thesis
      unfolding unmask_bit_def two
      by (rule fbound_mono [OF fbound_sub [OF fbound_addc [OF b(1)] fbound_scale_int [OF b]]])
        (use assms(3) in \<open>auto simp: fp_of_int_def shift_eq\<close>)
  qed
  ultimately show ?thesis
    using r0 by (simp add: is_bit_share_def)
qed

text \<open>\<open>lsb_rel n y z\<close>: \<open>z\<close> shares the least significant bit of an integer next to \<open>y\<close>.\<close>

definition lsb_rel :: "nat \<Rightarrow> fp list \<Rightarrow> fp list \<Rightarrow> bool" where
  "lsb_rel n y z \<longleftrightarrow> (\<exists>m. 2 * \<bar>m * shift - fsec y\<bar> \<le> shift + 1200 + 1002 * int n \<and> is_bit_share (10 ^ 13) n (m mod 2) z)"

definition lsb_range :: "nat \<Rightarrow> fp list \<Rightarrow> bool" where
  "lsb_range n y \<longleftrightarrow> length y = n \<and> - (3 * shift) \<le> 10 * fsec y \<and> fsec y \<le> (2 ^ 33 - 300000) * shift"

lemma lsb_of_sum:
  assumes F: "boost_ok F" and n: "n \<le> 100" "sp < n" and y: "lsb_range n y" and r0: "is_bit_share (10 ^ 12) n b r0" "b \<in> {0, 1}"
    and ks: "length ks = n" "drawn_fp P lo 1000 ks" "lo \<in> {0, 1}"
  shows "wpE (\<lambda>_. False) (\<lambda>c. lsb_rel n y (unmask_bit sp c r0))
    (parity F (recons (share_add (share_add y r0) (share_scale (fp_of_int 2) (map fp_of_int ks)))))"
proof -
  have y: "length y = n" "- (3 * shift) \<le> 10 * fsec y" "fsec y \<le> (2 ^ 33 - 300000) * shift"
    using assms(4) by (simp_all add: lsb_range_def)
  define R where "R = sum_list ks"
  have "\<forall>k \<in> set ks. 0 \<le> k \<and> k \<le> 1000"
    using drawn_fp_range [OF ks(2)] ks(3) by fastforce
  then have "0 \<le> R" "\<bar>R\<bar> \<le> 1000 * int n"
    using sum_list_bound [of ks 1000] ks(1) by (auto simp: R_def intro: sum_list_nonneg)
  with n have R: "0 \<le> R" "R \<le> 100000"
    by simp_all
  have e: "\<bar>fsec r0 - b * shift\<bar> \<le> 501 * int n" "length r0 = n"
    using r0(1) by (simp_all add: is_bit_share_def)
  let ?t = "share_add (share_add y r0) (share_scale (fp_of_int 2) (map fp_of_int ks))"
  define v where "v = fsec y + fsec r0 + 2 * R * shift"
  have t: "recons ?t = FP v"
    using y(1) e(2) ks(1) by (intro fp.expand) (simp add: fpVal_recons share_simps fsec_of_ints v_def R_def)
  have "\<bar>v\<bar> \<le> 2 ^ 33 * shift" "- (9 * shift) \<le> 20 * v"
    using e(1) R y(2,3) n(1) r0(2) by (auto simp: v_def shift_eq)
  from parity_opened [OF F this] obtain m where m: "0 \<le> m" "2 * \<bar>m * shift - v\<bar> \<le> shift + 1200"
    "parity F (FP v) = Inr (fp_of_int (m mod 2))"
    by blast
  have "(m mod 2 + b) mod 2 = (m - b - 2 * R) mod 2"
    using r0(2) by (auto simp: mod_simps) presburger+
  moreover have "m mod 2 \<in> {0, 1}" by auto
  ultimately have "is_bit_share (10 ^ 13) n ((m - b - 2 * R) mod 2) (unmask_bit sp (fp_of_int (m mod 2)) r0)"
    using unmask_bit_close [OF r0, of "m mod 2" sp] n(2) by simp
  moreover have "2 * \<bar>(m - b - 2 * R) * shift - fsec y\<bar> \<le> shift + 1200 + 1002 * int n"
  proof -
    have "(m - b - 2 * R) * shift = m * shift - b * shift - 2 * R * shift"
      by (simp add: left_diff_distrib)
    moreover have "2 * \<bar>x - (Y + f + r)\<bar> \<le> s \<Longrightarrow> \<bar>f - c\<bar> \<le> 501 * k \<Longrightarrow> 2 * \<bar>x - c - r - Y\<bar> \<le> s + 1002 * k"
      for x Y f r c s k :: int
      by (auto simp: abs_if split: if_splits)
    from this [OF m(2) [unfolded v_def] e(1)]
    have "2 * \<bar>m * shift - b * shift - 2 * R * shift - fsec y\<bar> \<le> shift + 1200 + 1002 * int n" .
    ultimately show ?thesis by (simp only:)
  qed
  ultimately show ?thesis
    unfolding t m(3) wpE_Inr lsb_rel_def by blast
qed

lemma wpS_getLSBShare:
  assumes "wf_world P T J n sp w" "boost_ok F" "n \<le> 100" "enough P E fuel" "lsb_range n y"
    and post: "\<And>z w'. wf_world P T J n sp w' \<Longrightarrow> w_ok w' = w_ok w \<Longrightarrow> lsb_rel n y z \<Longrightarrow> Q z w'"
  shows "wpS E Q (getLSBShare F fuel y) w"
  unfolding getLSBShare_def wpS_bindS
proof (rule wpS_getRandBitShare [OF assms(1-4)])
  fix r0 w1 b
  assume w1: "wf_world P T J n sp w1" "w_ok w1 = w_ok w" and b: "b \<in> {0, 1}" "is_bit_share (10 ^ 12) n b r0"
  let ?t = "\<lambda>r_dash. share_add (share_add y r0) (share_scale (fp_of_int 2) r_dash)"
  show "wpS E (\<lambda>r_dash. wpS E Q (withW (\<lambda>w. let t = ?t r_dash
      in bindS (liftS (parity F (recons t))) (\<lambda>c. retS (unmask_bit (w_sp w) c r0)))))
    (on_rngs (getRand_fp 1 1000)) w1"
  proof (rule wpS_draws [OF w1(1)])
    fix ks w2
    assume w2: "wf_world P T J n sp w2" "w_ok w2 = w_ok w1" and ks: "length ks = n" "drawn_fp P 1 1000 ks"
    have sp: "sp < n" "w_sp w2 = sp" using w2 by (auto simp: wf_world_def)
    from lsb_of_sum [OF assms(2,3) sp(1) assms(5) b(2,1) ks] obtain c where
      "parity F (recons (?t (map fp_of_int ks))) = Inr c" "lsb_rel n y (unmask_bit sp c r0)"
      by (auto simp: wpE_total)
    with post [OF w2(1)] w1(2) w2(2) sp(2) show "wpS E Q (withW (\<lambda>w. let t = ?t (map fp_of_int ks)
      in bindS (liftS (parity F (recons t))) (\<lambda>c. retS (unmask_bit (w_sp w) c r0)))) w2"
      by (simp add: Let_def)
  qed simp_all
qed

subsection \<open>Halving\<close>

text \<open>
  \<open>near n i N y\<close>: \<open>y\<close> shares the integer \<open>N\<close> up to an error that has been halved \<open>i\<close> times, apart from the
  error that one halving adds.
\<close>

definition near :: "nat \<Rightarrow> nat \<Rightarrow> int \<Rightarrow> fp list \<Rightarrow> bool" where
  "near n i N y \<longleftrightarrow> length y = n \<and> 2 ^ Suc i * (\<bar>fsec y - N * shift\<bar> - 502 * int n) \<le> shift + 1200"

lemma near_half:
  assumes "near n i N y" "is_bit_share c n (N mod 2) b"
  shows "near n (Suc i) (N div 2) (half_share (share_sub y b))"
proof -
  let ?y = "half_share (share_sub y b)"
  have y: "length y = n" "length b = n" "\<bar>fsec b - N mod 2 * shift\<bar> \<le> 501 * int n"
    using assms by (simp_all add: near_def is_bit_share_def)
  have h: "\<bar>2 * fsec ?y - (fsec y - fsec b)\<bar> \<le> int n"
    using fsec_half [of "share_sub y b"] y by (simp add: share_simps)
  have "N = 2 * (N div 2) + N mod 2" by simp
  then have N: "N * shift = 2 * (N div 2 * shift) + N mod 2 * shift"
    by (metis distrib_right mult.assoc)
  have "2 * \<bar>fsec ?y - N div 2 * shift\<bar> \<le> \<bar>fsec y - N * shift\<bar> + 502 * int n"
    using h y(3) N by (smt (verit))
  then have "2 * (\<bar>fsec ?y - N div 2 * shift\<bar> - 502 * int n) \<le> \<bar>fsec y - N * shift\<bar> - 502 * int n"
    by simp
  then have "2 ^ Suc i * (2 * (\<bar>fsec ?y - N div 2 * shift\<bar> - 502 * int n)) \<le>
      2 ^ Suc i * (\<bar>fsec y - N * shift\<bar> - 502 * int n)"
    by (intro mult_left_mono) simp_all
  also have "\<dots> \<le> shift + 1200"
    using assms(1) by (simp add: near_def)
  finally have "2 ^ Suc (Suc i) * (\<bar>fsec ?y - N div 2 * shift\<bar> - 502 * int n) \<le> shift + 1200"
    by (simp only: power_Suc mult_ac)
  then show ?thesis
    using y by (simp only: near_def length_half share_length min.idem)
qed

lemma same_int:
  assumes "\<bar>m * shift - Y\<bar> \<le> a" "\<bar>Y - N * shift\<bar> \<le> b" "a + b < shift"
  shows "m = N"
proof -
  have "\<bar>(m - N) * shift\<bar> < shift"
    using assms by (simp add: left_diff_distrib)
  then show ?thesis
    by (simp add: abs_mult)
qed

lemma near_close:
  assumes "near n i N y" "1 \<le> i" "n \<le> 100"
  shows "100 * \<bar>fsec y - N * shift\<bar> \<le> 26 * shift"
proof -
  define d where "d = \<bar>fsec y - N * shift\<bar> - 502 * int n"
  have "2 ^ Suc i * d \<le> shift + 1200"
    using assms(1) by (simp add: near_def d_def)
  moreover have "4 * d \<le> 2 ^ Suc i * d" if "0 \<le> d"
    using that assms(2) power_increasing [of 2 "Suc i" "2 :: int"] by (intro mult_right_mono) auto
  ultimately have "4 * d \<le> shift + 1200"
    by (cases "0 \<le> d") (auto simp: shift_eq)
  moreover have "int n \<le> 100" using assms(3) by simp
  ultimately show ?thesis
    by (simp add: d_def shift_eq)
qed

text \<open>The first bit decides which of the two nearest integers is meant; later bits are those of that integer.\<close>

lemma first_bit:
  assumes "lsb_rel n y z" "lsb_range n y"
  shows "\<exists>N. near n 0 N y \<and> is_bit_share (10 ^ 13) n (N mod 2) z"
proof -
  from assms(1) obtain N where N: "2 * \<bar>N * shift - fsec y\<bar> \<le> shift + 1200 + 1002 * int n"
    "is_bit_share (10 ^ 13) n (N mod 2) z"
    by (auto simp: lsb_rel_def)
  from N(1) have "near n 0 N y"
    using assms(2) by (simp add: near_def lsb_range_def abs_minus_commute)
  with N(2) show ?thesis by blast
qed

lemma next_bit:
  assumes "lsb_rel n y z" "near n i N y" "1 \<le> i" "n \<le> 100"
  shows "is_bit_share (10 ^ 13) n (N mod 2) z"
proof -
  from assms(1) obtain m where m: "2 * \<bar>m * shift - fsec y\<bar> \<le> shift + 1200 + 1002 * int n"
    "is_bit_share (10 ^ 13) n (m mod 2) z"
    by (auto simp: lsb_rel_def)
  have "int n \<le> 100" using assms(4) by simp
  with m(1) near_close [OF assms(2-4)]
  have "\<bar>m * shift - fsec y\<bar> \<le> 50100700" "\<bar>fsec y - N * shift\<bar> \<le> 26000000"
    by (simp_all add: shift_eq)
  then have "m = N"
    by (rule same_int) (simp add: shift_eq)
  with m(2) show ?thesis by simp
qed

lemma near_range:
  assumes "near n i N y" "1 \<le> i" "n \<le> 100" "0 \<le> N" "N \<le> 2 ^ 33 - 400000"
  shows "lsb_range n y"
  using near_close [OF assms(1-3)] assms by (auto simp: lsb_range_def near_def shift_eq)

lemma wpS_floor_loop:
  assumes "wf_world P T J n sp w" "boost_ok F" "n \<le> 100" "enough P E fuel"
    and "near n j N y" "1 \<le> j" "0 \<le> N" "N \<le> 2 ^ 33 - 400000"
    and post: "\<And>z w'. wf_world P T J n sp w' \<Longrightarrow> w_ok w' = w_ok w \<Longrightarrow> near n (j + i) (N div 2 ^ i) z \<Longrightarrow> Q z w'"
  shows "wpS E Q (floor_loop F fuel i y) w"
  using assms(1,5-8) post
proof (induction i arbitrary: w j N y)
  case 0
  then show ?case by simp
next
  case (Suc i)
  show ?case
    unfolding floor_loop.simps wpS_bindS
  proof (rule wpS_getLSBShare [OF Suc.prems(1) assms(2-4) near_range [OF Suc.prems(2,3) assms(3) Suc.prems(4,5)]])
    fix b w'
    assume w': "wf_world P T J n sp w'" "w_ok w' = w_ok w" and "lsb_rel n y b"
    then have b: "is_bit_share (10 ^ 13) n (N mod 2) b"
      using next_bit Suc.prems(2,3) assms(3) by blast
    have d: "0 \<le> N div 2" "N div 2 \<le> 2 ^ 33 - 400000"
      using Suc.prems(4,5) by auto
    show "wpS E Q (floor_loop F fuel i (half_share (share_sub y b))) w'"
    proof (rule Suc.IH [OF w'(1) near_half [OF Suc.prems(2) b] _ d])
      fix z w''
      assume "wf_world P T J n sp w''" "w_ok w'' = w_ok w'" "near n (Suc j + i) (N div 2 div 2 ^ i) z"
      with w'(2) show "Q z w''"
        by (intro Suc.prems(6)) (simp_all add: zdiv_zmult2_eq)
    qed simp
  qed
qed

lemma fp_of_double_numeral [simp]:
  "(numeral k :: int) \<le> 2 ^ 34 \<Longrightarrow> fp_of_double (numeral k) = fp_of_int (numeral k)"
  using fp_of_double_int [of "numeral k"] by simp

subsection \<open>Floor\<close>

text \<open>
  \<open>scaled n sp s\<close>: what \<open>getFloor\<close> and \<open>LTZ\<close> start from, the secret in units of \<open>2 ^ -16\<close> above \<open>2 ^ 32\<close>.
\<close>

definition scaled :: "nat \<Rightarrow> fp list \<Rightarrow> fp list" where
  "scaled sp s = share_addc sp (share_scale (fp_of_int (2 ^ 16)) s) (fp_of_int (2 ^ 32))"

lemma scaled_start:
  assumes "length s = n" "sp < n" "\<bar>fsec s\<bar> \<le> 65000 * shift" "n \<le> 100"
  shows "lsb_range n (scaled sp s)" "fsec (scaled sp s) = 2 ^ 32 * shift + 2 ^ 16 * fsec s"
    "near n 0 N (scaled sp s) \<Longrightarrow> 0 \<le> N \<and> N \<le> 2 ^ 33 - 400000"
proof -
  show f: "fsec (scaled sp s) = 2 ^ 32 * shift + 2 ^ 16 * fsec s"
    using assms by (simp add: scaled_def share_simps) (simp add: fp_of_int_def)
  show "lsb_range n (scaled sp s)"
    using assms(1) abs_le_D1 [OF assms(3)] abs_le_D2 [OF assms(3)]
    unfolding lsb_range_def f by (simp add: shift_eq) (simp add: scaled_def)
  show "0 \<le> N \<and> N \<le> 2 ^ 33 - 400000" if "near n 0 N (scaled sp s)"
  proof -
    have n: "int n \<le> 100" using assms(4) by simp
    have "\<bar>fsec (scaled sp s) - N * shift\<bar> \<le> shift"
      using that n by (simp add: near_def shift_eq)
    then have "fsec (scaled sp s) - N * shift \<le> shift" "- (fsec (scaled sp s) - N * shift) \<le> shift"
      by (rule abs_le_D1, rule abs_le_D2)
    moreover from assms(3) have "fsec s \<le> 65000 * shift" "- fsec s \<le> 65000 * shift"
      by (rule abs_le_D1, rule abs_le_D2)
    ultimately show ?thesis
      unfolding f by (simp add: shift_eq)
  qed
qed

lemma near_floor:
  assumes "near n 16 M z" "sp < n"
  shows "length (share_subc sp z (fp_of_int (2 ^ 16))) = n"
    "\<bar>fsec (share_subc sp z (fp_of_int (2 ^ 16))) - (M - 2 ^ 16) * shift\<bar> \<le> 502 * int n + 764"
proof -
  have "fsec (share_subc sp z (fp_of_int (2 ^ 16))) = fsec z - 2 ^ 16 * shift"
  proof -
    have "fsec (share_subc sp z v) = fsec z - fpVal v" if "sp < length z" for v
      using sum_list_at [of sp z fpVal "\<lambda>x. x - v" "- fpVal v"] that
      by (simp add: fsec_def share_subc_def)
    then show ?thesis
      using assms by (simp add: near_def) (simp add: fp_of_int_def)
  qed
  then show "\<bar>fsec (share_subc sp z (fp_of_int (2 ^ 16))) - (M - 2 ^ 16) * shift\<bar> \<le> 502 * int n + 764"
    using assms by (simp add: near_def shift_eq)
  show "length (share_subc sp z (fp_of_int (2 ^ 16))) = n"
    using assms by (simp add: near_def)
qed

text \<open>\<open>floor_of n s z\<close>: \<open>z\<close> shares the floor of the integer nearest to \<open>2 ^ 16 s\<close>, divided by \<open>2 ^ 16\<close>.\<close>

definition floor_of :: "nat \<Rightarrow> fp list \<Rightarrow> fp list \<Rightarrow> bool" where
  "floor_of n s z \<longleftrightarrow> length z = n \<and> (\<exists>M. 2 * \<bar>M * shift - 2 ^ 16 * fsec s\<bar> \<le> shift + 1200 + 1004 * int n \<and>
     \<bar>fsec z - (M div 2 ^ 16) * shift\<bar> \<le> 502 * int n + 764)"

lemma floor_ofI:
  assumes "near n 0 N (scaled sp s)" "near n 16 (N div 2 ^ 16) z" "length s = n" "sp < n"
  shows "floor_of n s (share_subc sp z (fp_of_int (2 ^ 16)))"
proof -
  have f: "fsec (scaled sp s) = 2 ^ 32 * shift + 2 ^ 16 * fsec s"
    using assms by (simp add: scaled_def share_simps) (simp add: fp_of_int_def)
  have "2 * \<bar>(N - 2 ^ 32) * shift - 2 ^ 16 * fsec s\<bar> \<le> shift + 1200 + 1004 * int n"
  proof -
    have "(N - 2 ^ 32) * shift - 2 ^ 16 * fsec s = - (fsec (scaled sp s) - N * shift)"
      unfolding f by (simp add: left_diff_distrib)
    then have "\<bar>(N - 2 ^ 32) * shift - 2 ^ 16 * fsec s\<bar> = \<bar>fsec (scaled sp s) - N * shift\<bar>"
      by (simp only: abs_minus_cancel)
    then show ?thesis
      using assms(1) unfolding near_def by simp
  qed
  moreover have "(N - 2 ^ 32) div 2 ^ 16 = N div 2 ^ 16 - (2 ^ 16 :: int)"
  proof -
    have "N - 2 ^ 32 = N + (- (2 ^ 16)) * 2 ^ 16" by simp
    then show ?thesis by (simp only: div_mult_self1) simp
  qed
  ultimately show ?thesis
    using near_floor [OF assms(2,4)] unfolding floor_of_def by metis
qed

lemma wpS_getFloor:
  assumes "wf_world P T J n sp w" "boost_ok F" "n \<le> 100" "enough P E fuel" "length s = n" "\<bar>fsec s\<bar> \<le> 65000 * shift"
    and post: "\<And>z w'. wf_world P T J n sp w' \<Longrightarrow> w_ok w' = w_ok w \<Longrightarrow> floor_of n s z \<Longrightarrow> Q z w'"
  shows "wpS E Q (getFloor F fuel s) w"
proof -
  have sp: "sp < n" "w_sp w = sp" using assms(1) by (auto simp: wf_world_def)
  have sixteen: "(16 :: nat) = Suc 15" by simp
  note st = scaled_start [OF assms(5) sp(1) assms(6,3)]
  have "wpS E (\<lambda>z w'. wf_world P T J n sp w' \<and> w_ok w' = w_ok w \<and>
      floor_of n s (share_subc sp z (fp_of_int (2 ^ 16)))) (floor_loop F fuel 16 (scaled sp s)) w"
    unfolding sixteen floor_loop.simps wpS_bindS
  proof (rule wpS_getLSBShare [OF assms(1-4) st(1)])
    fix b w1
    assume w1: "wf_world P T J n sp w1" "w_ok w1 = w_ok w" and "lsb_rel n (scaled sp s) b"
    from first_bit [OF this(3) st(1)] obtain N where N: "near n 0 N (scaled sp s)"
      and b: "is_bit_share (10 ^ 13) n (N mod 2) b"
      by blast
    have N': "0 \<le> N div 2" "N div 2 \<le> 2 ^ 33 - 400000"
      using st(3) [OF N] by auto
    have one: "1 \<le> Suc 0" by simp
    show "wpS E (\<lambda>z w'. wf_world P T J n sp w' \<and> w_ok w' = w_ok w \<and>
        floor_of n s (share_subc sp z (fp_of_int (2 ^ Suc 15))))
      (floor_loop F fuel 15 (half_share (share_sub (scaled sp s) b))) w1"
    proof (rule wpS_floor_loop [OF w1(1) assms(2-4) near_half [OF N b] one N'])
      fix z w2
      assume w2: "wf_world P T J n sp w2" "w_ok w2 = w_ok w1" and z: "near n (Suc 0 + 15) (N div 2 div 2 ^ 15) z"
      have "near n 16 (N div 2 ^ 16) z"
        using z by (simp add: zdiv_zmult2_eq [symmetric])
      from floor_ofI [OF N this assms(5) sp(1)] w1 w2
      show "wf_world P T J n sp w2 \<and> w_ok w2 = w_ok w \<and> floor_of n s (share_subc sp z (fp_of_int (2 ^ Suc 15)))"
        by simp
    qed
  qed
  then have "wpS E (\<lambda>z. Q (share_subc sp z (fp_of_int (2 ^ 16)))) (floor_loop F fuel 16 (scaled sp s)) w"
    by (rule wpS_mono) (simp add: post)
  then show ?thesis
    by (simp add: getFloor_def scaled_def sp Let_def)
qed

subsection \<open>Vectors of shares\<close>

lemma tape_getRandVec_fp:
  assumes "tape P g" "- (2 ^ 36) \<le> lo" "lo < hi" "hi < 2 ^ 36"
  shows "wpS (\<lambda>_. False) (\<lambda>x g'. tape P g' \<and> length x = k \<and>
    (\<forall>j < k. \<exists>u. P u \<and> x ! j = fp_of_int (uint u mod (hi - lo) + lo))) (getRandVec_fp lo hi k) g"
  unfolding getRandVec_fp_def
proof (rule wpS_mapS [where I = "tape P" and R = "\<lambda>_ x. \<exists>u. P u \<and> x = fp_of_int (uint u mod (hi - lo) + lo)"])
  show "wpS (\<lambda>_. False) (\<lambda>y g'. tape P g' \<and> (\<exists>u. P u \<and> y = fp_of_int (uint u mod (hi - lo) + lo)))
      (getRand_fp lo hi) g" if "tape P g" for g
    using that assms(2-4) by (rule tape_getRand_fp_draw)
qed (use assms(1) in \<open>auto simp: list_all2_conv_all_nth\<close>)

text \<open>\<open>draws P lo hi n k rs\<close>: \<open>rs\<close> are \<open>k\<close> shares, each drawn by \<open>n\<close> parties.\<close>

definition draws :: "(64 word \<Rightarrow> bool) \<Rightarrow> int \<Rightarrow> int \<Rightarrow> nat \<Rightarrow> fp list list \<Rightarrow> bool" where
  "draws P lo hi n rs \<longleftrightarrow> (\<forall>r \<in> set rs. \<exists>ks. r = map fp_of_int ks \<and> length ks = n \<and> drawn_fp P lo hi ks)"

lemma wpS_getRandShares:
  assumes "wf_world P T J n sp w" "- (2 ^ 36) \<le> lo" "lo < hi" "hi < 2 ^ 36"
    and post: "\<And>rs w'. wf_world P T J n sp w' \<Longrightarrow> w_ok w' = w_ok w \<Longrightarrow> length rs = k \<Longrightarrow> draws P lo hi n rs \<Longrightarrow> Q rs w'"
  shows "wpS E Q (getRandShares lo hi k) w"
  unfolding getRandShares_def wpS_bindS wpS_retS
proof (rule wpS_on_rngs [OF assms(1) tape_getRandVec_fp [OF _ assms(2-4)]])
  fix xs w'
  assume w': "wf_world P T J n sp w'" "w_ok w' = w_ok w" "length xs = n"
    and xs: "\<forall>x \<in> set xs. length x = k \<and> (\<forall>j < k. \<exists>u. P u \<and> x ! j = fp_of_int (uint u mod (hi - lo) + lo))"
  then obtain f where f: "\<forall>x \<in> set xs. \<forall>j < k. P (f x j) \<and> x ! j = fp_of_int (uint (f x j) mod (hi - lo) + lo)"
    by metis
  have "draws P lo hi n (map (\<lambda>j. map (\<lambda>r. r ! j) xs) [0..<k])"
    unfolding draws_def
  proof
    fix r assume "r \<in> set (map (\<lambda>j. map (\<lambda>r. r ! j) xs) [0..<k])"
    then obtain j where j: "j < k" "r = map (\<lambda>r. r ! j) xs" by auto
    let ?ks = "map (\<lambda>x. uint (f x j) mod (hi - lo) + lo) xs"
    have "r = map fp_of_int ?ks"
      using f j by simp
    moreover have "drawn_fp P lo hi ?ks"
      using f j(1) by (auto simp: drawn_fp_def)
    ultimately show "\<exists>ks. r = map fp_of_int ks \<and> length ks = n \<and> drawn_fp P lo hi ks"
      using w'(3) by (intro exI [of _ ?ks]) simp
  qed
  with w' show "Q (map (\<lambda>j. map (\<lambda>r. r ! j) xs) [0..<k]) w'"
    by (intro post) simp_all
qed

definition random_bit :: "nat \<Rightarrow> fp list \<Rightarrow> bool" where
  "random_bit n z \<longleftrightarrow> (\<exists>b \<in> {0, 1}. is_bit_share (10 ^ 12) n b z)"

lemma wpS_getRandBitShares:
  assumes "wf_world P T J n sp w" "boost_ok F" "n \<le> 100" "enough P E fuel"
    and post: "\<And>zs w'. wf_world P T J n sp w' \<Longrightarrow> w_ok w' = w_ok w \<Longrightarrow> length zs = k \<Longrightarrow>
      \<forall>z \<in> set zs. random_bit n z \<Longrightarrow> Q zs w'"
  shows "wpS E Q (getRandBitShares F fuel k) w"
  unfolding getRandBitShares_def wpS_bindS
proof (rule wpS_getRandShares [OF assms(1)])
  fix rs w1
  assume w1: "wf_world P T J n sp w1" "w_ok w1 = w_ok w" and rs: "length rs = k" "draws P (- 1000) 1000 n rs"
  let ?step = "\<lambda>sq w i. let d = fp_getDoubleVal F (recons (sq ! i))
      in if d \<noteq> 0 then retS (bit_of_root F (w_sp w) d (rs ! i)) else getRandBitShare F fuel"
  have len: "\<forall>r \<in> set rs. length r = n"
    using rs(2) by (fastforce simp: draws_def)
  show "wpS E (\<lambda>square_r. wpS E Q (withW (\<lambda>w. mapS (?step square_r w) [0..<k]))) (fp_vec_mult rs rs) w1"
  proof (rule wpS_fp_vec_mult [OF w1(1) refl len len])
    fix sq w2
    assume w2: "wf_world P T J n sp w2" "w_ok w2 = w_ok w1" and "length sq = length rs"
      and sq: "\<forall>i < length rs. length (sq ! i) = n \<and> \<bar>shift * fsec (sq ! i) - fsec (rs ! i) * fsec (rs ! i)\<bar> < shift"
    have sp: "sp < n" "w_sp w2 = sp" using w2 by (auto simp: wf_world_def)
    show "wpS E Q (withW (\<lambda>w. mapS (?step sq w) [0..<k])) w2"
      unfolding wpS_withW
    proof (rule wpS_mapS [where I = "\<lambda>w'. wf_world P T J n sp w' \<and> w_ok w' = w_ok w" and R = "\<lambda>_ z. random_bit n z"])
      fix i w3
      assume i: "i \<in> set [0..<k]" and w3: "wf_world P T J n sp w3 \<and> w_ok w3 = w_ok w"
      have "rs ! i \<in> set rs" using i rs(1) by simp
      then obtain ks where ks: "rs ! i = map fp_of_int ks" "length ks = n" "drawn_fp P (- 1000) 1000 ks"
        using rs(2) unfolding draws_def by blast
      have "\<bar>shift * fsec (sq ! i) - fsec (map fp_of_int ks) * fsec (map fp_of_int ks)\<bar> < shift"
        using sq i rs(1) ks(1) by auto
      from square_opened [OF assms(2) ks(2) assms(3) ks(3) this]
      have d: "fp_getDoubleVal F (recons (sq ! i)) = of_int (sum_list ks * sum_list ks)" .
      show "wpS E (\<lambda>z w'. (wf_world P T J n sp w' \<and> w_ok w' = w_ok w) \<and> random_bit n z) (?step sq w2 i) w3"
      proof (cases "sum_list ks = 0")
        case False
        from bit_of_root_bit [OF assms(2) ks(2) assms(3) sp(1) ks(3) this]
        have "random_bit n (bit_of_root F sp (of_int (sum_list ks * sum_list ks)) (rs ! i))"
          unfolding random_bit_def ks(1) .
        with False w3 show ?thesis by (simp add: d Let_def sp)
      next
        case True
        then show ?thesis
          using w3 by (simp add: d Let_def) (rule wpS_getRandBitShare [OF _ assms(2-4)], auto simp: random_bit_def)
      qed
    next
      fix zs w3
      assume "wf_world P T J n sp w3 \<and> w_ok w3 = w_ok w" "list_all2 (\<lambda>_ z. random_bit n z) [0..<k] zs"
      then show "Q zs w3"
        by (intro post) (auto simp: list_all2_conv_all_nth in_set_conv_nth)
    qed (use w1 w2 in simp)
  qed
qed simp_all

lemma wpS_getLSBShares:
  assumes "wf_world P T J n sp w" "boost_ok F" "n \<le> 100" "enough P E fuel" "\<forall>y \<in> set ys. lsb_range n y"
    and post: "\<And>zs w'. wf_world P T J n sp w' \<Longrightarrow> w_ok w' = w_ok w \<Longrightarrow> list_all2 (lsb_rel n) ys zs \<Longrightarrow> Q zs w'"
  shows "wpS E Q (getLSBShares F fuel ys) w"
  unfolding getLSBShares_def wpS_bindS
proof (rule wpS_getRandBitShares [OF assms(1-4)], rule wpS_getRandShares, assumption)
  let ?k = "length ys"
  fix r0 w1 rd w2
  assume w1: "wf_world P T J n sp w1" "w_ok w1 = w_ok w" and r0: "length r0 = ?k" "\<forall>z \<in> set r0. random_bit n z"
  assume w2: "wf_world P T J n sp w2" "w_ok w2 = w_ok w1" and rd: "length rd = ?k" "draws P 0 1000 n rd"
  have sp: "sp < n" "w_sp w2 = sp" using w2 by (auto simp: wf_world_def)
  let ?t = "\<lambda>j. share_add (share_add (ys ! j) (r0 ! j)) (share_scale (fp_of_int 2) (rd ! j))"
  have t: "vec_add ys r0 = Inr (map2 share_add ys r0)"
    "vec_add (map2 share_add ys r0) (vec_scale (fp_of_int 2) rd) =
      Inr (map2 share_add (map2 share_add ys r0) (vec_scale (fp_of_int 2) rd))"
    using r0(1) rd(1) by (simp_all add: vec_add_def vec_scale_def)
  have c: "map recons (map2 share_add (map2 share_add ys r0) (vec_scale (fp_of_int 2) rd)) = map (\<lambda>j. recons (?t j)) [0..<?k]"
    using r0(1) rd(1) by (intro nth_equalityI) (simp_all add: vec_scale_def)
  have step: "wpE (\<lambda>_. False) (\<lambda>c. lsb_rel n (ys ! j) (unmask_bit sp c (r0 ! j))) (parity F (recons (?t j)))" if "j < ?k" for j
  proof -
    have "r0 ! j \<in> set r0" "rd ! j \<in> set rd" "ys ! j \<in> set ys"
      using that r0(1) rd(1) by simp_all
    then obtain b ks where b: "b \<in> {0, 1}" "is_bit_share (10 ^ 12) n b (r0 ! j)"
      and ks: "rd ! j = map fp_of_int ks" "length ks = n" "drawn_fp P 0 1000 ks" and y: "lsb_range n (ys ! j)"
      using r0(2) rd(2) assms(5) unfolding draws_def random_bit_def by meson
    show ?thesis
      using lsb_of_sum [OF assms(2,3) sp(1) y b(2,1) ks(2,3)] by (simp add: ks(1))
  qed
  show "wpS E Q (withW (\<lambda>w. bindS (liftS (vec_add ys r0)) (\<lambda>t0.
     bindS (liftS (vec_add t0 (vec_scale (fp_of_int 2) rd))) (\<lambda>t.
     let c = map recons t in
     mapS (\<lambda>j. bindS (liftS (parity F (c ! j))) (\<lambda>cj. retS (unmask_bit (w_sp w) cj (r0 ! j)))) [0..<length c])))) w2"
    unfolding wpS_withW wpS_bindS wpS_liftS t wpE_Inr c Let_def
  proof (rule wpS_mapS [where I = "\<lambda>w'. w' = w2" and R = "\<lambda>j z. lsb_rel n (ys ! j) z"])
    fix j w' assume "j \<in> set [0..<length (map (\<lambda>j. recons (?t j)) [0..<?k])]" and w': "w' = w2"
    then have j: "j < ?k" by simp
    from step [OF j] obtain c where "parity F (recons (?t j)) = Inr c" "lsb_rel n (ys ! j) (unmask_bit sp c (r0 ! j))"
      by (auto simp: wpE_total)
    with j w' sp(2) show "wpS E (\<lambda>z w'. w' = w2 \<and> lsb_rel n (ys ! j) z) (bindS (liftS (parity F (map (\<lambda>j. recons (?t j)) [0..<?k] ! j)))
        (\<lambda>cj. retS (unmask_bit (w_sp w2) cj (r0 ! j)))) w'"
      by simp
  qed (use w1 w2 in \<open>auto intro!: post simp: list_all2_conv_all_nth\<close>)
qed simp_all

lemma near_half_list:
  assumes "list_all2 (near n i) Ns ys" "list_all2 (\<lambda>N b. is_bit_share c n (N mod 2) b) Ns bs"
  shows "list_all2 (near n (Suc i)) (map (\<lambda>N. N div 2) Ns) (map half_share (map2 share_sub ys bs))"
  using assms by (auto simp: list_all2_conv_all_nth intro!: near_half)

lemma next_bit_list:
  assumes "list_all2 (near n i) Ns ys" "1 \<le> i" "n \<le> 100" "list_all2 (lsb_rel n) ys bs"
  shows "list_all2 (\<lambda>N b. is_bit_share (10 ^ 13) n (N mod 2) b) Ns bs"
proof (rule list_all2_all_nthI)
  show "length Ns = length bs"
    using assms(1,4) by (simp add: list_all2_conv_all_nth)
  fix j assume "j < length Ns"
  then have "near n i (Ns ! j) (ys ! j)" "lsb_rel n (ys ! j) (bs ! j)"
    using assms(1,4) by (simp_all add: list_all2_conv_all_nth)
  then show "is_bit_share (10 ^ 13) n (Ns ! j mod 2) (bs ! j)"
    using next_bit assms(2,3) by blast
qed

lemma vec_sub_half:
  assumes "length ys = length bs"
  shows "bindS (liftS (vec_sub ys bs)) (\<lambda>d. floors_loop F fuel i (vec_scale (fp_of_double (1 / 2)) d)) =
    floors_loop F fuel i (map half_share (map2 share_sub ys bs))"
  using assms by (intro ext) (simp add: bindS_def liftS_def vec_sub_def vec_scale_def half_share_def comp_def)

lemma wpS_floors_loop:
  assumes "wf_world P T J n sp w" "boost_ok F" "n \<le> 100" "enough P E fuel"
    and "list_all2 (near n j) Ns ys" "1 \<le> j" "\<forall>N \<in> set Ns. 0 \<le> N \<and> N \<le> 2 ^ 33 - 400000"
    and post: "\<And>zs w'. wf_world P T J n sp w' \<Longrightarrow> w_ok w' = w_ok w \<Longrightarrow>
      list_all2 (near n (j + i)) (map (\<lambda>N. N div 2 ^ i) Ns) zs \<Longrightarrow> Q zs w'"
  shows "wpS E Q (floors_loop F fuel i ys) w"
  using assms(1,5-7) post
proof (induction i arbitrary: w j Ns ys)
  case 0
  then show ?case by simp
next
  case (Suc i)
  have r: "\<forall>y \<in> set ys. lsb_range n y"
  proof
    fix y assume "y \<in> set ys"
    then obtain N where "N \<in> set Ns" "near n j N y"
      using Suc.prems(2) by (metis in_set_conv_nth list_all2_conv_all_nth)
    then show "lsb_range n y"
      using near_range [OF _ Suc.prems(3) assms(3)] Suc.prems(4) by blast
  qed
  show ?case
    unfolding floors_loop.simps wpS_bindS [of _ _ "getLSBShares F fuel ys"]
  proof (rule wpS_getLSBShares [OF Suc.prems(1) assms(2-4) r])
    fix bs w'
    assume w': "wf_world P T J n sp w'" "w_ok w' = w_ok w" and b: "list_all2 (lsb_rel n) ys bs"
    have len: "length ys = length bs" using b by (rule list_all2_lengthD)
    note nb = near_half_list [OF Suc.prems(2) next_bit_list [OF Suc.prems(2,3) assms(3) b]]
    have d: "\<forall>N \<in> set (map (\<lambda>N. N div 2) Ns). 0 \<le> N \<and> N \<le> 2 ^ 33 - 400000"
      using Suc.prems(4) by auto
    show "wpS E Q (bindS (liftS (vec_sub ys bs)) (\<lambda>d. floors_loop F fuel i (vec_scale (fp_of_double (1 / 2)) d))) w'"
      unfolding vec_sub_half [OF len]
    proof (rule Suc.IH [OF w'(1) nb _ d])
      fix zs w''
      assume "wf_world P T J n sp w''" "w_ok w'' = w_ok w'"
        "list_all2 (near n (Suc j + i)) (map (\<lambda>N. N div 2 ^ i) (map (\<lambda>N. N div 2) Ns)) zs"
      with w'(2) show "Q zs w''"
        by (intro Suc.prems(5)) (simp_all add: zdiv_zmult2_eq comp_def)
    qed simp
  qed
qed

lemma wpS_getFloors:
  assumes "wf_world P T J n sp w" "boost_ok F" "n \<le> 100" "enough P E fuel"
    "\<forall>s \<in> set ss. length s = n \<and> \<bar>fsec s\<bar> \<le> 65000 * shift"
    and post: "\<And>zs w'. wf_world P T J n sp w' \<Longrightarrow> w_ok w' = w_ok w \<Longrightarrow> list_all2 (floor_of n) ss zs \<Longrightarrow> Q zs w'"
  shows "wpS E Q (getFloors F fuel ss) w"
proof -
  have sp: "sp < n" "w_sp w = sp" using assms(1) by (auto simp: wf_world_def)
  let ?y = "map (scaled sp) ss" and ?out = "map (\<lambda>z. share_subc sp z (fp_of_int (2 ^ 16)))"
  have sixteen: "(16 :: nat) = Suc 15" by simp
  note st = scaled_start [OF _ sp(1) _ assms(3)]
  have r: "\<forall>y \<in> set ?y. lsb_range n y"
    using assms(5) st(1) by auto
  have "wpS E (\<lambda>zs w'. wf_world P T J n sp w' \<and> w_ok w' = w_ok w \<and> list_all2 (floor_of n) ss (?out zs))
    (floors_loop F fuel 16 ?y) w"
    unfolding sixteen floors_loop.simps wpS_bindS [of _ _ "getLSBShares F fuel ?y"]
  proof (rule wpS_getLSBShares [OF assms(1-4) r])
    fix bs w1
    assume w1: "wf_world P T J n sp w1" "w_ok w1 = w_ok w" and b: "list_all2 (lsb_rel n) ?y bs"
    have len: "length ?y = length bs" using b by (rule list_all2_lengthD)
    have "\<forall>j < length ss. \<exists>N. near n 0 N (?y ! j) \<and> is_bit_share (10 ^ 13) n (N mod 2) (bs ! j)"
    proof (intro allI impI)
      fix j assume j: "j < length ss"
      then have "lsb_rel n (?y ! j) (bs ! j)" "lsb_range n (?y ! j)"
        using b r by (simp_all add: list_all2_conv_all_nth)
      then show "\<exists>N. near n 0 N (?y ! j) \<and> is_bit_share (10 ^ 13) n (N mod 2) (bs ! j)"
        by (rule first_bit)
    qed
    then obtain f where f: "\<forall>j < length ss. near n 0 (f j) (?y ! j) \<and> is_bit_share (10 ^ 13) n (f j mod 2) (bs ! j)"
      by metis
    define Ns where "Ns = map f [0..<length ss]"
    have N: "list_all2 (near n 0) Ns ?y" "list_all2 (\<lambda>N b. is_bit_share (10 ^ 13) n (N mod 2) b) Ns bs"
      using f len by (auto simp: Ns_def list_all2_conv_all_nth)
    have d: "\<forall>N \<in> set (map (\<lambda>N. N div 2) Ns). 0 \<le> N \<and> N \<le> 2 ^ 33 - 400000"
    proof -
      have "0 \<le> f j div 2 \<and> f j div 2 \<le> 2 ^ 33 - 400000" if "j < length ss" for j
      proof -
        have "0 \<le> f j \<and> f j \<le> 2 ^ 33 - 400000"
          using f that assms(5) st(3) [of "ss ! j" "f j"] by auto
        then show ?thesis by auto
      qed
      then show ?thesis by (auto simp: Ns_def)
    qed
    have one: "1 \<le> Suc 0" by simp
    show "wpS E (\<lambda>zs w'. wf_world P T J n sp w' \<and> w_ok w' = w_ok w \<and>
        list_all2 (floor_of n) ss (map (\<lambda>z. share_subc sp z (fp_of_int (2 ^ Suc 15))) zs))
      (bindS (liftS (vec_sub ?y bs)) (\<lambda>d. floors_loop F fuel 15 (vec_scale (fp_of_double (1 / 2)) d))) w1"
      unfolding vec_sub_half [OF len]
    proof (rule wpS_floors_loop [OF w1(1) assms(2-4) near_half_list [OF N] one d])
      fix zs w2
      assume w2: "wf_world P T J n sp w2" "w_ok w2 = w_ok w1"
        and z: "list_all2 (near n (Suc 0 + 15)) (map (\<lambda>N. N div 2 ^ 15) (map (\<lambda>N. N div 2) Ns)) zs"
      have "list_all2 (floor_of n) ss (?out zs)"
      proof (rule list_all2_all_nthI)
        show "length ss = length (?out zs)"
          using z by (auto simp: Ns_def dest: list_all2_lengthD)
        fix j assume j: "j < length ss"
        have "near n 16 (f j div 2 ^ 16) (zs ! j)"
          using z j by (simp add: Ns_def list_all2_conv_all_nth zdiv_zmult2_eq [symmetric])
        moreover have "near n 0 (f j) (scaled sp (ss ! j))"
          using f j by auto
        moreover have "j < length zs"
          using z j by (auto simp: Ns_def dest: list_all2_lengthD)
        ultimately show "floor_of n (ss ! j) (?out zs ! j)"
          using floor_ofI assms(5) sp(1) j by (metis nth_map nth_mem)
      qed
      with w1 w2 show "wf_world P T J n sp w2 \<and> w_ok w2 = w_ok w \<and>
          list_all2 (floor_of n) ss (map (\<lambda>z. share_subc sp z (fp_of_int (2 ^ Suc 15))) zs)"
        by simp
    qed
  qed
  then have "wpS E (\<lambda>zs. Q (?out zs)) (floors_loop F fuel 16 ?y) w"
    by (rule wpS_mono) (simp add: post)
  then show ?thesis
    by (simp add: getFloors_def scaled_def [abs_def] sp Let_def vec_scale_def vec_addc_def comp_def)
qed

lemma floor_of_value:
  assumes "floor_of n s z" "n \<le> 100" "fsec s mod shift \<le> shift - 1000"
  shows "\<bar>fsec z - fsec s div shift * shift\<bar> \<le> 502 * int n + 764"
proof -
  define a r where "a = fsec s div shift" and "r = fsec s mod shift"
  have s: "fsec s = a * shift + r" "0 \<le> r" "r \<le> shift - 1000"
    using assms(3) by (simp_all add: a_def r_def)
  from assms(1) obtain M where M: "2 * \<bar>M * shift - 2 ^ 16 * fsec s\<bar> \<le> shift + 1200 + 1004 * int n"
    "\<bar>fsec z - (M div 2 ^ 16) * shift\<bar> \<le> 502 * int n + 764"
    by (auto simp: floor_of_def)
  define d where "d = M - 2 ^ 16 * a"
  have "M * shift - 2 ^ 16 * fsec s = d * shift - 2 ^ 16 * r"
    by (simp add: d_def s(1) algebra_simps)
  moreover have "int n \<le> 100" using assms(2) by simp
  ultimately have "\<bar>d * shift - 2 ^ 16 * r\<bar> \<le> 51000000"
    using M(1) by (simp add: shift_eq)
  from abs_le_D1 [OF this] abs_le_D2 [OF this] s(2,3) have "0 \<le> d" "d < 2 ^ 16"
    by (simp_all add: shift_eq)
  then have "M div 2 ^ 16 = a"
    by (intro int_div_pos_eq [of _ _ _ d]) (simp_all add: d_def)
  with M(2) show ?thesis by (simp add: a_def)
qed

subsection \<open>A world in which every draw is positive\<close>

definition positive_rng :: rng where
  "positive_rng = \<lparr>n_hold = 1000, rands = [], gen = zero_csprng\<lparr>rnd_bytes := (\<lambda>_ n. replicate n 2)\<rparr>\<rparr>"

definition positive_world :: world where
  "positive_world = demo_world\<lparr>w_rngs := [positive_rng, positive_rng]\<rparr>"

lemma positive_number: "1000 < uint (of_nat (be_value (replicate 8 2)) :: 64 word) mod 2000"
proof -
  have "replicate 8 x = [x, x, x, x, x, x, x, x]" for x :: "8 word"
    by (simp add: eval_nat_numeral)
  then have "be_value (replicate 8 2) = 144680345676153346"
    by (simp add: be_value_def)
  then show ?thesis by simp
qed

definition positive :: "64 word \<Rightarrow> bool" where
  "positive u \<longleftrightarrow> 1000 < uint u mod 2000"

lemma positive_draws_positive: "positive_draws positive"
  by (simp add: positive_draws_def positive_def)

lemma wf_positive_world: "wf_world positive 100000 1 2 0 positive_world"
proof -
  have "tape positive positive_rng"
    using positive_number
    by (auto simp: tape_def positive_rng_def positive_def sodium_ok_def zero_csprng_def block_def dest!: chunk8_replicate)
  then show ?thesis
    using wf_demo_world by (simp add: wf_world_def positive_world_def)
qed

subsection \<open>Properties\<close>

lemma wpS_case: "wpS (\<lambda>e. e = OutOfFuel) Q m w \<Longrightarrow> (case m w of Inl e \<Rightarrow> e = OutOfFuel | Inr (z, w') \<Rightarrow> Q z w')"
  by (simp add: wpS_def wpE_def split: sum.splits)

text \<open>
  C18. \<open>getFloor\<close> on shares of fixed-point numbers of magnitude at most 65000, for up to 100 parties: either a random bit is still being
  drawn or the opened result is the floor of the secret up to \<open>502 n + 764\<close> units in the last place, unless the
  secret is less than 1000 units below a whole number. So does the version for vectors, element by
  element. If every party's draws are positive both return with one unit of fuel.
\<close>

theorem getFloor_correct:
  assumes "wf_world P T J n sp w" "boost_ok F" "n \<le> 100" "length s = n" "\<bar>fpVal (recons s)\<bar> \<le> 65000 * shift"
    "\<forall>u \<in> set ss. length u = n \<and> \<bar>fpVal (recons u)\<bar> \<le> 65000 * shift"
  shows "(case getFloor F fuel s w of Inl e \<Rightarrow> e = OutOfFuel
      | Inr (z, w') \<Rightarrow> wf_world P T J n sp w' \<and> (fpVal (recons s) mod shift \<le> shift - 1000 \<longrightarrow>
          \<bar>fpVal (recons z) - fpVal (recons s) div shift * shift\<bar> \<le> 502 * int n + 764)) \<and>
    (case getFloors F fuel ss w of Inl e \<Rightarrow> e = OutOfFuel
      | Inr (zs, w') \<Rightarrow> wf_world P T J n sp w' \<and> list_all2 (\<lambda>s z. fpVal (recons s) mod shift \<le> shift - 1000 \<longrightarrow>
          \<bar>fpVal (recons z) - fpVal (recons s) div shift * shift\<bar> \<le> 502 * int n + 764) ss zs) \<and>
    (positive_draws P \<and> 0 < fuel \<longrightarrow> getFloor F fuel s w \<noteq> Inl OutOfFuel \<and> getFloors F fuel ss w \<noteq> Inl OutOfFuel)"
proof -
  note b = assms(1-3)
  have s: "\<bar>fsec s\<bar> \<le> 65000 * shift" "\<forall>u \<in> set ss. length u = n \<and> \<bar>fsec u\<bar> \<le> 65000 * shift"
    using assms(5,6) by (simp_all add: fpVal_recons)
  have e: "enough P (\<lambda>e. e = OutOfFuel) fuel" by (simp add: enough_def)
  have "getFloor F fuel s w \<noteq> Inl OutOfFuel \<and> getFloors F fuel ss w \<noteq> Inl OutOfFuel" if "positive_draws P \<and> 0 < fuel"
  proof -
    have t: "enough P (\<lambda>_. False) fuel" using that by (simp add: enough_def)
    have "wpS (\<lambda>_. False) (\<lambda>_ _. True) (getFloor F fuel s) w"
      by (rule wpS_getFloor [OF b t assms(4) s(1)]) simp
    moreover have "wpS (\<lambda>_. False) (\<lambda>_ _. True) (getFloors F fuel ss) w"
      by (rule wpS_getFloors [OF b t s(2)]) simp
    ultimately show ?thesis by (auto simp: wpS_total)
  qed
  then show ?thesis
    by (intro conjI wpS_case wpS_getFloor [OF b e assms(4) s(1)] wpS_getFloors [OF b e s(2)])
      (auto simp: fpVal_recons intro: floor_of_value [OF _ assms(3)] elim: list_all2_mono)
qed

theorem getFloor_correct_witness:
  "\<exists>z w'. getFloor ref_boost 1 [FP 175000000, FP 175000000] positive_world = Inr (z, w') \<and>
     \<bar>fpVal (recons z) - 300000000\<bar> \<le> 1768"
proof -
  have v: "fpVal (recons [FP 175000000, FP 175000000]) = 350000000"
    by (simp add: fpVal_recons fsec_def)
  then show ?thesis
    using getFloor_correct [OF wf_positive_world boost_ok_ref, of "[FP 175000000, FP 175000000]" "[]" 1] positive_draws_positive
    by (auto simp: shift_eq split: sum.splits)
qed

end
