(* ===== verification/FpCompare.thy ===== *)
theory FpCompare
  imports Lsb
begin

section \<open>Comparison of fixed-point shares\<close>

text \<open>
  The first part of \<open>Share/Compare.cpp\<close>: \<open>LTZ\<close> and the operators \<open><\<close> and \<open>==\<close> on shares of fixed-point numbers.
  \<open>LTZ\<close> reads the low 32 bits of \<open>2 ^ 32 + 2 ^ 16 s\<close> one after another and subtracts them from
  \<open>2 ^ 16 s\<close>; the quotient by \<open>2 ^ 32\<close> is 0 or 1 up to an error, and the operators end the process
  when the opened value is not close to either.
\<close>

subsection \<open>Less than zero\<close>

fun LTZ_loop :: "'d boost \<Rightarrow> nat \<Rightarrow> nat list \<Rightarrow> fp list \<Rightarrow> fp list \<Rightarrow> (world, fp list) comp" where
  "LTZ_loop F fuel [] y z = retS z"
| "LTZ_loop F fuel (i # is) y z =
     bindS (getLSBShare F fuel y) (\<lambda>b.
     LTZ_loop F fuel is (half_share (share_sub y b)) (share_add z (share_scale (fp_of_double (2 ^ i)) b)))"

definition LTZ :: "'d boost \<Rightarrow> nat \<Rightarrow> fp list \<Rightarrow> (world, fp list) comp" where
  "LTZ F fuel s = withW (\<lambda>w.
     let x = share_scale (fp_of_double (2 ^ 16)) s; y = share_addc (w_sp w) x (fp_of_double (2 ^ 32)) in
     bindS (getLSBShare F fuel y) (\<lambda>z.
     bindS (LTZ_loop F fuel [1..<32] (half_share (share_sub y z)) z) (\<lambda>z.
     retS (share_fdiv (decs F) (fp_of_double (2 ^ 32)) (share_sub z x)))))"

subsection \<open>The operators\<close>

definition decide :: "rat \<Rightarrow> bool res" where
  "decide d =
     (if rnd (95 / 100) < d then Inr True
      else if rnd (5 / 10) \<le> d then Inl ProcessExit
      else if rnd (5 / 100) \<le> d then Inl ProcessExit
      else Inr False)"

definition share_less :: "'d boost \<Rightarrow> nat \<Rightarrow> fp list \<Rightarrow> fp list \<Rightarrow> (world, bool) comp" where
  "share_less F fuel left right =
     bindS (LTZ F fuel (share_sub left right)) (\<lambda>s_ltz. liftS (decide (fp_getDoubleVal F (recons s_ltz))))"

definition share_less_public :: "'d boost \<Rightarrow> nat \<Rightarrow> fp list \<Rightarrow> fp \<Rightarrow> (world, bool) comp" where
  "share_less_public F fuel left right = withW (\<lambda>w.
     bindS (LTZ F fuel (share_subc (w_sp w) left right)) (\<lambda>s_ltz. liftS (decide (fp_getDoubleVal F (recons s_ltz)))))"

definition fp_of_bool :: "bool \<Rightarrow> fp" where
  "fp_of_bool b = fp_of_int (if b then 1 else 0)"

definition both_not :: "'d boost \<Rightarrow> bool \<Rightarrow> bool \<Rightarrow> bool res" where
  "both_not F x_ret y_ret =
     decide (fp_getDoubleVal F ((fp_of_int 1 - fp_of_bool x_ret) * (fp_of_int 1 - fp_of_bool y_ret)))"

definition share_equal :: "'d boost \<Rightarrow> nat \<Rightarrow> fp list \<Rightarrow> fp list \<Rightarrow> (world, bool) comp" where
  "share_equal F fuel left right =
     bindS (share_less F fuel left right) (\<lambda>x_ret.
     bindS (share_less F fuel right left) (\<lambda>y_ret. liftS (both_not F x_ret y_ret)))"

text \<open>
  In \<open>right < left\<close> with a public number \<open>right\<close> the library's operators for mixed operands turn to \<open>left > right\<close>, for which
  only the comparison of two shares is declared: \<open>right\<close> is converted by the constructor of
  \<open>Share\<close>, which makes it every party's share.
\<close>

definition share_of_public :: "nat \<Rightarrow> fp \<Rightarrow> fp list" where
  "share_of_public n v = replicate n v"

definition share_equal_public :: "'d boost \<Rightarrow> nat \<Rightarrow> fp list \<Rightarrow> fp \<Rightarrow> (world, bool) comp" where
  "share_equal_public F fuel left right = withW (\<lambda>w.
     bindS (share_less_public F fuel left right) (\<lambda>x_ret.
     bindS (share_less F fuel (share_of_public (n_parties w) right) left) (\<lambda>y_ret. liftS (both_not F x_ret y_ret))))"

subsection \<open>The bits below \<open>2 ^ 32\<close>\<close>

text \<open>\<open>low_bits n i N z\<close>: \<open>z\<close> shares the low \<open>i\<close> bits of \<open>N\<close>.\<close>

definition low_bits :: "nat \<Rightarrow> nat \<Rightarrow> int \<Rightarrow> fp list \<Rightarrow> bool" where
  "low_bits n i N z \<longleftrightarrow> length z = n \<and> \<bar>fsec z - (N mod 2 ^ i) * shift\<bar> \<le> 501 * int n * (2 ^ i - 1) \<and>
     fbound (10 ^ 13 * 2 ^ i) z"

lemma low_bits_step:
  assumes z: "low_bits n i N z" and b: "is_bit_share (10 ^ 13) n (N div 2 ^ i mod 2) b" and "i < 34"
  shows "low_bits n (Suc i) N (share_add z (share_scale (fp_of_double (2 ^ i)) b))"
proof -
  have two: "fp_of_double (2 ^ i) = fp_of_int (2 ^ i)"
  proof -
    have "\<bar>(2 :: int) ^ i\<bar> \<le> 2 ^ 34"
      using assms(3) power_increasing [of i 34 "2 :: int"] by simp
    from fp_of_double_int [OF this] show ?thesis by simp
  qed
  let ?B = "N div 2 ^ i mod 2"
  have "fsec (share_add z (share_scale (fp_of_int (2 ^ i)) b)) = fsec z + fsec b * 2 ^ i"
    using z b by (simp add: share_simps low_bits_def is_bit_share_def)
  moreover have "N mod 2 ^ Suc i = 2 ^ i * ?B + N mod 2 ^ i"
    using zmod_zmult2_eq [of 2 N "2 ^ i"] by (simp add: mult.commute)
  moreover have e: "\<bar>(fsec b - ?B * shift) * 2 ^ i\<bar> \<le> 501 * int n * 2 ^ i"
    using b unfolding abs_mult by (simp add: is_bit_share_def mult_right_mono)
  ultimately have "fsec (share_add z (share_scale (fp_of_int (2 ^ i)) b)) - (N mod 2 ^ Suc i) * shift =
      (fsec z - (N mod 2 ^ i) * shift) + (fsec b - ?B * shift) * 2 ^ i"
    by (simp add: algebra_simps)
  then have "\<bar>fsec (share_add z (share_scale (fp_of_int (2 ^ i)) b)) - (N mod 2 ^ Suc i) * shift\<bar> \<le>
      \<bar>fsec z - (N mod 2 ^ i) * shift\<bar> + \<bar>(fsec b - ?B * shift) * 2 ^ i\<bar>"
    by (simp only: abs_triangle_ineq)
  also have "\<dots> \<le> 501 * int n * (2 ^ i - 1) + 501 * int n * 2 ^ i"
    using z e by (intro add_mono) (simp_all add: low_bits_def)
  also have "\<dots> = 501 * int n * (2 ^ Suc i - 1)"
    by (simp add: algebra_simps)
  finally have "\<bar>fsec (share_add z (share_scale (fp_of_int (2 ^ i)) b)) - (N mod 2 ^ Suc i) * shift\<bar> \<le>
      501 * int n * (2 ^ Suc i - 1)" .
  moreover have "fbound (10 ^ 13 * 2 ^ i + 10 ^ 13 * 2 ^ i) (share_add z (share_scale (fp_of_int (2 ^ i)) b))"
    using z b by (intro fbound_add fbound_scale_int) (simp_all add: low_bits_def is_bit_share_def)
  ultimately show ?thesis
    using z b by (simp add: low_bits_def is_bit_share_def two)
qed

lemma wpS_LTZ_loop:
  assumes "wf_world P T J n sp w" "boost_ok F" "n \<le> 100" "enough P E fuel"
    and "near n i (N div 2 ^ i) y" "low_bits n i N z" "1 \<le> i" "i + k \<le> 34" "0 \<le> N" "N \<le> 2 ^ 33 - 400000"
    and post: "\<And>z w'. wf_world P T J n sp w' \<Longrightarrow> w_ok w' = w_ok w \<Longrightarrow> low_bits n (i + k) N z \<Longrightarrow> Q z w'"
  shows "wpS E Q (LTZ_loop F fuel [i..<i + k] y z) w"
  using assms(1,5-8) post
proof (induction k arbitrary: w i y z)
  case 0
  then show ?case by simp
next
  case (Suc k)
  have M: "0 \<le> N div 2 ^ i" "N div 2 ^ i \<le> 2 ^ 33 - 400000"
    using assms(9,10) zdiv_mono2 [of N 1 "2 ^ i"] by (simp_all add: pos_imp_zdiv_nonneg_iff)
  have upt: "[i..<i + Suc k] = i # [Suc i..<i + Suc k]"
    by (simp add: upt_conv_Cons)
  show ?case
    unfolding upt LTZ_loop.simps wpS_bindS
  proof (rule wpS_getLSBShare [OF Suc.prems(1) assms(2-4) near_range [OF Suc.prems(2,4) assms(3) M]])
    fix b w'
    assume w': "wf_world P T J n sp w'" "w_ok w' = w_ok w" and "lsb_rel n y b"
    then have b: "is_bit_share (10 ^ 13) n (N div 2 ^ i mod 2) b"
      using next_bit Suc.prems(2,4) assms(3) by blast
    have "near n (Suc i) (N div 2 ^ Suc i) (half_share (share_sub y b))"
      using near_half [OF Suc.prems(2) b] by (simp only: power_Suc2) (simp add: zdiv_zmult2_eq)
    moreover have "low_bits n (Suc i) N (share_add z (share_scale (fp_of_double (2 ^ i)) b))"
      using low_bits_step [OF Suc.prems(3) b] Suc.prems(5) by simp
    ultimately show "wpS E Q (LTZ_loop F fuel [Suc i..<i + Suc k] (half_share (share_sub y b))
        (share_add z (share_scale (fp_of_double (2 ^ i)) b))) w'"
      using Suc.IH [OF w'(1), of "Suc i"] Suc.prems(5,6) w'(2) by simp
  qed
qed

subsection \<open>The quotient\<close>

lemma fdiv_value:
  assumes F: "boost_ok F" and b: "fbound (10 ^ 59) xs"
  shows "\<bar>fsec (share_fdiv (decs F) (fp_of_int (2 ^ 32)) xs) * 2 ^ 32 - fsec xs\<bar> \<le> (2 ^ 32 + 10 ^ 11) * int (length xs)"
  using b
proof (induction xs)
  case (Cons x xs)
  define q where "q = fpVal (fp_div (decs F) x (fp_of_int (2 ^ 32)))"
  have x: "\<bar>fpVal x\<bar> \<le> 10 ^ 59"
    using Cons.prems by (simp add: fbound_def)
  have a: "\<bar>fpVal x\<bar> < dec_range"
    using x by (rule less_dec_range) simp
  have c: "\<bar>fpVal (fp_of_int (2 ^ 32))\<bar> \<le> 10 ^ 50" "fpVal (fp_of_int (2 ^ 32)) \<noteq> 0"
    by (simp_all add: fp_of_int_def shift_eq)
  have "\<bar>q * (2 ^ 32 * shift) - fpVal x * shift\<bar> * 10 ^ 48 \<le> \<bar>2 ^ 32 * shift\<bar> * 10 ^ 48 + \<bar>fpVal x * shift\<bar>"
    using boost_div [OF F c(2) a less_1000 [OF c(1)]] by (simp only: q_def fp_of_int_def fp.sel)
  moreover have "q * (2 ^ 32 * shift) - fpVal x * shift = (q * 2 ^ 32 - fpVal x) * shift"
    by (simp add: left_diff_distrib)
  ultimately have "\<bar>q * 2 ^ 32 - fpVal x\<bar> * shift * 10 ^ 48 \<le> 2 ^ 32 * shift * 10 ^ 48 + \<bar>fpVal x\<bar> * shift"
    by (simp only: abs_mult) simp
  with x have "\<bar>q * 2 ^ 32 - fpVal x\<bar> \<le> 2 ^ 32 + 10 ^ 11"
    by (simp add: shift_eq)
  moreover have "\<bar>fsec (share_fdiv (decs F) (fp_of_int (2 ^ 32)) xs) * 2 ^ 32 - fsec xs\<bar> \<le> (2 ^ 32 + 10 ^ 11) * int (length xs)"
    using Cons by (simp add: fbound_def)
  moreover have "fsec (share_fdiv (decs F) (fp_of_int (2 ^ 32)) (x # xs)) = q + fsec (share_fdiv (decs F) (fp_of_int (2 ^ 32)) xs)"
    "fsec (x # xs) = fpVal x + fsec xs"
    by (simp_all add: fsec_def share_fdiv_def q_def)
  ultimately show ?case by simp
qed (simp add: fsec_def share_fdiv_def)

text \<open>\<open>ltz_of n s z\<close>: \<open>z\<close> shares 1 if the integer nearest to \<open>2 ^ 16 s\<close> is negative and 0 otherwise.\<close>

definition ltz_of :: "nat \<Rightarrow> fp list \<Rightarrow> fp list \<Rightarrow> bool" where
  "ltz_of n s z \<longleftrightarrow> length z = n \<and> (\<exists>M. 2 * \<bar>M * shift - 2 ^ 16 * fsec s\<bar> \<le> shift + 1200 + 1004 * int n \<and>
     \<bar>fsec z - (if M < 0 then shift else 0)\<bar> \<le> 527 * int n)"

lemma ltz_ofI:
  assumes F: "boost_ok F" and n: "n \<le> 100" "sp < n" and s: "length s = n" "\<bar>fsec s\<bar> \<le> 65000 * shift" "fbound (10 ^ 54) s"
    and N: "near n 0 N (scaled sp s)" and z: "low_bits n 32 N z"
  shows "ltz_of n s (share_fdiv (decs F) (fp_of_int (2 ^ 32)) (share_sub z (share_scale (fp_of_int (2 ^ 16)) s)))"
proof -
  let ?v = "share_sub z (share_scale (fp_of_int (2 ^ 16)) s)"
  let ?q = "share_fdiv (decs F) (fp_of_int (2 ^ 32)) ?v"
  define M where "M = N - 2 ^ 32"
  have n': "int n \<le> 100" using n by simp
  have f: "fsec (scaled sp s) = 2 ^ 32 * shift + 2 ^ 16 * fsec s"
    by (rule scaled_start(2) [OF s(1) n(2) s(2) n(1)])
  have M: "2 * \<bar>M * shift - 2 ^ 16 * fsec s\<bar> \<le> shift + 1200 + 1004 * int n"
  proof -
    have "M * shift - 2 ^ 16 * fsec s = - (fsec (scaled sp s) - N * shift)"
      unfolding f M_def by (simp add: left_diff_distrib)
    then have "\<bar>M * shift - 2 ^ 16 * fsec s\<bar> = \<bar>fsec (scaled sp s) - N * shift\<bar>"
      by (simp only: abs_minus_cancel)
    with N show ?thesis by (simp add: near_def)
  qed
  then have "\<bar>M * shift - 2 ^ 16 * fsec s\<bar> \<le> shift"
    using n' by (simp add: shift_eq)
  from abs_le_D1 [OF this] abs_le_D2 [OF this] abs_le_D1 [OF s(2)] abs_le_D2 [OF s(2)]
  have r: "- (2 ^ 32) \<le> M" "M < 2 ^ 32"
    by (simp_all add: shift_eq)
  define c :: int where "c = (if M < 0 then 1 else 0)"
  have "N mod 2 ^ 32 = M + c * 2 ^ 32"
  proof -
    have "N mod 2 ^ 32 = M mod 2 ^ 32" by (simp add: M_def)
    also have "\<dots> = (M + c * 2 ^ 32) mod 2 ^ 32" by simp
    also have "\<dots> = M + c * 2 ^ 32"
      using r by (intro mod_pos_pos_trivial) (simp_all add: c_def)
    finally show ?thesis .
  qed
  with z have z': "\<bar>fsec z - (M + c * 2 ^ 32) * shift\<bar> \<le> 501 * int n * (2 ^ 32 - 1)" "length z = n" "fbound (10 ^ 13 * 2 ^ 32) z"
    by (simp_all add: low_bits_def)
  have "fbound (10 ^ 13 * 2 ^ 32 + 10 ^ 54 * 2 ^ 16) ?v"
    using z'(3) s(3) by (intro fbound_sub fbound_scale_int) simp_all
  then have "fbound (10 ^ 59) ?v"
    by (rule fbound_mono) simp
  from fdiv_value [OF F this]
  have q: "\<bar>fsec ?q * 2 ^ 32 - (fsec z - 2 ^ 16 * fsec s)\<bar> \<le> (2 ^ 32 + 10 ^ 11) * int n"
    using z'(2) s(1) by (simp add: share_simps mult.commute)
  have e: "(M + c * 2 ^ 32) * shift = M * shift + c * shift * 2 ^ 32"
    by (simp add: distrib_right)
  define A B C where "A = fsec ?q * 2 ^ 32 - (fsec z - 2 ^ 16 * fsec s)"
    and "B = fsec z - (M + c * 2 ^ 32) * shift" and "C = M * shift - 2 ^ 16 * fsec s"
  have "(fsec ?q - c * shift) * 2 ^ 32 = A + B + C"
    unfolding A_def B_def C_def e by (simp add: left_diff_distrib)
  moreover have "\<bar>(fsec ?q - c * shift) * 2 ^ 32\<bar> = \<bar>fsec ?q - c * shift\<bar> * 2 ^ 32"
    by (simp only: abs_mult power_abs abs_numeral)
  ultimately have "\<bar>fsec ?q - c * shift\<bar> * 2 ^ 32 = \<bar>A + B + C\<bar>"
    by (simp only:)
  also have "\<dots> \<le> \<bar>A\<bar> + \<bar>B\<bar> + \<bar>C\<bar>"
    by simp
  also have "\<dots> < (527 * int n + 1) * 2 ^ 32"
    using q z'(1) M n' unfolding A_def [symmetric] B_def [symmetric] C_def [symmetric] by (simp add: shift_eq)
  finally have "\<bar>fsec ?q - c * shift\<bar> < 527 * int n + 1"
    by (rule mult_right_less_imp_less) simp
  then have "\<bar>fsec ?q - c * shift\<bar> \<le> 527 * int n"
    by simp
  moreover have "c * shift = (if M < 0 then shift else 0)"
    by (simp add: c_def)
  moreover have "length ?q = n"
    using z'(2) s(1) by (simp add: share_fdiv_def)
  ultimately show ?thesis
    using M unfolding ltz_of_def by (intro conjI exI [of _ M]) (simp_all only:)
qed

lemma low_bits_first:
  "is_bit_share (10 ^ 13) n (N mod 2) z \<Longrightarrow> low_bits n 1 N z"
  unfolding is_bit_share_def low_bits_def by (auto elim!: fbound_mono)

lemma wpS_LTZ:
  assumes "wf_world P T J n sp w" "boost_ok F" "n \<le> 100" "enough P E fuel"
    and s: "length s = n" "\<bar>fsec s\<bar> \<le> 65000 * shift" "fbound (10 ^ 54) s"
    and post: "\<And>z w'. wf_world P T J n sp w' \<Longrightarrow> w_ok w' = w_ok w \<Longrightarrow> ltz_of n s z \<Longrightarrow> Q z w'"
  shows "wpS E Q (LTZ F fuel s) w"
proof -
  have sp: "sp < n" "w_sp w = sp" using assms(1) by (auto simp: wf_world_def)
  note st = scaled_start [OF s(1) sp(1) s(2) assms(3)]
  let ?x = "share_scale (fp_of_int (2 ^ 16)) s"
  have "wpS E (\<lambda>z. wpS E Q (bindS (LTZ_loop F fuel [1..<1 + 31] (half_share (share_sub (scaled sp s) z)) z)
      (\<lambda>z. retS (share_fdiv (decs F) (fp_of_int (2 ^ 32)) (share_sub z ?x)))))
    (getLSBShare F fuel (scaled sp s)) w"
  proof (rule wpS_getLSBShare [OF assms(1-4) st(1)])
    fix b w1
    assume w1: "wf_world P T J n sp w1" "w_ok w1 = w_ok w" and "lsb_rel n (scaled sp s) b"
    from first_bit [OF this(3) st(1)] obtain N where N: "near n 0 N (scaled sp s)"
      and b: "is_bit_share (10 ^ 13) n (N mod 2) b"
      by blast
    have near: "near n 1 (N div 2 ^ 1) (half_share (share_sub (scaled sp s) b))"
      using near_half [OF N b] by simp
    show "wpS E Q (bindS (LTZ_loop F fuel [1..<1 + 31] (half_share (share_sub (scaled sp s) b)) b)
      (\<lambda>z. retS (share_fdiv (decs F) (fp_of_int (2 ^ 32)) (share_sub z ?x)))) w1"
      unfolding wpS_bindS
    proof (rule wpS_LTZ_loop [OF w1(1) assms(2-4) near low_bits_first [OF b]])
      fix z w2
      assume w2: "wf_world P T J n sp w2" "w_ok w2 = w_ok w1" and z: "low_bits n (1 + 31) N z"
      have "ltz_of n s (share_fdiv (decs F) (fp_of_int (2 ^ 32)) (share_sub z ?x))"
        using z by (intro ltz_ofI [OF assms(2,3) sp(1) s N]) simp
      with w1 w2 show "wpS E Q (retS (share_fdiv (decs F) (fp_of_int (2 ^ 32)) (share_sub z ?x))) w2"
        by (simp add: post)
    qed (use st(3) [OF N] in simp_all)
  qed
  then show ?thesis
    unfolding wpS_bindS [symmetric] by (simp add: LTZ_def scaled_def sp Let_def)
qed

subsection \<open>Reading the opened value\<close>

lemma decide_close:
  assumes "boost_ok F" "\<bar>fpVal v - (if b then shift else 0)\<bar> \<le> 60000"
  shows "decide (fp_getDoubleVal F v) = Inr b"
proof -
  let ?d = "fp_getDoubleVal F v"
  have "\<bar>fpVal v\<bar> \<le> 2 ^ 60"
    using assms(2) by (auto simp: shift_eq split: if_splits)
  then have "\<bar>?d * of_int shift - of_int (fpVal v)\<bar> \<le> 600"
    using fp_getDoubleVal_close [OF assms(1), of "fpVal v"] by (simp add: shift_eq)
  moreover have "\<bar>of_int (fpVal v) - (if b then of_int shift else 0) :: rat\<bar> \<le> 60000"
    using of_int_abs_le [OF assms(2)] by (cases b) simp_all
  ultimately have "if b then 99 / 100 < ?d else ?d < 1 / 100"
    by (auto simp: shift_eq abs_if split: if_splits)
  moreover have "rnd (95 / 100) < 96 / 100" "4 / 100 < rnd (5 / 100)" "4 / 10 < rnd (5 / 10)" "94 / 100 < rnd (95 / 100)"
    using rnd_close [of "95 / 100"] rnd_close [of "5 / 100"] rnd_close [of "5 / 10"]
    by (auto simp: abs_if split: if_splits)
  ultimately show ?thesis
    by (auto simp: decide_def split: if_splits)
qed

lemma both_not_decided: "boost_ok F \<Longrightarrow> both_not F x y = Inr (\<not> x \<and> \<not> y)"
  unfolding both_not_def by (rule decide_close) (auto simp: fp_of_bool_def fp_of_int_def shift_eq tdiv_def)

text \<open>\<open>less_value S b\<close>: \<open>b\<close> tells whether the difference \<open>S\<close> is negative, up to 1000 units in the last place.\<close>

definition less_value :: "int \<Rightarrow> bool \<Rightarrow> bool" where
  "less_value S b \<longleftrightarrow> (0 \<le> S \<longrightarrow> \<not> b) \<and> (S \<le> - 1000 \<longrightarrow> b)"

lemma wpS_less:
  assumes "wf_world P T J n sp w" "boost_ok F" "n \<le> 100" "enough P E fuel"
    and s: "length s = n" "\<bar>fsec s\<bar> \<le> 65000 * shift" "fbound (10 ^ 54) s"
    and post: "\<And>b w'. wf_world P T J n sp w' \<Longrightarrow> w_ok w' = w_ok w \<Longrightarrow> less_value (fsec s) b \<Longrightarrow> Q b w'"
  shows "wpS E Q (bindS (LTZ F fuel s) (\<lambda>s_ltz. liftS (decide (fp_getDoubleVal F (recons s_ltz))))) w"
  unfolding wpS_bindS
proof (rule wpS_LTZ [OF assms(1-4) s])
  fix z w'
  assume w': "wf_world P T J n sp w'" "w_ok w' = w_ok w" and "ltz_of n s z"
  then obtain M where M: "2 * \<bar>M * shift - 2 ^ 16 * fsec s\<bar> \<le> shift + 1200 + 1004 * int n"
    "\<bar>fsec z - (if M < 0 then shift else 0)\<bar> \<le> 527 * int n"
    by (auto simp: ltz_of_def)
  have n: "int n \<le> 100" using assms(3) by simp
  with M(2) have d: "decide (fp_getDoubleVal F (recons z)) = Inr (M < 0)"
    by (intro decide_close [OF assms(2)]) (simp add: fpVal_recons)
  have "\<bar>M * shift - 2 ^ 16 * fsec s\<bar> \<le> 51000000"
    using M(1) n by (simp add: shift_eq)
  from abs_le_D1 [OF this] abs_le_D2 [OF this] have "less_value (fsec s) (M < 0)"
    by (auto simp: less_value_def shift_eq)
  with d post [OF w'] show "wpS E Q (liftS (decide (fp_getDoubleVal F (recons z)))) w'"
    by simp
qed

lemma wpS_share_less:
  assumes "wf_world P T J n sp w" "boost_ok F" "n \<le> 100" "enough P E fuel"
    and "length x = n" "length y = n" "\<bar>fsec x - fsec y\<bar> \<le> 65000 * shift" "fbound (10 ^ 53) x" "fbound (10 ^ 53) y"
    and post: "\<And>b w'. wf_world P T J n sp w' \<Longrightarrow> w_ok w' = w_ok w \<Longrightarrow> less_value (fsec x - fsec y) b \<Longrightarrow> Q b w'"
  shows "wpS E Q (share_less F fuel x y) w"
  unfolding share_less_def
proof (rule wpS_less [OF assms(1-4)])
  show "fbound (10 ^ 54) (share_sub x y)"
    by (rule fbound_mono [OF fbound_sub [OF assms(8,9)]]) simp
qed (use assms in \<open>simp_all add: share_simps\<close>)

lemma fsec_subc [share_simps]: "sp < length z \<Longrightarrow> fsec (share_subc sp z v) = fsec z - fpVal v"
  using sum_list_at [of sp z fpVal "\<lambda>x. x - v" "- fpVal v"] by (simp add: fsec_def share_subc_def)

lemma wpS_share_less_public:
  assumes "wf_world P T J n sp w" "boost_ok F" "n \<le> 100" "enough P E fuel"
    and "length x = n" "\<bar>fsec x - fpVal r\<bar> \<le> 65000 * shift" "fbound (10 ^ 53) x" "\<bar>fpVal r\<bar> \<le> 10 ^ 53"
    and post: "\<And>b w'. wf_world P T J n sp w' \<Longrightarrow> w_ok w' = w_ok w \<Longrightarrow> less_value (fsec x - fpVal r) b \<Longrightarrow> Q b w'"
  shows "wpS E Q (share_less_public F fuel x r) w"
proof -
  have sp: "sp < n" "w_sp w = sp" using assms(1) by (auto simp: wf_world_def)
  have "wpS E Q (bindS (LTZ F fuel (share_subc sp x r)) (\<lambda>s_ltz. liftS (decide (fp_getDoubleVal F (recons s_ltz))))) w"
  proof (rule wpS_less [OF assms(1-4)])
    show "fbound (10 ^ 54) (share_subc sp x r)"
      by (rule fbound_mono [OF fbound_subc [OF assms(7)]]) (use assms(8) in simp)
  qed (use assms sp in \<open>simp_all add: share_simps\<close>)
  then show ?thesis
    unfolding share_less_public_def wpS_withW sp(2) .
qed

lemma fsec_replicate [share_simps]: "fsec (replicate n v) = int n * fpVal v"
  by (simp add: fsec_def sum_list_replicate)

lemma wpS_share_equal:
  assumes "wf_world P T J n sp w" "boost_ok F" "n \<le> 100" "enough P E fuel"
    and "length x = n" "length y = n" "\<bar>fsec x - fsec y\<bar> \<le> 65000 * shift" "fbound (10 ^ 53) x" "fbound (10 ^ 53) y"
    and post: "\<And>b w'. wf_world P T J n sp w' \<Longrightarrow>
      (fsec x = fsec y \<longrightarrow> b) \<and> (1000 \<le> \<bar>fsec x - fsec y\<bar> \<longrightarrow> \<not> b) \<Longrightarrow> Q b w'"
  shows "wpS E Q (share_equal F fuel x y) w"
  unfolding share_equal_def wpS_bindS
proof (rule wpS_share_less [OF assms(1-9)])
  fix b1 w1 assume w1: "wf_world P T J n sp w1" "less_value (fsec x - fsec y) b1"
  have d: "\<bar>fsec y - fsec x\<bar> \<le> 65000 * shift" using assms(7) by (simp add: abs_minus_commute)
  show "wpS E (\<lambda>b2. wpS E Q (liftS (both_not F b1 b2))) (share_less F fuel y x) w1"
  proof (rule wpS_share_less [OF w1(1) assms(2-4) assms(6,5) d assms(9,8)])
    fix b2 w2 assume w2: "wf_world P T J n sp w2" "less_value (fsec y - fsec x) b2"
    have "Q (\<not> b1 \<and> \<not> b2) w2"
      using w1(2) w2(2) by (intro post [OF w2(1)]) (auto simp: less_value_def)
    then show "wpS E Q (liftS (both_not F b1 b2)) w2"
      by (simp add: both_not_decided [OF assms(2)])
  qed
qed

lemma wpS_share_equal_public:
  assumes "wf_world P T J n sp w" "boost_ok F" "n \<le> 100" "enough P E fuel"
    and "length x = n" "\<bar>fsec x - fpVal r\<bar> \<le> 65000 * shift" "\<bar>int n * fpVal r - fsec x\<bar> \<le> 65000 * shift"
    and "fbound (10 ^ 53) x" "\<bar>fpVal r\<bar> \<le> 10 ^ 53"
    and post: "\<And>b w'. wf_world P T J n sp w' \<Longrightarrow>
      (fpVal r \<le> fsec x \<and> fsec x \<le> int n * fpVal r \<longrightarrow> b) \<and>
      (fsec x + 1000 \<le> fpVal r \<or> int n * fpVal r + 1000 \<le> fsec x \<longrightarrow> \<not> b) \<Longrightarrow> Q b w'"
  shows "wpS E Q (share_equal_public F fuel x r) w"
  unfolding share_equal_public_def wpS_bindS wpS_withW
proof (rule wpS_share_less_public [OF assms(1-6,8,9)])
  fix b1 w1 assume w1: "wf_world P T J n sp w1" "less_value (fsec x - fpVal r) b1"
  have "n_parties w = n"
    using assms(1) by (simp add: wf_world_def n_parties_def)
  then show "wpS E (\<lambda>b2. wpS E Q (liftS (both_not F b1 b2))) (share_less F fuel (share_of_public (n_parties w) r) x) w1"
  proof (simp only: share_of_public_def, rule_tac wpS_share_less [OF w1(1) assms(2-4) length_replicate assms(5)])
    show "fbound (10 ^ 53) (replicate n r)"
      using assms(9) by (auto simp: fbound_def)
    fix b2 w2 assume w2: "wf_world P T J n sp w2" "less_value (fsec (replicate n r) - fsec x) b2"
    have "Q (\<not> b1 \<and> \<not> b2) w2"
      using w1(2) w2(2) by (intro post [OF w2(1)]) (auto simp: less_value_def share_simps)
    then show "wpS E Q (liftS (both_not F b1 b2)) w2"
      by (simp add: both_not_decided [OF assms(2)])
  qed (use assms in \<open>simp_all add: share_simps\<close>)
qed

subsection \<open>Properties\<close>

text \<open>
  C4. \<open>operator<\<close> on shares of fixed-point numbers whose difference has magnitude at most 65000, for up to 100 parties,
  and its version with a public right operand: the operands may be anything the parties hold below
  \<open>10 ^ 53\<close>. Unless a random bit is still being drawn, both return, never ending the process on an
  opened value between 0.05 and 0.95; the result is false if the left operand is not smaller and true if it is smaller by at
  least 1000 units in the last place. If every party's draws are positive one unit of fuel is enough.
\<close>

theorem share_less_correct:
  assumes "wf_world P T J n sp w" "boost_ok F" "n \<le> 100" "length x = n" "length y = n"
    "\<bar>fpVal (recons x) - fpVal (recons y)\<bar> \<le> 65000 * shift" "\<bar>fpVal (recons x) - fpVal r\<bar> \<le> 65000 * shift"
    "fbound (10 ^ 53) x" "fbound (10 ^ 53) y" "\<bar>fpVal r\<bar> \<le> 10 ^ 53"
  shows "(case share_less F fuel x y w of Inl e \<Rightarrow> e = OutOfFuel
      | Inr (b, w') \<Rightarrow> wf_world P T J n sp w' \<and> (fpVal (recons y) \<le> fpVal (recons x) \<longrightarrow> \<not> b) \<and>
          (fpVal (recons x) + 1000 \<le> fpVal (recons y) \<longrightarrow> b)) \<and>
    (case share_less_public F fuel x r w of Inl e \<Rightarrow> e = OutOfFuel
      | Inr (b, w') \<Rightarrow> wf_world P T J n sp w' \<and> (fpVal r \<le> fpVal (recons x) \<longrightarrow> \<not> b) \<and>
          (fpVal (recons x) + 1000 \<le> fpVal r \<longrightarrow> b)) \<and>
    (positive_draws P \<and> 0 < fuel \<longrightarrow>
       share_less F fuel x y w \<noteq> Inl OutOfFuel \<and> share_less_public F fuel x r w \<noteq> Inl OutOfFuel)"
proof -
  note b = assms(1-3)
  have e: "enough P (\<lambda>e. e = OutOfFuel) fuel" by (simp add: enough_def)
  have d: "\<bar>fsec x - fsec y\<bar> \<le> 65000 * shift" "\<bar>fsec x - fpVal r\<bar> \<le> 65000 * shift"
    using assms(6,7) by (simp_all add: fpVal_recons)
  have "share_less F fuel x y w \<noteq> Inl OutOfFuel \<and> share_less_public F fuel x r w \<noteq> Inl OutOfFuel"
    if "positive_draws P \<and> 0 < fuel"
  proof -
    have t: "enough P (\<lambda>_. False) fuel" using that by (simp add: enough_def)
    have "wpS (\<lambda>_. False) (\<lambda>_ _. True) (share_less F fuel x y) w"
      by (rule wpS_share_less [OF b t assms(4,5) d(1) assms(8,9)]) simp
    moreover have "wpS (\<lambda>_. False) (\<lambda>_ _. True) (share_less_public F fuel x r) w"
      by (rule wpS_share_less_public [OF b t assms(4) d(2) assms(8,10)]) simp
    ultimately show ?thesis by (auto simp: wpS_total)
  qed
  then show ?thesis
    by (intro conjI wpS_case wpS_share_less [OF b e assms(4,5) d(1) assms(8,9)]
        wpS_share_less_public [OF b e assms(4) d(2) assms(8,10)])
      (auto simp: fpVal_recons less_value_def)
qed

theorem share_less_correct_witness:
  "\<exists>w'. share_less ref_boost 1 [FP 175000000, FP 175000000] [FP 200000000, FP 200000000] positive_world = Inr (True, w')"
proof -
  have v: "fpVal (recons [FP 175000000, FP 175000000]) = 350000000" "fpVal (recons [FP 200000000, FP 200000000]) = 400000000"
    by (simp_all add: fpVal_recons fsec_def)
  then show ?thesis
    using share_less_correct [OF wf_positive_world boost_ok_ref, of "[FP 175000000, FP 175000000]"
        "[FP 200000000, FP 200000000]" 0 1] positive_draws_positive
    by (auto simp: shift_eq fbound_def split: sum.splits)
qed

text \<open>
  \<open>operator==\<close> on shares of fixed-point numbers, in the same range: equal secrets compare equal and secrets at least
  1000 units in the last place apart do not.
\<close>

theorem share_equal_correct:
  assumes "wf_world P T J n sp w" "boost_ok F" "n \<le> 100" "length x = n" "length y = n"
    "\<bar>fpVal (recons x) - fpVal (recons y)\<bar> \<le> 65000 * shift" "fbound (10 ^ 53) x" "fbound (10 ^ 53) y"
  shows "(case share_equal F fuel x y w of Inl e \<Rightarrow> e = OutOfFuel
      | Inr (b, w') \<Rightarrow> wf_world P T J n sp w' \<and> (fpVal (recons x) = fpVal (recons y) \<longrightarrow> b) \<and>
          (1000 \<le> \<bar>fpVal (recons x) - fpVal (recons y)\<bar> \<longrightarrow> \<not> b)) \<and>
    (positive_draws P \<and> 0 < fuel \<longrightarrow> share_equal F fuel x y w \<noteq> Inl OutOfFuel)"
proof -
  note b = assms(1-3)
  have e: "enough P (\<lambda>e. e = OutOfFuel) fuel" by (simp add: enough_def)
  have d: "\<bar>fsec x - fsec y\<bar> \<le> 65000 * shift"
    using assms(6) by (simp add: fpVal_recons)
  have "share_equal F fuel x y w \<noteq> Inl OutOfFuel" if "positive_draws P \<and> 0 < fuel"
  proof -
    have t: "enough P (\<lambda>_. False) fuel" using that by (simp add: enough_def)
    have "wpS (\<lambda>_. False) (\<lambda>_ _. True) (share_equal F fuel x y) w"
      by (rule wpS_share_equal [OF b t assms(4,5) d assms(7,8)]) simp
    then show ?thesis by (auto simp: wpS_total)
  qed
  then show ?thesis
    by (intro conjI wpS_case wpS_share_equal [OF b e assms(4,5) d assms(7,8)]) (auto simp: fpVal_recons)
qed

theorem share_equal_correct_witness:
  "(\<exists>w'. share_equal ref_boost 1 [FP 175000000, FP 25000000] [FP 100000000, FP 100000000] positive_world = Inr (True, w')) \<and>
   (\<exists>w'. share_equal ref_boost 1 [FP 175000000, FP 25000000] [FP 100000000, FP 100001000] positive_world = Inr (False, w'))"
proof -
  have v: "fpVal (recons [FP 175000000, FP 25000000]) = 200000000" "fpVal (recons [FP 100000000, FP 100000000]) = 200000000"
    "fpVal (recons [FP 100000000, FP 100001000]) = 200001000"
    by (simp_all add: fpVal_recons fsec_def)
  note c = share_equal_correct [OF wf_positive_world boost_ok_ref, of "[FP 175000000, FP 25000000]" _ 1]
  show ?thesis
    using c [of "[FP 100000000, FP 100000000]"] c [of "[FP 100000000, FP 100001000]"] positive_draws_positive v
    by (auto simp: shift_eq fbound_def split: sum.splits)
qed

text \<open>
  \<open>operator==\<close> on a share and a public number compares the secret with the number on one side and with \<open>n\<close> times the
  number on the other: for \<open>n\<close> parties it answers true for every secret from \<open>r\<close> up to \<open>n r\<close>, and false only
  outside this interval. With two parties a share of 7 equals the public number 5.
\<close>

theorem share_equal_public_interval:
  assumes "wf_world P T J n sp w" "boost_ok F" "n \<le> 100" "length x = n" "positive_draws P" "0 < fuel"
    "\<bar>fpVal (recons x) - fpVal r\<bar> \<le> 65000 * shift" "\<bar>int n * fpVal r - fpVal (recons x)\<bar> \<le> 65000 * shift"
    "fbound (10 ^ 53) x" "\<bar>fpVal r\<bar> \<le> 10 ^ 53"
  shows "\<exists>b w'. share_equal_public F fuel x r w = Inr (b, w') \<and>
    (fpVal r \<le> fpVal (recons x) \<and> fpVal (recons x) \<le> int n * fpVal r \<longrightarrow> b) \<and>
    (fpVal (recons x) + 1000 \<le> fpVal r \<or> int n * fpVal r + 1000 \<le> fpVal (recons x) \<longrightarrow> \<not> b)"
proof -
  have t: "enough P (\<lambda>_. False) fuel" using assms(5,6) by (simp add: enough_def)
  have d: "\<bar>fsec x - fpVal r\<bar> \<le> 65000 * shift" "\<bar>int n * fpVal r - fsec x\<bar> \<le> 65000 * shift"
    using assms(7,8) by (simp_all add: fpVal_recons)
  have "wpS (\<lambda>_. False) (\<lambda>b w'. (fpVal r \<le> fsec x \<and> fsec x \<le> int n * fpVal r \<longrightarrow> b) \<and>
      (fsec x + 1000 \<le> fpVal r \<or> int n * fpVal r + 1000 \<le> fsec x \<longrightarrow> \<not> b)) (share_equal_public F fuel x r) w"
    by (rule wpS_share_equal_public [OF assms(1-3) t assms(4) d assms(9,10)]) simp
  then show ?thesis
    by (auto simp: wpS_total fpVal_recons)
qed

theorem share_equal_public_interval_witness:
  "\<exists>w'. share_equal_public ref_boost 1 [FP 300000000, FP 400000000] (fp_of_int 5) positive_world = Inr (True, w')"
proof -
  have v: "fpVal (recons [FP 300000000, FP 400000000]) = 700000000"
    by (simp add: fpVal_recons fsec_def)
  then show ?thesis
    using share_equal_public_interval [OF wf_positive_world boost_ok_ref, of "[FP 300000000, FP 400000000]" 1 "fp_of_int 5"]
      positive_draws_positive
    by (auto simp: shift_eq fbound_def fp_of_int_def)
qed

end
