(* ===== verification/FpDiv.thy ===== *)
theory FpDiv
  imports Lsb
begin

section \<open>Division of fixed-point shares\<close>

text \<open>
  \<open>sharize\<close>, \<open>getInv\<close> and the quotients of \<open>Share/Share.hpp\<close> for fixed-point numbers. The inverse masks the
  secret with a random whole number \<open>r\<close>, inverts the opened product and multiplies with \<open>r\<close> again: the products are exact, and
  the rounding of the opened inverse is multiplied by \<open>r\<close>, which is up to 999 per party.
\<close>

definition fp_share_getInv :: "'d dec \<Rightarrow> fp list \<Rightarrow> (world, fp list) comp" where
  "fp_share_getInv D = share_getInv getTriple_fp getRand_fp (\<lambda>x. Inr (fp_getInv D x))"

text \<open>The quotients of vectors and public numbers.\<close>

definition vec_fdiv :: "'d dec \<Rightarrow> fp list list \<Rightarrow> fp \<Rightarrow> fp list list" where
  "vec_fdiv D left right = vec_scale (fp_div D (fp_of_double 1) right) left"

definition fp_vec_getInv :: "'d dec \<Rightarrow> fp list list \<Rightarrow> (world, fp list list) comp" where
  "fp_vec_getInv D = getMultiplicativeInvVec getTriple_fp getRand_fp (\<lambda>x. Inr (fp_getInv D x))"

subsection \<open>Sharing\<close>

lemma tape_getRand_fp_all: "tape P g \<Longrightarrow> wpS (\<lambda>_. False) (\<lambda>x g'. tape P g' \<and> True) (getRand_fp 1 1000) g"
  by (rule wpS_mono [OF tape_getRand_fp_draw]) auto

lemma fsec_split:
  assumes "length rs = n - 1" "sp < n"
  shows "fsec (map (\<lambda>i. if i = sp then s else rs ! (if i < sp then i else i - 1)) [0..<n]) = fpVal s + fsec rs"
proof -
  let ?z = "map (\<lambda>i. if i = sp then s else rs ! (if i < sp then i else i - 1)) [0..<n]"
  have "?z = take sp rs @ s # drop sp rs"
    using assms by (intro nth_equalityI) (auto simp: nth_append nth_Cons' min_def)
  then have "fsec ?z = fsec (take sp rs) + fpVal s + fsec (drop sp rs)"
    by (simp add: fsec_def)
  also have "\<dots> = fpVal s + fsec (take sp rs @ drop sp rs)"
    by (simp add: fsec_def del: append_take_drop_id)
  finally show ?thesis by simp
qed

lemma wpS_fp_sharize:
  assumes "wf_world P T J n sp w"
    and post: "\<And>z w'. wf_world P T J n sp w' \<Longrightarrow> w_ok w' = w_ok w \<Longrightarrow> length z = n \<Longrightarrow> fsec z = fpVal secret \<Longrightarrow> Q z w'"
  shows "wpS E Q (fp_sharize secret) w"
proof -
  have sp: "w_sp w = sp" "n_parties w = n" "sp < n"
    using assms(1) by (auto simp: wf_world_def n_parties_def)
  show ?thesis
    unfolding fp_sharize_def sharize_def wpS_withW wpS_bindS wpS_retS sp
  proof (rule wpS_on_sp_rng [OF assms(1) wpS_mapS_tape [OF _ tape_getRand_fp_all]])
    fix rs :: "fp list" and w'
    assume w': "wf_world P T J n sp w'" "w_ok w' = w_ok w"
      and rs: "length rs = length (others n sp) \<and> (\<forall>x \<in> set rs. True)"
    let ?z = "map (\<lambda>i. if i = sp then secret - foldl (+) 0 rs else rs ! (if i < sp then i else i - 1)) [0..<n]"
    have "fsec ?z = fpVal (secret - foldl (+) 0 rs) + fsec rs"
      using rs sp by (intro fsec_split) (auto simp: length_others)
    then have "fsec ?z = fpVal secret"
      by (simp flip: recons_def add: fpVal_recons)
    with w' show "Q ?z w'"
      by (intro post) auto
  qed
qed

subsection \<open>The inverse\<close>

definition inv_error :: "nat \<Rightarrow> int \<Rightarrow> int \<Rightarrow> bool" where
  "inv_error n s z \<longleftrightarrow> (s \<noteq> 0 \<longrightarrow> \<bar>z * s - shift * shift\<bar> \<le> 999 * int n * \<bar>s\<bar>)"

text \<open>Secrets that can be inverted: the masked product stays within the range of the decimals.\<close>

definition div_range :: int where "div_range = 10 ^ 900"

lemma below_div_range: "\<bar>v\<bar> \<le> 10 ^ 40 \<Longrightarrow> \<bar>v\<bar> \<le> div_range"
  unfolding div_range_def by (erule order_trans) (rule power_increasing, simp_all)

lemma div_range_masked: "v \<le> div_range * 99900 \<Longrightarrow> v < dec_range"
proof -
  have e: "(905 :: nat) = 900 + 5" by simp
  assume "v \<le> div_range * 99900"
  also have "\<dots> \<le> div_range * 10 ^ 5"
    by (rule mult_left_mono) (simp, simp only: div_range_def zero_le_power zero_le_numeral)
  also have "\<dots> = 10 ^ 905"
    unfolding div_range_def e power_add ..
  finally show ?thesis
    by (rule less_dec_range) simp
qed

lemma exact_product: "\<bar>shift * z - x * (r * shift)\<bar> < shift \<Longrightarrow> z = x * r"
proof -
  assume "\<bar>shift * z - x * (r * shift)\<bar> < shift"
  moreover have "shift * z - x * (r * shift) = (z - x * r) * shift"
    by (simp add: left_diff_distrib)
  ultimately show ?thesis
    by (simp add: abs_mult)
qed

lemma wpS_fp_share_getInv:
  assumes "wf_world P T J n sp w" "boost_ok F" "n \<le> 100" "length s = n" "\<bar>fsec s\<bar> \<le> div_range"
    and post: "\<And>z w'. wf_world P T J n sp w' \<Longrightarrow> w_ok w' = w_ok w \<Longrightarrow> length z = n \<Longrightarrow> inv_error n (fsec s) (fsec z) \<Longrightarrow> Q z w'"
  shows "wpS E Q (fp_share_getInv (decs F) s) w"
  unfolding fp_share_getInv_def share_getInv_def wpS_bindS fp_share_mult_def [symmetric] fp_sharize_def [symmetric]
proof (rule wpS_draws [OF assms(1)])
  fix ks w1 assume w1: "wf_world P T J n sp w1" "w_ok w1 = w_ok w" and ks: "length ks = n" "drawn_fp P 1 1000 ks"
  define \<rho> where "\<rho> = sum_list ks"
  have sp: "sp < n" using w1 by (simp add: wf_world_def)
  have k: "\<forall>k \<in> set ks. 1 \<le> k \<and> k \<le> 999"
    using drawn_fp_range [OF ks(2)] by fastforce
  then have "0 < \<rho>"
    using sum_list_pos [of ks] ks(1) sp by (fastforce simp: \<rho>_def)
  moreover have "\<bar>\<rho>\<bar> \<le> 999 * int n"
    unfolding \<rho>_def ks(1) [symmetric] using k by (intro sum_list_bound) auto
  ultimately have \<rho>: "0 < \<rho>" "\<rho> \<le> 999 * int n" "\<rho> \<le> 99900"
    using assms(3) by auto
  have r: "fsec (map fp_of_int ks) = \<rho> * shift" "length (map fp_of_int ks) = n"
    using fsec_of_ints [of ks] ks(1) by (simp_all add: \<rho>_def)
  let ?rest = "\<lambda>u. wpS E (\<lambda>u_inv. wpS E (\<lambda>s_inv. wpS E Q (fp_share_mult s_inv (map fp_of_int ks))) (fp_sharize u_inv))
      (liftS (Inr (fp_getInv (decs F) (recons u))))"
  show "wpS E ?rest (fp_share_mult s (map fp_of_int ks)) w1"
  proof (rule wpS_fp_share_mult [OF w1(1) assms(4) r(2)])
    fix u w2 assume w2: "wf_world P T J n sp w2" "w_ok w2 = w_ok w1"
      and u: "length u = n" "\<bar>shift * fsec u - fsec s * fsec (map fp_of_int ks)\<bar> < shift"
    then have u': "fsec u = fsec s * \<rho>"
      unfolding r(1) by (intro exact_product)
    let ?v = "fp_getInv (decs F) (recons u)"
    show "?rest u w2"
      unfolding wpS_liftS wpE_Inr
    proof (rule wpS_fp_sharize [OF w2(1)])
      fix s_inv w3 assume w3: "wf_world P T J n sp w3" "w_ok w3 = w_ok w2" and si: "length s_inv = n" "fsec s_inv = fpVal ?v"
      show "wpS E Q (fp_share_mult s_inv (map fp_of_int ks)) w3"
      proof (rule wpS_fp_share_mult [OF w3(1) si(1) r(2)])
        fix z w4 assume w4: "wf_world P T J n sp w4" "w_ok w4 = w_ok w3"
          and z: "length z = n" "\<bar>shift * fsec z - fsec s_inv * fsec (map fp_of_int ks)\<bar> < shift"
        then have z': "fsec z = fpVal ?v * \<rho>"
          unfolding r(1) si(2) by (intro exact_product)
        have "inv_error n (fsec s) (fsec z)"
          unfolding inv_error_def
        proof
          assume nz: "fsec s \<noteq> 0"
          have uv: "fpVal (recons u) = fsec s * \<rho>"
            by (simp add: fpVal_recons u')
          then have u0: "fpVal (recons u) \<noteq> 0"
            using nz \<rho>(1) by simp
          have au: "\<bar>fpVal (recons u)\<bar> = \<bar>fsec s\<bar> * \<rho>"
            using \<rho>(1) by (simp add: uv abs_mult)
          also have "\<dots> \<le> div_range * 99900"
            using assms(5) \<rho> by (intro mult_mono) auto
          finally have "\<bar>fpVal (recons u)\<bar> < dec_range"
            by (rule div_range_masked)
          from boost_inv [OF assms(2) u0 this]
          have "\<bar>fpVal ?v * (fsec s * \<rho>) - shift * shift\<bar> \<le> \<bar>fsec s\<bar> * \<rho>"
            unfolding au unfolding uv .
          also have "\<dots> \<le> \<bar>fsec s\<bar> * (999 * int n)"
            using \<rho>(2) by (rule mult_left_mono) simp
          finally show "\<bar>fsec z * fsec s - shift * shift\<bar> \<le> 999 * int n * \<bar>fsec s\<bar>"
            by (simp add: z' mult_ac)
        qed
        then show "Q z w4"
          using w1 w2 w3 w4 z(1) by (intro post) simp_all
      qed
    qed
  qed
qed simp_all

text \<open>The error of a quotient.\<close>

definition div_error :: "nat \<Rightarrow> int \<Rightarrow> int \<Rightarrow> int \<Rightarrow> bool" where
  "div_error n x y z \<longleftrightarrow> (y \<noteq> 0 \<longrightarrow> shift * \<bar>z * y - x * shift\<bar> \<le> \<bar>y\<bar> * (shift + 999 * int n * \<bar>x\<bar>))"

lemma div_errorI:
  assumes "inv_error n y v" "\<bar>shift * z - x * v\<bar> < shift"
  shows "div_error n x y z"
  unfolding div_error_def
proof
  assume "y \<noteq> 0"
  then have v: "\<bar>v * y - shift * shift\<bar> \<le> 999 * int n * \<bar>y\<bar>"
    using assms(1) by (simp add: inv_error_def)
  have "shift * (z * y - x * shift) = (shift * z - x * v) * y + x * (v * y - shift * shift)"
    by (simp add: algebra_simps)
  then have "shift * \<bar>z * y - x * shift\<bar> = \<bar>(shift * z - x * v) * y + x * (v * y - shift * shift)\<bar>"
    by (metis abs_mult abs_of_nonneg shift_pos(3))
  also have "\<dots> \<le> \<bar>shift * z - x * v\<bar> * \<bar>y\<bar> + \<bar>x\<bar> * \<bar>v * y - shift * shift\<bar>"
    by (metis abs_mult abs_triangle_ineq)
  also have "\<dots> \<le> shift * \<bar>y\<bar> + \<bar>x\<bar> * (999 * int n * \<bar>y\<bar>)"
    using assms(2) v by (intro add_mono mult_mono) auto
  also have "\<dots> = \<bar>y\<bar> * (shift + 999 * int n * \<bar>x\<bar>)"
    by (simp add: algebra_simps)
  finally show "shift * \<bar>z * y - x * shift\<bar> \<le> \<bar>y\<bar> * (shift + 999 * int n * \<bar>x\<bar>)" .
qed

lemma wpS_fp_share_div_ok:
  assumes "wf_world P T J n sp w" "boost_ok F" "n \<le> 100" "length x = n" "length y = n" "\<bar>fsec y\<bar> \<le> div_range"
    and post: "\<And>v z w'. wf_world P T J n sp w' \<Longrightarrow> w_ok w' = w_ok w \<Longrightarrow> inv_error n (fsec y) (fsec v) \<Longrightarrow> mult_ok n x v z \<Longrightarrow> Q z w'"
  shows "wpS E Q (fp_share_div (decs F) x y) w"
  unfolding fp_share_div_def share_div_def wpS_bindS fp_share_getInv_def [symmetric] fp_share_mult_def [symmetric]
proof (rule wpS_fp_share_getInv [OF assms(1-3,5,6)])
  fix v w1 assume w1: "wf_world P T J n sp w1" "w_ok w1 = w_ok w" and v: "length v = n" "inv_error n (fsec y) (fsec v)"
  show "wpS E Q (fp_share_mult x v) w1"
  proof (rule wpS_fp_mult_ok [OF w1(1) assms(4) v(1)])
    fix z w2 assume "wf_world P T J n sp w2" "w_ok w2 = w_ok w1" "mult_ok n x v z"
    with w1 v(2) show "Q z w2"
      by (intro post) auto
  qed
qed

lemma wpS_fp_share_div:
  assumes "wf_world P T J n sp w" "boost_ok F" "n \<le> 100" "length x = n" "length y = n" "\<bar>fsec y\<bar> \<le> div_range"
    and post: "\<And>z w'. wf_world P T J n sp w' \<Longrightarrow> w_ok w' = w_ok w \<Longrightarrow> length z = n \<Longrightarrow> div_error n (fsec x) (fsec y) (fsec z) \<Longrightarrow> Q z w'"
  shows "wpS E Q (fp_share_div (decs F) x y) w"
  by (rule wpS_fp_share_div_ok [OF assms(1-6)]) (auto simp: mult_ok_def intro: post div_errorI)

subsection \<open>Properties\<close>

text \<open>
  C32. The inverse and the quotient of fixed-point shares, for up to 100 parties, never fail; for a secret \<open>s \<noteq> 0\<close> the opened inverse is within
  \<open>999 n\<close> units in the last place of \<open>1 / s\<close>, and \<open>x / y\<close> within \<open>1 + 999 n x\<close> units of the quotient.
\<close>

theorem fp_division_error:
  assumes "wf_world P T J n sp w" "boost_ok F" "n \<le> 100" "length x = n" "length y = n" "\<bar>fpVal (recons y)\<bar> \<le> 10 ^ 40"
    "fpVal (recons y) \<noteq> 0"
  shows "(\<exists>z w'. fp_share_getInv (decs F) y w = Inr (z, w') \<and> wf_world P T J n sp w' \<and> length z = n \<and>
      \<bar>fpVal (recons z) * fpVal (recons y) - shift * shift\<bar> \<le> 999 * int n * \<bar>fpVal (recons y)\<bar>) \<and>
    (\<exists>z w'. fp_share_div (decs F) x y w = Inr (z, w') \<and> wf_world P T J n sp w' \<and> length z = n \<and>
      shift * \<bar>fpVal (recons z) * fpVal (recons y) - fpVal (recons x) * shift\<bar> \<le>
        \<bar>fpVal (recons y)\<bar> * (shift + 999 * int n * \<bar>fpVal (recons x)\<bar>))"
proof -
  have y: "\<bar>fsec y\<bar> \<le> div_range" "fsec y \<noteq> 0"
    using below_div_range [OF assms(6)] assms(7) unfolding fpVal_recons .
  have "wpS (\<lambda>_. False) (\<lambda>z w'. wf_world P T J n sp w' \<and> length z = n \<and> inv_error n (fsec y) (fsec z)) (fp_share_getInv (decs F) y) w"
    by (rule wpS_fp_share_getInv [OF assms(1-3,5) y(1)]) simp
  moreover have "wpS (\<lambda>_. False) (\<lambda>z w'. wf_world P T J n sp w' \<and> length z = n \<and> div_error n (fsec x) (fsec y) (fsec z))
      (fp_share_div (decs F) x y) w"
    by (rule wpS_fp_share_div [OF assms(1-5) y(1)]) simp
  ultimately show ?thesis
    using y(2) unfolding wpS_total inv_error_def div_error_def fpVal_recons by blast
qed

theorem fp_division_error_witness:
  "\<exists>z w'. fp_share_div (decs ref_boost) [FP 300000000, FP 0] [FP 100000000, FP 100000000] demo_world = Inr (z, w') \<and>
     \<bar>fpVal (recons z) - 150000000\<bar> \<le> 5995"
proof -
  have v: "fpVal (recons [FP 300000000, FP 0]) = 300000000" "fpVal (recons [FP 100000000, FP 100000000]) = 200000000"
    by (simp_all add: fpVal_recons fsec_def)
  from fp_division_error [OF wf_demo_world boost_ok_ref, of "[FP 300000000, FP 0]" "[FP 100000000, FP 100000000]"]
  obtain z w' where "fp_share_div (decs ref_boost) [FP 300000000, FP 0] [FP 100000000, FP 100000000] demo_world = Inr (z, w')"
    "shift * \<bar>fpVal (recons z) * 200000000 - 300000000 * shift\<bar> \<le> 200000000 * (shift + 999 * int 2 * 300000000)"
    by (auto simp: v)
  moreover from this(2) have "\<bar>fpVal (recons z) - 150000000\<bar> \<le> 5995"
    by (simp add: shift_eq)
  ultimately show ?thesis by blast
qed

end
