(* ===== verification/Math.thy ===== *)
theory Math
  imports FpCompare FpDiv
begin

section \<open>Statistics and elementary functions on shares\<close>

text \<open>
  \<open>Math/Math.cpp\<close>. A vector of shares is a list of shares, its size in the code an \<open>int\<close>; \<open>n\<close> below is the number of parties. Sums are exact. A mean is
  one division by every party. The variance multiplies with triples, the standard deviation is
  opened and computed in 100-digit decimals (the record \<open>hi\<close>), \<open>exp\<close> is the Maclaurin series with 100 terms.
\<close>

subsection \<open>Sums, means, variance\<close>

definition sum_share :: "nat \<Rightarrow> fp list list \<Rightarrow> fp list" where
  "sum_share n v = foldl share_add (replicate n 0) v"

definition smean :: "'d dec \<Rightarrow> nat \<Rightarrow> fp list list \<Rightarrow> fp list" where
  "smean D n v = share_fdiv D (fp_of_int (isize v)) (sum_share n v)"

definition variance :: "'d dec \<Rightarrow> fp list list \<Rightarrow> (world, fp list) comp" where
  "variance D v = withW (\<lambda>w.
     let avg = smean D (n_parties w) v; var = map (\<lambda>a. share_sub a avg) v in
     bindS (fp_vec_mult var var) (\<lambda>varVec.
     retS (share_fdiv D (fp_of_int (isize v)) (sum_share (n_parties w) varVec))))"

subsection \<open>Standard deviation and correlation\<close>

record 'e hi =
  hi_of_string :: "string \<Rightarrow> 'e"
  hi_neg :: "'e \<Rightarrow> bool"
  hi_zero :: 'e
  hi_sqrt :: "'e \<Rightarrow> 'e"
  hi_to_fp :: "'e \<Rightarrow> fp"

definition stdev :: "'d dec \<Rightarrow> 'e hi \<Rightarrow> fp list list \<Rightarrow> (world, fp) comp" where
  "stdev D H v =
     bindS (variance D v) (\<lambda>var.
     let value = hi_of_string H (fp_getStrVal D (recons var));
         value = (if hi_neg H value then hi_zero H else value)
     in retS (hi_to_fp H (hi_sqrt H value)))"

definition not_tiny :: "'d dec \<Rightarrow> fp \<Rightarrow> fp" where
  "not_tiny D s =
     (let e = fp_of_double (rnd (1 / 1000)); e' = fp_of_double (- rnd (1 / 1000))
      in if \<not> fp_less e s \<and> \<not> fp_less s e' then fp_of_string D ''0.001'' else s)"

definition correl :: "'d dec \<Rightarrow> 'e hi \<Rightarrow> fp list list \<Rightarrow> fp list list \<Rightarrow> (world, fp list) comp" where
  "correl D H x y = (let sizex = isize x; sizey = isize y in
     if sizex \<noteq> sizey then raiseS (RuntimeError ''input Size is not Equal'')
     else withW (\<lambda>w. let n = n_parties w; aveX = smean D n x; aveY = smean D n y in
       bindS (stdev D H x) (\<lambda>stdeX. bindS (stdev D H y) (\<lambda>stdeY.
       bindS (liftS (vector_size sizex)) (\<lambda>_.
       let stdeX = not_tiny D stdeX; stdeY = not_tiny D stdeY;
           tmpX = map (\<lambda>a. share_sub a aveX) (take (nat sizex) x); tmpY = map (\<lambda>a. share_sub a aveY) (take (nat sizex) y) in
       bindS (fp_vec_mult tmpX tmpY) (\<lambda>tmpVec.
       retS (share_fdiv D (fp_of_int sizex) (share_fdiv D stdeY (share_fdiv D stdeX (sum_share n tmpVec))))))))))"

subsection \<open>Exponential function and sigmoid\<close>

text \<open>The powers \<open>px\<close> and the factorials \<open>k\<close> up to index \<open>i\<close>, and the number of terms.\<close>

definition exp_terms :: nat where "exp_terms = 100"

fun exp_powers :: "nat \<Rightarrow> fp list \<Rightarrow> fp list list \<Rightarrow> (world, fp list list) comp" where
  "exp_powers 0 x px = retS px"
| "exp_powers (Suc i) x px = bindS (fp_share_mult (last px) x) (\<lambda>p. exp_powers i x (px @ [p]))"

fun exp_factorial :: "nat \<Rightarrow> fp" where
  "exp_factorial 0 = fp_of_int 1"
| "exp_factorial (Suc i) = exp_factorial i * fp_of_int (int (Suc i))"

definition exp_share :: "'d dec \<Rightarrow> fp list \<Rightarrow> (world, fp list) comp" where
  "exp_share D x = withW (\<lambda>w.
     bindS (exp_powers (exp_terms - 1) x [getConstantShare (n_parties w) (w_sp w) (fp_of_int 1)]) (\<lambda>px.
     let px = map (\<lambda>i. if i = 0 then px ! 0 else share_fdiv D (exp_factorial i) (px ! i)) [0..<exp_terms]
     in retS (foldl share_add (replicate (n_parties w) (fp_of_int 0)) px)))"

definition sigmoid :: "'d dec \<Rightarrow> fp list \<Rightarrow> fp \<Rightarrow> (world, fp list) comp" where
  "sigmoid D x a = withW (\<lambda>w.
     bindS (exp_share D (share_scale a x)) (\<lambda>ex. bindS (fp_share_getInv D ex) (\<lambda>exp_inv.
     fp_share_getInv D (share_addc (w_sp w) exp_inv (fp_of_int 1)))))"

text \<open>
  \<open>open_sigmoid\<close>: \<open>e\<close> is the library's \<open>exp\<close> on doubles. The test for an infinite result looks at each party's own value;
  if only some parties repeat the computation the others wait for them for ever. The repetition passes the opened number
  where a share is expected, so every party holds it, and drops \<open>a\<close>.
\<close>

fun open_sigmoid :: "'d boost \<Rightarrow> (rat \<Rightarrow> rat) \<Rightarrow> nat \<Rightarrow> fp list \<Rightarrow> fp \<Rightarrow> (world, fp list) comp" where
  "open_sigmoid F e 0 x_s a = raiseS OutOfFuel"
| "open_sigmoid F e (Suc fuel) x_s a = withW (\<lambda>w.
     let s = recons x_s; E = fp_of_double (e (- fp_getDoubleVal F (s * a))) in
     bindS (fp_sharize E) (\<lambda>E_s.
     let one_s = getConstantShare (n_parties w) (w_sp w) (fp_of_int 1) in
     bindS (fp_share_div (decs F) one_s (share_add one_s E_s)) (\<lambda>ret.
     if list_all (\<lambda>v. isinf (to_double F (fpVal v))) ret then
       open_sigmoid F e fuel (share_of_public (n_parties w) s) (fp_of_int 1)
     else if list_ex (\<lambda>v. isinf (to_double F (fpVal v))) ret then raiseS Blocked
     else retS ret)))"

definition open_sigmoid_vector :: "'d boost \<Rightarrow> (rat \<Rightarrow> rat) \<Rightarrow> nat \<Rightarrow> fp list list \<Rightarrow> fp \<Rightarrow> (world, fp list) comp" where
  "open_sigmoid_vector F e fuel v_s a = withW (\<lambda>w.
     open_sigmoid F e fuel (sum_share (n_parties w) v_s) (fp_of_int 1))"

lemma wpS_eta [simp]:
  "wpS E Q (retS x) = Q x" "wpS E Q (bindS m f) = wpS E (\<lambda>x. wpS E Q (f x)) m"
  "wpS E R (withW g) = (\<lambda>w. wpS E R (g w) w)" "wpS E Q (liftS r) = (\<lambda>s. wpE E (\<lambda>x. Q x s) r)"
  by (auto intro!: ext)

lemma bindS_lift: "bindS (liftS (Inr x)) f = f x"
  by (rule ext) (simp add: bindS_def liftS_def)

subsection \<open>Sums\<close>

definition shares_ok :: "nat \<Rightarrow> int \<Rightarrow> fp list list \<Rightarrow> bool" where
  "shares_ok n c v \<longleftrightarrow> (\<forall>a \<in> set v. length a = n \<and> fbound c a)"

lemma shares_okD: "shares_ok n c v \<Longrightarrow> a \<in> set v \<Longrightarrow> length a = n" "shares_ok n c v \<Longrightarrow> a \<in> set v \<Longrightarrow> fbound c a"
  by (simp_all add: shares_ok_def)

lemma fsec_zero [share_simps]: "fsec (replicate n 0) = 0"
  by (simp add: fsec_def sum_list_replicate)

lemma fold_add:
  assumes "\<forall>a \<in> set v. length a = n" "length b = n"
  shows "length (foldl share_add b v) = n" "fsec (foldl share_add b v) = fsec b + sum_list (map fsec v)"
  using assms by (induction v arbitrary: b) (simp_all add: share_simps)

lemma fold_add_bound:
  assumes "\<forall>a \<in> set v. fbound c a" "fbound d b"
  shows "fbound (d + int (length v) * c) (foldl share_add b v)"
  using assms
proof (induction v arbitrary: b d)
  case (Cons a v)
  from Cons.IH [OF _ fbound_add [OF Cons.prems(2), of c a]] Cons.prems(1) show ?case
    by (simp add: distrib_right add.assoc add.commute add.left_commute)
qed simp

lemma length_sum_share [simp]: "shares_ok n c v \<Longrightarrow> length (sum_share n v) = n"
  unfolding sum_share_def by (rule fold_add(1)) (simp_all add: shares_ok_def)

lemma fsec_sum_share [share_simps]: "shares_ok n c v \<Longrightarrow> fsec (sum_share n v) = sum_list (map fsec v)"
  unfolding sum_share_def by (subst fold_add(2) [of _ n]) (simp_all add: shares_ok_def share_simps)

lemma fbound_sum_share: "shares_ok n c v \<Longrightarrow> fbound (int (length v) * c) (sum_share n v)"
  using fold_add_bound [of v c 0 "replicate n 0"] by (simp add: sum_share_def shares_ok_def fbound_def)

subsection \<open>Division by a public number\<close>

lemma fdiv_error:
  assumes F: "boost_ok F" and "0 < fpVal v" "fpVal v < dec_range" "c < dec_range" and b: "fbound c xs"
  shows "\<bar>fsec (share_fdiv (decs F) v xs) * fpVal v - fsec xs * shift\<bar> * 10 ^ 48 \<le>
    (fpVal v * 10 ^ 48 + c * shift) * int (length xs)"
  using b
proof (induction xs)
  case (Cons x xs)
  define k where "k = fpVal v"
  define q where "q = fpVal (fp_div (decs F) x v)"
  have k: "0 < k" "\<bar>fpVal v\<bar> < dec_range" "fpVal v \<noteq> 0" using assms(2,3) by (simp_all add: k_def)
  have x: "\<bar>fpVal x\<bar> \<le> c"
    using Cons.prems by (simp add: fbound_def)
  then have x': "\<bar>fpVal x\<bar> < dec_range"
    using assms(4) by (rule le_less_trans)
  have "\<bar>q * k - fpVal x * shift\<bar> * 10 ^ 48 \<le> \<bar>k\<bar> * 10 ^ 48 + \<bar>fpVal x * shift\<bar>"
    using boost_div [OF F k(3) x' k(2)] by (simp only: q_def k_def)
  also have "\<dots> \<le> k * 10 ^ 48 + c * shift"
    using x k(1) by (simp add: abs_mult)
  finally have 1: "\<bar>q * k - fpVal x * shift\<bar> * 10 ^ 48 \<le> k * 10 ^ 48 + c * shift" .
  define Q where "Q = fsec (share_fdiv (decs F) v xs)"
  have 2: "\<bar>Q * k - fsec xs * shift\<bar> * 10 ^ 48 \<le> (k * 10 ^ 48 + c * shift) * int (length xs)"
    using Cons by (simp add: fbound_def Q_def k_def)
  have "fsec (share_fdiv (decs F) v (x # xs)) = q + Q" "fsec (x # xs) = fpVal x + fsec xs"
    by (simp_all add: fsec_def share_fdiv_def q_def Q_def)
  then have "\<bar>fsec (share_fdiv (decs F) v (x # xs)) * k - fsec (x # xs) * shift\<bar> =
      \<bar>(q * k - fpVal x * shift) + (Q * k - fsec xs * shift)\<bar>"
    by (simp add: algebra_simps)
  also have "\<dots> \<le> \<bar>q * k - fpVal x * shift\<bar> + \<bar>Q * k - fsec xs * shift\<bar>"
    by (rule abs_triangle_ineq)
  finally have "\<bar>fsec (share_fdiv (decs F) v (x # xs)) * k - fsec (x # xs) * shift\<bar> * 10 ^ 48 \<le>
      (\<bar>q * k - fpVal x * shift\<bar> + \<bar>Q * k - fsec xs * shift\<bar>) * 10 ^ 48"
    by (rule mult_right_mono) simp
  also have "\<dots> \<le> (k * 10 ^ 48 + c * shift) + (k * 10 ^ 48 + c * shift) * int (length xs)"
    using 1 2 by (simp only: distrib_right)
  finally show ?case
    by (simp add: k_def distrib_left)
qed (simp add: fsec_def share_fdiv_def)

lemma length_fdiv [simp]: "length (share_fdiv D v xs) = length xs"
  by (simp add: share_fdiv_def)

text \<open>Division by a whole number \<open>m\<close>.\<close>

lemma fdiv_int_error:
  assumes "boost_ok F" "0 < m" "m * shift < dec_range" "c < dec_range" "fbound c xs"
  shows "\<bar>fsec (share_fdiv (decs F) (fp_of_int m) xs) * m - fsec xs\<bar> * 10 ^ 48 \<le> (m * 10 ^ 48 + c) * int (length xs)"
proof -
  define Q where "Q = fsec (share_fdiv (decs F) (fp_of_int m) xs)"
  have "\<bar>Q * (m * shift) - fsec xs * shift\<bar> * 10 ^ 48 \<le> (m * shift * 10 ^ 48 + c * shift) * int (length xs)"
    using fdiv_error [of F "fp_of_int m" c xs] assms by (simp add: Q_def fp_of_int_def)
  moreover have "Q * (m * shift) - fsec xs * shift = (Q * m - fsec xs) * shift"
    by (simp add: left_diff_distrib)
  then have "\<bar>Q * (m * shift) - fsec xs * shift\<bar> = \<bar>Q * m - fsec xs\<bar> * shift"
    by (simp add: abs_mult)
  moreover have "(m * shift * 10 ^ 48 + c * shift) * int (length xs) = (m * 10 ^ 48 + c) * int (length xs) * shift"
    by (simp add: algebra_simps)
  ultimately have "\<bar>Q * m - fsec xs\<bar> * 10 ^ 48 * shift \<le> (m * 10 ^ 48 + c) * int (length xs) * shift"
    by (simp only: mult_ac)
  then show ?thesis
    unfolding Q_def by (rule mult_right_le_imp_le) simp
qed

subsection \<open>Mean and variance\<close>

lemma sum_list_abs: "\<bar>sum_list (map f xs) :: int\<bar> \<le> sum_list (map (\<lambda>x. \<bar>f x\<bar>) xs)"
  by (induction xs) (auto intro: order_trans [OF abs_triangle_ineq])

lemma smean_error:
  assumes F: "boost_ok F" and v: "shares_ok n (10 ^ 48) v" "v \<noteq> []" "length v < 2 ^ 31"
  shows "length (smean (decs F) n v) = n"
    "\<bar>fsec (smean (decs F) n v) * int (length v) - sum_list (map fsec v)\<bar> \<le> 2 * int (length v) * int n"
proof -
  let ?N = "int (length v)" and ?S = "sum_share n v"
  have N: "0 < ?N" using v(2) by simp
  have N': "?N \<le> 10 ^ 20" using v(3) by simp
  show "length (smean (decs F) n v) = n"
    using v(1) by (simp add: smean_def)
  have r: "?N * shift < dec_range" "?N * 10 ^ 48 < dec_range"
    by (rule less_dec_range [of _ 100]; use N' in \<open>simp add: shift_eq\<close>)+
  have "\<bar>fsec (smean (decs F) n v) * ?N - fsec ?S\<bar> * 10 ^ 48 \<le> (?N * 10 ^ 48 + ?N * 10 ^ 48) * int (length ?S)"
    using fdiv_int_error [OF F N r fbound_sum_share [OF v(1)]] by (simp only: smean_def isize_small [OF v(3)])
  then have "\<bar>fsec (smean (decs F) n v) * ?N - fsec ?S\<bar> * 10 ^ 48 \<le> (2 * ?N * int n) * 10 ^ 48"
    using v(1) by (simp add: algebra_simps)
  then have "\<bar>fsec (smean (decs F) n v) * ?N - fsec ?S\<bar> \<le> 2 * ?N * int n"
    by (rule mult_right_le_imp_le) simp
  then show "\<bar>fsec (smean (decs F) n v) * ?N - sum_list (map fsec v)\<bar> \<le> 2 * ?N * int n"
    using v(1) by (simp add: share_simps)
qed

lemma variance_identity:
  fixes m :: int
  shows "int (length v) * sum_list (map (\<lambda>s. (s - m) * (s - m)) v) =
    int (length v) * sum_list (map (\<lambda>s. s * s) v) - sum_list v * sum_list v +
      (int (length v) * m - sum_list v) * (int (length v) * m - sum_list v)"
proof -
  have "sum_list (map (\<lambda>s. (s - m) * (s - m)) v) =
      sum_list (map (\<lambda>s. s * s) v) - 2 * m * sum_list v + int (length v) * (m * m)"
    by (induction v) (simp_all add: algebra_simps)
  moreover have "N * (Q - 2 * m * S + N * (m * m)) = N * Q - S * S + (N * m - S) * (N * m - S)" for N Q S :: int
    by (simp add: algebra_simps)
  ultimately show ?thesis
    by (simp only:)
qed

lemma sum_list_close:
  assumes "length xs = length ys" "\<forall>i < length xs. \<bar>xs ! i - ys ! i\<bar> \<le> (c :: int)"
  shows "\<bar>sum_list xs - sum_list ys\<bar> \<le> int (length xs) * c"
  using assms
proof (induction xs ys rule: list_induct2)
  case (Cons x xs y ys)
  have "\<bar>x - y\<bar> \<le> c" "\<forall>i < length xs. \<bar>xs ! i - ys ! i\<bar> \<le> c"
    using Cons.prems by fastforce+
  with Cons.IH show ?case by (simp add: distrib_right)
qed simp

text \<open>The sum of products that variance and correlation share.\<close>

lemma products_sum:
  assumes "length zs = length xs" "length xs = length ys" "\<forall>i < length xs. mult_ok n (xs ! i) (ys ! i) (zs ! i)" "n \<le> 100"
    "\<forall>x \<in> set xs. \<bar>fsec x\<bar> \<le> 10 ^ 25" "\<forall>y \<in> set ys. \<bar>fsec y\<bar> \<le> 10 ^ 25"
  shows "shares_ok n (10 ^ 51) zs"
    "\<bar>shift * sum_list (map fsec zs) - sum_list (map2 (\<lambda>x y. fsec x * fsec y) xs ys)\<bar> \<le> int (length xs) * shift"
proof -
  show "shares_ok n (10 ^ 51) zs"
    unfolding shares_ok_def
  proof
    fix z assume "z \<in> set zs"
    then obtain i where i: "i < length xs" "z = zs ! i"
      using assms(1) by (metis in_set_conv_nth)
    with assms(2-6) show "length z = n \<and> fbound (10 ^ 51) z"
      by (auto simp: mult_ok_def)
  qed
  have "\<bar>sum_list (map (\<lambda>z. shift * fsec z) zs) - sum_list (map2 (\<lambda>x y. fsec x * fsec y) xs ys)\<bar> \<le>
      int (length (map (\<lambda>z. shift * fsec z) zs)) * shift"
    by (rule sum_list_close) (use assms(1-3) in \<open>auto simp: mult_ok_def order_less_imp_le\<close>)
  moreover have "sum_list (map (\<lambda>z. shift * fsec z) zs) = shift * sum_list (map fsec zs)"
    by (induction zs) (simp_all add: distrib_left)
  ultimately show "\<bar>shift * sum_list (map fsec zs) - sum_list (map2 (\<lambda>x y. fsec x * fsec y) xs ys)\<bar> \<le> int (length xs) * shift"
    using assms(1) by simp
qed

lemma mean_bound:
  assumes "\<bar>m * N - A\<bar> \<le> 2 * N * int n" "\<bar>A\<bar> \<le> N * c" "0 < N"
  shows "\<bar>m\<bar> \<le> c + 2 * int n"
proof -
  have "\<bar>m\<bar> * N = \<bar>m * N\<bar>" using assms(3) by (simp add: abs_mult)
  also have "\<dots> \<le> \<bar>m * N - A\<bar> + \<bar>A\<bar>" by linarith
  also have "\<dots> \<le> (c + 2 * int n) * N"
    using assms by (simp add: algebra_simps)
  finally show ?thesis
    using assms(3) by (rule mult_right_le_imp_le)
qed

lemma centred:
  assumes "shares_ok n c v" "length m = n" "\<forall>a \<in> set v. \<bar>fsec a\<bar> \<le> 10 ^ 24" "\<bar>fsec m\<bar> \<le> 2 * 10 ^ 24"
  shows "\<forall>x \<in> set (map (\<lambda>a. share_sub a m) v). length x = n \<and> \<bar>fsec x\<bar> \<le> 10 ^ 25"
    "map fsec (map (\<lambda>a. share_sub a m) v) = map (\<lambda>a. fsec a - fsec m) v"
proof -
  show "map fsec (map (\<lambda>a. share_sub a m) v) = map (\<lambda>a. fsec a - fsec m) v"
    using assms(1,2) by (simp add: share_simps shares_ok_def)
  show "\<forall>x \<in> set (map (\<lambda>a. share_sub a m) v). length x = n \<and> \<bar>fsec x\<bar> \<le> 10 ^ 25"
  proof
    fix x assume "x \<in> set (map (\<lambda>a. share_sub a m) v)"
    then obtain a where a: "a \<in> set v" "x = share_sub a m" by auto
    with assms have "fsec x = fsec a - fsec m" "\<bar>fsec a\<bar> \<le> 10 ^ 24" "length x = n"
      by (auto simp: share_simps shares_ok_def)
    with assms(4) show "length x = n \<and> \<bar>fsec x\<bar> \<le> 10 ^ 25"
      by (auto simp: abs_if split: if_splits)
  qed
qed

lemma smean_bound:
  assumes F: "boost_ok F" and v: "shares_ok n (10 ^ 48) v" "v \<noteq> []" "length v < 2 ^ 31" "n \<le> 100"
    and s: "\<forall>a \<in> set v. \<bar>fsec a\<bar> \<le> 10 ^ 24"
  shows "\<bar>fsec (smean (decs F) n v)\<bar> \<le> 2 * 10 ^ 24"
proof -
  have "\<bar>sum_list (map fsec v)\<bar> \<le> int (length v) * 10 ^ 24"
    using sum_list_bound [of "map fsec v" "10 ^ 24"] s by (simp add: mult.commute)
  from mean_bound [OF smean_error(2) [OF F v(1-3)] this] v(2)
  have "\<bar>fsec (smean (decs F) n v)\<bar> \<le> 10 ^ 24 + 2 * int n" by simp
  moreover have "int n \<le> 100" using v(4) by simp
  ultimately show ?thesis by simp
qed

definition stats_ok :: "nat \<Rightarrow> fp list list \<Rightarrow> bool" where
  "stats_ok n v \<longleftrightarrow> shares_ok n (10 ^ 48) v \<and> v \<noteq> [] \<and> length v < 2 ^ 31 \<and> (\<forall>a \<in> set v. \<bar>fsec a\<bar> \<le> 10 ^ 24)"

definition variance_of :: "nat \<Rightarrow> fp list list \<Rightarrow> int \<Rightarrow> bool" where
  "variance_of n v z \<longleftrightarrow> (let N = int (length v); S = map fsec v in
     \<bar>shift * N * N * z - (N * sum_list (map (\<lambda>s. s * s) S) - sum_list S * sum_list S)\<bar> \<le>
       N * N * (shift * (1001 * int n + 1) + 4 * int n * int n))"

lemma wpS_variance:
  assumes w: "wf_world P T J n sp w" and F: "boost_ok F" and n: "n \<le> 100" and v: "stats_ok n v"
    and post: "\<And>z w'. wf_world P T J n sp w' \<Longrightarrow> w_ok w' = w_ok w \<Longrightarrow> length z = n \<Longrightarrow> variance_of n v (fsec z) \<Longrightarrow> Q z w'"
  shows "wpS E Q (variance (decs F) v) w"
proof -
  have v: "shares_ok n (10 ^ 48) v" "v \<noteq> []" "length v < 2 ^ 31" "\<forall>a \<in> set v. \<bar>fsec a\<bar> \<le> 10 ^ 24"
    using v by (simp_all add: stats_ok_def)
  have np: "n_parties w = n"
    using w by (simp add: wf_world_def n_parties_def)
  let ?avg = "smean (decs F) n v"
  let ?d = "map (\<lambda>a. share_sub a ?avg) v"
  define N where "N = int (length v)"
  define A where "A = sum_list (map fsec v)"
  define m where "m = fsec ?avg"
  have N: "0 < N" using v(2) by (simp add: N_def)
  have N': "N \<le> 10 ^ 20" using v(3) by (simp add: N_def)
  have m: "\<bar>m * N - A\<bar> \<le> 2 * N * int n"
    using smean_error(2) [OF F v(1-3)] by (simp only: m_def N_def A_def)
  note d = centred [OF v(1) smean_error(1) [OF F v(1-3)] v(4) smean_bound [OF F v(1-3) n v(4)]]
  have d1: "\<forall>x \<in> set ?d. length x = n" "\<forall>x \<in> set ?d. \<bar>fsec x\<bar> \<le> 10 ^ 25"
    using d(1) by blast+
  have "wpS E (\<lambda>varVec. wpS E Q (retS (share_fdiv (decs F) (fp_of_int N) (sum_share n varVec)))) (fp_vec_mult ?d ?d) w"
  proof (rule wpS_fp_vec_mult_ok [OF w refl d1(1) d1(1)])
    fix zs w'
    assume w': "wf_world P T J n sp w'" "w_ok w' = w_ok w" and zs: "length zs = length ?d"
      "\<forall>i < length ?d. mult_ok n (?d ! i) (?d ! i) (zs ! i)"
    note pr = products_sum [OF zs(1) refl zs(2) n d1(2) d1(2)]
    define P where "P = sum_list (map fsec zs)"
    define D where "D = sum_list (map (\<lambda>s. (s - m) * (s - m)) (map fsec v))"
    have "map2 (\<lambda>x y. fsec x * fsec y) ?d ?d = map (\<lambda>s. (s - m) * (s - m)) (map fsec v)"
      using arg_cong [OF d(2), of "map (\<lambda>x. x * x)"] by (simp add: zip_same_conv_map comp_def m_def)
    with pr(2) have 1: "\<bar>shift * P - D\<bar> \<le> N * shift"
      by (simp add: P_def D_def N_def)
    let ?z = "share_fdiv (decs F) (fp_of_int N) (sum_share n zs)"
    have r: "N * shift < dec_range" "N * 10 ^ 51 < dec_range"
      by (rule less_dec_range [of _ 100]; use N' in \<open>simp add: shift_eq\<close>)+
    have "fbound (N * 10 ^ 51) (sum_share n zs)"
      using fbound_sum_share [OF pr(1)] zs(1) by (simp add: N_def)
    from fdiv_int_error [OF F N r this]
    have "\<bar>fsec ?z * N - P\<bar> * 10 ^ 48 \<le> (N * 10 ^ 48 + N * 10 ^ 51) * int n"
      using pr(1) by (simp only: length_sum_share fsec_sum_share [OF pr(1)] P_def)
    then have "\<bar>fsec ?z * N - P\<bar> * 10 ^ 48 \<le> (1001 * N * int n) * 10 ^ 48"
      by (simp add: algebra_simps)
    then have 2: "\<bar>fsec ?z * N - P\<bar> \<le> 1001 * N * int n"
      by (rule mult_right_le_imp_le) simp
    define V where "V = N * sum_list (map (\<lambda>s. s * s) (map fsec v)) - A * A"
    have V: "N * D = V + (N * m - A) * (N * m - A)"
      using variance_identity [of "map fsec v" m] by (simp only: V_def D_def N_def A_def length_map)
    have "shift * N * N * fsec ?z - V = shift * N * (fsec ?z * N - P) + N * (shift * P - D) + (N * m - A) * (N * m - A)"
      using V by (simp add: algebra_simps)
    also have "\<bar>\<dots>\<bar> \<le> \<bar>shift * N * (fsec ?z * N - P)\<bar> + \<bar>N * (shift * P - D)\<bar> + \<bar>(N * m - A) * (N * m - A)\<bar>"
      by linarith
    also have "\<dots> = shift * N * \<bar>fsec ?z * N - P\<bar> + N * \<bar>shift * P - D\<bar> + \<bar>N * m - A\<bar> * \<bar>N * m - A\<bar>"
      using N by (simp add: abs_mult)
    also have "\<dots> \<le> shift * N * (1001 * N * int n) + N * (N * shift) + (2 * N * int n) * (2 * N * int n)"
      using 1 2 m N by (intro add_mono mult_mono) (simp_all add: mult.commute)
    also have "\<dots> = N * N * (shift * (1001 * int n + 1) + 4 * int n * int n)"
      by (simp add: algebra_simps)
    finally have "variance_of n v (fsec ?z)"
      by (simp only: variance_of_def Let_def N_def [symmetric] V_def A_def)
    with post [OF w'] pr(1) show "wpS E Q (retS ?z) w'" by simp
  qed
  then show ?thesis
    by (simp add: variance_def np Let_def N_def isize_small [OF v(3)])
qed

lemma variance_size:
  assumes v: "stats_ok n v" "n \<le> 100" and z: "variance_of n v z"
  shows "\<bar>z\<bar> \<le> 10 ^ 41"
proof -
  define N where "N = int (length v)"
  define Q where "Q = sum_list (map (\<lambda>s. s * s) (map fsec v))"
  define A where "A = sum_list (map fsec v)"
  have N: "0 < N" using v(1) by (simp add: N_def stats_ok_def)
  have s: "\<forall>s \<in> set (map fsec v). \<bar>s\<bar> \<le> 10 ^ 24" using v(1) by (simp add: stats_ok_def)
  then have "\<forall>s \<in> set (map (\<lambda>s. s * s) (map fsec v)). \<bar>s\<bar> \<le> 10 ^ 24 * 10 ^ 24"
    by (auto simp only: set_map abs_mult intro!: mult_mono abs_ge_zero zero_le_power zero_le_numeral)
  from sum_list_bound [OF this] have "\<bar>Q\<bar> \<le> 10 ^ 48 * N" by (simp add: Q_def N_def mult.commute comp_def)
  then have Q: "\<bar>N * Q\<bar> \<le> N * (10 ^ 48 * N)" using N by (simp add: abs_mult)
  have "\<bar>A\<bar> \<le> 10 ^ 24 * N" using sum_list_bound [OF s] by (simp add: A_def N_def mult.commute)
  then have "\<bar>A\<bar> * \<bar>A\<bar> \<le> (10 ^ 24 * N) * (10 ^ 24 * N)" using N by (intro mult_mono) auto
  then have A: "\<bar>A * A\<bar> \<le> N * (10 ^ 48 * N)" by (simp add: abs_mult mult_ac)
  have "\<bar>shift * N * N * z - (N * Q - A * A)\<bar> \<le> N * N * (shift * (1001 * int n + 1) + 4 * int n * int n)"
    using z by (simp add: variance_of_def Let_def N_def Q_def A_def)
  with Q A have "\<bar>shift * N * N * z\<bar> \<le> N * (10 ^ 48 * N) + N * (10 ^ 48 * N) + N * N * (shift * (1001 * int n + 1) + 4 * int n * int n)"
    by linarith
  then have "N * N * (shift * \<bar>z\<bar>) \<le> N * N * (2 * 10 ^ 48 + (shift * (1001 * int n + 1) + 4 * int n * int n))"
    using N by (simp add: abs_mult algebra_simps)
  then have "shift * \<bar>z\<bar> \<le> 2 * 10 ^ 48 + (shift * (1001 * int n + 1) + 4 * int n * int n)"
    using N by (simp add: mult_le_cancel_left)
  moreover have "int n * int n \<le> 100 * 100" using v(2) by (intro mult_mono) auto
  moreover have "int n \<le> 100" using v(2) by simp
  ultimately show ?thesis by (simp add: shift_eq)
qed

subsection \<open>Standard deviation\<close>

text \<open>
  What is assumed of the decimals, for numbers of at most 41 digits: the text of an opened number, which 50-digit decimals write, is read
  back with its sign, and the root of such a number in 100-digit decimals, scaled and truncated, is next to the root of the scaled integer.
\<close>

definition root_of :: "int \<Rightarrow> int \<Rightarrow> bool" where
  "root_of v k \<longleftrightarrow> 0 \<le> k \<and> (0 < k \<longrightarrow> (k - 1) * (k - 1) \<le> v * shift) \<and> v * shift < (k + 2) * (k + 2)"

definition hi_ok :: "'d dec \<Rightarrow> 'e hi \<Rightarrow> bool" where
  "hi_ok D H \<longleftrightarrow>
     (\<forall>v. \<bar>v\<bar> \<le> 10 ^ 41 \<longrightarrow> (let value = hi_of_string H (fp_getStrVal D (FP v)) in
        (hi_neg H value \<longleftrightarrow> v < 0) \<and> (0 \<le> v \<longrightarrow> root_of v (fpVal (hi_to_fp H (hi_sqrt H value)))))) \<and>
     fpVal (hi_to_fp H (hi_sqrt H (hi_zero H))) = 0"

lemma wpS_stdev:
  assumes w: "wf_world P T J n sp w" and F: "boost_ok F" and H: "hi_ok (decs F) H" and n: "n \<le> 100" and v: "stats_ok n v"
    and post: "\<And>k w' z. wf_world P T J n sp w' \<Longrightarrow> w_ok w' = w_ok w \<Longrightarrow> variance_of n v z \<Longrightarrow>
      root_of (max 0 z) (fpVal k) \<Longrightarrow> Q k w'"
  shows "wpS E Q (stdev (decs F) H v) w"
  unfolding stdev_def wpS_bindS
proof (rule wpS_variance [OF w F n v])
  fix z w' assume w': "wf_world P T J n sp w'" "w_ok w' = w_ok w" and z: "variance_of n v (fsec z)"
  have r: "recons z = FP (fsec z)"
    by (rule fp.expand) (simp add: fpVal_recons)
  define u where "u = hi_of_string H (fp_getStrVal (decs F) (recons z))"
  have neg: "hi_neg H u \<longleftrightarrow> fsec z < 0"
    and root: "0 \<le> fsec z \<Longrightarrow> root_of (fsec z) (fpVal (hi_to_fp H (hi_sqrt H u)))"
    using H variance_size [OF v n z] unfolding hi_ok_def u_def r by (auto simp: Let_def)
  have zero: "fpVal (hi_to_fp H (hi_sqrt H (hi_zero H))) = 0"
    using H by (simp add: hi_ok_def)
  have "root_of (max 0 (fsec z)) (fpVal (hi_to_fp H (hi_sqrt H (if hi_neg H u then hi_zero H else u))))"
    using neg root zero by (auto simp: root_of_def max_def)
  from post [OF w' z this]
  show "wpS E Q (let value = hi_of_string H (fp_getStrVal (decs F) (recons z));
         value = (if hi_neg H value then hi_zero H else value)
     in retS (hi_to_fp H (hi_sqrt H value))) w'"
    by (simp add: Let_def flip: u_def)
qed

text \<open>An instance, whose decimals are integers in units in the last place and whose text is a numeral in unary.\<close>

definition ref_hi :: "int hi" where
  "ref_hi = \<lparr>hi_of_string = (\<lambda>s. if s \<noteq> [] \<and> hd s = CHR ''-'' then - int (length s) else int (length s)),
     hi_neg = (\<lambda>v. v < 0), hi_zero = 0, hi_sqrt = (\<lambda>v. int (isqrt (nat (v * shift)))), hi_to_fp = FP\<rparr>"

definition unary :: "rat \<Rightarrow> string" where
  "unary v = replicate (nat \<bar>\<lfloor>v * of_int shift\<rfloor>\<bar>) (if v < 0 then CHR ''-'' else CHR ''1'')"

definition ref_boost' :: "rat boost" where
  "ref_boost' = ref_boost\<lparr>decs := (decs ref_boost)\<lparr>d_str20 := unary\<rparr>\<rparr>"

lemma boost_ok_ref': "boost_ok ref_boost'"
proof -
  have "fp_div (decs ref_boost') = fp_div (decs ref_boost)" "fp_getInv (decs ref_boost') = fp_getInv (decs ref_boost)"
    "to_double ref_boost' = to_double ref_boost"
    by (auto intro!: ext simp: fp_div_def fp_getInv_def fp_of_dec_def fp_clamp_def ref_boost'_def ref_boost_def)
  with boost_ok_ref show ?thesis
    by (simp only: boost_ok_def)
qed

lemma hi_ok_ref: "hi_ok (decs ref_boost') ref_hi"
proof -
  have "hi_of_string ref_hi (fp_getStrVal (decs ref_boost') (FP v)) = v" for v
  proof -
    have "of_int v / of_int shift * (of_int shift :: rat) = of_int v" by simp
    moreover have "\<not> shift < 0" by (simp add: not_less)
    ultimately have "fp_getStrVal (decs ref_boost') (FP v) = replicate (nat \<bar>v\<bar>) (if v < 0 then CHR ''-'' else CHR ''1'')"
      by (simp add: fp_getStrVal_def ref_boost'_def ref_boost_def fp_clamp_def unary_def divide_less_0_iff)
    then show ?thesis by (cases "v = 0") (auto simp: ref_hi_def)
  qed
  moreover have "root_of v (int (isqrt (nat (v * shift))))" if "0 \<le> v" for v
  proof -
    define k where "k = isqrt (nat (v * shift))"
    have "k * k \<le> nat (v * shift)" "nat (v * shift) < (k + 1) * (k + 1)"
      using isqrt_bounds by (simp_all add: k_def)
    then have "int k * int k \<le> v * shift" "v * shift < (int k + 1) * (int k + 1)"
      using that by (simp_all add: le_nat_iff nat_less_iff algebra_simps)
    then show ?thesis
      unfolding root_of_def k_def [symmetric] by (auto simp: algebra_simps)
  qed
  moreover have "isqrt 0 = 0" by (simp add: isqrt.simps)
  ultimately show ?thesis
    by (simp add: hi_ok_def Let_def) (simp add: ref_hi_def)
qed

subsection \<open>The exponential series\<close>

definition powers_ok :: "nat \<Rightarrow> real \<Rightarrow> nat \<Rightarrow> fp list list \<Rightarrow> bool" where
  "powers_ok n r i px \<longleftrightarrow> length px = Suc i \<and> (\<forall>j \<le> i. length (px ! j) = n \<and> fbound (10 ^ 51) (px ! j) \<and>
     \<bar>real_of_int (fsec (px ! j)) - real_of_int shift * r ^ j\<bar> \<le> real j)"

lemma power_step:
  assumes r: "\<bar>r\<bar> \<le> 1" "real_of_int X = real_of_int shift * r" and P: "\<bar>real_of_int P - real_of_int shift * r ^ i\<bar> \<le> real i"
    and p: "\<bar>shift * p - P * X\<bar> < shift"
  shows "\<bar>real_of_int p - real_of_int shift * r ^ Suc i\<bar> \<le> real (Suc i)"
proof -
  have "\<bar>real_of_int (shift * p - P * X)\<bar> \<le> real_of_int shift"
    using p by linarith
  also have "real_of_int (shift * p - P * X) = real_of_int shift * (real_of_int p - real_of_int P * r)"
    by (simp add: r(2) algebra_simps)
  finally have "real_of_int shift * \<bar>real_of_int p - real_of_int P * r\<bar> \<le> real_of_int shift * 1"
    by (simp only: abs_mult) simp
  then have 1: "\<bar>real_of_int p - real_of_int P * r\<bar> \<le> 1"
    by simp
  have "\<bar>(real_of_int P - real_of_int shift * r ^ i) * r\<bar> \<le> real i * 1"
    unfolding abs_mult using P r(1) by (intro mult_mono) auto
  moreover have "real_of_int p - real_of_int shift * r ^ Suc i =
      (real_of_int p - real_of_int P * r) + (real_of_int P - real_of_int shift * r ^ i) * r"
    by (simp add: algebra_simps)
  ultimately show ?thesis
    using 1 by simp
qed

lemma power_small:
  assumes "\<bar>r\<bar> \<le> 1" "\<bar>real_of_int P - real_of_int shift * r ^ i\<bar> \<le> real i" "i \<le> 1000"
  shows "\<bar>P\<bar> \<le> 10 ^ 25"
proof -
  have "\<bar>real_of_int shift * r ^ i\<bar> \<le> real_of_int shift * 1"
    unfolding abs_mult power_abs using assms(1) by (intro mult_mono power_le_one) auto
  moreover have "real i \<le> 1000" using assms(3) by simp
  moreover have "\<bar>real_of_int P\<bar> \<le> \<bar>real_of_int P - real_of_int shift * r ^ i\<bar> + \<bar>real_of_int shift * r ^ i\<bar>"
    by linarith
  ultimately have "real_of_int \<bar>P\<bar> \<le> real_of_int (10 ^ 25)"
    using assms(2) by (simp add: shift_eq)
  then show ?thesis by (simp only: of_int_le_iff)
qed

lemma wpS_exp_powers:
  assumes "wf_world P T J n sp w" "n \<le> 100" "length x = n" "\<bar>r\<bar> \<le> 1" "real_of_int (fsec x) = real_of_int shift * r"
    and "powers_ok n r i px" "i + k \<le> 1000"
    and post: "\<And>px w'. wf_world P T J n sp w' \<Longrightarrow> w_ok w' = w_ok w \<Longrightarrow> powers_ok n r (i + k) px \<Longrightarrow> Q px w'"
  shows "wpS E Q (exp_powers k x px) w"
  using assms(1,6-8)
proof (induction k arbitrary: w i px)
  case 0
  then show ?case by simp
next
  case (Suc k)
  have px: "length px = Suc i" "length (px ! i) = n" "\<bar>real_of_int (fsec (px ! i)) - real_of_int shift * r ^ i\<bar> \<le> real i"
    using Suc.prems(2) by (simp_all add: powers_ok_def)
  then have l: "last px = px ! i" by (metis last_conv_nth diff_Suc_1 length_0_conv nat.distinct(1))
  have small: "\<bar>fsec (px ! i)\<bar> \<le> 10 ^ 25"
    using power_small [OF assms(4) px(3)] Suc.prems(3) by simp
  have small': "\<bar>fsec x\<bar> \<le> 10 ^ 25"
    using power_small [of r "fsec x" 1] assms(4,5) by simp
  show ?case
    unfolding exp_powers.simps wpS_bindS l
  proof (rule wpS_fp_mult_ok [OF Suc.prems(1) px(2) assms(3)])
    fix z w' assume w': "wf_world P T J n sp w'" "w_ok w' = w_ok w" and z: "mult_ok n (px ! i) x z"
    have "\<bar>real_of_int (fsec z) - real_of_int shift * r ^ Suc i\<bar> \<le> real (Suc i)"
      by (rule power_step [OF assms(4,5) px(3)]) (use z in \<open>simp add: mult_ok_def\<close>)
    moreover have "length z = n" "fbound (10 ^ 51) z"
      using z assms(2) small small' by (simp_all add: mult_ok_def)
    ultimately have "powers_ok n r (Suc i) (px @ [z])"
      using Suc.prems(2) unfolding powers_ok_def by (auto simp: nth_append le_Suc_eq)
    moreover have "Suc i + k \<le> 1000" using Suc.prems(3) by simp
    ultimately show "wpS E Q (exp_powers k x (px @ [z])) w'"
    proof (rule Suc.IH [OF w'(1)])
      fix px w'' assume "wf_world P T J n sp w''" "w_ok w'' = w_ok w'" "powers_ok n r (Suc i + k) px"
      with w'(2) show "Q px w''" by (intro Suc.prems(4)) simp_all
    qed
  qed
qed

lemma exp_factorial [simp]: "exp_factorial i = fp_of_int (fact i)"
proof (induction i)
  case (Suc i)
  have "fpVal (fp_of_int (fact i) * fp_of_int (int (Suc i))) = fact (Suc i) * shift"
    using tdiv_mult_cancel [of shift "fact (Suc i) * shift"] by (simp add: fp_of_int_def mult_ac)
  with Suc show ?case by (simp add: fp.expand fp_of_int_def)
qed simp

lemma sum_inverse_fact: "(\<Sum>i < k. 1 / fact i) \<le> (3 :: real)"
proof -
  have "(\<Sum>i < k. 1 / fact i) \<le> (\<Sum>i. inverse (fact i) * 1 ^ i :: real)"
    unfolding inverse_eq_divide power_one mult_1_right
    using summable_exp [of "1 :: real"] by (intro sum_le_suminf) (auto simp: inverse_eq_divide)
  also have "\<dots> = exp 1"
    by (simp add: exp_def scaleR_conv_of_real)
  also have "\<dots> \<le> 3" by (rule exp_le)
  finally show ?thesis .
qed

lemma exp_remainder:
  assumes "\<bar>r\<bar> \<le> (1 :: real)"
  shows "\<bar>real_of_int shift * (\<Sum>i < 100. r ^ i / fact i) - real_of_int shift * exp r\<bar> \<le> 1"
proof -
  obtain t where t: "\<bar>t\<bar> \<le> \<bar>r\<bar>" "exp r = (\<Sum>i < 100. r ^ i / fact i) + exp t / fact 100 * r ^ 100"
    using Maclaurin_exp_le [of r 100] by auto
  have "t \<le> 1" using t(1) assms by linarith
  then have e: "exp t \<le> 3"
    using exp_le by (metis exp_le_cancel_iff order_trans)
  have "(fact 13 :: real) \<le> fact 100" by (rule fact_mono) simp
  moreover have "(fact 13 :: real) = 6227020800"
    by (simp add: fact_numeral)
  ultimately have f: "6227020800 \<le> (fact 100 :: real)" by linarith
  have "\<bar>exp t / fact 100 * r ^ 100\<bar> = exp t / fact 100 * \<bar>r\<bar> ^ 100"
    by (simp add: abs_mult power_abs)
  also have "\<dots> \<le> exp t / fact 100 * 1"
    using assms by (intro mult_left_mono power_le_one) auto
  also have "\<dots> \<le> 3 / 6227020800"
    unfolding mult_1_right using e f by (intro frac_le) auto
  finally have "\<bar>exp t / fact 100 * r ^ 100\<bar> * real_of_int shift \<le> 3 / 6227020800 * real_of_int shift"
    by (rule mult_right_mono) simp
  also have "\<dots> \<le> 1"
    by (simp add: shift_eq)
  finally have "\<bar>exp t / fact 100 * r ^ 100\<bar> * real_of_int shift \<le> 1" .
  moreover have "real_of_int shift * (\<Sum>i < 100. r ^ i / fact i) - real_of_int shift * exp r =
      - (exp t / fact 100 * r ^ 100 * real_of_int shift)"
    unfolding t(2) by (simp add: algebra_simps)
  moreover have "\<bar>- (exp t / fact 100 * r ^ 100 * real_of_int shift)\<bar> = \<bar>exp t / fact 100 * r ^ 100\<bar> * real_of_int shift"
    by (subst abs_minus_cancel, subst abs_mult) simp
  ultimately show ?thesis
    by (simp only:)
qed

lemma exp_term:
  assumes F: "boost_ok F" and "i < 100" "length p = n" "fbound (10 ^ 51) p"
    and P: "\<bar>real_of_int (fsec p) - real_of_int shift * r ^ i\<bar> \<le> real i"
  shows "\<bar>real_of_int (fsec (share_fdiv (decs F) (exp_factorial i) p)) - real_of_int shift * (r ^ i / fact i)\<bar> \<le>
    real i / fact i + real n * (1 + 1000 / fact i)"
proof -
  define t where "t = fsec (share_fdiv (decs F) (exp_factorial i) p)"
  define m :: int where "m = fact i"
  have m: "0 < m" "real_of_int m = fact i" by (simp_all add: m_def)
  have "m \<le> of_nat (i ^ i)" unfolding m_def by (rule fact_le_power)
  also have "\<dots> \<le> of_nat (100 ^ 100)"
    using assms(2) power_mono [of i 100 i] power_increasing [of i 100 "100 :: nat"] by (intro of_nat_mono) (meson le_trans less_imp_le zero_le one_le_numeral)
  finally have "m * shift \<le> 10 ^ 208" by (simp add: shift_eq)
  then have r: "m * shift < dec_range" by (rule less_dec_range) simp
  have r2: "10 ^ 51 < dec_range" by (rule less_dec_range [of _ 51]) simp_all
  have "\<bar>t * m - fsec p\<bar> * 10 ^ 48 \<le> (m * 10 ^ 48 + 10 ^ 51) * int n"
    using fdiv_int_error [OF F m(1) r r2 assms(4)] assms(3) by (simp only: t_def exp_factorial m_def)
  then have "\<bar>t * m - fsec p\<bar> \<le> (m + 1000) * int n"
    by (simp add: distrib_right)
  then have "real_of_int \<bar>t * m - fsec p\<bar> \<le> real_of_int ((m + 1000) * int n)"
    by (simp only: of_int_le_iff)
  then have "\<bar>real_of_int t * real_of_int m - real_of_int (fsec p)\<bar> \<le> (real_of_int m + 1000) * real n"
    by simp
  then have "\<bar>real_of_int t * fact i - real_of_int shift * r ^ i\<bar> \<le> (fact i + 1000) * real n + real i"
    using P unfolding m(2) by linarith
  moreover have "real_of_int t * fact i - real_of_int shift * r ^ i = (real_of_int t - real_of_int shift * (r ^ i / fact i)) * fact i"
    by (simp add: field_simps)
  ultimately have "\<bar>real_of_int t - real_of_int shift * (r ^ i / fact i)\<bar> * fact i \<le> (fact i + 1000) * real n + real i"
    by (simp only: abs_mult) simp
  also have "\<dots> = (real i / fact i + real n * (1 + 1000 / fact i)) * fact i"
    by (simp add: field_simps)
  finally show ?thesis
    unfolding t_def by (rule mult_right_le_imp_le) simp
qed

lemma exp_terms_error:
  "(\<Sum>i \<in> {1..<100}. real i / fact i + c * (1 + 1000 / fact i)) \<le> 3 + 3099 * (c :: real)" if "0 \<le> c"
proof -
  have "(\<Sum>i \<in> {1..<100}. real i / fact i + c * (1 + 1000 / fact i)) =
      (\<Sum>i < 99. real (Suc i) / fact (Suc i) + c * (1 + 1000 / fact (Suc i)))"
    using sum.shift_bounds_Suc_ivl [of "\<lambda>i. real i / fact i + c * (1 + 1000 / fact i)" 0 99]
    by (simp add: atLeast0LessThan)
  also have "\<dots> \<le> (\<Sum>i < 99. 1 / fact i + c * (1 + 1000 * (1 / fact i)))"
  proof (rule sum_mono)
    fix i
    have "1 / fact (Suc i) \<le> (1 / fact i :: real)"
      by (intro divide_left_mono fact_mono) auto
    moreover have "real (Suc i) / fact (Suc i) = 1 / fact i"
      by (simp del: of_nat_Suc)
    ultimately show "real (Suc i) / fact (Suc i) + c * (1 + 1000 / fact (Suc i)) \<le> 1 / fact i + c * (1 + 1000 * (1 / fact i))"
      using that by (intro add_mono mult_left_mono) (auto simp del: fact_Suc)
  qed
  also have "\<dots> = (\<Sum>i < 99. 1 / fact i) + c * (99 + 1000 * (\<Sum>i < 99. 1 / fact i))"
    by (simp add: sum.distrib sum_distrib_left distrib_left)
  also have "\<dots> \<le> 3 + c * (99 + 1000 * 3)"
    using sum_inverse_fact [of 99] that by (intro add_mono mult_left_mono) auto
  finally show ?thesis by simp
qed

lemma wpS_exp_share:
  assumes w: "wf_world P T J n sp w" and F: "boost_ok F" and n: "n \<le> 100" and x: "length x = n" "\<bar>fsec x\<bar> \<le> shift"
    and post: "\<And>z w'. wf_world P T J n sp w' \<Longrightarrow> w_ok w' = w_ok w \<Longrightarrow> length z = n \<Longrightarrow>
      \<bar>real_of_int (fsec z) - real_of_int shift * exp (real_of_int (fsec x) / real_of_int shift)\<bar> \<le> 3099 * real n + 4 \<Longrightarrow> Q z w'"
  shows "wpS E Q (exp_share (decs F) x) w"
proof -
  have sp: "sp < n" "w_sp w = sp" "n_parties w = n"
    using w by (auto simp: wf_world_def n_parties_def)
  define r where "r = real_of_int (fsec x) / real_of_int shift"
  have "\<bar>real_of_int (fsec x)\<bar> \<le> real_of_int shift"
    using x(2) by linarith
  then have r: "\<bar>r\<bar> \<le> 1" "real_of_int (fsec x) = real_of_int shift * r"
    by (simp_all add: r_def abs_divide)
  let ?one = "getConstantShare n sp (fp_of_int 1)"
  let ?out = "\<lambda>px. foldl share_add (replicate n (fp_of_int 0))
    (map (\<lambda>i. if i = 0 then px ! 0 else share_fdiv (decs F) (exp_factorial i) (px ! i)) [0..<exp_terms])"
  have "fsec ?one = shift"
    using sp(1) by (simp add: getConstantShare_def share_simps) (simp add: fp_of_int_def)
  moreover have "fbound (0 + \<bar>fpVal (fp_of_int 1)\<bar>) ?one"
    unfolding getConstantShare_def by (rule fbound_addc) (simp add: fbound_def)
  then have "fbound (10 ^ 51) ?one"
    by (rule fbound_mono) (simp add: fp_of_int_def shift_eq)
  ultimately have "powers_ok n r 0 [?one]"
    by (simp add: powers_ok_def)
  then have "wpS E (\<lambda>px. Q (?out px)) (exp_powers (exp_terms - 1) x [?one]) w"
  proof (rule wpS_exp_powers [OF w n x(1) r])
    fix px w' assume w': "wf_world P T J n sp w'" "w_ok w' = w_ok w" and "powers_ok n r (0 + (exp_terms - 1)) px"
    then have px: "length px = 100" "length (px ! i) = n" "fbound (10 ^ 51) (px ! i)"
      "\<bar>real_of_int (fsec (px ! i)) - real_of_int shift * r ^ i\<bar> \<le> real i" if "i < 100" for i
      using that by (auto simp: powers_ok_def exp_terms_def)
    define t where "t i = (if i = 0 then px ! 0 else share_fdiv (decs F) (exp_factorial i) (px ! i))" for i
    have len: "\<forall>a \<in> set (map t [0..<100]). length a = n"
      using px by (auto simp: t_def)
    have out: "?out px = foldl share_add (replicate n (fp_of_int 0)) (map t [0..<100])"
      by (simp add: t_def [abs_def] exp_terms_def)
    have "fsec (?out px) = sum_list (map fsec (map t [0..<100]))"
      unfolding out by (subst fold_add(2) [OF len]) (simp_all add: fsec_def sum_list_replicate fp_of_int_def)
    then have sec: "real_of_int (fsec (?out px)) = (\<Sum>i < 100. real_of_int (fsec (t i)))"
      by (simp add: sum_list_sum_nth atLeast0LessThan)
    have e: "\<bar>real_of_int (fsec (t i)) - real_of_int shift * (r ^ i / fact i)\<bar> \<le>
        (if i = 0 then 0 else real i / fact i + real n * (1 + 1000 / fact i))" if "i < 100" for i
      using px(4) [of 0] exp_term [OF F that px(2-4) [OF that]] by (auto simp: t_def)
    have "real_of_int (fsec (?out px)) - real_of_int shift * (\<Sum>i < 100. r ^ i / fact i) =
        (\<Sum>i < 100. real_of_int (fsec (t i)) - real_of_int shift * (r ^ i / fact i))"
      unfolding sec by (simp only: sum_subtractf sum_distrib_left)
    also have "\<bar>\<dots>\<bar> \<le> (\<Sum>i < 100. \<bar>real_of_int (fsec (t i)) - real_of_int shift * (r ^ i / fact i)\<bar>)"
      by (rule sum_abs)
    also have "\<dots> \<le> (\<Sum>i < 100. if i = 0 then 0 else real i / fact i + real n * (1 + 1000 / fact i))"
      using e by (intro sum_mono) auto
    also have "\<dots> = (\<Sum>i \<in> {1..<100}. real i / fact i + real n * (1 + 1000 / fact i))"
      by (rule sum.mono_neutral_cong_right) auto
    also have "\<dots> \<le> 3 + 3099 * real n"
      by (rule exp_terms_error) simp
    finally have "\<bar>real_of_int (fsec (?out px)) - real_of_int shift * exp r\<bar> \<le> 3099 * real n + 4"
      using exp_remainder [OF r(1)] by linarith
    moreover have "length (?out px) = n"
      unfolding out by (rule fold_add(1) [OF len]) simp
    ultimately show "Q (?out px) w'"
      by (intro post [OF w']) (simp_all only: r_def)
  qed (simp add: exp_terms_def)
  then show ?thesis
    by (simp add: exp_share_def sp Let_def)
qed

subsection \<open>Properties\<close>

text \<open>
  \<open>variance\<close> and \<open>stdev\<close> of \<open>N\<close> shared numbers, for up to 100 parties: with \<open>S\<close> the list of secrets, \<open>variance\<close> returns shares of
  \<open>(N sum S^2 - (sum S)^2) / N^2\<close> up to \<open>1001 n + 2\<close> units in the last place; \<open>stdev\<close> returns the square root of such
  a value, negative values counted as 0. Neither fails.
\<close>

theorem variance_correct:
  assumes "wf_world P T J n sp w" "boost_ok F" "hi_ok (decs F) H" "n \<le> 100"
    and "\<forall>a \<in> set v. length a = n \<and> fbound (10 ^ 48) a \<and> \<bar>fpVal (recons a)\<bar> \<le> 10 ^ 24" "v \<noteq> []" "length v < 2 ^ 31"
    and "N = int (length v)" "S = map (\<lambda>a. fpVal (recons a)) v"
    and "var_bound = (\<lambda>z. \<bar>shift * N * N * z - (N * sum_list (map (\<lambda>s. s * s) S) - sum_list S * sum_list S)\<bar> \<le>
           N * N * (shift * (1001 * int n + 1) + 4 * int n * int n))"
  shows "(\<exists>z w'. variance (decs F) v w = Inr (z, w') \<and> wf_world P T J n sp w' \<and> length z = n \<and> var_bound (fpVal (recons z))) \<and>
    (\<exists>k w' z. stdev (decs F) H v w = Inr (k, w') \<and> wf_world P T J n sp w' \<and> var_bound z \<and> root_of (max 0 z) (fpVal k))"
proof -
  have v: "stats_ok n v"
    using assms(5-7) by (simp add: stats_ok_def shares_ok_def fpVal_recons)
  have b: "var_bound z \<longleftrightarrow> variance_of n v z" for z
    unfolding assms(8-10) variance_of_def Let_def by (simp add: fpVal_recons)
  have "wpS (\<lambda>_. False) (\<lambda>z w'. wf_world P T J n sp w' \<and> length z = n \<and> variance_of n v (fsec z)) (variance (decs F) v) w"
    by (rule wpS_variance [OF assms(1,2,4) v]) simp
  moreover have "wpS (\<lambda>_. False) (\<lambda>k w'. wf_world P T J n sp w' \<and> (\<exists>z. variance_of n v z \<and> root_of (max 0 z) (fpVal k)))
      (stdev (decs F) H v) w"
    by (rule wpS_stdev [OF assms(1-4) v]) blast
  ultimately show ?thesis
    unfolding wpS_total b fpVal_recons by blast
qed

theorem variance_correct_witness:
  "\<exists>z w'. variance (decs ref_boost') [[FP 100000000, FP 100000000], [FP 400000000, FP 0]] demo_world = Inr (z, w') \<and>
     \<bar>fpVal (recons z) - 100000000\<bar> \<le> 2004"
proof -
  have a: "\<forall>a \<in> set [[FP 100000000, FP 100000000], [FP 400000000, FP 0]].
      length a = 2 \<and> fbound (10 ^ 48) a \<and> \<bar>fpVal (recons a)\<bar> \<le> 10 ^ 24"
    by (simp add: fbound_def fpVal_recons fsec_def)
  have ne: "[[FP 100000000, FP 100000000], [FP 400000000, FP 0]] \<noteq> []" "length [[FP 100000000, FP 100000000], [FP 400000000, FP 0]] < 2 ^ 31"
    by simp_all
  from variance_correct [OF wf_demo_world boost_ok_ref' hi_ok_ref _ a ne refl refl refl]
  obtain z w' where "variance (decs ref_boost') [[FP 100000000, FP 100000000], [FP 400000000, FP 0]] demo_world = Inr (z, w')"
    "\<bar>shift * 2 * 2 * fpVal (recons z) - 40000000000000000\<bar> \<le> 2 * 2 * (shift * (1001 * int 2 + 1) + 4 * int 2 * int 2)"
    by (auto simp: fpVal_recons fsec_def)
  moreover from this(2) have "\<bar>fpVal (recons z) - 100000000\<bar> \<le> 2004"
    by (simp add: shift_eq)
  ultimately show ?thesis by blast
qed

text \<open>
  C23. \<open>exp\<close> on shares of a number between -1 and 1, for up to 100 parties: the opened result is the exponential function of the
  secret up to \<open>3099 n + 4\<close> units in the last place, which covers the truncation of the series after 100 terms, the rounding
  of every multiplication, and the rounding of every party's divisions.
\<close>

theorem exp_share_correct:
  assumes "wf_world P T J n sp w" "boost_ok F" "n \<le> 100" "length x = n" "\<bar>fpVal (recons x)\<bar> \<le> shift"
  shows "\<exists>z w'. exp_share (decs F) x w = Inr (z, w') \<and> wf_world P T J n sp w' \<and> length z = n \<and>
    \<bar>real_of_int (fpVal (recons z)) - real_of_int shift * exp (real_of_int (fpVal (recons x)) / real_of_int shift)\<bar> \<le>
      3099 * real n + 4"
proof -
  have "wpS (\<lambda>_. False) (\<lambda>z w'. wf_world P T J n sp w' \<and> length z = n \<and>
      \<bar>real_of_int (fsec z) - real_of_int shift * exp (real_of_int (fsec x) / real_of_int shift)\<bar> \<le> 3099 * real n + 4)
    (exp_share (decs F) x) w"
    using assms(5) by (intro wpS_exp_share [OF assms(1-4)]) (simp_all add: fpVal_recons)
  then show ?thesis
    unfolding wpS_total fpVal_recons .
qed

theorem exp_share_correct_witness:
  "\<exists>z w'. exp_share (decs ref_boost) [FP 150000000, FP (- 50000000)] demo_world = Inr (z, w') \<and>
     \<bar>real_of_int (fpVal (recons z)) - 100000000 * exp 1\<bar> \<le> 6202"
proof -
  have v: "fpVal (recons [FP 150000000, FP (- 50000000)]) = 100000000"
    by (simp add: fpVal_recons fsec_def)
  then show ?thesis
    using exp_share_correct [OF wf_demo_world boost_ok_ref, of "[FP 150000000, FP (- 50000000)]"] by (auto simp: shift_eq)
qed

end
