(* ===== verification/Matrix.thy ===== *)
theory Matrix
  imports Math
begin

section \<open>Matrices\<close>

text \<open>
  \<open>Share/Matrix.hpp\<close> and \<open>Share/Matrix.cpp\<close>. A matrix is its number of rows and columns with its rows. Addition and the inverse of
  a public matrix are Eigen's: sums of matrices of different sizes are undefined behaviour, the inverse is an
  argument \<open>einv\<close>. The numbers of rows and columns are stored in an \<open>int\<close>. The product collects all scalar products in one batch of triples,
  whose size is computed in an \<open>int\<close> as well: from \<open>2 ^ 31\<close> products on it is undefined behaviour.
\<close>

record 'a matrix =
  rows :: nat
  cols :: nat
  cells :: "'a list list"

definition cell :: "'a matrix \<Rightarrow> nat \<Rightarrow> nat \<Rightarrow> 'a" where
  "cell M i j = cells M ! i ! j"

definition setFromVector :: "'a list list \<Rightarrow> 'a matrix res" where
  "setFromVector mat_v =
     (if mat_v = [] then Inl UndefinedBehaviour
      else let h = isize mat_v; w = isize (mat_v ! 0)
           in if h < 0 \<or> w < 0 \<or> (\<exists>r \<in> set (take (nat h) mat_v). length r < nat w) then Inl UndefinedBehaviour
              else Inr \<lparr>rows = nat h, cols = nat w, cells = map (take (nat w)) (take (nat h) mat_v)\<rparr>)"

definition matrix_with :: "('a \<Rightarrow> 'a \<Rightarrow> 'a) \<Rightarrow> 'a matrix \<Rightarrow> 'a matrix \<Rightarrow> 'a matrix res" where
  "matrix_with f A B =
     (if rows A \<noteq> rows B \<or> cols A \<noteq> cols B then Inl UndefinedBehaviour
      else Inr (A\<lparr>cells := map2 (map2 f) (cells A) (cells B)\<rparr>))"

definition matrix_add :: "fp list matrix \<Rightarrow> fp list matrix \<Rightarrow> fp list matrix res" where
  "matrix_add A B = matrix_with share_add A B"

definition matrix_sub :: "fp list matrix \<Rightarrow> fp list matrix \<Rightarrow> fp list matrix res" where
  "matrix_sub A B = matrix_with share_sub A B"

definition matrix_transpose :: "'a matrix \<Rightarrow> 'a matrix" where
  "matrix_transpose A =
     \<lparr>rows = cols A, cols = rows A, cells = map (\<lambda>j. map (\<lambda>i. cell A i j) [0..<rows A]) [0..<cols A]\<rparr>"

definition open_and_recons :: "fp list matrix \<Rightarrow> fp list list" where
  "open_and_recons A = map (\<lambda>i. map recons (map (cell A i) [0..<cols A])) [0..<rows A]"

definition get_row :: "'a matrix \<Rightarrow> 'a list list" where
  "get_row A = map (\<lambda>i. map (cell A i) [0..<cols A]) [0..<rows A]"

definition matrix_mult :: "fp list matrix \<Rightarrow> fp list matrix \<Rightarrow> (world, fp list matrix) comp" where
  "matrix_mult A B =
     (if cols A \<noteq> rows B then raiseS (RuntimeError ''Matrix Mul Error!'')
      else let ijk = List.product [0..<rows A] (List.product [0..<cols B] [0..<cols A]);
               a = map (\<lambda>(i, j, k). cell A i k) ijk; b = map (\<lambda>(i, j, k). cell B k j) ijk in
       bindS (liftS (bindE (int32_times (int (rows A)) (int (cols B))) (\<lambda>hw. int32_times hw (int (cols A))))) (\<lambda>all_size.
       bindS (fp_vec_mult a b) (\<lambda>mul. withW (\<lambda>w.
       liftS (setFromVector (map (\<lambda>i. map (\<lambda>j.
         sum_share (n_parties w) (map (\<lambda>k. mul ! (i * (cols B * cols A) + (j * cols A + k))) [0..<cols A]))
           [0..<cols B]) [0..<rows A]))))))"

definition sharize_mat :: "fp matrix \<Rightarrow> (world, fp list matrix) comp" where
  "sharize_mat A =
     bindS (mapS (\<lambda>i. mapS (\<lambda>j. fp_sharize (cell A i j)) [0..<cols A]) [0..<rows A]) (\<lambda>ret. liftS (setFromVector ret))"

definition matrix_inverse :: "'d boost \<Rightarrow> (fp matrix \<Rightarrow> fp matrix) \<Rightarrow> fp list matrix \<Rightarrow> (world, fp list matrix) comp" where
  "matrix_inverse F einv A =
     bindS (mapS (\<lambda>i. mapS (\<lambda>j.
       bindS (on_rngs (getRand_fp 0 100)) (\<lambda>r. retS (share_fdiv (decs F) (fp_of_double 50) r)))
         [0..<cols A]) [0..<rows A]) (\<lambda>R'.
     bindS (liftS (setFromVector R')) (\<lambda>R.
     bindS (matrix_mult R A) (\<lambda>U_s.
     bindS (liftS (setFromVector (open_and_recons U_s))) (\<lambda>U.
     bindS (sharize_mat (einv U)) (\<lambda>U_inv_s. matrix_mult U_inv_s R)))))"

subsection \<open>Well-formed matrices\<close>

definition wf_matrix :: "'a matrix \<Rightarrow> bool" where
  "wf_matrix A \<longleftrightarrow> length (cells A) = rows A \<and> (\<forall>r \<in> set (cells A). length r = cols A) \<and> rows A < 2 ^ 31 \<and> cols A < 2 ^ 31"

definition matrix_of :: "nat \<Rightarrow> fp list matrix \<Rightarrow> bool" where
  "matrix_of n A \<longleftrightarrow> wf_matrix A \<and> (\<forall>i < rows A. \<forall>j < cols A. length (cell A i j) = n)"

lemma setFromVector_ok:
  assumes "mat_v \<noteq> []" "\<forall>r \<in> set mat_v. length r = w" "length mat_v < 2 ^ 31" "w < 2 ^ 31"
  shows "setFromVector mat_v = Inr \<lparr>rows = length mat_v, cols = w, cells = mat_v\<rparr>"
proof -
  have "length (mat_v ! 0) = w" using assms(1,2) by simp
  then have "isize mat_v = int (length mat_v)" "isize (mat_v ! 0) = int w"
    using isize_small [of mat_v] isize_small [of "mat_v ! 0"] assms(3,4) by simp_all
  then show ?thesis using assms(1,2) by (auto simp: setFromVector_def Let_def map_idI)
qed

lemma isize_less: "isize xs < 2 ^ 31"
  using pos_mod_bound [of "2 ^ 32" "int (length xs) + 2 ^ 31"] by (simp add: isize_def int32_def)

lemma wf_setFromVector:
  assumes "setFromVector mat_v = Inr A"
  shows "wf_matrix A \<and> rows A = nat (isize mat_v)"
proof -
  have "nat (isize mat_v) < 2 ^ 31" "nat (isize (mat_v ! 0)) < 2 ^ 31" "nat (isize mat_v) \<le> length mat_v"
    using isize_less [of mat_v] isize_less [of "mat_v ! 0"] isize_le [of mat_v] by simp_all
  then show ?thesis
    using assms by (auto simp: setFromVector_def wf_matrix_def Let_def not_less min_absorb2 split: if_splits)
qed

lemma wf_transpose: "wf_matrix A \<Longrightarrow> wf_matrix (matrix_transpose A)"
  by (auto simp: wf_matrix_def matrix_transpose_def)

lemma cell_transpose [simp]:
  "i < rows A \<Longrightarrow> j < cols A \<Longrightarrow> cell (matrix_transpose A) j i = cell A i j"
  by (simp add: cell_def matrix_transpose_def)

lemma dim_transpose [simp]: "rows (matrix_transpose A) = cols A" "cols (matrix_transpose A) = rows A"
  by (simp_all add: matrix_transpose_def)

lemma matrix_of_transpose: "matrix_of n A \<Longrightarrow> matrix_of n (matrix_transpose A)"
  by (simp add: matrix_of_def wf_transpose)

lemma get_row_cells: "wf_matrix A \<Longrightarrow> get_row A = cells A"
  by (intro nth_equalityI) (auto simp: get_row_def wf_matrix_def cell_def intro!: nth_equalityI)

lemma transpose_twice: "wf_matrix A \<Longrightarrow> get_row (matrix_transpose (matrix_transpose A)) = get_row A"
  by (auto simp: get_row_def intro!: map_cong)

subsection \<open>Products\<close>

text \<open>\<open>product_error n A B C\<close>: every entry of \<open>C\<close> is the inner product up to one unit per term.\<close>

definition product_error :: "nat \<Rightarrow> fp list matrix \<Rightarrow> fp list matrix \<Rightarrow> fp list matrix \<Rightarrow> bool" where
  "product_error n A B C \<longleftrightarrow> matrix_of n C \<and> rows C = rows A \<and> cols C = cols B \<and>
     (\<forall>i < rows A. \<forall>j < cols B.
        \<bar>shift * fsec (cell C i j) - (\<Sum>k < cols A. fsec (cell A i k) * fsec (cell B k j))\<bar> \<le> int (cols A) * shift)"

lemma ijk_nth:
  assumes "i < h" "j < q" "k < p"
  shows "List.product [0..<h] (List.product [0..<q] [0..<p]) ! (i * (q * p) + (j * p + k)) = (i, j, k)"
    "i * (q * p) + (j * p + k) < h * (q * p)"
proof -
  have 1: "j * p + k < q * p"
  proof -
    have "j * p + k < Suc j * p" using assms(3) by simp
    also have "\<dots> \<le> q * p" using assms(2) by (intro mult_le_mono1) simp
    finally show ?thesis .
  qed
  have "i * (q * p) + (j * p + k) < Suc i * (q * p)" using 1 by simp
  also have "\<dots> \<le> h * (q * p)" using assms(1) by (intro mult_le_mono1) simp
  finally show 2: "i * (q * p) + (j * p + k) < h * (q * p)" .
  show "List.product [0..<h] (List.product [0..<q] [0..<p]) ! (i * (q * p) + (j * p + k)) = (i, j, k)"
  proof -
    have dm: "(c * b + a) div b = c" "(c * b + a) mod b = a" if "a < b" for a b c :: nat
      using that by simp_all
    have "List.product [0..<q] [0..<p] ! (j * p + k) = (j, k)"
      using 1 assms dm [OF assms(3), of j] by (subst product_nth) simp_all
    moreover note dm [OF 1, of i]
    ultimately show ?thesis
      using 2 assms by (subst product_nth) (simp_all only: length_product length_upt diff_zero nth_upt add_0)
  qed
qed

lemma fsec_sum_list: "sum_list (map f [0..<k]) = (\<Sum>i < k. f i :: int)"
  by (simp add: interv_sum_list_conv_sum_set_nat atLeast0LessThan)

text \<open>The product of the three sizes, as the code forms it, is within the type \<open>int\<close>.\<close>

definition mult_fits :: "'a matrix \<Rightarrow> 'a matrix \<Rightarrow> bool" where
  "mult_fits A B \<longleftrightarrow> rows A * cols B < 2 ^ 31 \<and> rows A * cols B * cols A < 2 ^ 31"

lemma all_size:
  "bindE (int32_times (int (rows A)) (int (cols B))) (\<lambda>hw. int32_times hw (int (cols A))) =
   (if mult_fits A B then Inr (int (rows A * cols B * cols A)) else Inl UndefinedBehaviour)"
  by (simp only: int32_times_nat mult_fits_def) (simp add: int32_times_nat flip: of_nat_mult)

lemma wpS_matrix_mult:
  assumes w: "wf_world P T J n sp w" and A: "matrix_of n A" "0 < rows A" and B: "matrix_of n B" and "cols A = rows B" and fits: "mult_fits A B"
    and post: "\<And>C w'. wf_world P T J n sp w' \<Longrightarrow> w_ok w' = w_ok w \<Longrightarrow> product_error n A B C \<Longrightarrow> Q C w'"
  shows "wpS E Q (matrix_mult A B) w"
proof -
  let ?h = "rows A" and ?q = "cols B" and ?p = "cols A"
  let ?ijk = "List.product [0..<?h] (List.product [0..<?q] [0..<?p])"
  let ?a = "map (\<lambda>(i, j, k). cell A i k) ?ijk" and ?b = "map (\<lambda>(i, j, k). cell B k j) ?ijk"
  let ?at = "\<lambda>i j k. i * (?q * ?p) + (j * ?p + k)"
  have ab: "\<forall>x \<in> set ?a. length x = n" "\<forall>x \<in> set ?b. length x = n"
    using A(1) B assms(5) by (auto simp: matrix_of_def)
  have "wpS E (\<lambda>mul w'. wpS E Q (liftS (setFromVector (map (\<lambda>i. map (\<lambda>j.
         sum_share (n_parties w') (map (\<lambda>k. mul ! ?at i j k) [0..<?p])) [0..<?q]) [0..<?h]))) w') (fp_vec_mult ?a ?b) w"
  proof (rule wpS_fp_vec_mult [OF w _ ab])
    fix zs w'
    assume w': "wf_world P T J n sp w'" "w_ok w' = w_ok w" and zs: "length zs = length ?a"
      "\<forall>i < length ?a. length (zs ! i) = n \<and> \<bar>shift * fsec (zs ! i) - fsec (?a ! i) * fsec (?b ! i)\<bar> < shift"
    have np: "n_parties w' = n"
      using w'(1) by (simp add: wf_world_def n_parties_def)
    define S where "S i j = sum_share n (map (\<lambda>k. zs ! ?at i j k) [0..<?p])" for i j
    define C where "C = map (\<lambda>i. map (S i) [0..<?q]) [0..<?h]"
    have z: "length (zs ! ?at i j k) = n"
      "\<bar>shift * fsec (zs ! ?at i j k) - fsec (cell A i k) * fsec (cell B k j)\<bar> \<le> shift"
      if "i < ?h" "j < ?q" "k < ?p" for i j k
      using zs(2) ijk_nth [OF that] by (auto dest!: spec [of _ "?at i j k"])
    have S: "length (S i j) = n" "fsec (S i j) = (\<Sum>k < ?p. fsec (zs ! ?at i j k))" if "i < ?h" "j < ?q" for i j
    proof -
      have "\<forall>a \<in> set (map (\<lambda>k. zs ! ?at i j k) [0..<?p]). length a = n"
        using z(1) [OF that] by auto
      from fold_add [OF this, of "replicate n 0"] show "length (S i j) = n" "fsec (S i j) = (\<Sum>k < ?p. fsec (zs ! ?at i j k))"
        by (simp_all add: S_def sum_share_def share_simps comp_def fsec_sum_list)
    qed
    have "product_error n A B \<lparr>rows = ?h, cols = ?q, cells = C\<rparr>"
      unfolding product_error_def matrix_of_def wf_matrix_def
    proof (intro conjI allI impI)
      fix i j assume ij: "i < ?h" "j < ?q"
      then have c: "cell \<lparr>rows = ?h, cols = ?q, cells = C\<rparr> i j = S i j"
        by (simp add: cell_def C_def)
      have e: "shift * fsec (S i j) - (\<Sum>k < ?p. fsec (cell A i k) * fsec (cell B k j)) =
          (\<Sum>k < ?p. shift * fsec (zs ! ?at i j k) - fsec (cell A i k) * fsec (cell B k j))"
        unfolding S(2) [OF ij] by (simp only: sum_subtractf sum_distrib_left)
      have "\<bar>\<Sum>k < ?p. shift * fsec (zs ! ?at i j k) - fsec (cell A i k) * fsec (cell B k j)\<bar> \<le> (\<Sum>k < ?p. \<bar>shift * fsec (zs ! ?at i j k) - fsec (cell A i k) * fsec (cell B k j)\<bar>)"
        by (rule sum_abs)
      also have "\<dots> \<le> (\<Sum>k < ?p. shift)"
        using z(2) [OF ij] by (intro sum_mono) auto
      finally show "\<bar>shift * fsec (cell \<lparr>rows = ?h, cols = ?q, cells = C\<rparr> i j) -
          (\<Sum>k < ?p. fsec (cell A i k) * fsec (cell B k j))\<bar> \<le> int ?p * shift"
        unfolding c e by simp
    qed (use S(1) A(1) B in \<open>auto simp: C_def cell_def matrix_of_def wf_matrix_def\<close>)
    moreover have "setFromVector C = Inr \<lparr>rows = ?h, cols = ?q, cells = C\<rparr>"
      using A B setFromVector_ok [of C ?q] by (simp add: C_def matrix_of_def wf_matrix_def)
    ultimately show "wpS E Q (liftS (setFromVector (map (\<lambda>i. map (\<lambda>j.
         sum_share (n_parties w') (map (\<lambda>k. zs ! ?at i j k) [0..<?p])) [0..<?q]) [0..<?h]))) w'"
      using post [OF w'] by (simp add: np S_def [symmetric] C_def [symmetric])
  qed simp
  then show ?thesis
    using assms(5) fits all_size [of A B, unfolded assms(5)] by (simp add: matrix_mult_def Let_def)
qed

lemma matrix_mult_overflow:
  assumes "cols A = rows B" "\<not> mult_fits A B"
  shows "matrix_mult A B w = Inl UndefinedBehaviour"
  using assms all_size [of A B, unfolded assms(1)] by (simp add: matrix_mult_def Let_def bindS_def liftS_def)

subsection \<open>Properties\<close>

text \<open>
  C25. The product of two shared matrices of fitting sizes has the rows of the first and the columns of the second, and every opened
  entry is the inner product of the opened row and column up to one unit in the last place per
  term, as long as the number of products stays below \<open>2 ^ 31\<close>; from there on the code's \<open>int\<close> overflows, which is undefined
  behaviour (square matrices of 1291 rows). Matrices that do not fit raise the error of the code.
\<close>

theorem matrix_mult_correct:
  assumes "wf_world P T J n sp w" "matrix_of n A" "0 < rows A" "matrix_of n B"
  shows "(if cols A \<noteq> rows B then matrix_mult A B w = Inl (RuntimeError ''Matrix Mul Error!'')
    else if rows A * cols B < 2 ^ 31 \<and> rows A * cols B * cols A < 2 ^ 31 then
      \<exists>C w'. matrix_mult A B w = Inr (C, w') \<and> wf_world P T J n sp w' \<and> matrix_of n C \<and>
        rows C = rows A \<and> cols C = cols B \<and> (\<forall>i < rows A. \<forall>j < cols B.
          \<bar>shift * fpVal (recons (cell C i j)) - (\<Sum>k < cols A. fpVal (recons (cell A i k)) * fpVal (recons (cell B k j)))\<bar> \<le>
            int (cols A) * shift)
    else matrix_mult A B w = Inl UndefinedBehaviour)"
proof -
  have "wpS (\<lambda>_. False) (\<lambda>C w'. wf_world P T J n sp w' \<and> product_error n A B C) (matrix_mult A B) w"
    if "cols A = rows B" "mult_fits A B"
    using that by (intro wpS_matrix_mult [OF assms]) simp_all
  moreover have "matrix_mult A B w = Inl (RuntimeError ''Matrix Mul Error!'')" if "cols A \<noteq> rows B"
    using that by (simp add: matrix_mult_def raiseS_def)
  moreover have "matrix_mult A B w = Inl UndefinedBehaviour" if "cols A = rows B" "\<not> mult_fits A B"
    using that by (rule matrix_mult_overflow)
  ultimately show ?thesis
    unfolding wpS_total product_error_def fpVal_recons mult_fits_def by (cases "cols A = rows B") auto
qed

theorem matrix_mult_correct_witness:
  "\<exists>C w'. matrix_mult \<lparr>rows = 1, cols = 2, cells = [[[FP 100000000, FP 100000000], [FP 0, FP 300000000]]]\<rparr>
      \<lparr>rows = 2, cols = 1, cells = [[[FP 400000000, FP 0]], [[FP 500000000, FP 0]]]\<rparr> demo_world = Inr (C, w') \<and>
    \<bar>fpVal (recons (cell C 0 0)) - 2300000000\<bar> \<le> 2"
proof -
  let ?A = "\<lparr>rows = 1, cols = 2, cells = [[[FP 100000000, FP 100000000], [FP 0, FP 300000000]]]\<rparr> :: fp list matrix"
  let ?B = "\<lparr>rows = 2, cols = 1, cells = [[[FP 400000000, FP 0]], [[FP 500000000, FP 0]]]\<rparr> :: fp list matrix"
  have "matrix_of 2 ?A" "matrix_of 2 ?B" "0 < rows ?A"
    by (auto simp: matrix_of_def wf_matrix_def cell_def nth_Cons')
  with matrix_mult_correct [OF wf_demo_world, of ?A ?B] obtain C w' where C: "matrix_mult ?A ?B demo_world = Inr (C, w')"
    "\<forall>i < rows ?A. \<forall>j < cols ?B. \<bar>shift * fpVal (recons (cell C i j)) -
       (\<Sum>k < cols ?A. fpVal (recons (cell ?A i k)) * fpVal (recons (cell ?B k j)))\<bar> \<le> int (cols ?A) * shift"
    by auto
  from C(2) have "\<bar>shift * fpVal (recons (cell C 0 0)) - 230000000000000000\<bar> \<le> 2 * shift"
    by (simp add: cell_def fpVal_recons fsec_def numeral_2_eq_2)
  then have "\<bar>fpVal (recons (cell C 0 0)) - 2300000000\<bar> \<le> 2"
    by (simp add: shift_eq)
  with C(1) show ?thesis by blast
qed

end
