(* ===== verification/Columns.thy ===== *)
theory Columns
  imports Triples
begin

section \<open>Columns of tables\<close>

text \<open>
  How the jobs and models of \<open>Job/Jobs\<close> and \<open>Model/Models\<close> pick columns from a table, group the one-hot columns of an
  attribute by their names (\<open>name#0\<close>, \<open>name#1\<close>, ...) and drop the identifiers of a joined table.
  Column numbers start at 1; a number outside the row is undefined behaviour.
\<close>

subsection \<open>Picking columns\<close>

definition nth_or_ub :: "'a list \<Rightarrow> nat \<Rightarrow> 'a res" where
  "nth_or_ub xs i = (if i < length xs then Inr (xs ! i) else Inl UndefinedBehaviour)"

definition pick :: "'a list \<Rightarrow> int \<Rightarrow> 'a res" where
  "pick xs j = (if 1 \<le> j then nth_or_ub xs (nat (j - 1)) else Inl UndefinedBehaviour)"

definition pick_columns :: "'a list list \<Rightarrow> int list \<Rightarrow> 'a list list res" where
  "pick_columns table js = mapE (\<lambda>row. mapE (pick row) js) table"

definition pick_column :: "'a list list \<Rightarrow> int \<Rightarrow> 'a list res" where
  "pick_column table j = mapE (\<lambda>row. pick row j) table"

definition pick_with_one :: "'a \<Rightarrow> 'a list list \<Rightarrow> int list \<Rightarrow> 'a list list res" where
  "pick_with_one one table js = mapE (\<lambda>row. bindE (mapE (pick row) js) (\<lambda>tmp. Inr (one # tmp))) table"

text \<open>
  The jobs store the number of records in an \<open>int\<close>, and the regressions the number of features, to which they add one for the
  constant column.
\<close>

definition int_column :: "'a list list \<Rightarrow> int \<Rightarrow> 'a list res" where
  "int_column table j = bindE (int_rows table) (\<lambda>rows. pick_column rows j)"

definition design_rows :: "'a \<Rightarrow> 'a list list \<Rightarrow> int list \<Rightarrow> 'a list list res" where
  "design_rows one table js = (let dim = isize js in
     bindE (int_rows table) (\<lambda>rows. mapE (\<lambda>row.
       bindE (if dim = 2 ^ 31 - 1 then Inl UndefinedBehaviour else vector_size (dim + 1)) (\<lambda>_.
       bindE (mapE (pick row) js) (\<lambda>tmp. Inr (one # tmp)))) rows))"

definition parse_schema :: "string list \<Rightarrow> int list list \<Rightarrow> (string list \<times> string list) res" where
  "parse_schema schemas arg =
     bindE (nth_or_ub arg 0) (\<lambda>a0. bindE (mapE (pick schemas) a0) (\<lambda>schemaX.
     bindE (nth_or_ub arg 1) (\<lambda>a1. bindE (mapE (pick schemas) a1) (\<lambda>schemaY. Inr (schemaX, schemaY)))))"

lemma int_column_small: "length table < 2 ^ 31 \<Longrightarrow> int_column table j = pick_column table j"
  by (simp add: int_column_def int_rows_small)

lemma design_rows_small: "length table < 2 ^ 31 \<Longrightarrow> length js < 2 ^ 31 - 1 \<Longrightarrow> design_rows one table js = pick_with_one one table js"
  using isize_small [of js] by (simp add: design_rows_def pick_with_one_def int_rows_small)

subsection \<open>Sizes of attributes\<close>

text \<open>
  The inner loop of \<open>getAttrSizeList\<close>: it reads a name from its end to the last \<open>#\<close> and looks at the character read before, which is
  the one after the \<open>#\<close>; for a \<open>#\<close> at the end there is none.
\<close>

fun starts_attribute :: "nat \<Rightarrow> char option \<Rightarrow> string \<Rightarrow> bool res" where
  "starts_attribute sz before [] = Inr False"
| "starts_attribute sz before (c # cs) =
     (if c = CHR ''#'' then
        if sz > 0 then (case before of None \<Rightarrow> Inl UndefinedBehaviour | Some d \<Rightarrow> Inr (d = CHR ''0''))
        else Inr False
      else starts_attribute sz (Some c) cs)"

fun attr_sizes :: "nat \<Rightarrow> string list \<Rightarrow> nat list res" where
  "attr_sizes sz [] = Inr [sz]"
| "attr_sizes sz (s # ss) =
     bindE (starts_attribute sz None (rev s)) (\<lambda>b.
       if b then bindE (attr_sizes 1 ss) (\<lambda>r. Inr (sz # r)) else attr_sizes (sz + 1) ss)"

definition getAttrSizeList :: "string list \<Rightarrow> nat list res" where
  "getAttrSizeList schemas = attr_sizes 0 schemas"

subsection \<open>Bit vectors\<close>

text \<open>The training data by attribute, value and record; the data of a prediction by record, attribute and value.\<close>

fun bit_vectors :: "'a list list \<Rightarrow> nat \<Rightarrow> nat list \<Rightarrow> 'a list list list res" where
  "bit_vectors table from [] = Inr []"
| "bit_vectors table from (sz # sizes) =
     bindE (mapE (\<lambda>i. mapE (\<lambda>row. nth_or_ub row i) table) [from..<from + sz]) (\<lambda>tmpRow.
     bindE (bit_vectors table (from + sz) sizes) (\<lambda>S. Inr (tmpRow # S)))"

definition getBitvector :: "'a list list \<Rightarrow> nat list \<Rightarrow> 'a list list list res" where
  "getBitvector table attrSizeList = bit_vectors table 0 attrSizeList"

fun row_attributes :: "'a list \<Rightarrow> nat \<Rightarrow> nat list \<Rightarrow> 'a list list res" where
  "row_attributes row from [] = Inr []"
| "row_attributes row from (sz # sizes) =
     bindE (mapE (nth_or_ub row) [from..<from + sz]) (\<lambda>tmp.
     bindE (row_attributes row (from + sz) sizes) (\<lambda>r. Inr (tmp # r)))"

definition getBitvector_rows :: "'a list list \<Rightarrow> nat list \<Rightarrow> 'a list list list res" where
  "getBitvector_rows table attr_size_list = mapE (\<lambda>row. row_attributes row 0 attr_size_list) table"

subsection \<open>Dropping identifiers\<close>

definition drop_columns :: "nat \<Rightarrow> 'a list \<Rightarrow> 'a list" where
  "drop_columns match_row row =
     map snd (filter (\<lambda>(i, _). i \<noteq> 0 \<and> i \<noteq> match_row) (zip [0..<length row] row))"

definition removeIdColumn ::
    "string list list \<Rightarrow> string list \<Rightarrow> int list \<Rightarrow> (string list list \<times> string list) res" where
  "removeIdColumn table schema id_column =
     (case id_column of [] \<Rightarrow> Inl UndefinedBehaviour
      | c # _ \<Rightarrow> let match_row = nat ((c - 1) mod 2 ^ 64)
                 in Inr (map (drop_columns match_row) table, drop_columns match_row schema))"

subsection \<open>Lemmas\<close>

lemma pick_Inr: "pick xs j = Inr x \<longleftrightarrow> 1 \<le> j \<and> j \<le> int (length xs) \<and> x = xs ! nat (j - 1)"
  by (auto simp: pick_def nth_or_ub_def)

lemma pick_ok: "1 \<le> j \<Longrightarrow> j \<le> int (length xs) \<Longrightarrow> pick xs j = Inr (xs ! nat (j - 1))"
  by (simp add: pick_Inr)

lemma nth_or_ub_Inr [simp]: "nth_or_ub xs i = Inr x \<longleftrightarrow> i < length xs \<and> x = xs ! i"
  by (auto simp: nth_or_ub_def)

lemma drop_columns_nths: "drop_columns m row = nths row (- {0, m})"
proof -
  have "map snd (filter (\<lambda>(i, _). i \<noteq> 0 \<and> i \<noteq> m) (zip [k..<k + length row] row)) = nths row {i. i + k \<noteq> 0 \<and> i + k \<noteq> m}" for k
  proof (induction row arbitrary: k)
    case (Cons x row)
    have "[k..<k + length (x # row)] = k # [Suc k..<Suc k + length row]"
      by (simp add: upt_conv_Cons del: upt_Suc)
    then show ?case
      using Cons.IH [of "Suc k"] by (simp add: nths_Cons)
  qed simp
  from this [of 0] show ?thesis
    by (simp add: drop_columns_def Compl_eq)
qed

subsection \<open>Groups of names\<close>

lemma digits_hash: "CHR ''#'' \<notin> set (digits k)"
proof (induction k rule: digits.induct)
  case (1 n)
  have h: "CHR ''#'' \<noteq> char_of (48 + m)" if "m < 10" for m :: nat
  proof
    assume "CHR ''#'' = char_of (48 + m)"
    then have "of_char (CHR ''#'') = (of_char (char_of (48 + m) :: char) :: nat)" by (rule arg_cong)
    with that show False by simp
  qed
  have "n mod 10 < 10" by simp
  from h [OF this] h [of n] 1 show ?case
    by (subst digits.simps) auto
qed

lemma digits_first: "digits k \<noteq> [] \<and> (hd (digits k) = CHR ''0'' \<longleftrightarrow> k = 0)"
proof (induction k rule: digits.induct)
  case (1 n)
  have "char_of (48 + m) = CHR ''0'' \<longleftrightarrow> m = 0" if "m < 10" for m :: nat
  proof
    assume "char_of (48 + m) = CHR ''0''"
    then have "of_char (char_of (48 + m) :: char) = (48 :: nat)" by simp
    with that show "m = 0" by simp
  qed (simp add: char_of_def bit_0)
  then show ?case
    using 1 by (subst (1 2) digits.simps) (auto simp: hd_append)
qed

definition attr_name :: "string \<Rightarrow> nat \<Rightarrow> string" where
  "attr_name p k = p @ ''#'' @ digits k"

definition attr_names :: "(string \<times> nat) list \<Rightarrow> string list" where
  "attr_names gs = concat (map (\<lambda>(p, m). map (attr_name p) [0..<m]) gs)"

lemma starts_attribute_skip:
  "CHR ''#'' \<notin> set cs \<Longrightarrow> starts_attribute sz b (cs @ ds) =
     starts_attribute sz (if cs = [] then b else Some (last cs)) ds"
  by (induction cs arbitrary: b) auto

lemma starts_attribute_name [simp]:
  "starts_attribute sz None (rev (attr_name p k)) = Inr (0 < sz \<and> k = 0)"
  using digits_first [of k] digits_hash [of k]
  by (simp add: attr_name_def starts_attribute_skip last_rev)

lemma attr_sizes_run: "0 < sz \<Longrightarrow> attr_sizes sz (map (attr_name p) [k..<m] @ ss) =
    (if k = 0 \<and> 0 < m then bindE (attr_sizes 1 (map (attr_name p) [1..<m] @ ss)) (\<lambda>r. Inr (sz # r))
     else attr_sizes (sz + (m - k)) ss)"
proof (induction "m - k" arbitrary: k sz)
  case (Suc d)
  then have "[k..<m] = k # [Suc k..<m]" "0 < m" by (simp_all add: upt_conv_Cons)
  then show ?case
    using Suc.hyps Suc.prems Suc.hyps(1) [of "Suc k" "sz + 1"] by (simp add: Suc_diff_Suc)
qed auto

lemma attr_sizes_names:
  "0 < sz \<Longrightarrow> \<forall>(p, m) \<in> set gs. 0 < m \<Longrightarrow> attr_sizes sz (attr_names gs) = Inr (sz # map snd gs)"
proof (induction gs arbitrary: sz)
  case (Cons g gs)
  obtain p m where g: "g = (p, m)" by force
  then have m: "0 < m" using Cons.prems by simp
  have "attr_names (g # gs) = map (attr_name p) [0..<m] @ attr_names gs"
    by (simp add: attr_names_def g)
  then show ?case
    using Cons.IH [of m] Cons.prems m attr_sizes_run [of sz p 0 m] attr_sizes_run [of 1 p 1 m] by (simp add: g)
qed (simp add: attr_names_def)

lemma getAttrSizeList_names:
  assumes "\<forall>(p, m) \<in> set gs. 0 < m" "gs \<noteq> []"
  shows "getAttrSizeList (attr_names gs) = Inr (map snd gs)"
proof -
  obtain p m gs' where gs: "gs = (p, m) # gs'" using assms(2) by (cases gs) auto
  then have m: "0 < m" using assms(1) by simp
  then have "attr_names gs = attr_name p 0 # (map (attr_name p) [1..<m] @ attr_names gs')"
    by (simp add: attr_names_def gs upt_conv_Cons)
  then show ?thesis
    using attr_sizes_run [of 1 p 1 m] attr_sizes_names [of m gs'] assms(1) m by (simp add: getAttrSizeList_def gs)
qed

lemma length_attr_names: "length (attr_names gs) = sum_list (map snd gs)"
  by (induction gs) (auto simp: attr_names_def)

subsection \<open>Layout of the bit vectors\<close>

definition offset :: "nat list \<Rightarrow> nat \<Rightarrow> nat" where
  "offset sizes a = sum_list (take a sizes)"

lemma offset_simps [simp]: "offset sizes 0 = 0" "offset (sz # sizes) (Suc a) = sz + offset sizes a"
  by (simp_all add: offset_def)

lemma mapE_shift:
  "mapE f [from..<from + k] = mapE (\<lambda>v. f (from + v)) [0..<k]"
proof -
  have "[from..<from + k] = map (\<lambda>v. from + v) [0..<k]"
    by (rule nth_equalityI) simp_all
  moreover have "mapE f (map g xs) = mapE (\<lambda>x. f (g x)) xs" for g :: "nat \<Rightarrow> nat" and xs
    by (induction xs) simp_all
  ultimately show ?thesis by simp
qed

lemma bit_vectors_layout:
  assumes "\<forall>row \<in> set table. length row = W" "from + sum_list sizes \<le> W"
  shows "bit_vectors table from sizes = Inr (map (\<lambda>a. map (\<lambda>v. map (\<lambda>row. row ! (from + offset sizes a + v)) table)
    [0..<sizes ! a]) [0..<length sizes])"
  using assms(2)
proof (induction sizes arbitrary: "from")
  case (Cons sz sizes)
  have "mapE (\<lambda>i. mapE (\<lambda>row. nth_or_ub row i) table) [from..<from + sz] =
      Inr (map (\<lambda>v. map (\<lambda>row. row ! (from + v)) table) [0..<sz])"
    unfolding mapE_shift using assms(1) Cons.prems by (intro mapE_Inr) auto
  moreover have "[0..<length (sz # sizes)] = 0 # map Suc [0..<length sizes]"
    by (simp add: upt_conv_Cons map_Suc_upt del: upt_Suc)
  ultimately show ?case
    using Cons.IH [of "from + sz"] Cons.prems by (simp add: comp_def add.assoc)
qed simp

lemma row_attributes_layout:
  assumes "from + sum_list sizes \<le> length row"
  shows "row_attributes row from sizes = Inr (map (\<lambda>a. map (\<lambda>v. row ! (from + offset sizes a + v)) [0..<sizes ! a]) [0..<length sizes])"
  using assms
proof (induction sizes arbitrary: "from")
  case (Cons sz sizes)
  have "mapE (nth_or_ub row) [from..<from + sz] = Inr (map (\<lambda>v. row ! (from + v)) [0..<sz])"
    unfolding mapE_shift using Cons.prems by (intro mapE_Inr) auto
  moreover have "[0..<length (sz # sizes)] = 0 # map Suc [0..<length sizes]"
    by (simp add: upt_conv_Cons map_Suc_upt del: upt_Suc)
  ultimately show ?case
    using Cons.IH [of "from + sz"] Cons.prems by (simp add: comp_def add.assoc)
qed simp

lemma mapE_nth_short: "length row < k \<Longrightarrow> from \<le> length row \<Longrightarrow> mapE (nth_or_ub row) [from..<k] = Inl UndefinedBehaviour"
proof (induction "length row - from" arbitrary: "from")
  case 0
  then have "[from..<k] = from # [Suc from..<k]" by (simp add: upt_conv_Cons)
  with 0 show ?case by (simp add: nth_or_ub_def)
next
  case (Suc d)
  then have "[from..<k] = from # [Suc from..<k]" by (simp add: upt_conv_Cons)
  with Suc show ?case by (simp add: nth_or_ub_def)
qed

lemma row_attributes_short:
  "from \<le> length row \<Longrightarrow> length row < from + sum_list sizes \<Longrightarrow> row_attributes row from sizes = Inl UndefinedBehaviour"
proof (induction sizes arbitrary: "from")
  case (Cons sz sizes)
  show ?case
  proof (cases "length row < from + sz")
    case True
    then show ?thesis using mapE_nth_short [of row "from + sz" "from"] Cons.prems by simp
  next
    case False
    then have "mapE (nth_or_ub row) [from..<from + sz] = Inr (map (\<lambda>v. row ! (from + v)) [0..<sz])"
      unfolding mapE_shift by (intro mapE_Inr) auto
    with False show ?thesis using Cons.IH [of "from + sz"] Cons.prems by simp
  qed
qed simp

subsection \<open>Properties\<close>

text \<open>
  The columns of one-hot encoded attributes: if the names are \<open>p#0\<close> to \<open>p#(m - 1)\<close> for each attribute in turn, \<open>getAttrSizeList\<close> finds
  the number of values of every attribute, whatever the prefixes are; then \<open>getBitvector\<close> of the training
  job and of the model never read out of range on rows of that width, and both hold, at attribute \<open>a\<close>, value \<open>v\<close> and record \<open>r\<close>, the
  cell of record \<open>r\<close> in the column named \<open>p#v\<close>. On a shorter row the model's version is undefined.
\<close>

theorem bit_vectors_correct:
  fixes table :: "'a list list"
  assumes "\<forall>(p, m) \<in> set gs. 0 < m" "gs \<noteq> []" "\<forall>row \<in> set table. length row = length (attr_names gs)"
  shows "\<exists>sizes S data. getAttrSizeList (attr_names gs) = Inr sizes \<and> sizes = map snd gs \<and>
    getBitvector table sizes = Inr S \<and> getBitvector_rows table sizes = Inr data \<and>
    (\<forall>a < length gs. \<forall>v < sizes ! a. attr_names gs ! (offset sizes a + v) = attr_name (fst (gs ! a)) v \<and>
       (\<forall>r < length table. S ! a ! v ! r = table ! r ! (offset sizes a + v) \<and> data ! r ! a ! v = table ! r ! (offset sizes a + v))) \<and>
    (\<forall>row :: 'a list. length row < length (attr_names gs) \<longrightarrow> getBitvector_rows [row] sizes = Inl UndefinedBehaviour)"
proof -
  define sizes where "sizes = map snd gs"
  have W: "sum_list sizes = length (attr_names gs)"
    by (simp add: length_attr_names sizes_def)
  define S where "S = map (\<lambda>a. map (\<lambda>v. map (\<lambda>row. row ! (offset sizes a + v)) table) [0..<sizes ! a]) [0..<length sizes]"
  define data where "data = map (\<lambda>row. map (\<lambda>a. map (\<lambda>v. row ! (offset sizes a + v)) [0..<sizes ! a]) [0..<length sizes]) table"
  have "getBitvector table sizes = Inr S"
    using bit_vectors_layout [OF assms(3), of 0 sizes] W by (simp add: getBitvector_def S_def)
  moreover have "getBitvector_rows table sizes = Inr data"
    unfolding getBitvector_rows_def data_def
  proof (rule mapE_Inr)
    fix row assume "row \<in> set table"
    then show "row_attributes row 0 sizes =
        Inr (map (\<lambda>a. map (\<lambda>v. row ! (offset sizes a + v)) [0..<sizes ! a]) [0..<length sizes])"
      using row_attributes_layout [of 0 sizes row] assms(3) W by simp
  qed
  moreover have "attr_names gs ! (offset (map snd gs) a + v) = attr_name (fst (gs ! a)) v"
    if "a < length gs" "v < snd (gs ! a)" for a v
    using that
  proof (induction gs arbitrary: a)
    case (Cons g gs)
    obtain p m where g: "g = (p, m)" by force
    have n: "attr_names ((p, m) # gs) = map (attr_name p) [0..<m] @ attr_names gs"
      by (simp add: attr_names_def)
    show ?case
      using Cons by (cases a) (simp_all add: n g nth_append)
  qed simp
  moreover have "getBitvector_rows [row] sizes = Inl UndefinedBehaviour" if "length row < length (attr_names gs)" for row :: "'a list"
    using row_attributes_short [of 0 row sizes] that W by (simp add: getBitvector_rows_def)
  ultimately show ?thesis
    using getAttrSizeList_names [OF assms(1,2)]
    by (rule_tac exI [of _ sizes], rule_tac exI [of _ S], rule_tac exI [of _ data]) (auto simp: sizes_def S_def data_def)
qed

theorem bit_vectors_correct_witness:
  "getAttrSizeList (attr_names [(''age'', 3), (''#sex'', 2)]) = Inr [3, 2] \<and>
   getBitvector [[1, 0, 0, 0, 1 :: int], [0, 0, 1, 1, 0]] [3, 2] =
     Inr [[[1, 0], [0, 0], [0, 1]], [[0, 1], [1, 0]]]"
proof -
  have g: "\<forall>(p, m) \<in> set [(''age'', 3), (''#sex'', 2 :: nat)]. 0 < m" "[(''age'', 3), (''#sex'', 2)] \<noteq> []"
    "\<forall>row \<in> set [[1, 0, 0, 0, 1 :: int], [0, 0, 1, 1, 0]]. length row = length (attr_names [(''age'', 3), (''#sex'', 2)])"
    by (simp_all add: length_attr_names)
  from bit_vectors_correct [OF g] have "getAttrSizeList (attr_names [(''age'', 3), (''#sex'', 2)]) = Inr [3, 2]"
    by auto
  then show ?thesis
    by (simp add: getBitvector_def nth_or_ub_def upt_rec)
qed

end
