(* ===== verification/Sid3.thy ===== *)
theory Sid3
  imports Matrix Columns
begin

section \<open>Decision trees on shared bits\<close>

text \<open>
  \<open>GBDT/SID3.hpp\<close> and \<open>GBDT/SID3.cpp\<close>: ID3 on one-hot shares. \<open>T\<close> marks the records of a node, \<open>S\<close> holds the bits by attribute, value
  and record, \<open>targets\<close> the bits by class and record, \<open>R\<close> the attributes left, in ascending order. A tree keeps what \<open>predict\<close> and
  \<open>createTreeJson\<close> read. The recursion of \<open>createTree\<close> takes fuel; one more unit than attributes is enough.
\<close>

datatype sid3 = SID3 (gini_index: rat) (sid_size: int) (att_class: int) (sid_y: "fp list") (sid_children: "sid3 list")

subsection \<open>Helpers of the node\<close>

definition dot :: "fp list list \<Rightarrow> fp list list \<Rightarrow> (world, fp list) comp" where
  "dot x y = withW (\<lambda>w. bindS (fp_vec_mult x y) (\<lambda>ret. retS (sum_share (n_parties w) ret)))"

definition dataSize :: "'d boost \<Rightarrow> nat \<Rightarrow> fp list list \<Rightarrow> int" where
  "dataSize F n T = dtrunc (rnd (fp_getDoubleVal F (recons (sum_share n T)) + rnd (1 / 10)))"

text \<open>\<open>std::max_element\<close>: the first element that no other exceeds.\<close>

definition max_element :: "('a \<Rightarrow> 'a \<Rightarrow> bool) \<Rightarrow> 'a list \<Rightarrow> 'a res" where
  "max_element lt xs = (case xs of [] \<Rightarrow> Inl UndefinedBehaviour | x # ys \<Rightarrow> Inr (foldl (\<lambda>m y. if lt m y then y else m) x ys))"

definition pair_less :: "('a :: linorder) \<times> int \<Rightarrow> 'a \<times> int \<Rightarrow> bool" where
  "pair_less p q \<longleftrightarrow> fst p < fst q \<or> (\<not> fst q < fst p \<and> snd p < snd q)"

definition majorityClass :: "'d boost \<Rightarrow> fp list list list \<Rightarrow> (world, fp list) comp" where
  "majorityClass F U = withW (\<lambda>w.
     let base_count = map (\<lambda>(index, u). (dtrunc (fp_getDoubleVal F (recons (sum_share (n_parties w) u))), int index))
                        (zip [0..<length U] U) in
     bindS (liftS (max_element pair_less base_count)) (\<lambda>(max_num, max_num_index).
     retS (getConstantShare (n_parties w) (w_sp w) (fp_of_int max_num_index))))"

definition splitTransaction :: "fp list list \<Rightarrow> fp list list list \<Rightarrow> (world, fp list list list) comp" where
  "splitTransaction T targets = mapS (\<lambda>target. fp_vec_mult target T) targets"

text \<open>One quotient of \<open>calcGini\<close>, for the bits \<open>s\<close> of one value of one attribute.\<close>

definition gini_of :: "'d boost \<Rightarrow> fp list list list \<Rightarrow> fp list list \<Rightarrow> (world, fp list) comp" where
  "gini_of F U s = withW (\<lambda>w.
     bindS (mapS (\<lambda>u. dot u s) U) (\<lambda>x.
     bindS (fp_vec_mult x x) (\<lambda>xx.
     let y = share_addc (w_sp w) (share_scale (fp_of_int 8) (sum_share (n_parties w) x)) (fp_of_int 1)
     in fp_share_div (decs F) (sum_share (n_parties w) xx) y)))"

definition calcGini :: "'d boost \<Rightarrow> fp list list list \<Rightarrow> fp list list list list \<Rightarrow> nat list \<Rightarrow> (world, (rat \<times> int) list) comp" where
  "calcGini F U S R =
     bindS (mapS (\<lambda>r. bindS (liftS (nth_or_ub S r)) (\<lambda>Sr. mapS (gini_of F U) Sr)) R) (\<lambda>Gini.
     retS (concat (map2 (\<lambda>r gs. map (\<lambda>g. (fp_getDoubleVal F (recons g), int r)) gs) R Gini)))"

definition getMaxGini :: "'d boost \<Rightarrow> fp list list list \<Rightarrow> fp list list list list \<Rightarrow> nat list \<Rightarrow> (world, rat \<times> int) comp" where
  "getMaxGini F U S R =
     bindS (calcGini F U S R) (\<lambda>gini_indexies.
     if gini_indexies = [] then retS (- 1, - 1) else liftS (max_element pair_less gini_indexies))"

subsection \<open>Building a tree\<close>

definition eps :: rat where "eps = rnd (1 / 1000000)"

definition is_leaf :: "fp list list \<Rightarrow> nat list \<Rightarrow> int \<Rightarrow> rat \<Rightarrow> bool" where
  "is_leaf T R sz g \<longleftrightarrow> R = [] \<or> sz mod 2 ^ 32 \<le> int (length T div 2) \<or> 0 = sz \<or> g \<le> eps"

fun createTree ::
    "'d boost \<Rightarrow> nat \<Rightarrow> fp list list \<Rightarrow> fp list list list list \<Rightarrow> fp list list list \<Rightarrow> nat list \<Rightarrow> (world, sid3) comp" where
  "createTree F 0 T S targets R = raiseS OutOfFuel"
| "createTree F (Suc fuel) T S targets R = withW (\<lambda>w.
     let sz = dataSize F (n_parties w) T in
     bindS (splitTransaction T targets) (\<lambda>U.
     bindS (majorityClass F U) (\<lambda>y.
     bindS (getMaxGini F U S R) (\<lambda>(g, att).
     if is_leaf T R sz g then retS (SID3 g sz att y [])
     else bindS (liftS (if att < 0 then Inl UndefinedBehaviour else nth_or_ub S (nat att))) (\<lambda>Sa.
       bindS (mapS (\<lambda>s. bindS (fp_vec_mult T s) (\<lambda>T'. createTree F fuel T' S targets (filter (\<lambda>r. int r \<noteq> att) R))) Sa)
       (\<lambda>cs. retS (SID3 g sz att y cs)))))))"

subsection \<open>Prediction\<close>

fun sid3_predict :: "fp list list list \<Rightarrow> sid3 \<Rightarrow> (world, fp list) comp"
  and sid3_predict_children :: "fp list list list \<Rightarrow> fp list list \<Rightarrow> nat \<Rightarrow> fp list \<Rightarrow> sid3 list \<Rightarrow> (world, fp list) comp" where
  "sid3_predict data (SID3 g sz att y cs) =
     (if cs = [] then retS y
      else withW (\<lambda>w. bindS (liftS (if att < 0 then Inl UndefinedBehaviour else nth_or_ub data (nat att))) (\<lambda>attribute_value.
        sid3_predict_children data attribute_value 0 (replicate (n_parties w) 0) cs)))"
| "sid3_predict_children data av index ret [] = retS ret"
| "sid3_predict_children data av index ret (c # cs) =
     bindS (sid3_predict data c) (\<lambda>p. bindS (liftS (nth_or_ub av index)) (\<lambda>b.
     bindS (fp_share_mult b p) (\<lambda>bp. sid3_predict_children data av (index + 1) (share_add ret bp) cs)))"

subsection \<open>Shared bits\<close>

definition bit_share :: "nat \<Rightarrow> bool \<Rightarrow> fp list \<Rightarrow> bool" where
  "bit_share n b v \<longleftrightarrow> length v = n \<and> fsec v = of_bool b * shift"

definition bit_shares :: "nat \<Rightarrow> bool list \<Rightarrow> fp list list \<Rightarrow> bool" where
  "bit_shares n bs vs \<longleftrightarrow> list_all2 (bit_share n) bs vs"

lemma bit_sharesD:
  assumes "bit_shares n bs vs"
  shows "length vs = length bs" "\<forall>v \<in> set vs. length v = n"
  using assms unfolding bit_shares_def bit_share_def by (auto simp: list_all2_conv_all_nth in_set_conv_nth)

lemma bits_unique: "bit_shares n as vs \<Longrightarrow> bit_shares n bs vs \<Longrightarrow> as = bs"
  unfolding bit_shares_def
  by (induction arbitrary: bs rule: list_all2_induct) (auto simp: list_all2_Cons2 bit_share_def split: if_splits)

lemma bit_product:
  assumes "\<bar>shift * z - of_bool a * shift * x\<bar> < shift"
  shows "z = of_bool a * x"
proof -
  have "\<bar>(z - of_bool a * x) * shift\<bar> < shift"
    using assms by (simp add: algebra_simps)
  then show ?thesis by (simp add: abs_mult)
qed

lemma wpS_bits_mult:
  assumes "wf_world P T J n sp w" "bit_shares n as xs" "bit_shares n bs ys" "length as = length bs"
    and post: "\<And>zs w'. wf_world P T J n sp w' \<Longrightarrow> w_ok w' = w_ok w \<Longrightarrow> bit_shares n (map2 (\<and>) as bs) zs \<Longrightarrow> Q zs w'"
  shows "wpS E Q (fp_vec_mult xs ys) w"
proof (rule wpS_fp_vec_mult [OF assms(1) _ bit_sharesD(2) [OF assms(2)] bit_sharesD(2) [OF assms(3)]])
  show "length xs = length ys"
    using bit_sharesD(1) assms(2-4) by metis
  fix zs w'
  assume w': "wf_world P T J n sp w'" "w_ok w' = w_ok w" and zs: "length zs = length xs"
    "\<forall>i < length xs. length (zs ! i) = n \<and> \<bar>shift * fsec (zs ! i) - fsec (xs ! i) * fsec (ys ! i)\<bar> < shift"
  have "bit_share n (as ! i \<and> bs ! i) (zs ! i)" if i: "i < length xs" for i
  proof -
    have "fsec (xs ! i) = of_bool (as ! i) * shift" "fsec (ys ! i) = of_bool (bs ! i) * shift"
      using i assms(2-4) bit_sharesD(1) [OF assms(2)] unfolding bit_shares_def bit_share_def by (auto simp: list_all2_conv_all_nth)
    moreover have "\<bar>shift * fsec (zs ! i) - fsec (xs ! i) * fsec (ys ! i)\<bar> < shift" "length (zs ! i) = n"
      using zs(2) i by simp_all
    ultimately have "fsec (zs ! i) = of_bool (as ! i) * (of_bool (bs ! i) * shift)"
      by (intro bit_product) simp
    with \<open>length (zs ! i) = n\<close> show ?thesis by (simp add: bit_share_def of_bool_conj)
  qed
  then have "bit_shares n (map2 (\<and>) as bs) zs"
    using zs(1) bit_sharesD(1) [OF assms(2)] assms(4) unfolding bit_shares_def by (simp add: list_all2_conv_all_nth)
  then show "Q zs w'" by (rule post [OF w'])
qed

definition count_true :: "bool list \<Rightarrow> nat" where
  "count_true bs = length (filter id bs)"

lemma count_true_le: "count_true bs \<le> length bs"
  by (simp add: count_true_def)

lemma fsec_bits_sum:
  assumes "bit_shares n bs vs"
  shows "recons (sum_share n vs) = fp_of_int (int (count_true bs))" "length (sum_share n vs) = n"
    "fsec (sum_share n vs) = int (count_true bs) * shift"
proof -
  have "sum_list (map fsec vs) = int (count_true bs) * shift"
    using assms unfolding bit_shares_def
    by (induction rule: list_all2_induct) (auto simp: count_true_def bit_share_def algebra_simps)
  moreover have len: "\<forall>v \<in> set vs. length v = n" by (rule bit_sharesD(2) [OF assms])
  note f = fold_add [OF this, of "replicate n 0"]
  ultimately show "fsec (sum_share n vs) = int (count_true bs) * shift" "length (sum_share n vs) = n"
    using f by (simp_all add: sum_share_def share_simps)
  then show "recons (sum_share n vs) = fp_of_int (int (count_true bs))"
    by (intro fp.expand) (simp add: fpVal_recons fp_of_int_def)
qed

lemma rnd_tenth: "dtrunc (rnd (of_int m + rnd (1 / 10))) = m" if "0 \<le> m" "m \<le> 10 ^ 10" for m
proof -
  define t where "t = rnd (1 / 10)"
  have t: "9 / 100 \<le> t" "t \<le> 11 / 100"
    using rnd_close [of "1 / 10"] by (auto simp: t_def abs_if split: if_splits)
  define x where "x = of_int m + t"
  have m: "0 \<le> (of_int m :: rat)" "of_int m \<le> (10 ^ 10 :: rat)"
    using that of_int_le_iff [of m "10 ^ 10", where 'a = rat] by simp_all
  then have x: "0 \<le> x" "x \<le> 10 ^ 10 + 1"
    using t by (simp_all add: x_def)
  have "\<bar>rnd x - x\<bar> * 2 ^ 53 \<le> \<bar>x\<bar>" by (rule rnd_close)
  then have "\<bar>rnd x - x\<bar> \<le> 1 / 100"
    using x by simp
  then have "of_int m \<le> rnd x" "rnd x < of_int m + 1"
    using t by (auto simp: x_def abs_if split: if_splits)
  then have "\<lfloor>rnd x\<rfloor> = m" "0 \<le> rnd x"
    using m(1) by (auto intro!: floor_unique)
  then show ?thesis
    by (simp add: dtrunc_def x_def t_def)
qed

lemma dataSize_bits:
  assumes "boost_ok F" "bit_shares n bs T" "length bs \<le> 10 ^ 10"
  shows "dataSize F n T = int (count_true bs)"
proof -
  have "count_true bs \<le> 10 ^ 10"
    using count_true_le [of bs] assms(3) by (rule order_trans)
  then have c: "int (count_true bs) \<le> int (10 ^ 10)" by (rule of_nat_mono)
  then have "fp_getDoubleVal F (fp_of_int (int (count_true bs))) = of_int (int (count_true bs))"
    by (intro fp_getDoubleVal_exact [OF assms(1)]) simp
  then show ?thesis
    using rnd_tenth [of "int (count_true bs)"] c by (simp add: dataSize_def fsec_bits_sum [OF assms(2)])
qed

subsection \<open>Maximal elements\<close>

lemma max_element_pair:
  assumes "xs \<noteq> []"
  shows "\<exists>m. max_element pair_less xs = Inr m \<and> m \<in> set xs \<and> (\<forall>x \<in> set xs. \<not> pair_less m x)"
proof -
  obtain x ys where xs: "xs = x # ys" using assms by (cases xs) auto
  have "foldl (\<lambda>m y. if pair_less m y then y else m) x ys \<in> set (x # ys) \<and>
      (\<forall>z \<in> set (x # ys). \<not> pair_less (foldl (\<lambda>m y. if pair_less m y then y else m) x ys) z)"
  proof (induction ys rule: rev_induct)
    case Nil
    then show ?case by (simp add: pair_less_def)
  next
    case (snoc y ys)
    then show ?case by (auto simp: pair_less_def)
  qed
  then show ?thesis by (simp add: max_element_def xs)
qed

lemma list_all2_right: "list_all2 P xs ys \<Longrightarrow> y \<in> set ys \<Longrightarrow> \<exists>x \<in> set xs. P x y"
  by (induction rule: list_all2_induct) auto

lemma mapS_length: "mapS f xs s = Inr (ys, s') \<Longrightarrow> length ys = length xs"
  by (induction xs arbitrary: s ys) (auto simp: bindE_eq_Inr)

subsection \<open>What the node computes\<close>

definition masked :: "bool list \<Rightarrow> bool list \<Rightarrow> bool list" where
  "masked bs vb = map2 (\<and>) bs vb"

lemma length_masked [simp]: "length (masked bs vb) = min (length bs) (length vb)"
  by (simp add: masked_def)

text \<open>The number of records of the node \<open>bs\<close> in class \<open>tb\<close>; the class most of them belong to, the last of several.\<close>

definition class_count :: "bool list \<Rightarrow> bool list \<Rightarrow> nat" where
  "class_count bs tb = count_true (masked tb bs)"

definition majority :: "bool list list \<Rightarrow> bool list \<Rightarrow> nat \<Rightarrow> bool" where
  "majority tbs bs m \<longleftrightarrow> m < length tbs \<and> (\<forall>i < length tbs. class_count bs (tbs ! i) < class_count bs (tbs ! m) \<or>
     class_count bs (tbs ! i) = class_count bs (tbs ! m) \<and> i \<le> m)"

text \<open>
  The quotient of \<open>calcGini\<close> for the records \<open>vb\<close> of one value: with \<open>q\<close> the sum of the squares of the class counts and \<open>c\<close> their sum it is
  \<open>q / (8 c + 1)\<close>, computed with an error from masking.
\<close>

definition split_squares :: "bool list list \<Rightarrow> bool list \<Rightarrow> bool list \<Rightarrow> int" where
  "split_squares tbs bs vb = sum_list (map (\<lambda>tb. int (class_count (masked bs vb) tb) * int (class_count (masked bs vb) tb)) tbs)"

definition split_total :: "bool list list \<Rightarrow> bool list \<Rightarrow> bool list \<Rightarrow> int" where
  "split_total tbs bs vb = sum_list (map (\<lambda>tb. int (class_count (masked bs vb) tb)) tbs)"

definition gini_close :: "nat \<Rightarrow> bool list list \<Rightarrow> bool list \<Rightarrow> bool list \<Rightarrow> rat \<Rightarrow> bool" where
  "gini_close n tbs bs vb d \<longleftrightarrow>
     (let q = split_squares tbs bs vb; k = 8 * split_total tbs bs vb + 1
      in \<bar>d * of_int shift * of_int k - of_int (q * shift)\<bar> \<le> of_int (k * (601 + 999 * int n * q)))"

lemma masked_assoc: "masked (masked tb bs) vb = masked tb (masked bs vb)"
proof -
  have "map2 (\<and>) (map2 (\<and>) tb bs) vb = map2 (\<and>) tb (map2 (\<and>) bs vb)"
    by (rule nth_equalityI) auto
  then show ?thesis by (simp add: masked_def)
qed

definition class_bits :: "nat \<Rightarrow> nat \<Rightarrow> bool list list \<Rightarrow> fp list list list \<Rightarrow> bool" where
  "class_bits n N tbs vss \<longleftrightarrow> list_all2 (\<lambda>tb vs. bit_shares n tb vs \<and> length tb = N) tbs vss"

lemma wpS_splitTransaction:
  assumes "wf_world P T J n sp w" "bit_shares n bs Ts" "length bs = N" "class_bits n N tbs targets"
    and post: "\<And>U w'. wf_world P T J n sp w' \<Longrightarrow> w_ok w' = w_ok w \<Longrightarrow>
      class_bits n N (map (\<lambda>tb. masked tb bs) tbs) U \<Longrightarrow> Q U w'"
  shows "wpS E Q (splitTransaction Ts targets) w"
  unfolding splitTransaction_def
proof (rule wpS_mapS [where I = "\<lambda>w'. wf_world P T J n sp w' \<and> w_ok w' = w_ok w" and
      R = "\<lambda>t u. \<forall>tb. bit_shares n tb t \<and> length tb = N \<longrightarrow> bit_shares n (masked tb bs) u"])
  fix t w1 assume t: "t \<in> set targets" and w1: "wf_world P T J n sp w1 \<and> w_ok w1 = w_ok w"
  from t assms(4) obtain tb where tb: "bit_shares n tb t" "length tb = N"
    unfolding class_bits_def by (auto dest: list_all2_right)
  note uniq = bits_unique [OF _ tb(1)]
  show "wpS E (\<lambda>u w'. (wf_world P T J n sp w' \<and> w_ok w' = w_ok w) \<and>
      (\<forall>tb. bit_shares n tb t \<and> length tb = N \<longrightarrow> bit_shares n (masked tb bs) u)) (fp_vec_mult t Ts) w1"
    by (rule wpS_bits_mult [OF conjunct1 [OF w1] tb(1) assms(2)])
      (use tb(2) assms(3) w1 in \<open>auto simp: masked_def dest: uniq\<close>)
next
  fix U w' assume w': "wf_world P T J n sp w' \<and> w_ok w' = w_ok w"
    and U: "list_all2 (\<lambda>t u. \<forall>tb. bit_shares n tb t \<and> length tb = N \<longrightarrow> bit_shares n (masked tb bs) u) targets U"
  have "class_bits n N (map (\<lambda>tb. masked tb bs) tbs) U"
    using U assms(3,4) unfolding class_bits_def by (auto simp: list_all2_conv_all_nth)
  with w' show "Q U w'" by (intro post) simp_all
qed (use assms(1) in simp)

lemma wpS_majorityClass:
  assumes "wf_world P T J n sp w" "boost_ok F" "N \<le> 10 ^ 10" "class_bits n N (map (\<lambda>tb. masked tb bs) tbs) U" "tbs \<noteq> []"
    and post: "\<And>m. majority tbs bs m \<Longrightarrow> Q (getConstantShare n sp (fp_of_int (int m))) w"
  shows "wpS E Q (majorityClass F U) w"
proof -
  have sp: "w_sp w = sp" "n_parties w = n"
    using assms(1) by (auto simp: wf_world_def n_parties_def)
  let ?b = "map (\<lambda>(index, u). (dtrunc (fp_getDoubleVal F (recons (sum_share n u))), int index)) (zip [0..<length U] U)"
  have len: "length U = length tbs"
    using assms(4) by (auto simp: class_bits_def dest: list_all2_lengthD)
  have "?b = map (\<lambda>i. (int (class_count bs (tbs ! i)), int i)) [0..<length tbs]"
  proof (rule nth_equalityI)
    fix i assume "i < length ?b"
    then have i: "i < length tbs" using len by simp
    then have u: "bit_shares n (masked (tbs ! i) bs) (U ! i)" "length (masked (tbs ! i) bs) = N"
      using assms(4) by (auto simp: class_bits_def list_all2_conv_all_nth)
    have "count_true (masked (tbs ! i) bs) \<le> 10 ^ 10"
      using count_true_le [of "masked (tbs ! i) bs"] u(2) assms(3) by (metis order_trans)
    from count_double [OF assms(2) this] have "dtrunc (fp_getDoubleVal F (recons (sum_share n (U ! i)))) = int (class_count bs (tbs ! i))"
      unfolding fsec_bits_sum(1) [OF u(1)] class_count_def .
    with i len show "?b ! i = map (\<lambda>i. (int (class_count bs (tbs ! i)), int i)) [0..<length tbs] ! i"
      by simp
  qed (simp add: len)
  moreover have "?b \<noteq> []" using assms(5) len by auto
  ultimately obtain m where m: "m < length tbs" "max_element pair_less ?b = Inr (int (class_count bs (tbs ! m)), int m)"
    "\<forall>i < length tbs. \<not> pair_less (int (class_count bs (tbs ! m)), int m) (int (class_count bs (tbs ! i)), int i)"
    using max_element_pair [of ?b] by auto
  then have "majority tbs bs m"
    by (fastforce simp: majority_def pair_less_def not_less)
  with m(2) post sp show ?thesis
    by (simp add: majorityClass_def)
qed

subsection \<open>Quality of a split\<close>

lemma sum_squares_le: "\<forall>c \<in> set cs. 0 \<le> c \<Longrightarrow> sum_list (map (\<lambda>c. c * c) cs) \<le> sum_list cs * (sum_list cs :: int)"
proof (induction cs)
  case (Cons c cs)
  then have "0 \<le> c" "0 \<le> sum_list cs" by (auto intro: sum_list_nonneg)
  then have "0 \<le> c * sum_list cs" by simp
  with Cons show ?case by (simp add: algebra_simps)
qed simp

lemma wpS_gini_of:
  assumes w: "wf_world P T J n sp w" and F: "boost_ok F" and n: "n \<le> 100" and N: "N * length tbs \<le> 10 ^ 5"
    and U: "class_bits n N (map (\<lambda>tb. masked tb bs) tbs) U" and s: "bit_shares n vb s" "length vb = N"
    and post: "\<And>z w'. wf_world P T J n sp w' \<Longrightarrow> w_ok w' = w_ok w \<Longrightarrow>
      gini_close n tbs bs vb (fp_getDoubleVal F (recons z)) \<Longrightarrow> Q z w'"
  shows "wpS E Q (gini_of F U s) w"
proof -
  let ?cs = "map (\<lambda>tb. int (class_count (masked bs vb) tb)) tbs"
  let ?k = "8 * split_total tbs bs vb + 1" and ?q = "split_squares tbs bs vb"
  have len: "length U = length tbs"
    using U by (auto simp: class_bits_def dest: list_all2_lengthD)
  have cs: "\<forall>c \<in> set ?cs. \<bar>c\<bar> \<le> int N"
  proof
    fix c assume "c \<in> set ?cs"
    then obtain tb where "c = int (class_count (masked bs vb) tb)" by auto
    moreover have "class_count (masked bs vb) tb \<le> N"
      using count_true_le [of "masked tb (masked bs vb)"] s(2) by (simp add: class_count_def)
    ultimately show "\<bar>c\<bar> \<le> int N" by simp
  qed
  have "\<bar>sum_list ?cs\<bar> \<le> int N * int (length ?cs)"
    by (rule sum_list_bound [OF cs])
  moreover have "int (N * length tbs) \<le> int (10 ^ 5)" using N by (rule of_nat_mono)
  moreover have "0 \<le> sum_list ?cs" by (intro sum_list_nonneg) auto
  ultimately have t: "0 \<le> split_total tbs bs vb" "split_total tbs bs vb \<le> 10 ^ 5"
    by (simp_all add: split_total_def)
  have "?q \<le> split_total tbs bs vb * split_total tbs bs vb"
    using sum_squares_le [of ?cs] by (simp add: split_squares_def split_total_def comp_def)
  also have "\<dots> \<le> 10 ^ 5 * 10 ^ 5"
    using t by (intro mult_mono) auto
  finally have q2: "?q \<le> 10 ^ 10" by simp
  have "0 \<le> ?q"
    unfolding split_squares_def by (rule sum_list_nonneg) auto
  note q = this q2
  have sp: "w_sp w = sp" "n_parties w = n" "sp < n"
    using w by (auto simp: wf_world_def n_parties_def)
  have wsp: "w_sp w' = sp" "n_parties w' = n" if "wf_world P T J n sp w'" for w'
    using that by (auto simp: wf_world_def n_parties_def)
  show ?thesis
    unfolding gini_of_def wpS_withW wpS_bindS sp(1,2)
  proof (rule wpS_mapS [where I = "\<lambda>w'. wf_world P T J n sp w' \<and> w_ok w' = w_ok w" and
        R = "\<lambda>u x. \<forall>ub. bit_shares n ub u \<and> length ub = N \<longrightarrow> length x = n \<and> fsec x = int (count_true (masked ub vb)) * shift"])
    fix u w1 assume u: "u \<in> set U" and w1: "wf_world P T J n sp w1 \<and> w_ok w1 = w_ok w"
    from u U obtain ub where ub: "bit_shares n ub u" "length ub = N"
      unfolding class_bits_def by (auto dest: list_all2_right)
    note uniq = bits_unique [OF _ ub(1)]
    show "wpS E (\<lambda>x w'. (wf_world P T J n sp w' \<and> w_ok w' = w_ok w) \<and>
        (\<forall>ub. bit_shares n ub u \<and> length ub = N \<longrightarrow> length x = n \<and> fsec x = int (count_true (masked ub vb)) * shift)) (dot u s) w1"
      unfolding dot_def wpS_withW wpS_bindS wpS_retS wsp(2) [OF conjunct1 [OF w1]]
      by (rule wpS_bits_mult [OF conjunct1 [OF w1] ub(1) s(1)])
        (use ub(2) s(2) w1 in \<open>auto simp: masked_def fsec_bits_sum dest!: uniq\<close>)
  next
    fix x w1 assume w1: "wf_world P T J n sp w1 \<and> w_ok w1 = w_ok w"
      and x: "list_all2 (\<lambda>u x. \<forall>ub. bit_shares n ub u \<and> length ub = N \<longrightarrow> length x = n \<and> fsec x = int (count_true (masked ub vb)) * shift) U x"
    have xl: "length x = length tbs" using x len by (auto dest: list_all2_lengthD)
    have xi: "length (x ! i) = n \<and> fsec (x ! i) = ?cs ! i * shift" if i: "i < length tbs" for i
    proof -
      have "bit_shares n (masked (tbs ! i) bs) (U ! i) \<and> length (masked (tbs ! i) bs) = N"
        using list_all2_nthD [OF U [unfolded class_bits_def], of i] i by (simp del: length_masked)
      moreover have "i < length U" using i len by simp
      ultimately have "length (x ! i) = n \<and> fsec (x ! i) = int (count_true (masked (masked (tbs ! i) bs) vb)) * shift"
        using list_all2_nthD [OF x] by blast
      then show ?thesis
        using i by (simp add: masked_assoc class_count_def)
    qed
    have xn: "\<forall>v \<in> set x. length v = n"
      using xi xl by (auto simp: in_set_conv_nth)
    have sx: "map fsec x = map (\<lambda>c. c * shift) ?cs"
      using xi xl by (intro nth_equalityI) auto
    have X: "length (sum_share n x) = n" "fsec (sum_share n x) = split_total tbs bs vb * shift"
      using fold_add [OF xn, of "replicate n 0"] unfolding sum_share_def
      by (simp_all add: share_simps sx split_total_def sum_list_mult_const del: map_map)
    show "wpS E (\<lambda>xx. wpS E Q (let y = share_addc sp (share_scale (fp_of_int 8) (sum_share n x)) (fp_of_int 1)
        in fp_share_div (decs F) (sum_share n xx) y)) (fp_vec_mult x x) w1"
    proof (rule wpS_fp_vec_mult [OF conjunct1 [OF w1] refl xn xn])
      fix xx w2 assume w2: "wf_world P T J n sp w2" "w_ok w2 = w_ok w1" and xx: "length xx = length x"
        "\<forall>i < length x. length (xx ! i) = n \<and> \<bar>shift * fsec (xx ! i) - fsec (x ! i) * fsec (x ! i)\<bar> < shift"
      have xxi: "length (xx ! i) = n \<and> fsec (xx ! i) = ?cs ! i * ?cs ! i * shift" if i: "i < length tbs" for i
      proof -
        have "fsec (xx ! i) = ?cs ! i * shift * ?cs ! i"
          using xx(2) xi [OF i] i xl by (intro exact_product) (auto simp: mult_ac)
        with xx(2) i xl show ?thesis by (simp add: mult_ac)
      qed
      have xxn: "\<forall>v \<in> set xx. length v = n"
        using xxi xx(1) xl by (auto simp: in_set_conv_nth)
      have sxx: "map fsec xx = map (\<lambda>c. c * c * shift) ?cs"
        using xxi xx(1) xl by (intro nth_equalityI) auto
      have XX: "length (sum_share n xx) = n" "fsec (sum_share n xx) = ?q * shift"
        using fold_add [OF xxn, of "replicate n 0"] unfolding sum_share_def
        by (simp_all add: share_simps sxx split_squares_def sum_list_mult_const comp_def del: map_map) (simp add: comp_def)
      let ?y = "share_addc sp (share_scale (fp_of_int 8) (sum_share n x)) (fp_of_int 1)"
      have y: "length ?y = n" "fsec ?y = ?k * shift"
        using X sp(3) by (simp_all add: share_simps) (simp add: fp_of_int_def algebra_simps)
      have y40: "\<bar>fsec ?y\<bar> \<le> 10 ^ 40"
        using t by (simp add: y(2) shift_eq)
      have "wpS E Q (fp_share_div (decs F) (sum_share n xx) ?y) w2"
      proof (rule wpS_fp_share_div [OF w2(1) F n XX(1) y(1) below_div_range [OF y40]])
        fix z w3 assume w3: "wf_world P T J n sp w3" "w_ok w3 = w_ok w2"
          and z: "length z = n" "div_error n (fsec (sum_share n xx)) (fsec ?y) (fsec z)"
        have kp: "0 < ?k" using t by simp
        then have "shift * \<bar>fsec z * (?k * shift) - ?q * shift * shift\<bar> \<le> \<bar>?k * shift\<bar> * (shift + 999 * int n * \<bar>?q * shift\<bar>)"
          using z(2) unfolding div_error_def y(2) XX(2) by simp
        moreover have "fsec z * (?k * shift) - ?q * shift * shift = (fsec z * ?k - ?q * shift) * shift"
          by (simp add: algebra_simps)
        moreover have "\<bar>?k * shift\<bar> * (shift + 999 * int n * \<bar>?q * shift\<bar>) = ?k * (1 + 999 * int n * ?q) * (shift * shift)"
          using kp q(1) by (simp add: abs_mult algebra_simps)
        ultimately have "\<bar>fsec z * ?k - ?q * shift\<bar> * (shift * shift) \<le> ?k * (1 + 999 * int n * ?q) * (shift * shift)"
          by (simp only: abs_mult) (simp add: mult_ac)
        then have e: "\<bar>fsec z * ?k - ?q * shift\<bar> \<le> ?k * (1 + 999 * int n * ?q)"
          by (rule mult_right_le_imp_le) simp
        have n': "int n \<le> 100" using n by simp
        have "\<bar>fsec z\<bar> * ?k = \<bar>fsec z * ?k\<bar>" using kp by (simp add: abs_mult)
        also have "\<dots> \<le> \<bar>fsec z * ?k - ?q * shift\<bar> + \<bar>?q * shift\<bar>" by linarith
        also have "\<dots> \<le> ?k * (1 + 999 * int n * ?q) + ?q * shift * ?k"
        proof (rule add_mono [OF e])
          have qs: "0 \<le> ?q * shift" using q(1) by simp
          have "?q * shift * 1 \<le> ?q * shift * ?k"
            by (rule mult_left_mono [OF _ qs]) (use kp in simp)
          with qs show "\<bar>?q * shift\<bar> \<le> ?q * shift * ?k" by simp
        qed
        also have "\<dots> = (1 + 999 * int n * ?q + ?q * shift) * ?k"
          by (simp add: algebra_simps)
        finally have "\<bar>fsec z\<bar> \<le> 1 + 999 * int n * ?q + ?q * shift"
          using kp by (rule mult_right_le_imp_le)
        moreover have "999 * int n * ?q \<le> 99900 * 10 ^ 10"
          using n' q by (intro mult_mono) auto
        ultimately have "\<bar>fsec z\<bar> \<le> 2 ^ 34 * shift"
          using q by (simp add: shift_eq)
        from fp_getDoubleVal_close [OF F this]
        have d: "\<bar>fp_getDoubleVal F (recons z) * of_int shift - of_int (fsec z)\<bar> \<le> 600"
          by (metis fp.collapse fpVal_recons)
        define D where "D = fp_getDoubleVal F (recons z) * of_int shift"
        have kr: "0 < (of_int ?k :: rat)" using kp by (simp only: of_int_0_less_iff)
        have A: "\<bar>(D - of_int (fsec z)) * of_int ?k\<bar> \<le> 600 * of_int ?k"
          using d kr unfolding abs_mult D_def by (intro mult_mono) auto
        have B: "\<bar>of_int (fsec z * ?k - ?q * shift) :: rat\<bar> \<le> of_int (?k * (1 + 999 * int n * ?q))"
          by (rule of_int_abs_le [OF e])
        have "D * of_int ?k - of_int (?q * shift) = (D - of_int (fsec z)) * of_int ?k + of_int (fsec z * ?k - ?q * shift)"
          by (simp add: algebra_simps)
        then have "\<bar>D * of_int ?k - of_int (?q * shift)\<bar> \<le> 600 * of_int ?k + of_int (?k * (1 + 999 * int n * ?q))"
          using abs_triangle_ineq [of "(D - of_int (fsec z)) * of_int ?k" "of_int (fsec z * ?k - ?q * shift)"] add_mono [OF A B] by simp
        also have "\<dots> = of_int (?k * (601 + 999 * int n * ?q))"
          by (simp add: algebra_simps)
        finally have "gini_close n tbs bs vb (fp_getDoubleVal F (recons z))"
          unfolding gini_close_def Let_def D_def .
        then show "Q z w3"
          using w1 w2 w3 by (intro post) simp_all
      qed
      then show "wpS E Q (let y = ?y in fp_share_div (decs F) (sum_share n xx) y) w2"
        by (simp only: Let_def)
    qed
  qed (use w in simp)
qed

end
