(* ===== verification/SidTree.thy ===== *)
theory SidTree
  imports Sid3
begin

section \<open>Trees built and read by the SID3 component\<close>

text \<open>
  What \<open>SID3::createTree\<close> promises: an abstract description \<open>sid3_tree\<close> of the trees over clear bits, the lemma that the protocol on
  shares builds such a tree, and the walk \<open>predict\<close> computes on a one-hot record.
\<close>

subsection \<open>The best split\<close>

definition data_bits :: "nat \<Rightarrow> nat \<Rightarrow> bool list list list \<Rightarrow> fp list list list list \<Rightarrow> bool" where
  "data_bits n N Sb S \<longleftrightarrow> list_all2 (class_bits n N) Sb S"

definition split_list :: "nat list \<Rightarrow> rat list list \<Rightarrow> (rat \<times> int) list" where
  "split_list R Gs = concat (map2 (\<lambda>r gs. map (\<lambda>g. (g, int r)) gs) R Gs)"

text \<open>
  \<open>g\<close> and \<open>att\<close> are the largest of the qualities \<open>Gs\<close>, each within the error of the protocol, of the values of the attributes in
  \<open>R\<close>, and the attribute it belongs to; both are -1 if there is no value.
\<close>

definition best_split :: "nat \<Rightarrow> bool list list \<Rightarrow> bool list list list \<Rightarrow> bool list \<Rightarrow> nat list \<Rightarrow> rat \<Rightarrow> int \<Rightarrow> bool" where
  "best_split n tbs Sb bs R g att \<longleftrightarrow>
     (\<exists>Gs. list_all2 (\<lambda>r gs. list_all2 (gini_close n tbs bs) (Sb ! r) gs) R Gs \<and>
       (if split_list R Gs = [] then g = - 1 \<and> att = - 1
        else (g, att) \<in> set (split_list R Gs) \<and> (\<forall>x \<in> set (split_list R Gs). \<not> pair_less (g, att) x)))"

lemma split_list_mem:
  assumes "list_all2 (\<lambda>r gs. P r gs) R Gs" "(g, att) \<in> set (split_list R Gs)"
  shows "\<exists>r gs. r \<in> set R \<and> P r gs \<and> g \<in> set gs \<and> att = int r"
  using assms unfolding split_list_def by (induction rule: list_all2_induct) (simp, fastforce)

lemma best_split_attribute:
  assumes "best_split n tbs Sb bs R g att" "0 \<le> g"
  shows "\<exists>r \<in> set R. att = int r \<and> Sb ! r \<noteq> []"
proof -
  from assms obtain Gs where "list_all2 (\<lambda>r gs. list_all2 (gini_close n tbs bs) (Sb ! r) gs) R Gs"
    "(g, att) \<in> set (split_list R Gs)"
    unfolding best_split_def by (auto split: if_splits)
  from split_list_mem [OF this] show ?thesis by auto
qed

lemma all_bits:
  assumes "bit_shares n vb s" "length vb = N"
  shows "(\<forall>vb'. bit_shares n vb' s \<and> length vb' = N \<longrightarrow> P vb') \<longleftrightarrow> P vb"
  using bits_unique [OF _ assms(1)] assms by blast

lemma class_bits_trans:
  assumes "class_bits n N tbs vss" "list_all2 (\<lambda>vs x. \<forall>tb. bit_shares n tb vs \<and> length tb = N \<longrightarrow> P tb x) vss xs"
  shows "list_all2 P tbs xs"
  using assms unfolding class_bits_def by (simp add: list_all2_conv_all_nth)

lemma wpS_calcGini:
  assumes w: "wf_world P T J n sp w" and F: "boost_ok F" and n: "n \<le> 100" and N: "N * length tbs \<le> 10 ^ 5"
    and U: "class_bits n N (map (\<lambda>tb. masked tb bs) tbs) U" and S: "data_bits n N Sb S" and R: "\<forall>r \<in> set R. r < length Sb"
    and post: "\<And>Gs w'. wf_world P T J n sp w' \<Longrightarrow> w_ok w' = w_ok w \<Longrightarrow>
      list_all2 (\<lambda>r gs. list_all2 (gini_close n tbs bs) (Sb ! r) gs) R Gs \<Longrightarrow> Q (split_list R Gs) w'"
  shows "wpS E Q (calcGini F U S R) w"
  unfolding calcGini_def wpS_bindS
proof (rule wpS_mapS [where I = "\<lambda>w'. wf_world P T J n sp w' \<and> w_ok w' = w_ok w" and
      R = "\<lambda>r gs. list_all2 (\<lambda>vb g. gini_close n tbs bs vb (fp_getDoubleVal F (recons g))) (Sb ! r) gs"])
  fix r w1 assume r: "r \<in> set R" and w1: "wf_world P T J n sp w1 \<and> w_ok w1 = w_ok w"
  have lt: "r < length Sb" "length S = length Sb"
    using r R S by (auto simp: data_bits_def dest: list_all2_lengthD)
  have Sr: "class_bits n N (Sb ! r) (S ! r)"
    using list_all2_nthD [OF S [unfolded data_bits_def] lt(1)] .
  have "wpS E (\<lambda>gs w'. (wf_world P T J n sp w' \<and> w_ok w' = w_ok w) \<and>
      list_all2 (\<lambda>vb g. gini_close n tbs bs vb (fp_getDoubleVal F (recons g))) (Sb ! r) gs) (mapS (gini_of F U) (S ! r)) w1"
  proof (rule wpS_mapS [where I = "\<lambda>w'. wf_world P T J n sp w' \<and> w_ok w' = w_ok w" and
        R = "\<lambda>s g. \<forall>vb. bit_shares n vb s \<and> length vb = N \<longrightarrow> gini_close n tbs bs vb (fp_getDoubleVal F (recons g))"])
    fix s w2 assume s: "s \<in> set (S ! r)" and w2: "wf_world P T J n sp w2 \<and> w_ok w2 = w_ok w"
    from s Sr obtain vb where vb: "bit_shares n vb s" "length vb = N"
      unfolding class_bits_def by (auto dest: list_all2_right)
    show "wpS E (\<lambda>g w'. (wf_world P T J n sp w' \<and> w_ok w' = w_ok w) \<and>
        (\<forall>vb. bit_shares n vb s \<and> length vb = N \<longrightarrow> gini_close n tbs bs vb (fp_getDoubleVal F (recons g)))) (gini_of F U s) w2"
      unfolding all_bits [OF vb] by (rule wpS_gini_of [OF conjunct1 [OF w2] F n N U vb]) (use w2 in simp)
  next
    fix gs w' assume w': "wf_world P T J n sp w' \<and> w_ok w' = w_ok w" and
      gs: "list_all2 (\<lambda>s g. \<forall>vb. bit_shares n vb s \<and> length vb = N \<longrightarrow> gini_close n tbs bs vb (fp_getDoubleVal F (recons g))) (S ! r) gs"
    have "list_all2 (\<lambda>vb g. gini_close n tbs bs vb (fp_getDoubleVal F (recons g))) (Sb ! r) gs"
      by (rule class_bits_trans [OF Sr gs])
    with w' show "(wf_world P T J n sp w' \<and> w_ok w' = w_ok w) \<and>
      list_all2 (\<lambda>vb g. gini_close n tbs bs vb (fp_getDoubleVal F (recons g))) (Sb ! r) gs" ..
  qed (rule w1)
  then show "wpS E (\<lambda>gs w'. (wf_world P T J n sp w' \<and> w_ok w' = w_ok w) \<and>
      list_all2 (\<lambda>vb g. gini_close n tbs bs vb (fp_getDoubleVal F (recons g))) (Sb ! r) gs)
      (bindS (liftS (nth_or_ub S r)) (\<lambda>Sr. mapS (gini_of F U) Sr)) w1"
    using lt by (simp add: nth_or_ub_def)
next
  fix Gini w' assume w': "wf_world P T J n sp w' \<and> w_ok w' = w_ok w"
    and G: "list_all2 (\<lambda>r gs. list_all2 (\<lambda>vb g. gini_close n tbs bs vb (fp_getDoubleVal F (recons g))) (Sb ! r) gs) R Gini"
  let ?Gs = "map (map (\<lambda>g. fp_getDoubleVal F (recons g))) Gini"
  have "list_all2 (\<lambda>r gs. list_all2 (gini_close n tbs bs) (Sb ! r) gs) R ?Gs"
    using G by (simp add: list_all2_map2)
  moreover have "concat (map2 (\<lambda>r gs. map (\<lambda>g. (fp_getDoubleVal F (recons g), int r)) gs) R Gini) = split_list R ?Gs"
    by (simp add: split_list_def zip_map2 comp_def case_prod_unfold)
  ultimately show "wpS E Q (retS (concat (map2 (\<lambda>r gs. map (\<lambda>g. (fp_getDoubleVal F (recons g), int r)) gs) R Gini))) w'"
    using w' post by simp
qed (use w in simp)

lemma wpS_getMaxGini:
  assumes w: "wf_world P T J n sp w" and F: "boost_ok F" and n: "n \<le> 100" and N: "N * length tbs \<le> 10 ^ 5"
    and U: "class_bits n N (map (\<lambda>tb. masked tb bs) tbs) U" and S: "data_bits n N Sb S" and R: "\<forall>r \<in> set R. r < length Sb"
    and post: "\<And>g att w'. wf_world P T J n sp w' \<Longrightarrow> w_ok w' = w_ok w \<Longrightarrow> best_split n tbs Sb bs R g att \<Longrightarrow> Q (g, att) w'"
  shows "wpS E Q (getMaxGini F U S R) w"
  unfolding getMaxGini_def wpS_bindS
proof (rule wpS_calcGini [OF w F n N U S R])
  fix Gs w' assume w': "wf_world P T J n sp w'" "w_ok w' = w_ok w"
    and Gs: "list_all2 (\<lambda>r gs. list_all2 (gini_close n tbs bs) (Sb ! r) gs) R Gs"
  show "wpS E Q (if split_list R Gs = [] then retS (- 1, - 1) else liftS (max_element pair_less (split_list R Gs))) w'"
  proof (cases "split_list R Gs = []")
    case True
    then show ?thesis
      using Gs by (auto intro!: post [OF w'] simp: best_split_def)
  next
    case False
    then obtain m where m: "max_element pair_less (split_list R Gs) = Inr m" "m \<in> set (split_list R Gs)"
      "\<forall>x \<in> set (split_list R Gs). \<not> pair_less m x"
      using max_element_pair by blast
    then have "best_split n tbs Sb bs R (fst m) (snd m)"
      unfolding best_split_def by (intro exI [of _ Gs]) (use Gs False in simp)
    from post [OF w' this] m(1) False show ?thesis by simp
  qed
qed

subsection \<open>Building\<close>

text \<open>
  The tree of the records \<open>bs\<close> with the attributes \<open>R\<close> left: it holds the number of records, the majority class and a best split. It is a
  leaf if no attribute is left, if the node holds at most half of all \<open>N\<close> records or if the quality of the split is at most \<open>eps\<close>;
  otherwise it has one child for each value of the chosen attribute, with the records that have the value and without the attribute.
\<close>

definition stops :: "nat \<Rightarrow> nat list \<Rightarrow> int \<Rightarrow> rat \<Rightarrow> bool" where
  "stops N R sz g \<longleftrightarrow> R = [] \<or> sz \<le> int (N div 2) \<or> g \<le> eps"

inductive sid3_tree :: "nat \<Rightarrow> nat \<Rightarrow> nat \<Rightarrow> bool list list \<Rightarrow> bool list list list \<Rightarrow> bool list \<Rightarrow> nat list \<Rightarrow> sid3 \<Rightarrow> bool"
  for n sp N tbs Sb where
  leaf: "majority tbs bs m \<Longrightarrow> best_split n tbs Sb bs R g att \<Longrightarrow> stops N R (int (count_true bs)) g \<Longrightarrow>
    sid3_tree n sp N tbs Sb bs R (SID3 g (int (count_true bs)) att (getConstantShare n sp (fp_of_int (int m))) [])"
| inner: "majority tbs bs m \<Longrightarrow> best_split n tbs Sb bs R g att \<Longrightarrow> \<not> stops N R (int (count_true bs)) g \<Longrightarrow>
    list_all2 (\<lambda>vb c. sid3_tree n sp N tbs Sb (masked bs vb) (filter (\<lambda>r. int r \<noteq> att) R) c) (Sb ! nat att) cs \<Longrightarrow>
    sid3_tree n sp N tbs Sb bs R (SID3 g (int (count_true bs)) att (getConstantShare n sp (fp_of_int (int m))) cs)"

lemma eps_pos: "0 < eps"
  using rnd_close [of "1 / 1000000"] by (auto simp: eps_def abs_if split: if_splits)

lemma is_leaf_stops:
  assumes "length T = N" "N \<le> 10 ^ 5" "c \<le> N"
  shows "is_leaf T R (int c) g = stops N R (int c) g"
proof -
  have "c \<le> 10 ^ 5" using assms(2,3) by simp
  then have "int c mod 2 ^ 32 = int c" by simp
  then show ?thesis using assms(1) by (auto simp: is_leaf_def stops_def)
qed

lemma length_class_bits: "class_bits n N tbs vss \<Longrightarrow> tb \<in> set tbs \<Longrightarrow> length tb = N"
  unfolding class_bits_def by (auto simp: list_all2_conv_all_nth in_set_conv_nth)

lemma wpS_children:
  assumes w: "wf_world P T J n sp w" and Ts: "bit_shares n bs Ts" "length bs = N" and vss: "class_bits n N vbs vss"
    and step: "\<And>vb T' w'. wf_world P T J n sp w' \<Longrightarrow> bit_shares n (masked bs vb) T' \<Longrightarrow> length (masked bs vb) = N \<Longrightarrow>
      wpS E (\<lambda>t w''. (wf_world P T J n sp w'' \<and> w_ok w'' = w_ok w') \<and> R vb t) (f T') w'"
    and post: "\<And>cs w'. wf_world P T J n sp w' \<Longrightarrow> w_ok w' = w_ok w \<Longrightarrow> list_all2 R vbs cs \<Longrightarrow> Q cs w'"
  shows "wpS E Q (mapS (\<lambda>s. bindS (fp_vec_mult Ts s) f) vss) w"
proof (rule wpS_mapS [where I = "\<lambda>w'. wf_world P T J n sp w' \<and> w_ok w' = w_ok w" and
      R = "\<lambda>s t. \<forall>vb. bit_shares n vb s \<and> length vb = N \<longrightarrow> R vb t"])
  fix s w1 assume s: "s \<in> set vss" and w1: "wf_world P T J n sp w1 \<and> w_ok w1 = w_ok w"
  from s vss obtain vb where vb: "bit_shares n vb s" "length vb = N"
    unfolding class_bits_def by (auto dest: list_all2_right)
  show "wpS E (\<lambda>t w'. (wf_world P T J n sp w' \<and> w_ok w' = w_ok w) \<and>
      (\<forall>vb. bit_shares n vb s \<and> length vb = N \<longrightarrow> R vb t)) (bindS (fp_vec_mult Ts s) f) w1"
    unfolding all_bits [OF vb] wpS_bindS
  proof (rule wpS_bits_mult [OF conjunct1 [OF w1] Ts(1) vb(1)])
    fix T' w2 assume w2: "wf_world P T J n sp w2" "w_ok w2 = w_ok w1" and T': "bit_shares n (map2 (\<and>) bs vb) T'"
    show "wpS E (\<lambda>t w'. (wf_world P T J n sp w' \<and> w_ok w' = w_ok w) \<and> R vb t) (f T') w2"
      using step [OF w2(1) T' [folded masked_def]] w1 w2 Ts(2) vb(2) by simp
  qed (use Ts(2) vb(2) in simp)
next
  fix cs w' assume w': "wf_world P T J n sp w' \<and> w_ok w' = w_ok w"
    and cs: "list_all2 (\<lambda>s t. \<forall>vb. bit_shares n vb s \<and> length vb = N \<longrightarrow> R vb t) vss cs"
  show "Q cs w'"
    using class_bits_trans [OF vss cs] w' by (intro post) simp_all
qed (use w in simp)

lemma wpS_createTree:
  assumes F: "boost_ok F" and n: "n \<le> 100" and N: "N * length tbs \<le> 10 ^ 5" and tbs: "tbs \<noteq> []" and targets: "class_bits n N tbs targets"
    and S: "data_bits n N Sb S"
  shows "wf_world P T J n sp w \<Longrightarrow> bit_shares n bs Ts \<Longrightarrow> length bs = N \<Longrightarrow> \<forall>r \<in> set R. r < length Sb \<Longrightarrow> length R < fuel \<Longrightarrow>
    (\<And>t w'. wf_world P T J n sp w' \<Longrightarrow> w_ok w' = w_ok w \<Longrightarrow> sid3_tree n sp N tbs Sb bs R t \<Longrightarrow> Q t w') \<Longrightarrow>
    wpS E Q (createTree F fuel Ts S targets R) w"
proof (induction fuel arbitrary: Ts bs R w Q)
  case (Suc fuel)
  note w = Suc.prems(1) and T = Suc.prems(2,3) and R = Suc.prems(4) and fuel = Suc.prems(5) and post = Suc.prems(6)
  have "1 \<le> length tbs" using tbs by (simp add: Suc_le_eq)
  from order_trans [OF mult_le_mono2 [OF this, of N] N] have N5: "N \<le> 10 ^ 5" "N \<le> 10 ^ 10" by simp_all
  have sp: "n_parties w = n" using w by (auto simp: wf_world_def n_parties_def)
  let ?c = "count_true bs" and ?R = "\<lambda>att. filter (\<lambda>r. int r \<noteq> att) R"
  have lenT: "length Ts = N" using bit_sharesD(1) [OF T(1)] T(2) by simp
  have sz: "dataSize F n Ts = int ?c"
    using N5 T by (intro dataSize_bits [OF F T(1)]) simp
  have "?c \<le> N" using count_true_le [of bs] T(2) by simp
  note leaf_iff = is_leaf_stops [OF lenT N5(1) this]
  show ?case
    unfolding createTree.simps wpS_withW Let_def sp sz wpS_bindS
  proof (rule wpS_splitTransaction [OF w T targets], rule wpS_majorityClass [OF _ F N5(2) _ tbs], assumption, assumption,
      rule wpS_getMaxGini [OF _ F n N _ S R], assumption, assumption, unfold prod.case)
    fix U w1 m g att w2 assume w1: "w_ok w1 = w_ok w" and m: "majority tbs bs m"
      and w2: "wf_world P T J n sp w2" "w_ok w2 = w_ok w1" and best: "best_split n tbs Sb bs R g att"
    let ?y = "getConstantShare n sp (fp_of_int (int m))"
    show "wpS E Q (if is_leaf Ts R (int ?c) g then retS (SID3 g (int ?c) att ?y [])
      else bindS (liftS (if att < 0 then Inl UndefinedBehaviour else nth_or_ub S (nat att))) (\<lambda>Sa.
        bindS (mapS (\<lambda>s. bindS (fp_vec_mult Ts s) (\<lambda>T'. createTree F fuel T' S targets (?R att))) Sa)
        (\<lambda>cs. retS (SID3 g (int ?c) att ?y cs)))) w2"
    proof (cases "stops N R (int ?c) g")
      case True
      with leaf_iff post [OF w2(1) _ sid3_tree.leaf [OF m best True]] w1 w2 show ?thesis by simp
    next
      case False
      then have "0 \<le> g" using eps_pos by (simp add: stops_def)
      from best_split_attribute [OF best this] obtain r where r: "r \<in> set R" "att = int r" by auto
      have lt: "r < length Sb" "length S = length Sb"
        using r R S by (auto simp: data_bits_def dest: list_all2_lengthD)
      have R': "\<forall>r \<in> set (?R att). r < length Sb" "length (?R att) < fuel"
        using R length_filter_less [of r R "\<lambda>r'. int r' \<noteq> att"] r fuel by auto
      have "wpS E (\<lambda>cs. wpS E Q (retS (SID3 g (int ?c) att ?y cs)))
          (mapS (\<lambda>s. bindS (fp_vec_mult Ts s) (\<lambda>T'. createTree F fuel T' S targets (?R att))) (S ! r)) w2"
      proof (rule wpS_children [OF w2(1) T list_all2_nthD [OF S [unfolded data_bits_def] lt(1)],
            where R = "\<lambda>vb. sid3_tree n sp N tbs Sb (masked bs vb) (?R att)"])
        fix cs w' assume "wf_world P T J n sp w'" "w_ok w' = w_ok w2"
          "list_all2 (\<lambda>vb. sid3_tree n sp N tbs Sb (masked bs vb) (?R att)) (Sb ! r) cs"
        with sid3_tree.inner [OF m best False, where cs = cs] post w1 w2 r(2) show "wpS E Q (retS (SID3 g (int ?c) att ?y cs)) w'" by simp
      qed (rule Suc.IH [OF _ _ _ R'], simp_all)
      with False leaf_iff r(2) lt show ?thesis by (simp add: nth_or_ub_def)
    qed
  qed
qed simp

subsection \<open>The class of a record\<close>

text \<open>\<open>ks\<close> gives the value of each attribute of a record; the walk from the root follows them to a leaf.\<close>

fun sid3_walk :: "nat list \<Rightarrow> sid3 \<Rightarrow> fp list" where
  "sid3_walk ks (SID3 g sz att y cs) = (if cs = [] then y else map (sid3_walk ks) cs ! (ks ! nat att))"

definition restrict :: "bool list list list \<Rightarrow> nat list \<Rightarrow> bool list \<Rightarrow> nat list \<Rightarrow> bool list" where
  "restrict Sb ks bs as = foldl masked bs (map (\<lambda>a. Sb ! a ! (ks ! a)) as)"

lemma walk_majority:
  assumes "sid3_tree n sp N tbs Sb bs R t" and "list_all2 (\<lambda>k vbs. k < length vbs) ks Sb" "\<forall>r \<in> set R. r < length Sb"
  shows "\<exists>as m. distinct as \<and> set as \<subseteq> set R \<and> majority tbs (restrict Sb ks bs as) m \<and>
    sid3_walk ks t = getConstantShare n sp (fp_of_int (int m))"
  using assms
proof (induction rule: sid3_tree.induct)
  case (leaf bs m R g att)
  then show ?case by (intro exI [of _ "[]"] exI [of _ m]) (simp add: restrict_def)
next
  case (inner bs m R g att cs)
  from inner(3) have "0 \<le> g" using eps_pos by (simp add: stops_def)
  from best_split_attribute [OF inner(2) this] obtain r where r: "r \<in> set R" "att = int r" by auto
  let ?k = "ks ! r"
  have lt: "r < length Sb" using r inner(6) by auto
  then have k: "?k < length (Sb ! r)" using inner(5) by (auto simp: list_all2_conv_all_nth)
  have len: "length cs = length (Sb ! r)" using inner(4) r(2) by (auto dest: list_all2_lengthD)
  from list_all2_nthD [OF inner(4), of ?k] k r(2) inner(5,6) obtain as m' where
    "distinct as" "set as \<subseteq> set R - {r}" "majority tbs (restrict Sb ks (masked bs (Sb ! r ! ?k)) as) m'"
    "sid3_walk ks (cs ! ?k) = getConstantShare n sp (fp_of_int (int m'))"
    by auto
  then show ?case
    using r k len by (intro exI [of _ "r # as"] exI [of _ m']) (auto simp: restrict_def)
qed

fun fits :: "nat \<Rightarrow> nat list \<Rightarrow> fp list list list \<Rightarrow> sid3 \<Rightarrow> bool" where
  "fits n ks ds (SID3 g sz att y cs) \<longleftrightarrow> length y = n \<and> (cs \<noteq> [] \<longrightarrow> 0 \<le> att \<and> nat att < length ds \<and>
     ks ! nat att < length cs \<and> length cs \<le> length (ds ! nat att)) \<and> (\<forall>c \<in> set cs. fits n ks ds c)"

lemma sid3_tree_fits:
  assumes "sid3_tree n sp N tbs Sb bs R t" and "list_all2 (\<lambda>k vbs. k < length vbs) ks Sb" "\<forall>r \<in> set R. r < length Sb"
    and "list_all2 (\<lambda>d vbs. length d = length vbs) ds Sb"
  shows "fits n ks ds t"
  using assms
proof (induction rule: sid3_tree.induct)
  case (leaf bs m R g att)
  then show ?case by (simp add: share_simps)
next
  case (inner bs m R g att cs)
  from inner(3) have "0 \<le> g" using eps_pos by (simp add: stops_def)
  from best_split_attribute [OF inner(2) this] obtain r where r: "r \<in> set R" "att = int r" by auto
  have "r < length Sb" using r inner(6) by auto
  then have "ks ! r < length (Sb ! r)" "r < length ds" "length (ds ! r) = length (Sb ! r)"
    using inner(5,7) by (auto simp: list_all2_conv_all_nth)
  moreover have "length cs = length (Sb ! r)" using inner(4) r(2) by (auto dest: list_all2_lengthD)
  moreover have "\<forall>c \<in> set cs. fits n ks ds c"
    using inner(4-7) by (auto dest!: list_all2_right)
  ultimately show ?case using r(2) by (simp add: share_simps)
qed

definition one_hot :: "nat \<Rightarrow> nat \<Rightarrow> fp list list \<Rightarrow> bool" where
  "one_hot n k d \<longleftrightarrow> bit_shares n (map (\<lambda>j. j = k) [0..<length d]) d"

lemma one_hotD:
  assumes "one_hot n k d" "i < length d"
  shows "length (d ! i) = n" "fsec (d ! i) = of_bool (i = k) * shift"
  using assms unfolding one_hot_def bit_shares_def bit_share_def by (auto simp: list_all2_conv_all_nth)

lemma wpS_select:
  assumes "wf_world P T J n sp w" "one_hot n k d" "i < length d" "length p = n"
    and post: "\<And>z w'. wf_world P T J n sp w' \<Longrightarrow> length z = n \<Longrightarrow> fsec z = of_bool (i = k) * fsec p \<Longrightarrow> Q z w'"
  shows "wpS E Q (fp_share_mult (d ! i) p) w"
proof (rule wpS_fp_share_mult [OF assms(1) one_hotD(1) [OF assms(2,3)] assms(4)])
  fix z w' assume w': "wf_world P T J n sp w'" "length z = n" and z: "\<bar>shift * fsec z - fsec (d ! i) * fsec p\<bar> < shift"
  have "fsec z = of_bool (i = k) * fsec p"
    using z unfolding one_hotD(2) [OF assms(2,3)] by (intro bit_product) (simp add: mult_ac)
  then show "Q z w'" by (rule post [OF w'])
qed

lemma wpS_predict:
  shows "list_all2 (one_hot n) ks ds \<Longrightarrow> wf_world P T J n sp w \<Longrightarrow> fits n ks ds t \<Longrightarrow>
      (\<And>z w'. wf_world P T J n sp w' \<Longrightarrow> length z = n \<Longrightarrow> fsec z = fsec (sid3_walk ks t) \<Longrightarrow> Q z w') \<Longrightarrow>
      wpS E Q (sid3_predict ds t) w"
    and "list_all2 (one_hot n) ks ds \<Longrightarrow> wf_world P T J n sp w \<Longrightarrow> \<forall>c \<in> set cs. fits n ks ds c \<Longrightarrow> length ret = n \<Longrightarrow>
      one_hot n k av \<Longrightarrow> i + length cs \<le> length av \<Longrightarrow>
      (\<And>z w'. wf_world P T J n sp w' \<Longrightarrow> length z = n \<Longrightarrow>
        fsec z = fsec ret + (if i \<le> k \<and> k < i + length cs then fsec (sid3_walk ks (cs ! (k - i))) else 0) \<Longrightarrow> Q z w') \<Longrightarrow>
      wpS E Q (sid3_predict_children ds av i ret cs) w"
proof (induction ds t and ds av i ret cs arbitrary: w Q and w Q k rule: sid3_predict_sid3_predict_children.induct)
  case (1 data g sz att y cs)
  have sp: "n_parties w = n" using "1.prems"(2) by (auto simp: wf_world_def n_parties_def)
  show ?case
  proof (cases "cs = []")
    case True
    then show ?thesis using "1.prems" by simp
  next
    case False
    have h: "one_hot n (ks ! nat att) (data ! nat att)"
      using "1.prems"(1,3) False by (auto simp: list_all2_conv_all_nth)
    have "wpS E Q (sid3_predict_children data (data ! nat att) 0 (replicate (n_parties w) 0) cs) w"
      by (rule "1.IH" [OF False "1.prems"(1,2) _ _ h]) (use "1.prems"(3,4) False sp in \<open>auto simp: share_simps\<close>)
    then show ?thesis using "1.prems"(3) False by (simp add: nth_or_ub_def sp)
  qed
next
  case (2 data av index ret)
  then show ?case by simp
next
  case (3 data av index ret c cs)
  have i: "index < length av" using "3.prems"(6) by simp
  show ?case
    unfolding sid3_predict_children.simps wpS_bindS
  proof (rule "3.IH"(1) [OF "3.prems"(1,2)])
    fix p w1 assume w1: "wf_world P T J n sp w1" and p: "length p = n" "fsec p = fsec (sid3_walk ks c)"
    have "wpS E (\<lambda>bp. wpS E Q (sid3_predict_children data av (index + 1) (share_add ret bp) cs)) (fp_share_mult (av ! index) p) w1"
    proof (rule wpS_select [OF w1 "3.prems"(5) i p(1)])
      fix bp w2 assume w2: "wf_world P T J n sp w2" and bp: "length bp = n" "fsec bp = of_bool (index = k) * fsec p"
      have ret: "length (share_add ret bp) = n" "fsec (share_add ret bp) = fsec ret + of_bool (index = k) * fsec (sid3_walk ks c)"
        using "3.prems"(4) bp p by (simp_all add: share_simps)
      show "wpS E Q (sid3_predict_children data av (index + 1) (share_add ret bp) cs) w2"
      proof (rule "3.IH"(2) [OF "3.prems"(1) w2 _ ret(1) "3.prems"(5)])
        fix z w' assume w': "wf_world P T J n sp w'" "length z = n" and z: "fsec z = fsec (share_add ret bp) +
          (if index + 1 \<le> k \<and> k < index + 1 + length cs then fsec (sid3_walk ks (cs ! (k - (index + 1)))) else 0)"
        show "Q z w'"
          by (rule "3.prems"(7) [OF w']) (use z in \<open>auto simp: ret nth_Cons' Suc_le_eq\<close>)
      qed (use "3.prems" in auto)
    qed
    then show "wpS E (\<lambda>b. wpS E (\<lambda>bp. wpS E Q (sid3_predict_children data av (index + 1) (share_add ret bp) cs)) (fp_share_mult b p))
        (liftS (nth_or_ub av index)) w1"
      using i by (simp add: nth_or_ub_def)
  qed (use "3.prems"(3) in simp)
qed

subsection \<open>Properties\<close>

text \<open>
  C6. \<open>SID3::createTree\<close> on shares of one-hot bits, for up to 100 parties and \<open>10^5\<close> bits per target table, ends without undefined
  behaviour once the fuel exceeds the number of attributes, and the tree it builds is a SID3 tree of the clear bits: every node
  holds the exact number of its records, a class with the most records, and an attribute with a value of the largest
  quality, up to the error of the division protocol; a node stops by the three conditions of the code and otherwise has one
  child per value, for the records with this value and the remaining attributes.
\<close>

theorem createTree_correct:
  assumes "wf_world P T J n sp w" "boost_ok F" "n \<le> 100" "N * length tbs \<le> 10 ^ 5" "tbs \<noteq> []"
    and "class_bits n N tbs targets" "data_bits n N Sb S" "bit_shares n bs Ts" "length bs = N" "\<forall>r \<in> set R. r < length Sb" "length R < fuel"
  shows "\<exists>t w'. createTree F fuel Ts S targets R w = Inr (t, w') \<and> wf_world P T J n sp w' \<and> sid3_tree n sp N tbs Sb bs R t"
proof -
  have "wpS (\<lambda>_. False) (\<lambda>t w'. wf_world P T J n sp w' \<and> sid3_tree n sp N tbs Sb bs R t) (createTree F fuel Ts S targets R) w"
    by (rule wpS_createTree [OF assms(2-7,1,8-11)]) simp
  then show ?thesis unfolding wpS_total .
qed

text \<open>Two records, two classes, one attribute with two values; all records are in the first class.\<close>

definition demo_bit :: "bool \<Rightarrow> fp list" where
  "demo_bit b = [FP (of_bool b * 100000000 - 7), FP 7]"

lemma demo_bits: "bit_shares 2 bs (map demo_bit bs)"
  by (simp add: bit_shares_def bit_share_def demo_bit_def fsec_def shift_eq list_all2_map2 list_all2_same)

lemma demo_class_bits: "\<forall>tb \<in> set tbs. length tb = N \<Longrightarrow> class_bits 2 N tbs (map (map demo_bit) tbs)"
  by (simp add: class_bits_def list_all2_map2 list_all2_same demo_bits)

definition demo_targets :: "bool list list" where
  "demo_targets = [[True, True], [False, False]]"

definition demo_data :: "bool list list list" where
  "demo_data = [[[True, False], [False, True]]]"

lemma demo_tables:
  "class_bits 2 2 demo_targets (map (map demo_bit) demo_targets)"
  "data_bits 2 2 demo_data (map (map (map demo_bit)) demo_data)" "demo_targets \<noteq> []" "2 * length demo_targets \<le> 10 ^ 5"
proof -
  show "class_bits 2 2 demo_targets (map (map demo_bit) demo_targets)"
    by (rule demo_class_bits) (simp add: demo_targets_def)
  have "\<forall>tbs \<in> set demo_data. \<forall>tb \<in> set tbs. length tb = 2" by (simp add: demo_data_def)
  then show "data_bits 2 2 demo_data (map (map (map demo_bit)) demo_data)"
    unfolding data_bits_def list_all2_map2 list_all2_same by (auto intro: demo_class_bits)
qed (simp_all add: demo_targets_def)

theorem createTree_correct_witness:
  "\<exists>t w'. createTree ref_boost 2 (map demo_bit [True, True]) (map (map (map demo_bit)) demo_data)
      (map (map demo_bit) demo_targets) [0] demo_world = Inr (t, w') \<and> sid_size t = 2"
proof -
  have "\<forall>r \<in> set [0]. r < length demo_data" "length [0 :: nat] < 2" "length [True, True] = 2"
    by (simp_all add: demo_data_def)
  with createTree_correct [OF wf_demo_world boost_ok_ref _ demo_tables(4,3,1,2) demo_bits, of "[True, True]" "[0]" 2]
  obtain t w' where "createTree ref_boost 2 (map demo_bit [True, True]) (map (map (map demo_bit)) demo_data)
      (map (map demo_bit) demo_targets) [0] demo_world = Inr (t, w')" "sid3_tree 2 0 2 demo_targets demo_data [True, True] [0] t"
    by auto
  moreover from this(2) have "sid_size t = 2"
    by (auto elim!: sid3_tree.cases simp: count_true_def)
  ultimately show ?thesis by blast
qed

text \<open>
  Training and classification together: the tree built from shared one-hot bits, applied by \<open>SID3::predict\<close> to a shared one-hot
  record with value \<open>ks ! a\<close> of attribute \<open>a\<close>, gives shares of exactly the number of a class that is most frequent among the training
  records that agree with the record on the attributes of some list \<open>as\<close>, without repetition, of attributes of \<open>R\<close>. The products with
  the bits of the values not taken cancel without any error.
\<close>

theorem predict_correct:
  assumes "wf_world P T J n sp w" "boost_ok F" "n \<le> 100" "N * length tbs \<le> 10 ^ 5" "tbs \<noteq> []"
    and "class_bits n N tbs targets" "data_bits n N Sb S" "bit_shares n bs Ts" "length bs = N" "\<forall>r \<in> set R. r < length Sb" "length R < fuel"
    and "list_all2 (\<lambda>k vbs. k < length vbs) ks Sb" "list_all2 (one_hot n) ks ds" "list_all2 (\<lambda>d vbs. length d = length vbs) ds Sb"
  shows "\<exists>z w' as m. bindS (createTree F fuel Ts S targets R) (sid3_predict ds) w = Inr (z, w') \<and> wf_world P T J n sp w' \<and>
    length z = n \<and> recons z = fp_of_int (int m) \<and> distinct as \<and> set as \<subseteq> set R \<and> majority tbs (restrict Sb ks bs as) m"
proof -
  have sp: "sp < n" using assms(1) by (simp add: wf_world_def)
  have "wpS (\<lambda>_. False) (\<lambda>z w'. wf_world P T J n sp w' \<and> length z = n \<and> (\<exists>as m. recons z = fp_of_int (int m) \<and>
      distinct as \<and> set as \<subseteq> set R \<and> majority tbs (restrict Sb ks bs as) m))
    (bindS (createTree F fuel Ts S targets R) (sid3_predict ds)) w"
    unfolding wpS_bindS
  proof (rule wpS_createTree [OF assms(2-7,1,8-11)])
    fix t w1 assume w1: "wf_world P T J n sp w1" and t: "sid3_tree n sp N tbs Sb bs R t"
    from walk_majority [OF t assms(12,10)] obtain as m where m: "distinct as" "set as \<subseteq> set R" "majority tbs (restrict Sb ks bs as) m"
      "sid3_walk ks t = getConstantShare n sp (fp_of_int (int m))" by blast
    show "wpS (\<lambda>_. False) (\<lambda>z w'. wf_world P T J n sp w' \<and> length z = n \<and> (\<exists>as m. recons z = fp_of_int (int m) \<and>
        distinct as \<and> set as \<subseteq> set R \<and> majority tbs (restrict Sb ks bs as) m)) (sid3_predict ds t) w1"
    proof (rule wpS_predict(1) [OF assms(13) w1 sid3_tree_fits [OF t assms(12,10,14)]])
      fix z w' assume w': "wf_world P T J n sp w'" "length z = n" and z: "fsec z = fsec (sid3_walk ks t)"
      have "fpVal (recons z) = fpVal (fp_of_int (int m))"
        using sp unfolding fpVal_recons z m(4) by (simp add: getConstantShare_def share_simps)
      with w' m(1-3) show "wf_world P T J n sp w' \<and> length z = n \<and> (\<exists>as m. recons z = fp_of_int (int m) \<and>
          distinct as \<and> set as \<subseteq> set R \<and> majority tbs (restrict Sb ks bs as) m)"
        by (auto intro: fp.expand)
    qed
  qed
  then show ?thesis unfolding wpS_total by blast
qed

theorem predict_correct_witness:
  "\<exists>z w'. bindS (createTree ref_boost 2 (map demo_bit [True, True]) (map (map (map demo_bit)) demo_data)
      (map (map demo_bit) demo_targets) [0]) (sid3_predict [[demo_bit True, demo_bit False]]) demo_world = Inr (z, w') \<and>
    recons z = fp_of_int 0"
proof -
  have a: "\<forall>r \<in> set [0]. r < length demo_data" "length [0 :: nat] < 2" "length [True, True] = 2"
    "list_all2 (\<lambda>k vbs. k < length vbs) [0] demo_data" "list_all2 (\<lambda>d vbs. length d = length vbs) [[demo_bit True, demo_bit False]] demo_data"
    by (simp_all add: demo_data_def)
  have hot: "list_all2 (one_hot 2) [0] [[demo_bit True, demo_bit False]]"
    using demo_bits [of "[True, False]"] by (simp add: one_hot_def upt_rec)
  from predict_correct [OF wf_demo_world boost_ok_ref _ demo_tables(4,3,1,2) demo_bits a(3,1,2,4) hot a(5)] obtain z w' as m where
    z: "bindS (createTree ref_boost 2 (map demo_bit [True, True]) (map (map (map demo_bit)) demo_data)
      (map (map demo_bit) demo_targets) [0]) (sid3_predict [[demo_bit True, demo_bit False]]) demo_world = Inr (z, w')"
    "recons z = fp_of_int (int m)" "distinct as" "set as \<subseteq> {0}" "majority demo_targets (restrict demo_data [0] [True, True] as) m"
    by auto
  from z(3,4) have "as = [] \<or> as = [0]"
    by (cases as) (auto simp: subset_singleton_iff)
  with z(5) have "m = 0"
    by (auto simp: majority_def restrict_def demo_targets_def demo_data_def masked_def class_count_def count_true_def less_Suc_eq)
  with z(1,2) show ?thesis by auto
qed

end
