(* ===== verification/SidReg.thy ===== *)
theory SidReg
  imports SidTree
begin

section \<open>Regression trees and boosting\<close>

text \<open>
  \<open>GBDT/SID3Regression.hpp\<close>, \<open>GBDT/SID3Regression.cpp\<close> and \<open>GBDT/SGBM.hpp\<close>: regression trees on one-hot shares and gradient
  boosting with them. A node keeps \<open>T\<close>, the shares that mark its records, besides what \<open>grad\<close> and \<open>predict\<close> read.
\<close>

datatype reg = REG (reg_T: "fp list list") (error_value: rat) (reg_att: int) (reg_size: int) (reg_y: "fp list")
  (reg_grads: "fp list list") (reg_children: "reg list")

subsection \<open>A node\<close>

definition reg_node :: "'d boost \<Rightarrow> fp list list \<Rightarrow> fp list list \<Rightarrow> (world, int \<times> fp list \<times> fp list list) comp" where
  "reg_node F T targets = withW (\<lambda>w.
     let sz = dataSize F (n_parties w) T in
     bindS (dot targets T) (\<lambda>d.
     let y = (if 1 < sz then share_fdiv (decs F) (fp_of_int sz) d else d) in
     bindS (fp_vec_mult (replicate (length T) y) T) (\<lambda>grads. retS (sz, y, grads))))"

text \<open>Half the squared error of the records with one value of an attribute; \<open>10 ^ 9\<close> on every party if there is none.\<close>

definition infomationGain :: "'d boost \<Rightarrow> fp list list \<Rightarrow> fp list list \<Rightarrow> fp list list \<Rightarrow> (world, fp list) comp" where
  "infomationGain F T targets category = bindS (fp_vec_mult category T) (\<lambda>mask. withW (\<lambda>w.
     let n = n_parties w; mask_size = recons (sum_share n mask) in
     if fp_eq mask_size (fp_of_int 0) then retS (share_of_public n (fp_of_int 1000000000))
     else bindS (dot mask targets) (\<lambda>d. let average = share_fdiv (decs F) mask_size d in
       bindS (fp_vec_mult (replicate (length T) average) mask) (\<lambda>average_mask.
       bindS (fp_vec_mult targets mask) (\<lambda>target_mask.
       bindS (mapS (\<lambda>i. let cur = share_sub (target_mask ! i) (average_mask ! i) in fp_share_mult cur cur) [0..<length T]) (\<lambda>sq.
       retS (share_fdiv (decs F) (fp_of_int 2) (sum_share n sq))))))))"

definition min_element :: "('a \<Rightarrow> 'a \<Rightarrow> bool) \<Rightarrow> 'a list \<Rightarrow> 'a res" where
  "min_element lt xs = (case xs of [] \<Rightarrow> Inl UndefinedBehaviour | x # ys \<Rightarrow> Inr (foldl (\<lambda>m y. if lt y m then y else m) x ys))"

definition category_error ::
    "'d boost \<Rightarrow> fp list list \<Rightarrow> fp list list \<Rightarrow> fp list list list list \<Rightarrow> nat \<Rightarrow> (world, rat \<times> int) comp" where
  "category_error F T targets S r = bindS (liftS (nth_or_ub S r)) (\<lambda>categories.
     bindS (mapS (infomationGain F T targets) categories) (\<lambda>gains. withW (\<lambda>w.
     retS (fp_getDoubleVal F (recons (sum_share (n_parties w) gains)), int r))))"

definition IG :: "'d boost \<Rightarrow> fp list list \<Rightarrow> fp list list \<Rightarrow> fp list list list list \<Rightarrow> nat list \<Rightarrow> (world, rat \<times> int) comp" where
  "IG F T targets S R = bindS (mapS (category_error F T targets S) R) (\<lambda>categoryErrors.
     if categoryErrors = [] then retS (- 1, - 1) else liftS (min_element pair_less categoryErrors))"

subsection \<open>Building a tree\<close>

text \<open>The product \<open>3 * size\<close> is an \<open>int\<close>; in the comparison it becomes an unsigned 64-bit number.\<close>

definition reg_stop :: "fp list list \<Rightarrow> nat list \<Rightarrow> int \<Rightarrow> bool" where
  "reg_stop T R sz \<longleftrightarrow> R = [] \<or> (3 * sz) mod 2 ^ 64 \<le> int (length T) \<or> 0 = sz"

fun regTree ::
    "'d boost \<Rightarrow> nat \<Rightarrow> fp list list \<Rightarrow> fp list list list list \<Rightarrow> fp list list \<Rightarrow> nat list \<Rightarrow> (world, reg) comp" where
  "regTree F 0 T S targets R = raiseS OutOfFuel"
| "regTree F (Suc fuel) T S targets R =
     bindS (reg_node F T targets) (\<lambda>(sz, y, grads).
     bindS (IG F T targets S R) (\<lambda>(e, att).
     if R \<noteq> [] \<and> (3 * sz < - (2 ^ 31) \<or> 2 ^ 31 \<le> 3 * sz) then raiseS UndefinedBehaviour
     else if reg_stop T R sz then retS (REG T e att sz y grads [])
     else bindS (liftS (if att < 0 then Inl UndefinedBehaviour else nth_or_ub S (nat att))) (\<lambda>Sa.
       bindS (mapS (\<lambda>s. bindS (fp_vec_mult T s) (\<lambda>T'. regTree F fuel T' S targets (filter (\<lambda>r. int r \<noteq> att) R))) Sa)
       (\<lambda>cs. retS (REG T e att sz y grads cs)))))"

subsection \<open>Gradients and predictions\<close>

text \<open>\<open>add_first\<close> is the loop of \<open>grad\<close> over the indices below \<open>size\<close>.\<close>

definition add_first :: "int \<Rightarrow> fp list list \<Rightarrow> fp list list \<Rightarrow> fp list list res" where
  "add_first sz ret g =
     (if sz \<le> int (length ret) \<and> sz \<le> int (length g)
      then Inr (map (\<lambda>i. if int i < sz then share_add (ret ! i) (g ! i) else ret ! i) [0..<length ret])
      else Inl UndefinedBehaviour)"

fun reg_grad :: "nat \<Rightarrow> reg \<Rightarrow> fp list list res"
  and reg_grad_children :: "nat \<Rightarrow> int \<Rightarrow> fp list list \<Rightarrow> reg list \<Rightarrow> fp list list res" where
  "reg_grad n (REG T e att sz y grads cs) =
     (if cs = [] then Inr grads else reg_grad_children n sz (replicate (length T) (replicate n 0)) cs)"
| "reg_grad_children n sz ret [] = Inr ret"
| "reg_grad_children n sz ret (c # cs) =
     bindE (reg_grad n c) (\<lambda>g. bindE (add_first sz ret g) (\<lambda>ret'. reg_grad_children n sz ret' cs))"

fun reg_predict :: "fp list list list \<Rightarrow> reg \<Rightarrow> (world, fp list) comp"
  and reg_predict_children :: "fp list list list \<Rightarrow> fp list list \<Rightarrow> nat \<Rightarrow> fp list \<Rightarrow> reg list \<Rightarrow> (world, fp list) comp" where
  "reg_predict data (REG T e att sz y grads cs) =
     (if cs = [] then retS y
      else withW (\<lambda>w. bindS (liftS (if att < 0 then Inl UndefinedBehaviour else nth_or_ub data (nat att))) (\<lambda>attribute_value.
        reg_predict_children data attribute_value 0 (replicate (n_parties w) 0) cs)))"
| "reg_predict_children data av index ret [] = retS ret"
| "reg_predict_children data av index ret (c # cs) =
     bindS (reg_predict data c) (\<lambda>p. bindS (liftS (nth_or_ub av index)) (\<lambda>b.
     bindS (fp_share_mult b p) (\<lambda>bp. reg_predict_children data av (index + 1) (share_add ret bp) cs)))"

subsection \<open>Boosting\<close>

record sgbm =
  trees :: "reg list"
  init_y :: "fp list"

text \<open>One iteration on the current predictions; the trees and the predictions are threaded through.\<close>

definition boost_step ::
    "'d boost \<Rightarrow> nat \<Rightarrow> fp \<Rightarrow> fp list list \<Rightarrow> fp list list list list \<Rightarrow> fp list list \<Rightarrow> nat list \<Rightarrow>
     fp list list \<Rightarrow> (world, reg \<times> fp list list) comp" where
  "boost_step F fuel lr T S targets R currentY = withW (\<lambda>w.
     bindS (liftS (mapE (\<lambda>i. bindE (nth_or_ub targets i) (\<lambda>t. Inr (share_sub t (currentY ! i)))) [0..<length T])) (\<lambda>diff.
     bindS (regTree F fuel T S diff R) (\<lambda>tree.
     bindS (liftS (reg_grad (n_parties w) tree)) (\<lambda>grad.
     bindS (liftS (mapE (\<lambda>i. bindE (nth_or_ub grad i) (\<lambda>g. Inr (share_add (currentY ! i) (share_scale lr g)))) [0..<length T])) (\<lambda>currentY'.
     retS (tree, currentY'))))))"

fun boost_loop ::
    "'d boost \<Rightarrow> nat \<Rightarrow> fp \<Rightarrow> fp list list \<Rightarrow> fp list list list list \<Rightarrow> fp list list \<Rightarrow> nat list \<Rightarrow>
     nat \<Rightarrow> reg list \<Rightarrow> fp list list \<Rightarrow> (world, reg list \<times> fp list list) comp" where
  "boost_loop F fuel lr T S targets R 0 ts currentY = retS (ts, currentY)"
| "boost_loop F fuel lr T S targets R (Suc k) ts currentY =
     bindS (boost_step F fuel lr T S targets R currentY) (\<lambda>(t, currentY').
     boost_loop F fuel lr T S targets R k (ts @ [t]) currentY')"

definition boosting ::
    "'d boost \<Rightarrow> nat \<Rightarrow> fp \<Rightarrow> fp list list \<Rightarrow> fp list list list list \<Rightarrow> fp list list \<Rightarrow> nat list \<Rightarrow> nat \<Rightarrow>
     sgbm \<Rightarrow> (world, sgbm \<times> fp list list) comp" where
  "boosting F fuel lr T S targets R numIterations m = withW (\<lambda>w.
     let y0 = smean (decs F) (n_parties w) targets in
     bindS (boost_loop F fuel lr T S targets R numIterations (trees m) (replicate (length T) y0)) (\<lambda>(ts, currentY).
     retS (\<lparr>trees = ts, init_y = y0\<rparr>, currentY)))"

fun sgbm_sum :: "fp \<Rightarrow> fp list list list \<Rightarrow> fp list \<Rightarrow> reg list \<Rightarrow> (world, fp list) comp" where
  "sgbm_sum lr data ret [] = retS ret"
| "sgbm_sum lr data ret (t # ts) = bindS (reg_predict data t) (\<lambda>p. sgbm_sum lr data (share_add ret (share_scale lr p)) ts)"

definition sgbm_predict :: "fp \<Rightarrow> sgbm \<Rightarrow> fp list list list \<Rightarrow> (world, fp list) comp" where
  "sgbm_predict lr m data = sgbm_sum lr data (init_y m) (trees m)"

subsection \<open>The value of a node\<close>

lemma wpS_mask:
  assumes "wf_world P T J n sp w" "bit_shares n bs Ts" "length xs = length bs" "\<forall>x \<in> set xs. length x = n"
    and post: "\<And>zs w'. wf_world P T J n sp w' \<Longrightarrow> w_ok w' = w_ok w \<Longrightarrow> length zs = length xs \<Longrightarrow>
      (\<forall>i < length xs. length (zs ! i) = n \<and> fsec (zs ! i) = of_bool (bs ! i) * fsec (xs ! i)) \<Longrightarrow>
      (n \<le> 100 \<and> (\<forall>x \<in> set xs. \<bar>fsec x\<bar> \<le> 10 ^ 25) \<longrightarrow> shares_ok n (10 ^ 51) zs) \<Longrightarrow> Q zs w'"
  shows "wpS E Q (fp_vec_mult xs Ts) w"
proof (rule wpS_fp_vec_mult_ok [OF assms(1) _ assms(4) bit_sharesD(2) [OF assms(2)]])
  have len: "length Ts = length bs" by (rule bit_sharesD(1) [OF assms(2)])
  then show "length xs = length Ts" using assms(3) by simp
  have Ts: "fsec (Ts ! i) = of_bool (bs ! i) * shift" if "i < length xs" for i
    using assms(2,3) that unfolding bit_shares_def bit_share_def by (auto simp: list_all2_conv_all_nth)
  fix zs w'
  assume w': "wf_world P T J n sp w'" "w_ok w' = w_ok w" and zs: "length zs = length xs"
    "\<forall>i < length xs. mult_ok n (xs ! i) (Ts ! i) (zs ! i)"
  show "Q zs w'"
  proof (rule post [OF w' zs(1)])
    show "\<forall>i < length xs. length (zs ! i) = n \<and> fsec (zs ! i) = of_bool (bs ! i) * fsec (xs ! i)"
    proof (intro allI impI)
      fix i assume i: "i < length xs"
      with zs(2) have m: "mult_ok n (xs ! i) (Ts ! i) (zs ! i)" by blast
      then have "\<bar>shift * fsec (zs ! i) - of_bool (bs ! i) * shift * fsec (xs ! i)\<bar> < shift"
        using Ts [OF i] by (simp add: mult_ok_def mult_ac)
      from bit_product [OF this] m show "length (zs ! i) = n \<and> fsec (zs ! i) = of_bool (bs ! i) * fsec (xs ! i)"
        by (simp add: mult_ok_def)
    qed
    show "n \<le> 100 \<and> (\<forall>x \<in> set xs. \<bar>fsec x\<bar> \<le> 10 ^ 25) \<longrightarrow> shares_ok n (10 ^ 51) zs"
    proof
      assume b: "n \<le> 100 \<and> (\<forall>x \<in> set xs. \<bar>fsec x\<bar> \<le> 10 ^ 25)"
      have "length (zs ! i) = n \<and> fbound (10 ^ 51) (zs ! i)" if i: "i < length xs" for i
      proof -
        have "\<bar>fsec (Ts ! i)\<bar> \<le> 10 ^ 25" using Ts [OF i] by (simp add: shift_eq)
        then show ?thesis using zs(2) b i by (auto simp: mult_ok_def)
      qed
      then show "shares_ok n (10 ^ 51) zs"
        unfolding shares_ok_def using zs(1) by (auto simp: in_set_conv_nth)
    qed
  qed
qed

definition target_sum :: "bool list \<Rightarrow> fp list list \<Rightarrow> int" where
  "target_sum bs targets = sum_list (map2 (\<lambda>b t. of_bool b * fsec t) bs targets)"

text \<open>
  The value \<open>y\<close> of a node: exact for at most one record, otherwise the mean of the targets up to the error of the division, for targets
  below \<open>10 ^ 17\<close>.
\<close>

definition reg_value :: "nat \<Rightarrow> bool list \<Rightarrow> fp list list \<Rightarrow> fp list \<Rightarrow> bool" where
  "reg_value n bs targets y \<longleftrightarrow> length y = n \<and>
     (let c = int (count_true bs) in
      if c \<le> 1 then fsec y = target_sum bs targets
      else (\<forall>t \<in> set targets. \<bar>fsec t\<bar> \<le> 10 ^ 25) \<longrightarrow>
        \<bar>fsec y * c - target_sum bs targets\<bar> \<le> int n * (c + 1000 * int (length bs)))"

lemma reg_value_div:
  assumes F: "boost_ok F" and n: "n \<le> 100" and N: "length bs \<le> 10 ^ 8" and c: "1 < count_true bs"
    and d: "length d = n" "(\<forall>t \<in> set targets. \<bar>fsec t\<bar> \<le> 10 ^ 25) \<longrightarrow> fbound (int (length bs) * 10 ^ 51) d" "fsec d = target_sum bs targets"
  shows "reg_value n bs targets (share_fdiv (decs F) (fp_of_int (int (count_true bs))) d)"
proof -
  let ?c = "int (count_true bs)" and ?N = "int (length bs)"
  have "int (length bs) \<le> int (10 ^ 8)" using N by (rule of_nat_mono)
  then have N': "?N \<le> 10 ^ 8" by simp
  have c': "?c \<le> ?N" using count_true_le [of bs] by simp
  have r: "?c * shift < dec_range" "?N * 10 ^ 51 < dec_range"
    by (rule less_dec_range [of _ 100]; use N' c' in \<open>simp add: shift_eq\<close>)+
  have "\<bar>fsec (share_fdiv (decs F) (fp_of_int ?c) d) * ?c - fsec d\<bar> \<le> int n * (?c + 1000 * ?N)"
    if b: "\<forall>t \<in> set targets. \<bar>fsec t\<bar> \<le> 10 ^ 25"
  proof -
    have "\<bar>fsec (share_fdiv (decs F) (fp_of_int ?c) d) * ?c - fsec d\<bar> * 10 ^ 48 \<le> (?c * 10 ^ 48 + ?N * 10 ^ 51) * int n"
      using fdiv_int_error [OF F _ r, of d] c d(1,2) b by simp
    then have "\<bar>fsec (share_fdiv (decs F) (fp_of_int ?c) d) * ?c - fsec d\<bar> * 10 ^ 48 \<le> (int n * (?c + 1000 * ?N)) * 10 ^ 48"
      by (simp add: algebra_simps)
    then show ?thesis
      by (rule mult_right_le_imp_le) simp
  qed
  with c d(1,3) show ?thesis
    by (simp add: reg_value_def)
qed

lemma wpS_reg_node:
  assumes w: "wf_world P T J n sp w" and F: "boost_ok F" and n: "n \<le> 100" and Ts: "bit_shares n bs Ts" and N: "length bs \<le> 10 ^ 8"
    and ts: "\<forall>t \<in> set targets. length t = n" "length targets = length bs"
    and post: "\<And>y grads w'. wf_world P T J n sp w' \<Longrightarrow> w_ok w' = w_ok w \<Longrightarrow> reg_value n bs targets y \<Longrightarrow>
      length grads = length bs \<Longrightarrow> (\<forall>i < length bs. length (grads ! i) = n \<and> fsec (grads ! i) = of_bool (bs ! i) * fsec y) \<Longrightarrow>
      Q (int (count_true bs), y, grads) w'"
  shows "wpS E Q (reg_node F Ts targets) w"
proof -
  let ?c = "int (count_true bs)" and ?y = "\<lambda>d. if 1 < int (count_true bs) then share_fdiv (decs F) (fp_of_int (int (count_true bs))) d else d"
  have sp: "n_parties w = n" using w by (auto simp: wf_world_def n_parties_def)
  have wsp: "n_parties w' = n" if "wf_world P T J n sp w'" for w'
    using that by (auto simp: wf_world_def n_parties_def)
  have "length bs \<le> 10 ^ 10" using N by simp
  note sz = dataSize_bits [OF F Ts this]
  have len: "length Ts = length bs" by (rule bit_sharesD(1) [OF Ts])
  have cont: "wpS E (\<lambda>d. wpS E Q (let y = ?y d in bindS (fp_vec_mult (replicate (length Ts) y) Ts) (\<lambda>grads. retS (?c, y, grads))))
      (dot targets Ts) w"
    unfolding dot_def wpS_withW wpS_bindS wpS_retS sp
  proof (rule wpS_mask [OF w Ts ts(2,1)])
    fix zs w1
    assume w1: "wf_world P T J n sp w1" "w_ok w1 = w_ok w" and zs: "length zs = length targets"
      "\<forall>i < length targets. length (zs ! i) = n \<and> fsec (zs ! i) = of_bool (bs ! i) * fsec (targets ! i)"
      "n \<le> 100 \<and> (\<forall>x \<in> set targets. \<bar>fsec x\<bar> \<le> 10 ^ 25) \<longrightarrow> shares_ok n (10 ^ 51) zs"
    have zl: "\<forall>z \<in> set zs. length z = n" using zs(1,2) by (auto simp: in_set_conv_nth)
    define d where "d = sum_share n zs"
    have "map fsec zs = map2 (\<lambda>b t. of_bool b * fsec t) bs targets"
      using zs(1,2) ts(2) by (intro nth_equalityI) simp_all
    then have d: "length d = n" "fsec d = target_sum bs targets"
      unfolding d_def sum_share_def target_sum_def using fold_add [OF zl, of "replicate n 0"] by (simp_all add: share_simps)
    have db: "(\<forall>t \<in> set targets. \<bar>fsec t\<bar> \<le> 10 ^ 25) \<longrightarrow> fbound (int (length bs) * 10 ^ 51) d"
      using zs(1,3) n ts(2) fbound_sum_share [of n "10 ^ 51" zs] unfolding d_def by auto
    have y: "reg_value n bs targets (?y d)"
    proof (cases "1 < ?c")
      case True
      with reg_value_div [OF F n N _ d(1) db d(2)] show ?thesis by simp
    next
      case False
      with d show ?thesis by (simp add: reg_value_def)
    qed
    then have yl: "length (?y d) = n" by (simp add: reg_value_def)
    have "wpS E (\<lambda>grads. Q (?c, ?y d, grads)) (fp_vec_mult (replicate (length Ts) (?y d)) Ts) w1"
    proof (rule wpS_mask [OF w1(1) Ts])
      fix grads w2
      assume w2: "wf_world P T J n sp w2" "w_ok w2 = w_ok w1"
        and g: "length grads = length (replicate (length Ts) (?y d))"
          "\<forall>i < length (replicate (length Ts) (?y d)). length (grads ! i) = n \<and>
            fsec (grads ! i) = of_bool (bs ! i) * fsec (replicate (length Ts) (?y d) ! i)"
      show "Q (?c, ?y d, grads) w2"
        by (rule post [OF w2(1) _ y]) (use w1 w2 g len in \<open>simp_all del: if_split\<close>)
    qed (use len yl in \<open>auto simp del: if_split\<close>)
    then show "wpS E Q (let y = ?y (sum_share n zs) in bindS (fp_vec_mult (replicate (length Ts) y) Ts) (\<lambda>grads. retS (?c, y, grads))) w1"
      by (simp only: Let_def wpS_bindS wpS_retS d_def)
  qed
  then show ?thesis
    unfolding reg_node_def wpS_withW Let_def sp sz wpS_bindS .
qed

subsection \<open>The choice of an attribute\<close>

lemma wpS_vec_len:
  assumes "wf_world P T J n sp w" "length xs = length ys" "\<forall>x \<in> set xs. length x = n" "\<forall>y \<in> set ys. length y = n"
    and post: "\<And>zs w'. wf_world P T J n sp w' \<Longrightarrow> w_ok w' = w_ok w \<Longrightarrow> length zs = length xs \<Longrightarrow> \<forall>z \<in> set zs. length z = n \<Longrightarrow> Q zs w'"
  shows "wpS E Q (fp_vec_mult xs ys) w"
proof (rule wpS_fp_vec_mult [OF assms(1-4)])
  fix zs w'
  assume w': "wf_world P T J n sp w'" "w_ok w' = w_ok w" "length zs = length xs"
    and "\<forall>i < length xs. length (zs ! i) = n \<and> \<bar>shift * fsec (zs ! i) - fsec (xs ! i) * fsec (ys ! i)\<bar> < shift"
  then have "\<forall>z \<in> set zs. length z = n" by (auto simp: in_set_conv_nth)
  then show "Q zs w'" by (rule post [OF w'])
qed

lemma length_sum_share_of: "\<forall>z \<in> set zs. length z = n \<Longrightarrow> length (sum_share n zs) = n"
  unfolding sum_share_def by (rule fold_add(1)) simp_all

lemma wpS_dot_len:
  assumes "wf_world P T J n sp w" "length xs = length ys" "\<forall>x \<in> set xs. length x = n" "\<forall>y \<in> set ys. length y = n"
    and post: "\<And>z w'. wf_world P T J n sp w' \<Longrightarrow> w_ok w' = w_ok w \<Longrightarrow> length z = n \<Longrightarrow> Q z w'"
  shows "wpS E Q (dot xs ys) w"
proof -
  have sp: "n_parties w = n" using assms(1) by (auto simp: wf_world_def n_parties_def)
  show ?thesis
    unfolding dot_def wpS_withW wpS_bindS wpS_retS sp
    by (rule wpS_vec_len [OF assms(1-4)]) (simp add: post length_sum_share_of)
qed

lemma wpS_squares:
  assumes "wf_world P T J n sp w" and "length xs = k" "\<forall>x \<in> set xs. length x = n" "length ys = k" "\<forall>y \<in> set ys. length y = n"
    and post: "\<And>sq w'. wf_world P T J n sp w' \<Longrightarrow> w_ok w' = w_ok w \<Longrightarrow> \<forall>z \<in> set sq. length z = n \<Longrightarrow> Q sq w'"
  shows "wpS E Q (mapS (\<lambda>i. let cur = share_sub (xs ! i) (ys ! i) in fp_share_mult cur cur) [0..<k]) w"
proof (rule wpS_mapS [where I = "\<lambda>w'. wf_world P T J n sp w' \<and> w_ok w' = w_ok w" and R = "\<lambda>_ z. length z = n"])
  fix i w1 assume i: "i \<in> set [0..<k]" and w1: "wf_world P T J n sp w1 \<and> w_ok w1 = w_ok w"
  have l: "length (share_sub (xs ! i) (ys ! i)) = n"
    using i assms(2-5) by (simp add: share_simps)
  show "wpS E (\<lambda>z w'. (wf_world P T J n sp w' \<and> w_ok w' = w_ok w) \<and> length z = n)
      (let cur = share_sub (xs ! i) (ys ! i) in fp_share_mult cur cur) w1"
    unfolding Let_def by (rule wpS_fp_share_mult [OF conjunct1 [OF w1] l l]) (use w1 in simp)
qed (use assms(1) post in \<open>auto dest: list_all2_right\<close>)

lemma wpS_infomationGain:
  assumes w: "wf_world P T J n sp w" and Ts: "\<forall>t \<in> set Ts. length t = n"
    and ts: "\<forall>t \<in> set targets. length t = n" "length targets = length Ts"
    and cat: "\<forall>t \<in> set category. length t = n" "length category = length Ts"
    and post: "\<And>z w'. wf_world P T J n sp w' \<Longrightarrow> w_ok w' = w_ok w \<Longrightarrow> length z = n \<Longrightarrow> Q z w'"
  shows "wpS E Q (infomationGain F Ts targets category) w"
  unfolding infomationGain_def wpS_bindS
proof (rule wpS_vec_len [OF w cat(2,1) Ts])
  fix mask :: "fp list list" and w1
  assume w1: "wf_world P T J n sp w1" "w_ok w1 = w_ok w" and mask: "length mask = length category" "\<forall>z \<in> set mask. length z = n"
  have sp: "n_parties w1 = n" using w1 by (auto simp: wf_world_def n_parties_def)
  define m where "m = recons (sum_share n mask)"
  have "wpS E Q (bindS (dot mask targets) (\<lambda>d. let average = share_fdiv (decs F) m d in
      bindS (fp_vec_mult (replicate (length Ts) average) mask) (\<lambda>average_mask. bindS (fp_vec_mult targets mask) (\<lambda>target_mask.
      bindS (mapS (\<lambda>i. let cur = share_sub (target_mask ! i) (average_mask ! i) in fp_share_mult cur cur) [0..<length Ts]) (\<lambda>sq.
      retS (share_fdiv (decs F) (fp_of_int 2) (sum_share n sq))))))) w1"
    unfolding wpS_bindS
  proof (rule wpS_dot_len [OF w1(1) _ mask(2) ts(1)])
    fix d :: "fp list" and w2 assume w2: "wf_world P T J n sp w2" "w_ok w2 = w_ok w1" and d: "length d = n"
    define av where "av = share_fdiv (decs F) m d"
    have "wpS E (\<lambda>average_mask. wpS E (\<lambda>target_mask. wpS E (\<lambda>sq. Q (share_fdiv (decs F) (fp_of_int 2) (sum_share n sq)))
        (mapS (\<lambda>i. let cur = share_sub (target_mask ! i) (average_mask ! i) in fp_share_mult cur cur) [0..<length Ts]))
        (fp_vec_mult targets mask)) (fp_vec_mult (replicate (length Ts) av) mask) w2"
    proof (rule wpS_vec_len [OF w2(1) _ _ mask(2)])
      fix am :: "fp list list" and w3 assume w3: "wf_world P T J n sp w3" "w_ok w3 = w_ok w2" and am: "length am = length (replicate (length Ts) av)" "\<forall>z \<in> set am. length z = n"
      show "wpS E (\<lambda>target_mask. wpS E (\<lambda>sq. Q (share_fdiv (decs F) (fp_of_int 2) (sum_share n sq)))
        (mapS (\<lambda>i. let cur = share_sub (target_mask ! i) (am ! i) in fp_share_mult cur cur) [0..<length Ts]))
        (fp_vec_mult targets mask) w3"
      proof (rule wpS_vec_len [OF w3(1) _ ts(1) mask(2)])
        fix tm :: "fp list list" and w4 assume w4: "wf_world P T J n sp w4" "w_ok w4 = w_ok w3" and tm: "length tm = length targets" "\<forall>z \<in> set tm. length z = n"
        show "wpS E (\<lambda>sq. Q (share_fdiv (decs F) (fp_of_int 2) (sum_share n sq)))
          (mapS (\<lambda>i. let cur = share_sub (tm ! i) (am ! i) in fp_share_mult cur cur) [0..<length Ts]) w4"
          by (rule wpS_squares [OF w4(1) _ tm(2) _ am(2)])
            (use tm am ts w1 w2 w3 w4 in \<open>auto intro!: post simp: length_sum_share_of\<close>)
      qed (use mask cat ts in simp)
    qed (use mask cat d in \<open>simp_all add: av_def\<close>)
    then show "wpS E Q (let average = share_fdiv (decs F) m d in
      bindS (fp_vec_mult (replicate (length Ts) average) mask) (\<lambda>average_mask. bindS (fp_vec_mult targets mask) (\<lambda>target_mask.
      bindS (mapS (\<lambda>i. let cur = share_sub (target_mask ! i) (average_mask ! i) in fp_share_mult cur cur) [0..<length Ts]) (\<lambda>sq.
      retS (share_fdiv (decs F) (fp_of_int 2) (sum_share n sq)))))) w2"
      by (simp only: Let_def wpS_bindS wpS_retS av_def)
  qed (use mask cat ts in simp)
  then show "wpS E Q (withW (\<lambda>w. let n = n_parties w; mask_size = recons (sum_share n mask) in
      if fp_eq mask_size (fp_of_int 0) then retS (share_of_public n (fp_of_int 1000000000))
      else bindS (dot mask targets) (\<lambda>d. let average = share_fdiv (decs F) mask_size d in
        bindS (fp_vec_mult (replicate (length Ts) average) mask) (\<lambda>average_mask. bindS (fp_vec_mult targets mask) (\<lambda>target_mask.
        bindS (mapS (\<lambda>i. let cur = share_sub (target_mask ! i) (average_mask ! i) in fp_share_mult cur cur) [0..<length Ts]) (\<lambda>sq.
        retS (share_fdiv (decs F) (fp_of_int 2) (sum_share n sq)))))))) w1"
    using post w1 by (simp add: sp Let_def m_def share_of_public_def del: wpS_bindS)
qed

lemma min_element_mem: "xs \<noteq> [] \<Longrightarrow> \<exists>m. min_element lt xs = Inr m \<and> m \<in> set xs"
proof -
  have "foldl (\<lambda>m y. if lt y m then y else m) x ys \<in> set (x # ys)" for x ys
    by (induction ys rule: rev_induct) auto
  then show "xs \<noteq> [] \<Longrightarrow> \<exists>m. min_element lt xs = Inr m \<and> m \<in> set xs"
    by (cases xs) (auto simp: min_element_def)
qed

lemma class_bits_len:
  assumes "class_bits n N vbs vss" "s \<in> set vss"
  shows "length s = N" "\<forall>x \<in> set s. length x = n"
proof -
  from assms obtain vb where "bit_shares n vb s" "length vb = N"
    unfolding class_bits_def by (auto dest: list_all2_right)
  then show "length s = N" "\<forall>x \<in> set s. length x = n" by (auto dest: bit_sharesD)
qed

lemma wpS_category_error:
  assumes w: "wf_world P T J n sp w" and Ts: "bit_shares n bs Ts" "length bs = N"
    and ts: "\<forall>t \<in> set targets. length t = n" "length targets = N"
    and S: "data_bits n N Sb S" and r: "r < length Sb"
    and post: "\<And>e w'. wf_world P T J n sp w' \<Longrightarrow> w_ok w' = w_ok w \<Longrightarrow> Q (e, int r) w'"
  shows "wpS E Q (category_error F Ts targets S r) w"
proof -
  have lt: "r < length S" using r S by (auto simp: data_bits_def dest: list_all2_lengthD)
  have Sr: "class_bits n N (Sb ! r) (S ! r)"
    using list_all2_nthD [OF S [unfolded data_bits_def] r] .
  have "wpS E (\<lambda>gains. wpS E Q (withW (\<lambda>w. retS (fp_getDoubleVal F (recons (sum_share (n_parties w) gains)), int r))))
      (mapS (infomationGain F Ts targets) (S ! r)) w"
  proof (rule wpS_mapS [where I = "\<lambda>w'. wf_world P T J n sp w' \<and> w_ok w' = w_ok w" and R = "\<lambda>_ _. True"])
    fix s w1 assume s: "s \<in> set (S ! r)" and w1: "wf_world P T J n sp w1 \<and> w_ok w1 = w_ok w"
    show "wpS E (\<lambda>z w'. (wf_world P T J n sp w' \<and> w_ok w' = w_ok w) \<and> True) (infomationGain F Ts targets s) w1"
      by (rule wpS_infomationGain [OF conjunct1 [OF w1] bit_sharesD(2) [OF Ts(1)] ts(1)])
        (use ts(2) Ts bit_sharesD(1) [OF Ts(1)] class_bits_len [OF Sr s] w1 in simp_all)
  qed (use w post in simp_all)
  with lt show ?thesis by (simp add: category_error_def nth_or_ub_def)
qed

lemma wpS_IG:
  assumes w: "wf_world P T J n sp w" and Ts: "bit_shares n bs Ts" "length bs = N"
    and ts: "\<forall>t \<in> set targets. length t = n" "length targets = N"
    and S: "data_bits n N Sb S" and R: "\<forall>r \<in> set R. r < length Sb"
    and post: "\<And>e att w'. wf_world P T J n sp w' \<Longrightarrow> w_ok w' = w_ok w \<Longrightarrow> R \<noteq> [] \<longrightarrow> att \<in> int ` set R \<Longrightarrow> Q (e, att) w'"
  shows "wpS E Q (IG F Ts targets S R) w"
  unfolding IG_def wpS_bindS
proof (rule wpS_mapS [where I = "\<lambda>w'. wf_world P T J n sp w' \<and> w_ok w' = w_ok w" and R = "\<lambda>r p. snd p = int r"])
  fix r w1 assume r: "r \<in> set R" and w1: "wf_world P T J n sp w1 \<and> w_ok w1 = w_ok w"
  show "wpS E (\<lambda>p w'. (wf_world P T J n sp w' \<and> w_ok w' = w_ok w) \<and> snd p = int r) (category_error F Ts targets S r) w1"
    by (rule wpS_category_error [OF conjunct1 [OF w1] Ts ts S]) (use r R w1 in simp_all)
next
  fix ps :: "(rat \<times> int) list" and w1 assume w1: "wf_world P T J n sp w1 \<and> w_ok w1 = w_ok w" and ps: "list_all2 (\<lambda>r p. snd p = int r) R ps"
  show "wpS E Q (if ps = [] then retS (- 1, - 1) else liftS (min_element pair_less ps)) w1"
  proof (cases "ps = []")
    case True
    with ps w1 post show ?thesis by simp
  next
    case False
    then obtain e att where m: "min_element pair_less ps = Inr (e, att)" "(e, att) \<in> set ps"
      using min_element_mem [of ps pair_less] by auto
    from list_all2_right [OF ps m(2)] have "att \<in> int ` set R" by auto
    with w1 post m(1) False show ?thesis by simp
  qed
qed (use w in simp)

subsection \<open>The trees built\<close>

text \<open>
  The regression trees of the records \<open>bs\<close> with the attributes \<open>R\<close> left: exact sizes, the value of each node, the value at the node's
  records and 0 elsewhere as gradient, and one child for every value of the chosen attribute unless no attribute is left or
  the node holds at most a third of all records.
\<close>

definition node_ok :: "nat \<Rightarrow> fp list list \<Rightarrow> bool list \<Rightarrow> fp list list \<Rightarrow> fp list \<Rightarrow> fp list list \<Rightarrow> bool" where
  "node_ok n targets bs Ts y grads \<longleftrightarrow> length Ts = length bs \<and> reg_value n bs targets y \<and> length grads = length bs \<and>
     (\<forall>i < length bs. length (grads ! i) = n \<and> fsec (grads ! i) = of_bool (bs ! i) * fsec y)"

inductive reg_tree :: "nat \<Rightarrow> fp list list \<Rightarrow> bool list list list \<Rightarrow> bool list \<Rightarrow> nat list \<Rightarrow> reg \<Rightarrow> bool" for n targets Sb where
  leaf: "node_ok n targets bs Ts y grads \<Longrightarrow> R = [] \<or> 3 * count_true bs \<le> length bs \<Longrightarrow>
    reg_tree n targets Sb bs R (REG Ts e att (int (count_true bs)) y grads [])"
| inner: "node_ok n targets bs Ts y grads \<Longrightarrow> length bs < 3 * count_true bs \<Longrightarrow> r \<in> set R \<Longrightarrow>
    list_all2 (\<lambda>vb. reg_tree n targets Sb (masked bs vb) (filter (\<lambda>r'. r' \<noteq> r) R)) (Sb ! r) cs \<Longrightarrow>
    reg_tree n targets Sb bs R (REG Ts e (int r) (int (count_true bs)) y grads cs)"

lemma reg_stop_iff:
  assumes "length Ts = length bs" "length bs \<le> 10 ^ 8"
  shows "reg_stop Ts R (int (count_true bs)) \<longleftrightarrow> R = [] \<or> 3 * count_true bs \<le> length bs" "3 * int (count_true bs) < 2 ^ 31"
proof -
  have c: "count_true bs \<le> 10 ^ 8" using count_true_le [of bs] assms(2) by (rule order_trans)
  then show "3 * int (count_true bs) < 2 ^ 31" by simp
  from c have "(3 * int (count_true bs)) mod 2 ^ 64 = 3 * int (count_true bs)" by simp
  then show "reg_stop Ts R (int (count_true bs)) \<longleftrightarrow> R = [] \<or> 3 * count_true bs \<le> length bs"
    using assms(1) unfolding reg_stop_def by auto
qed

lemma wpS_regTree:
  assumes F: "boost_ok F" and n: "n \<le> 100" and N: "N \<le> 10 ^ 8" and ts: "\<forall>t \<in> set targets. length t = n" "length targets = N"
    and S: "data_bits n N Sb S"
  shows "wf_world P T J n sp w \<Longrightarrow> bit_shares n bs Ts \<Longrightarrow> length bs = N \<Longrightarrow> \<forall>r \<in> set R. r < length Sb \<Longrightarrow> length R < fuel \<Longrightarrow>
    (\<And>t w'. wf_world P T J n sp w' \<Longrightarrow> w_ok w' = w_ok w \<Longrightarrow> reg_tree n targets Sb bs R t \<Longrightarrow> Q t w') \<Longrightarrow>
    wpS E Q (regTree F fuel Ts S targets R) w"
proof (induction fuel arbitrary: Ts bs R w Q)
  case (Suc fuel)
  note w = Suc.prems(1) and T = Suc.prems(2,3) and R = Suc.prems(4) and fuel = Suc.prems(5) and post = Suc.prems(6)
  have lenT: "length Ts = length bs" by (rule bit_sharesD(1) [OF T(1)])
  have N': "length bs \<le> 10 ^ 8" using N T(2) by simp
  note stop = reg_stop_iff [OF lenT N']
  let ?c = "int (count_true bs)" and ?R = "\<lambda>att. filter (\<lambda>r. int r \<noteq> att) R"
  show ?case
    unfolding regTree.simps wpS_bindS
  proof (rule wpS_reg_node [OF w F n T(1) N' ts(1)], unfold prod.case wpS_bindS)
    show "length targets = length bs" using ts(2) T(2) by simp
    fix y grads w1 assume w1: "wf_world P T J n sp w1" "w_ok w1 = w_ok w" and "reg_value n bs targets y" "length grads = length bs"
      "\<forall>i < length bs. length (grads ! i) = n \<and> fsec (grads ! i) = of_bool (bs ! i) * fsec y"
    then have node: "node_ok n targets bs Ts y grads" using lenT by (simp add: node_ok_def)
    show "wpS E (\<lambda>a. wpS E Q (case a of (e, att) \<Rightarrow>
        if R \<noteq> [] \<and> (3 * ?c < - (2 ^ 31) \<or> 2 ^ 31 \<le> 3 * ?c) then raiseS UndefinedBehaviour
        else if reg_stop Ts R ?c then retS (REG Ts e att ?c y grads [])
        else bindS (liftS (if att < 0 then Inl UndefinedBehaviour else nth_or_ub S (nat att))) (\<lambda>Sa.
          bindS (mapS (\<lambda>s. bindS (fp_vec_mult Ts s) (\<lambda>T'. regTree F fuel T' S targets (?R att))) Sa)
          (\<lambda>cs. retS (REG Ts e att ?c y grads cs))))) (IG F Ts targets S R) w1"
    proof (rule wpS_IG [OF w1(1) T ts S R], unfold prod.case)
      fix e att w2 assume w2: "wf_world P T J n sp w2" "w_ok w2 = w_ok w1" and att: "R \<noteq> [] \<longrightarrow> att \<in> int ` set R"
      have "wpS E Q (if reg_stop Ts R ?c then retS (REG Ts e att ?c y grads [])
        else bindS (liftS (if att < 0 then Inl UndefinedBehaviour else nth_or_ub S (nat att))) (\<lambda>Sa.
          bindS (mapS (\<lambda>s. bindS (fp_vec_mult Ts s) (\<lambda>T'. regTree F fuel T' S targets (?R att))) Sa)
          (\<lambda>cs. retS (REG Ts e att ?c y grads cs)))) w2"
      proof (cases "reg_stop Ts R ?c")
        case True
        with stop(1) post [OF w2(1) _ reg_tree.leaf [OF node, of R]] w1 w2 show ?thesis by simp
      next
        case False
        then have go: "R \<noteq> []" "length bs < 3 * count_true bs" using stop(1) by auto
        then obtain r where r: "r \<in> set R" "att = int r" using att by auto
        have lt: "r < length Sb" "length S = length Sb"
          using r R S by (auto simp: data_bits_def dest: list_all2_lengthD)
        have R': "\<forall>r \<in> set (?R att). r < length Sb" "length (?R att) < fuel" "?R att = filter (\<lambda>r'. r' \<noteq> r) R"
          using R length_filter_less [of r R "\<lambda>r'. int r' \<noteq> att"] r fuel by auto
        have "wpS E (\<lambda>cs. wpS E Q (retS (REG Ts e att ?c y grads cs)))
            (mapS (\<lambda>s. bindS (fp_vec_mult Ts s) (\<lambda>T'. regTree F fuel T' S targets (?R att))) (S ! r)) w2"
        proof (rule wpS_children [OF w2(1) T list_all2_nthD [OF S [unfolded data_bits_def] lt(1)],
              where R = "\<lambda>vb. reg_tree n targets Sb (masked bs vb) (?R att)"])
          fix cs w' assume w': "wf_world P T J n sp w'" "w_ok w' = w_ok w2"
            "list_all2 (\<lambda>vb. reg_tree n targets Sb (masked bs vb) (?R att)) (Sb ! r) cs"
          with reg_tree.inner [OF node go(2) r(1), where cs = cs] post w1 w2 r(2) R'(3)
          show "wpS E Q (retS (REG Ts e att ?c y grads cs)) w'" by simp
        qed (rule Suc.IH [OF _ _ _ R'(1,2)], simp_all)
        with False r(2) lt show ?thesis by (simp add: nth_or_ub_def)
      qed
      with stop(2) show "wpS E Q (if R \<noteq> [] \<and> (3 * ?c < - (2 ^ 31) \<or> 2 ^ 31 \<le> 3 * ?c) then raiseS UndefinedBehaviour
        else if reg_stop Ts R ?c then retS (REG Ts e att ?c y grads [])
        else bindS (liftS (if att < 0 then Inl UndefinedBehaviour else nth_or_ub S (nat att))) (\<lambda>Sa.
          bindS (mapS (\<lambda>s. bindS (fp_vec_mult Ts s) (\<lambda>T'. regTree F fuel T' S targets (?R att))) Sa)
          (\<lambda>cs. retS (REG Ts e att ?c y grads cs)))) w2" by (simp del: wpS_bindS)
    qed
  qed
qed simp

subsection \<open>Prediction and gradient\<close>

text \<open>\<open>SID3Regression::predict\<close> is the function \<open>SID3::predict\<close> on the tree without its training data.\<close>

fun strip :: "reg \<Rightarrow> sid3" where
  "strip (REG Ts e att sz y grads cs) = SID3 e sz att y (map strip cs)"

lemma reg_predict_strip:
  "reg_predict ds t = sid3_predict ds (strip t)"
  "reg_predict_children ds av i ret cs = sid3_predict_children ds av i ret (map strip cs)"
  by (induction ds t and ds av i ret cs rule: reg_predict_reg_predict_children.induct) simp_all

lemma reg_tree_fits:
  assumes "reg_tree n targets Sb bs R t" and "list_all2 (\<lambda>k vbs. k < length vbs) ks Sb" "\<forall>r \<in> set R. r < length Sb"
    and "list_all2 (\<lambda>d vbs. length d = length vbs) ds Sb"
  shows "fits n ks ds (strip t)"
  using assms
proof (induction rule: reg_tree.induct)
  case (leaf bs Ts y grads R e)
  then show ?case by (simp add: node_ok_def reg_value_def)
next
  case (inner bs Ts y grads r R cs e)
  have "r < length Sb" using inner(3,6) by auto
  then have "ks ! r < length (Sb ! r)" "r < length ds" "length (ds ! r) = length (Sb ! r)"
    using inner(5,7) by (auto simp: list_all2_conv_all_nth)
  moreover have "length cs = length (Sb ! r)" using inner(4) by (auto dest: list_all2_lengthD)
  moreover have "\<forall>c \<in> set cs. fits n ks ds (strip c)"
    using inner(4-7) by (auto dest!: list_all2_right)
  ultimately show ?case using inner(1) by (simp add: node_ok_def reg_value_def)
qed

definition reg_walk :: "nat list \<Rightarrow> reg \<Rightarrow> fp list" where
  "reg_walk ks t = sid3_walk ks (strip t)"

lemma reg_walk_simps [simp]:
  "reg_walk ks (REG Ts e att sz y grads cs) = (if cs = [] then y else map (reg_walk ks) cs ! (ks ! nat att))"
  by (simp add: reg_walk_def [abs_def] comp_def)

text \<open>\<open>kept\<close>: every inner node on the path of a record holds more records than the record's number.\<close>

fun kept :: "nat list \<Rightarrow> nat \<Rightarrow> reg \<Rightarrow> bool" where
  "kept ks i (REG Ts e att sz y grads cs) \<longleftrightarrow> cs = [] \<or> int i < sz \<and> (map (kept ks i) cs ! (ks ! nat att))"

text \<open>\<open>values_of\<close>: record \<open>i\<close> has exactly the values \<open>ks\<close> of the attributes.\<close>

definition values_of :: "bool list list list \<Rightarrow> nat \<Rightarrow> nat list \<Rightarrow> bool" where
  "values_of Sb i ks \<longleftrightarrow> list_all2 (\<lambda>k vbs. k < length vbs \<and> (\<forall>j < length vbs. vbs ! j ! i \<longleftrightarrow> j = k)) ks Sb"

definition grad_spec :: "nat \<Rightarrow> bool list list list \<Rightarrow> bool list \<Rightarrow> reg \<Rightarrow> fp list list \<Rightarrow> bool" where
  "grad_spec n Sb bs t gs \<longleftrightarrow> length gs = length bs \<and> (\<forall>i < length bs. length (gs ! i) = n \<and>
     (\<forall>ks. values_of Sb i ks \<longrightarrow> fsec (gs ! i) = (if bs ! i \<and> kept ks i t then fsec (reg_walk ks t) else 0)))"

lemma add_first_ok:
  assumes "sz \<le> int N" "length ret = N" "length g = N"
  shows "\<exists>r. add_first sz ret g = Inr r \<and> length r = N \<and>
    (\<forall>i < N. r ! i = (if int i < sz then share_add (ret ! i) (g ! i) else ret ! i))"
  using assms by (simp add: add_first_def)

lemma reg_grad_sum:
  assumes "\<forall>c \<in> set cs. \<exists>g. reg_grad n c = Inr g \<and> length g = N \<and> (\<forall>i < N. length (g ! i) = n \<and> fsec (g ! i) = v c i)"
    and "sz \<le> int N" "length ret = N" "\<forall>i < N. length (ret ! i) = n"
  shows "\<exists>gs. reg_grad_children n sz ret cs = Inr gs \<and> length gs = N \<and>
    (\<forall>i < N. length (gs ! i) = n \<and> fsec (gs ! i) = fsec (ret ! i) + (if int i < sz then sum_list (map (\<lambda>c. v c i) cs) else 0))"
  using assms
proof (induction cs arbitrary: ret)
  case (Cons c cs)
  from Cons.prems(1) obtain g where g: "reg_grad n c = Inr g" "length g = N" "\<forall>i < N. length (g ! i) = n \<and> fsec (g ! i) = v c i"
    by auto
  from add_first_ok [OF Cons.prems(2,3) g(2)] obtain r where r: "add_first sz ret g = Inr r" "length r = N"
    "\<forall>i < N. r ! i = (if int i < sz then share_add (ret ! i) (g ! i) else ret ! i)" by blast
  have rl: "\<forall>i < N. length (r ! i) = n" "\<forall>i < N. fsec (r ! i) = fsec (ret ! i) + (if int i < sz then v c i else 0)"
    using r(3) g(3) Cons.prems(4) by (auto simp: share_simps)
  from Cons.IH [OF _ Cons.prems(2) r(2) rl(1)] Cons.prems(1) obtain gs where "reg_grad_children n sz r cs = Inr gs" "length gs = N"
    "\<forall>i < N. length (gs ! i) = n \<and> fsec (gs ! i) = fsec (r ! i) + (if int i < sz then sum_list (map (\<lambda>c. v c i) cs) else 0)"
    by auto
  with g(1) r(1) rl(2) show ?case by auto
qed simp

lemma sum_list_single:
  "k < length xs \<Longrightarrow> \<forall>j < length xs. j \<noteq> k \<longrightarrow> xs ! j = 0 \<Longrightarrow> sum_list xs = (xs ! k :: int)"
proof (induction xs arbitrary: k)
  case (Cons x xs)
  show ?case
  proof (cases k)
    case 0
    have "xs ! j = 0" if "j < length xs" for j
      using Cons.prems(2) 0 that by (auto dest!: spec [of _ "Suc j"])
    then have "\<forall>y \<in> set xs. y = 0" by (auto simp: in_set_conv_nth)
    then have "sum_list xs = 0" by (induction xs) auto
    with 0 show ?thesis by simp
  next
    case (Suc k')
    then have "x = 0" using Cons.prems(2) by force
    moreover have "sum_list xs = xs ! k'"
      using Cons.prems Suc by (intro Cons.IH) auto
    ultimately show ?thesis using Suc by simp
  qed
qed simp

lemma wpE_grad:
  assumes "reg_tree n targets Sb bs R t" and "\<forall>r \<in> set R. r < length Sb" "\<forall>vbs \<in> set Sb. \<forall>vb \<in> set vbs. length vb = length bs"
  shows "\<exists>gs. reg_grad n t = Inr gs \<and> grad_spec n Sb bs t gs"
  using assms
proof (induction rule: reg_tree.induct)
  case (leaf bs Ts y grads R e)
  then show ?case by (simp add: node_ok_def grad_spec_def)
next
  case (inner bs Ts y grads r R cs e)
  let ?N = "length bs" and ?sz = "int (count_true bs)"
  have r: "r < length Sb" using inner(3,5) by auto
  have len: "length cs = length (Sb ! r)" using inner(4) by (auto dest: list_all2_lengthD)
  have child: "\<exists>g. reg_grad n (cs ! j) = Inr g \<and> grad_spec n Sb (masked bs (Sb ! r ! j)) (cs ! j) g \<and> length (masked bs (Sb ! r ! j)) = ?N"
    if "j < length cs" for j
  proof -
    have "length (Sb ! r ! j) = ?N" using inner(6) r that len by (metis nth_mem)
    then have "length (masked bs (Sb ! r ! j)) = ?N" by simp
    with list_all2_nthD2 [OF inner(4) that] inner(5,6) show ?thesis by auto
  qed
  define v where "v c i = fsec (projr (reg_grad n c) ! i)" for c i
  have v: "\<forall>c \<in> set cs. \<exists>g. reg_grad n c = Inr g \<and> length g = ?N \<and> (\<forall>i < ?N. length (g ! i) = n \<and> fsec (g ! i) = v c i)"
  proof
    fix c assume "c \<in> set cs"
    then obtain j where j: "j < length cs" "c = cs ! j" by (auto simp: in_set_conv_nth)
    from child [OF j(1)] obtain g where "reg_grad n c = Inr g" "grad_spec n Sb (masked bs (Sb ! r ! j)) c g"
      "length (masked bs (Sb ! r ! j)) = ?N" using j(2) by auto
    then show "\<exists>g. reg_grad n c = Inr g \<and> length g = ?N \<and> (\<forall>i < ?N. length (g ! i) = n \<and> fsec (g ! i) = v c i)"
      by (simp add: v_def grad_spec_def)
  qed
  have zero: "\<forall>i < ?N. length (replicate ?N (replicate n 0) ! i) = n" "?sz \<le> int ?N" by (simp_all add: count_true_le)
  from reg_grad_sum [OF v zero(2) _ zero(1)] obtain gs where gs: "reg_grad_children n ?sz (replicate ?N (replicate n 0)) cs = Inr gs"
    "length gs = ?N" "\<forall>i < ?N. length (gs ! i) = n \<and> fsec (gs ! i) = fsec (replicate ?N (replicate n 0) ! i) +
      (if int i < ?sz then sum_list (map (\<lambda>c. v c i) cs) else 0)" by auto
  have "fsec (gs ! i) = (if bs ! i \<and> kept ks i (REG Ts e (int r) ?sz y grads cs) then fsec (reg_walk ks (REG Ts e (int r) ?sz y grads cs)) else 0)"
    if ne: "cs \<noteq> []" and i: "i < ?N" and ks: "values_of Sb i ks" for i ks
  proof -
    have k: "ks ! r < length cs" "\<forall>j < length cs. Sb ! r ! j ! i \<longleftrightarrow> j = ks ! r"
      using ks r len unfolding values_of_def by (auto simp: list_all2_conv_all_nth)
    have vj: "v (cs ! j) i = (if bs ! i \<and> j = ks ! r \<and> kept ks i (cs ! j) then fsec (reg_walk ks (cs ! j)) else 0)" if j: "j < length cs" for j
    proof -
      from child [OF j] obtain g where g: "reg_grad n (cs ! j) = Inr g" "grad_spec n Sb (masked bs (Sb ! r ! j)) (cs ! j) g"
        "length (masked bs (Sb ! r ! j)) = ?N" by auto
      have "masked bs (Sb ! r ! j) ! i \<longleftrightarrow> bs ! i \<and> j = ks ! r"
        using g(3) i j k(2) by (auto simp: masked_def)
      with g i ks show ?thesis by (simp add: v_def grad_spec_def)
    qed
    have "sum_list (map (\<lambda>c. v c i) cs) = map (\<lambda>c. v c i) cs ! (ks ! r)"
      by (rule sum_list_single) (use k vj in auto)
    with gs(3) i k vj ne show ?thesis by (auto simp: share_simps)
  qed
  moreover have "reg_grad n (REG Ts e (int r) ?sz y grads cs) = (if cs = [] then Inr grads else Inr gs)"
    using gs(1) inner(1) by (simp add: node_ok_def)
  ultimately show ?case
    using gs(2,3) inner(1) by (cases "cs = []") (simp_all add: node_ok_def grad_spec_def)
qed

end
