(* ===== verification/Sgbm.thy ===== *)
theory Sgbm
  imports SidReg
begin

section \<open>What boosting learns\<close>

text \<open>
  The two results of \<open>GBDT/SID3Regression.cpp\<close> and \<open>GBDT/SGBM.hpp\<close>: trees with their gradients, and the agreement of the predictions
  made while training with those of the trained model.
\<close>

subsection \<open>Sums of gradients\<close>

text \<open>\<open>near n k lr y0 vs z\<close>: \<open>z\<close> is \<open>y0\<close> plus the sum of \<open>lr\<close> times each of \<open>vs\<close>, with one unit of error per party and term.\<close>

definition near :: "nat \<Rightarrow> fp \<Rightarrow> int \<Rightarrow> int list \<Rightarrow> int \<Rightarrow> bool" where
  "near n lr y0 vs z \<longleftrightarrow> \<bar>shift * (z - y0) - fpVal lr * sum_list vs\<bar> \<le> shift * int n * int (length vs)"

lemma near_Nil: "near n lr y0 [] y0"
  by (simp add: near_def)

lemma near_snoc:
  assumes "near n lr y0 vs z" "\<bar>shift * d - fpVal lr * v\<bar> \<le> shift * int n"
  shows "near n lr y0 (vs @ [v]) (z + d)"
proof -
  have "shift * (z + d - y0) - fpVal lr * sum_list (vs @ [v]) =
      (shift * (z - y0) - fpVal lr * sum_list vs) + (shift * d - fpVal lr * v)"
    by (simp add: algebra_simps)
  then have "\<bar>shift * (z + d - y0) - fpVal lr * sum_list (vs @ [v])\<bar> \<le> shift * int n * int (length vs) + shift * int n"
    using abs_triangle_ineq [of "shift * (z - y0) - fpVal lr * sum_list vs" "shift * d - fpVal lr * v"] assms
    by (simp add: near_def)
  then show ?thesis by (simp add: near_def distrib_left)
qed

lemma near_near:
  assumes "near n lr y0 vs z" "near n lr y0 vs z'"
  shows "\<bar>z - z'\<bar> \<le> 2 * int n * int (length vs)"
proof -
  let ?a = "shift * (z - y0) - fpVal lr * sum_list vs" and ?b = "shift * (z' - y0) - fpVal lr * sum_list vs"
  have "?a - ?b = shift * (z - z')" by (simp add: algebra_simps)
  then have "shift * \<bar>z - z'\<bar> = \<bar>?a - ?b\<bar>" by (simp add: abs_mult)
  also have "\<bar>?a - ?b\<bar> \<le> \<bar>?a\<bar> + \<bar>?b\<bar>" by (rule abs_triangle_ineq4)
  also have "\<bar>?a\<bar> + \<bar>?b\<bar> \<le> shift * int n * int (length vs) + shift * int n * int (length vs)"
    using assms unfolding near_def by (rule add_mono)
  also have "\<dots> = shift * (2 * int n * int (length vs))" by simp
  finally show ?thesis by simp
qed

subsection \<open>The loop\<close>

text \<open>
  \<open>trained\<close>: the trees are regression trees of all records, and the current prediction of every record that no tree drops is near the
  start value plus \<open>lr\<close> times the values of its leaves.
\<close>

definition trained :: "nat \<Rightarrow> fp \<Rightarrow> bool list list list \<Rightarrow> bool list \<Rightarrow> nat list \<Rightarrow> int \<Rightarrow> reg list \<Rightarrow> fp list list \<Rightarrow> bool" where
  "trained n lr Sb bs R y0 ts cy \<longleftrightarrow> (\<forall>t \<in> set ts. \<exists>targets. reg_tree n targets Sb bs R t) \<and>
     length cy = length bs \<and> (\<forall>i < length bs. length (cy ! i) = n \<and>
       (\<forall>ks. values_of Sb i ks \<and> bs ! i \<and> (\<forall>t \<in> set ts. kept ks i t) \<longrightarrow>
          near n lr y0 (map (\<lambda>t. fsec (reg_walk ks t)) ts) (fsec (cy ! i))))"

lemma data_bits_lengths:
  assumes S: "data_bits n N Sb S"
  shows "\<forall>vbs \<in> set Sb. \<forall>vb \<in> set vbs. length vb = N"
proof (intro ballI)
  fix vbs vb assume "vbs \<in> set Sb" and vb: "vb \<in> set vbs"
  then obtain a where "a < length Sb" "vbs = Sb ! a" by (auto simp: in_set_conv_nth)
  with list_all2_nthD [OF S [unfolded data_bits_def]] have "class_bits n N vbs (S ! a)" by simp
  then show "length vb = N" using vb by (rule length_class_bits)
qed

lemma wpS_boost_step:
  assumes F: "boost_ok F" and n: "n \<le> 100" and N: "length bs \<le> 10 ^ 8" and ts: "\<forall>t \<in> set targets. length t = n" "length targets = length bs"
    and S: "data_bits n (length bs) Sb S" and Ts: "bit_shares n bs Ts" and R: "\<forall>r \<in> set R. r < length Sb" and fuel: "length R < fuel"
    and w: "wf_world P T J n sp w" and tr: "trained n lr Sb bs R y0 trs cy"
    and post: "\<And>t cy' w'. wf_world P T J n sp w' \<Longrightarrow> w_ok w' = w_ok w \<Longrightarrow> trained n lr Sb bs R y0 (trs @ [t]) cy' \<Longrightarrow> Q (t, cy') w'"
  shows "wpS E Q (boost_step F fuel lr Ts S targets R cy) w"
proof -
  let ?N = "length bs"
  have sp: "n_parties w = n" using w by (auto simp: wf_world_def n_parties_def)
  have lenT: "length Ts = ?N" by (rule bit_sharesD(1) [OF Ts])
  have cy: "length cy = ?N" "\<forall>i < ?N. length (cy ! i) = n" using tr by (simp_all add: trained_def)
  have tn: "\<forall>i < ?N. length (targets ! i) = n" using ts by (metis nth_mem)
  define diff where "diff = map (\<lambda>i. share_sub (targets ! i) (cy ! i)) [0..<?N]"
  have d: "mapE (\<lambda>i. bindE (nth_or_ub targets i) (\<lambda>t. Inr (share_sub t (cy ! i)))) [0..<length Ts] = Inr diff"
    unfolding lenT diff_def by (rule mapE_Inr) (use ts(2) in \<open>simp add: nth_or_ub_def\<close>)
  have dl: "\<forall>t \<in> set diff. length t = n" "length diff = ?N"
    using tn cy by (auto simp: diff_def share_simps)
  note Sl = data_bits_lengths [OF S]
  have "wpS E (\<lambda>tree. wpS E Q (bindS (liftS (reg_grad n tree)) (\<lambda>grad.
     bindS (liftS (mapE (\<lambda>i. bindE (nth_or_ub grad i) (\<lambda>g. Inr (share_add (cy ! i) (share_scale lr g)))) [0..<length Ts])) (\<lambda>cy'.
     retS (tree, cy'))))) (regTree F fuel Ts S diff R) w"
  proof (rule wpS_regTree [OF F n N dl S w Ts refl R fuel])
    fix t w1 assume w1: "wf_world P T J n sp w1" "w_ok w1 = w_ok w" and t: "reg_tree n diff Sb bs R t"
    from wpE_grad [OF t R Sl] obtain gs where gs: "reg_grad n t = Inr gs" "grad_spec n Sb bs t gs" by blast
    define cy' where "cy' = map (\<lambda>i. share_add (cy ! i) (share_scale lr (gs ! i))) [0..<?N]"
    have c: "mapE (\<lambda>i. bindE (nth_or_ub gs i) (\<lambda>g. Inr (share_add (cy ! i) (share_scale lr g)))) [0..<length Ts] = Inr cy'"
      unfolding lenT cy'_def by (rule mapE_Inr) (use gs(2) in \<open>simp add: nth_or_ub_def grad_spec_def\<close>)
    have "near n lr y0 (map (\<lambda>t. fsec (reg_walk ks t)) (trs @ [t])) (fsec (cy' ! i))"
      if i: "i < ?N" and ks: "values_of Sb i ks" "bs ! i" "\<forall>t \<in> set (trs @ [t]). kept ks i t" for i ks
    proof -
      have g: "length (gs ! i) = n" "fsec (gs ! i) = fsec (reg_walk ks t)"
        using gs(2) i ks by (auto simp: grad_spec_def)
      have "near n lr y0 (map (\<lambda>t. fsec (reg_walk ks t)) trs) (fsec (cy ! i))"
        using tr i ks by (simp add: trained_def)
      from near_snoc [OF this, of "fsec (share_scale lr (gs ! i))" "fsec (reg_walk ks t)"]
      show ?thesis
        using fsec_scale_error [of lr "gs ! i"] g i cy(2) by (simp add: cy'_def share_simps)
    qed
    moreover have "\<forall>i < ?N. length (cy' ! i) = n"
      using cy(2) gs(2) by (simp add: cy'_def grad_spec_def share_simps)
    ultimately have "trained n lr Sb bs R y0 (trs @ [t]) cy'"
      using tr t unfolding trained_def by (auto simp: cy'_def)
    from post [OF w1 this] gs(1) c show "wpS E Q (bindS (liftS (reg_grad n t)) (\<lambda>grad.
       bindS (liftS (mapE (\<lambda>i. bindE (nth_or_ub grad i) (\<lambda>g. Inr (share_add (cy ! i) (share_scale lr g)))) [0..<length Ts])) (\<lambda>cy'.
       retS (t, cy')))) w1" by simp
  qed
  then show ?thesis
    using d by (simp add: boost_step_def sp)
qed

lemma wpS_boost_loop:
  assumes F: "boost_ok F" and n: "n \<le> 100" and N: "length bs \<le> 10 ^ 8" and ts: "\<forall>t \<in> set targets. length t = n" "length targets = length bs"
    and S: "data_bits n (length bs) Sb S" and Ts: "bit_shares n bs Ts" and R: "\<forall>r \<in> set R. r < length Sb" and fuel: "length R < fuel"
  shows "wf_world P T J n sp w \<Longrightarrow> trained n lr Sb bs R y0 trs cy \<Longrightarrow>
    (\<And>trs' cy' w'. wf_world P T J n sp w' \<Longrightarrow> w_ok w' = w_ok w \<Longrightarrow> length trs' = length trs + k \<Longrightarrow> trained n lr Sb bs R y0 trs' cy' \<Longrightarrow>
      Q (trs', cy') w') \<Longrightarrow>
    wpS E Q (boost_loop F fuel lr Ts S targets R k trs cy) w"
proof (induction k arbitrary: trs cy w)
  case (Suc k)
  show ?case
    unfolding boost_loop.simps wpS_bindS
  proof (rule wpS_boost_step [OF F n N ts S Ts R fuel Suc.prems(1,2)], unfold prod.case)
    fix t cy' w1 assume w1: "wf_world P T J n sp w1" "w_ok w1 = w_ok w" and tr: "trained n lr Sb bs R y0 (trs @ [t]) cy'"
    show "wpS E Q (boost_loop F fuel lr Ts S targets R k (trs @ [t]) cy') w1"
      by (rule Suc.IH [OF w1(1) tr]) (use w1 Suc.prems(3) in simp)
  qed
qed simp

subsection \<open>Prediction with the model\<close>

lemma wpS_sgbm_sum:
  assumes D: "list_all2 (one_hot n) ks ds" and fit: "\<forall>t \<in> set ts. fits n ks ds (strip t)"
  shows "wf_world P T J n sp w \<Longrightarrow> length ret = n \<Longrightarrow> near n lr y0 vs (fsec ret) \<Longrightarrow>
    (\<And>z w'. wf_world P T J n sp w' \<Longrightarrow> length z = n \<Longrightarrow> near n lr y0 (vs @ map (\<lambda>t. fsec (reg_walk ks t)) ts) (fsec z) \<Longrightarrow> Q z w') \<Longrightarrow>
    wpS E Q (sgbm_sum lr ds ret ts) w"
  using fit
proof (induction ts arbitrary: ret vs w)
  case (Cons t ts)
  show ?case
    unfolding sgbm_sum.simps wpS_bindS reg_predict_strip(1)
  proof (rule wpS_predict(1) [OF D Cons.prems(1)])
    show "fits n ks ds (strip t)" using Cons.prems(5) by simp
    fix p w1 assume w1: "wf_world P T J n sp w1" and p: "length p = n" "fsec p = fsec (sid3_walk ks (strip t))"
    have "near n lr y0 (vs @ [fsec (reg_walk ks t)]) (fsec ret + fsec (share_scale lr p))"
      by (rule near_snoc [OF Cons.prems(3)]) (use fsec_scale_error [of lr p] p in \<open>simp add: reg_walk_def\<close>)
    then have "near n lr y0 (vs @ [fsec (reg_walk ks t)]) (fsec (share_add ret (share_scale lr p)))"
      using Cons.prems(2) p(1) by (simp add: share_simps)
    from Cons.IH [OF w1 _ this] show "wpS E Q (sgbm_sum lr ds (share_add ret (share_scale lr p)) ts) w1"
      using Cons.prems(2,4,5) p(1) by (simp add: share_simps)
  qed
qed simp

subsection \<open>Properties\<close>

text \<open>
  C13. \<open>SID3Regression::createTree\<close> ends without undefined behaviour for up to 100 parties and \<open>10^8\<close> records, once the fuel exceeds the number
  of attributes. The tree has the exact number of records in every node, and as value of a node the mean of its targets up to the
  error of the division; it branches on an attribute left, into one child per value, while the node holds more than a third of
  all records. \<open>predict\<close> gives, for a one-hot record, exactly the value of the leaf the record belongs to. \<open>grad\<close> agrees with
  it for record \<open>i\<close> only if every inner node on its path holds more than \<open>i\<close> records; otherwise it gives 0.
\<close>

theorem regTree_correct:
  assumes "wf_world P T J n sp w" "boost_ok F" "n \<le> 100" "length bs \<le> 10 ^ 8" "\<forall>t \<in> set targets. length t = n" "length targets = length bs"
    and "data_bits n (length bs) Sb S" "bit_shares n bs Ts" "\<forall>r \<in> set R. r < length Sb" "length R < fuel"
  shows "\<exists>t w' gs. regTree F fuel Ts S targets R w = Inr (t, w') \<and> wf_world P T J n sp w' \<and> reg_tree n targets Sb bs R t \<and>
    reg_grad n t = Inr gs \<and> length gs = length bs \<and>
    (\<forall>i < length bs. \<forall>ks. values_of Sb i ks \<longrightarrow>
       fpVal (recons (gs ! i)) = (if bs ! i \<and> kept ks i t then fpVal (recons (reg_walk ks t)) else 0)) \<and>
    (\<forall>ks ds w1. list_all2 (\<lambda>k vbs. k < length vbs) ks Sb \<and> list_all2 (one_hot n) ks ds \<and>
       list_all2 (\<lambda>d vbs. length d = length vbs) ds Sb \<and> wf_world P T J n sp w1 \<longrightarrow>
       (\<exists>z w2. reg_predict ds t w1 = Inr (z, w2) \<and> length z = n \<and> recons z = recons (reg_walk ks t)))"
proof -
  have "wpS (\<lambda>_. False) (\<lambda>t w'. wf_world P T J n sp w' \<and> reg_tree n targets Sb bs R t) (regTree F fuel Ts S targets R) w"
    by (rule wpS_regTree [OF assms(2-7,1,8) refl assms(9,10)]) simp
  then obtain t w' where t: "regTree F fuel Ts S targets R w = Inr (t, w')" "wf_world P T J n sp w'" "reg_tree n targets Sb bs R t"
    unfolding wpS_total by blast
  from wpE_grad [OF t(3) assms(9) data_bits_lengths [OF assms(7)]] obtain gs where gs: "reg_grad n t = Inr gs" "grad_spec n Sb bs t gs" by blast
  have "\<exists>z w2. reg_predict ds t w1 = Inr (z, w2) \<and> length z = n \<and> recons z = recons (reg_walk ks t)"
    if "list_all2 (\<lambda>k vbs. k < length vbs) ks Sb" "list_all2 (one_hot n) ks ds" "list_all2 (\<lambda>d vbs. length d = length vbs) ds Sb"
      "wf_world P T J n sp w1" for ks ds w1
  proof -
    have "wpS (\<lambda>_. False) (\<lambda>z w2. length z = n \<and> recons z = recons (reg_walk ks t)) (reg_predict ds t) w1"
      unfolding reg_predict_strip(1)
      by (rule wpS_predict(1) [OF that(2,4) reg_tree_fits [OF t(3) that(1) assms(9) that(3)]])
        (auto simp: reg_walk_def fpVal_recons intro: fp.expand)
    then show ?thesis unfolding wpS_total by blast
  qed
  with t gs show ?thesis
    unfolding grad_spec_def fpVal_recons by (intro exI [of _ t] exI [of _ w'] exI [of _ gs]) simp
qed

text \<open>Three records, all in the root; the two attributes have one value that two of them have, then one value that all have.\<close>

definition demo_targets' :: "fp list list" where
  "demo_targets' = [[FP 300000000, FP 0], [FP 50000000, FP 50000000]]"

lemma demo_targets'_ok: "\<forall>t \<in> set demo_targets'. length t = 2" "length demo_targets' = length [True, True]"
  by (simp_all add: demo_targets'_def)

lemma demo_walk:
  assumes "reg_tree 2 demo_targets' demo_data [True, True] [0] t"
  shows "fsec (reg_walk [0] t) = 300000000"
  using assms
proof (cases rule: reg_tree.cases)
  case (leaf Ts y grads e)
  then show ?thesis by (simp add: count_true_def)
next
  case (inner Ts y grads r cs e)
  then obtain c cs' where cs: "cs = c # cs'" "reg_tree 2 demo_targets' demo_data [True, False] [] c" "r = 0"
    by (auto simp: demo_data_def masked_def list_all2_Cons1)
  from cs(2) have "fsec (reg_walk [0] c) = 300000000"
    by (cases rule: reg_tree.cases)
      (auto simp: node_ok_def reg_value_def count_true_def target_sum_def demo_targets'_def fsec_def)
  with inner cs show ?thesis by simp
qed

theorem regTree_correct_witness:
  "\<exists>t w' z w2. regTree ref_boost 2 (map demo_bit [True, True]) (map (map (map demo_bit)) demo_data) demo_targets' [0] demo_world = Inr (t, w') \<and>
     reg_predict [[demo_bit True, demo_bit False]] t w' = Inr (z, w2) \<and> fpVal (recons z) = 300000000"
proof -
  have S: "data_bits 2 (length [True, True]) demo_data (map (map (map demo_bit)) demo_data)" using demo_tables(2) by (simp add: numeral_2_eq_2)
  have a: "length [True, True] \<le> 10 ^ 8" "\<forall>r \<in> set [0]. r < length demo_data" "length [0 :: nat] < 2" by (simp_all add: demo_data_def)
  from regTree_correct [OF wf_demo_world boost_ok_ref _ a(1) demo_targets'_ok S demo_bits a(2,3)] obtain t w' where
    t: "regTree ref_boost 2 (map demo_bit [True, True]) (map (map (map demo_bit)) demo_data) demo_targets' [0] demo_world = Inr (t, w')"
      "wf_world (\<lambda>_. True) 100000 1 2 0 w'" "reg_tree 2 demo_targets' demo_data [True, True] [0] t"
      "\<forall>ks ds w1. list_all2 (\<lambda>k vbs. k < length vbs) ks demo_data \<and> list_all2 (one_hot 2) ks ds \<and>
         list_all2 (\<lambda>d vbs. length d = length vbs) ds demo_data \<and> wf_world (\<lambda>_. True) 100000 1 2 0 w1 \<longrightarrow>
         (\<exists>z w2. reg_predict ds t w1 = Inr (z, w2) \<and> length z = 2 \<and> recons z = recons (reg_walk ks t))"
    by (auto simp del: list.map)
  have "list_all2 (one_hot 2) [0] [[demo_bit True, demo_bit False]]"
    using demo_bits [of "[True, False]"] by (simp add: one_hot_def upt_rec)
  then have "list_all2 (\<lambda>k vbs. k < length vbs) [0] demo_data \<and> list_all2 (one_hot 2) [0] [[demo_bit True, demo_bit False]] \<and>
      list_all2 (\<lambda>d vbs. length d = length vbs) [[demo_bit True, demo_bit False]] demo_data"
    by (simp add: demo_data_def)
  with t(2,4) obtain z w2 where "reg_predict [[demo_bit True, demo_bit False]] t w' = Inr (z, w2)" "recons z = recons (reg_walk [0] t)"
    by blast
  moreover from this(2) have "fpVal (recons z) = 300000000"
    using demo_walk [OF t(3)] by (simp only: fpVal_recons [of "reg_walk [0] t"])
  ultimately show ?thesis using t(1) by blast
qed

text \<open>
  A record that \<open>grad\<close> drops: of three records, the last two share a value of the first attribute. Their node holds two records, so its
  gradients end before record 2, whose value is 7.
\<close>

definition dropped_tree :: reg where
  "dropped_tree =
     (let leaf = REG [[0], [FP 100000000], [FP 100000000]] 0 (- 1) 2 [FP 700000000] [[0], [FP 700000000], [FP 700000000]] [];
          one = REG [[FP 100000000], [0], [0]] 0 1 1 [FP 100000000] [[FP 100000000], [0], [0]] []
      in REG [[FP 100000000], [FP 100000000], [FP 100000000]] 0 0 3 [FP 500000000]
           [[FP 500000000], [FP 500000000], [FP 500000000]]
           [one, REG [[0], [FP 100000000], [FP 100000000]] 0 1 2 [FP 700000000] [[0], [FP 700000000], [FP 700000000]] [leaf]])"

lemma grad_drops_record:
  "reg_walk [1, 0] dropped_tree = [FP 700000000]" "reg_grad 1 dropped_tree = Inr [[FP 100000000], [FP 700000000], [FP 0]]"
  by (simp_all add: dropped_tree_def add_first_def share_add_def zero_fp_def plus_fp_def fp_add_def upt_rec)

text \<open>
  C14. Boosting: the training ends, makes one regression tree per iteration, and for every training record that \<open>grad\<close> drops in none of them the
  prediction \<open>SGBM::predict\<close> makes for the record equals the prediction the training arrived at, up to two units in the last place per
  party and tree.
\<close>

theorem boosting_predicts_training:
  assumes "wf_world P T J n sp w" "boost_ok F" "n \<le> 100" "length bs \<le> 10 ^ 8" "\<forall>t \<in> set targets. length t = n" "length targets = length bs"
    and "data_bits n (length bs) Sb S" "bit_shares n bs Ts" "\<forall>r \<in> set R. r < length Sb" "length R < fuel" "trees m = []"
  shows "\<exists>m' cy w'. boosting F fuel lr Ts S targets R k m w = Inr ((m', cy), w') \<and> length (trees m') = k \<and> length cy = length bs \<and>
    (\<forall>t \<in> set (trees m'). \<exists>ts. reg_tree n ts Sb bs R t) \<and>
    (\<forall>i < length bs. \<forall>ks ds w1. bs ! i \<and> values_of Sb i ks \<and> (\<forall>t \<in> set (trees m'). kept ks i t) \<and>
       list_all2 (one_hot n) ks ds \<and> list_all2 (\<lambda>d vbs. length d = length vbs) ds Sb \<and> wf_world P T J n sp w1 \<longrightarrow>
       (\<exists>z w2. sgbm_predict lr m' ds w1 = Inr (z, w2) \<and> \<bar>fpVal (recons z) - fpVal (recons (cy ! i))\<bar> \<le> 2 * int n * int k))"
proof -
  have sp: "n_parties w = n" using assms(1) by (auto simp: wf_world_def n_parties_def)
  define y0 where "y0 = smean (decs F) n targets"
  have y0: "length y0 = n"
    using length_sum_share_of [OF assms(5)] by (simp add: y0_def smean_def)
  have start: "trained n lr Sb bs R (fsec y0) [] (replicate (length Ts) y0)"
    using y0 bit_sharesD(1) [OF assms(8)] by (simp add: trained_def near_Nil)
  have "wpS (\<lambda>_. False) (\<lambda>(ts, cy) w'. length ts = k \<and> trained n lr Sb bs R (fsec y0) ts cy)
      (boost_loop F fuel lr Ts S targets R k [] (replicate (length Ts) y0)) w"
    by (rule wpS_boost_loop [OF assms(2-10,1) start]) simp
  then obtain ts cy w' where l: "boost_loop F fuel lr Ts S targets R k [] (replicate (length Ts) y0) w = Inr ((ts, cy), w')"
    "length ts = k" "trained n lr Sb bs R (fsec y0) ts cy"
    unfolding wpS_total by auto
  have "\<exists>z w2. sgbm_predict lr \<lparr>trees = ts, init_y = y0\<rparr> ds w1 = Inr (z, w2) \<and> \<bar>fpVal (recons z) - fpVal (recons (cy ! i))\<bar> \<le> 2 * int n * int k"
    if i: "i < length bs" and v: "values_of Sb i ks" and h: "bs ! i" "\<forall>t \<in> set ts. kept ks i t" "list_all2 (one_hot n) ks ds"
      "list_all2 (\<lambda>d vbs. length d = length vbs) ds Sb" "wf_world P T J n sp w1" for i ks ds w1
  proof -
    have ks: "list_all2 (\<lambda>k vbs. k < length vbs) ks Sb"
      using v unfolding values_of_def by (rule list_all2_mono) simp
    have fit: "\<forall>t \<in> set ts. fits n ks ds (strip t)"
      using l(3) reg_tree_fits [OF _ ks assms(9) h(4)] unfolding trained_def by blast
    have near: "near n lr (fsec y0) (map (\<lambda>t. fsec (reg_walk ks t)) ts) (fsec (cy ! i))"
      using l(3) i v h unfolding trained_def by blast
    have "wpS (\<lambda>_. False) (\<lambda>z w2. \<bar>fpVal (recons z) - fpVal (recons (cy ! i))\<bar> \<le> 2 * int n * int k) (sgbm_sum lr ds y0 ts) w1"
      by (rule wpS_sgbm_sum [OF h(3) fit h(5) y0 near_Nil]) (use near_near [OF _ near] l(2) in \<open>simp add: fpVal_recons\<close>)
    then show ?thesis unfolding wpS_total sgbm_predict_def by auto
  qed
  moreover have "boosting F fuel lr Ts S targets R k m w = Inr ((\<lparr>trees = ts, init_y = y0\<rparr>, cy), w')"
    using l(1) assms(11) by (simp add: boosting_def sp y0_def Let_def withW_def bindS_def retS_def)
  ultimately show ?thesis
    using l(2,3) by (intro exI [of _ "\<lparr>trees = ts, init_y = y0\<rparr>"] exI [of _ cy] exI [of _ w']) (auto simp: trained_def)
qed

lemma demo_kept:
  assumes "reg_tree 2 ts demo_data [True, True] [0] t"
  shows "kept [0] 0 t"
  using assms
proof (cases rule: reg_tree.cases)
  case (leaf Ts y grads e)
  then show ?thesis by (simp add: count_true_def)
next
  case (inner Ts y grads r cs e)
  then obtain c cs' where cs: "cs = c # cs'" "reg_tree 2 ts demo_data [True, False] [] c" "r = 0"
    by (auto simp: demo_data_def masked_def list_all2_Cons1)
  from cs(2) have "kept [0] 0 c" by (cases rule: reg_tree.cases) auto
  with inner cs show ?thesis by (simp add: count_true_def)
qed

theorem boosting_predicts_training_witness:
  "\<exists>m cy w' z w2. boosting ref_boost 2 (FP 10000000) (map demo_bit [True, True]) (map (map (map demo_bit)) demo_data) demo_targets' [0] 1
       \<lparr>trees = [], init_y = []\<rparr> demo_world = Inr ((m, cy), w') \<and>
     sgbm_predict (FP 10000000) m [[demo_bit True, demo_bit False]] demo_world = Inr (z, w2) \<and>
     \<bar>fpVal (recons z) - fpVal (recons (cy ! 0))\<bar> \<le> 4"
proof -
  have S: "data_bits 2 (length [True, True]) demo_data (map (map (map demo_bit)) demo_data)" using demo_tables(2) by (simp add: numeral_2_eq_2)
  have a: "length [True, True] \<le> 10 ^ 8" "\<forall>r \<in> set [0]. r < length demo_data" "length [0 :: nat] < 2" "trees \<lparr>trees = [], init_y = []\<rparr> = []"
    by (simp_all add: demo_data_def)
  from boosting_predicts_training [OF wf_demo_world boost_ok_ref _ a(1) demo_targets'_ok S demo_bits a(2,3,4), of "FP 10000000" 1]
  obtain m cy w' where m: "boosting ref_boost 2 (FP 10000000) (map demo_bit [True, True]) (map (map (map demo_bit)) demo_data) demo_targets' [0] 1
       \<lparr>trees = [], init_y = []\<rparr> demo_world = Inr ((m, cy), w')"
    "\<forall>t \<in> set (trees m). \<exists>ts. reg_tree 2 ts demo_data [True, True] [0] t"
    "\<forall>i < length [True, True]. \<forall>ks ds w1. [True, True] ! i \<and> values_of demo_data i ks \<and> (\<forall>t \<in> set (trees m). kept ks i t) \<and>
       list_all2 (one_hot 2) ks ds \<and> list_all2 (\<lambda>d vbs. length d = length vbs) ds demo_data \<and> wf_world (\<lambda>_. True) 100000 1 2 0 w1 \<longrightarrow>
       (\<exists>z w2. sgbm_predict (FP 10000000) m ds w1 = Inr (z, w2) \<and> \<bar>fpVal (recons z) - fpVal (recons (cy ! i))\<bar> \<le> 2 * int 2 * int 1)"
    by (auto simp del: list.map)
  have kept: "\<forall>t \<in> set (trees m). kept [0] 0 t"
    using m(2) by (fastforce intro: demo_kept)
  have h: "list_all2 (one_hot 2) [0] [[demo_bit True, demo_bit False]]"
    using demo_bits [of "[True, False]"] by (simp add: one_hot_def upt_rec)
  have v: "values_of demo_data 0 [0]" "list_all2 (\<lambda>d vbs. length d = length vbs) [[demo_bit True, demo_bit False]] demo_data"
    by (auto simp: values_of_def demo_data_def less_Suc_eq numeral_2_eq_2)
  have "\<exists>z w2. sgbm_predict (FP 10000000) m [[demo_bit True, demo_bit False]] demo_world = Inr (z, w2) \<and>
      \<bar>fpVal (recons z) - fpVal (recons (cy ! 0))\<bar> \<le> 2 * int 2 * int 1"
    by (rule m(3) [rule_format, of 0 "[0]"]) (use kept h v wf_demo_world in simp_all)
  with m(1) show ?thesis by auto
qed

end
