(* ===== verification/Db.thy ===== *)
theory Db
  imports Triples "HOL-Library.Word"
begin

section \<open>Database queries\<close>

text \<open>
  \<open>Client/AnyToDb\<close>: the text of the N1QL queries (\<open>N1QL.cpp\<close>) with the escaping of their parameters, the
  document keys (\<open>getCas\<close>, a time stamp with a counter in its low 16 bits), and the client that sends a query
  and puts the pieces of the answer together (\<open>Client.cpp\<close>). The clock, the connection attempts and the
  answers of the database gateway are parameters; the loops that wait for them take fuel.
\<close>

unbundle bit_operations_syntax

subsection \<open>Text of a query\<close>

definition replace_all :: "char \<Rightarrow> string \<Rightarrow> string \<Rightarrow> string" where
  "replace_all c r s = concat (map (\<lambda>x. if x = c then r else [x]) s)"

definition dquote :: char where "dquote = CHR 0x22"

definition squote :: char where "squote = CHR 0x27"

definition bquote :: char where "bquote = CHR 0x60"

definition quoted :: "char \<Rightarrow> string \<Rightarrow> string" where
  "quoted c s = [c] @ s @ [c]"

datatype n1ql_param_type = N1QL_SELECT_PARAM | N1QL_WHERE_PARAM

fun escape_injection :: "string \<Rightarrow> n1ql_param_type \<Rightarrow> string" where
  "escape_injection target N1QL_SELECT_PARAM = replace_all bquote [bquote] target"
| "escape_injection target N1QL_WHERE_PARAM = replace_all dquote [dquote, dquote] (replace_all squote [squote, squote] target)"

record n1ql_value =
  n1ql_val :: string
  n1ql_key :: string

definition toValueSetString :: "n1ql_value \<Rightarrow> string" where
  "toValueSetString v = ''('' @ quoted dquote (n1ql_key v) @ '','' @ n1ql_val v @ '')''"

definition clause_insert :: "string \<Rightarrow> string \<Rightarrow> string" where
  "clause_insert bucket v = ''INSERT INTO '' @ quoted bquote bucket @ '' (KEY, VALUE) VALUES '' @ v"

definition clause_update :: "string \<Rightarrow> string \<Rightarrow> string \<Rightarrow> string" where
  "clause_update bucket path expr = ''UPDATE '' @ quoted bquote bucket @ '' x SET x.'' @ path @ '' = '' @ expr @ '' ''"

definition clause_select :: "string \<Rightarrow> string" where
  "clause_select bucket = ''SELECT x.*, meta().id FROM '' @ quoted bquote bucket @ '' x ''"

definition clause_delete :: "string \<Rightarrow> string" where
  "clause_delete bucket = ''DELETE FROM '' @ quoted bquote bucket @ '' x ''"

definition clause_where :: "string \<Rightarrow> string \<Rightarrow> string" where
  "clause_where key d =
     ''WHERE x.'' @ escape_injection key N1QL_WHERE_PARAM @ '' = '' @ quoted dquote (escape_injection d N1QL_WHERE_PARAM) @ '' ''"

definition clause_returning :: string where
  "clause_returning = ''RETURNING x.*, meta().id ''"

definition clause_limit :: "nat \<Rightarrow> string" where
  "clause_limit lim = ''LIMIT '' @ to_string (int lim) @ '' ''"

definition n1ql_insert :: "string \<Rightarrow> n1ql_value \<Rightarrow> string" where
  "n1ql_insert bucket d = clause_insert bucket (toValueSetString d) @ clause_returning"

fun bulk_values :: "n1ql_value list \<Rightarrow> string" where
  "bulk_values [] = ''''"
| "bulk_values [d] = toValueSetString d"
| "bulk_values (d # ds) = toValueSetString d @ '','' @ bulk_values ds"

definition n1ql_bulkinsert :: "string \<Rightarrow> n1ql_value list \<Rightarrow> string" where
  "n1ql_bulkinsert bucket ds = clause_insert bucket (bulk_values ds) @ clause_returning"

definition n1ql_update :: "string \<Rightarrow> string \<times> string \<Rightarrow> string \<times> string \<Rightarrow> string" where
  "n1ql_update bucket cond path_expr =
     clause_update bucket (fst path_expr) (snd path_expr) @ clause_where (fst cond) (snd cond) @ clause_returning"

definition n1ql_select :: "string \<Rightarrow> string" where
  "n1ql_select bucket = clause_select bucket"

definition n1ql_select_id :: "string \<Rightarrow> string \<Rightarrow> string \<Rightarrow> string" where
  "n1ql_select_id bucket id_name i = clause_select bucket @ clause_where id_name i"

definition n1ql_delete_id :: "string \<Rightarrow> string \<Rightarrow> string \<Rightarrow> string" where
  "n1ql_delete_id bucket id_name i = clause_delete bucket @ clause_where id_name i @ clause_returning"

definition n1ql_delete_order :: "string \<Rightarrow> nat \<Rightarrow> string" where
  "n1ql_delete_order bucket amount = clause_delete bucket @ clause_limit amount @ clause_returning"

subsection \<open>Document keys\<close>

record cas_state =
  clock :: "nat \<Rightarrow> 64 word"
  clock_reads :: nat
  counter :: "16 word"
  precas :: "64 word"

definition getTimeStamp :: "cas_state \<Rightarrow> 64 word \<times> cas_state" where
  "getTimeStamp s = (clock s (clock_reads s), s\<lparr>clock_reads := clock_reads s + 1\<rparr>)"

definition getLogicalCounter :: "cas_state \<Rightarrow> 16 word \<times> cas_state" where
  "getLogicalCounter s = (counter s, s\<lparr>counter := counter s + 1\<rparr>)"

definition createCas :: "cas_state \<Rightarrow> 64 word \<times> cas_state" where
  "createCas s =
     (let (timestamp, s1) = getTimeStamp s; (logicalcounter, s2) = getLogicalCounter s1
      in ((0xffffffffffff0000 AND timestamp) OR ucast logicalcounter, s2))"

fun getCas_loop :: "nat \<Rightarrow> 64 word \<Rightarrow> (cas_state, 64 word) comp" where
  "getCas_loop 0 cas s = Inl OutOfFuel"
| "getCas_loop (Suc fuel) cas s =
     (if precas s \<noteq> 0 \<and> cas < precas s
      then let (cas', s') = createCas s in getCas_loop fuel cas' s'
      else Inr (cas, s\<lparr>precas := cas\<rparr>))"

definition getCas :: "nat \<Rightarrow> (cas_state, 64 word) comp" where
  "getCas fuel s = (let (cas, s1) = createCas s in getCas_loop fuel cas s1)"

subsection \<open>Sending a query\<close>

text \<open>
  \<open>RECONNECT_LIMIT\<close> attempts to reach the gateway again; the answer to a query is a stream of numbered pieces
  and a status. A piece number that comes twice keeps its first text.
\<close>

definition RECONNECT_LIMIT :: nat where "RECONNECT_LIMIT = 6"

function reconnect_loop :: "(nat \<Rightarrow> bool) \<Rightarrow> nat \<Rightarrow> nat \<Rightarrow> (bool \<times> nat) res" where
  "reconnect_loop up k cnt =
     (if up k then Inr (True, Suc k)
      else if cnt + 1 \<ge> RECONNECT_LIMIT then Inl (RuntimeError ''connect DB time out !'')
      else reconnect_loop up (Suc k) (cnt + 1))"
  by pat_completeness auto
termination by (relation "measure (\<lambda>(up, k, cnt). RECONNECT_LIMIT - cnt)") auto

declare reconnect_loop.simps [simp del]

definition reconnect :: "(nat \<Rightarrow> bool) \<Rightarrow> nat \<Rightarrow> (bool \<times> nat) res" where
  "reconnect up k = reconnect_loop up k 0"

datatype db_status = DbOk | DbUnavailable | DbError

record db_answer =
  ans_pieces :: "(int \<times> string) list"
  ans_status :: db_status

fun add_piece :: "(int \<times> 'a) list \<Rightarrow> int \<Rightarrow> 'a \<Rightarrow> (int \<times> 'a) list" where
  "add_piece [] i s = [(i, s)]"
| "add_piece ((j, t) # ps) i s =
     (if i < j then (i, s) # (j, t) # ps else if i = j then (j, t) # ps else (j, t) # add_piece ps i s)"

definition collect_pieces :: "(int \<times> 'a) list \<Rightarrow> (int \<times> 'a) list" where
  "collect_pieces ps = foldl (\<lambda>m (i, s). add_piece m i s) [] ps"

fun executeQuery :: "(nat \<Rightarrow> string \<Rightarrow> db_answer) \<Rightarrow> (nat \<Rightarrow> bool) \<Rightarrow> nat \<Rightarrow> nat \<Rightarrow> nat \<Rightarrow> string \<Rightarrow> string res" where
  "executeQuery db up 0 k c query = Inl OutOfFuel"
| "executeQuery db up (Suc fuel) k c query =
     (let a = db k query in
      case ans_status a of
        DbOk \<Rightarrow> Inr (concat (map snd (collect_pieces (ans_pieces a))))
      | DbUnavailable \<Rightarrow> bindE (reconnect up c) (\<lambda>(_, c'). executeQuery db up fuel (Suc k) c' query)
      | DbError \<Rightarrow> Inl (RuntimeError ''DBClientError : To DbGate Execute Query Failed''))"

subsection \<open>Reading an escaped literal back\<close>

text \<open>
  A string literal of the query language, after its opening quote: a doubled quote stands for one quote, a
  single one ends the literal. Returns the text and the rest of the query.
\<close>

fun read_literal :: "string \<Rightarrow> (string \<times> string) option" where
  "read_literal [] = None"
| "read_literal (c # cs) =
     (if c = dquote
      then (case cs of
              [] \<Rightarrow> Some ([], [])
            | d # ds \<Rightarrow> if d = dquote then map_option (\<lambda>(s, r). (dquote # s, r)) (read_literal ds) else Some ([], d # ds))
      else map_option (\<lambda>(s, r). (c # s, r)) (read_literal cs))"

definition double_squotes :: "string \<Rightarrow> string" where
  "double_squotes s = replace_all squote [squote, squote] s"

lemma replace_all_simps [simp]:
  "replace_all c r [] = []" "replace_all c r (x # xs) = (if x = c then r else [x]) @ replace_all c r xs"
  by (simp_all add: replace_all_def)

lemma read_literal_escaped:
  "read_literal (replace_all dquote [dquote, dquote] s @ dquote # CHR '' '' # rest) = Some (s, CHR '' '' # rest)"
  by (induction s) (simp_all add: dquote_def)

lemma double_squotes_id: "double_squotes s = s \<longleftrightarrow> squote \<notin> set s"
proof
  assume eq: "double_squotes s = s"
  have len: "length (double_squotes t) = length t + length (filter (\<lambda>x. x = squote) t)" for t
    by (induction t) (simp_all add: double_squotes_def)
  from len [of s] eq show "squote \<notin> set s"
    by (metis (mono_tags, lifting) add_cancel_left_right filter_empty_conv length_0_conv)
next
  show "squote \<notin> set s \<Longrightarrow> double_squotes s = s"
    by (induction s) (auto simp: double_squotes_def)
qed

text \<open>
  For a reader that knows no escape in a literal but the doubled quote (\<open>read_literal\<close>), no value breaks out of a
  condition: whatever the value \<open>d\<close>, the literal in \<open>WHERE x.key = "..."\<close> ends exactly at the closing quote that
  \<open>where\<close> puts there. The text read back is \<open>d\<close> with every single quote doubled, so it is \<open>d\<close> itself if and only if \<open>d\<close> has
  no single quote: a condition on a value with one matches another document. Backslashes are not escaped by the code.
\<close>

theorem where_literal:
  "(\<exists>body. clause_where key d = ''WHERE x.'' @ escape_injection key N1QL_WHERE_PARAM @ '' = '' @ [dquote] @ body \<and>
     read_literal body = Some (double_squotes d, '' '')) \<and>
   (double_squotes d = d \<longleftrightarrow> squote \<notin> set d)"
  using read_literal_escaped [of "double_squotes d" "[]"]
  by (simp add: clause_where_def quoted_def double_squotes_id, simp add: double_squotes_def)

subsection \<open>Keys are ordered\<close>

lemma createCas_ge: "(0xffffffffffff0000 AND clock s (clock_reads s)) \<le> fst (createCas s)"
  by (simp add: createCas_def getTimeStamp_def getLogicalCounter_def Let_def case_prod_unfold le_word_or2)

lemma createCas_state: "snd (createCas s) = s\<lparr>clock_reads := clock_reads s + 1, counter := counter s + 1\<rparr>"
  by (simp add: createCas_def getTimeStamp_def getLogicalCounter_def Let_def case_prod_unfold)

lemma getCas_loop_sound:
  "getCas_loop fuel cas s = Inr (c, s') \<Longrightarrow> precas s \<le> c \<and> precas s' = c"
proof (induction fuel arbitrary: cas s)
  case (Suc fuel)
  then show ?case
    using Suc.IH [of "fst (createCas s)" "snd (createCas s)"]
    by (auto simp: case_prod_unfold Let_def createCas_state not_less split: if_splits)
qed simp

lemma getCas_loop_total:
  assumes "precas s \<le> (0xffffffffffff0000 AND clock s (clock_reads s + j))" "j + 1 < fuel"
  shows "\<exists>c s'. getCas_loop fuel cas s = Inr (c, s')"
  using assms
proof (induction fuel arbitrary: cas s j)
  case (Suc fuel)
  show ?case
  proof (cases "precas s \<noteq> 0 \<and> cas < precas s")
    case True
    let ?c = "fst (createCas s)" and ?s = "snd (createCas s)"
    have "\<exists>c s'. getCas_loop fuel ?c ?s = Inr (c, s')"
    proof (cases j)
      case 0
      then have "precas s \<le> ?c" using createCas_ge [of s] Suc.prems(1) by simp
      then show ?thesis
        using Suc.prems(2) 0 by (cases fuel) (auto simp: createCas_state)
    next
      case (Suc i)
      with Suc.prems show ?thesis
        by (intro Suc.IH [of _ i]) (simp_all add: createCas_state)
    qed
    with True show ?thesis by (simp add: case_prod_unfold Let_def)
  qed auto
qed simp

text \<open>
  C39. Keys never go backwards: \<open>getCas\<close> returns a number that is at least the previous one. It returns as soon as one
  of the time stamps it reads, with its low 16 bits cleared, has reached the previous key; so it waits at most until the
  clock has passed the last key, although the 16-bit counter wraps around.
\<close>

theorem getCas_monotone:
  "(\<forall>c s'. getCas fuel s = Inr (c, s') \<longrightarrow> precas s \<le> c \<and> precas s' = c) \<and>
   (\<forall>j. precas s \<le> (0xffffffffffff0000 AND clock s (clock_reads s + 1 + j)) \<and> j + 1 < fuel \<longrightarrow>
      (\<exists>c s'. getCas fuel s = Inr (c, s')))"
  using getCas_loop_sound [of fuel "fst (createCas s)" "snd (createCas s)"]
    getCas_loop_total [of "snd (createCas s)" _ fuel "fst (createCas s)"]
  by (auto simp: getCas_def case_prod_unfold createCas_state)

theorem getCas_monotone_witness:
  "\<exists>c s'. getCas 2 \<lparr>clock = (\<lambda>k. of_nat (k * 65536)), clock_reads = 0, counter = 65535, precas = 65536\<rparr> = Inr (c, s') \<and> 65536 \<le> c"
proof -
  let ?s = "\<lparr>clock = (\<lambda>k. of_nat (k * 65536)), clock_reads = 0, counter = 65535, precas = 65536\<rparr> :: cas_state"
  have "precas ?s \<le> (0xffffffffffff0000 AND clock ?s (clock_reads ?s + 1 + 0))" by simp
  then have "\<exists>c s'. getCas 2 ?s = Inr (c, s')"
    using getCas_monotone [of 2 ?s] by fastforce
  then show ?thesis
    using getCas_monotone [of 2 ?s] by auto
qed

subsection \<open>Answers are put together in order\<close>

lemma add_piece_sorted:
  assumes "sorted (map fst ps)" "distinct (map fst ps)" "i \<notin> fst ` set ps"
  shows "sorted (map fst (add_piece ps i s)) \<and> distinct (map fst (add_piece ps i s)) \<and> set (add_piece ps i s) = insert (i, s) (set ps)"
  using assms by (induction ps i s rule: add_piece.induct) auto

lemma collect_pieces_sorted:
  assumes "distinct (map fst ps)"
  shows "collect_pieces ps = sort_key fst ps"
proof -
  have "sorted (map fst (collect_pieces ps)) \<and> distinct (map fst (collect_pieces ps)) \<and> set (collect_pieces ps) = set ps"
    using assms
  proof (induction ps rule: rev_induct)
    case (snoc p ps)
    then show ?case
      using add_piece_sorted [of "collect_pieces ps" "fst p" "snd p"]
      by (auto simp: collect_pieces_def case_prod_unfold)
  qed (simp add: collect_pieces_def)
  moreover have "inj_on fst (set ps)" using assms by (simp add: distinct_map)
  ultimately show ?thesis
    using assms by (intro map_sorted_distinct_set_unique [of fst]) (auto simp: distinct_map)
qed

lemma reconnect_loop_up:
  "(\<exists>i. i < RECONNECT_LIMIT - cnt \<and> up (k + i)) \<Longrightarrow> cnt < RECONNECT_LIMIT \<Longrightarrow> \<exists>k'. reconnect_loop up k cnt = Inr (True, k')"
proof (induction up k cnt rule: reconnect_loop.induct)
  case (1 up k cnt)
  show ?case
  proof (cases "up k")
    case False
    obtain i where i: "i < RECONNECT_LIMIT - cnt" "up (k + i)" using "1.prems"(1) by blast
    with False have "i \<noteq> 0" by (metis add_0_right)
    then have "\<exists>i. i < RECONNECT_LIMIT - (cnt + 1) \<and> up (Suc k + i)" "\<not> cnt + 1 \<ge> RECONNECT_LIMIT"
      using i by (auto intro!: exI [of _ "i - 1"])
    with 1(1) [OF False] False show ?thesis by (subst reconnect_loop.simps) simp
  qed (simp add: reconnect_loop.simps)
qed

lemma reconnect_loop_down:
  "\<forall>i < RECONNECT_LIMIT - cnt. \<not> up (k + i) \<Longrightarrow> cnt < RECONNECT_LIMIT \<Longrightarrow>
   reconnect_loop up k cnt = Inl (RuntimeError ''connect DB time out !'')"
proof (induction up k cnt rule: reconnect_loop.induct)
  case (1 up k cnt)
  then have "\<not> up k" by (metis add_0_right zero_less_diff)
  show ?case
  proof (cases "RECONNECT_LIMIT \<le> cnt + 1")
    case True
    with \<open>\<not> up k\<close> show ?thesis by (simp add: reconnect_loop.simps)
  next
    case False
    have "\<not> up (Suc k + i)" if "i < RECONNECT_LIMIT - (cnt + 1)" for i
      using 1(2) [rule_format, of "Suc i"] that by simp
    with 1(1) [OF \<open>\<not> up k\<close> False] False \<open>\<not> up k\<close> show ?thesis by (subst reconnect_loop.simps) simp
  qed
qed

lemma executeQuery_retries:
  assumes "\<forall>c. \<exists>i < RECONNECT_LIMIT. up (c + i)" "\<forall>i < j. ans_status (db (k + i) query) = DbUnavailable"
    "ans_status (db (k + j) query) = DbOk" "j < fuel"
  shows "executeQuery db up fuel k c query = Inr (concat (map snd (collect_pieces (ans_pieces (db (k + j) query)))))"
  using assms(2-4)
proof (induction fuel arbitrary: j k c)
  case (Suc fuel)
  show ?case
  proof (cases j)
    case 0
    with Suc.prems show ?thesis by simp
  next
    case (Suc i)
    have "ans_status (db k query) = DbUnavailable" using Suc.prems(1) Suc by force
    moreover obtain c' where "reconnect up c = Inr (True, c')"
      using reconnect_loop_up [of 0 up c] assms(1) by (auto simp: reconnect_def RECONNECT_LIMIT_def)
    moreover have "executeQuery db up fuel (Suc k) c' query =
        Inr (concat (map snd (collect_pieces (ans_pieces (db (Suc k + i) query)))))"
      using Suc.prems Suc by (intro Suc.IH) auto
    ultimately show ?thesis using Suc by simp
  qed
qed simp

text \<open>
  The answer to a query does not depend on the order in which its pieces arrive: if the gateway answers after some
  unavailabilities, each of which ends within six connection attempts, and the piece numbers are distinct,
  \<open>executeQuery\<close> returns the texts concatenated by increasing number; if the six attempts after an unavailability
  fail, it throws.
\<close>

theorem executeQuery_assembles:
  assumes "\<forall>i < j. ans_status (db (k + i) query) = DbUnavailable" "j < fuel"
  shows "((\<forall>c. \<exists>i < 6. up (c + i)) \<and> ans_status (db (k + j) query) = DbOk \<and> distinct (map fst (ans_pieces (db (k + j) query))) \<longrightarrow>
      executeQuery db up fuel k c query = Inr (concat (map snd (sort_key fst (ans_pieces (db (k + j) query)))))) \<and>
    (0 < j \<and> (\<forall>i < 6. \<not> up (c + i)) \<longrightarrow>
      executeQuery db up fuel k c query = Inl (RuntimeError ''connect DB time out !''))"
proof (intro conjI impI; elim conjE)
  assume up: "\<forall>c. \<exists>i < 6. up (c + i)" and ok: "ans_status (db (k + j) query) = DbOk"
    and d: "distinct (map fst (ans_pieces (db (k + j) query)))"
  have "\<forall>c. \<exists>i < RECONNECT_LIMIT. up (c + i)" using up unfolding RECONNECT_LIMIT_def .
  from executeQuery_retries [of up j db k query fuel c, OF this assms(1) ok assms(2)] collect_pieces_sorted [OF d]
  show "executeQuery db up fuel k c query = Inr (concat (map snd (sort_key fst (ans_pieces (db (k + j) query)))))" by simp
next
  assume j: "0 < j" and down: "\<forall>i < 6. \<not> up (c + i)"
  have "reconnect up c = Inl (RuntimeError ''connect DB time out !'')"
    unfolding reconnect_def by (rule reconnect_loop_down) (use down in \<open>simp_all add: RECONNECT_LIMIT_def\<close>)
  moreover have "ans_status (db k query) = DbUnavailable" using assms(1) j by force
  ultimately show "executeQuery db up fuel k c query = Inl (RuntimeError ''connect DB time out !'')"
    using assms(2) by (cases fuel) simp_all
qed

theorem executeQuery_assembles_witness:
  "executeQuery (\<lambda>k _. if k = 0 then \<lparr>ans_pieces = [], ans_status = DbUnavailable\<rparr>
       else \<lparr>ans_pieces = [(2, ''b''), (1, ''a'')], ans_status = DbOk\<rparr>) (\<lambda>_. True) 2 0 0 ''q'' = Inr ''ab''"
proof -
  have "\<exists>i. i < (6 :: nat)" by (rule exI [of _ 0]) simp
  then show ?thesis
    using executeQuery_assembles [of 1 "\<lambda>k _. if k = 0 then \<lparr>ans_pieces = [], ans_status = DbUnavailable\<rparr>
       else \<lparr>ans_pieces = [(2, ''b''), (1, ''a'')], ans_status = DbOk\<rparr>" 0 "''q''" 2 "\<lambda>_. True" 0]
    by (simp add: sort_key_def)
qed

end
