(* ===== verification/Tables.thy ===== *)
theory Tables
  imports FpCompare
begin

section \<open>Tables and their joins\<close>

text \<open>
  \<open>Client/ComputationToDbGate/ValueTable.cpp\<close>: the tables a job works on, and their joins. Every party holds a table of
  the same shape with its own shares (as texts) in the cells; the id columns are opened, so all parties see the same ids
  and compute the same row numbers. \<open>hjoin\<close> keeps the rows whose id occurs in both tables and puts the columns side by
  side, \<open>vjoin\<close> keeps the common columns and adds the rows whose id is new.

  \<open>hjoinShare\<close> does not open the ids: it merges the two columns of shares with the interactive comparisons of \<open>Share/Compare.cpp\<close>.

  \<open>std::map\<close> and \<open>std::set\<close> are ordered by \<open>LessFloat\<close>, which treats numbers closer than \<open>1e-5\<close> as equal. A container is
  modelled by its keys in the order of insertion and a lookup up to equivalence, which is what the containers do when
  the comparison is a strict weak order on the keys, and undefined behaviour otherwise. Row numbers are stored in an \<open>int\<close>: tables
  have fewer than \<open>2 ^ 31\<close> rows.
\<close>

record value_table =
  table :: "string list list"
  schemas :: "string list"

definition table_eq :: "value_table \<Rightarrow> value_table \<Rightarrow> bool" where
  "table_eq t u \<longleftrightarrow> table t = table u \<and> schemas t = schemas u"

definition getColumn :: "(string \<Rightarrow> fp) \<Rightarrow> value_table \<Rightarrow> int \<Rightarrow> fp list res" where
  "getColumn conv t idx =
     mapE (\<lambda>row. if 0 \<le> idx \<and> idx < int (length row) then Inr (conv (row ! nat idx)) else Inl UndefinedBehaviour) (table t)"

subsection \<open>Containers ordered by LessFloat\<close>

definition lessFloat_fp :: "fp \<Rightarrow> fp \<Rightarrow> bool" where
  "lessFloat_fp x y \<longleftrightarrow> fp_less x (y - FP 1000)"

definition lessFloat_string :: "string \<Rightarrow> string \<Rightarrow> bool" where
  "lessFloat_string x y \<longleftrightarrow> (x, y) \<in> lexord {(a, b). (of_char a :: nat) < of_char b}"

definition equivalent :: "('a \<Rightarrow> 'a \<Rightarrow> bool) \<Rightarrow> 'a \<Rightarrow> 'a \<Rightarrow> bool" where
  "equivalent lt x y \<longleftrightarrow> \<not> lt x y \<and> \<not> lt y x"

definition strict_weak :: "('a \<Rightarrow> 'a \<Rightarrow> bool) \<Rightarrow> 'a list \<Rightarrow> bool" where
  "strict_weak lt ks \<longleftrightarrow> (\<forall>x \<in> set ks. \<not> lt x x \<and> (\<forall>y \<in> set ks. \<forall>z \<in> set ks.
     (lt x y \<and> lt y z \<longrightarrow> lt x z) \<and> (equivalent lt x y \<and> equivalent lt y z \<longrightarrow> equivalent lt x z)))"

fun first_equiv :: "('a \<Rightarrow> 'a \<Rightarrow> bool) \<Rightarrow> 'a \<Rightarrow> 'a list \<Rightarrow> nat option" where
  "first_equiv lt v [] = None"
| "first_equiv lt v (x # xs) = (if equivalent lt v x then Some 0 else map_option Suc (first_equiv lt v xs))"

definition intersectionValueIndex :: "('a \<Rightarrow> 'a \<Rightarrow> bool) \<Rightarrow> 'a list \<Rightarrow> 'a list \<Rightarrow> (nat list \<times> nat list) res" where
  "intersectionValueIndex lt v1 v2 =
     (if strict_weak lt (v1 @ v2)
      then let hits = filter (\<lambda>i. first_equiv lt (v1 ! i) v2 \<noteq> None) [0..<length v1]
           in Inr (hits, map (\<lambda>i. the (first_equiv lt (v1 ! i) v2)) hits)
      else Inl UndefinedBehaviour)"

definition unionValueIndex :: "('a \<Rightarrow> 'a \<Rightarrow> bool) \<Rightarrow> 'a list \<Rightarrow> 'a list \<Rightarrow> (nat list \<times> nat list) res" where
  "unionValueIndex lt v1 v2 =
     (if strict_weak lt (v1 @ v2)
      then Inr ([0..<length v1], filter (\<lambda>i. first_equiv lt (v2 ! i) v1 = None) [0..<length v2])
      else Inl UndefinedBehaviour)"

text \<open>The merge of two columns of shares, each comparison a protocol of all parties.\<close>

function intersectionSorted_loop ::
    "'d boost \<Rightarrow> nat \<Rightarrow> fp list list \<Rightarrow> fp list list \<Rightarrow> nat \<Rightarrow> nat \<Rightarrow> (world, (nat \<times> nat) list) comp" where
  "intersectionSorted_loop F fuel v1 v2 i1 i2 =
     (if i1 < length v1 \<and> i2 < length v2
      then bindS (share_equal F fuel (v1 ! i1) (v2 ! i2)) (\<lambda>eq.
        if eq then bindS (intersectionSorted_loop F fuel v1 v2 (i1 + 1) (i2 + 1)) (\<lambda>r. retS ((i1, i2) # r))
        else bindS (share_less F fuel (v1 ! i1) (v2 ! i2)) (\<lambda>lt.
          if lt then intersectionSorted_loop F fuel v1 v2 (i1 + 1) i2
          else intersectionSorted_loop F fuel v1 v2 i1 (i2 + 1)))
      else retS [])"
  by pat_completeness auto
termination by (relation "measure (\<lambda>(F, fuel, v1, v2, i1, i2). (length v1 - i1) + (length v2 - i2))") auto

declare intersectionSorted_loop.simps [simp del]

definition intersectionSortedValueIndex ::
    "'d boost \<Rightarrow> nat \<Rightarrow> fp list list \<Rightarrow> fp list list \<Rightarrow> (world, (nat \<times> nat) list) comp" where
  "intersectionSortedValueIndex F fuel v1 v2 = intersectionSorted_loop F fuel v1 v2 0 0"

subsection \<open>Joins\<close>

definition project :: "nat list \<Rightarrow> string list \<Rightarrow> string list res" where
  "project its row = mapE (\<lambda>w. if w < length row then Inr (row ! w) else Inl UndefinedBehaviour) its"

definition row_at :: "string list list \<Rightarrow> nat \<Rightarrow> string list res" where
  "row_at rows h = (if h < length rows then Inr (rows ! h) else Inl UndefinedBehaviour)"

text \<open>An id column of all parties: the shares of every row, and their opened values.\<close>

definition shared_ids :: "(string \<Rightarrow> fp) \<Rightarrow> value_table list \<Rightarrow> int \<Rightarrow> fp list list res" where
  "shared_ids conv ts idx =
     bindE (mapE (\<lambda>t. getColumn conv t idx) ts) (\<lambda>cols.
       if \<forall>c \<in> set cols. length c = length (hd cols)
       then Inr (map (\<lambda>i. map (\<lambda>c. c ! i) cols) [0..<length (hd cols)])
       else Inl Blocked)"

definition open_ids :: "(string \<Rightarrow> fp) \<Rightarrow> value_table list \<Rightarrow> int \<Rightarrow> fp list res" where
  "open_ids conv ts idx = bindE (shared_ids conv ts idx) (\<lambda>ids. Inr (map recons ids))"

definition paste_rows :: "value_table \<Rightarrow> value_table \<Rightarrow> nat list \<Rightarrow> nat list \<Rightarrow> (nat \<times> nat) list \<Rightarrow> string list list res" where
  "paste_rows t u ws us hits =
     mapE (\<lambda>(h, k). bindE (bindE (row_at (table t) h) (project ws)) (\<lambda>xs.
                    bindE (bindE (row_at (table u) k) (project us)) (\<lambda>ys. Inr (xs @ ys)))) hits"

definition hjoin :: "fp list \<Rightarrow> fp list \<Rightarrow> value_table \<Rightarrow> value_table \<Rightarrow> value_table res" where
  "hjoin ids ids_tgt t u =
     bindE (unionValueIndex lessFloat_string (schemas t) (schemas u)) (\<lambda>(schemas_it, schemas_join_it).
     bindE (intersectionValueIndex lessFloat_fp ids ids_tgt) (\<lambda>(ids_it, ids_join_it).
     bindE (paste_rows t u schemas_it schemas_join_it (zip ids_it ids_join_it)) (\<lambda>rows.
       Inr \<lparr>table = rows, schemas = schemas t @ map (\<lambda>i. schemas u ! i) schemas_join_it\<rparr>)))"

definition vjoin :: "fp list \<Rightarrow> fp list \<Rightarrow> value_table \<Rightarrow> value_table \<Rightarrow> value_table res" where
  "vjoin ids ids_tgt t u =
     bindE (intersectionValueIndex lessFloat_string (schemas t) (schemas u)) (\<lambda>(schemas_it, schemas_join_it).
     bindE (unionValueIndex lessFloat_fp ids ids_tgt) (\<lambda>(ids_it, ids_join_it).
     bindE (mapE (project schemas_it) (table t)) (\<lambda>rows.
     bindE (mapE (\<lambda>h. bindE (row_at (table u) h) (project schemas_join_it)) ids_join_it) (\<lambda>new_rows.
       Inr \<lparr>table = rows @ new_rows, schemas = map (\<lambda>i. schemas t ! i) schemas_it\<rparr>))))"

text \<open>\<open>hjoinShare\<close>, run by all parties: \<open>ts\<close> and \<open>us\<close> list the parties' tables. The rows to paste are the same for all of them.\<close>

definition paste_shared :: "(nat \<times> nat) list \<Rightarrow> value_table \<Rightarrow> value_table \<Rightarrow> value_table res" where
  "paste_shared hits t u =
     bindE (unionValueIndex lessFloat_string (schemas t) (schemas u)) (\<lambda>(schemas_it, schemas_join_it).
     bindE (paste_rows t u schemas_it schemas_join_it hits) (\<lambda>rows.
       Inr \<lparr>table = rows, schemas = schemas t @ map (\<lambda>i. schemas u ! i) schemas_join_it\<rparr>))"

definition hjoinShare ::
    "(string \<Rightarrow> fp) \<Rightarrow> 'd boost \<Rightarrow> nat \<Rightarrow> value_table list \<Rightarrow> value_table list \<Rightarrow> int \<Rightarrow> int \<Rightarrow> (world, value_table list) comp" where
  "hjoinShare conv F fuel ts us idx idx_tgt =
     bindS (liftS (shared_ids conv ts (idx - 1))) (\<lambda>ids. bindS (liftS (shared_ids conv us (idx_tgt - 1))) (\<lambda>ids_tgt.
     bindS (intersectionSortedValueIndex F fuel ids ids_tgt) (\<lambda>hits.
     liftS (mapE (\<lambda>(t, u). paste_shared hits t u) (zip ts us)))))"

text \<open>One join, run by all parties.\<close>

definition join_step ::
    "(string \<Rightarrow> fp) \<Rightarrow> 'd boost \<Rightarrow> nat \<Rightarrow> int \<Rightarrow> value_table list \<Rightarrow> value_table list \<Rightarrow> int \<Rightarrow> int \<Rightarrow> (world, value_table list) comp" where
  "join_step conv F fuel j ts us idx idx_tgt =
     (if j = 0 \<or> j = 1 then liftS (bindE (open_ids conv ts (idx - 1)) (\<lambda>ids. bindE (open_ids conv us (idx_tgt - 1)) (\<lambda>ids_tgt.
        mapE (\<lambda>(t, u). if j = 0 then hjoin ids ids_tgt t u else vjoin ids ids_tgt t u) (zip ts us))))
      else hjoinShare conv F fuel ts us idx idx_tgt)"

fun parseRead_loop ::
    "(string \<Rightarrow> fp) \<Rightarrow> 'd boost \<Rightarrow> nat \<Rightarrow> int \<Rightarrow> int list \<Rightarrow> value_table list list \<Rightarrow> int list \<Rightarrow>
     value_table list \<Rightarrow> (world, value_table list) comp" where
  "parseRead_loop conv F fuel i0 [] vs idxs ts = retS ts"
| "parseRead_loop conv F fuel i0 (j # js) (u # us) (i # idxs) ts =
     bindS (join_step conv F fuel j ts u i0 i) (parseRead_loop conv F fuel i0 js us idxs)"
| "parseRead_loop conv F fuel i0 (j # js) vs idxs ts = raiseS UndefinedBehaviour"

definition parseRead ::
    "(string \<Rightarrow> fp) \<Rightarrow> 'd boost \<Rightarrow> nat \<Rightarrow> value_table list list \<Rightarrow> int list \<Rightarrow> int list \<Rightarrow> (world, value_table list) comp" where
  "parseRead conv F fuel vs join index =
     (case vs of
        [] \<Rightarrow> raiseS UndefinedBehaviour
      | t # us \<Rightarrow> if join = [] then retS t
                  else (case index of [] \<Rightarrow> raiseS UndefinedBehaviour | i0 # idxs \<Rightarrow> parseRead_loop conv F fuel i0 join us idxs t))"

subsection \<open>Lookups\<close>

lemma first_equiv_None: "first_equiv lt v xs = None \<longleftrightarrow> (\<forall>x \<in> set xs. \<not> equivalent lt v x)"
  by (induction xs) auto

lemma first_equiv_Some: "first_equiv lt v xs = Some k \<Longrightarrow> k < length xs \<and> equivalent lt v (xs ! k)"
  by (induction xs arbitrary: k) (auto split: if_splits)

lemma equivalent_fp: "equivalent lessFloat_fp x y \<longleftrightarrow> \<bar>fpVal x - fpVal y\<bar> \<le> 1000"
  by (auto simp: equivalent_def lessFloat_fp_def fp_less_def)

lemma lessFloat_string_order:
  "\<not> lessFloat_string x x" "lessFloat_string x y \<Longrightarrow> lessFloat_string y z \<Longrightarrow> lessFloat_string x z"
  "equivalent lessFloat_string x y \<longleftrightarrow> x = y"
proof -
  let ?R = "{(a, b). (of_char a :: nat) < of_char b}"
  show irr: "\<not> lessFloat_string x x" for x
    unfolding lessFloat_string_def by (rule lexord_irreflexive) simp
  have tr: "trans (lexord ?R)" by (rule lexord_transI) (auto simp: trans_def)
  show "lessFloat_string x y \<Longrightarrow> lessFloat_string y z \<Longrightarrow> lessFloat_string x z"
    unfolding lessFloat_string_def by (rule transD [OF tr])
  have "(a, b) \<in> ?R \<or> a = b \<or> (b, a) \<in> ?R" for a b :: char
    by (auto simp: neq_iff [symmetric])
  then have "(x, y) \<in> lexord ?R \<or> x = y \<or> (y, x) \<in> lexord ?R" by (intro lexord_linear) auto
  with irr show "equivalent lessFloat_string x y \<longleftrightarrow> x = y"
    by (auto simp: equivalent_def lessFloat_string_def)
qed

lemma strict_weak_string: "strict_weak lessFloat_string ks"
  unfolding strict_weak_def lessFloat_string_order(3)
  by (intro ballI conjI impI, rule lessFloat_string_order(1), erule conjE, rule lessFloat_string_order(2), assumption, assumption) simp

lemma strict_weak_trans:
  "strict_weak lt ks \<Longrightarrow> x \<in> set ks \<Longrightarrow> y \<in> set ks \<Longrightarrow> z \<in> set ks \<Longrightarrow>
   equivalent lt x y \<Longrightarrow> equivalent lt y z \<Longrightarrow> equivalent lt x z"
  unfolding strict_weak_def by blast

text \<open>The new columns of \<open>u\<close>: those whose name is not a column of \<open>t\<close>.\<close>

definition new_columns :: "value_table \<Rightarrow> value_table \<Rightarrow> nat list" where
  "new_columns t u = filter (\<lambda>i. schemas u ! i \<notin> set (schemas t)) [0..<length (schemas u)]"

lemma union_schemas: "unionValueIndex lessFloat_string (schemas t) (schemas u) = Inr ([0..<length (schemas t)], new_columns t u)"
  by (auto simp: unionValueIndex_def strict_weak_string new_columns_def first_equiv_None lessFloat_string_order(3) intro!: filter_cong)

definition distinct_ids :: "fp list \<Rightarrow> bool" where
  "distinct_ids ids \<longleftrightarrow> (\<forall>i < length ids. \<forall>j < length ids. i \<noteq> j \<longrightarrow> \<not> equivalent lessFloat_fp (ids ! i) (ids ! j))"

lemma filter_one:
  assumes "\<And>i j. i < length xs \<Longrightarrow> j < length xs \<Longrightarrow> equivalent lt v (xs ! i) \<Longrightarrow> equivalent lt v (xs ! j) \<Longrightarrow> i = j"
  shows "filter (\<lambda>k. equivalent lt v (xs ! k)) [0..<length xs] = (case first_equiv lt v xs of None \<Rightarrow> [] | Some k \<Rightarrow> [k])"
proof (cases "first_equiv lt v xs")
  case None
  then have "\<forall>x \<in> set xs. \<not> equivalent lt v x" by (simp add: first_equiv_None)
  then show ?thesis by (simp add: None)
next
  case (Some k)
  then have k: "k < length xs" "equivalent lt v (xs ! k)" using first_equiv_Some by metis+
  have "filter (\<lambda>i. equivalent lt v (xs ! i)) [0..<length xs] = filter (\<lambda>i. i = k) [0..<length xs]"
    using assms k by (intro filter_cong) auto
  also have "\<dots> = [k]" using k(1) by (induction xs rule: rev_induct) (auto simp: less_Suc_eq)
  finally show ?thesis using Some by simp
qed

definition matching :: "fp list \<Rightarrow> fp list \<Rightarrow> (nat \<times> nat) list" where
  "matching ids ids_tgt =
     concat (map (\<lambda>h. map (\<lambda>k. (h, k)) (filter (\<lambda>k. equivalent lessFloat_fp (ids ! h) (ids_tgt ! k)) [0..<length ids_tgt])) [0..<length ids])"

lemma intersection_ids:
  assumes "strict_weak lessFloat_fp (ids @ ids_tgt)" "distinct_ids ids_tgt"
  shows "\<exists>xs ys. intersectionValueIndex lessFloat_fp ids ids_tgt = Inr (xs, ys) \<and> zip xs ys = matching ids ids_tgt"
proof -
  let ?hit = "\<lambda>h. first_equiv lessFloat_fp (ids ! h) ids_tgt"
  have one: "filter (\<lambda>k. equivalent lessFloat_fp (ids ! h) (ids_tgt ! k)) [0..<length ids_tgt] =
      (case ?hit h of None \<Rightarrow> [] | Some k \<Rightarrow> [k])" if "h < length ids" for h
  proof (rule filter_one)
    fix i j
    assume ij: "i < length ids_tgt" "j < length ids_tgt" "equivalent lessFloat_fp (ids ! h) (ids_tgt ! i)"
      "equivalent lessFloat_fp (ids ! h) (ids_tgt ! j)"
    have "equivalent lessFloat_fp (ids_tgt ! i) (ids ! h)" using ij(3) by (simp add: equivalent_def)
    from strict_weak_trans [OF assms(1) _ _ _ this ij(4)]
    have "equivalent lessFloat_fp (ids_tgt ! i) (ids_tgt ! j)" using ij(1,2) that by simp
    with assms(2) ij show "i = j" by (auto simp: distinct_ids_def)
  qed
  have "zip (filter (\<lambda>h. ?hit h \<noteq> None) hs) (map (\<lambda>h. the (?hit h)) (filter (\<lambda>h. ?hit h \<noteq> None) hs)) =
      concat (map (\<lambda>h. map (\<lambda>k. (h, k)) (case ?hit h of None \<Rightarrow> [] | Some k \<Rightarrow> [k])) hs)" for hs
    by (induction hs) (auto split: option.splits)
  moreover have "matching ids ids_tgt =
      concat (map (\<lambda>h. map (\<lambda>k. (h, k)) (case ?hit h of None \<Rightarrow> [] | Some k \<Rightarrow> [k])) [0..<length ids])"
    unfolding matching_def by (rule arg_cong [of _ _ concat], rule map_cong [OF refl]) (simp add: one)
  ultimately show ?thesis
    using assms(1) by (simp add: intersectionValueIndex_def Let_def)
qed

subsection \<open>Joined tables\<close>

definition wf_table :: "value_table \<Rightarrow> bool" where
  "wf_table t \<longleftrightarrow> (\<forall>row \<in> set (table t). length row = length (schemas t))"

lemma project_some: "\<forall>w \<in> set ws. w < length row \<Longrightarrow> project ws row = Inr (map (\<lambda>w. row ! w) ws)"
  unfolding project_def by (subst mapE_Inr [of _ _ "\<lambda>w. row ! w"]) auto

lemma paste_rows_correct:
  assumes "wf_table t" "wf_table u" "\<forall>(h, k) \<in> set hits. h < length (table t) \<and> k < length (table u)" "\<forall>w \<in> set us. w < length (schemas u)"
  shows "paste_rows t u [0..<length (schemas t)] us hits =
    Inr (map (\<lambda>(h, k). table t ! h @ map (\<lambda>w. table u ! k ! w) us) hits)"
  unfolding paste_rows_def
proof (rule mapE_Inr)
  fix hk assume "hk \<in> set hits"
  moreover obtain h k where hk: "hk = (h, k)" by (cases hk)
  ultimately have b: "h < length (table t)" "k < length (table u)" using assms(3) by auto
  then have l: "length (table t ! h) = length (schemas t)" "length (table u ! k) = length (schemas u)"
    using assms(1,2) by (auto simp: wf_table_def)
  have "map ((!) (table t ! h)) [0..<length (schemas t)] = table t ! h" using map_nth [of "table t ! h"] l(1) by simp
  with l b assms(4) show "(case hk of (h, k) \<Rightarrow> bindE (bindE (row_at (table t) h) (project [0..<length (schemas t)])) (\<lambda>xs.
                    bindE (bindE (row_at (table u) k) (project us)) (\<lambda>ys. Inr (xs @ ys)))) =
      Inr (case hk of (h, k) \<Rightarrow> table t ! h @ map (\<lambda>w. table u ! k ! w) us)"
    by (simp add: hk row_at_def project_some)
qed

lemma matching_bounds: "(h, k) \<in> set (matching ids ids_tgt) \<Longrightarrow> h < length ids \<and> k < length ids_tgt"
  by (auto simp: matching_def)

lemma new_columns_bound: "\<forall>w \<in> set (new_columns t u). w < length (schemas u)"
  by (simp add: new_columns_def)

lemma names_of_new_columns: "map (\<lambda>i. schemas u ! i) (new_columns t u) = filter (\<lambda>x. x \<notin> set (schemas t)) (schemas u)"
proof -
  have "map (\<lambda>i. xs ! i) (filter (\<lambda>i. P (xs ! i)) [0..<length xs]) = filter P xs" for P and xs :: "string list"
    using filter_map [of P "(!) xs" "[0..<length xs]"] by (simp add: map_nth comp_def)
  then show ?thesis by (simp add: new_columns_def)
qed

lemma hjoin_reference:
  assumes "wf_table t" "wf_table u" "length ids = length (table t)" "length ids_tgt = length (table u)"
    "strict_weak lessFloat_fp (ids @ ids_tgt)" "distinct_ids ids_tgt"
  shows "hjoin ids ids_tgt t u =
    Inr \<lparr>table = map (\<lambda>(h, k). table t ! h @ map (\<lambda>w. table u ! k ! w) (new_columns t u)) (matching ids ids_tgt),
         schemas = schemas t @ filter (\<lambda>x. x \<notin> set (schemas t)) (schemas u)\<rparr>"
proof -
  obtain xs ys where i: "intersectionValueIndex lessFloat_fp ids ids_tgt = Inr (xs, ys)" "zip xs ys = matching ids ids_tgt"
    using intersection_ids [OF assms(5,6)] by blast
  have "paste_rows t u [0..<length (schemas t)] (new_columns t u) (matching ids ids_tgt) =
      Inr (map (\<lambda>(h, k). table t ! h @ map (\<lambda>w. table u ! k ! w) (new_columns t u)) (matching ids ids_tgt))"
    using matching_bounds assms(3,4) by (intro paste_rows_correct assms new_columns_bound) fastforce
  then show ?thesis
    by (simp add: hjoin_def union_schemas i names_of_new_columns)
qed

text \<open>The common columns, and for each of them its place in \<open>u\<close>.\<close>

fun position :: "string \<Rightarrow> string list \<Rightarrow> nat" where
  "position x [] = 0"
| "position x (y # ys) = (if x = y then 0 else Suc (position x ys))"

definition common_columns :: "value_table \<Rightarrow> value_table \<Rightarrow> nat list" where
  "common_columns t u = filter (\<lambda>i. schemas t ! i \<in> set (schemas u)) [0..<length (schemas t)]"

lemma first_equiv_string: "first_equiv lessFloat_string x ys = (if x \<in> set ys then Some (position x ys) else None)"
  by (induction ys) (auto simp: lessFloat_string_order(3))

lemma position_bound: "x \<in> set ys \<Longrightarrow> position x ys < length ys \<and> ys ! position x ys = x"
  by (induction ys) auto

lemma intersection_schemas:
  "intersectionValueIndex lessFloat_string (schemas t) (schemas u) =
   Inr (common_columns t u, map (\<lambda>i. position (schemas t ! i) (schemas u)) (common_columns t u))"
  by (auto simp: intersectionValueIndex_def strict_weak_string common_columns_def first_equiv_string Let_def intro!: filter_cong)

definition new_ids :: "fp list \<Rightarrow> fp list \<Rightarrow> nat list" where
  "new_ids ids ids_tgt = filter (\<lambda>k. \<forall>h < length ids. \<not> equivalent lessFloat_fp (ids_tgt ! k) (ids ! h)) [0..<length ids_tgt]"

lemma union_ids:
  "strict_weak lessFloat_fp (ids @ ids_tgt) \<Longrightarrow>
   unionValueIndex lessFloat_fp ids ids_tgt = Inr ([0..<length ids], new_ids ids ids_tgt)"
  by (auto simp: unionValueIndex_def new_ids_def first_equiv_None all_set_conv_all_nth intro!: filter_cong)

lemma vjoin_reference:
  assumes "wf_table t" "wf_table u" "length ids = length (table t)" "length ids_tgt = length (table u)"
    "strict_weak lessFloat_fp (ids @ ids_tgt)"
  shows "vjoin ids ids_tgt t u =
    Inr \<lparr>table = map (\<lambda>row. map (\<lambda>w. row ! w) (common_columns t u)) (table t) @
           map (\<lambda>k. map (\<lambda>w. table u ! k ! position (schemas t ! w) (schemas u)) (common_columns t u)) (new_ids ids ids_tgt),
         schemas = filter (\<lambda>x. x \<in> set (schemas u)) (schemas t)\<rparr>"
proof -
  let ?us = "map (\<lambda>i. position (schemas t ! i) (schemas u)) (common_columns t u)"
  have cols: "\<forall>w \<in> set (common_columns t u). w < length (schemas t)" "\<forall>w \<in> set ?us. w < length (schemas u)"
    using position_bound by (auto simp: common_columns_def)
  have "mapE (project (common_columns t u)) (table t) = Inr (map (\<lambda>row. map (\<lambda>w. row ! w) (common_columns t u)) (table t))"
    using assms(1) cols(1) by (intro mapE_Inr project_some) (simp add: wf_table_def)
  moreover have "mapE (\<lambda>h. bindE (row_at (table u) h) (project ?us)) (new_ids ids ids_tgt) =
      Inr (map (\<lambda>k. map (\<lambda>w. table u ! k ! w) ?us) (new_ids ids ids_tgt))"
  proof (rule mapE_Inr)
    fix k assume "k \<in> set (new_ids ids ids_tgt)"
    then have k: "k < length (table u)" using assms(4) by (simp add: new_ids_def)
    then have "length (table u ! k) = length (schemas u)" using assms(2) by (simp add: wf_table_def)
    with k cols(2) show "bindE (row_at (table u) k) (project ?us) = Inr (map (\<lambda>w. table u ! k ! w) ?us)"
      by (simp add: row_at_def project_some)
  qed
  moreover have "map (\<lambda>i. schemas t ! i) (common_columns t u) = filter (\<lambda>x. x \<in> set (schemas u)) (schemas t)"
    using filter_map [of "\<lambda>x. x \<in> set (schemas u)" "(!) (schemas t)" "[0..<length (schemas t)]"]
    by (simp add: common_columns_def map_nth comp_def)
  ultimately show ?thesis
    by (simp add: vjoin_def intersection_schemas union_ids [OF assms(5)] comp_def)
qed

subsection \<open>Merging sorted columns\<close>

definition exact_matches :: "fp list \<Rightarrow> fp list \<Rightarrow> nat \<Rightarrow> nat \<Rightarrow> (nat \<times> nat) list" where
  "exact_matches v1 v2 i1 i2 =
     concat (map (\<lambda>i. map (\<lambda>j. (i, j)) (filter (\<lambda>j. fpVal (v1 ! i) = fpVal (v2 ! j)) [i2..<length v2])) [i1..<length v1])"

definition increasing :: "fp list \<Rightarrow> bool" where
  "increasing v \<longleftrightarrow> (\<forall>i j. i < j \<and> j < length v \<longrightarrow> fpVal (v ! i) < fpVal (v ! j))"

lemma increasing_le: "increasing v \<Longrightarrow> i \<le> j \<Longrightarrow> j < length v \<Longrightarrow> fpVal (v ! i) \<le> fpVal (v ! j)"
  by (cases "i = j") (auto simp: increasing_def order_less_imp_le)

lemma exact_matches_skip:
  assumes "\<And>i. i1 \<le> i \<Longrightarrow> i < length v1 \<Longrightarrow> fpVal (v1 ! i) \<noteq> fpVal (v2 ! i2)" "i2 < length v2"
  shows "exact_matches v1 v2 i1 i2 = exact_matches v1 v2 i1 (i2 + 1)"
  using assms unfolding exact_matches_def by (intro arg_cong [of _ _ concat] map_cong) (auto simp: upt_conv_Cons)

lemma exact_matches_step:
  assumes "increasing v1" "increasing v2" "i1 < length v1" "i2 < length v2"
  shows "fpVal (v1 ! i1) = fpVal (v2 ! i2) \<Longrightarrow> exact_matches v1 v2 i1 i2 = (i1, i2) # exact_matches v1 v2 (i1 + 1) (i2 + 1)"
    "fpVal (v1 ! i1) < fpVal (v2 ! i2) \<Longrightarrow> exact_matches v1 v2 i1 i2 = exact_matches v1 v2 (i1 + 1) i2"
    "fpVal (v2 ! i2) < fpVal (v1 ! i1) \<Longrightarrow> exact_matches v1 v2 i1 i2 = exact_matches v1 v2 i1 (i2 + 1)"
proof -
  have row: "exact_matches v1 v2 i1 j = map (\<lambda>j. (i1, j)) (filter (\<lambda>j. fpVal (v1 ! i1) = fpVal (v2 ! j)) [j..<length v2]) @
      exact_matches v1 v2 (i1 + 1) j" for j
    using assms(3) by (simp add: exact_matches_def upt_conv_Cons)
  have none: "filter (\<lambda>j. fpVal (v1 ! i1) = fpVal (v2 ! j)) [j..<length v2] = []"
    if "\<And>k. j \<le> k \<Longrightarrow> k < length v2 \<Longrightarrow> fpVal (v1 ! i1) < fpVal (v2 ! k)" for j
    using that by (force simp: filter_empty_conv)
  show "exact_matches v1 v2 i1 i2 = (i1, i2) # exact_matches v1 v2 (i1 + 1) (i2 + 1)" if eq: "fpVal (v1 ! i1) = fpVal (v2 ! i2)"
  proof -
    have "filter (\<lambda>j. fpVal (v1 ! i1) = fpVal (v2 ! j)) [i2..<length v2] = [i2]"
      using eq assms(4) none [of "i2 + 1"] assms(2) by (simp add: upt_conv_Cons increasing_def)
    moreover have "fpVal (v1 ! i) \<noteq> fpVal (v2 ! i2)" if "i1 + 1 \<le> i" "i < length v1" for i
      using assms(1) [unfolded increasing_def, rule_format, of i1 i] that eq by simp
    then have "exact_matches v1 v2 (i1 + 1) i2 = exact_matches v1 v2 (i1 + 1) (i2 + 1)"
      using assms(4) by (intro exact_matches_skip) blast+
    ultimately show ?thesis using row [of i2] by simp
  qed
  show "exact_matches v1 v2 i1 i2 = exact_matches v1 v2 (i1 + 1) i2" if lt: "fpVal (v1 ! i1) < fpVal (v2 ! i2)"
  proof -
    have "fpVal (v1 ! i1) < fpVal (v2 ! k)" if "i2 \<le> k" "k < length v2" for k
      using lt increasing_le [OF assms(2) that] by linarith
    then show ?thesis using row [of i2] none by simp
  qed
  show "exact_matches v1 v2 i1 i2 = exact_matches v1 v2 i1 (i2 + 1)" if lt: "fpVal (v2 ! i2) < fpVal (v1 ! i1)"
  proof -
    have "fpVal (v1 ! i) \<noteq> fpVal (v2 ! i2)" if "i1 \<le> i" "i < length v1" for i
      using lt increasing_le [OF assms(1) that] by linarith
    then show ?thesis using assms(4) by (intro exact_matches_skip) blast+
  qed
qed

text \<open>Columns of shares whose comparisons are certain: two secrets are equal or at least \<open>1e-5\<close> apart, and not more than 65000.\<close>

definition ids_ok :: "nat \<Rightarrow> fp list list \<Rightarrow> bool" where
  "ids_ok n v \<longleftrightarrow> (\<forall>a \<in> set v. length a = n \<and> fbound (10 ^ 53) a) \<and> increasing (map recons v)"

definition separated :: "fp list list \<Rightarrow> fp list list \<Rightarrow> bool" where
  "separated v1 v2 \<longleftrightarrow> (\<forall>a \<in> set v1. \<forall>b \<in> set v2. \<bar>fsec a - fsec b\<bar> \<le> 65000 * shift \<and> (fsec a = fsec b \<or> 1000 \<le> \<bar>fsec a - fsec b\<bar>))"

lemma merge_sorted:
  assumes w: "wf_world P T J n sp w" and F: "boost_ok F" "n \<le> 100" "enough P E fuel"
    and v: "ids_ok n v1" "ids_ok n v2" "separated v1 v2"
  shows "wpS E (\<lambda>r w'. wf_world P T J n sp w' \<and> r = exact_matches (map recons v1) (map recons v2) i1 i2) (intersectionSorted_loop F fuel v1 v2 i1 i2) w"
  using w
proof (induction "(length v1 - i1) + (length v2 - i2)" arbitrary: i1 i2 w rule: less_induct)
  case less
  let ?M = "exact_matches (map recons v1) (map recons v2)" and ?L = "intersectionSorted_loop F fuel v1 v2"
  show ?case
  proof (cases "i1 < length v1 \<and> i2 < length v2")
    case False
    then show ?thesis by (subst intersectionSorted_loop.simps) (use less.prems in \<open>auto simp: exact_matches_def\<close>)
  next
    case True
    let ?a = "v1 ! i1" and ?b = "v2 ! i2"
    have ab: "length ?a = n" "length ?b = n" "fbound (10 ^ 53) ?a" "fbound (10 ^ 53) ?b"
      "\<bar>fsec ?a - fsec ?b\<bar> \<le> 65000 * shift" "fsec ?a = fsec ?b \<or> 1000 \<le> \<bar>fsec ?a - fsec ?b\<bar>"
      using True v by (simp_all add: ids_ok_def separated_def)
    have inc: "increasing (map recons v1)" "increasing (map recons v2)" using v by (simp_all add: ids_ok_def)
    note step = exact_matches_step [OF inc, of i1 i2]
    have IH: "wpS E (\<lambda>r w'. wf_world P T J n sp w' \<and> r = ?M (i1 + 1) (i2 + 1)) (?L (i1 + 1) (i2 + 1)) w"
      "wpS E (\<lambda>r w'. wf_world P T J n sp w' \<and> r = ?M (i1 + 1) i2) (?L (i1 + 1) i2) w"
      "wpS E (\<lambda>r w'. wf_world P T J n sp w' \<and> r = ?M i1 (i2 + 1)) (?L i1 (i2 + 1)) w" if "wf_world P T J n sp w" for w
      using True by (intro less.hyps that; linarith)+
    let ?Q = "\<lambda>r w'. wf_world P T J n sp w' \<and> r = ?M i1 i2"
    have "wpS E (\<lambda>eq. wpS E ?Q (if eq then bindS (?L (i1 + 1) (i2 + 1)) (\<lambda>r. retS ((i1, i2) # r))
        else bindS (share_less F fuel ?a ?b) (\<lambda>lt. if lt then ?L (i1 + 1) i2 else ?L i1 (i2 + 1)))) (share_equal F fuel ?a ?b) w"
    proof (rule wpS_share_equal [OF less.prems F ab(1,2,5,3,4)])
      fix eq w1 assume w1: "wf_world P T J n sp w1" and "(fsec ?a = fsec ?b \<longrightarrow> eq) \<and> (1000 \<le> \<bar>fsec ?a - fsec ?b\<bar> \<longrightarrow> \<not> eq)"
      then have eq: "eq \<longleftrightarrow> fsec ?a = fsec ?b" using ab(6) by blast
      show "wpS E ?Q (if eq then bindS (?L (i1 + 1) (i2 + 1)) (\<lambda>r. retS ((i1, i2) # r))
        else bindS (share_less F fuel ?a ?b) (\<lambda>lt. if lt then ?L (i1 + 1) i2 else ?L i1 (i2 + 1))) w1"
      proof (cases eq)
        case True
        with eq step(1) \<open>i1 < length v1 \<and> i2 < length v2\<close> have m: "?M i1 i2 = (i1, i2) # ?M (i1 + 1) (i2 + 1)"
          by (simp add: fpVal_recons)
        have "wpS E (\<lambda>r w'. wf_world P T J n sp w' \<and> (i1, i2) # r = ?M i1 i2) (?L (i1 + 1) (i2 + 1)) w1"
          by (rule wpS_mono [OF IH(1) [OF w1]]) (simp add: m)
        then show ?thesis using True by simp
      next
        case False
        have "wpS E (\<lambda>lt. wpS E ?Q (if lt then ?L (i1 + 1) i2 else ?L i1 (i2 + 1))) (share_less F fuel ?a ?b) w1"
        proof (rule wpS_share_less [OF w1 F ab(1,2,5,3,4)])
          fix lt w2 assume w2: "wf_world P T J n sp w2" and "less_value (fsec ?a - fsec ?b) lt"
          then have lt: "if lt then fsec ?a < fsec ?b else fsec ?b < fsec ?a"
            using ab(6) False eq by (cases lt) (auto simp: less_value_def)
          show "wpS E ?Q (if lt then ?L (i1 + 1) i2 else ?L i1 (i2 + 1)) w2"
            using lt step(2,3) True IH(2,3) [OF w2] by (simp add: fpVal_recons split: if_splits)
        qed
        then show ?thesis using False by simp
      qed
    qed
    then show ?thesis using True by (subst intersectionSorted_loop.simps) (simp only: if_True simp_thms wpS_bindS)
  qed
qed

subsection \<open>Properties\<close>

lemma wf_pasted:
  assumes "wf_table t" "\<forall>(h, k) \<in> set hits. h < length (table t)"
  shows "wf_table \<lparr>table = map (\<lambda>(h, k). table t ! h @ map (\<lambda>w. table u ! k ! w) (new_columns t u)) hits,
    schemas = schemas t @ filter (\<lambda>x. x \<notin> set (schemas t)) (schemas u)\<rparr>"
proof -
  have "length (new_columns t u) = length (filter (\<lambda>x. x \<notin> set (schemas t)) (schemas u))"
    using names_of_new_columns [of u t] by (metis length_map)
  with assms show ?thesis by (fastforce simp: wf_table_def)
qed

lemma paste_shared_ok:
  assumes "wf_table t" "wf_table u" "\<forall>(h, k) \<in> set hits. h < length (table t) \<and> k < length (table u)"
  shows "paste_shared hits t u =
    Inr \<lparr>table = map (\<lambda>(h, k). table t ! h @ map (\<lambda>w. table u ! k ! w) (new_columns t u)) hits,
         schemas = schemas t @ filter (\<lambda>x. x \<notin> set (schemas t)) (schemas u)\<rparr>"
  using paste_rows_correct [OF assms new_columns_bound]
  by (simp add: paste_shared_def union_schemas names_of_new_columns)

text \<open>The tables of all parties have the same columns and the same number of rows.\<close>

definition tables_ok :: "nat \<Rightarrow> value_table list \<Rightarrow> string list \<Rightarrow> nat \<Rightarrow> bool" where
  "tables_ok n ts sch h \<longleftrightarrow> length ts = n \<and> (\<forall>t \<in> set ts. wf_table t \<and> schemas t = sch \<and> length (table t) = h)"

definition id_column :: "(string \<Rightarrow> fp) \<Rightarrow> value_table list \<Rightarrow> nat \<Rightarrow> int \<Rightarrow> fp list list" where
  "id_column conv ts h idx = map (\<lambda>i. map (\<lambda>t. conv (table t ! i ! nat (idx - 1))) ts) [0..<h]"

lemma common_columns_length: "length (common_columns t u) = length (filter (\<lambda>x. x \<in> set (schemas u)) (schemas t))"
proof -
  have "map (\<lambda>i. schemas t ! i) (common_columns t u) = filter (\<lambda>x. x \<in> set (schemas u)) (schemas t)"
    using filter_map [of "\<lambda>x. x \<in> set (schemas u)" "(!) (schemas t)" "[0..<length (schemas t)]"]
    by (simp add: common_columns_def map_nth comp_def)
  then show ?thesis by (metis length_map)
qed

lemma shared_ids_ok:
  assumes t: "tables_ok n ts sch h" "0 < n" and idx: "1 \<le> idx" "idx \<le> int (length sch)"
  shows "shared_ids conv ts (idx - 1) = Inr (id_column conv ts h idx)"
proof -
  have "getColumn conv t (idx - 1) = Inr (map (\<lambda>row. conv (row ! nat (idx - 1))) (table t))" if "t \<in> set ts" for t
    unfolding getColumn_def using that t idx by (intro mapE_Inr) (auto simp: tables_ok_def wf_table_def)
  then have c: "mapE (\<lambda>t. getColumn conv t (idx - 1)) ts = Inr (map (\<lambda>t. map (\<lambda>row. conv (row ! nat (idx - 1))) (table t)) ts)"
    by (rule mapE_Inr)
  have ne: "ts \<noteq> []" and l: "\<forall>t \<in> set ts. length (table t) = h" using t by (auto simp: tables_ok_def)
  then have h: "length (hd (map (\<lambda>t. map (\<lambda>row. conv (row ! nat (idx - 1))) (table t)) ts)) = h" by (cases ts) auto
  show ?thesis
    unfolding shared_ids_def c bindE.simps h using l by (auto simp: id_column_def)
qed

text \<open>Every party's part of a join that all parties finish.\<close>

lemma parties_join:
  assumes "length ts = n" "length us = n" "\<And>p. p < n \<Longrightarrow> f (ts ! p) (us ! p) = Inr (g p)"
  shows "mapE (\<lambda>(t, u). f t u) (zip ts us) = Inr (map g [0..<n])"
  using assms by (simp add: mapE_eq_Inr)

lemma wpS_hjoinShare:
  assumes w: "wf_world P T J n sp w" and F: "boost_ok F" "n \<le> 100" "enough P E fuel"
    and t: "tables_ok n ts st h" "tables_ok n us su k" and idx: "1 \<le> i" "i \<le> int (length st)" "1 \<le> j" "j \<le> int (length su)"
    and ids: "ids_ok n (id_column conv ts h i)" "ids_ok n (id_column conv us k j)" "separated (id_column conv ts h i) (id_column conv us k j)"
  defines "hits \<equiv> exact_matches (map recons (id_column conv ts h i)) (map recons (id_column conv us k j)) 0 0"
  shows "wpS E (\<lambda>js w'. wf_world P T J n sp w' \<and> js = map (\<lambda>p. \<lparr>table = map (\<lambda>(h, k). table (ts ! p) ! h @
      map (\<lambda>w. table (us ! p) ! k ! w) (new_columns (ts ! p) (us ! p))) hits, schemas = st @ filter (\<lambda>x. x \<notin> set st) su\<rparr>) [0..<n])
    (hjoinShare conv F fuel ts us i j) w"
proof -
  have n: "0 < n" using w by (auto simp: wf_world_def)
  have b: "\<forall>(h', k') \<in> set hits. h' < h \<and> k' < k" by (auto simp: hits_def exact_matches_def id_column_def)
  have "mapE (\<lambda>(t, u). paste_shared hits t u) (zip ts us) = Inr (map (\<lambda>p. \<lparr>table = map (\<lambda>(h, k). table (ts ! p) ! h @
      map (\<lambda>w. table (us ! p) ! k ! w) (new_columns (ts ! p) (us ! p))) hits, schemas = st @ filter (\<lambda>x. x \<notin> set st) su\<rparr>) [0..<n])"
  proof (rule parties_join)
    fix p assume "p < n"
    then have "wf_table (ts ! p)" "schemas (ts ! p) = st" "length (table (ts ! p)) = h"
      "wf_table (us ! p)" "schemas (us ! p) = su" "length (table (us ! p)) = k"
      using t by (simp_all add: tables_ok_def)
    with b show "paste_shared hits (ts ! p) (us ! p) = Inr \<lparr>table = map (\<lambda>(h, k). table (ts ! p) ! h @
      map (\<lambda>w. table (us ! p) ! k ! w) (new_columns (ts ! p) (us ! p))) hits, schemas = st @ filter (\<lambda>x. x \<notin> set st) su\<rparr>"
      by (simp add: paste_shared_ok)
  qed (use t in \<open>simp_all add: tables_ok_def\<close>)
  then show ?thesis
    unfolding hjoinShare_def wpS_bindS wpS_liftS shared_ids_ok [OF t(1) n idx(1,2)] shared_ids_ok [OF t(2) n idx(3,4)] wpE_Inr
      intersectionSortedValueIndex_def
    by (intro wpS_mono [OF merge_sorted [OF w F ids]]) (auto simp: hits_def)
qed

lemma join_step_opened:
  assumes t: "tables_ok n ts st h" "tables_ok n us su k" "0 < n" and idx: "1 \<le> i" "i \<le> int (length st)" "1 \<le> j" "j \<le> int (length su)"
    and g: "\<And>p. p < n \<Longrightarrow> (if c = 0 then hjoin else vjoin) (map recons (id_column conv ts h i)) (map recons (id_column conv us k j)) (ts ! p) (us ! p) = Inr (g p)"
    and c: "c = 0 \<or> c = 1"
  shows "join_step conv F fuel c ts us i j w = Inr (map g [0..<n], w)"
proof -
  have "mapE (\<lambda>(t, u). (if c = 0 then hjoin else vjoin) (map recons (id_column conv ts h i)) (map recons (id_column conv us k j)) t u) (zip ts us) = Inr (map g [0..<n])"
    using t(1,2) g by (intro parties_join) (simp_all add: tables_ok_def)
  then show ?thesis
    using c by (auto simp: join_step_def open_ids_def shared_ids_ok [OF t(1,3) idx(1,2)] shared_ids_ok [OF t(2,3) idx(3,4)] liftS_def if_distribR cong: if_cong)
qed

text \<open>
  C19. The joins compute what they are named after, for every party alike. The parties' tables have the same columns \<open>st\<close> and
  \<open>su\<close> and numbers of rows; \<open>a\<close> and \<open>b\<close> are the secrets of the two id columns. If the comparison orders the ids, \<open>vjoin\<close> keeps
  the common columns of all rows of the first table and of the rows of the second whose id is new; if besides
  the ids of the second table are pairwise more than \<open>1e-5\<close> apart, \<open>hjoin\<close> is the natural join, whose rows are, in the order of
  the first table, those of all pairs of rows whose ids differ by at most \<open>1e-5\<close>, with the columns of the second
  table that have a new name. \<open>hjoinShare\<close>, on strictly increasing id columns whose secrets are equal or at least \<open>1e-5\<close> apart
  and differ by at most 65000, for up to 100 parties, is the natural join on equal ids, computed with the comparison protocols: it can end abnormally only
  while a random bit is still being drawn, and not at all if the draws are positive. No access is out of range, and the results are well-formed.
\<close>

theorem joins_correct:
  fixes conv :: "string \<Rightarrow> fp"
  assumes w: "wf_world P T J n sp w" and F: "boost_ok F" "n \<le> 100" and t: "tables_ok n ts st h" "tables_ok n us su k" "h < 2 ^ 31" "k < 2 ^ 31"
    and idx: "1 \<le> i" "i \<le> int (length st)" "1 \<le> j" "j \<le> int (length su)"
  defines "a \<equiv> \<lambda>x. fpVal (recons (id_column conv ts h i ! x))" and "b \<equiv> \<lambda>y. fpVal (recons (id_column conv us k j ! y))"
    and "row \<equiv> \<lambda>p x y. table (ts ! p) ! x @ map (\<lambda>c. table (us ! p) ! y ! c) (new_columns (ts ! p) (us ! p))"
    and "joined \<equiv> \<lambda>sch rows js. length js = n \<and> (\<forall>p < n. wf_table (js ! p) \<and> schemas (js ! p) = sch \<and> table (js ! p) = rows p)"
  shows "(strict_weak lessFloat_fp (map recons (id_column conv ts h i) @ map recons (id_column conv us k j)) \<longrightarrow>
      (\<exists>js. join_step conv F fuel 1 ts us i j w = Inr (js, w) \<and> joined (filter (\<lambda>x. x \<in> set su) st) (\<lambda>p.
         map (\<lambda>r. map (\<lambda>c. r ! c) (common_columns (ts ! p) (us ! p))) (table (ts ! p)) @
         map (\<lambda>y. map (\<lambda>c. table (us ! p) ! y ! position (st ! c) su) (common_columns (ts ! p) (us ! p)))
           (filter (\<lambda>y. \<forall>x < h. 1000 < \<bar>b y - a x\<bar>) [0..<k])) js) \<and>
      ((\<forall>y < k. \<forall>y' < k. y \<noteq> y' \<longrightarrow> 1000 < \<bar>b y - b y'\<bar>) \<longrightarrow>
        (\<exists>js. join_step conv F fuel 0 ts us i j w = Inr (js, w) \<and> joined (st @ filter (\<lambda>x. x \<notin> set st) su) (\<lambda>p.
          concat (map (\<lambda>x. map (row p x) (filter (\<lambda>y. \<bar>a x - b y\<bar> \<le> 1000) [0..<k])) [0..<h])) js))) \<and>
    (ids_ok n (id_column conv ts h i) \<and> ids_ok n (id_column conv us k j) \<and> separated (id_column conv ts h i) (id_column conv us k j) \<longrightarrow>
      (case join_step conv F fuel 2 ts us i j w of Inl e \<Rightarrow> e = OutOfFuel
       | Inr (js, w') \<Rightarrow> wf_world P T J n sp w' \<and> joined (st @ filter (\<lambda>x. x \<notin> set st) su) (\<lambda>p.
          concat (map (\<lambda>x. map (row p x) (filter (\<lambda>y. a x = b y) [0..<k])) [0..<h])) js) \<and>
      (positive_draws P \<and> 0 < fuel \<longrightarrow> join_step conv F fuel 2 ts us i j w \<noteq> Inl OutOfFuel))"
proof -
  let ?I = "map recons (id_column conv ts h i)" and ?J = "map recons (id_column conv us k j)"
  have n: "0 < n" using w by (auto simp: wf_world_def)
  have len: "length ?I = h" "length ?J = k" "length (id_column conv ts h i) = h" "length (id_column conv us k j) = k"
    by (simp_all add: id_column_def)
  have ab: "x < h \<Longrightarrow> fpVal (?I ! x) = a x" "y < k \<Longrightarrow> fpVal (?J ! y) = b y" for x y
    by (simp_all add: a_def b_def id_column_def)
  have p: "wf_table (ts ! p)" "schemas (ts ! p) = st" "length (table (ts ! p)) = h"
    "wf_table (us ! p)" "schemas (us ! p) = su" "length (table (us ! p)) = k" if "p < n" for p
    using t(1,2) that by (simp_all add: tables_ok_def)
  have v: "\<exists>js. join_step conv F fuel 1 ts us i j w = Inr (js, w) \<and> joined (filter (\<lambda>x. x \<in> set su) st) (\<lambda>p.
         map (\<lambda>r. map (\<lambda>c. r ! c) (common_columns (ts ! p) (us ! p))) (table (ts ! p)) @
         map (\<lambda>y. map (\<lambda>c. table (us ! p) ! y ! position (st ! c) su) (common_columns (ts ! p) (us ! p)))
           (filter (\<lambda>y. \<forall>x < h. 1000 < \<bar>b y - a x\<bar>) [0..<k])) js"
    if s: "strict_weak lessFloat_fp (?I @ ?J)"
  proof -
    have f: "new_ids ?I ?J = filter (\<lambda>y. \<forall>x < h. 1000 < \<bar>b y - a x\<bar>) [0..<k]"
      using ab by (auto simp: new_ids_def len equivalent_fp not_le intro!: filter_cong simp del: nth_map)
    have "join_step conv F fuel 1 ts us i j w = Inr (map (\<lambda>p. \<lparr>table = map (\<lambda>r. map (\<lambda>c. r ! c) (common_columns (ts ! p) (us ! p))) (table (ts ! p)) @
        map (\<lambda>y. map (\<lambda>c. table (us ! p) ! y ! position (st ! c) su) (common_columns (ts ! p) (us ! p))) (new_ids ?I ?J),
        schemas = filter (\<lambda>x. x \<in> set su) st\<rparr>) [0..<n], w)"
      by (rule join_step_opened [OF t(1,2) n idx]) (simp_all add: vjoin_reference [OF p(1,4) _ _ s] p len)
    then show ?thesis
      using common_columns_length by (auto simp: joined_def f wf_table_def p)
  qed
  have hj: "\<exists>js. join_step conv F fuel 0 ts us i j w = Inr (js, w) \<and> joined (st @ filter (\<lambda>x. x \<notin> set st) su) (\<lambda>p.
          concat (map (\<lambda>x. map (row p x) (filter (\<lambda>y. \<bar>a x - b y\<bar> \<le> 1000) [0..<k])) [0..<h])) js"
    if s: "strict_weak lessFloat_fp (?I @ ?J)" and d: "\<forall>y < k. \<forall>y' < k. y \<noteq> y' \<longrightarrow> 1000 < \<bar>b y - b y'\<bar>"
  proof -
    have d': "distinct_ids ?J" using d ab by (simp add: distinct_ids_def len equivalent_fp not_le del: nth_map)
    have m: "matching ?I ?J = concat (map (\<lambda>x. map (\<lambda>y. (x, y)) (filter (\<lambda>y. \<bar>a x - b y\<bar> \<le> 1000) [0..<k])) [0..<h])"
      unfolding matching_def len using ab by (intro arg_cong [of _ _ concat] map_cong) (auto simp: equivalent_fp simp del: nth_map intro!: filter_cong)
    have "join_step conv F fuel 0 ts us i j w = Inr (map (\<lambda>p. \<lparr>table = map (\<lambda>(x, y). row p x y) (matching ?I ?J), schemas = st @ filter (\<lambda>x. x \<notin> set st) su\<rparr>) [0..<n], w)"
      by (rule join_step_opened [OF t(1,2) n idx]) (simp_all add: hjoin_reference [OF p(1,4) _ _ s d'] p len row_def)
    moreover have "\<forall>(x, y) \<in> set (matching ?I ?J). x < h" by (auto simp: m)
    then have "wf_table \<lparr>table = map (\<lambda>(x, y). row p x y) (matching ?I ?J), schemas = st @ filter (\<lambda>x. x \<notin> set st) su\<rparr>" if "p < n" for p
      using wf_pasted [OF p(1) [OF that], of "matching ?I ?J" "us ! p"] p [OF that] by (simp add: row_def)
    ultimately show ?thesis by (simp add: joined_def m map_concat comp_def)
  qed
  have sh: "(case join_step conv F fuel 2 ts us i j w of Inl e \<Rightarrow> e = OutOfFuel
       | Inr (js, w') \<Rightarrow> wf_world P T J n sp w' \<and> joined (st @ filter (\<lambda>x. x \<notin> set st) su) (\<lambda>p.
          concat (map (\<lambda>x. map (row p x) (filter (\<lambda>y. a x = b y) [0..<k])) [0..<h])) js) \<and>
      (positive_draws P \<and> 0 < fuel \<longrightarrow> join_step conv F fuel 2 ts us i j w \<noteq> Inl OutOfFuel)"
    if ids: "ids_ok n (id_column conv ts h i) \<and> ids_ok n (id_column conv us k j) \<and> separated (id_column conv ts h i) (id_column conv us k j)"
  proof -
    let ?M = "exact_matches ?I ?J 0 0"
    have m: "?M = concat (map (\<lambda>x. map (\<lambda>y. (x, y)) (filter (\<lambda>y. a x = b y) [0..<k])) [0..<h])"
      unfolding exact_matches_def len using ab by (intro arg_cong [of _ _ concat] map_cong) (auto simp del: nth_map intro!: filter_cong)
    have "\<forall>(x, y) \<in> set ?M. x < h" by (auto simp: exact_matches_def len)
    then have wf: "wf_table \<lparr>table = map (\<lambda>(x, y). row p x y) ?M, schemas = st @ filter (\<lambda>x. x \<notin> set st) su\<rparr>" if "p < n" for p
      using wf_pasted [OF p(1) [OF that], of ?M "us ! p"] p [OF that] by (simp add: row_def)
    have "wpS E (\<lambda>js w'. wf_world P T J n sp w' \<and> joined (st @ filter (\<lambda>x. x \<notin> set st) su) (\<lambda>p.
          concat (map (\<lambda>x. map (row p x) (filter (\<lambda>y. a x = b y) [0..<k])) [0..<h])) js) (join_step conv F fuel 2 ts us i j) w"
      if "enough P E fuel" for E
    proof -
      have "wpS E (\<lambda>js w'. wf_world P T J n sp w' \<and> js = map (\<lambda>p. \<lparr>table = map (\<lambda>(x, y). row p x y) ?M, schemas = st @ filter (\<lambda>x. x \<notin> set st) su\<rparr>) [0..<n])
          (hjoinShare conv F fuel ts us i j) w"
        using wpS_hjoinShare [OF w F that t(1,2) idx] ids by (simp add: row_def)
      moreover have "join_step conv F fuel 2 ts us i j = hjoinShare conv F fuel ts us i j" by (simp add: join_step_def)
      moreover note wf
      ultimately show ?thesis
        by (auto elim!: wpS_mono simp: joined_def m map_concat comp_def)
    qed
    from this [of "\<lambda>e. e = OutOfFuel"] this [of "\<lambda>_. False"] show ?thesis
      by (intro conjI impI wpS_case) (auto simp: enough_def wpS_total)
  qed
  show ?thesis using v hj sh by blast
qed

text \<open>Two parties, whose texts are in unary, in units of 1.\<close>

definition unary_fp :: "string \<Rightarrow> fp" where
  "unary_fp s = fp_of_int (int (length s))"

definition demo_tables_t :: "value_table list" where
  "demo_tables_t = [\<lparr>table = [[''1'', ''a''], [''1'', ''b'']], schemas = [''id'', ''x'']\<rparr>,
     \<lparr>table = [['''', ''c''], [''1'', ''d'']], schemas = [''id'', ''x'']\<rparr>]"

definition demo_tables_u :: "value_table list" where
  "demo_tables_u = [\<lparr>table = [['''', ''e'']], schemas = [''id'', ''y'']\<rparr>, \<lparr>table = [[''11'', ''f'']], schemas = [''id'', ''y'']\<rparr>]"

theorem joins_correct_witness:
  "\<exists>t u w'. join_step unary_fp ref_boost 1 2 demo_tables_t demo_tables_u 1 1 positive_world = Inr ([t, u], w') \<and>
    table t = [[''1'', ''b'', ''e'']] \<and> table u = [[''1'', ''d'', ''f'']]"
proof -
  have t: "tables_ok 2 demo_tables_t [''id'', ''x''] 2" "tables_ok 2 demo_tables_u [''id'', ''y''] 1"
    by (simp_all add: tables_ok_def demo_tables_t_def demo_tables_u_def wf_table_def)
  have c: "id_column unary_fp demo_tables_t 2 1 = [[FP 100000000, FP 0], [FP 100000000, FP 100000000]]"
    "id_column unary_fp demo_tables_u 1 1 = [[FP 0, FP 200000000]]"
    by (simp_all add: id_column_def demo_tables_t_def demo_tables_u_def unary_fp_def fp_of_int_def shift_eq upt_rec)
  have ids: "ids_ok 2 [[FP 100000000, FP 0], [FP 100000000, FP 100000000]]" "ids_ok 2 [[FP 0, FP 200000000]]"
    "separated [[FP 100000000, FP 0], [FP 100000000, FP 100000000]] [[FP 0, FP 200000000]]"
    by (auto simp: ids_ok_def fbound_def increasing_def separated_def fpVal_recons fsec_def shift_eq nth_Cons' less_Suc_eq)
  have n: "new_columns (demo_tables_t ! 0) (demo_tables_u ! 0) = [1]" "new_columns (demo_tables_t ! 1) (demo_tables_u ! 1) = [1]"
    by (simp_all add: new_columns_def demo_tables_t_def demo_tables_u_def upt_rec)
  note j = joins_correct [OF wf_positive_world boost_ok_ref _ t, where conv = unary_fp and i = 1 and j = 1 and fuel = 1, unfolded c]
  obtain js w' where js: "join_step unary_fp ref_boost 1 2 demo_tables_t demo_tables_u 1 1 positive_world = Inr (js, w')" "length js = 2"
    "\<forall>p < 2. table (js ! p) = concat (map (\<lambda>x. map (\<lambda>y. table (demo_tables_t ! p) ! x @ map (\<lambda>c. table (demo_tables_u ! p) ! y ! c)
       (new_columns (demo_tables_t ! p) (demo_tables_u ! p))) (filter (\<lambda>y. fpVal (recons ([[FP 100000000, FP 0], [FP 100000000, FP 100000000]] ! x)) =
       fpVal (recons ([[FP 0, FP 200000000]] ! y))) [0..<1])) [0..<2])"
    using j ids positive_draws_positive by (auto split: sum.splits)
  moreover obtain t u where "js = [t, u]" using js(2) by (auto simp: numeral_2_eq_2 length_Suc_conv)
  moreover have "p < 2 \<longleftrightarrow> p = 0 \<or> p = 1" for p :: nat by auto
  ultimately show ?thesis
    using n by (auto simp: upt_rec fpVal_recons fsec_def demo_tables_t_def demo_tables_u_def all_conj_distrib)
qed

end
