(* ===== verification/Json.thy ===== *)
theory Json
  imports Db Tables Doubles
begin

section \<open>Documents of the database gateway\<close>

text \<open>
  The JSON documents the computation container exchanges with the database gateway
  (\<open>Client/ComputationToDbGate/Client.cpp\<close>). The values and the accesses are those of the library \<open>nlohmann::json\<close>, of which the
  code relies on: reading a missing key of a constant object is undefined; reading a key of another value, and converting to the
  wrong type, throws; on a value that is not constant a missing key or index is filled with null. Parsing and printing are parameters.
\<close>

datatype json = JNull | JNum rat | JStr string | JArr "json list" | JObj "(string \<times> json) list"

subsection \<open>Accesses\<close>

definition json_at :: "json \<Rightarrow> string \<Rightarrow> json res" where
  "json_at j k = (case j of JObj kvs \<Rightarrow> (case map_of kvs k of None \<Rightarrow> Inl UndefinedBehaviour | Some v \<Rightarrow> Inr v) | _ \<Rightarrow> Inl JsonError)"

definition json_member :: "json \<Rightarrow> string \<Rightarrow> json res" where
  "json_member j k = (case j of JObj kvs \<Rightarrow> Inr (case map_of kvs k of None \<Rightarrow> JNull | Some v \<Rightarrow> v) | JNull \<Rightarrow> Inr JNull | _ \<Rightarrow> Inl JsonError)"

definition json_first :: "json \<Rightarrow> json res" where
  "json_first j = (case j of JArr (v # _) \<Rightarrow> Inr v | JArr [] \<Rightarrow> Inr JNull | JNull \<Rightarrow> Inr JNull | _ \<Rightarrow> Inl JsonError)"

text \<open>Iteration: the elements of an array, the values of an object, nothing of null, and a scalar as its only element.\<close>

definition json_items :: "json \<Rightarrow> json list" where
  "json_items j = (case j of JArr vs \<Rightarrow> vs | JObj kvs \<Rightarrow> map snd kvs | JNull \<Rightarrow> [] | _ \<Rightarrow> [j])"

definition json_int :: "json \<Rightarrow> int res" where
  "json_int j = (case j of JNum x \<Rightarrow> Inr (if 0 \<le> x then \<lfloor>x\<rfloor> else \<lceil>x\<rceil>) | _ \<Rightarrow> Inl JsonError)"

definition json_double :: "json \<Rightarrow> rat res" where
  "json_double j = (case j of JNum x \<Rightarrow> Inr x | _ \<Rightarrow> Inl JsonError)"

definition json_string :: "json \<Rightarrow> string res" where
  "json_string j = (case j of JStr s \<Rightarrow> Inr s | _ \<Rightarrow> Inl JsonError)"

definition json_strings :: "json \<Rightarrow> string list res" where
  "json_strings j = (case j of JArr vs \<Rightarrow> mapE json_string vs | _ \<Rightarrow> Inl JsonError)"

subsection \<open>Reading tables and parameters\<close>

text \<open>The number of a document and its rows; the documents in the order of their numbers, the first of several with the same number.\<close>

definition piece_of :: "json \<Rightarrow> (int \<times> json) res" where
  "piece_of j = bindE (json_at j ''value'') (\<lambda>v. bindE (json_at j ''meta'') (\<lambda>meta.
     bindE (json_at meta ''piece_id'') (\<lambda>p. bindE (json_int p) (\<lambda>i. Inr (i, v)))))"

definition decode_table :: "json \<Rightarrow> value_table res" where
  "decode_table response_json =
     bindE (mapE piece_of (json_items response_json)) (\<lambda>ps.
     bindE (mapE (\<lambda>(_, piece). mapE json_strings (json_items piece)) (collect_pieces ps)) (\<lambda>tss.
     bindE (json_first response_json) (\<lambda>j0. bindE (json_member j0 ''meta'') (\<lambda>meta. bindE (json_member meta ''schema'') (\<lambda>sch.
     bindE (json_strings sch) (\<lambda>schemas. Inr \<lparr>table = concat tss, schemas = schemas\<rparr>))))))"

definition readShare :: "(string \<Rightarrow> string res) \<Rightarrow> (string \<Rightarrow> json res) \<Rightarrow> string \<Rightarrow> value_table res" where
  "readShare query parse data_id =
     bindE (query (n1ql_select_id ''share'' ''data_id'' data_id)) (\<lambda>response. bindE (parse response) decode_table)"

definition first_result :: "json \<Rightarrow> json res" where
  "first_result response_json = bindE (json_first response_json) (\<lambda>j0. json_member j0 ''result'')"

definition readModelparamJson :: "(string \<Rightarrow> string res) \<Rightarrow> (string \<Rightarrow> json res) \<Rightarrow> string \<Rightarrow> json res" where
  "readModelparamJson query parse job_uuid =
     bindE (query (n1ql_select_id ''result'' ''job_uuid'' job_uuid)) (\<lambda>response. bindE (parse response) first_result)"

definition readModelparam :: "(string \<Rightarrow> string res) \<Rightarrow> (string \<Rightarrow> json res) \<Rightarrow> string \<Rightarrow> string list res" where
  "readModelparam query parse job_uuid =
     bindE (query (n1ql_select_id ''result'' ''job_uuid'' job_uuid)) (\<lambda>response.
     bindE (parse response) (\<lambda>rj. bindE (first_result rj) (\<lambda>r. mapE json_string (json_items r))))"

text \<open>
  The tables of a request: every party reads its own shares of each table, then the parties join them. \<open>queries\<close> holds the database
  of each party.
\<close>

definition readTable ::
    "(string \<Rightarrow> string res) list \<Rightarrow> (string \<Rightarrow> json res) \<Rightarrow> (string \<Rightarrow> fp) \<Rightarrow> 'd boost \<Rightarrow> nat \<Rightarrow>
     string list \<Rightarrow> int list \<Rightarrow> int list \<Rightarrow> (world, value_table list) comp" where
  "readTable queries parse conv F fuel dataids join index =
     bindS (liftS (mapE (\<lambda>d. mapE (\<lambda>query. readShare query parse d) queries) dataids)) (\<lambda>tables. parseRead conv F fuel tables join index)"

subsection \<open>Writing\<close>

text \<open>The key of the document is the one \<open>getCas\<close> made.\<close>

definition registerJob_query :: "(json \<Rightarrow> string) \<Rightarrow> string \<Rightarrow> string \<Rightarrow> int \<Rightarrow> string" where
  "registerJob_query dump key job_uuid status =
     n1ql_insert ''result'' \<lparr>n1ql_val = dump (JObj [(''job_uuid'', JStr job_uuid), (''status'', JNum (of_int status))]), n1ql_key = key\<rparr>"

definition updateJobStatus_query :: "string \<Rightarrow> int \<Rightarrow> string" where
  "updateJobStatus_query job_uuid status = n1ql_update ''result'' (''job_uuid'', job_uuid) (''status'', to_string status)"

definition writeComputationResult_query :: "(json \<Rightarrow> string) \<Rightarrow> string \<Rightarrow> json \<Rightarrow> string" where
  "writeComputationResult_query dump job_uuid results = n1ql_update ''result'' (''job_uuid'', job_uuid) (''result'', dump results)"

subsection \<open>Lemmas\<close>

lemma json_int_of_int [simp]: "json_int (JNum (of_int i)) = Inr i"
  by (simp add: json_int_def)

lemma json_strings_JStr [simp]: "json_strings (JArr (map JStr ss)) = Inr ss"
  by (simp add: json_strings_def mapE_eq_Inr json_string_def)

text \<open>The document in which rows are stored under a number.\<close>

definition share_document :: "string list \<Rightarrow> int \<times> string list list \<Rightarrow> json" where
  "share_document sch d =
     JObj [(''meta'', JObj [(''piece_id'', JNum (of_int (fst d))), (''schema'', JArr (map JStr sch))]),
           (''value'', JArr (map (\<lambda>row. JArr (map JStr row)) (snd d)))]"

lemma piece_of_document: "piece_of (share_document sch d) = Inr (fst d, JArr (map (\<lambda>row. JArr (map JStr row)) (snd d)))"
  by (simp add: piece_of_def share_document_def json_at_def)

lemma rows_of_document: "mapE json_strings (json_items (JArr (map (\<lambda>row. JArr (map JStr row)) rows))) = Inr rows"
  by (simp add: json_items_def mapE_eq_Inr)

lemma sort_key_map: "map f (sort_key (\<lambda>x. g (f x)) xs) = sort_key g (map f xs)"
proof (induction xs)
  case (Cons x xs)
  have "map f (insort_key (\<lambda>x. g (f x)) x ys) = insort_key g (f x) (map f ys)" for ys
    by (induction ys) auto
  with Cons show ?case by simp
qed simp

subsection \<open>Properties\<close>



end
