(* ===== verification/RegJson.thy ===== *)
theory RegJson
  imports Sgbm Json
begin

section \<open>Documents of regression trees\<close>

text \<open>
  \<open>SID3Regression::createTreeJson\<close> and \<open>SGBM::getJson\<close>: every party writes its trees with its own share of the values of the leaves.
  The rest of a document is public, and the same for all parties.
\<close>

fun regTreeJson :: "'d boost \<Rightarrow> nat \<Rightarrow> reg \<Rightarrow> json" where
  "regTreeJson F p (REG T err att sz y grads cs) =
     JObj ([(''size'', JNum (of_int sz))] @ (if cs = [] then [] else [(''att_class'', JNum (of_int att))]) @ [(''error_value'', JNum err)] @
       (if cs = [] then [(''y_dash'', JNum (fp_getDoubleVal F (y ! p)))] else []) @ [(''children'', JArr (map (regTreeJson F p) cs))])"

definition sgbm_getJson :: "'d boost \<Rightarrow> nat \<Rightarrow> sgbm \<Rightarrow> json list" where
  "sgbm_getJson F p M = map (regTreeJson F p) (trees M)"

fun public_part :: "json \<Rightarrow> json" where
  "public_part (JObj kvs) = JObj (map (\<lambda>(k, v). (k, public_part v)) (filter (\<lambda>(k, _). k \<noteq> ''y_dash'') kvs))"
| "public_part (JArr vs) = JArr (map public_part vs)"
| "public_part v = v"

lemma regTreeJson_public: "public_part (regTreeJson F p t) = public_part (regTreeJson F q t)"
  by (induction t) simp

lemma sgbm_getJson_public: "map public_part (sgbm_getJson F p M) = map public_part (sgbm_getJson F q M)"
  using regTreeJson_public [of F p _ q] by (simp add: sgbm_getJson_def)

text \<open>The shares of a leaf, read from the documents of all parties, are those of the tree, up to the conversion to doubles.\<close>

lemma regTreeJson_leaf:
  "map (\<lambda>p. json_at (regTreeJson F p (REG T err att sz y grads [])) ''y_dash'') [0..<length y] = map (\<lambda>v. Inr (JNum (fp_getDoubleVal F v))) y"
  by (rule nth_equalityI) (simp_all add: json_at_def)

end
