(* ===== verification/SidJob.thy ===== *)
theory SidJob
  imports SidTree Json
begin

section \<open>Training and prediction with SID3 trees\<close>

text \<open>
  The JSON form of SID3 trees (\<open>GBDT/SID3.cpp\<close>, \<open>createTreeJson\<close>, and the constructor from JSON in \<open>GBDT/SID3.hpp\<close>), the
  computation of \<open>Job/Jobs/SID3Job.hpp\<close> and the prediction of \<open>Model/Models/SID3Model.hpp\<close>. Every party writes and reads its own
  document, with its own share of the class of each node.
\<close>

subsection \<open>Trees as documents\<close>

fun createTreeJson :: "'d boost \<Rightarrow> nat \<Rightarrow> sid3 \<Rightarrow> json" where
  "createTreeJson F p (SID3 g sz att y cs) =
     JObj ([(''gini'', JNum g), (''size'', JNum (of_int sz)), (''class'', JNum (fp_getDoubleVal F (y ! p)))] @
       (if cs = [] then [] else [(''att_class'', JNum (of_int att))]) @ [(''children'', JArr (map (createTreeJson F p) cs))])"

text \<open>
  The tree of one party; without \<open>att_class\<close> the member keeps the indeterminate value \<open>u\<close>. The recursion goes through the accesses of
  the library, so it takes fuel; the depth of the document is enough.
\<close>

fun sid3_of_json :: "int \<Rightarrow> nat \<Rightarrow> json \<Rightarrow> sid3 res" where
  "sid3_of_json u 0 j = Inl OutOfFuel"
| "sid3_of_json u (Suc fuel) j =
     bindE (json_at j ''gini'') (\<lambda>x. bindE (json_double x) (\<lambda>g.
     bindE (json_at j ''size'') (\<lambda>x. bindE (json_int x) (\<lambda>sz.
     bindE (json_at j ''class'') (\<lambda>x. bindE (json_double x) (\<lambda>c.
     bindE (case j of JObj kvs \<Rightarrow> (case map_of kvs ''att_class'' of None \<Rightarrow> Inr u | Some a \<Rightarrow> json_int a) | _ \<Rightarrow> Inr u) (\<lambda>att.
     bindE (json_at j ''children'') (\<lambda>cj. bindE (mapE (sid3_of_json u fuel) (json_items cj)) (\<lambda>cs.
     Inr (SID3 g sz att [fp_of_double c] cs))))))))))"

text \<open>
  The parties' trees as one tree with shares. Parties whose trees differ in shape would not take part in the same multiplications
  and wait for each other.
\<close>

fun join_trees :: "nat \<Rightarrow> sid3 list \<Rightarrow> sid3 res" where
  "join_trees 0 ts = Inl OutOfFuel"
| "join_trees (Suc fuel) ts =
     (case ts of [] \<Rightarrow> Inl UndefinedBehaviour | t # _ \<Rightarrow>
       if \<exists>t' \<in> set ts. length (sid_children t') \<noteq> length (sid_children t) \<or> (sid_children t \<noteq> [] \<and> att_class t' \<noteq> att_class t)
       then Inl Blocked
       else bindE (mapE (\<lambda>j. join_trees fuel (map (\<lambda>t'. sid_children t' ! j) ts)) [0..<length (sid_children t)]) (\<lambda>cs.
         Inr (SID3 (gini_index t) (sid_size t) (att_class t) (concat (map sid_y ts)) cs)))"

subsection \<open>The job and the model\<close>

definition SID3Job_compute ::
    "'d boost \<Rightarrow> nat \<Rightarrow> fp list list list \<Rightarrow> string list \<Rightarrow> int list list \<Rightarrow> (world, json list) comp" where
  "SID3Job_compute F fuel tbl names arg = withW (\<lambda>w.
     bindS (liftS (bindE (nth_or_ub arg 0) (\<lambda>a0. bindE (pick_columns tbl a0) (\<lambda>x.
       bindE (nth_or_ub arg 1) (\<lambda>a1. bindE (pick_columns tbl a1) (\<lambda>y.
       bindE (parse_schema names arg) (\<lambda>(schemaX, schemaY).
       bindE (getAttrSizeList schemaX) (\<lambda>attrX. bindE (getAttrSizeList schemaY) (\<lambda>attrY.
       bindE (getBitvector x attrX) (\<lambda>S. bindE (getBitvector y attrY) (\<lambda>ys. bindE (nth_or_ub ys 0) (\<lambda>target.
       Inr (S, target, [0..<length attrX]))))))))))))) (\<lambda>(S, target, R).
     let T = replicate (length tbl) (getConstantShare (n_parties w) (w_sp w) (fp_of_string (decs F) ''1'')) in
     bindS (createTree F fuel T S target R) (\<lambda>tree. retS (map (\<lambda>p. createTreeJson F p tree) [0..<n_parties w]))))"

definition SID3Model_predict ::
    "int \<Rightarrow> nat \<Rightarrow> json list \<Rightarrow> fp list list list \<Rightarrow> string list \<Rightarrow> int list \<Rightarrow> (world, fp list list) comp" where
  "SID3Model_predict u fuel params tbl names arg =
     bindS (liftS (bindE (mapE (sid3_of_json u fuel) params) (\<lambda>ts. bindE (join_trees fuel ts) (\<lambda>tree.
       bindE (pick_columns tbl arg) (\<lambda>x. bindE (mapE (pick names) arg) (\<lambda>sch.
       bindE (getAttrSizeList sch) (\<lambda>attr_size_list. bindE (getBitvector_rows x attr_size_list) (\<lambda>data. Inr (tree, data)))))))))
     (\<lambda>(tree, data). mapS (\<lambda>d. sid3_predict d tree) data)"

subsection \<open>Trees survive their documents\<close>

fun depth_ok :: "nat \<Rightarrow> sid3 \<Rightarrow> bool" where
  "depth_ok 0 t = False"
| "depth_ok (Suc k) t = (\<forall>c \<in> set (sid_children t). depth_ok k c)"

fun party_tree :: "'d boost \<Rightarrow> int \<Rightarrow> nat \<Rightarrow> sid3 \<Rightarrow> sid3" where
  "party_tree F u p (SID3 g sz att y cs) =
     SID3 g sz (if cs = [] then u else att) [fp_of_double (fp_getDoubleVal F (y ! p))] (map (party_tree F u p) cs)"

fun loaded :: "'d boost \<Rightarrow> int \<Rightarrow> nat \<Rightarrow> sid3 \<Rightarrow> sid3" where
  "loaded F u n (SID3 g sz att y cs) =
     SID3 g sz (if cs = [] then u else att) (map (\<lambda>p. fp_of_double (fp_getDoubleVal F (y ! p))) [0..<n]) (map (loaded F u n) cs)"

lemma sid3_of_createTreeJson: "depth_ok fuel t \<Longrightarrow> sid3_of_json u fuel (createTreeJson F p t) = Inr (party_tree F u p t)"
proof (induction fuel arbitrary: t)
  case (Suc fuel)
  obtain g sz att y cs where t: "t = SID3 g sz att y cs" by (cases t)
  have "mapE (sid3_of_json u fuel) (map (createTreeJson F p) cs) = Inr (map (party_tree F u p) cs)"
    using Suc by (simp add: mapE_eq_Inr t)
  then show ?case
    by (simp add: t json_at_def json_double_def json_items_def)
qed simp

lemma party_tree_simps [simp]:
  "sid_children (party_tree F u p t) = map (party_tree F u p) (sid_children t)"
  "att_class (party_tree F u p t) = (if sid_children t = [] then u else att_class t)"
  "gini_index (party_tree F u p t) = gini_index t" "sid_size (party_tree F u p t) = sid_size t"
  "sid_y (party_tree F u p t) = [fp_of_double (fp_getDoubleVal F (sid_y t ! p))]"
  by (cases t; simp)+

lemma join_party_trees: "depth_ok fuel t \<Longrightarrow> 0 < n \<Longrightarrow> join_trees fuel (map (\<lambda>p. party_tree F u p t) [0..<n]) = Inr (loaded F u n t)"
proof (induction fuel arbitrary: t)
  case (Suc fuel)
  obtain g sz att y cs where t: "t = SID3 g sz att y cs" by (cases t)
  have hd: "map (\<lambda>p. party_tree F u p t) [0..<n] = party_tree F u 0 t # map (\<lambda>p. party_tree F u p t) [1..<n]"
    using Suc.prems(2) by (simp add: upt_rec)
  have "mapE (\<lambda>j. join_trees fuel (map (\<lambda>t'. sid_children t' ! j) (map (\<lambda>p. party_tree F u p t) [0..<n]))) [0..<length cs] =
      Inr (map (loaded F u n) cs)"
    using Suc.IH Suc.prems by (simp add: mapE_eq_Inr t comp_def)
  moreover have "concat (map sid_y (map (\<lambda>p. party_tree F u p t) [0..<n])) = map (\<lambda>p. fp_of_double (fp_getDoubleVal F (y ! p))) [0..<n]"
    by (simp add: t comp_def)
  ultimately show ?case
    unfolding join_trees.simps hd list.case(2) unfolding hd [symmetric] by (auto simp: t)
qed simp

lemma sid3_tree_depth: "sid3_tree n sp N tbs Sb bs R t \<Longrightarrow> length R < fuel \<Longrightarrow> \<forall>r \<in> set R. r < length Sb \<Longrightarrow> depth_ok fuel t"
proof (induction arbitrary: fuel rule: sid3_tree.induct)
  case (leaf bs m R g att)
  then show ?case by (cases fuel) simp_all
next
  case (inner bs m R g att cs)
  from inner(3) have "0 \<le> g" using eps_pos by (simp add: stops_def)
  from best_split_attribute [OF inner(2) this] obtain r where r: "r \<in> set R" "att = int r" by auto
  let ?R = "filter (\<lambda>r'. int r' \<noteq> att) R"
  obtain k where k: "fuel = Suc k" using inner(5) by (cases fuel) simp_all
  have "length ?R < k" using length_filter_less [of r R "\<lambda>r'. int r' \<noteq> att"] r inner(5) k by auto
  moreover have "\<forall>r \<in> set ?R. r < length Sb" using inner(6) by simp
  ultimately have "\<forall>c \<in> set cs. depth_ok k c"
    using inner(4) by (auto dest!: list_all2_right)
  with k show ?case by simp
qed

lemma constant_survives:
  assumes "boost_ok F" "m \<le> 10 ^ 5"
  shows "map (\<lambda>p. fp_of_double (fp_getDoubleVal F (getConstantShare n sp (fp_of_int (int m)) ! p))) [0..<n] = getConstantShare n sp (fp_of_int (int m))"
proof (rule nth_equalityI)
  fix p assume "p < length (map (\<lambda>p. fp_of_double (fp_getDoubleVal F (getConstantShare n sp (fp_of_int (int m)) ! p))) [0..<n])"
  then have p: "p < n" by simp
  have v: "getConstantShare n sp (fp_of_int (int m)) ! p = fp_of_int (if p = sp then int m else 0)"
    using p by (simp add: getConstantShare_def share_addc_def zero_fp_def plus_fp_def fp_add_def fp_of_int_def)
  have "int m \<le> int (10 ^ 5)" using assms(2) by (rule of_nat_mono)
  then have "fp_of_double (fp_getDoubleVal F (fp_of_int (if p = sp then int m else 0))) = fp_of_int (if p = sp then int m else 0)"
    using fp_getDoubleVal_exact [OF assms(1), of "if p = sp then int m else 0"] fp_of_double_int [of "if p = sp then int m else 0"] by simp
  with v p show "map (\<lambda>p. fp_of_double (fp_getDoubleVal F (getConstantShare n sp (fp_of_int (int m)) ! p))) [0..<n] ! p =
      getConstantShare n sp (fp_of_int (int m)) ! p" by simp
qed (simp add: share_simps)

lemma loaded_tree:
  assumes "sid3_tree n sp N tbs Sb bs R t" "boost_ok F" "length tbs \<le> 10 ^ 5" "list_all2 (\<lambda>k vbs. k < length vbs) ks Sb" "\<forall>r \<in> set R. r < length Sb"
    and "list_all2 (\<lambda>d vbs. length d = length vbs) ds Sb"
  shows "sid3_walk ks (loaded F u n t) = sid3_walk ks t \<and> fits n ks ds (loaded F u n t)"
  using assms
proof (induction rule: sid3_tree.induct)
  case (leaf bs m R g att)
  have "m \<le> 10 ^ 5" using leaf(1,5) by (simp add: majority_def)
  with leaf(4) show ?case by (simp add: constant_survives share_simps)
next
  case (inner bs m R g att cs)
  from inner(3) have "0 \<le> g" using eps_pos by (simp add: stops_def)
  from best_split_attribute [OF inner(2) this] obtain r where r: "r \<in> set R" "att = int r" "Sb ! r \<noteq> []" by auto
  have "r < length Sb" using r(1) inner(8) by auto
  then have k: "ks ! r < length (Sb ! r)" "r < length ds" "length (ds ! r) = length (Sb ! r)"
    using inner(7,9) by (auto simp: list_all2_conv_all_nth)
  have len: "length cs = length (Sb ! r)" using inner(4) r(2) by (auto dest: list_all2_lengthD)
  have c: "\<forall>c \<in> set cs. sid3_walk ks (loaded F u n c) = sid3_walk ks c \<and> fits n ks ds (loaded F u n c)"
    using inner(4-9) by (auto dest!: list_all2_right)
  have "m \<le> 10 ^ 5" using inner(1,6) by (simp add: majority_def)
  moreover have "cs \<noteq> []" using len r(3) by auto
  ultimately show ?case
    using c k len r(2) inner(5) by (simp add: constant_survives share_simps)
qed

subsection \<open>Tables of bits\<close>

lemma mapE_rel:
  assumes "list_all2 R xs ys" "mapE f xs = Inr as" and "\<And>x y a. R x y \<Longrightarrow> f x = Inr a \<Longrightarrow> \<exists>b. g y = Inr b \<and> S a b"
  shows "\<exists>bs. mapE g ys = Inr bs \<and> list_all2 S as bs"
  using assms(1,2)
proof (induction arbitrary: as rule: list_all2_induct)
  case (Cons x xs y ys)
  from Cons.prems obtain a as' where a: "f x = Inr a" "mapE f xs = Inr as'" "as = a # as'" by (auto simp: bindE_eq_Inr)
  from assms(3) [OF Cons.hyps(1) a(1)] obtain b where "g y = Inr b" "S a b" by blast
  with Cons.IH [OF a(2)] a(3) show ?case by auto
qed simp

lemma nth_rel: "list_all2 R xs ys \<Longrightarrow> nth_or_ub xs i = Inr a \<Longrightarrow> \<exists>b. nth_or_ub ys i = Inr b \<and> R a b"
  by (auto simp: list_all2_conv_all_nth)

lemma pick_rel: "list_all2 R xs ys \<Longrightarrow> pick xs j = Inr a \<Longrightarrow> \<exists>b. pick ys j = Inr b \<and> R a b"
  by (auto simp: pick_def dest: nth_rel split: if_splits)

lemma pick_columns_rel:
  assumes "list_all2 (list_all2 R) tb tbl" "pick_columns tb a = Inr bx"
  shows "\<exists>x. pick_columns tbl a = Inr x \<and> list_all2 (list_all2 R) bx x"
  using assms unfolding pick_columns_def
  by (rule mapE_rel) (rule mapE_rel [where R = "(=)"], auto intro: pick_rel simp: list.rel_eq)

lemma bit_vectors_rel:
  "list_all2 (list_all2 R) tb tbl \<Longrightarrow> bit_vectors tb from sizes = Inr Sb \<Longrightarrow>
   \<exists>S. bit_vectors tbl from sizes = Inr S \<and> list_all2 (list_all2 (list_all2 R)) Sb S"
proof (induction sizes arbitrary: "from" Sb)
  case (Cons sz sizes)
  from Cons.prems(2) obtain b Sb' where b: "mapE (\<lambda>i. mapE (\<lambda>row. nth_or_ub row i) tb) [from..<from + sz] = Inr b"
    "bit_vectors tb (from + sz) sizes = Inr Sb'" "Sb = b # Sb'" by (auto simp: bindE_eq_Inr)
  have "\<exists>s. mapE (\<lambda>i. mapE (\<lambda>row. nth_or_ub row i) tbl) [from..<from + sz] = Inr s \<and> list_all2 (list_all2 R) b s"
    by (rule mapE_rel [OF _ b(1), where R = "(=)"]) (auto simp: list.rel_eq intro: mapE_rel [OF Cons.prems(1)] nth_rel)
  with Cons.IH [OF Cons.prems(1) b(2)] b(3) show ?case by auto
qed auto

lemma bit_vectors_lengths:
  "bit_vectors tb from sizes = Inr Sb \<Longrightarrow> length Sb = length sizes \<and> (\<forall>vbs \<in> set Sb. \<forall>vb \<in> set vbs. length vb = length tb)"
proof (induction sizes arbitrary: "from" Sb)
  case (Cons sz sizes)
  from Cons.prems obtain b Sb' where b: "mapE (\<lambda>i. mapE (\<lambda>row. nth_or_ub row i) tb) [from..<from + sz] = Inr b"
    "bit_vectors tb (from + sz) sizes = Inr Sb'" "Sb = b # Sb'" by (auto simp: bindE_eq_Inr)
  have "length vb = length tb" if "vb \<in> set b" for vb
  proof -
    from that obtain i where "i < length b" "b ! i = vb" by (auto simp: in_set_conv_nth)
    with b(1) show ?thesis by (auto simp: mapE_eq_Inr)
  qed
  with Cons.IH [OF b(2)] b(3) show ?case by simp
qed auto

lemma getBitvector_bits:
  assumes "list_all2 (list_all2 (bit_share n)) tb tbl" "getBitvector tb sizes = Inr Sb"
  shows "\<exists>S. getBitvector tbl sizes = Inr S \<and> data_bits n (length tb) Sb S"
proof -
  from bit_vectors_rel [OF assms(1) assms(2) [unfolded getBitvector_def]] obtain S where S: "bit_vectors tbl 0 sizes = Inr S"
    "list_all2 (list_all2 (list_all2 (bit_share n))) Sb S" by blast
  moreover have "length (Sb ! a ! v) = length tb" if "a < length Sb" "v < length (Sb ! a)" for a v
    using bit_vectors_lengths [OF assms(2) [unfolded getBitvector_def]] that by (metis nth_mem)
  then have "data_bits n (length tb) Sb S"
    using S(2) unfolding data_bits_def class_bits_def bit_shares_def
    by (auto simp: list_all2_conv_all_nth)
  ultimately show ?thesis by (simp add: getBitvector_def)
qed

lemma bit_shares_eq: "bit_shares n = list_all2 (bit_share n)"
  by (intro ext) (simp add: bit_shares_def)

lemma all_records: "sp < n \<Longrightarrow> bit_shares n (replicate N True) (replicate N (getConstantShare n sp (fp_of_int 1)))"
  by (simp add: bit_shares_def list_all2_conv_all_nth bit_share_def getConstantShare_def share_simps) (simp add: fp_of_int_def)

subsection \<open>The job and the model on bits\<close>

text \<open>
  \<open>training_set\<close> describes the table of bits a job is given: \<open>sizes\<close> and \<open>Sb\<close> are the sizes of the attributes and their bits by attribute,
  value and record, \<open>tbs\<close> the bits of the classes of the first target attribute. The job reads all the target attributes that its argument
  names, but keeps only the first, \<open>getBitvector(y, attrYSizeList)[0]\<close>; \<open>ignored\<close> are the bits of the others, for which no tree is
  built. \<open>query_set\<close>: the records of a prediction, with the value of each attribute.
\<close>

definition training_set ::
    "bool list list \<Rightarrow> string list \<Rightarrow> int list list \<Rightarrow> nat list \<Rightarrow> bool list list list \<Rightarrow> bool list list \<Rightarrow> bool" where
  "training_set tb names arg sizes Sb tbs \<longleftrightarrow>
     (\<exists>ax ay rest bx by sx sy sizesY ignored. arg = ax # ay # rest \<and> pick_columns tb ax = Inr bx \<and> pick_columns tb ay = Inr by \<and>
        parse_schema names arg = Inr (sx, sy) \<and> getAttrSizeList sx = Inr sizes \<and> getAttrSizeList sy = Inr sizesY \<and>
        getBitvector bx sizes = Inr Sb \<and> getBitvector by sizesY = Inr (tbs # ignored))"

definition query_set ::
    "nat \<Rightarrow> fp list list list \<Rightarrow> string list \<Rightarrow> int list \<Rightarrow> bool list list list \<Rightarrow> nat list list \<Rightarrow> bool" where
  "query_set n tbl names arg Sb kss \<longleftrightarrow>
     (\<exists>x sch sizes data. pick_columns tbl arg = Inr x \<and> mapE (pick names) arg = Inr sch \<and> getAttrSizeList sch = Inr sizes \<and>
        getBitvector_rows x sizes = Inr data \<and>
        list_all2 (\<lambda>ks d. list_all2 (one_hot n) ks d \<and> list_all2 (\<lambda>k vbs. k < length vbs) ks Sb \<and>
          list_all2 (\<lambda>d vbs. length d = length vbs) d Sb) kss data)"

lemma one_hot_unique:
  assumes "list_all2 (one_hot n) ks' d" "list_all2 (one_hot n) ks d" "list_all2 (\<lambda>k vbs. k < length vbs) ks' Sb"
    and "list_all2 (\<lambda>k vbs. k < length vbs) ks Sb" "list_all2 (\<lambda>d vbs. length d = length vbs) d Sb"
  shows "ks' = ks"
proof (rule nth_equalityI)
  show "length ks' = length ks" using assms(1,2) by (auto dest!: list_all2_lengthD)
  fix i assume i: "i < length ks'"
  have h: "one_hot n (ks' ! i) (d ! i)" "one_hot n (ks ! i) (d ! i)" "ks' ! i < length (d ! i)"
    using i assms by (auto simp: list_all2_conv_all_nth)
  from one_hotD(2) [OF h(1,3)] one_hotD(2) [OF h(2,3)] show "ks' ! i = ks ! i"
    by (auto split: if_splits)
qed

lemma query_values: "query_set n tbl names arg Sb kss \<Longrightarrow> \<forall>i < length kss. list_all2 (\<lambda>k vbs. k < length vbs) (kss ! i) Sb"
  unfolding query_set_def by (auto simp: list_all2_conv_all_nth)

lemma training_shares:
  assumes "training_set tb names arg sizes Sb tbs" "list_all2 (bit_shares n) tb tbl"
  shows "\<exists>a0 x a1 y schemaX schemaY attrY S ys target. nth_or_ub arg 0 = Inr a0 \<and> pick_columns tbl a0 = Inr x \<and> nth_or_ub arg 1 = Inr a1 \<and>
    pick_columns tbl a1 = Inr y \<and> parse_schema names arg = Inr (schemaX, schemaY) \<and> getAttrSizeList schemaX = Inr sizes \<and>
    getAttrSizeList schemaY = Inr attrY \<and> getBitvector x sizes = Inr S \<and> getBitvector y attrY = Inr ys \<and> nth_or_ub ys 0 = Inr target \<and>
    data_bits n (length tb) Sb S \<and> class_bits n (length tb) tbs target \<and> length Sb = length sizes"
proof -
  from assms(1) obtain ax ay rest bx "by" sx sy sizesY ignored where arg: "arg = ax # ay # rest" and
    p: "pick_columns tb ax = Inr bx" "pick_columns tb ay = Inr by" and
    sch: "parse_schema names arg = Inr (sx, sy)" "getAttrSizeList sx = Inr sizes" "getAttrSizeList sy = Inr sizesY" and
    bv: "getBitvector bx sizes = Inr Sb" "getBitvector by sizesY = Inr (tbs # ignored)"
    unfolding training_set_def by blast
  have len: "length bx = length tb" "length by = length tb"
    using p by (simp_all add: pick_columns_def mapE_eq_Inr)
  note t = assms(2) [unfolded bit_shares_eq]
  from pick_columns_rel [OF t p(1)] obtain x where x: "pick_columns tbl ax = Inr x" "list_all2 (list_all2 (bit_share n)) bx x" by blast
  from pick_columns_rel [OF t p(2)] obtain y where y: "pick_columns tbl ay = Inr y" "list_all2 (list_all2 (bit_share n)) by y" by blast
  from getBitvector_bits [OF x(2) bv(1)] obtain S where S: "getBitvector x sizes = Inr S" "data_bits n (length tb) Sb S"
    unfolding len by blast
  from getBitvector_bits [OF y(2) bv(2)] obtain ys where ys: "getBitvector y sizesY = Inr ys" "data_bits n (length tb) (tbs # ignored) ys"
    unfolding len by blast
  from ys(2) obtain target ys' where "ys = target # ys'" "class_bits n (length tb) tbs target"
    unfolding data_bits_def by (auto simp: list_all2_Cons1)
  moreover have "length Sb = length sizes"
    using bit_vectors_lengths [OF bv(1) [unfolded getBitvector_def]] by blast
  ultimately show ?thesis
    using arg x(1) y(1) sch S ys(1) by (auto simp: nth_or_ub_def)
qed

lemma wpS_SID3Job:
  assumes w: "wf_world P T J n sp w" and F: "boost_ok F" "fp_of_string (decs F) ''1'' = fp_of_int 1" and n: "n \<le> 100"
    and tb: "list_all2 (bit_shares n) tb tbl" "training_set tb names arg sizes Sb tbs" "length tb * length tbs \<le> 10 ^ 5" "tbs \<noteq> []"
    and fuel: "length sizes < fuel"
    and post: "\<And>t w'. wf_world P T J n sp w' \<Longrightarrow> sid3_tree n sp (length tb) tbs Sb (replicate (length tb) True) [0..<length sizes] t \<Longrightarrow>
      length Sb = length sizes \<Longrightarrow> Q (map (\<lambda>p. createTreeJson F p t) [0..<n]) w'"
  shows "wpS E Q (SID3Job_compute F fuel tbl names arg) w"
proof -
  have sp: "w_sp w = sp" "n_parties w = n" "sp < n"
    using w by (auto simp: wf_world_def n_parties_def)
  have len: "length tbl = length tb" using tb(1) by (auto dest: list_all2_lengthD)
  from training_shares [OF tb(2,1)] obtain a0 x a1 y schemaX schemaY attrY S ys target where
    e: "nth_or_ub arg 0 = Inr a0" "pick_columns tbl a0 = Inr x" "nth_or_ub arg 1 = Inr a1" "pick_columns tbl a1 = Inr y"
      "parse_schema names arg = Inr (schemaX, schemaY)" "getAttrSizeList schemaX = Inr sizes" "getAttrSizeList schemaY = Inr attrY"
      "getBitvector x sizes = Inr S" "getBitvector y attrY = Inr ys" "nth_or_ub ys 0 = Inr target"
    and d: "data_bits n (length tb) Sb S" "class_bits n (length tb) tbs target" "length Sb = length sizes"
    by blast
  have one: "bit_shares n (replicate (length tb) True) (replicate (length tbl) (getConstantShare n sp (fp_of_int 1)))"
    unfolding len by (rule all_records [OF sp(3)])
  have "wpS E (\<lambda>tree. wpS E Q (retS (map (\<lambda>p. createTreeJson F p tree) [0..<n])))
      (createTree F fuel (replicate (length tbl) (getConstantShare n sp (fp_of_int 1))) S target [0..<length sizes]) w"
    by (rule wpS_createTree [OF F(1) n tb(3,4) d(2,1) w one]) (use d(3) fuel post in auto)
  then show ?thesis
    unfolding SID3Job_compute_def by (simp add: e sp F(2) del: nth_or_ub_Inr One_nat_def)
qed

lemma wpS_SID3Model:
  assumes w: "wf_world P T J n sp w" and F: "boost_ok F" and q: "query_set n tbl names arg Sb kss"
    and t: "sid3_tree n sp N tbs Sb bs R t" "length tbs \<le> 10 ^ 5" "\<forall>r \<in> set R. r < length Sb" "length R < fuel"
    and post: "\<And>zs w'. wf_world P T J n sp w' \<Longrightarrow> list_all2 (\<lambda>ks z. length z = n \<and> fsec z = fsec (sid3_walk ks t)) kss zs \<Longrightarrow> Q zs w'"
  shows "wpS E Q (SID3Model_predict u fuel (map (\<lambda>p. createTreeJson F p t) [0..<n]) tbl names arg) w"
proof -
  have n: "0 < n" using w by (auto simp: wf_world_def)
  note depth = sid3_tree_depth [OF t(1,4,3)]
  have docs: "mapE (sid3_of_json u fuel) (map (\<lambda>p. createTreeJson F p t) [0..<n]) = Inr (map (\<lambda>p. party_tree F u p t) [0..<n])"
    by (simp add: mapE_eq_Inr sid3_of_createTreeJson [OF depth])
  from q obtain x sch sizes data where e: "pick_columns tbl arg = Inr x" "mapE (pick names) arg = Inr sch" "getAttrSizeList sch = Inr sizes"
    "getBitvector_rows x sizes = Inr data" and
    d: "list_all2 (\<lambda>ks d. list_all2 (one_hot n) ks d \<and> list_all2 (\<lambda>k vbs. k < length vbs) ks Sb \<and>
          list_all2 (\<lambda>d vbs. length d = length vbs) d Sb) kss data"
    unfolding query_set_def by blast
  have "wpS E Q (mapS (\<lambda>d. sid3_predict d (loaded F u n t)) data) w"
  proof (rule wpS_mapS [where I = "wf_world P T J n sp" and
        R = "\<lambda>d z. \<forall>ks. list_all2 (one_hot n) ks d \<and> list_all2 (\<lambda>k vbs. k < length vbs) ks Sb \<and> list_all2 (\<lambda>d vbs. length d = length vbs) d Sb \<longrightarrow>
          length z = n \<and> fsec z = fsec (sid3_walk ks t)"])
    fix d0 w1 assume d0: "d0 \<in> set data" and w1: "wf_world P T J n sp w1"
    from list_all2_right [OF d d0] obtain ks where ks: "list_all2 (one_hot n) ks d0" "list_all2 (\<lambda>k vbs. k < length vbs) ks Sb"
      "list_all2 (\<lambda>d vbs. length d = length vbs) d0 Sb" by blast
    note l = loaded_tree [OF t(1) F t(2) ks(2) t(3) ks(3)]
    have uniq: "ks' = ks" if "list_all2 (one_hot n) ks' d0" "list_all2 (\<lambda>k vbs. k < length vbs) ks' Sb" for ks'
      by (rule one_hot_unique [OF that(1) ks(1) that(2) ks(2,3)])
    show "wpS E (\<lambda>z w'. wf_world P T J n sp w' \<and> (\<forall>ks. list_all2 (one_hot n) ks d0 \<and> list_all2 (\<lambda>k vbs. k < length vbs) ks Sb \<and>
        list_all2 (\<lambda>d vbs. length d = length vbs) d0 Sb \<longrightarrow> length z = n \<and> fsec z = fsec (sid3_walk ks t)))
        (sid3_predict d0 (loaded F u n t)) w1"
      by (rule wpS_predict(1) [OF ks(1) w1 conjunct2 [OF l]]) (use l uniq in auto)
  next
    fix zs w' assume w': "wf_world P T J n sp w'" and zs: "list_all2 (\<lambda>d z. \<forall>ks. list_all2 (one_hot n) ks d \<and>
        list_all2 (\<lambda>k vbs. k < length vbs) ks Sb \<and> list_all2 (\<lambda>d vbs. length d = length vbs) d Sb \<longrightarrow>
        length z = n \<and> fsec z = fsec (sid3_walk ks t)) data zs"
    have "list_all2 (\<lambda>ks z. length z = n \<and> fsec z = fsec (sid3_walk ks t)) kss zs"
      by (rule list_all2_trans [OF _ d zs]) blast
    then show "Q zs w'" by (rule post [OF w'])
  qed (rule w)
  then show ?thesis
    unfolding SID3Model_predict_def by (simp add: docs join_party_trees [OF depth n] e)
qed

subsection \<open>Properties\<close>

text \<open>
  C7. A SID3 job and a prediction with its result: the job trains one tree, for the first target attribute of its argument, on a table of
  shared bits (further target attributes are read and ignored), every party writes that tree with its own shares of the classes as a
  document, and a model that reads the documents of all parties back predicts the records of a second table. Both find
  the attributes by the names of the columns. Every prediction opens to exactly the number of a class of the first target attribute that is
  most frequent among the training records that agree with the record on a list of different attributes. This holds for up to 100 parties
  and tables of up to \<open>10^5\<close> bits of the first target, and whatever value \<open>u\<close> the uninitialised member \<open>att_class\<close> of a loaded leaf has.
\<close>

theorem sid3_job_and_model:
  assumes "wf_world P T J n sp w" "boost_ok F" "fp_of_string (decs F) ''1'' = fp_of_int 1" "n \<le> 100"
    and "list_all2 (bit_shares n) tb tbl" "training_set tb names arg sizes Sb tbs" "length tb * length tbs \<le> 10 ^ 5" "length tbs \<le> 10 ^ 5" "tbs \<noteq> []"
    and "length sizes < fuel" "query_set n tbl' names' arg' Sb kss"
  shows "\<exists>zs w'. bindS (SID3Job_compute F fuel tbl names arg) (\<lambda>docs. SID3Model_predict u fuel docs tbl' names' arg') w = Inr (zs, w') \<and>
    wf_world P T J n sp w' \<and>
    list_all2 (\<lambda>ks z. length z = n \<and> (\<exists>as m. recons z = fp_of_int (int m) \<and> distinct as \<and> set as \<subseteq> {..< length sizes} \<and>
      majority tbs (restrict Sb ks (replicate (length tb) True) as) m)) kss zs"
proof -
  have sp: "sp < n" using assms(1) by (simp add: wf_world_def)
  let ?ok = "\<lambda>ks z. length z = n \<and> (\<exists>as m. recons z = fp_of_int (int m) \<and> distinct as \<and> set as \<subseteq> {..< length sizes} \<and>
      majority tbs (restrict Sb ks (replicate (length tb) True) as) m)"
  have "wpS (\<lambda>_. False) (\<lambda>zs w'. wf_world P T J n sp w' \<and> list_all2 ?ok kss zs)
      (bindS (SID3Job_compute F fuel tbl names arg) (\<lambda>docs. SID3Model_predict u fuel docs tbl' names' arg')) w"
    unfolding wpS_bindS
  proof (rule wpS_SID3Job [OF assms(1-7,9,10)])
    fix t w1 assume w1: "wf_world P T J n sp w1" and len: "length Sb = length sizes"
      and t: "sid3_tree n sp (length tb) tbs Sb (replicate (length tb) True) [0..<length sizes] t"
    have R: "\<forall>r \<in> set [0..<length sizes]. r < length Sb" "length [0..<length sizes] < fuel" using len assms(10) by auto
    show "wpS (\<lambda>_. False) (\<lambda>zs w'. wf_world P T J n sp w' \<and> list_all2 ?ok kss zs)
        (SID3Model_predict u fuel (map (\<lambda>p. createTreeJson F p t) [0..<n]) tbl' names' arg') w1"
    proof (rule wpS_SID3Model [OF w1 assms(2,11) t assms(8) R])
      fix zs w' assume w': "wf_world P T J n sp w'" and zs: "list_all2 (\<lambda>ks z. length z = n \<and> fsec z = fsec (sid3_walk ks t)) kss zs"
      have "?ok ks z" if "length z = n" "fsec z = fsec (sid3_walk ks t)" "list_all2 (\<lambda>k vbs. k < length vbs) ks Sb" for ks z
      proof -
        from walk_majority [OF t that(3) R(1)] obtain as m where m: "distinct as" "set as \<subseteq> set [0..<length sizes]"
          "majority tbs (restrict Sb ks (replicate (length tb) True) as) m" "sid3_walk ks t = getConstantShare n sp (fp_of_int (int m))" by blast
        have "fpVal (recons z) = fpVal (fp_of_int (int m))"
          using sp unfolding fpVal_recons that(2) m(4) by (simp add: getConstantShare_def share_simps)
        then have "recons z = fp_of_int (int m)" by (rule fp.expand)
        moreover have "set as \<subseteq> {..< length sizes}" using m(2) by auto
        ultimately show ?thesis using that(1) m(1,3) by blast
      qed
      then have "list_all2 ?ok kss zs"
        using zs query_values [OF assms(11)] by (auto simp: list_all2_conv_all_nth)
      with w' show "wf_world P T J n sp w' \<and> list_all2 ?ok kss zs" ..
    qed
  qed
  then show ?thesis unfolding wpS_total by blast
qed

text \<open>Two records with one attribute of two values and a target of two values; both records are in the first class.\<close>

definition demo_names :: "string list" where
  "demo_names = [''a#0'', ''a#1'', ''y#0'', ''y#1'']"

definition demo_rows :: "bool list list" where
  "demo_rows = [[True, False, True, False], [False, True, True, False]]"

lemma demo_training: "training_set demo_rows demo_names [[1, 2], [3, 4]] [2] demo_data demo_targets"
  unfolding training_set_def
  by (rule exI [of _ "[1, 2]"], rule exI [of _ "[3, 4]"], rule exI [of _ "[]"], rule exI [of _ "[[True, False], [False, True]]"],
      rule exI [of _ "[[True, False], [True, False]]"], rule exI [of _ "[''a#0'', ''a#1'']"], rule exI [of _ "[''y#0'', ''y#1'']"],
      rule exI [of _ "[2]"], rule exI [of _ "[]"])
    (simp add: demo_rows_def demo_names_def demo_data_def demo_targets_def pick_columns_def pick_def parse_schema_def nth_or_ub_def
      getAttrSizeList_def getBitvector_def upt_rec)

lemma demo_query: "query_set 2 [map demo_bit [False, True]] [''a#0'', ''a#1''] [1, 2] demo_data [[1]]"
proof -
  have "one_hot 2 1 [demo_bit False, demo_bit True]"
    using demo_bits [of "[False, True]"] by (simp add: one_hot_def upt_rec)
  then show ?thesis
    unfolding query_set_def
    by (intro exI [of _ "[[demo_bit False, demo_bit True]]"] exI [of _ "[''a#0'', ''a#1'']"] exI [of _ "[2]"]
        exI [of _ "[[[demo_bit False, demo_bit True]]]"])
      (simp add: pick_columns_def pick_def nth_or_ub_def getAttrSizeList_def getBitvector_rows_def upt_rec demo_data_def)
qed

theorem sid3_job_and_model_witness:
  "\<exists>z w'. bindS (SID3Job_compute (ref_boost_with [(''1'', 1)]) 2 (map (map demo_bit) demo_rows) demo_names [[1, 2], [3, 4]])
      (\<lambda>docs. SID3Model_predict 77 2 docs [map demo_bit [False, True]] [''a#0'', ''a#1''] [1, 2]) demo_world = Inr ([z], w') \<and>
    recons z = fp_of_int 0"
proof -
  have one: "fp_of_string (decs (ref_boost_with [(''1'', 1)])) ''1'' = fp_of_int 1"
    by (simp add: fp_of_string_with fp_of_int_def)
  have tb: "list_all2 (bit_shares 2) demo_rows (map (map demo_bit) demo_rows)"
    by (simp add: list_all2_map2 list_all2_same demo_bits)
  have a: "length demo_rows * length demo_targets \<le> 10 ^ 5" "length demo_targets \<le> 10 ^ 5" "length [2 :: nat] < 2"
    by (simp_all add: demo_rows_def demo_targets_def)
  from sid3_job_and_model [OF wf_demo_world boost_ok_with one _ tb demo_training a(1,2) demo_tables(3) a(3) demo_query, where u = 77]
  obtain z w' as m where z: "bindS (SID3Job_compute (ref_boost_with [(''1'', 1)]) 2 (map (map demo_bit) demo_rows) demo_names [[1, 2], [3, 4]])
      (\<lambda>docs. SID3Model_predict 77 2 docs [map demo_bit [False, True]] [''a#0'', ''a#1''] [1, 2]) demo_world = Inr ([z], w')"
    "recons z = fp_of_int (int m)" "distinct as" "set as \<subseteq> {0}" "majority demo_targets (restrict demo_data [1] [True, True] as) m"
    by (auto simp: list_all2_Cons1 demo_rows_def numeral_2_eq_2 lessThan_Suc simp del: list.map)
  from z(3,4) have "as = [] \<or> as = [0]"
    by (cases as) (auto simp: subset_singleton_iff)
  with z(5) have "m = 0"
    by (auto simp: majority_def restrict_def demo_targets_def demo_data_def masked_def class_count_def count_true_def less_Suc_eq)
  with z(1,2) show ?thesis by auto
qed

end
