(* ===== verification/Sigmoid.thy ===== *)
theory Sigmoid
  imports Math
begin

section \<open>The sigmoid function on opened values\<close>

text \<open>
  What \<open>open_sigmoid\<close> of \<open>Math/Math.cpp\<close> returns for secrets between -500 and 500: the library's \<open>exp\<close> is an argument, and
  \<open>exp_ok\<close> states the relative error the code relies on.
\<close>

subsection \<open>The exponential function of the library\<close>

definition exp_ok :: "(rat \<Rightarrow> rat) \<Rightarrow> bool" where
  "exp_ok e \<longleftrightarrow> (\<forall>x. \<bar>x\<bar> \<le> 501 \<longrightarrow> \<bar>real_of_rat (e x) - exp (real_of_rat x)\<bar> * 10 ^ 13 \<le> exp (real_of_rat x))"

definition ref_steps :: nat where "ref_steps = 10 ^ 20"

definition ref_exp :: "rat \<Rightarrow> rat" where
  "ref_exp x = (1 + x / of_nat ref_steps) ^ ref_steps"

lemma one_plus_exp:
  fixes y :: real
  assumes "\<bar>y\<bar> \<le> 1 / 2"
  shows "exp (y - 2 * y\<^sup>2) \<le> 1 + y" "1 + y \<le> exp y"
proof -
  have "y - 2 * y\<^sup>2 \<le> ln (1 + y)"
  proof (cases "0 \<le> y")
    case True
    then show ?thesis
      using ln_one_plus_pos_lower_bound [of y] assms zero_le_power2 [of y] by linarith
  next
    case False
    then show ?thesis
      using ln_one_minus_pos_lower_bound [of "- y"] assms by simp
  qed
  then show "exp (y - 2 * y\<^sup>2) \<le> 1 + y"
    using assms by (subst (asm) ln_ge_iff) auto
qed (simp add: exp_ge_add_one_self add.commute)

lemma exp_ok_ref: "exp_ok ref_exp"
  unfolding exp_ok_def
proof (intro allI impI)
  fix x :: rat assume x: "\<bar>x\<bar> \<le> 501"
  define N where "N = ref_steps"
  define r y where "r = real_of_rat x" and "y = r / real N"
  have N: "0 < real N" "real N = 10 ^ 20" by (simp_all add: N_def ref_steps_def)
  have r: "\<bar>r\<bar> \<le> 501"
    using x by (metis of_rat_less_eq abs_of_rat of_rat_numeral_eq r_def)
  then have y: "\<bar>y\<bar> \<le> 1 / 2" by (simp add: y_def N abs_divide)
  have e: "real_of_rat (ref_exp x) = (1 + y) ^ N"
    by (simp add: ref_exp_def y_def r_def N_def of_rat_power of_rat_add of_rat_divide)
  have "0 \<le> 1 + y" using y by linarith
  then have "(exp (y - 2 * y\<^sup>2)) ^ N \<le> (1 + y) ^ N" "(1 + y) ^ N \<le> exp y ^ N"
    using one_plus_exp [OF y] by (auto intro!: power_mono)
  then have b: "exp (real N * (y - 2 * y\<^sup>2)) \<le> (1 + y) ^ N" "(1 + y) ^ N \<le> exp r"
    using N by (simp_all add: exp_of_nat_mult [symmetric] y_def)
  have "real N * (y - 2 * y\<^sup>2) = r - 2 * (r\<^sup>2 / real N)"
    using N by (simp add: y_def power2_eq_square field_simps)
  moreover have "r\<^sup>2 \<le> 501\<^sup>2"
    using r by (metis abs_le_square_iff abs_numeral)
  then have "2 * (r\<^sup>2 / real N) \<le> 1 / 10 ^ 13"
    by (simp add: N)
  ultimately have "exp r * exp (- (1 / 10 ^ 13)) \<le> (1 + y) ^ N"
    by (intro order_trans [OF _ b(1)]) (simp flip: exp_add)
  moreover have "1 - 1 / 10 ^ 13 \<le> exp (- (1 / 10 ^ 13) :: real)"
    using exp_ge_add_one_self [of "- (1 / 10 ^ 13)"] by simp
  then have "exp r * (1 - 1 / 10 ^ 13) \<le> exp r * exp (- (1 / 10 ^ 13))"
    by (rule mult_left_mono) simp
  ultimately have "exp r * (1 - 1 / 10 ^ 13) \<le> (1 + y) ^ N" by linarith
  with b(2) show "\<bar>real_of_rat (ref_exp x) - exp (real_of_rat x)\<bar> * 10 ^ 13 \<le> exp (real_of_rat x)"
    unfolding e r_def [symmetric] by (simp add: field_simps)
qed

subsection \<open>The opened value as a double\<close>

lemma opened_double:
  assumes "boost_ok F" "\<bar>v\<bar> \<le> 500 * shift"
  shows "\<bar>fp_getDoubleVal F (FP v) - of_int v / of_int shift\<bar> * 10000000000000 \<le> 1"
proof -
  have v: "\<bar>v\<bar> \<le> 50000000000" using assms(2) by (simp add: shift_eq)
  then have t: "to_double F v = of_int v"
    using boost_exact [OF assms(1), of v 0] by simp
  have "\<not> isinf (of_int v)"
    using of_int_abs_le [OF v] by (intro not_isinf) simp
  then have "fp_getDoubleVal F (FP v) = rnd (of_int v / of_int shift)"
    by (simp add: fp_getDoubleVal_def t)
  moreover have "\<bar>of_int v / of_int shift :: rat\<bar> \<le> 500"
    using of_int_abs_le [OF v] by (simp add: shift_eq abs_divide)
  ultimately show ?thesis
    using rnd_close [of "of_int v / of_int shift"] by simp
qed

lemma abs_chain:
  fixes a b :: real
  assumes "\<bar>a - b\<bar> * c \<le> x" "\<bar>b - d\<bar> * c \<le> y" "0 \<le> c"
  shows "\<bar>a - d\<bar> * c \<le> x + y"
proof -
  have "\<bar>a - d\<bar> * c \<le> (\<bar>a - b\<bar> + \<bar>b - d\<bar>) * c"
    using assms(3) by (intro mult_right_mono) auto
  with assms show ?thesis by (simp add: distrib_right)
qed

lemma abs_scaledD:
  fixes a b :: real
  assumes "\<bar>a - b\<bar> * c \<le> x" "0 \<le> c"
  shows "a * c \<le> b * c + x" "b * c \<le> a * c + x"
proof -
  have "(a - b) * c \<le> \<bar>a - b\<bar> * c" "(b - a) * c \<le> \<bar>a - b\<bar> * c"
    using assms(2) by (auto intro: mult_right_mono)
  with assms show "a * c \<le> b * c + x" "b * c \<le> a * c + x"
    by (simp_all add: left_diff_distrib)
qed

lemma exp_close:
  fixes a b :: real
  assumes "\<bar>a - b\<bar> * 10000000000000 \<le> 1"
  shows "\<bar>exp a - exp b\<bar> * 10000000000000 \<le> 2 * exp b"
proof -
  define d where "d = a - b"
  have d: "\<bar>d\<bar> \<le> 1 / 10000000000000" using assms by (simp add: d_def)
  have "\<bar>exp d - 1\<bar> \<le> 2 * \<bar>d\<bar>"
  proof (cases "0 \<le> d")
    case True
    then have "exp d \<le> 1 + d + d\<^sup>2" using d exp_bound by fastforce
    moreover have "d\<^sup>2 \<le> d" using True d by (simp add: power2_eq_square mult_left_le)
    moreover have "0 \<le> exp d - 1" using True by simp
    ultimately show ?thesis using True by (simp only: abs_of_nonneg)
  next
    case False
    moreover have "exp d < 1" using False by simp
    ultimately show ?thesis using exp_ge_add_one_self [of d] by linarith
  qed
  then have "\<bar>exp d - 1\<bar> * 10000000000000 \<le> 2" using d by simp
  then have "exp b * (\<bar>exp d - 1\<bar> * 10000000000000) \<le> exp b * 2"
    by (rule mult_left_mono) simp
  moreover have "exp a = exp b * exp d" by (simp add: d_def flip: exp_add)
  then have "exp b * (exp d - 1) = exp a - exp b" by (simp add: right_diff_distrib)
  then have "exp b * \<bar>exp d - 1\<bar> = \<bar>exp a - exp b\<bar>" by (metis abs_exp_cancel abs_mult)
  ultimately show ?thesis by (simp only: mult.assoc [symmetric] mult.commute [of 2])
qed

text \<open>\<open>E = e ^ -x\<close> as a fixed-point number.\<close>

definition exp_near :: "real \<Rightarrow> int \<Rightarrow> bool" where
  "exp_near q v \<longleftrightarrow> 0 \<le> v \<and> \<bar>of_int v - of_int shift * q\<bar> * 10 ^ 12 \<le> 10 ^ 12 + of_int shift * q"

lemma exp_500: "exp (500 :: real) \<le> 3 ^ 500"
proof -
  have "exp (500 :: real) = exp 1 ^ 500" by (simp flip: exp_of_nat_mult)
  also have "\<dots> \<le> 3 ^ 500" using exp_le by (intro power_mono) auto
  finally show ?thesis .
qed

lemma three_500: "2 * 3 ^ 500 < (2 ^ 1024 :: real)" 
proof -
  have "(3 :: real) ^ 500 \<le> 4 ^ 500" by (rule power_mono) auto
  also have "\<dots> = (2 ^ 2) ^ 500" by simp
  also have "\<dots> = 2 ^ (2 * 500)" by (rule power_mult [symmetric])
  also have "\<dots> = 2 ^ 1000" by (rule arg_cong) simp
  finally have "2 * 3 ^ 500 \<le> (2 * 2 ^ 1000 :: real)" by (rule mult_left_mono) simp
  also have "\<dots> = 2 ^ Suc 1000" by (rule power_Suc [symmetric])
  also have "\<dots> < 2 ^ 1024" by (rule power_strict_increasing) auto
  finally show ?thesis .
qed

lemma opened_exp:
  assumes "boost_ok F" "exp_ok e" "\<bar>v\<bar> \<le> 500 * shift"
  defines "q \<equiv> exp (- (of_int v / of_int shift)) :: real"
  shows "exp_near q (fpVal (fp_of_double (e (- fp_getDoubleVal F (FP v)))))" "q \<le> 3 ^ 500"
proof -
  define t where "t = - (of_int v / of_int shift :: real)"
  define x where "x = - fp_getDoubleVal F (FP v)"
  define b where "b = real_of_rat (e x)"
  have v: "\<bar>v\<bar> \<le> 50000000000" using assms(3) by (simp add: shift_eq)
  have "\<bar>x - (- (of_int v / of_int shift))\<bar> * 10000000000000 \<le> 1"
    using opened_double [OF assms(1,3)] by (simp add: x_def abs_minus_commute)
  then have "real_of_rat (\<bar>x - (- (of_int v / of_int shift))\<bar> * 10000000000000) \<le> 1"
    by (simp only: of_rat_le_1_iff)
  then have xt: "\<bar>real_of_rat x - t\<bar> * 10000000000000 \<le> 1"
    by (simp add: t_def of_rat_mult of_rat_diff of_rat_add of_rat_divide of_rat_power flip: abs_of_rat)
  have t: "\<bar>t\<bar> \<le> 500"
    using v by (simp add: t_def shift_eq abs_divide)
  have q: "q = exp t" "0 < q" by (simp_all add: q_def t_def)
  show "q \<le> 3 ^ 500"
    unfolding q(1) by (rule order_trans [OF _ exp_500]) (use t in simp)
  have "\<bar>real_of_rat x - t\<bar> \<le> 1" using xt by simp
  then have "\<bar>real_of_rat x\<bar> \<le> 501" using t by (auto simp: abs_if split: if_splits)
  then have "\<bar>x\<bar> \<le> 501"
    by (metis of_rat_less_eq abs_of_rat of_rat_numeral_eq)
  then have "\<bar>b - exp (real_of_rat x)\<bar> * 10000000000000 \<le> exp (real_of_rat x)"
    using assms(2) unfolding exp_ok_def b_def by simp
  moreover have c: "\<bar>exp (real_of_rat x) - q\<bar> * 10000000000000 \<le> 2 * q"
    unfolding q(1) by (rule exp_close [OF xt])
  ultimately have "\<bar>b - q\<bar> * 10000000000000 \<le> exp (real_of_rat x) + 2 * q"
    by (rule abs_chain) simp
  with abs_scaledD(1) [OF c] q(2) have b: "\<bar>b - q\<bar> * 10000000000000 \<le> 4 * q" by linarith
  from abs_scaledD [OF this] q(2) have b': "0 \<le> b" "b \<le> 2 * q" by linarith+
  show "exp_near q (fpVal (fp_of_double (e (- fp_getDoubleVal F (FP v)))))"
  proof -
    let ?y = "e x * of_int shift" and ?S = "real_of_int shift"
    define m where "m = dtrunc (rnd ?y)"
    have S: "0 < ?S" by simp
    have "\<bar>b\<bar> \<le> 2 * 3 ^ 500" using b' \<open>q \<le> 3 ^ 500\<close> by linarith
    then have "\<bar>b\<bar> < 2 ^ 1024" using three_500 by linarith
    then have "real_of_rat \<bar>e x\<bar> < real_of_rat (2 ^ 1024)"
      by (simp only: abs_of_rat [symmetric] b_def of_rat_power of_rat_numeral_eq)
    then have "\<not> isinf (e x)"
      unfolding isinf_def of_rat_less by simp
    then have m: "fpVal (fp_of_double (e (- fp_getDoubleVal F (FP v)))) = m"
      by (simp add: fp_of_double_def m_def x_def)
    have "real_of_rat \<bar>of_int m - rnd ?y\<bar> < 1"
      using dtrunc_close [of "rnd ?y"] by (simp only: of_rat_less_1_iff m_def)
    then have 1: "\<bar>of_int m - real_of_rat (rnd ?y)\<bar> < 1"
      by (simp add: of_rat_diff flip: abs_of_rat)
    have "real_of_rat (\<bar>rnd ?y - ?y\<bar> * 2 ^ 53) \<le> real_of_rat \<bar>?y\<bar>"
      using rnd_close [of ?y] by (simp only: of_rat_less_eq)
    then have 2: "\<bar>real_of_rat (rnd ?y) - b * ?S\<bar> * 2 ^ 53 \<le> b * ?S"
      using b'(1) S by (simp add: of_rat_diff of_rat_mult b_def flip: abs_of_rat)
    have 3: "\<bar>b * ?S - ?S * q\<bar> * 10000000000000 \<le> 4 * (?S * q)"
    proof -
      have "b * ?S - ?S * q = (b - q) * ?S" by (simp add: algebra_simps)
      then have "\<bar>b * ?S - ?S * q\<bar> = \<bar>b - q\<bar> * ?S" using S by (simp only: abs_mult abs_of_pos)
      moreover have "\<bar>b - q\<bar> * 10000000000000 * ?S \<le> 4 * q * ?S" using b S by (intro mult_right_mono) simp_all
      ultimately show ?thesis by (simp only: mult_ac)
    qed
    have 4: "b * ?S \<le> 2 * (?S * q)"
      using mult_right_mono [OF b'(2), of ?S] by (simp add: mult_ac)
    have "0 \<le> b * ?S" using b'(1) by simp
    moreover have "b * ?S * 9007199254740992 \<le> real_of_rat (rnd ?y) * 9007199254740992 + b * ?S"
      using abs_scaledD(2) [OF 2] by simp
    ultimately have "0 \<le> real_of_rat (rnd ?y)" by linarith
    then have "0 \<le> m" by (simp add: m_def dtrunc_def)
    moreover have "\<bar>of_int m - ?S * q\<bar> * 1000000000000 \<le> 1000000000000 + ?S * q"
    proof -
      have "\<bar>of_int m - real_of_rat (rnd ?y)\<bar> * 90071992547409920000000000000 \<le> 90071992547409920000000000000"
        using 1 by simp
      moreover have "\<bar>real_of_rat (rnd ?y) - b * ?S\<bar> * 90071992547409920000000000000 \<le> 10000000000000 * (b * ?S)"
        using 2 by simp
      ultimately have "\<bar>of_int m - b * ?S\<bar> * 90071992547409920000000000000 \<le> 90071992547409920000000000000 + 10000000000000 * (b * ?S)"
        by (rule abs_chain) simp
      moreover have "\<bar>b * ?S - ?S * q\<bar> * 90071992547409920000000000000 \<le> 36028797018963968 * (?S * q)"
        using 3 by simp
      ultimately have "\<bar>of_int m - ?S * q\<bar> * 90071992547409920000000000000 \<le>
          90071992547409920000000000000 + 10000000000000 * (b * ?S) + 36028797018963968 * (?S * q)"
        by (rule abs_chain) simp
      moreover have "0 \<le> ?S * q" using S q(2) by simp
      ultimately show ?thesis using 4 by linarith
    qed
    ultimately show ?thesis by (simp add: m exp_near_def)
  qed
qed

subsection \<open>The sigmoid\<close>

definition logistic :: "real \<Rightarrow> real" where
  "logistic t = 1 / (1 + exp (- t))"

text \<open>The opened result is within \<open>999 n + 3\<close> units of the logistic function of the secret.\<close>

definition sigmoid_near :: "nat \<Rightarrow> int \<Rightarrow> int \<Rightarrow> bool" where
  "sigmoid_near n s z \<longleftrightarrow> \<bar>of_int z - of_int shift * logistic (of_int s / of_int shift)\<bar> \<le> 999 * real n + 3"

lemma inverse_near:
  fixes S q y :: real
  assumes "\<bar>y - (S + S * q)\<bar> \<le> 1 + S * q / 10 ^ 12" "S = 10 ^ 8" "0 < q" "S \<le> y"
  shows "\<bar>S * S / y - S / (1 + q)\<bar> \<le> 2"
proof -
  let ?Y = "S + S * q"
  have S: "0 < S" "0 < y" "0 < ?Y" "S \<le> ?Y" "S * q \<le> ?Y"
    using assms by (simp_all add: add_pos_pos)
  have "?Y = S * (1 + q)" by (simp add: distrib_left)
  then have "S / (1 + q) = S * S / ?Y" using S(1) by simp
  moreover have "S * S / y - S * S / ?Y = (S * S * ?Y - S * S * y) / (y * ?Y)"
    using S by (intro diff_frac_eq) simp_all
  ultimately have "S * S / y - S / (1 + q) = S * S * (?Y - y) / (y * ?Y)"
    by (simp only: right_diff_distrib)
  then have "\<bar>S * S / y - S / (1 + q)\<bar> = S * S * \<bar>y - ?Y\<bar> / (y * ?Y)"
    using S by (simp only: abs_mult abs_divide abs_of_pos abs_minus_commute [of y])
  also have "\<dots> \<le> S * S * (1 + S * q / 10 ^ 12) / (y * ?Y)"
    using assms(1) S by (intro divide_right_mono mult_left_mono) simp_all
  also have "\<dots> \<le> 2"
  proof -
    have "S * S \<le> y * ?Y" "S * (S * q) \<le> y * ?Y"
      using S assms(4) by (auto intro!: mult_mono)
    moreover have "S * S * (1 + S * q / 10 ^ 12) = S * S + S * (S * q) * (S / 10 ^ 12)"
      by (simp add: field_simps)
    moreover have "S * (S * q) * (S / 10 ^ 12) \<le> S * (S * q) * 1"
      using S assms(2,3) by (intro mult_left_mono) simp_all
    ultimately have "S * S * (1 + S * q / 10 ^ 12) \<le> 2 * (y * ?Y)" by linarith
    then show ?thesis using S by (simp add: divide_le_eq)
  qed
  finally show ?thesis .
qed

lemma sigmoid_nearI:
  assumes q: "exp_near (exp (- (of_int s / of_int shift))) v" and z: "div_error n shift (shift + v) z"
  shows "sigmoid_near n s z"
proof -
  define q where "q = exp (- (of_int s / of_int shift :: real))"
  let ?S = "real_of_int shift" and ?y = "real_of_int (shift + v)"
  have v: "0 \<le> v" "\<bar>of_int v - ?S * q\<bar> * 10 ^ 12 \<le> 10 ^ 12 + ?S * q"
    using assms(1) by (simp_all add: exp_near_def q_def)
  have y: "0 < ?y" "?S \<le> ?y" "0 < shift + v" using v(1) by (simp_all add: add_pos_nonneg)
  have "\<bar>?S * ?S / ?y - ?S / (1 + q)\<bar> \<le> 2"
  proof (rule inverse_near)
    have "\<bar>?y - (?S + ?S * q)\<bar> = \<bar>of_int v - ?S * q\<bar>" by simp
    with v(2) show "\<bar>?y - (?S + ?S * q)\<bar> \<le> 1 + ?S * q / 10 ^ 12" by (simp add: field_simps)
  qed (use y in \<open>simp_all add: q_def shift_eq\<close>)
  moreover have "\<bar>of_int z - ?S * ?S / ?y\<bar> \<le> 999 * real n + 1"
  proof -
    have "shift * \<bar>z * (shift + v) - shift * shift\<bar> \<le> (shift + v) * (shift + 999 * int n * shift)"
      using z y(3) by (simp add: div_error_def)
    then have "shift * \<bar>z * (shift + v) - shift * shift\<bar> \<le> shift * ((shift + v) * (1 + 999 * int n))"
      by (simp only: distrib_left mult_1_right) (simp add: algebra_simps)
    then have "\<bar>z * (shift + v) - shift * shift\<bar> \<le> (shift + v) * (1 + 999 * int n)"
      by (simp only: mult_le_cancel_left_pos shift_pos)
    then have "real_of_int \<bar>z * (shift + v) - shift * shift\<bar> \<le> real_of_int ((shift + v) * (1 + 999 * int n))"
      by (simp only: of_int_le_iff)
    then have "\<bar>of_int z * ?y - ?S * ?S\<bar> \<le> ?y * (999 * real n + 1)"
      by (simp add: add.commute)
    moreover have "of_int z - ?S * ?S / ?y = (of_int z * ?y - ?S * ?S) / ?y"
      using y(1) by (simp add: diff_divide_distrib)
    then have "\<bar>of_int z - ?S * ?S / ?y\<bar> = \<bar>of_int z * ?y - ?S * ?S\<bar> / ?y"
      using y(1) by (simp only: abs_divide abs_of_pos)
    ultimately show ?thesis using y(1) by (simp only: pos_divide_le_eq mult.commute)
  qed
  ultimately show ?thesis
    using abs_chain [of "of_int z" "?S * ?S / ?y" 1 "999 * real n + 1" "?S / (1 + q)" 2]
    by (simp add: sigmoid_near_def logistic_def q_def)
qed

lemma finite_shares:
  assumes "boost_ok F" "fbound (10 ^ 51) z"
  shows "list_ex (\<lambda>v. isinf (to_double F (fpVal v))) z = False"
proof -
  have "\<not> isinf (to_double F (fpVal v))" if "v \<in> set z" for v
  proof -
    have v: "\<bar>fpVal v\<bar> \<le> 10 ^ 51" using assms(2) that by (simp add: fbound_def)
    then have "\<bar>fpVal v\<bar> < 2 ^ 1000"
      by (rule le_less_trans) (rule less_le_trans [of _ "2 ^ 200"], simp, rule power_increasing, simp_all)
    from boost_close [OF assms(1) this]
    have "\<bar>to_double F (fpVal v) - of_int (fpVal v)\<bar> * 4503599627370496 \<le> of_int \<bar>fpVal v\<bar>" by simp
    then have "\<bar>to_double F (fpVal v) - of_int (fpVal v)\<bar> \<le> of_int \<bar>fpVal v\<bar>"
      by (rule order_trans [rotated]) (simp add: mult_le_cancel_left1)
    moreover have "of_int \<bar>fpVal v\<bar> \<le> (10 ^ 51 :: rat)" using of_int_abs_le [OF v] by simp
    ultimately have "\<bar>to_double F (fpVal v)\<bar> \<le> 2 * 10 ^ 51" by (auto simp: abs_if split: if_splits)
    also have "\<dots> < (2 ^ 1024 :: rat)"
      by (rule less_le_trans [of _ "2 ^ 200"], simp, rule power_increasing, simp_all)
    finally show ?thesis by (simp only: isinf_def not_le)
  qed
  then show ?thesis by (simp add: list_ex_iff)
qed

lemma exp_in_range:
  assumes "exp_near q v" "q \<le> 3 ^ 500"
  shows "\<bar>shift + v\<bar> \<le> div_range"
proof -
  define p :: real where "p = 3 ^ 500"
  have p: "1 \<le> p" "q \<le> p" "p \<le> 10 ^ 500"
    unfolding p_def by (rule one_le_power, simp) (rule assms(2), rule power_mono, simp_all only: zero_le_numeral numeral_le_iff, simp)
  have v: "0 \<le> v" "\<bar>of_int v - of_int shift * q\<bar> * 1000000000000 \<le> 1000000000000 + of_int shift * q"
    using assms(1) by (simp_all add: exp_near_def)
  then have "real_of_int v * 1000000000000 \<le> 100000000 * q * 1000000000000 + 1000000000000 + 100000000 * q"
    using abs_scaledD(1) [OF v(2)] by (simp add: shift_eq)
  then have "real_of_int (shift + v) \<le> 10 ^ 9 * p"
    using p by (simp add: shift_eq)
  also have "\<dots> \<le> 10 ^ 9 * 10 ^ 500"
    using p(3) by (rule mult_left_mono) simp
  also have "\<dots> = 10 ^ (9 + 500)" by (rule power_add [symmetric])
  also have "\<dots> \<le> 10 ^ 900" by (rule power_increasing) simp_all
  also have "\<dots> = real_of_int div_range"
    by (simp only: div_range_def of_int_power of_int_numeral)
  finally have "shift + v \<le> div_range" by (simp only: of_int_le_iff)
  with v(1) show ?thesis by (simp add: add_nonneg_nonneg)
qed

lemma inverse_small:
  assumes "\<bar>z * y - shift * shift\<bar> \<le> 999 * int n * y" "shift \<le> y" "n \<le> 100"
  shows "\<bar>z\<bar> \<le> 10 ^ 25"
proof -
  have y: "0 < y" using assms(2) by (simp add: shift_eq)
  have "\<bar>z\<bar> * y = \<bar>z * y\<bar>" using y by (simp add: abs_mult)
  also have "\<dots> \<le> \<bar>z * y - shift * shift\<bar> + shift * shift" by (simp add: shift_eq)
  also have "\<dots> \<le> 99900 * y + shift * y"
    using assms y by (intro add_mono mult_left_mono order_trans [OF assms(1)] mult_right_mono) simp_all
  also have "\<dots> = (99900 + shift) * y" by (simp add: distrib_right)
  finally have "\<bar>z\<bar> \<le> 99900 + shift"
    using y by (simp only: mult_le_cancel_right_pos)
  then show ?thesis by (simp add: shift_eq)
qed

lemma wpS_open_sigmoid:
  assumes w: "wf_world P T J n sp w" and F: "boost_ok F" "exp_ok e" "n \<le> 100" and x: "length x = n" "\<bar>fsec x\<bar> \<le> 500 * shift"
    and post: "\<And>z w'. wf_world P T J n sp w' \<Longrightarrow> w_ok w' = w_ok w \<Longrightarrow> length z = n \<Longrightarrow> sigmoid_near n (fsec x) (fsec z) \<Longrightarrow> Q z w'"
  shows "wpS E Q (open_sigmoid F e (Suc fuel) x (fp_of_int 1)) w"
proof -
  have sp: "w_sp w = sp" "n_parties w = n" "sp < n"
    using w by (auto simp: wf_world_def n_parties_def)
  have r: "recons x * fp_of_int 1 = FP (fsec x)"
    by (simp add: fp_of_int_def fpVal_recons times_fp_def fp_mul_def)
  let ?v = "fpVal (fp_of_double (e (- fp_getDoubleVal F (FP (fsec x)))))"
  note q = opened_exp [OF F(1,2) x(2)]
  show ?thesis
    unfolding open_sigmoid.simps wpS_withW sp Let_def r wpS_bindS
  proof (rule wpS_fp_sharize [OF w])
    fix E_s w1 assume w1: "wf_world P T J n sp w1" "w_ok w1 = w_ok w" and E: "length E_s = n" "fsec E_s = ?v"
    let ?one = "getConstantShare n sp (fp_of_int 1)"
    have one: "length ?one = n" "fsec ?one = shift"
      using sp(3) by (simp_all add: getConstantShare_def share_simps fp_of_int_def)
    have y: "length (share_add ?one E_s) = n" "fsec (share_add ?one E_s) = shift + ?v"
      using E one by (simp_all add: share_simps)
    show "wpS E (\<lambda>ret. wpS E Q (if list_all (\<lambda>v. isinf (to_double F (fpVal v))) ret
        then open_sigmoid F e fuel (share_of_public n (recons x)) (fp_of_int 1)
        else if list_ex (\<lambda>v. isinf (to_double F (fpVal v))) ret then raiseS Blocked else retS ret))
        (fp_share_div (decs F) ?one (share_add ?one E_s)) w1"
    proof (rule wpS_fp_share_div_ok [OF w1(1) F(1,3) one(1) y(1)])
      show "\<bar>fsec (share_add ?one E_s)\<bar> \<le> div_range"
        unfolding y(2) by (rule exp_in_range [OF q])
      fix v z w2 assume w2: "wf_world P T J n sp w2" "w_ok w2 = w_ok w1"
        and v: "inv_error n (fsec (share_add ?one E_s)) (fsec v)" and z: "mult_ok n ?one v z"
      have v0: "0 \<le> ?v" using q(1) by (simp add: exp_near_def)
      then have y1: "0 < shift + ?v" by (simp add: add_pos_nonneg)
      have b: "fbound (10 ^ 51) z"
      proof -
        have "\<bar>fsec v * (shift + ?v) - shift * shift\<bar> \<le> 999 * int n * (shift + ?v)"
          using v y1 by (simp add: inv_error_def y(2))
        then have "\<bar>fsec v\<bar> \<le> 10 ^ 25" by (rule inverse_small) (use v0 F(3) in simp_all)
        with z F(3) one(2) show ?thesis by (simp add: mult_ok_def shift_eq)
      qed
      have "length z = n" "sigmoid_near n (fsec x) (fsec z)"
        using z v q(1) div_errorI [of n "shift + ?v" "fsec v" "fsec z" shift]
        by (auto simp: mult_ok_def one(2) y(2) intro: sigmoid_nearI)
      moreover from this(1) sp(3) have "list_all (\<lambda>v. isinf (to_double F (fpVal v))) z = False"
        using finite_shares [OF F(1) b] by (cases z) simp_all
      ultimately show "wpS E Q (if list_all (\<lambda>v. isinf (to_double F (fpVal v))) z
          then open_sigmoid F e fuel (share_of_public n (recons x)) (fp_of_int 1)
          else if list_ex (\<lambda>v. isinf (to_double F (fpVal v))) z then raiseS Blocked else retS z) w2"
        using w1 w2 by (simp add: finite_shares [OF F(1) b] post)
    qed
  qed
qed

subsection \<open>Property\<close>

text \<open>
  C24. For up to 100 parties and a secret between -500 and 500, \<open>open_sigmoid\<close> with the default slope never fails, never repeats itself and
  never leaves the parties in different branches; the secret of its result is within \<open>999 n + 3\<close> units in the last place of
  the logistic function of the secret.
\<close>

theorem open_sigmoid_correct:
  assumes "wf_world P T J n sp w" "boost_ok F" "exp_ok e" "n \<le> 100" "length x = n" "\<bar>fpVal (recons x)\<bar> \<le> 500 * shift"
  shows "\<exists>z w'. open_sigmoid F e (Suc fuel) x (fp_of_int 1) w = Inr (z, w') \<and> wf_world P T J n sp w' \<and> length z = n \<and>
    \<bar>of_int (fpVal (recons z)) - of_int shift * logistic (of_int (fpVal (recons x)) / of_int shift)\<bar> \<le> 999 * real n + 3"
proof -
  have "wpS (\<lambda>_. False) (\<lambda>z w'. wf_world P T J n sp w' \<and> length z = n \<and> sigmoid_near n (fsec x) (fsec z))
      (open_sigmoid F e (Suc fuel) x (fp_of_int 1)) w"
    by (rule wpS_open_sigmoid [OF assms(1-5)]) (use assms(6) in \<open>simp_all add: fpVal_recons\<close>)
  then show ?thesis
    unfolding wpS_total sigmoid_near_def fpVal_recons by blast
qed

theorem open_sigmoid_correct_witness:
  "\<exists>z w'. open_sigmoid ref_boost ref_exp 1 [FP 300000000, FP (- 300000000)] (fp_of_int 1) demo_world = Inr (z, w') \<and>
     \<bar>fpVal (recons z) - 50000000\<bar> \<le> 2001"
proof -
  have v: "fpVal (recons [FP 300000000, FP (- 300000000)]) = 0"
    by (simp add: fpVal_recons fsec_def)
  have "\<exists>z w'. open_sigmoid ref_boost ref_exp (Suc 0) [FP 300000000, FP (- 300000000)] (fp_of_int 1) demo_world = Inr (z, w') \<and>
      wf_world (\<lambda>_. True) 100000 1 2 0 w' \<and> length z = 2 \<and>
      \<bar>of_int (fpVal (recons z)) - of_int shift * logistic (of_int (fpVal (recons [FP 300000000, FP (- 300000000)])) / of_int shift)\<bar> \<le> 999 * real 2 + 3"
    by (rule open_sigmoid_correct [OF wf_demo_world boost_ok_ref exp_ok_ref]) (simp_all add: v)
  then obtain z w' where z: "open_sigmoid ref_boost ref_exp (Suc 0) [FP 300000000, FP (- 300000000)] (fp_of_int 1) demo_world = Inr (z, w')"
    "\<bar>real_of_int (fpVal (recons z)) - 50000000\<bar> \<le> 2001"
    by (auto simp: v logistic_def shift_eq)
  from z(2) have "\<bar>fpVal (recons z) - 50000000\<bar> \<le> 2001" by linarith
  with z(1) show ?thesis by auto
qed

end
