(* ===== verification/Optim.thy ===== *)
theory Optim
  imports Sigmoid Matrix Columns
begin

section \<open>Objective functions, optimizers and logistic regression\<close>

text \<open>
  \<open>ObjectiveFunction/CrossEntropyError.hpp\<close>, the optimizers of \<open>Optimizer/\<close> and \<open>Job/Jobs/LogisticRegressionJob.hpp\<close>. An
  objective function is a record of the two gradients an optimizer calls; the second one takes the number of the
  call too, because it draws a new order of the records each time. The order is the standard library's
  \<open>std::shuffle\<close> on the service provider and an argument.
\<close>

subsection \<open>Cross entropy\<close>

record cross_entropy =
  ce_t :: "fp list list"
  ce_x :: "fp list list list"

definition nth_int :: "'a list \<Rightarrow> int \<Rightarrow> 'a res" where
  "nth_int xs i = (if 0 \<le> i then nth_or_ub xs (nat i) else Inl UndefinedBehaviour)"

definition CE_residual ::
    "'d boost \<Rightarrow> (rat \<Rightarrow> rat) \<Rightarrow> nat \<Rightarrow> cross_entropy \<Rightarrow> fp list list \<Rightarrow> int \<Rightarrow> (world, fp list list \<times> fp list) comp" where
  "CE_residual F e fuel C theta i =
     bindS (liftS (nth_int (ce_x C) i)) (\<lambda>xi. bindS (fp_vec_mult xi theta) (\<lambda>v.
     bindS (open_sigmoid_vector F e fuel v (fp_of_int 1)) (\<lambda>y.
     bindS (liftS (nth_int (ce_t C) i)) (\<lambda>ti. retS (xi, share_sub y ti)))))"

definition CE_gradient :: "fp list list list \<Rightarrow> fp list list \<Rightarrow> int \<Rightarrow> (world, fp list list) comp" where
  "CE_gradient x hy d =
     bindS (liftS (setFromVector x)) (\<lambda>X. let x_t = get_row (matrix_transpose X) in
     bindS (liftS (vector_size d)) (\<lambda>_. mapS (\<lambda>i. bindS (liftS (nth_or_ub x_t i)) (\<lambda>xi. bindS (fp_vec_mult hy xi) (\<lambda>v.
       withW (\<lambda>w. retS (sum_share (n_parties w) v))))) [0..<nat d]))"

definition CE_at ::
    "'d boost \<Rightarrow> (rat \<Rightarrow> rat) \<Rightarrow> nat \<Rightarrow> cross_entropy \<Rightarrow> int list \<Rightarrow> fp list list \<Rightarrow> (world, fp list list) comp" where
  "CE_at F e fuel C idx theta =
     bindS (mapS (CE_residual F e fuel C theta) idx) (\<lambda>rs. CE_gradient (map fst rs) (map snd rs) (isize theta))"

definition CE_df :: "'d boost \<Rightarrow> (rat \<Rightarrow> rat) \<Rightarrow> nat \<Rightarrow> cross_entropy \<Rightarrow> fp list list \<Rightarrow> (world, fp list list) comp" where
  "CE_df F e fuel C theta = CE_at F e fuel C (map int [0..<length (ce_x C)]) theta"

definition get_random_x :: "'d boost \<Rightarrow> (nat \<Rightarrow> nat list) \<Rightarrow> int \<Rightarrow> int \<Rightarrow> (world, int list) comp" where
  "get_random_x F shuffled num sz = withW (\<lambda>w.
     if sz < num then raiseS (RuntimeError ''sgd index count error'')
     else bindS (liftS (bindE (vector_size num) (\<lambda>_. vector_size sz))) (\<lambda>_.
       let s_index = map (\<lambda>i. share_addc (w_sp w) (replicate (n_parties w) 0) (fp_of_int (int (shuffled (nat sz) ! i)))) [0..<nat num]
       in retS (map (\<lambda>s. dtrunc (fp_getDoubleVal F (recons s))) s_index)))"

definition CE_df_batch ::
    "'d boost \<Rightarrow> (rat \<Rightarrow> rat) \<Rightarrow> nat \<Rightarrow> (nat \<Rightarrow> nat list) \<Rightarrow> cross_entropy \<Rightarrow> int \<Rightarrow> fp list list \<Rightarrow> (world, fp list list) comp" where
  "CE_df_batch F e fuel shuffled C num theta =
     bindS (get_random_x F shuffled num (isize (ce_x C))) (\<lambda>shuffle_index. CE_at F e fuel C shuffle_index theta)"

subsection \<open>The interface of objective functions\<close>

record objective =
  df :: "fp list list \<Rightarrow> (world, fp list list) comp"
  df_batch :: "nat \<Rightarrow> int \<Rightarrow> fp list list \<Rightarrow> (world, fp list list) comp"

definition CrossEntropyError ::
    "'d boost \<Rightarrow> (rat \<Rightarrow> rat) \<Rightarrow> nat \<Rightarrow> (nat \<Rightarrow> nat \<Rightarrow> nat list) \<Rightarrow> fp list list list \<Rightarrow> fp list list \<Rightarrow> objective" where
  "CrossEntropyError F e fuel shuffled x t = (let C = \<lparr>ce_t = t, ce_x = x\<rparr> in
     \<lparr>df = CE_df F e fuel C, df_batch = (\<lambda>k. CE_df_batch F e fuel (shuffled k) C)\<rparr>)"

subsection \<open>Optimizers\<close>

text \<open>
  Gradient descent and stochastic gradient descent call themselves with one iteration less; from a negative number they never
  get to 0. Both open the gradient, which changes no party's state.
\<close>

definition descent_update :: "fp list \<Rightarrow> fp list list \<Rightarrow> fp list list \<Rightarrow> (world, fp list list) comp" where
  "descent_update alpha theta dfx =
     mapS (\<lambda>i. bindS (liftS (nth_or_ub dfx i)) (\<lambda>d. bindS (fp_share_mult alpha d) (\<lambda>m. retS (share_sub (theta ! i) m))))
       [0..<length theta]"

fun descend :: "nat \<Rightarrow> fp list \<Rightarrow> (nat \<Rightarrow> fp list list \<Rightarrow> (world, fp list list) comp) \<Rightarrow> fp list list \<Rightarrow> (world, fp list list) comp" where
  "descend 0 alpha f theta = retS theta"
| "descend (Suc k) alpha f theta =
     bindS (f k theta) (\<lambda>dfx. bindS (descent_update alpha theta dfx) (descend k alpha f))"

definition GradientDescent_optimize :: "fp list \<Rightarrow> int \<Rightarrow> objective \<Rightarrow> fp list list \<Rightarrow> (world, fp list list) comp" where
  "GradientDescent_optimize alpha iterationNum f theta =
     (if iterationNum < 0 then raiseS UndefinedBehaviour else descend (nat iterationNum) alpha (\<lambda>_. df f) theta)"

definition SGD_optimize :: "fp list \<Rightarrow> int \<Rightarrow> int \<Rightarrow> objective \<Rightarrow> fp list list \<Rightarrow> (world, fp list list) comp" where
  "SGD_optimize alpha batch_size iterationNum f theta =
     (if iterationNum < 0 then raiseS UndefinedBehaviour else descend (nat iterationNum) alpha (\<lambda>k. df_batch f k batch_size) theta)"

definition velocity_update :: "fp \<Rightarrow> fp list list \<Rightarrow> fp list list \<Rightarrow> nat \<Rightarrow> fp list list res" where
  "velocity_update beta vt dfx sz =
     mapE (\<lambda>i. bindE (nth_or_ub dfx i) (\<lambda>d. Inr (share_add (share_scale beta (vt ! i)) d))) [0..<sz]"

fun moment :: "nat \<Rightarrow> fp \<Rightarrow> fp \<Rightarrow> (nat \<Rightarrow> fp list list \<Rightarrow> (world, fp list list) comp) \<Rightarrow> fp list list \<Rightarrow> fp list list \<Rightarrow> (world, fp list list) comp" where
  "moment 0 alpha beta f vt theta = retS theta"
| "moment (Suc k) alpha beta f vt theta =
     bindS (f k theta) (\<lambda>dfx. bindS (liftS (velocity_update beta vt dfx (length theta))) (\<lambda>vt.
     moment k alpha beta f vt (map2 (\<lambda>t v. share_sub t (share_scale alpha v)) theta vt)))"

definition Momentum_optimize :: "fp \<Rightarrow> fp \<Rightarrow> int \<Rightarrow> int \<Rightarrow> objective \<Rightarrow> fp list list \<Rightarrow> (world, fp list list) comp" where
  "Momentum_optimize alpha beta batch_size iterationNum f theta =
     (if iterationNum = 0 then retS theta
      else withW (\<lambda>w. moment (nat iterationNum) alpha beta (\<lambda>k. df_batch f k batch_size)
        (replicate (length theta) (replicate (n_parties w) 0)) theta))"

text \<open>
  Adam: powers of the factors and the bias correction \<open>b_t\<close> are doubles, 0 divided by 0 and roots of negative numbers are not a number,
  whose conversion is not defined.
\<close>

definition bias_correction :: "rat \<Rightarrow> rat \<Rightarrow> rat res" where
  "bias_correction beta1_pow beta2_pow =
     (let d1 = rnd (1 - beta1_pow); d2 = rnd (1 - beta2_pow)
      in if d2 < 0 \<or> (d1 = 0 \<and> d2 = 0) then Inl UndefinedBehaviour
         else if d1 = 0 then Inr (2 ^ 1024) else Inr (rnd (dsqrt d2 / d1)))"

record adam =
  a_alpha :: fp
  a_beta1 :: fp
  a_beta2 :: fp
  a_eps :: fp

definition moving_average :: "fp \<Rightarrow> fp list list \<Rightarrow> fp list list \<Rightarrow> nat \<Rightarrow> fp list list res" where
  "moving_average beta mt l sz =
     mapE (\<lambda>i. bindE (nth_or_ub l i) (\<lambda>g. Inr (share_add (share_scale beta (mt ! i)) (share_scale (fp_of_int 1 - beta) g)))) [0..<sz]"

fun adapt ::
    "nat \<Rightarrow> 'd boost \<Rightarrow> adam \<Rightarrow> (nat \<Rightarrow> fp list list \<Rightarrow> (world, fp list list) comp) \<Rightarrow> rat \<Rightarrow> rat \<Rightarrow>
     fp list list \<Rightarrow> fp list list \<Rightarrow> fp list list \<Rightarrow> (world, fp list list) comp" where
  "adapt 0 F A f b1 b2 mt vt theta = retS theta"
| "adapt (Suc k) F A f b1 b2 mt vt theta =
     bindS (f k theta) (\<lambda>l1. bindS (fp_vec_mult l1 l1) (\<lambda>l2.
     bindS (liftS (moving_average (a_beta1 A) mt l1 (length theta))) (\<lambda>mt.
     bindS (liftS (moving_average (a_beta2 A) vt l2 (length theta))) (\<lambda>vt.
     let b1 = rnd (b1 * fp_getDoubleVal F (a_beta1 A)); b2 = rnd (b2 * fp_getDoubleVal F (a_beta2 A)) in
     bindS (liftS (bias_correction b1 b2)) (\<lambda>b_t.
     bindS (mapS (\<lambda>i. bindS (share_sqrt (decs F) (vt ! i)) (\<lambda>r. withW (\<lambda>w.
         bindS (fp_share_div (decs F) (share_scale (fp_of_double b_t) (share_scale (a_alpha A) (mt ! i))) (share_addc (w_sp w) r (a_eps A)))
           (\<lambda>q. retS (share_sub (theta ! i) q))))) [0..<length theta]) (\<lambda>theta.
     adapt k F A f b1 b2 mt vt theta))))))"

definition Adam_optimize :: "'d boost \<Rightarrow> adam \<Rightarrow> int \<Rightarrow> objective \<Rightarrow> fp list list \<Rightarrow> (world, fp list list) comp" where
  "Adam_optimize F A iterationNum f theta = withW (\<lambda>w.
     let zeros = replicate (length theta) (replicate (n_parties w) 0)
     in adapt (nat iterationNum) F A (\<lambda>k. df_batch f k 1) 1 1 zeros zeros theta)"

definition default_adam :: adam where
  "default_adam = \<lparr>a_alpha = fp_of_double (rnd (1 / 10)), a_beta1 = fp_of_double (rnd (9 / 10)),
     a_beta2 = fp_of_double (rnd (99 / 100)), a_eps = fp_of_double (rnd (1 / 10 ^ 8))\<rparr>"

subsection \<open>Logistic regression\<close>

definition parse_regression :: "'a \<Rightarrow> 'a list list \<Rightarrow> int list list \<Rightarrow> ('a list list \<times> 'a list) res" where
  "parse_regression one tbl arg =
     bindE (nth_or_ub arg 0) (\<lambda>a0. bindE (design_rows one tbl a0) (\<lambda>x.
     bindE (nth_or_ub arg 1) (\<lambda>a1. case a1 of [] \<Rightarrow> Inl UndefinedBehaviour
       | j # _ \<Rightarrow> bindE (int_column tbl j) (\<lambda>y. Inr (x, y)))))"

definition LogisticRegressionJob_compute ::
    "'d boost \<Rightarrow> (rat \<Rightarrow> rat) \<Rightarrow> nat \<Rightarrow> (nat \<Rightarrow> nat \<Rightarrow> nat list) \<Rightarrow> fp list list list \<Rightarrow> int list list \<Rightarrow> (world, fp list list) comp" where
  "LogisticRegressionJob_compute F e fuel shuffled tbl arg = withW (\<lambda>w.
     let one = getConstantShare (n_parties w) (w_sp w) (fp_of_string (decs F) ''1'') in
     bindS (liftS (parse_regression one tbl arg)) (\<lambda>(x, y).
     bindS (liftS (nth_or_ub x 0)) (\<lambda>x0.
     SGD_optimize one (int32 (int (length x div 2))) 100 (CrossEntropyError F e fuel shuffled x y)
       (replicate (length x0) (replicate (n_parties w) 0)))))"

subsection \<open>The contract of a gradient\<close>

text \<open>
  What an optimizer needs of the gradient it calls: on weights whose secrets lie in a \<open>region\<close> it ends normally, with one share per
  weight, and the secrets of weights and gradient are related by \<open>grad\<close>. The optimizers then
  implement steps on the secrets that are exact up to the rounding of their products.
\<close>

definition descent_step :: "(int list \<Rightarrow> int list \<Rightarrow> bool) \<Rightarrow> int \<Rightarrow> int list \<Rightarrow> int list \<Rightarrow> bool" where
  "descent_step grad alpha th th' \<longleftrightarrow> (\<exists>g. grad th g \<and> length th' = length th \<and>
     (\<forall>i < length th. \<bar>shift * (th ! i - th' ! i) - alpha * g ! i\<bar> < shift))"

text \<open>A step of \<open>Momentum\<close> on velocity and weights; every party rounds its own products with the public factors.\<close>

definition momentum_step ::
    "nat \<Rightarrow> (int list \<Rightarrow> int list \<Rightarrow> bool) \<Rightarrow> int \<Rightarrow> int \<Rightarrow> int list \<times> int list \<Rightarrow> int list \<times> int list \<Rightarrow> bool" where
  "momentum_step n grad alpha beta = (\<lambda>(v, th) (v', th'). \<exists>g. grad th g \<and> length v' = length th \<and> length th' = length th \<and>
     (\<forall>i < length th. \<bar>shift * (v' ! i - g ! i) - beta * v ! i\<bar> \<le> shift * int n \<and>
       \<bar>shift * (th ! i - th' ! i) - alpha * v' ! i\<bar> \<le> shift * int n))"

definition stays :: "('s \<Rightarrow> 's \<Rightarrow> bool) \<Rightarrow> ('s \<Rightarrow> bool) \<Rightarrow> nat \<Rightarrow> 's \<Rightarrow> bool" where
  "stays step region k s \<longleftrightarrow> (\<forall>j < k. \<forall>s'. (step ^^ j) s s' \<longrightarrow> region s')"

lemma staysD: "stays step region (Suc k) s \<Longrightarrow> region s" "stays step region (Suc k) s \<Longrightarrow> step s s' \<Longrightarrow> stays step region k s'"
  unfolding stays_def by (force dest: spec [of _ 0], meson Suc_mono relpowp_Suc_I2)

text \<open>A region that the steps from \<open>s\<close> leave at most after \<open>k\<close> of them, by an invariant for each number of steps.\<close>

lemma staysI:
  assumes "I 0 s" "\<And>j s s'. j < k \<Longrightarrow> I j s \<Longrightarrow> step s s' \<Longrightarrow> I (Suc j) s'" "\<And>j s. j < k \<Longrightarrow> I j s \<Longrightarrow> region s"
  shows "stays step region k s"
proof -
  have "I j s'" if "(step ^^ j) s s'" "j \<le> k" for j s'
    using that
  proof (induction j arbitrary: s')
    case (Suc j)
    then obtain b where "(step ^^ j) s b" "step b s'" by auto
    then show ?case using Suc assms(2) [of j b s'] by simp
  qed (simp add: assms(1))
  then show ?thesis
    unfolding stays_def using assms(3) less_imp_le by blast
qed

locale gradient_contract =
  fixes P :: "64 word \<Rightarrow> bool" and T J n sp :: nat
    and f :: "nat \<Rightarrow> fp list list \<Rightarrow> (world, fp list list) comp"
    and region :: "int list \<Rightarrow> bool" and grad :: "int list \<Rightarrow> int list \<Rightarrow> bool"
  assumes gradient: "wf_world P T J n sp w \<Longrightarrow> \<forall>a \<in> set theta. length a = n \<Longrightarrow> region (map fsec theta) \<Longrightarrow>
      wpS (\<lambda>_. False) (\<lambda>g w'. wf_world P T J n sp w' \<and> length g = length theta \<and> (\<forall>a \<in> set g. length a = n) \<and>
        grad (map fsec theta) (map fsec g)) (f k theta) w"
begin

lemma update:
  assumes "wf_world P T J n sp w" "length alpha = n" "\<forall>a \<in> set theta. length a = n" "length g = length theta" "\<forall>a \<in> set g. length a = n"
    and g: "grad (map fsec theta) (map fsec g)"
  shows "wpS (\<lambda>_. False) (\<lambda>z w'. wf_world P T J n sp w' \<and> length z = length theta \<and> (\<forall>a \<in> set z. length a = n) \<and>
    descent_step grad (fsec alpha) (map fsec theta) (map fsec z)) (descent_update alpha theta g) w"
  unfolding descent_update_def
proof (rule wpS_mapS [where I = "wf_world P T J n sp" and
      R = "\<lambda>i z. length z = n \<and> \<bar>shift * (fsec (theta ! i) - fsec z) - fsec alpha * fsec (g ! i)\<bar> < shift"])
  fix i w1 assume i: "i \<in> set [0..<length theta]" and w1: "wf_world P T J n sp w1"
  then have l: "length (g ! i) = n" "length (theta ! i) = n" using assms(3-5) by auto
  have "wpS (\<lambda>_. False) (\<lambda>m w'. wf_world P T J n sp w' \<and> length (share_sub (theta ! i) m) = n \<and>
      \<bar>shift * (fsec (theta ! i) - fsec (share_sub (theta ! i) m)) - fsec alpha * fsec (g ! i)\<bar> < shift) (fp_share_mult alpha (g ! i)) w1"
    by (rule wpS_fp_share_mult [OF w1 assms(2) l(1)]) (use l(2) in \<open>simp add: share_simps\<close>)
  then show "wpS (\<lambda>_. False) (\<lambda>z w'. wf_world P T J n sp w' \<and> length z = n \<and>
      \<bar>shift * (fsec (theta ! i) - fsec z) - fsec alpha * fsec (g ! i)\<bar> < shift)
      (bindS (liftS (nth_or_ub g i)) (\<lambda>d. bindS (fp_share_mult alpha d) (\<lambda>m. retS (share_sub (theta ! i) m)))) w1"
    using i assms(4) by (simp add: nth_or_ub_def)
next
  fix zs w'
  assume "wf_world P T J n sp w'" and zs: "list_all2 (\<lambda>i z. length z = n \<and>
      \<bar>shift * (fsec (theta ! i) - fsec z) - fsec alpha * fsec (g ! i)\<bar> < shift) [0..<length theta] zs"
  moreover from zs have "length zs = length theta" "\<forall>a \<in> set zs. length a = n"
    by (auto simp: list_all2_conv_all_nth in_set_conv_nth)
  moreover have "descent_step grad (fsec alpha) (map fsec theta) (map fsec zs)"
    unfolding descent_step_def using g zs assms(4) by (intro exI [of _ "map fsec g"]) (auto simp: list_all2_conv_all_nth)
  ultimately show "wf_world P T J n sp w' \<and> length zs = length theta \<and> (\<forall>a \<in> set zs. length a = n) \<and>
      descent_step grad (fsec alpha) (map fsec theta) (map fsec zs)" by blast
qed (rule assms(1))

lemma descent:
  assumes "wf_world P T J n sp w" "length alpha = n" "\<forall>a \<in> set theta. length a = n"
    and "stays (descent_step grad (fsec alpha)) region k (map fsec theta)"
  shows "wpS (\<lambda>_. False) (\<lambda>z w'. wf_world P T J n sp w' \<and> length z = length theta \<and> (\<forall>a \<in> set z. length a = n) \<and>
    (descent_step grad (fsec alpha) ^^ k) (map fsec theta) (map fsec z)) (descend k alpha f theta) w"
  using assms(1,3,4)
proof (induction k arbitrary: theta w)
  case (Suc k)
  show ?case
    unfolding descend.simps wpS_bindS
  proof (rule wpS_mono [OF gradient [OF Suc.prems(1,2) staysD(1) [OF Suc.prems(3)]]])
    fix g w1 assume g: "wf_world P T J n sp w1 \<and> length g = length theta \<and> (\<forall>a \<in> set g. length a = n) \<and> grad (map fsec theta) (map fsec g)"
    show "wpS (\<lambda>_. False) (\<lambda>z. wpS (\<lambda>_. False) (\<lambda>z w'. wf_world P T J n sp w' \<and> length z = length theta \<and> (\<forall>a \<in> set z. length a = n) \<and>
        (descent_step grad (fsec alpha) ^^ Suc k) (map fsec theta) (map fsec z)) (descend k alpha f z)) (descent_update alpha theta g) w1"
    proof (rule wpS_mono [OF update [OF _ assms(2) Suc.prems(2)]])
      fix th w2 assume th: "wf_world P T J n sp w2 \<and> length th = length theta \<and> (\<forall>a \<in> set th. length a = n) \<and>
        descent_step grad (fsec alpha) (map fsec theta) (map fsec th)"
      then have "stays (descent_step grad (fsec alpha)) region k (map fsec th)"
        using staysD(2) [OF Suc.prems(3)] by blast
      with th show "wpS (\<lambda>_. False) (\<lambda>z w'. wf_world P T J n sp w' \<and> length z = length theta \<and> (\<forall>a \<in> set z. length a = n) \<and>
          (descent_step grad (fsec alpha) ^^ Suc k) (map fsec theta) (map fsec z)) (descend k alpha f th) w2"
        by (auto intro!: wpS_mono [OF Suc.IH] intro: relpowp_Suc_I2 simp del: relpowp.simps)
    qed (use g in simp_all)
  qed
qed simp

lemma momentum:
  assumes "wf_world P T J n sp w" "\<forall>a \<in> set theta. length a = n" "length vt = length theta" "\<forall>a \<in> set vt. length a = n"
    and "stays (momentum_step n grad (fpVal alpha) (fpVal beta)) (region \<circ> snd) k (map fsec vt, map fsec theta)"
  shows "wpS (\<lambda>_. False) (\<lambda>z w'. wf_world P T J n sp w' \<and> length z = length theta \<and> (\<forall>a \<in> set z. length a = n) \<and>
    (\<exists>v'. (momentum_step n grad (fpVal alpha) (fpVal beta) ^^ k) (map fsec vt, map fsec theta) (v', map fsec z)))
    (moment k alpha beta f vt theta) w"
  using assms
proof (induction k arbitrary: theta vt w)
  case (Suc k)
  have r: "region (map fsec theta)"
    using staysD(1) [OF Suc.prems(5)] by simp
  show ?case
    unfolding moment.simps wpS_bindS
  proof (rule wpS_mono [OF gradient [OF Suc.prems(1,2) r]])
    fix g w1 assume g: "wf_world P T J n sp w1 \<and> length g = length theta \<and> (\<forall>a \<in> set g. length a = n) \<and> grad (map fsec theta) (map fsec g)"
    define v where "v = map (\<lambda>i. share_add (share_scale beta (vt ! i)) (g ! i)) [0..<length theta]"
    define th where "th = map2 (\<lambda>t v. share_sub t (share_scale alpha v)) theta v"
    have u: "velocity_update beta vt g (length theta) = Inr v"
      unfolding velocity_update_def v_def using g by (intro mapE_Inr) (simp add: nth_or_ub_def)
    have l: "length v = length theta" "length th = length theta" "\<forall>a \<in> set v. length a = n" "\<forall>a \<in> set th. length a = n"
      using g Suc.prems(2-4) by (auto simp: v_def th_def set_zip)
    have step: "momentum_step n grad (fpVal alpha) (fpVal beta) (map fsec vt, map fsec theta) (map fsec v, map fsec th)"
      unfolding momentum_step_def prod.case
    proof (intro exI [of _ "map fsec g"] conjI allI impI)
      fix i assume "i < length (map fsec theta)"
      then have i: "i < length theta" "length (vt ! i) = n" "length (g ! i) = n" "length (v ! i) = n" "length (theta ! i) = n"
        using g Suc.prems(2-4) l(1,3) by (auto intro: bspec)
      then have "fsec (v ! i) - fsec (g ! i) = fsec (share_scale beta (vt ! i))"
        "fsec (theta ! i) - fsec (th ! i) = fsec (share_scale alpha (v ! i))"
        using l(1) by (simp_all add: v_def th_def share_simps)
      with i l(1,2) g Suc.prems(3) fsec_scale_error [of beta "vt ! i"] fsec_scale_error [of alpha "v ! i"]
      show "\<bar>shift * (map fsec v ! i - map fsec g ! i) - fpVal beta * map fsec vt ! i\<bar> \<le> shift * int n"
        "\<bar>shift * (map fsec theta ! i - map fsec th ! i) - fpVal alpha * map fsec v ! i\<bar> \<le> shift * int n"
        by simp_all
    qed (use g l in simp_all)
    have "stays (momentum_step n grad (fpVal alpha) (fpVal beta)) (region \<circ> snd) k (map fsec v, map fsec th)"
      using staysD(2) [OF Suc.prems(5) step] .
    then have "wpS (\<lambda>_. False) (\<lambda>z w'. wf_world P T J n sp w' \<and> length z = length th \<and> (\<forall>a \<in> set z. length a = n) \<and>
        (\<exists>v'. (momentum_step n grad (fpVal alpha) (fpVal beta) ^^ k) (map fsec v, map fsec th) (v', map fsec z)))
        (moment k alpha beta f v th) w1"
      using g l by (intro Suc.IH) (assumption | simp)+
    then have "wpS (\<lambda>_. False) (\<lambda>z w'. wf_world P T J n sp w' \<and> length z = length theta \<and> (\<forall>a \<in> set z. length a = n) \<and>
        (\<exists>v'. (momentum_step n grad (fpVal alpha) (fpVal beta) ^^ Suc k) (map fsec vt, map fsec theta) (v', map fsec z)))
        (moment k alpha beta f v th) w1"
      by (rule wpS_mono) (use l(2) step relpowp_Suc_I2 in metis)
    then show "wpS (\<lambda>_. False) (\<lambda>vt'. wpS (\<lambda>_. False) (\<lambda>z w'. wf_world P T J n sp w' \<and> length z = length theta \<and> (\<forall>a \<in> set z. length a = n) \<and>
        (\<exists>v'. (momentum_step n grad (fpVal alpha) (fpVal beta) ^^ Suc k) (map fsec vt, map fsec theta) (v', map fsec z)))
        (moment k alpha beta f vt' (map2 (\<lambda>t v. share_sub t (share_scale alpha v)) theta vt')))
        (liftS (velocity_update beta vt g (length theta))) w1"
      unfolding wpS_liftS u wpE_Inr th_def .
  qed
qed auto

end

subsection \<open>Inner products of shares\<close>

definition inner :: "int list \<Rightarrow> int list \<Rightarrow> int" where
  "inner as bs = sum_list (map2 (*) as bs)"

text \<open>The products of two vectors, added up: one unit per term.\<close>

definition inner_error :: "int list \<Rightarrow> int list \<Rightarrow> int \<Rightarrow> bool" where
  "inner_error as bs z \<longleftrightarrow> \<bar>shift * z - inner as bs\<bar> \<le> int (length as) * shift"

lemma wpS_inner:
  assumes "wf_world P T J n sp w" "length xs = length ys" "\<forall>x \<in> set xs. length x = n" "\<forall>y \<in> set ys. length y = n"
    and post: "\<And>zs w'. wf_world P T J n sp w' \<Longrightarrow> w_ok w' = w_ok w \<Longrightarrow> length zs = length xs \<Longrightarrow> \<forall>z \<in> set zs. length z = n \<Longrightarrow>
      length (sum_share n zs) = n \<Longrightarrow> inner_error (map fsec xs) (map fsec ys) (fsec (sum_share n zs)) \<Longrightarrow> Q zs w'"
  shows "wpS E Q (fp_vec_mult xs ys) w"
proof (rule wpS_fp_vec_mult [OF assms(1-4)])
  fix zs w' assume w': "wf_world P T J n sp w'" "w_ok w' = w_ok w" and zs: "length zs = length xs"
    "\<forall>i < length xs. length (zs ! i) = n \<and> \<bar>shift * fsec (zs ! i) - fsec (xs ! i) * fsec (ys ! i)\<bar> < shift"
  have z: "\<forall>z \<in> set zs. length z = n"
    using zs by (auto simp: in_set_conv_nth)
  have s: "length (sum_share n zs) = n" "fsec (sum_share n zs) = sum_list (map fsec zs)"
    using fold_add [OF z, of "replicate n 0"] by (simp_all add: sum_share_def share_simps)
  have "\<bar>sum_list (map (\<lambda>z. shift * fsec z) zs) - sum_list (map2 (\<lambda>x y. fsec x * fsec y) xs ys)\<bar> \<le>
      int (length (map (\<lambda>z. shift * fsec z) zs)) * shift"
    by (rule sum_list_close) (use assms(2) zs in \<open>auto simp: order_less_imp_le\<close>)
  moreover have "sum_list (map (\<lambda>z. shift * fsec z) zs) = shift * sum_list (map fsec zs)"
    by (simp add: sum_list_const_mult)
  moreover have "map2 (*) (map fsec xs) (map fsec ys) = map2 (\<lambda>x y. fsec x * fsec y) xs ys"
    by (simp add: zip_map_map comp_def case_prod_unfold)
  ultimately have "inner_error (map fsec xs) (map fsec ys) (fsec (sum_share n zs))"
    by (simp add: inner_error_def inner_def s(2) zs(1))
  with w' zs(1) z s(1) show "Q zs w'" by (rule post)
qed

subsection \<open>Cross entropy keeps the contract\<close>

text \<open>
  The tables of secrets: \<open>ce_ok\<close> says what the code needs of the shares, \<open>ce_region\<close> that every record's product with the weights stays in the
  range of the sigmoid, \<open>ce_grad\<close> that a gradient is the sum over a list of records, up to the errors of the products, of
  the sigmoid of its product minus its target, times the record.
\<close>

definition ce_ok :: "'d boost \<Rightarrow> (rat \<Rightarrow> rat) \<Rightarrow> nat \<Rightarrow> nat \<Rightarrow> cross_entropy \<Rightarrow> bool" where
  "ce_ok F e n d C \<longleftrightarrow> boost_ok F \<and> exp_ok e \<and> n \<le> 100 \<and> d \<le> 10 ^ 8 \<and> length (ce_t C) = length (ce_x C) \<and>
     (\<forall>xi \<in> set (ce_x C). length xi = d \<and> (\<forall>a \<in> set xi. length a = n)) \<and> (\<forall>a \<in> set (ce_t C). length a = n)"

definition ce_region :: "nat \<Rightarrow> cross_entropy \<Rightarrow> int list \<Rightarrow> bool" where
  "ce_region d C th \<longleftrightarrow> length th = d \<and> (\<forall>xi \<in> set (ce_x C). \<bar>inner (map fsec xi) th\<bar> \<le> 499 * shift * shift)"

definition ce_residual :: "nat \<Rightarrow> cross_entropy \<Rightarrow> int list \<Rightarrow> nat \<Rightarrow> int \<Rightarrow> bool" where
  "ce_residual n C th i h \<longleftrightarrow> (\<exists>s. inner_error (map fsec (ce_x C ! i)) th s \<and> sigmoid_near n s (h + fsec (ce_t C ! i)))"

definition ce_grad :: "nat \<Rightarrow> cross_entropy \<Rightarrow> nat list \<Rightarrow> int list \<Rightarrow> int list \<Rightarrow> bool" where
  "ce_grad n C idx th g \<longleftrightarrow> length g = length th \<and> (\<exists>hs. list_all2 (ce_residual n C th) idx hs \<and>
     (\<forall>j < length th. inner_error hs (map (\<lambda>i. fsec (ce_x C ! i ! j)) idx) (g ! j)))"

lemma ce_okD:
  assumes "ce_ok F e n d C"
  shows "boost_ok F" "exp_ok e" "n \<le> 100" "d \<le> 10 ^ 8" "length (ce_t C) = length (ce_x C)"
    "\<And>i. i < length (ce_x C) \<Longrightarrow> length (ce_x C ! i) = d" "\<And>i a. i < length (ce_x C) \<Longrightarrow> a \<in> set (ce_x C ! i) \<Longrightarrow> length a = n"
    "\<And>i. i < length (ce_x C) \<Longrightarrow> length (ce_t C ! i) = n"
  using assms by (auto simp: ce_ok_def)

lemma inner_in_range:
  assumes "inner_error as bs s" "\<bar>inner as bs\<bar> \<le> 499 * shift * shift" "length as \<le> 10 ^ 8"
  shows "\<bar>s\<bar> \<le> 500 * shift"
proof -
  have "int (length as) \<le> int (10 ^ 8)"
    using assms(3) by (simp only: of_nat_le_iff)
  then have l: "int (length as) \<le> 100000000" by simp
  have "shift * \<bar>s\<bar> = \<bar>shift * s\<bar>" by (simp add: abs_mult)
  also have "\<dots> \<le> \<bar>shift * s - inner as bs\<bar> + \<bar>inner as bs\<bar>" by linarith
  also have "\<dots> \<le> int (length as) * shift + 499 * shift * shift"
    using assms(1,2) unfolding inner_error_def by (rule add_mono)
  also have "\<dots> \<le> shift * (500 * shift)"
    using l by (simp add: shift_eq)
  finally show ?thesis by simp
qed

lemma wpS_residual:
  assumes w: "wf_world P T J n sp w" and C: "ce_ok F e n d C" and theta: "length theta = d" "\<forall>a \<in> set theta. length a = n"
    and r: "ce_region d C (map fsec theta)" and i: "i < length (ce_x C)"
    and post: "\<And>h w'. wf_world P T J n sp w' \<Longrightarrow> length h = n \<Longrightarrow> ce_residual n C (map fsec theta) i (fsec h) \<Longrightarrow> Q (ce_x C ! i, h) w'"
  shows "wpS E Q (CE_residual F e (Suc fuel) C theta (int i)) w"
proof -
  note ok = ce_okD [OF C]
  have ix: "nth_int (ce_x C) (int i) = Inr (ce_x C ! i)" "nth_int (ce_t C) (int i) = Inr (ce_t C ! i)"
    using i ok(5) by (simp_all add: nth_int_def nth_or_ub_def)
  show ?thesis
    unfolding CE_residual_def wpS_bindS wpS_liftS ix wpE_Inr
  proof (rule wpS_inner [OF w])
    fix zs w1 assume w1: "wf_world P T J n sp w1" and z: "length (sum_share n zs) = n"
      "inner_error (map fsec (ce_x C ! i)) (map fsec theta) (fsec (sum_share n zs))"
    have np: "n_parties w1 = n" using w1 by (simp add: wf_world_def n_parties_def)
    have "\<bar>fsec (sum_share n zs)\<bar> \<le> 500 * shift"
      using z(2) by (rule inner_in_range) (use r i ok(4,6) in \<open>auto simp: ce_region_def\<close>)
    then show "wpS E (\<lambda>y. wpS E Q (retS (ce_x C ! i, share_sub y (ce_t C ! i)))) (open_sigmoid_vector F e (Suc fuel) zs (fp_of_int 1)) w1"
      unfolding open_sigmoid_vector_def wpS_withW np
    proof (rule wpS_open_sigmoid [OF w1 ok(1-3) z(1)])
      fix y w2 assume w2: "wf_world P T J n sp w2" and y: "length y = n" "sigmoid_near n (fsec (sum_share n zs)) (fsec y)"
      from z(2) y ok(8) [OF i] have "ce_residual n C (map fsec theta) i (fsec (share_sub y (ce_t C ! i)))"
        unfolding ce_residual_def by (intro exI [of _ "fsec (sum_share n zs)"]) (simp add: share_simps)
      with w2 y(1) ok(8) [OF i] show "wpS E Q (retS (ce_x C ! i, share_sub y (ce_t C ! i))) w2"
        by (simp add: post)
    qed
  qed (use ok i theta in auto)
qed

lemma wpS_CE_gradient:
  assumes w: "wf_world P T J n sp w" and x: "x \<noteq> []" "\<forall>r \<in> set x. length r = d \<and> (\<forall>a \<in> set r. length a = n)"
    and d: "length x < 2 ^ 31" "d < 2 ^ 31" and hy: "length hy = length x" "\<forall>h \<in> set hy. length h = n"
  shows "wpS (\<lambda>_. False) (\<lambda>g w'. wf_world P T J n sp w' \<and> length g = d \<and> (\<forall>a \<in> set g. length a = n) \<and>
    (\<forall>j < d. inner_error (map fsec hy) (map (\<lambda>r. fsec (r ! j)) x) (fsec (g ! j)))) (CE_gradient x hy (int d)) w"
proof -
  let ?X = "\<lparr>rows = length x, cols = d, cells = x\<rparr>"
  have X: "setFromVector x = Inr ?X"
    using x d by (intro setFromVector_ok) auto
  have wfX: "wf_matrix ?X" using x d by (auto simp: wf_matrix_def)
  have t: "get_row (matrix_transpose ?X) = map (\<lambda>j. map (\<lambda>r. r ! j) x) [0..<d]"
    unfolding get_row_cells [OF wf_transpose [OF wfX]]
    by (auto simp: matrix_transpose_def cell_def intro!: nth_equalityI)
  let ?m = "\<lambda>i. bindS (liftS (nth_or_ub (map (\<lambda>j. map (\<lambda>r. r ! j) x) [0..<d]) i)) (\<lambda>xi. bindS (fp_vec_mult hy xi) (\<lambda>v.
       withW (\<lambda>w. retS (sum_share (n_parties w) v))))"
  have "wpS (\<lambda>_. False) (\<lambda>g w'. wf_world P T J n sp w' \<and> length g = d \<and> (\<forall>a \<in> set g. length a = n) \<and>
    (\<forall>j < d. inner_error (map fsec hy) (map (\<lambda>r. fsec (r ! j)) x) (fsec (g ! j)))) (mapS ?m [0..<d]) w"
  proof (rule wpS_mapS [where I = "wf_world P T J n sp" and
      R = "\<lambda>j a. length a = n \<and> inner_error (map fsec hy) (map (\<lambda>r. fsec (r ! j)) x) (fsec a)"])
    fix j w1 assume "j \<in> set [0..<d]" and w1: "wf_world P T J n sp w1"
    then have j: "j < d" by simp
    have c: "\<forall>y \<in> set (map (\<lambda>r. r ! j) x). length y = n"
      using x(2) j by auto
    have "wpS (\<lambda>_. False) (\<lambda>v. wpS (\<lambda>_. False) (\<lambda>a w'. wf_world P T J n sp w' \<and> length a = n \<and>
        inner_error (map fsec hy) (map (\<lambda>r. fsec (r ! j)) x) (fsec a)) (withW (\<lambda>w. retS (sum_share (n_parties w) v))))
        (fp_vec_mult hy (map (\<lambda>r. r ! j) x)) w1"
    proof (rule wpS_inner [OF w1 _ hy(2) c])
      fix zs w' assume "wf_world P T J n sp w'" and "length (sum_share n zs) = n"
        "inner_error (map fsec hy) (map fsec (map (\<lambda>r. r ! j) x)) (fsec (sum_share n zs))"
      then show "wpS (\<lambda>_. False) (\<lambda>a w'. wf_world P T J n sp w' \<and> length a = n \<and>
        inner_error (map fsec hy) (map (\<lambda>r. fsec (r ! j)) x) (fsec a)) (withW (\<lambda>w. retS (sum_share (n_parties w) zs))) w'"
        by (simp add: wf_world_def n_parties_def comp_def)
    qed (simp add: hy(1))
    then show "wpS (\<lambda>_. False) (\<lambda>a w'. wf_world P T J n sp w' \<and> length a = n \<and>
        inner_error (map fsec hy) (map (\<lambda>r. fsec (r ! j)) x) (fsec a)) (?m j) w1"
      using j by (simp add: nth_or_ub_def)
  qed (auto simp: w list_all2_conv_all_nth in_set_conv_nth)
  then show ?thesis
    unfolding CE_gradient_def wpS_bindS wpS_liftS X wpE_Inr Let_def t vector_size_ok [OF of_nat_0_le_iff] nat_int .
qed

lemma wpS_CE_at:
  assumes w: "wf_world P T J n sp w" and C: "ce_ok F e n d C" and theta: "length theta = d" "\<forall>a \<in> set theta. length a = n"
    and r: "ce_region d C (map fsec theta)" and idx: "idx \<noteq> []" "set idx \<subseteq> {..< length (ce_x C)}" "length idx < 2 ^ 31"
  shows "wpS (\<lambda>_. False) (\<lambda>g w'. wf_world P T J n sp w' \<and> length g = length theta \<and> (\<forall>a \<in> set g. length a = n) \<and>
    ce_grad n C idx (map fsec theta) (map fsec g)) (CE_at F e (Suc fuel) C (map int idx) theta) w"
  unfolding CE_at_def wpS_bindS
proof (rule wpS_mapS [where I = "wf_world P T J n sp" and
    R = "\<lambda>i r. fst r = ce_x C ! nat i \<and> length (snd r) = n \<and> ce_residual n C (map fsec theta) (nat i) (fsec (snd r))"])
  fix i w1 assume "i \<in> set (map int idx)" and w1: "wf_world P T J n sp w1"
  then obtain k where k: "i = int k" "k < length (ce_x C)" using idx(2) by auto
  show "wpS (\<lambda>_. False) (\<lambda>y s'. wf_world P T J n sp s' \<and> fst y = ce_x C ! nat i \<and> length (snd y) = n \<and>
      ce_residual n C (map fsec theta) (nat i) (fsec (snd y))) (CE_residual F e (Suc fuel) C theta i) w1"
    unfolding k(1) by (rule wpS_residual [OF w1 C theta r k(2)]) simp
next
  fix rs w1 assume w1: "wf_world P T J n sp w1" and rs: "list_all2 (\<lambda>i r. fst r = ce_x C ! nat i \<and> length (snd r) = n \<and>
      ce_residual n C (map fsec theta) (nat i) (fsec (snd r))) (map int idx) rs"
  then have l: "length rs = length idx" "map fst rs = map (\<lambda>i. ce_x C ! i) idx" "\<forall>i < length (map snd rs). length (map snd rs ! i) = n"
    and res: "list_all2 (ce_residual n C (map fsec theta)) idx (map fsec (map snd rs))"
    by (auto simp: list_all2_conv_all_nth intro!: nth_equalityI)
  then have h: "\<forall>h \<in> set (map snd rs). length h = n"
    by (metis in_set_conv_nth)
  have dim: "isize theta = int d" using ce_okD(4) [OF C] theta(1) isize_small [of theta] by simp
  have x: "map fst rs \<noteq> []" "\<forall>r \<in> set (map fst rs). length r = d \<and> (\<forall>a \<in> set r. length a = n)"
    using idx ce_okD(6,7) [OF C] by (auto simp: l(2))
  have "wpS (\<lambda>_. False) (\<lambda>g w'. wf_world P T J n sp w' \<and> length g = d \<and> (\<forall>a \<in> set g. length a = n) \<and>
      (\<forall>j < d. inner_error (map fsec (map snd rs)) (map (\<lambda>r. fsec (r ! j)) (map fst rs)) (fsec (g ! j))))
      (CE_gradient (map fst rs) (map snd rs) (int d)) w1"
    using ce_okD(4) [OF C] idx(3) by (intro wpS_CE_gradient [OF w1 x _ _ _ h]) (simp_all add: l(1))
  then show "wpS (\<lambda>_. False) (\<lambda>g w'. wf_world P T J n sp w' \<and> length g = length theta \<and> (\<forall>a \<in> set g. length a = n) \<and>
      ce_grad n C idx (map fsec theta) (map fsec g)) (CE_gradient (map fst rs) (map snd rs) (isize theta)) w1"
    unfolding theta(1) dim
    by (rule wpS_mono) (use res theta(1) in \<open>auto simp: ce_grad_def l(2) comp_def\<close>)
qed (rule w)

text \<open>The gradient over all records.\<close>

definition full_region :: "'d boost \<Rightarrow> (rat \<Rightarrow> rat) \<Rightarrow> nat \<Rightarrow> nat \<Rightarrow> cross_entropy \<Rightarrow> int list \<Rightarrow> bool" where
  "full_region F e n d C th \<longleftrightarrow> ce_ok F e n d C \<and> ce_x C \<noteq> [] \<and> length (ce_x C) < 2 ^ 31 \<and> ce_region d C th"

interpretation full: gradient_contract P T J n sp "\<lambda>_. CE_df F e (Suc fuel) C" "full_region F e n d C" "ce_grad n C [0..<length (ce_x C)]"
proof
  fix w theta assume w: "wf_world P T J n sp w" "\<forall>a \<in> set theta. length a = n" and r: "full_region F e n d C (map fsec theta)"
  then have "length theta = d" by (auto simp: full_region_def ce_region_def)
  moreover have "[0..<length (ce_x C)] \<noteq> []" "set [0..<length (ce_x C)] \<subseteq> {..< length (ce_x C)}" "length [0..<length (ce_x C)] < 2 ^ 31"
    using r by (auto simp: full_region_def)
  ultimately have "wpS (\<lambda>_. False) (\<lambda>g w'. wf_world P T J n sp w' \<and> length g = length theta \<and> (\<forall>a \<in> set g. length a = n) \<and>
      ce_grad n C [0..<length (ce_x C)] (map fsec theta) (map fsec g)) (CE_at F e (Suc fuel) C (map int [0..<length (ce_x C)]) theta) w"
    using r w unfolding full_region_def by (intro wpS_CE_at) (assumption | elim conjE)+
  then
  show "wpS (\<lambda>_. False) (\<lambda>g w'. wf_world P T J n sp w' \<and> length g = length theta \<and> (\<forall>a \<in> set g. length a = n) \<and>
      ce_grad n C [0..<length (ce_x C)] (map fsec theta) (map fsec g)) (CE_df F e (Suc fuel) C theta) w"
    by (simp only: CE_df_def)
qed

text \<open>The gradient over a random selection of \<open>num\<close> different records, for a shuffle that is a permutation.\<close>

definition shuffles :: "(nat \<Rightarrow> nat \<Rightarrow> nat list) \<Rightarrow> bool" where
  "shuffles shuffled \<longleftrightarrow> (\<forall>k m. distinct (shuffled k m) \<and> set (shuffled k m) = {..< m})"

definition batch_region ::
    "'d boost \<Rightarrow> (rat \<Rightarrow> rat) \<Rightarrow> (nat \<Rightarrow> nat \<Rightarrow> nat list) \<Rightarrow> nat \<Rightarrow> nat \<Rightarrow> cross_entropy \<Rightarrow> nat \<Rightarrow> int list \<Rightarrow> bool" where
  "batch_region F e shuffled n d C num th \<longleftrightarrow> ce_ok F e n d C \<and> shuffles shuffled \<and> 0 < num \<and> num \<le> length (ce_x C) \<and>
     length (ce_x C) < 2 ^ 31 \<and> ce_region d C th"

definition batch_grad :: "nat \<Rightarrow> cross_entropy \<Rightarrow> nat \<Rightarrow> int list \<Rightarrow> int list \<Rightarrow> bool" where
  "batch_grad n C num th g \<longleftrightarrow> (\<exists>idx. distinct idx \<and> set idx \<subseteq> {..< length (ce_x C)} \<and> length idx = num \<and> ce_grad n C idx th g)"

lemma wpS_Inr: "m s = Inr (x, s') \<Longrightarrow> wpS E Q m s = Q x s'"
  by (simp add: wpS_def)

lemma get_random_x_ok:
  assumes w: "wf_world P T J n sp w" and F: "boost_ok F" and s: "distinct s" "set s = {..< N}" "shuffled N = s"
    and num: "num \<le> N" "N < 2 ^ 31"
  shows "get_random_x F shuffled (int num) (int N) w = Inr (map int (take num s), w)"
proof -
  have sp: "n_parties w = n" "w_sp w = sp" "sp < n" using w by (auto simp: wf_world_def n_parties_def)
  have l: "length s = N" using s(1,2) by (metis card_lessThan distinct_card)
  have "map (\<lambda>i. dtrunc (fp_getDoubleVal F (recons (share_addc sp (replicate n 0) (fp_of_int (int (s ! i))))))) [0..<num] = map int (take num s)"
  proof (rule nth_equalityI)
    fix i assume "i < length (map (\<lambda>i. dtrunc (fp_getDoubleVal F (recons (share_addc sp (replicate n 0) (fp_of_int (int (s ! i))))))) [0..<num])"
    then have i: "i < num" "i < length s" using num(1) l by simp_all
    then have b: "s ! i < 2 ^ 31" using s(2) num(2) nth_mem [of i s] by auto
    have "fpVal (recons (share_addc sp (replicate n 0) (fp_of_int (int (s ! i))))) = int (s ! i) * shift"
      using sp(3) by (simp add: fpVal_recons share_simps fp_of_int_def)
    then have "recons (share_addc sp (replicate n 0) (fp_of_int (int (s ! i)))) = fp_of_int (int (s ! i))"
      by (metis fp.exhaust_sel fp.sel fp_of_int_def)
    then have "dtrunc (fp_getDoubleVal F (recons (share_addc sp (replicate n 0) (fp_of_int (int (s ! i)))))) = int (s ! i)"
      using b by (simp add: count_double [OF F])
    then show "map (\<lambda>i. dtrunc (fp_getDoubleVal F (recons (share_addc sp (replicate n 0) (fp_of_int (int (s ! i))))))) [0..<num] ! i =
        map int (take num s) ! i" using i by simp
  qed (use num(1) l in simp)
  then show ?thesis
    using num(1) by (simp add: get_random_x_def withW_def bindS_lift retS_def Let_def sp s(3) comp_def)
qed

interpretation batch: gradient_contract P T J n sp "\<lambda>k. CE_df_batch F e (Suc fuel) (shuffled k) C (int num)"
    "batch_region F e shuffled n d C num" "batch_grad n C num"
proof
  fix w theta k assume w: "wf_world P T J n sp w" "\<forall>a \<in> set theta. length a = n" and r: "batch_region F e shuffled n d C num (map fsec theta)"
  then have d: "length theta = d" by (auto simp: batch_region_def ce_region_def)
  let ?N = "length (ce_x C)" and ?s = "shuffled k (length (ce_x C))"
  have s: "distinct ?s" "set ?s = {..< ?N}" and num: "0 < num" "num \<le> ?N" "?N < 2 ^ 31" and C: "ce_ok F e n d C" "ce_region d C (map fsec theta)"
    using r by (simp_all add: batch_region_def shuffles_def)
  have l: "length ?s = ?N" using s by (metis card_lessThan distinct_card)
  let ?idx = "take num ?s"
  have idx: "?idx \<noteq> []" "set ?idx \<subseteq> {..< ?N}" "distinct ?idx" "length ?idx = num" "length ?idx < 2 ^ 31"
  proof -
    show "length ?idx = num" "length ?idx < 2 ^ 31" using l num by simp_all
    then show "?idx \<noteq> []" using num(1) by (metis list.size(3) less_irrefl)
    show "set ?idx \<subseteq> {..< ?N}" using set_take_subset [of num ?s] unfolding s(2) .
    show "distinct ?idx" using s(1) by (rule distinct_take)
  qed
  have "wpS (\<lambda>_. False) (\<lambda>g w'. wf_world P T J n sp w' \<and> length g = length theta \<and> (\<forall>a \<in> set g. length a = n) \<and>
      batch_grad n C num (map fsec theta) (map fsec g)) (CE_at F e (Suc fuel) C (map int ?idx) theta) w"
    by (rule wpS_mono [OF wpS_CE_at [OF w(1) C(1) d w(2) C(2) idx(1,2,5)]]) (use idx in \<open>auto simp: batch_grad_def\<close>)
  moreover have "get_random_x F (shuffled k) (int num) (int ?N) w = Inr (map int ?idx, w)"
    by (rule get_random_x_ok [where shuffled = "shuffled k" and N = ?N and s = ?s,
          OF w(1) ce_okD(1) [OF C(1)] s refl num(2,3)])
  ultimately show "wpS (\<lambda>_. False) (\<lambda>g w'. wf_world P T J n sp w' \<and> length g = length theta \<and> (\<forall>a \<in> set g. length a = n) \<and>
      batch_grad n C num (map fsec theta) (map fsec g)) (CE_df_batch F e (Suc fuel) (shuffled k) C (int num) theta) w"
    unfolding CE_df_batch_def wpS_bindS isize_small [OF num(3)] by (simp only: wpS_Inr)
qed

subsection \<open>Steps of bounded size\<close>

text \<open>
  For features between -1 and 1 and targets between 0 and 1 a step of learning rate 1 changes every weight by little more than the number of
  records of the batch, so the weights of few steps stay in the range of the sigmoid.
\<close>

lemma inner_bound:
  assumes "\<forall>a \<in> set as. \<bar>a\<bar> \<le> A" "\<forall>b \<in> set bs. \<bar>b\<bar> \<le> (B :: int)" "length as = length bs" "0 \<le> A" "0 \<le> B"
  shows "\<bar>inner as bs\<bar> \<le> int (length as) * (A * B)"
proof -
  have "\<forall>k \<in> set (map2 (*) as bs). \<bar>k\<bar> \<le> A * B"
  proof
    fix k assume "k \<in> set (map2 (*) as bs)"
    then obtain a b where ab: "(a, b) \<in> set (zip as bs)" "k = a * b" by auto
    then have "\<bar>a\<bar> \<le> A" "\<bar>b\<bar> \<le> B"
      using assms(1,2) set_zip_leftD set_zip_rightD by fast+
    then show "\<bar>k\<bar> \<le> A * B"
      using assms(4,5) by (simp add: ab(2) abs_mult mult_mono)
  qed
  from sum_list_bound [OF this] show ?thesis
    using assms(3) by (simp add: inner_def mult.commute)
qed

lemma sigmoid_range: "sigmoid_near n s z \<Longrightarrow> n \<le> 100 \<Longrightarrow> - 99903 \<le> z \<and> z \<le> shift + 99903"
proof -
  assume z: "sigmoid_near n s z" and n: "n \<le> 100"
  let ?l = "real_of_int shift * logistic (of_int s / of_int shift)"
  have "0 \<le> logistic t" "logistic t \<le> 1" for t
    by (simp_all add: logistic_def add_pos_pos less_imp_le)
  then have "0 \<le> ?l" "?l \<le> of_int shift"
    by (auto intro: mult_nonneg_nonneg mult_left_le)
  moreover have "999 * real n + 3 \<le> 99903" using n by simp
  then have "of_int z \<le> ?l + 99903" "?l \<le> of_int z + 99903"
    using z unfolding sigmoid_near_def by linarith+
  ultimately have "- 99903 \<le> real_of_int z" "real_of_int z \<le> of_int shift + 99903" by linarith+
  then have "real_of_int (- 99903) \<le> of_int z" "real_of_int z \<le> of_int (shift + 99903)" by simp_all
  then show ?thesis by (simp only: of_int_le_iff)
qed

definition small_data :: "nat \<Rightarrow> cross_entropy \<Rightarrow> bool" where
  "small_data d C \<longleftrightarrow> (\<forall>xi \<in> set (ce_x C). length xi = d \<and> (\<forall>a \<in> set xi. \<bar>fsec a\<bar> \<le> shift)) \<and>
     length (ce_t C) = length (ce_x C) \<and> (\<forall>a \<in> set (ce_t C). 0 \<le> fsec a \<and> fsec a \<le> shift)"

lemma small_gradient:
  assumes "ce_grad n C idx th g" "small_data d C" "n \<le> 100" "set idx \<subseteq> {..< length (ce_x C)}" "j < d" "length th = d"
  shows "\<bar>g ! j\<bar> \<le> int (length idx) * (shift + 99904)"
proof -
  from assms(1,5,6) obtain hs where hs: "list_all2 (ce_residual n C th) idx hs"
    and g: "inner_error hs (map (\<lambda>i. fsec (ce_x C ! i ! j)) idx) (g ! j)"
    by (auto simp: ce_grad_def)
  have l: "length hs = length idx" using hs by (simp add: list_all2_lengthD)
  have "\<forall>h \<in> set hs. \<bar>h\<bar> \<le> shift + 99903"
  proof
    fix h assume "h \<in> set hs"
    then obtain k where k: "k < length idx" "h = hs ! k" using l by (metis in_set_conv_nth)
    then have i: "idx ! k < length (ce_x C)" using assms(4) nth_mem by blast
    from k hs obtain s where "sigmoid_near n s (h + fsec (ce_t C ! (idx ! k)))"
      by (auto simp: list_all2_conv_all_nth ce_residual_def)
    from sigmoid_range [OF this assms(3)] have "- 99903 \<le> h + fsec (ce_t C ! (idx ! k))" "h + fsec (ce_t C ! (idx ! k)) \<le> shift + 99903"
      by simp_all
    moreover have "ce_t C ! (idx ! k) \<in> set (ce_t C)" using assms(2) i by (simp add: small_data_def)
    then have "0 \<le> fsec (ce_t C ! (idx ! k))" "fsec (ce_t C ! (idx ! k)) \<le> shift"
      using assms(2) by (simp_all add: small_data_def)
    ultimately show "\<bar>h\<bar> \<le> shift + 99903" by linarith
  qed
  moreover have "\<forall>x \<in> set (map (\<lambda>i. fsec (ce_x C ! i ! j)) idx). \<bar>x\<bar> \<le> shift"
  proof -
    have "\<bar>fsec (ce_x C ! i ! j)\<bar> \<le> shift" if "i \<in> set idx" for i
    proof -
      have "ce_x C ! i \<in> set (ce_x C)" using assms(4) that by auto
      then have "length (ce_x C ! i) = d" "\<forall>a \<in> set (ce_x C ! i). \<bar>fsec a\<bar> \<le> shift"
        using assms(2) by (simp_all add: small_data_def)
      then show ?thesis using assms(5) by (metis nth_mem)
    qed
    then show ?thesis by simp
  qed
  ultimately have "\<bar>inner hs (map (\<lambda>i. fsec (ce_x C ! i ! j)) idx)\<bar> \<le> int (length hs) * ((shift + 99903) * shift)"
    by (rule inner_bound) (simp_all add: l shift_eq)
  then have "shift * \<bar>g ! j\<bar> \<le> int (length idx) * ((shift + 99903) * shift) + int (length idx) * shift"
    using g unfolding inner_error_def l by (simp add: shift_eq abs_mult)
  also have "\<dots> = shift * (int (length idx) * (shift + 99904))"
    by (simp add: algebra_simps)
  finally show ?thesis by simp
qed

lemma small_stays:
  assumes C: "small_data d C" and n: "n \<le> 100" and num: "num * d \<le> 4" "0 < num" and k: "k \<le> 100"
    and r: "\<And>th. ce_region d C th \<Longrightarrow> region th"
  shows "stays (descent_step (batch_grad n C num) shift) region k (replicate d 0)"
proof (rule staysI [where I = "\<lambda>j th. length th = d \<and> (\<forall>i < d. \<bar>th ! i\<bar> \<le> int j * (int num * (shift + 99905)))"])
  fix j th th'
  assume th: "length th = d \<and> (\<forall>i < d. \<bar>th ! i\<bar> \<le> int j * (int num * (shift + 99905)))"
    and "descent_step (batch_grad n C num) shift th th'"
  then obtain g idx where l: "length th' = d" and g: "ce_grad n C idx th g" "set idx \<subseteq> {..< length (ce_x C)}" "length idx = num"
    and s: "\<forall>i < d. \<bar>shift * (th ! i - th' ! i) - shift * g ! i\<bar> < shift"
    by (auto simp: descent_step_def batch_grad_def)
  have "\<bar>th' ! i\<bar> \<le> int (Suc j) * (int num * (shift + 99905))" if i: "i < d" for i
  proof -
    have "shift * (th ! i - th' ! i) - shift * g ! i = shift * (th ! i - th' ! i - g ! i)"
      by (simp add: right_diff_distrib)
    then have "shift * \<bar>th ! i - th' ! i - g ! i\<bar> < shift * 1"
      using s i by (metis abs_mult abs_of_pos mult_1_right shift_pos(1))
    then have "th' ! i = th ! i - g ! i"
      by (simp add: mult_less_cancel_left_pos)
    moreover have "\<bar>g ! i\<bar> \<le> int num * (shift + 99904)"
      using small_gradient [OF g(1) C n g(2) i] th by (simp add: g(3))
    moreover have "int num * (shift + 99904) \<le> int num * (shift + 99905)"
      by (rule mult_left_mono) simp_all
    moreover have "\<bar>th ! i\<bar> \<le> int j * (int num * (shift + 99905))" using th i by blast
    ultimately show ?thesis by (simp add: distrib_right)
  qed
  with l show "length th' = d \<and> (\<forall>i < d. \<bar>th' ! i\<bar> \<le> int (Suc j) * (int num * (shift + 99905)))" by blast
next
  fix j th
  assume j: "j < k" and th: "length th = d \<and> (\<forall>i < d. \<bar>th ! i\<bar> \<le> int j * (int num * (shift + 99905)))"
  let ?B = "int j * (int num * (shift + 99905))"
  have B: "int d * ?B \<le> 499 * shift"
  proof -
    have "int d * int num \<le> 4" using num(1) by (metis mult.commute of_nat_le_iff of_nat_mult of_nat_numeral)
    then have "int j * (int d * int num) \<le> 100 * 4"
      using j k by (intro mult_mono) simp_all
    then have "int j * (int d * int num) * (shift + 99905) \<le> 400 * (shift + 99905)"
      by (intro mult_right_mono) (simp_all add: shift_eq)
    moreover have "int d * ?B = int j * (int d * int num) * (shift + 99905)" by (simp add: mult_ac)
    ultimately show ?thesis by (simp add: shift_eq)
  qed
  have "ce_region d C th"
    unfolding ce_region_def
  proof (intro conjI ballI)
    fix xi assume xi: "xi \<in> set (ce_x C)"
    then have "length xi = d" "\<forall>a \<in> set (map fsec xi). \<bar>a\<bar> \<le> shift"
      using C by (auto simp: small_data_def)
    moreover have "\<forall>b \<in> set th. \<bar>b\<bar> \<le> ?B" using th by (metis in_set_conv_nth)
    ultimately have "\<bar>inner (map fsec xi) th\<bar> \<le> int d * (shift * ?B)"
      using inner_bound [of "map fsec xi" shift th ?B] th by (simp add: shift_eq)
    also have "\<dots> = shift * (int d * ?B)" by (simp add: mult_ac)
    also have "\<dots> \<le> shift * (499 * shift)" using B by (rule mult_left_mono) simp
    finally show "\<bar>inner (map fsec xi) th\<bar> \<le> 499 * shift * shift" by (simp add: mult_ac)
  qed (use th in simp)
  then show "region th" by (rule r)
qed simp

subsection \<open>Properties\<close>

lemma stays_mono: "stays step region k s \<Longrightarrow> (\<And>s. region s \<Longrightarrow> region' s) \<Longrightarrow> stays step region' k s"
  unfolding stays_def by blast

lemma stays_one: "stays step region (Suc 0) s \<longleftrightarrow> region s"
  by (simp add: stays_def)

lemma CrossEntropyError_of [simp]:
  "df (CrossEntropyError F e fuel shuffled (ce_x C) (ce_t C)) = CE_df F e fuel C"
  "df_batch (CrossEntropyError F e fuel shuffled (ce_x C) (ce_t C)) = (\<lambda>k. CE_df_batch F e fuel (shuffled k) C)"
  by (cases C, simp add: CrossEntropyError_def Let_def)+


definition demo_ce :: cross_entropy where
  "demo_ce = \<lparr>ce_t = [[FP 0, FP 0], [FP 60000000, FP 40000000]],
     ce_x = [[[FP 100000000, FP 0], [FP 100000000, FP 0]], [[FP 100000000, FP 0], [FP 30000000, FP 20000000]]]\<rparr>"

lemma demo_ce_ok: "ce_ok ref_boost ref_exp 2 2 demo_ce" "ce_region 2 demo_ce [0, 0]" "shuffles (\<lambda>_ m. [0..<m])" "length (ce_x demo_ce) = 2"
  by (auto simp: ce_ok_def boost_ok_ref exp_ok_ref demo_ce_def ce_region_def inner_def shuffles_def shift_eq)


definition regression_data :: "nat \<Rightarrow> nat \<Rightarrow> fp list list list \<Rightarrow> int list \<Rightarrow> int \<Rightarrow> cross_entropy" where
  "regression_data n sp tbl js t =
     \<lparr>ce_t = map (\<lambda>row. row ! nat (t - 1)) tbl,
      ce_x = map (\<lambda>row. getConstantShare n sp (fp_of_int 1) # map (\<lambda>j. row ! nat (j - 1)) js) tbl\<rparr>"

lemma parse_regression_ok:
  assumes "\<forall>row \<in> set tbl. \<forall>j \<in> set (t # js). 1 \<le> j \<and> j \<le> int (length row)" and fits: "length tbl < 2 ^ 31" "length js < 2 ^ 31 - 1"
  shows "parse_regression one tbl (js # (t # ts) # rest) =
    Inr (map (\<lambda>row. one # map (\<lambda>j. row ! nat (j - 1)) js) tbl, map (\<lambda>row. row ! nat (t - 1)) tbl)"
proof -
  have "mapE (pick row) js = Inr (map (\<lambda>j. row ! nat (j - 1)) js)" if "row \<in> set tbl" for row
    using assms that by (intro mapE_Inr) (simp add: pick_ok)
  then have "pick_with_one one tbl js = Inr (map (\<lambda>row. one # map (\<lambda>j. row ! nat (j - 1)) js) tbl)"
    unfolding pick_with_one_def by (intro mapE_Inr) simp
  moreover have "pick_column tbl t = Inr (map (\<lambda>row. row ! nat (t - 1)) tbl)"
    unfolding pick_column_def using assms by (intro mapE_Inr) (simp add: pick_ok)
  ultimately show ?thesis
    by (simp add: parse_regression_def nth_or_ub_def design_rows_small [OF fits] int_column_small [OF fits(1)])
qed

text \<open>A table of a single record makes batches of no records, whose matrix has no first row.\<close>

lemma logistic_regression_single:
  assumes "wf_world P T J n sp w" "1 \<le> t" "t \<le> int (length row)" "\<forall>j \<in> set js. 1 \<le> j \<and> j \<le> int (length row)" "length js < 2 ^ 31 - 1"
  shows "LogisticRegressionJob_compute F e fuel shuffled [row] (js # (t # ts) # rest) w = Inl UndefinedBehaviour"
proof -
  have "SGD_optimize one 0 100 (CrossEntropyError F e fuel shuffled [x0] ys) th w = Inl UndefinedBehaviour" for one x0 ys th
  proof -
    have "(100 :: nat) = Suc 99" by simp
    moreover have "isize [x0] = 1" using isize_small [of "[x0]"] by simp
    ultimately show ?thesis
      by (simp only: SGD_optimize_def nat_numeral descend.simps)
        (simp add: CrossEntropyError_def Let_def CE_df_batch_def get_random_x_def bindS_def withW_def retS_def CE_at_def CE_gradient_def
          setFromVector_def liftS_def)
  qed
  with assms show ?thesis
    by (simp add: LogisticRegressionJob_compute_def parse_regression_ok withW_def Let_def bindS_def liftS_def nth_or_ub_def int32_def)
qed

text \<open>
  C9. Logistic regression on a table of at least two records: as long as the weights stay in the range of the sigmoid, the job ends normally,
  with one weight for the constant and one per feature column, which 100 steps of stochastic gradient descent of rate 1 reach
  from zero, each over half of the records, drawn without repetition.
\<close>

theorem logistic_regression_correct:
  assumes w: "wf_world P T J n sp w" and F: "boost_ok F" "exp_ok e" "n \<le> 100" "fp_of_string (decs F) ''1'' = fp_of_int 1" "shuffles shuffled"
    and tbl: "\<forall>row \<in> set tbl. (\<forall>j \<in> set (t # js). 1 \<le> j \<and> j \<le> int (length row)) \<and> (\<forall>a \<in> set row. length a = n)"
      "2 \<le> length tbl" "length tbl < 2 ^ 31" "length js < 10 ^ 8"
    and step: "step = descent_step (batch_grad n (regression_data n sp tbl js t) (length tbl div 2)) shift"
    and r: "stays step (ce_region (Suc (length js)) (regression_data n sp tbl js t)) 100 (replicate (Suc (length js)) 0)"
  shows "\<exists>z w'. LogisticRegressionJob_compute F e (Suc fuel) shuffled tbl (js # (t # ts) # rest) w = Inr (z, w') \<and> wf_world P T J n sp w' \<and>
    length z = Suc (length js) \<and> (\<forall>a \<in> set z. length a = n) \<and> (step ^^ 100) (replicate (Suc (length js)) 0) (map fsec z)"
proof -
  let ?C = "regression_data n sp tbl js t" and ?d = "Suc (length js)" and ?one = "getConstantShare n sp (fp_of_int 1) :: fp list"
  have sp: "n_parties w = n" "w_sp w = sp" "sp < n" using w by (auto simp: wf_world_def n_parties_def)
  have one: "length ?one = n" "fsec ?one = shift"
    using sp(3) by (simp_all add: getConstantShare_def share_simps fp_of_int_def)
  have len: "length (ce_x ?C) = length tbl" by (simp add: regression_data_def)
  have cell: "row ! nat (j - 1) \<in> set row" if "row \<in> set tbl" "j \<in> set (t # js)" for row j
    using tbl(1) that by (intro nth_mem) fastforce
  have ok: "ce_ok F e n ?d ?C"
    unfolding ce_ok_def using F(1-3) tbl(1,4) cell one(1) by (auto simp: regression_data_def)
  have num: "0 < length tbl div 2" using tbl(2) by simp
  have b: "stays step (batch_region F e shuffled n ?d ?C (length tbl div 2)) 100 (map fsec (replicate ?d (replicate n 0)))"
    using r ok F(5) tbl(3) num by (auto simp: batch_region_def len share_simps elim!: stays_mono)
  have z: "\<forall>a \<in> set (replicate ?d (replicate n (0 :: fp))). length a = n" by simp
  have "wpS (\<lambda>_. False) (\<lambda>z w'. wf_world P T J n sp w' \<and> length z = ?d \<and> (\<forall>a \<in> set z. length a = n) \<and>
      (step ^^ 100) (replicate ?d 0) (map fsec z)) (descend 100 ?one (\<lambda>k. CE_df_batch F e (Suc fuel) (shuffled k) ?C (int (length tbl div 2)))
        (replicate ?d (replicate n 0))) w"
    using batch.descent [OF w one(1) z, of ?C "length tbl div 2" F e shuffled ?d 100 fuel] b
    by (simp add: step one(2) share_simps)
  moreover have "SGD_optimize ?one (int (length tbl div 2)) 100 (CrossEntropyError F e (Suc fuel) shuffled (ce_x ?C) (ce_t ?C)) =
      descend 100 ?one (\<lambda>k. CE_df_batch F e (Suc fuel) (shuffled k) ?C (int (length tbl div 2)))"
    by (rule ext) (simp add: SGD_optimize_def)
  moreover have batch_size: "int32 (int (length (ce_x ?C) div 2)) = int (length tbl div 2)"
    using tbl(3) int32_id [of "int (length tbl div 2)"] by (simp add: len)
  moreover have "parse_regression ?one tbl (js # (t # ts) # rest) = Inr (ce_x ?C, ce_t ?C)"
    using parse_regression_ok [of tbl t js] tbl by (simp add: regression_data_def)
  moreover obtain x0 xs where "ce_x ?C = x0 # xs" "length x0 = ?d"
  proof -
    have "tbl \<noteq> []" using tbl(2) by auto
    then show ?thesis
      using that len ce_okD(6) [OF ok, of 0] by (cases "ce_x ?C") auto
  qed
  ultimately have "wpS (\<lambda>_. False) (\<lambda>z w'. wf_world P T J n sp w' \<and> length z = ?d \<and> (\<forall>a \<in> set z. length a = n) \<and>
      (step ^^ 100) (replicate ?d 0) (map fsec z)) (LogisticRegressionJob_compute F e (Suc fuel) shuffled tbl (js # (t # ts) # rest)) w"
    unfolding LogisticRegressionJob_compute_def wpS_withW sp F(4) Let_def wpS_bindS wpS_liftS
    by (simp add: nth_or_ub_def len [symmetric] batch_size del: replicate_Suc)
  then show ?thesis
    unfolding wpS_total by blast
qed

theorem logistic_regression_correct_witness:
  "\<exists>z w'. LogisticRegressionJob_compute (ref_boost_with [(''1'', 1)]) ref_exp 1 (\<lambda>_ m. [0..<m])
      [[[FP 50000000, FP 30000000], [FP 0, FP 0]], [[FP 20000000, FP 0], [FP 70000000, FP 30000000]]] [[1], [2]] demo_world = Inr (z, w') \<and>
    length z = 2"
proof -
  let ?tbl = "[[[FP 50000000, FP 30000000], [FP 0, FP 0]], [[FP 20000000, FP 0], [FP 70000000, FP 30000000]]]"
  have one: "fp_of_string (decs (ref_boost_with [(''1'', 1)])) ''1'' = fp_of_int 1"
    by (simp add: fp_of_string_with fp_of_int_def)
  have n: "length ?tbl div 2 = 1" "Suc (length [1 :: int]) = 2" by simp_all
  have d: "small_data 2 (regression_data 2 0 ?tbl [1] 2)"
  proof -
    have "fsec [a, b] = fpVal a + fpVal b" for a b by (simp add: fsec_def)
    moreover have "fsec (getConstantShare 2 0 (fp_of_int 1)) = shift"
      by (simp add: getConstantShare_def share_simps fp_of_int_def)
    ultimately show ?thesis by (simp add: small_data_def regression_data_def shift_eq)
  qed
  have r: "stays (descent_step (batch_grad 2 (regression_data 2 0 ?tbl [1] 2) (length ?tbl div 2)) shift)
      (ce_region (Suc (length [1 :: int])) (regression_data 2 0 ?tbl [1] 2)) 100 (replicate (Suc (length [1 :: int])) 0)"
    unfolding n by (rule small_stays [OF d]) simp_all
  have "\<exists>z w'. LogisticRegressionJob_compute (ref_boost_with [(''1'', 1)]) ref_exp (Suc 0) (\<lambda>_ m. [0..<m]) ?tbl ([1] # (2 # []) # []) demo_world = Inr (z, w') \<and>
      wf_world (\<lambda>_. True) 100000 1 2 0 w' \<and> length z = Suc (length [1 :: int]) \<and> (\<forall>a \<in> set z. length a = 2) \<and>
      (descent_step (batch_grad 2 (regression_data 2 0 ?tbl [1] 2) (length ?tbl div 2)) shift ^^ 100) (replicate (Suc (length [1 :: int])) 0) (map fsec z)"
    by (rule logistic_regression_correct [OF wf_demo_world boost_ok_with exp_ok_ref _ one demo_ce_ok(3) _ _ _ _ refl r]) simp_all
  then show ?thesis by auto
qed

end
