(* ===== verification/Models.thy ===== *)
theory Models
  imports Optim Json
begin

section \<open>Predictions\<close>

text \<open>
  \<open>Model/Models/LinearRegression.hpp\<close>, \<open>LogisticRegression.hpp\<close> and \<open>DecisionTree.hpp\<close>. Every party reads the documents of the
  model from its own database gateway; texts of different parties at the same place are the parties' values of a share.
  Parties whose documents differ in shape would not take part in the same multiplications and wait for each other (\<open>Blocked\<close>).
\<close>

subsection \<open>Shares as texts\<close>

definition share_of_texts :: "'d dec \<Rightarrow> string list \<Rightarrow> fp list" where
  "share_of_texts D ss = map (fp_of_string D) ss"

text \<open>The parties' vectors of texts as a vector of shares.\<close>

definition shares_of_texts :: "'d dec \<Rightarrow> string list list \<Rightarrow> fp list list res" where
  "shares_of_texts D ps =
     (case ps of [] \<Rightarrow> Inl UndefinedBehaviour | p # _ \<Rightarrow>
       if \<exists>q \<in> set ps. length q \<noteq> length p then Inl Blocked
       else Inr (map (\<lambda>i. share_of_texts D (map (\<lambda>q. q ! i) ps)) [0..<length p]))"

subsection \<open>Linear and logistic regression\<close>

definition predict_f :: "fp list list \<Rightarrow> fp list list \<Rightarrow> (world, fp list) comp" where
  "predict_f a x = bindS (fp_vec_mult a x) (\<lambda>axs. withW (\<lambda>w. retS (sum_share (n_parties w) axs)))"

definition parse_table :: "'d boost \<Rightarrow> nat \<Rightarrow> nat \<Rightarrow> fp list list list \<Rightarrow> int list \<Rightarrow> fp list list list res" where
  "parse_table F n sp tbl arg = pick_with_one (getConstantShare n sp (fp_of_string (decs F) ''1'')) tbl arg"

definition regression_inputs ::
    "'d boost \<Rightarrow> (string \<Rightarrow> string res) list \<Rightarrow> (string \<Rightarrow> json res) \<Rightarrow> string \<Rightarrow> fp list list list \<Rightarrow> int list \<Rightarrow>
     (world, fp list list \<times> fp list list list) comp" where
  "regression_inputs F queries parse uuid tbl arg = withW (\<lambda>w.
     liftS (bindE (mapE (\<lambda>query. readModelparam query parse uuid) queries) (\<lambda>a_str.
       bindE (shares_of_texts (decs F) a_str) (\<lambda>a. bindE (parse_table F (n_parties w) (w_sp w) tbl arg) (\<lambda>x. Inr (a, x))))))"

definition LinearRegression_predict ::
    "'d boost \<Rightarrow> (string \<Rightarrow> string res) list \<Rightarrow> (string \<Rightarrow> json res) \<Rightarrow> string \<Rightarrow> fp list list list \<Rightarrow> int list \<Rightarrow> (world, fp list list) comp" where
  "LinearRegression_predict F queries parse uuid tbl arg =
     bindS (regression_inputs F queries parse uuid tbl arg) (\<lambda>(a, x). mapS (predict_f a) x)"

definition logistic_predict_f :: "'d boost \<Rightarrow> (rat \<Rightarrow> rat) \<Rightarrow> nat \<Rightarrow> fp list list \<Rightarrow> fp list list \<Rightarrow> (world, fp list) comp" where
  "logistic_predict_f F e fuel a x = bindS (predict_f a x) (\<lambda>lr. open_sigmoid F e fuel lr (fp_of_int 1))"

definition LogisticRegression_predict ::
    "'d boost \<Rightarrow> (rat \<Rightarrow> rat) \<Rightarrow> nat \<Rightarrow> (string \<Rightarrow> string res) list \<Rightarrow> (string \<Rightarrow> json res) \<Rightarrow> string \<Rightarrow> fp list list list \<Rightarrow> int list \<Rightarrow>
     (world, fp list list) comp" where
  "LogisticRegression_predict F e fuel queries parse uuid tbl arg =
     bindS (regression_inputs F queries parse uuid tbl arg) (\<lambda>(a, x). mapS (logistic_predict_f F e fuel a) x)"

subsection \<open>Decision trees\<close>

definition has_output :: "json \<Rightarrow> bool" where
  "has_output j = (case j of JObj kvs \<Rightarrow> map_of kvs ''output'' \<noteq> None | _ \<Rightarrow> False)"

definition text_member :: "string \<Rightarrow> json \<Rightarrow> string res" where
  "text_member k j = bindE (json_at j k) json_string"

definition share_member :: "'d dec \<Rightarrow> string \<Rightarrow> json list \<Rightarrow> fp list res" where
  "share_member D k js = bindE (mapE (text_member k) js) (\<lambda>ss. Inr (share_of_texts D ss))"

text \<open>\<open>depth\<close> bounds the recursion; the depth of the document is enough.\<close>

fun classify :: "'d boost \<Rightarrow> nat \<Rightarrow> nat \<Rightarrow> json list \<Rightarrow> fp list list \<Rightarrow> (world, fp list) comp" where
  "classify F fuel 0 dtree x = raiseS OutOfFuel"
| "classify F fuel (Suc depth) dtree x =
     (if list_all has_output dtree then liftS (share_member (decs F) ''output'' dtree)
      else if list_ex has_output dtree then raiseS Blocked
      else
       bindS (liftS (bindE (mapE (\<lambda>j. bindE (json_at j ''feature_bitvector'') json_strings) dtree) (shares_of_texts (decs F)))) (\<lambda>bv_s.
       bindS (fp_vec_mult x bv_s) (\<lambda>xb. withW (\<lambda>w. let val = sum_share (n_parties w) xb in
       bindS (liftS (share_member (decs F) ''threshold'' dtree)) (\<lambda>threshold.
       bindS (share_less F fuel val threshold) (\<lambda>b.
       bindS (liftS (mapE (\<lambda>j. json_at j (if b then ''left_child'' else ''right_child'')) dtree)) (\<lambda>child.
       classify F fuel depth child x)))))))"

text \<open>The documents of one tree of the list, one per party.\<close>

fun weighted_trees :: "'d boost \<Rightarrow> nat \<Rightarrow> nat \<Rightarrow> json list list \<Rightarrow> fp list list \<Rightarrow> fp list \<Rightarrow> (world, fp list) comp" where
  "weighted_trees F fuel depth [] x acc = retS acc"
| "weighted_trees F fuel depth (dtree # ds) x acc =
     bindS (liftS (share_member (decs F) ''weight'' dtree)) (\<lambda>w.
     bindS (liftS (mapE (\<lambda>j. json_at j ''tree_structure'') dtree)) (\<lambda>t.
     bindS (classify F fuel depth t x) (\<lambda>out. bindS (fp_share_mult w out) (\<lambda>m.
     weighted_trees F fuel depth ds x (share_add acc m)))))"

definition trees_of_parties :: "json list \<Rightarrow> json list list res" where
  "trees_of_parties dtree_list =
     (case map json_items dtree_list of [] \<Rightarrow> Inl UndefinedBehaviour | p # ps \<Rightarrow>
       if \<exists>q \<in> set ps. length q \<noteq> length p then Inl Blocked
       else Inr (map (\<lambda>i. map (\<lambda>q. q ! i) (p # ps)) [0..<length p]))"

definition tree_predict_f :: "'d boost \<Rightarrow> nat \<Rightarrow> nat \<Rightarrow> json list \<Rightarrow> fp list list \<Rightarrow> (world, fp list) comp" where
  "tree_predict_f F fuel depth dtree_list x =
     bindS (liftS (trees_of_parties dtree_list)) (\<lambda>ds. withW (\<lambda>w. weighted_trees F fuel depth ds x (replicate (n_parties w) 0)))"

definition DecisionTree_predict ::
    "'d boost \<Rightarrow> nat \<Rightarrow> nat \<Rightarrow> (string \<Rightarrow> string res) list \<Rightarrow> (string \<Rightarrow> json res) \<Rightarrow> string \<Rightarrow> fp list list list \<Rightarrow> int list \<Rightarrow>
     (world, fp list list) comp" where
  "DecisionTree_predict F fuel depth queries parse uuid tbl arg =
     bindS (liftS (bindE (mapE (\<lambda>query. readModelparamJson query parse uuid) queries) (\<lambda>dtree_list.
       bindE (pick_columns tbl arg) (\<lambda>x. Inr (dtree_list, x)))))
     (\<lambda>(dtree_list, x). mapS (tree_predict_f F fuel depth dtree_list) x)"

subsection \<open>Reading shares\<close>

text \<open>\<open>n\<close> parties' texts of a share.\<close>

definition sv :: "'d dec \<Rightarrow> string list \<Rightarrow> int" where
  "sv D s = fsec (share_of_texts D s)"

lemma length_share_of_texts [simp]: "length (share_of_texts D s) = length s"
  by (simp add: share_of_texts_def)

lemma map_nth_upt: "length s = n \<Longrightarrow> map (\<lambda>p. s ! p) [0..<n] = s"
  by (auto intro: nth_equalityI)

lemma share_member_doc:
  assumes "\<And>p. p < n \<Longrightarrow> json_at (f p) k = Inr (JStr (s ! p))" "length s = n"
  shows "share_member D k (map f [0..<n]) = Inr (share_of_texts D s)"
proof -
  have "mapE (text_member k) (map f [0..<n]) = Inr s"
    using assms by (simp add: mapE_eq_Inr text_member_def json_string_def)
  then show ?thesis by (simp add: share_member_def)
qed

lemma shares_of_texts_ok:
  assumes "0 < n" "\<forall>s \<in> set ss. length s = n"
  shows "shares_of_texts D (map (\<lambda>p. map (\<lambda>s. s ! p) ss) [0..<n]) = Inr (map (share_of_texts D) ss)"
proof -
  obtain m where n: "n = Suc m" using assms(1) by (cases n) auto
  have u: "map (\<lambda>p. map (\<lambda>s. s ! p) ss) [0..<n] = map (\<lambda>s. s ! 0) ss # map (\<lambda>p. map (\<lambda>s. s ! p) ss) [1..<n]"
    by (simp add: n upt_conv_Cons del: upt_Suc)
  have "map (\<lambda>q. q ! i) (map (\<lambda>p. map (\<lambda>s. s ! p) ss) [0..<n]) = ss ! i" if "i < length ss" for i
    using that assms(2) by (simp add: comp_def map_nth_upt)
  then have "map (\<lambda>i. share_of_texts D (map (\<lambda>q. q ! i) (map (\<lambda>p. map (\<lambda>s. s ! p) ss) [0..<n]))) [0..<length ss] = map (share_of_texts D) ss"
    by (intro nth_equalityI) simp_all
  then show ?thesis
    unfolding shares_of_texts_def unfolding u by (auto simp del: upt_Suc)
qed

subsection \<open>Regression\<close>

lemma wpS_predict_f:
  assumes "wf_world P T J n sp w" "length a = length x" "\<forall>s \<in> set a. length s = n" "\<forall>s \<in> set x. length s = n"
    and post: "\<And>z w'. wf_world P T J n sp w' \<Longrightarrow> w_ok w' = w_ok w \<Longrightarrow> length z = n \<Longrightarrow>
      inner_error (map fsec a) (map fsec x) (fsec z) \<Longrightarrow> Q z w'"
  shows "wpS E Q (predict_f a x) w"
  unfolding predict_f_def wpS_bindS
proof (rule wpS_inner [OF assms(1-4)])
  fix zs w' assume "wf_world P T J n sp w'" "w_ok w' = w_ok w" "length (sum_share n zs) = n"
    "inner_error (map fsec a) (map fsec x) (fsec (sum_share n zs))"
  then show "wpS E Q (withW (\<lambda>w. retS (sum_share (n_parties w) zs))) w'"
    by (simp add: post) (simp add: wf_world_def n_parties_def post)
qed

text \<open>The row of a prediction: the constant 1 and the selected columns.\<close>

definition regressors :: "nat \<Rightarrow> nat \<Rightarrow> int list \<Rightarrow> fp list list \<Rightarrow> fp list list" where
  "regressors n sp js row = getConstantShare n sp (fp_of_int 1) # map (\<lambda>j. row ! nat (j - 1)) js"

lemma regressors_ok:
  assumes "\<forall>row \<in> set tbl. \<forall>j \<in> set js. 1 \<le> j \<and> j \<le> int (length row)" "\<forall>row \<in> set tbl. \<forall>s \<in> set row. length s = n"
  shows "pick_with_one (getConstantShare n sp (fp_of_int 1)) tbl js = Inr (map (regressors n sp js) tbl)"
    "\<forall>x \<in> set (map (regressors n sp js) tbl). length x = Suc (length js) \<and> (\<forall>s \<in> set x. length s = n)"
proof -
  have "mapE (pick row) js = Inr (map (\<lambda>j. row ! nat (j - 1)) js)" if "row \<in> set tbl" for row
    using assms(1) that by (intro mapE_Inr) (simp add: pick_ok)
  then show "pick_with_one (getConstantShare n sp (fp_of_int 1)) tbl js = Inr (map (regressors n sp js) tbl)"
    unfolding pick_with_one_def regressors_def by (intro mapE_Inr) simp
  show "\<forall>x \<in> set (map (regressors n sp js) tbl). length x = Suc (length js) \<and> (\<forall>s \<in> set x. length s = n)"
  proof
    fix x assume "x \<in> set (map (regressors n sp js) tbl)"
    then obtain row where r: "row \<in> set tbl" "x = regressors n sp js row" by auto
    have "row ! nat (j - 1) \<in> set row" if "j \<in> set js" for j
      using assms(1) r(1) that by (intro nth_mem) fastforce
    with r assms(2) show "length x = Suc (length js) \<and> (\<forall>s \<in> set x. length s = n)"
      by (auto simp: regressors_def)
  qed
qed

lemma wpS_map_total:
  assumes "wf_world P T J n sp w"
    and "\<And>x w. x \<in> set xs \<Longrightarrow> wf_world P T J n sp w \<Longrightarrow> wpS E (\<lambda>z w'. wf_world P T J n sp w' \<and> R x z) (f x) w"
  shows "wpS E (\<lambda>zs w'. wf_world P T J n sp w' \<and> list_all2 R xs zs) (mapS f xs) w"
  by (rule wpS_mapS [where I = "wf_world P T J n sp" and R = R]) (simp_all add: assms)

text \<open>What the parties' databases answer for the parameters \<open>ss\<close> of a model.\<close>

definition params_read ::
    "nat \<Rightarrow> (string \<Rightarrow> string res) list \<Rightarrow> (string \<Rightarrow> json res) \<Rightarrow> string \<Rightarrow> string list list \<Rightarrow> bool" where
  "params_read n queries parse uuid ss \<longleftrightarrow> (\<forall>s \<in> set ss. length s = n) \<and>
     mapE (\<lambda>query. readModelparam query parse uuid) queries = Inr (map (\<lambda>p. map (\<lambda>s. s ! p) ss) [0..<n])"

lemma wpS_regression_inputs:
  assumes w: "wf_world P T J n sp w" and one: "fp_of_string (decs F) ''1'' = fp_of_int 1" and q: "params_read n queries parse uuid ss"
    and tbl: "\<forall>row \<in> set tbl. \<forall>j \<in> set js. 1 \<le> j \<and> j \<le> int (length row)" "\<forall>row \<in> set tbl. \<forall>s \<in> set row. length s = n"
  shows "wpS E Q (regression_inputs F queries parse uuid tbl js) w =
    Q (map (share_of_texts (decs F)) ss, map (regressors n sp js) tbl) w"
proof -
  have sp: "n_parties w = n" "w_sp w = sp" "0 < n" using w by (auto simp: wf_world_def n_parties_def)
  from q have "mapE (\<lambda>query. readModelparam query parse uuid) queries = Inr (map (\<lambda>p. map (\<lambda>s. s ! p) ss) [0..<n])"
    and l: "\<forall>s \<in> set ss. length s = n"
    by (simp_all add: params_read_def)
  moreover note shares_of_texts_ok [OF sp(3) l, of "decs F"]
  ultimately show ?thesis
    unfolding regression_inputs_def parse_table_def wpS_withW sp one wpS_liftS using regressors_ok(1) [OF tbl] by simp
qed

text \<open>
  C12. Linear and logistic regression: with parameters that all parties have stored, one per column and one for the constant, both models
  predict every row of the table; the linear prediction opens to the inner product of parameters and row up to one unit in the
  last place per term, the logistic one to the logistic function of such a value as far as it lies between -500 and 500.
\<close>

theorem regression_predict_correct:
  assumes w: "wf_world P T J n sp w" and F: "boost_ok F" "exp_ok e" "n \<le> 100" "fp_of_string (decs F) ''1'' = fp_of_int 1"
    and q: "params_read n queries parse uuid ss" "length ss = Suc (length js)" "length js < 10 ^ 8"
    and tbl: "\<forall>row \<in> set tbl. \<forall>j \<in> set js. 1 \<le> j \<and> j \<le> int (length row)" "\<forall>row \<in> set tbl. \<forall>s \<in> set row. length s = n"
  shows "(\<exists>zs w'. LinearRegression_predict F queries parse uuid tbl js w = Inr (zs, w') \<and> wf_world P T J n sp w' \<and>
      list_all2 (\<lambda>row z. length z = n \<and> inner_error (map (sv (decs F)) ss) (map fsec (regressors n sp js row)) (fpVal (recons z))) tbl zs) \<and>
    ((\<forall>row \<in> set tbl. \<bar>inner (map (sv (decs F)) ss) (map fsec (regressors n sp js row))\<bar> \<le> 499 * shift * shift) \<longrightarrow>
      (\<exists>zs w'. LogisticRegression_predict F e (Suc fuel) queries parse uuid tbl js w = Inr (zs, w') \<and> wf_world P T J n sp w' \<and>
        list_all2 (\<lambda>row z. length z = n \<and> (\<exists>s. inner_error (map (sv (decs F)) ss) (map fsec (regressors n sp js row)) s \<and>
          sigmoid_near n s (fpVal (recons z)))) tbl zs))"
proof -
  let ?a = "map (share_of_texts (decs F)) ss" and ?x = "regressors n sp js"
  have a: "\<forall>s \<in> set ?a. length s = n" "map fsec ?a = map (sv (decs F)) ss" "length ?a = Suc (length js)"
    using q(1,2) by (simp_all add: params_read_def sv_def)
  note x = regressors_ok(2) [OF tbl, of sp]
  have f: "wpS E Q (predict_f ?a (?x row)) w" if "row \<in> set tbl" "wf_world P T J n sp w"
    "\<And>z w'. wf_world P T J n sp w' \<Longrightarrow> length z = n \<Longrightarrow> inner_error (map (sv (decs F)) ss) (map fsec (?x row)) (fsec z) \<Longrightarrow> Q z w'" for row w E Q
    by (rule wpS_predict_f [OF that(2)]) (use that x a(1,3) in \<open>simp_all only: a(2)\<close>, auto)
  have 1: "wpS (\<lambda>_. False) (\<lambda>zs w'. wf_world P T J n sp w' \<and> list_all2 (\<lambda>x z. length z = n \<and>
      inner_error (map (sv (decs F)) ss) (map fsec x) (fsec z)) (map ?x tbl) zs) (LinearRegression_predict F queries parse uuid tbl js) w"
    unfolding LinearRegression_predict_def wpS_bindS wpS_regression_inputs [OF w F(4) q(1) tbl] prod.case
    by (rule wpS_map_total [OF w]) (auto intro: f)
  have 2: "wpS (\<lambda>_. False) (\<lambda>zs w'. wf_world P T J n sp w' \<and> list_all2 (\<lambda>x z. length z = n \<and> (\<exists>s.
      inner_error (map (sv (decs F)) ss) (map fsec x) s \<and> sigmoid_near n s (fsec z))) (map ?x tbl) zs)
      (LogisticRegression_predict F e (Suc fuel) queries parse uuid tbl js) w"
    if r: "\<forall>row \<in> set tbl. \<bar>inner (map (sv (decs F)) ss) (map fsec (?x row))\<bar> \<le> 499 * shift * shift"
    unfolding LogisticRegression_predict_def wpS_bindS wpS_regression_inputs [OF w F(4) q(1) tbl] prod.case
  proof (rule wpS_map_total [OF w])
    fix x w assume "x \<in> set (map ?x tbl)" and w: "wf_world P T J n sp w"
    then obtain row where row: "row \<in> set tbl" "x = ?x row" by auto
    show "wpS (\<lambda>_. False) (\<lambda>z w'. wf_world P T J n sp w' \<and> length z = n \<and> (\<exists>s. inner_error (map (sv (decs F)) ss) (map fsec x) s \<and>
        sigmoid_near n s (fsec z))) (logistic_predict_f F e (Suc fuel) ?a x) w"
      unfolding logistic_predict_f_def wpS_bindS row(2)
    proof (rule f [OF row(1) w])
      fix lr w1 assume w1: "wf_world P T J n sp w1" and lr: "length lr = n" "inner_error (map (sv (decs F)) ss) (map fsec (?x row)) (fsec lr)"
      have "\<bar>fsec lr\<bar> \<le> 500 * shift"
        using lr(2) by (rule inner_in_range) (use r row(1) q(2,3) in simp_all)
      then show "wpS (\<lambda>_. False) (\<lambda>z w'. wf_world P T J n sp w' \<and> length z = n \<and> (\<exists>s. inner_error (map (sv (decs F)) ss) (map fsec (?x row)) s \<and>
          sigmoid_near n s (fsec z))) (open_sigmoid F e (Suc fuel) lr (fp_of_int 1)) w1"
        by (rule wpS_open_sigmoid [OF w1 F(1-3) lr(1)]) (use lr(2) in blast)
    qed
  qed
  show ?thesis
    using 1 2 unfolding wpS_total fpVal_recons list_all2_map1 by blast
qed

definition demo_tab :: "(string \<times> rat) list" where
  "demo_tab = [(''0'', 0), (''1'', 1), (''2'', 2), (''3'', 3)]"

definition demo_queries :: "(string \<Rightarrow> string res) list" where
  "demo_queries = [\<lambda>_. Inr ''a'', \<lambda>_. Inr ''b'']"

definition demo_parse :: "string \<Rightarrow> json res" where
  "demo_parse s = (if s = ''a'' then Inr (JArr [JObj [(''result'', JArr [JStr ''2'', JStr ''0''])]])
     else Inr (JArr [JObj [(''result'', JArr [JStr ''1'', JStr ''3''])]]))"

lemma demo_params: "params_read 2 demo_queries demo_parse u [[''2'', ''1''], [''0'', ''3'']]"
  by (simp add: params_read_def demo_queries_def readModelparam_def demo_parse_def first_result_def json_first_def json_member_def
      json_items_def json_string_def upt_rec)

lemma demo_text: "fp_of_string (decs (ref_boost_with demo_tab)) ''1'' = fp_of_int 1"
  "map (sv (decs (ref_boost_with demo_tab))) [[''2'', ''1''], [''0'', ''3'']] = [300000000, 300000000]"
  by (simp_all add: fp_of_string_with demo_tab_def fp_of_int_def sv_def share_of_texts_def fsec_def shift_eq dtrunc_def)

theorem regression_predict_correct_witness:
  "(\<exists>z w'. LinearRegression_predict (ref_boost_with demo_tab) demo_queries demo_parse ''m'' [[[FP 30000000, FP 20000000]]] [1] demo_world = Inr ([z], w') \<and>
      \<bar>fpVal (recons z) - 450000000\<bar> \<le> 2) \<and>
   (\<exists>z w'. LogisticRegression_predict (ref_boost_with demo_tab) ref_exp 1 demo_queries demo_parse ''m'' [[[FP 30000000, FP 20000000]]] [1] demo_world = Inr ([z], w'))"
proof -
  let ?tbl = "[[[FP 30000000, FP 20000000]]]"
  have one: "fsec (getConstantShare 2 0 (fp_of_int 1)) = shift"
    by (simp add: getConstantShare_def share_simps fp_of_int_def)
  have row: "fsec [FP 30000000, FP 20000000] = 50000000" by (simp add: fsec_def)
  have r: "map fsec (regressors 2 0 [1] [[FP 30000000, FP 20000000]]) = [100000000, 50000000]"
    by (simp add: regressors_def one row shift_eq)
  have a: "length [[''2'', ''1''], [''0'', ''3'']] = Suc (length [1 :: int])" "length [1 :: int] < 10 ^ 8" by simp_all
  have t: "\<forall>row \<in> set ?tbl. \<forall>j \<in> set [1 :: int]. 1 \<le> j \<and> j \<le> int (length row)" "\<forall>row \<in> set ?tbl. \<forall>s \<in> set row. length s = 2" by simp_all
  let ?R = "\<lambda>s. inner_error (map (sv (decs (ref_boost_with demo_tab))) [[''2'', ''1''], [''0'', ''3'']])
      (map fsec (regressors 2 0 [1] [[FP 30000000, FP 20000000]])) s"
  have "(\<exists>z w'. LinearRegression_predict (ref_boost_with demo_tab) demo_queries demo_parse ''m'' ?tbl [1] demo_world = Inr ([z], w') \<and>
      ?R (fpVal (recons z))) \<and>
    (\<exists>z w'. LogisticRegression_predict (ref_boost_with demo_tab) ref_exp (Suc 0) demo_queries demo_parse ''m'' ?tbl [1] demo_world = Inr ([z], w'))"
    using regression_predict_correct [OF wf_demo_world boost_ok_with exp_ok_ref _ demo_text(1) demo_params a t, where uuid = "''m''" and fuel = 0]
    unfolding demo_text(2) by (auto simp: list_all2_Cons1 r inner_def shift_eq)
  moreover have "\<bar>s - 450000000\<bar> \<le> 2" if "?R s" for s
  proof -
    have "\<bar>100000000 * s - 45000000000000000\<bar> \<le> 200000000"
      using that unfolding demo_text(2) r by (simp add: inner_error_def inner_def shift_eq)
    then show ?thesis unfolding abs_le_iff by linarith
  qed
  ultimately show ?thesis by auto
qed

subsection \<open>Decision trees\<close>

datatype 's dtree = Leaf 's | Split "'s list" 's "'s dtree" "'s dtree"

primrec height :: "'s dtree \<Rightarrow> nat" where
  "height (Leaf s) = 1"
| "height (Split bv th l r) = Suc (max (height l) (height r))"

text \<open>The document of a party for a tree whose shares are the parties' texts.\<close>

primrec tree_doc :: "nat \<Rightarrow> string list dtree \<Rightarrow> json" where
  "tree_doc p (Leaf s) = JObj [(''output'', JStr (s ! p))]"
| "tree_doc p (Split bv th l r) =
     JObj [(''feature_bitvector'', JArr (map (\<lambda>s. JStr (s ! p)) bv)), (''threshold'', JStr (th ! p)),
       (''left_child'', tree_doc p l), (''right_child'', tree_doc p r)]"

definition forest_doc :: "nat \<Rightarrow> (string list \<times> string list dtree) list \<Rightarrow> json" where
  "forest_doc p ts = JArr (map (\<lambda>(wt, t). JObj [(''weight'', JStr (wt ! p)), (''tree_structure'', tree_doc p t)]) ts)"

text \<open>
  The leaves a record can reach: the value of the selected features is known up to one unit in the last place per feature, and the comparison with
  the threshold is exact except for values less than 1000 units below it.
\<close>

inductive reaches :: "'d dec \<Rightarrow> int list \<Rightarrow> string list dtree \<Rightarrow> string list \<Rightarrow> bool" for D xs where
  leaf: "reaches D xs (Leaf s) s"
| left: "inner_error xs (map (sv D) bv) v \<Longrightarrow> v < sv D th \<Longrightarrow> reaches D xs l s \<Longrightarrow> reaches D xs (Split bv th l r) s"
| right: "inner_error xs (map (sv D) bv) v \<Longrightarrow> sv D th - 1000 < v \<Longrightarrow> reaches D xs r s \<Longrightarrow> reaches D xs (Split bv th l r) s"

inductive_simps reaches_Leaf [simp]: "reaches D xs (Leaf s) s'"
inductive_cases reaches_SplitE: "reaches D xs (Split bv th l r) s"

text \<open>Trees whose shares all parties hold and whose comparisons stay in the range of \<open>operator<\<close>.\<close>

primrec tree_ok :: "'d dec \<Rightarrow> nat \<Rightarrow> int list \<Rightarrow> string list dtree \<Rightarrow> bool" where
  "tree_ok D n xs (Leaf s) \<longleftrightarrow> length s = n"
| "tree_ok D n xs (Split bv th l r) \<longleftrightarrow> length bv = length xs \<and> (\<forall>s \<in> set bv. length s = n \<and> \<bar>sv D s\<bar> \<le> 10 ^ 25) \<and>
     length th = n \<and> fbound (10 ^ 53) (share_of_texts D th) \<and> \<bar>inner xs (map (sv D) bv) - shift * sv D th\<bar> \<le> 64999 * shift * shift \<and>
     tree_ok D n xs l \<and> tree_ok D n xs r"

lemma reaches_exact:
  assumes "tree_ok D n xs t"
  shows "\<exists>s. reaches D xs t s \<and> length s = n"
  using assms
proof (induction t)
  case (Split bv th l r)
  let ?v = "tdiv (inner xs (map (sv D) bv)) shift"
  have v: "inner_error xs (map (sv D) bv) ?v"
  proof (cases "xs = []")
    case False
    have "\<bar>shift * ?v - inner xs (map (sv D) bv)\<bar> \<le> 1 * shift"
      using tdiv_error [of shift "inner xs (map (sv D) bv)"] by (simp add: abs_minus_commute)
    also have "\<dots> \<le> int (length xs) * shift"
      using False by (intro mult_right_mono) (cases xs, simp_all)
    finally show ?thesis by (simp only: inner_error_def)
  qed (simp add: inner_error_def inner_def tdiv_def)
  from Split obtain s s' where s: "reaches D xs l s" "length s = n" "reaches D xs r s'" "length s' = n" by auto
  show ?case
  proof (cases "?v < sv D th")
    case True
    with v s show ?thesis using reaches.left by blast
  next
    case False
    then have "sv D th - 1000 < ?v" by simp
    with v s show ?thesis using reaches.right by blast
  qed
qed auto

lemma wpS_inner_bound:
  assumes "wf_world P T J n sp w" "n \<le> 100" "length xs = length ys" "\<forall>x \<in> set xs. length x = n \<and> \<bar>fsec x\<bar> \<le> 10 ^ 25"
    "\<forall>y \<in> set ys. length y = n \<and> \<bar>fsec y\<bar> \<le> 10 ^ 25"
    and post: "\<And>zs w'. wf_world P T J n sp w' \<Longrightarrow> w_ok w' = w_ok w \<Longrightarrow> length (sum_share n zs) = n \<Longrightarrow>
      fbound (int (length xs) * 10 ^ 51) (sum_share n zs) \<Longrightarrow> inner_error (map fsec xs) (map fsec ys) (fsec (sum_share n zs)) \<Longrightarrow> Q zs w'"
  shows "wpS E Q (fp_vec_mult xs ys) w"
proof (rule wpS_fp_vec_mult_ok [OF assms(1,3)])
  fix zs w' assume w': "wf_world P T J n sp w'" "w_ok w' = w_ok w" and zs: "length zs = length xs" "\<forall>i < length xs. mult_ok n (xs ! i) (ys ! i) (zs ! i)"
  note p = products_sum [OF zs(1) assms(3) zs(2) assms(2)]
  have ok: "shares_ok n (10 ^ 51) zs" using p(1) assms(4,5) by blast
  have "map2 (*) (map fsec xs) (map fsec ys) = map2 (\<lambda>x y. fsec x * fsec y) xs ys"
    by (simp add: zip_map_map comp_def case_prod_unfold)
  then have "inner_error (map fsec xs) (map fsec ys) (fsec (sum_share n zs))"
    using p(2) assms(4,5) unfolding inner_error_def inner_def fsec_sum_share [OF ok] by simp
  then show "Q zs w'"
    using w' fbound_sum_share [OF ok] length_sum_share [OF ok] zs(1) by (intro post) simp_all
qed (use assms in auto)

lemma json_strings_texts [simp]: "json_strings (JArr (map (\<lambda>s. JStr (f s)) ss)) = Inr (map f ss)"
  using json_strings_JStr [of "map f ss"] by (simp add: comp_def)

lemma bitvector_doc:
  assumes "0 < n" "\<forall>s \<in> set bv. length s = n"
  shows "bindE (mapE (\<lambda>j. bindE (json_at j ''feature_bitvector'') json_strings) (map (\<lambda>p. tree_doc p (Split bv th l r)) [0..<n])) (shares_of_texts D) =
    Inr (map (share_of_texts D) bv)"
proof -
  have "mapE (\<lambda>j. bindE (json_at j ''feature_bitvector'') json_strings) (map (\<lambda>p. tree_doc p (Split bv th l r)) [0..<n]) =
      Inr (map (\<lambda>p. map (\<lambda>s. s ! p) bv) [0..<n])"
    by (simp add: mapE_eq_Inr json_at_def)
  with shares_of_texts_ok [OF assms] show ?thesis by simp
qed

lemma child_doc:
  "mapE (\<lambda>j. json_at j (if b then ''left_child'' else ''right_child'')) (map (\<lambda>p. tree_doc p (Split bv th l r)) [0..<n]) =
    Inr (map (\<lambda>p. tree_doc p (if b then l else r)) [0..<n])"
  by (simp add: mapE_eq_Inr json_at_def)

lemma outputs_doc:
  assumes "0 < n"
  shows "list_all has_output (map (\<lambda>p. tree_doc p (Leaf s)) [0..<n])" "list_all has_output (map (\<lambda>p. tree_doc p (Split bv th l r)) [0..<n]) = False"
    "list_ex has_output (map (\<lambda>p. tree_doc p (Split bv th l r)) [0..<n]) = False"
proof -
  have "has_output (tree_doc p (Leaf s))" "\<not> has_output (tree_doc p (Split bv th l r))" for p
    by (simp_all add: has_output_def)
  with assms show "list_all has_output (map (\<lambda>p. tree_doc p (Leaf s)) [0..<n])" "list_all has_output (map (\<lambda>p. tree_doc p (Split bv th l r)) [0..<n]) = False"
    "list_ex has_output (map (\<lambda>p. tree_doc p (Split bv th l r)) [0..<n]) = False"
    by (auto simp: list_all_iff list_ex_iff simp del: tree_doc.simps intro!: bexI [of _ 0])
qed

lemma difference_in_range:
  assumes "inner_error xs bs v" "\<bar>inner xs bs - shift * th\<bar> \<le> 64999 * shift * shift" "length xs \<le> 100"
  shows "\<bar>v - th\<bar> \<le> 65000 * shift"
proof -
  have "int (length xs) \<le> 100" using assms(3) by simp
  then have "int (length xs) * shift \<le> 100 * shift" by (rule mult_right_mono) simp
  moreover have "\<bar>shift * v - shift * th\<bar> \<le> \<bar>shift * v - inner xs bs\<bar> + \<bar>inner xs bs - shift * th\<bar>" by simp
  ultimately have "\<bar>shift * v - shift * th\<bar> \<le> 100 * shift + 64999 * shift * shift"
    using assms(1,2) unfolding inner_error_def by linarith
  moreover have "\<bar>shift * v - shift * th\<bar> = shift * \<bar>v - th\<bar>"
    by (metis abs_mult abs_of_pos right_diff_distrib shift_pos(1))
  ultimately show ?thesis by (simp add: shift_eq)
qed

lemma wpS_classify:
  assumes "wf_world P T J n sp w" and F: "boost_ok F" "n \<le> 100" "enough P E fuel" and x: "\<forall>s \<in> set x. length s = n \<and> \<bar>fsec s\<bar> \<le> 10 ^ 25" "length x \<le> 100"
    and "tree_ok (decs F) n (map fsec x) t" "height t \<le> depth"
    and post: "\<And>s w'. wf_world P T J n sp w' \<Longrightarrow> length s = n \<Longrightarrow> reaches (decs F) (map fsec x) t s \<Longrightarrow> Q (share_of_texts (decs F) s) w'"
  shows "wpS E Q (classify F fuel depth (map (\<lambda>p. tree_doc p t) [0..<n]) x) w"
  using assms(1,7-)
proof (induction depth arbitrary: t w)
  case 0
  then show ?case by (cases t) simp_all
next
  case (Suc depth)
  have sp: "0 < n" using Suc.prems(1) by (auto simp: wf_world_def)
  show ?case
  proof (cases t)
    case (Leaf s)
    with Suc.prems(2) have l: "length s = n" by simp
    have "share_member (decs F) ''output'' (map (\<lambda>p. tree_doc p (Leaf s)) [0..<n]) = Inr (share_of_texts (decs F) s)"
      by (rule share_member_doc [OF _ l]) (simp add: json_at_def)
    then show ?thesis
      using Suc.prems(1,4) l by (simp only: Leaf classify.simps outputs_doc [OF sp] if_True wpS_liftS wpE_Inr reaches_Leaf)
  next
    case (Split bv th l r)
    note t = Suc.prems(2) [unfolded Split tree_ok.simps length_map]
    have bv: "\<forall>s \<in> set bv. length s = n" and bv': "\<forall>y \<in> set (map (share_of_texts (decs F)) bv). length y = n \<and> \<bar>fsec y\<bar> \<le> 10 ^ 25"
      using t by (auto simp: sv_def)
    have th: "share_member (decs F) ''threshold'' (map (\<lambda>p. tree_doc p (Split bv th l r)) [0..<n]) = Inr (share_of_texts (decs F) th)"
      by (rule share_member_doc) (use t in \<open>simp_all add: json_at_def\<close>)
    have sv: "map fsec (map (share_of_texts (decs F)) bv) = map (sv (decs F)) bv" by (simp add: sv_def)
    show ?thesis
      unfolding Split classify.simps outputs_doc [OF sp] if_False wpS_eta Let_def bitvector_doc [OF sp bv] wpE_Inr th child_doc
    proof (rule wpS_inner_bound [OF Suc.prems(1) F(2) _ x(1) bv'])
      fix zs w1 assume w1: "wf_world P T J n sp w1" and v: "length (sum_share n zs) = n" "fbound (int (length x) * 10 ^ 51) (sum_share n zs)"
        and "inner_error (map fsec x) (map fsec (map (share_of_texts (decs F)) bv)) (fsec (sum_share n zs))"
      then have e: "inner_error (map fsec x) (map (sv (decs F)) bv) (fsec (sum_share n zs))" by (simp only: sv)
      have np: "n_parties w1 = n" using w1 by (simp add: wf_world_def n_parties_def)
      have d: "\<bar>fsec (sum_share n zs) - fsec (share_of_texts (decs F) th)\<bar> \<le> 65000 * shift"
        by (rule difference_in_range [OF e]) (use t x(2) in \<open>simp_all add: sv_def\<close>)
      have b: "fbound (10 ^ 53) (sum_share n zs)"
        by (rule fbound_mono [OF v(2)]) (use x(2) in simp)
      show "wpS E (\<lambda>b. wpS E Q (classify F fuel depth (map (\<lambda>p. tree_doc p (if b then l else r)) [0..<n]) x))
          (share_less F fuel (sum_share (n_parties w1) zs) (share_of_texts (decs F) th)) w1"
        unfolding np
      proof (rule wpS_share_less [OF w1 F v(1) _ d b])
        fix b w2 assume w2: "wf_world P T J n sp w2" and b: "less_value (fsec (sum_share n zs) - fsec (share_of_texts (decs F) th)) b"
        show "wpS E Q (classify F fuel depth (map (\<lambda>p. tree_doc p (if b then l else r)) [0..<n]) x) w2"
        proof (rule Suc.IH [OF w2])
          fix s w' assume w': "wf_world P T J n sp w'" "length s = n" and s: "reaches (decs F) (map fsec x) (if b then l else r) s"
          have "reaches (decs F) (map fsec x) t s"
            using b s reaches.left [OF e] reaches.right [OF e] unfolding Split
            by (cases b) (auto simp: less_value_def sv_def not_le)
          with w' show "Q (share_of_texts (decs F) s) w'" by (rule Suc.prems(4))
        qed (use t Suc.prems(3) Split in \<open>auto split: if_splits\<close>)
      qed (use t in simp_all)
    qed (use t in simp)
  qed
qed

subsection \<open>Forests\<close>

definition tree_docs :: "nat \<Rightarrow> string list \<times> string list dtree \<Rightarrow> json list" where
  "tree_docs n wt = map (\<lambda>p. JObj [(''weight'', JStr (fst wt ! p)), (''tree_structure'', tree_doc p (snd wt))]) [0..<n]"

lemma trees_of_parties_ok:
  assumes "0 < n"
  shows "trees_of_parties (map (\<lambda>p. forest_doc p ts) [0..<n]) = Inr (map (tree_docs n) ts)"
proof -
  obtain m where n: "n = Suc m" using assms by (cases n) auto
  define c where "c p = map (\<lambda>(wt, t). JObj [(''weight'', JStr (wt ! p)), (''tree_structure'', tree_doc p t)]) ts" for p
  have i: "map json_items (map (\<lambda>p. forest_doc p ts) [0..<n]) = map c [0..<n]"
    by (simp add: forest_doc_def json_items_def c_def)
  have u: "map c [0..<n] = c 0 # map c [1..<n]"
    by (simp add: n upt_conv_Cons del: upt_Suc)
  have l: "length (c p) = length ts" for p by (simp add: c_def)
  have "map (\<lambda>i. map (\<lambda>q. q ! i) (map c [0..<n])) [0..<length ts] = map (tree_docs n) ts"
    by (rule nth_equalityI) (auto simp: c_def tree_docs_def case_prod_unfold)
  then show ?thesis
    unfolding trees_of_parties_def i unfolding u by (simp add: l image_iff del: upt_Suc)
qed

lemma wpS_weighted_trees:
  assumes "wf_world P T J n sp w" and F: "boost_ok F" "n \<le> 100" "enough P E fuel" and x: "\<forall>s \<in> set x. length s = n \<and> \<bar>fsec s\<bar> \<le> 10 ^ 25" "length x \<le> 100"
    and "\<forall>(wt, t) \<in> set ts. length wt = n \<and> height t \<le> depth \<and> tree_ok (decs F) n (map fsec x) t" "length acc = n"
    and post: "\<And>z w' leaves. wf_world P T J n sp w' \<Longrightarrow> length z = n \<Longrightarrow> list_all2 (\<lambda>(wt, t). reaches (decs F) (map fsec x) t) ts leaves \<Longrightarrow>
      \<bar>shift * (fsec z - fsec acc) - inner (map (sv (decs F) \<circ> fst) ts) (map (sv (decs F)) leaves)\<bar> \<le> int (length ts) * shift \<Longrightarrow> Q z w'"
  shows "wpS E Q (weighted_trees F fuel depth (map (tree_docs n) ts) x acc) w"
  using assms(1,7-)
proof (induction ts arbitrary: w acc Q)
  case Nil
  then show ?case by (simp add: inner_def)
next
  case (Cons a ts)
  obtain wt t where a: "a = (wt, t)" by fastforce
  have ok: "length wt = n" "height t \<le> depth" "tree_ok (decs F) n (map fsec x) t"
    using Cons.prems(2) a by auto
  have d: "share_member (decs F) ''weight'' (tree_docs n a) = Inr (share_of_texts (decs F) wt)"
    "mapE (\<lambda>j. json_at j ''tree_structure'') (tree_docs n a) = Inr (map (\<lambda>p. tree_doc p t) [0..<n])"
    unfolding tree_docs_def by (rule share_member_doc) (use ok in \<open>simp_all add: json_at_def mapE_eq_Inr a\<close>)
  show ?case
    unfolding list.map weighted_trees.simps wpS_eta d wpE_Inr
  proof (rule wpS_classify [OF Cons.prems(1) F x ok(3,2)])
    fix s w1 assume w1: "wf_world P T J n sp w1" and s: "length s = n" "reaches (decs F) (map fsec x) t s"
    show "wpS E (\<lambda>m. wpS E Q (weighted_trees F fuel depth (map (tree_docs n) ts) x (share_add acc m)))
        (fp_share_mult (share_of_texts (decs F) wt) (share_of_texts (decs F) s)) w1"
    proof (rule wpS_fp_share_mult [OF w1])
      fix m w2 assume w2: "wf_world P T J n sp w2" and m: "length m = n"
        "\<bar>shift * fsec m - fsec (share_of_texts (decs F) wt) * fsec (share_of_texts (decs F) s)\<bar> < shift"
      show "wpS E Q (weighted_trees F fuel depth (map (tree_docs n) ts) x (share_add acc m)) w2"
      proof (rule Cons.IH [OF w2])
        fix z w' leaves assume z: "wf_world P T J n sp w'" "length z = n" and l: "list_all2 (\<lambda>(wt, t). reaches (decs F) (map fsec x) t) ts leaves"
          and e: "\<bar>shift * (fsec z - fsec (share_add acc m)) - inner (map (sv (decs F) \<circ> fst) ts) (map (sv (decs F)) leaves)\<bar> \<le> int (length ts) * shift"
        have f: "fsec (share_add acc m) = fsec acc + fsec m" using Cons.prems(3) m(1) by (simp add: share_simps)
        let ?A = "shift * (fsec z - fsec (share_add acc m)) - inner (map (sv (decs F) \<circ> fst) ts) (map (sv (decs F)) leaves)"
          and ?B = "shift * fsec m - sv (decs F) wt * sv (decs F) s"
        have "shift * (fsec z - fsec acc) - inner (map (sv (decs F) \<circ> fst) (a # ts)) (map (sv (decs F)) (s # leaves)) = ?A + ?B"
          unfolding f by (simp add: a inner_def algebra_simps)
        also have "\<bar>\<dots>\<bar> \<le> int (length ts) * shift + shift"
          using e m(2) unfolding sv_def [symmetric] by (intro order_trans [OF abs_triangle_ineq] add_mono) simp_all
        also have "\<dots> = int (length (a # ts)) * shift" by (simp add: distrib_right)
        finally show "Q z w'"
          using l s(2) by (intro Cons.prems(4) [OF z, of "s # leaves"]) (simp_all add: a comp_def)
      qed (use Cons.prems(2,3) m(1) in simp_all)
    qed (use ok s in simp_all)
  qed
qed

lemma mapS_map: "mapS f (map g xs) s = mapS (\<lambda>x. f (g x)) xs s"
  by (induction xs arbitrary: s) (auto simp: case_prod_unfold intro!: bindE_cong)

definition selected :: "int list \<Rightarrow> fp list list \<Rightarrow> fp list list" where
  "selected js row = map (\<lambda>j. row ! nat (j - 1)) js"


definition demo_tree :: "string list dtree" where
  "demo_tree = Split [[''1'', ''0'']] [''2'', ''1''] (Leaf [''1'', ''1'']) (Leaf [''3'', ''0''])"

definition forest_queries :: "(string \<Rightarrow> string res) list" where
  "forest_queries = [\<lambda>_. Inr ''a'', \<lambda>_. Inr ''b'']"

definition forest_parse :: "string \<Rightarrow> json res" where
  "forest_parse s = Inr (JArr [JObj [(''result'', forest_doc (if s = ''a'' then 0 else 1) [([''1'', ''0''], demo_tree)])]])"

lemma demo_texts:
  "sv (decs (ref_boost_with demo_tab)) [''1'', ''0''] = 100000000" "sv (decs (ref_boost_with demo_tab)) [''2'', ''1''] = 300000000"
  "sv (decs (ref_boost_with demo_tab)) [''3'', ''0''] = 300000000" "share_of_texts (decs (ref_boost_with demo_tab)) [''2'', ''1''] = [FP 200000000, FP 100000000]"
  by (simp_all add: fp_of_string_with demo_tab_def sv_def share_of_texts_def fsec_def shift_eq dtrunc_def)

lemma demo_reaches:
  assumes "reaches (decs (ref_boost_with demo_tab)) [500000000] demo_tree s"
  shows "s = [''3'', ''0'']"
  using assms unfolding demo_tree_def
  by (auto elim!: reaches_SplitE simp: inner_error_def inner_def demo_texts shift_eq abs_le_iff)


end
