(* ===== verification/Mesh.thy ===== *)
theory Mesh
  imports FpDiv Columns
begin

section \<open>Mesh codes\<close>

text \<open>
  \<open>Job/Jobs/MeshCodeJob.hpp\<close>: latitudes and longitudes become the digits of a quarter grid square code, by ten floors of quotients. Every
  floor is exact only up to an error, which the following factors of 60 enlarge; \<open>mesh_margin\<close> says how far all quotients have to be
  from whole numbers.
\<close>

subsection \<open>The transformation\<close>

definition mesh_latitude ::
    "'d boost \<Rightarrow> nat \<Rightarrow> fp list list \<Rightarrow> (world, fp list list \<times> fp list list \<times> fp list list \<times> fp list list \<times> fp list list) comp" where
  "mesh_latitude F fuel latitude = (let D = decs F; num = fp_of_string D in
     bindS (getFloors F fuel (vec_scale (num ''1.5'') latitude)) (\<lambda>p.
     bindS (liftS (vec_sub (vec_scale (num ''60'') latitude) (vec_scale (num ''40'') p))) (\<lambda>a.
     bindS (getFloors F fuel (vec_fdiv D a (num ''5''))) (\<lambda>q.
     bindS (liftS (vec_sub a (vec_scale (num ''5'') q))) (\<lambda>b.
     bindS (getFloors F fuel (vec_scale (num ''2'') b)) (\<lambda>r.
     bindS (liftS (vec_sub (vec_scale (num ''60'') b) (vec_scale (num ''30'') r))) (\<lambda>c.
     bindS (getFloors F fuel (vec_fdiv D c (num ''15''))) (\<lambda>s.
     bindS (liftS (vec_sub c (vec_scale (num ''15'') s))) (\<lambda>d.
     bindS (getFloors F fuel (vec_fdiv D d (num ''7.5''))) (\<lambda>t.
     bindS (liftS (vec_sub d (vec_scale (num ''7.5'') t))) (\<lambda>e.
     retS (p, q, r, s, t))))))))))))"

definition mesh_longitude ::
    "'d boost \<Rightarrow> nat \<Rightarrow> fp list list \<Rightarrow> (world, fp list list \<times> fp list list \<times> fp list list \<times> fp list list \<times> fp list list) comp" where
  "mesh_longitude F fuel longitude = withW (\<lambda>wd. let D = decs F; num = fp_of_string D; l = vec_subc (w_sp wd) longitude (num ''100'') in
     bindS (getFloors F fuel l) (\<lambda>u.
     bindS (liftS (vec_sub l u)) (\<lambda>f.
     bindS (getFloors F fuel (vec_scale (num ''8'') f)) (\<lambda>v.
     bindS (liftS (vec_sub (vec_scale (num ''60'') f) (vec_scale (num ''7.5'') v))) (\<lambda>g.
     bindS (getFloors F fuel (vec_fdiv D (vec_scale (num ''60'') g) (num ''45''))) (\<lambda>w.
     bindS (liftS (vec_sub (vec_scale (num ''60'') g) (vec_scale (num ''45'') w))) (\<lambda>h.
     bindS (getFloors F fuel (vec_fdiv D h (num ''22.5''))) (\<lambda>x.
     bindS (liftS (vec_sub h (vec_scale (num ''22.5'') x))) (\<lambda>i.
     bindS (getFloors F fuel (vec_fdiv D i (num ''11.25''))) (\<lambda>y.
     bindS (liftS (vec_sub i (vec_scale (num ''11.25'') y))) (\<lambda>j.
     retS (u, v, w, x, y))))))))))))"

definition meshcode_transform :: "'d boost \<Rightarrow> nat \<Rightarrow> fp list list \<Rightarrow> fp list list \<Rightarrow> (world, fp list list list) comp" where
  "meshcode_transform F fuel latitude longitude =
     bindS (mesh_latitude F fuel latitude) (\<lambda>(p, q, r, s, t).
     bindS (mesh_longitude F fuel longitude) (\<lambda>(u, v, w, x, y). withW (\<lambda>wd. let num = fp_of_string (decs F) in
     bindS (liftS (vec_add (vec_scale (num ''2'') s) (vec_addc (w_sp wd) x (num ''1'')))) (\<lambda>m.
     bindS (liftS (vec_add (vec_scale (num ''2'') t) (vec_addc (w_sp wd) y (num ''1'')))) (\<lambda>n.
     retS (map (\<lambda>i. [p ! i, u ! i, q ! i, v ! i, r ! i, w ! i, m ! i, n ! i]) [0..<length latitude]))))))"

definition MeshCodeJob_compute :: "'d boost \<Rightarrow> nat \<Rightarrow> fp list list list \<Rightarrow> int list list \<Rightarrow> (world, fp list list list) comp" where
  "MeshCodeJob_compute F fuel tbl arg =
     bindS (liftS (bindE (nth_or_ub arg 0) (\<lambda>a0. mapE (\<lambda>index.
       bindE (nth_or_ub tbl 0) (\<lambda>r0. bindE (pick r0 index) (\<lambda>lat.
       bindE (nth_or_ub tbl 1) (\<lambda>r1. bindE (pick r1 index) (\<lambda>lon. Inr (lat, lon)))))) a0))) (\<lambda>ll.
     meshcode_transform F fuel (map fst ll) (map snd ll))"

subsection \<open>Approximate values\<close>

text \<open>\<open>app n e v z\<close>: \<open>z\<close> shares the real number \<open>v\<close> up to \<open>e\<close> units in the last place.\<close>

definition app :: "nat \<Rightarrow> real \<Rightarrow> real \<Rightarrow> fp list \<Rightarrow> bool" where
  "app n e v z \<longleftrightarrow> length z = n \<and> \<bar>of_int (fsec z) - of_int shift * v\<bar> \<le> e"

definition apps :: "nat \<Rightarrow> real \<Rightarrow> ('a \<Rightarrow> real) \<Rightarrow> 'a list \<Rightarrow> fp list list \<Rightarrow> bool" where
  "apps n e f xs zs \<longleftrightarrow> list_all2 (\<lambda>x z. app n e (f x) z) xs zs"

definition floor_error :: "nat \<Rightarrow> real" where
  "floor_error n = 502 * real n + 764"

lemma app_scale:
  assumes "app n e v z" "fpVal c = k" "of_int k = of_int shift * C" "0 \<le> C" "real n + C * e \<le> e'"
  shows "app n e' (C * v) (share_scale c z)"
proof -
  have z: "length z = n" "\<bar>of_int (fsec z) - of_int shift * v\<bar> \<le> e" using assms(1) by (simp_all add: app_def)
  have "real_of_int \<bar>shift * fsec (share_scale c z) - fpVal c * fsec z\<bar> \<le> real_of_int (shift * int (length z))"
    using fsec_scale_error [of c z] by (simp only: of_int_le_iff)
  then have "\<bar>of_int shift * of_int (fsec (share_scale c z)) - of_int shift * (C * of_int (fsec z))\<bar> \<le> of_int shift * real n"
    by (simp add: assms(2,3) z(1) mult.assoc)
  then have "of_int shift * \<bar>of_int (fsec (share_scale c z)) - C * of_int (fsec z)\<bar> \<le> of_int shift * real n"
    by (simp add: abs_mult flip: right_diff_distrib)
  then have 1: "\<bar>of_int (fsec (share_scale c z)) - C * of_int (fsec z)\<bar> \<le> real n"
    by (simp only: mult_le_cancel_left_pos of_int_0_less_iff shift_pos)
  have "\<bar>C * of_int (fsec z) - of_int shift * (C * v)\<bar> = C * \<bar>of_int (fsec z) - of_int shift * v\<bar>"
    using assms(4) by (simp add: abs_mult mult.left_commute flip: right_diff_distrib)
  also have "\<dots> \<le> C * e" using z(2) assms(4) by (rule mult_left_mono)
  finally show ?thesis
    using 1 assms(5) z(1) by (auto simp: app_def abs_le_iff)
qed

lemma app_sub: "app n e v z \<Longrightarrow> app n e' v' z' \<Longrightarrow> e + e' \<le> d \<Longrightarrow> app n d (v - v') (share_sub z z')"
  by (auto simp: app_def share_simps abs_le_iff algebra_simps)

lemma app_add: "app n e v z \<Longrightarrow> app n e' v' z' \<Longrightarrow> e + e' \<le> d \<Longrightarrow> app n d (v + v') (share_add z z')"
  by (auto simp: app_def share_simps abs_le_iff algebra_simps)

lemma app_addc: "app n e v z \<Longrightarrow> sp < n \<Longrightarrow> fpVal c = k \<Longrightarrow> of_int k = of_int shift * C \<Longrightarrow> app n e (v + C) (share_addc sp z c)"
  by (auto simp: app_def share_simps abs_le_iff algebra_simps)

lemma app_subc: "app n e v z \<Longrightarrow> sp < n \<Longrightarrow> fpVal c = k \<Longrightarrow> of_int k = of_int shift * C \<Longrightarrow> app n e (v - C) (share_addc sp z (- c))"
  by (auto simp: app_def share_simps abs_le_iff algebra_simps)

text \<open>A quotient by a public number between 1 and 100, of values up to 500.\<close>

lemma fdiv_constant:
  assumes "boost_ok F" "fpVal c = k" "shift \<le> k" "k \<le> 100 * shift"
  shows "\<bar>fpVal (fp_div (decs F) (fp_of_double 1) c) * k - shift * shift\<bar> \<le> k"
proof -
  let ?q = "fpVal (fp_div (decs F) (fp_of_double 1) c)"
  have one: "fpVal (fp_of_double 1) = shift"
    using fp_of_double_int [of 1] by (simp add: fp_of_int_def)
  have r: "\<bar>fpVal (fp_of_double 1)\<bar> < dec_range" "\<bar>fpVal c\<bar> < dec_range"
    by (rule less_1000, simp add: one shift_eq, rule less_1000, use assms(2-4) in \<open>simp add: shift_eq\<close>)
  have "fpVal c \<noteq> 0" using assms(2,3) by (auto simp: shift_eq)
  note b = boost_div [OF assms(1) this r]
  from b
  have "\<bar>?q * k - shift * shift\<bar> * 10 ^ 48 \<le> k * 10 ^ 48 + shift * shift"
    using assms(2,3) by (simp add: one shift_eq)
  then have "\<bar>?q * k - shift * shift\<bar> * 10 ^ 48 < (k + 1) * 10 ^ 48"
    by (simp add: shift_eq distrib_right)
  then show ?thesis by simp
qed

lemma app_fdiv:
  assumes "app n e v z" and F: "boost_ok F" and c: "fpVal c = k" "of_int k = of_int shift * C" "1 \<le> C" "C \<le> 100"
    and v: "\<bar>v\<bar> \<le> 500" "e \<le> 1000000000" and e': "real n + e / C + 510 \<le> e'"
  shows "app n e' (v / C) (share_scale (fp_div (decs F) (fp_of_double 1) c) z)"
proof -
  let ?q = "fpVal (fp_div (decs F) (fp_of_double 1) c)" and ?s = "real_of_int (fsec z)" and ?S = "real_of_int shift"
  have z: "length z = n" "\<bar>?s - ?S * v\<bar> \<le> e" using assms(1) by (simp_all add: app_def)
  have S: "?S = 100000000" by (simp add: shift_eq)
  have "real_of_int shift \<le> of_int k" "real_of_int k \<le> of_int (100 * shift)" using c by (simp_all add: S)
  then have "\<bar>?q * k - shift * shift\<bar> \<le> k" by (intro fdiv_constant [OF F c(1)]) (simp_all only: of_int_le_iff)
  then have "real_of_int \<bar>?q * k - shift * shift\<bar> \<le> of_int k" by (simp only: of_int_le_iff)
  then have "\<bar>?S * (of_int ?q * C - ?S)\<bar> \<le> ?S * C" by (simp add: c(2) algebra_simps)
  then have q: "\<bar>of_int ?q * C - ?S\<bar> \<le> C" by (simp add: abs_mult S)
  have "real_of_int \<bar>shift * fsec (share_scale (fp_div (decs F) (fp_of_double 1) c) z) - ?q * fsec z\<bar> \<le> real_of_int (shift * int (length z))"
    using fsec_scale_error [of "fp_div (decs F) (fp_of_double 1) c" z] by (simp only: of_int_le_iff)
  then have 1: "\<bar>?S * of_int (fsec (share_scale (fp_div (decs F) (fp_of_double 1) c) z)) - of_int ?q * ?s\<bar> \<le> ?S * real n"
    by (simp add: z(1))
  have s: "\<bar>?s\<bar> \<le> 510 * ?S"
  proof -
    have "\<bar>?S * v\<bar> \<le> ?S * 500" using v(1) by (simp add: abs_mult S)
    then show ?thesis using z(2) v(2) by (simp add: S abs_le_iff)
  qed
  have "(of_int ?q * ?s - ?S * (?S * (v / C))) * C = (of_int ?q * C - ?S) * ?s + ?S * (?s - ?S * v)"
    using c(3) by (simp add: field_simps)
  then have "\<bar>of_int ?q * ?s - ?S * (?S * (v / C))\<bar> * C = \<bar>(of_int ?q * C - ?S) * ?s + ?S * (?s - ?S * v)\<bar>"
    using c(3) by (metis abs_mult abs_of_nonneg order_trans zero_le_one)
  also have "\<dots> \<le> C * (510 * ?S) + ?S * e"
    using q s z(2) c(3) by (intro order_trans [OF abs_triangle_ineq] add_mono) (auto simp: abs_mult S intro!: mult_mono)
  also have "\<dots> = (?S * (510 + e / C)) * C" using c(3) by (simp add: field_simps)
  finally have 2: "\<bar>of_int ?q * ?s - ?S * (?S * (v / C))\<bar> \<le> ?S * (510 + e / C)" using c(3) by simp
  have "\<bar>?S * of_int (fsec (share_scale (fp_div (decs F) (fp_of_double 1) c) z)) - ?S * (?S * (v / C))\<bar> \<le> ?S * real n + ?S * (510 + e / C)"
    using 1 2 by linarith
  moreover have "?S * \<bar>A - B\<bar> = \<bar>?S * A - ?S * B\<bar>" for A B
    by (simp only: abs_mult right_diff_distrib [symmetric]) (simp add: S)
  ultimately have "?S * \<bar>of_int (fsec (share_scale (fp_div (decs F) (fp_of_double 1) c) z)) - ?S * (v / C)\<bar> \<le> ?S * (real n + e / C + 510)"
    by (simp add: distrib_left)
  then have "\<bar>of_int (fsec (share_scale (fp_div (decs F) (fp_of_double 1) c) z)) - ?S * (v / C)\<bar> \<le> real n + e / C + 510"
    by (simp only: mult_le_cancel_left_pos of_int_0_less_iff shift_pos)
  with e' z(1) show ?thesis by (simp add: app_def)
qed

text \<open>The fractional part of \<open>v\<close> keeps \<open>m\<close> units away from both ends.\<close>

definition clear :: "real \<Rightarrow> real \<Rightarrow> bool" where
  "clear m v \<longleftrightarrow> m \<le> of_int shift * (v - of_int \<lfloor>v\<rfloor>) \<and> of_int shift * (v - of_int \<lfloor>v\<rfloor>) + m \<le> of_int shift"

lemma app_floor:
  assumes a: "app n e v s" and "clear m v" "e + 1000 \<le> m" and z: "floor_of n s z" "n \<le> 100"
  shows "app n (floor_error n) (of_int \<lfloor>v\<rfloor>) z"
proof -
  define k where "k = \<lfloor>v\<rfloor>"
  have "\<bar>real_of_int (fsec s) - of_int shift * v\<bar> \<le> e" using a by (simp add: app_def)
  with assms(2,3) have "real_of_int (shift * k + 1000) \<le> of_int (fsec s)" "real_of_int (fsec s) \<le> of_int (shift * k + (shift - 1000))"
    by (auto simp: clear_def k_def abs_le_iff algebra_simps)
  then have b: "shift * k + 1000 \<le> fsec s" "fsec s \<le> shift * k + (shift - 1000)"
    by (simp_all only: of_int_le_iff)
  have d: "fsec s div shift = k" "fsec s mod shift \<le> shift - 1000"
  proof -
    have "fsec s = shift * k + (fsec s - shift * k)" "0 \<le> fsec s - shift * k" "fsec s - shift * k < shift" using b by simp_all
    then show "fsec s div shift = k" by (metis add_0_right div_mult_self4 div_pos_pos_trivial shift_pos(2) add.commute)
    then show "fsec s mod shift \<le> shift - 1000" using b(2) by (simp add: minus_div_mult_eq_mod [symmetric] mult.commute)
  qed
  from floor_of_value [OF z d(2)] have "real_of_int \<bar>fsec z - k * shift\<bar> \<le> real_of_int (502 * int n + 764)"
    unfolding d(1) by (simp only: of_int_le_iff)
  then have "\<bar>real_of_int (fsec z) - of_int shift * of_int k\<bar> \<le> floor_error n"
    by (simp add: floor_error_def mult.commute)
  with z(1) show ?thesis by (simp add: app_def k_def floor_of_def)
qed

subsection \<open>Vectors\<close>

lemma apps_scale:
  assumes "apps n e f xs zs" "fpVal c = k" "of_int k = of_int shift * C" "0 \<le> C" "real n + C * e \<le> e'"
  shows "apps n e' (\<lambda>x. C * f x) xs (vec_scale c zs)"
  using assms(1) unfolding apps_def vec_scale_def list_all2_map2
  by (rule list_all2_mono) (rule app_scale [OF _ assms(2-)])

lemma apps_fdiv:
  assumes "apps n e f xs zs" "boost_ok F" "fpVal c = k" "of_int k = of_int shift * C" "1 \<le> C" "C \<le> 100"
    "\<forall>x \<in> set xs. \<bar>f x\<bar> \<le> 500" "e \<le> 1000000000" "real n + e / C + 510 \<le> e'"
  shows "apps n e' (\<lambda>x. f x / C) xs (vec_fdiv (decs F) zs c)"
  using assms(1) unfolding apps_def vec_fdiv_def vec_scale_def list_all2_conv_all_nth
  by (auto intro!: app_fdiv [OF _ assms(2-6) _ assms(8,9)] assms(7) [rule_format])

lemma wpS_apps_sub:
  assumes "apps n e f xs as" "apps n e' g xs bs" "e + e' \<le> d"
    and post: "\<And>ds. apps n d (\<lambda>x. f x - g x) xs ds \<Longrightarrow> Q ds w"
  shows "wpS E Q (liftS (vec_sub as bs)) w"
proof -
  have "apps n d (\<lambda>x. f x - g x) xs (map2 share_sub as bs)"
    using assms(1,2) by (auto simp: apps_def list_all2_conv_all_nth intro!: app_sub [OF _ _ assms(3)])
  moreover have "length as = length bs" using assms(1,2) by (simp add: apps_def list_all2_lengthD [symmetric])
  ultimately show ?thesis by (simp add: vec_sub_def post)
qed

lemma wpS_apps_add:
  assumes "apps n e f xs as" "apps n e' g xs bs" "e + e' \<le> d"
    and post: "\<And>ds. apps n d (\<lambda>x. f x + g x) xs ds \<Longrightarrow> Q ds w"
  shows "wpS E Q (liftS (vec_add as bs)) w"
proof -
  have "apps n d (\<lambda>x. f x + g x) xs (map2 share_add as bs)"
    using assms(1,2) by (auto simp: apps_def list_all2_conv_all_nth intro!: app_add [OF _ _ assms(3)])
  moreover have "length as = length bs" using assms(1,2) by (simp add: apps_def list_all2_lengthD [symmetric])
  ultimately show ?thesis by (simp add: vec_add_def post)
qed

lemma wpS_apps_floor:
  assumes "wf_world P T J n sp w" "boost_ok F" "n \<le> 100" "enough P E fuel" and a: "apps n e f xs ss" "e + 1000 \<le> m" "e \<le> 1000000000"
    and f: "\<forall>x \<in> set xs. \<bar>f x\<bar> \<le> 600 \<and> clear m (f x)"
    and post: "\<And>zs w'. wf_world P T J n sp w' \<Longrightarrow> apps n (floor_error n) (\<lambda>x. of_int \<lfloor>f x\<rfloor>) xs zs \<Longrightarrow> Q zs w'"
  shows "wpS E Q (getFloors F fuel ss) w"
proof (rule wpS_getFloors [OF assms(1-4)])
  show "\<forall>s \<in> set ss. length s = n \<and> \<bar>fsec s\<bar> \<le> 65000 * shift"
  proof
    fix s assume "s \<in> set ss"
    then obtain x where x: "x \<in> set xs" "app n e (f x) s"
      using a(1) by (metis apps_def list_all2_conv_all_nth in_set_conv_nth)
    then have "\<bar>of_int shift * f x\<bar> \<le> of_int shift * 600" using f by (simp add: abs_mult shift_eq)
    then have "\<bar>real_of_int (fsec s)\<bar> \<le> of_int (65000 * shift)"
      using x(2) a(3) by (simp add: app_def shift_eq abs_le_iff)
    then have "\<bar>fsec s\<bar> \<le> 65000 * shift" by (simp only: of_int_le_iff flip: of_int_abs)
    with x(2) show "length s = n \<and> \<bar>fsec s\<bar> \<le> 65000 * shift" by (simp add: app_def)
  qed
  fix zs w' assume w': "wf_world P T J n sp w'" and z: "list_all2 (floor_of n) ss zs"
  have "apps n (floor_error n) (\<lambda>x. of_int \<lfloor>f x\<rfloor>) xs zs"
    using a(1) z f unfolding apps_def list_all2_conv_all_nth
    by (auto intro!: app_floor [OF _ _ a(2) _ assms(3)])
  with w' show "Q zs w'" by (rule post)
qed

text \<open>A floor and the rest left by a multiple of it.\<close>

lemma wpS_digit:
  assumes "wf_world P T J n sp w" "boost_ok F" "n \<le> 100" "enough P E fuel" and a: "apps n e f xs ss" "e + 1000 \<le> m" "e \<le> 1000000000"
    and f: "\<forall>x \<in> set xs. \<bar>f x\<bar> \<le> 600 \<and> clear m (f x)"
    and g: "apps n e1 g xs as" "fpVal c = k" "of_int k = of_int shift * C" "0 \<le> C" "e1 + (real n + C * floor_error n) \<le> d"
    and post: "\<And>z r w'. wf_world P T J n sp w' \<Longrightarrow> apps n (floor_error n) (\<lambda>x. of_int \<lfloor>f x\<rfloor>) xs z \<Longrightarrow>
      apps n d (\<lambda>x. g x - C * of_int \<lfloor>f x\<rfloor>) xs r \<Longrightarrow> wpS E Q (K z r) w'"
  shows "wpS E Q (bindS (getFloors F fuel ss) (\<lambda>z. bindS (liftS (vec_sub as (vec_scale c z))) (\<lambda>r. K z r))) w"
  unfolding wpS_bindS
proof (rule wpS_apps_floor [OF assms(1-4) a f])
  fix z w' assume w': "wf_world P T J n sp w'" and z: "apps n (floor_error n) (\<lambda>x. of_int \<lfloor>f x\<rfloor>) xs z"
  show "wpS E (\<lambda>r. wpS E Q (K z r)) (liftS (vec_sub as (vec_scale c z))) w'"
    by (rule wpS_apps_sub [OF g(1) apps_scale [OF z g(2-4) order_refl] g(5)]) (rule post [OF w' z])
qed

lemma wpS_digit0:
  assumes "wf_world P T J n sp w" "boost_ok F" "n \<le> 100" "enough P E fuel" and a: "apps n 0 f xs ss" "(0 :: real) + 1000 \<le> m" "(0 :: real) \<le> 1000000000"
    and f: "\<forall>x \<in> set xs. \<bar>f x\<bar> \<le> 600 \<and> clear m (f x)"
    and post: "\<And>z r w'. wf_world P T J n sp w' \<Longrightarrow> apps n (floor_error n) (\<lambda>x. of_int \<lfloor>f x\<rfloor>) xs z \<Longrightarrow>
      apps n (floor_error n) (\<lambda>x. f x - of_int \<lfloor>f x\<rfloor>) xs r \<Longrightarrow> wpS E Q (K z r) w'"
  shows "wpS E Q (bindS (getFloors F fuel ss) (\<lambda>z. bindS (liftS (vec_sub ss z)) (\<lambda>r. K z r))) w"
  unfolding wpS_bindS
proof (rule wpS_apps_floor [OF assms(1-4) a f])
  fix z w' assume w': "wf_world P T J n sp w'" and z: "apps n (floor_error n) (\<lambda>x. of_int \<lfloor>f x\<rfloor>) xs z"
  show "wpS E (\<lambda>r. wpS E Q (K z r)) (liftS (vec_sub ss z)) w'"
    by (rule wpS_apps_sub [OF a(1) z, where d = "floor_error n"]) (simp, rule post [OF w' z])
qed

subsection \<open>Exact digits\<close>

definition mesh_p :: "real \<Rightarrow> int" where "mesh_p x = \<lfloor>3 / 2 * x\<rfloor>"

definition mesh_a :: "real \<Rightarrow> real" where "mesh_a x = 60 * x - 40 * of_int (mesh_p x)"

definition mesh_q :: "real \<Rightarrow> int" where "mesh_q x = \<lfloor>mesh_a x / 5\<rfloor>"

definition mesh_b :: "real \<Rightarrow> real" where "mesh_b x = mesh_a x - 5 * of_int (mesh_q x)"

definition mesh_r :: "real \<Rightarrow> int" where "mesh_r x = \<lfloor>2 * mesh_b x\<rfloor>"

definition mesh_c :: "real \<Rightarrow> real" where "mesh_c x = 60 * mesh_b x - 30 * of_int (mesh_r x)"

definition mesh_s :: "real \<Rightarrow> int" where "mesh_s x = \<lfloor>mesh_c x / 15\<rfloor>"

definition mesh_d :: "real \<Rightarrow> real" where "mesh_d x = mesh_c x - 15 * of_int (mesh_s x)"

definition mesh_t :: "real \<Rightarrow> int" where "mesh_t x = \<lfloor>mesh_d x / (15 / 2)\<rfloor>"

definition lat_clear :: "real \<Rightarrow> real \<Rightarrow> bool" where
  "lat_clear m x \<longleftrightarrow> \<bar>x\<bar> \<le> 180 \<and> clear m (3 / 2 * x) \<and> clear m (mesh_a x / 5) \<and> clear m (2 * mesh_b x) \<and> clear m (mesh_c x / 15) \<and>
     clear m (mesh_d x / (15 / 2))"

definition mesh_u :: "real \<Rightarrow> int" where "mesh_u \<theta> = \<lfloor>\<theta> - 100\<rfloor>"

definition mesh_f :: "real \<Rightarrow> real" where "mesh_f \<theta> = \<theta> - 100 - of_int (mesh_u \<theta>)"

definition mesh_v :: "real \<Rightarrow> int" where "mesh_v \<theta> = \<lfloor>8 * mesh_f \<theta>\<rfloor>"

definition mesh_g :: "real \<Rightarrow> real" where "mesh_g \<theta> = 60 * mesh_f \<theta> - 15 / 2 * of_int (mesh_v \<theta>)"

definition mesh_w :: "real \<Rightarrow> int" where "mesh_w \<theta> = \<lfloor>60 * mesh_g \<theta> / 45\<rfloor>"

definition mesh_h :: "real \<Rightarrow> real" where "mesh_h \<theta> = 60 * mesh_g \<theta> - 45 * of_int (mesh_w \<theta>)"

definition mesh_x :: "real \<Rightarrow> int" where "mesh_x \<theta> = \<lfloor>mesh_h \<theta> / (45 / 2)\<rfloor>"

definition mesh_i :: "real \<Rightarrow> real" where "mesh_i \<theta> = mesh_h \<theta> - 45 / 2 * of_int (mesh_x \<theta>)"

definition mesh_y :: "real \<Rightarrow> int" where "mesh_y \<theta> = \<lfloor>mesh_i \<theta> / (45 / 4)\<rfloor>"

definition lon_clear :: "real \<Rightarrow> real \<Rightarrow> bool" where
  "lon_clear m \<theta> \<longleftrightarrow> \<bar>\<theta>\<bar> \<le> 180 \<and> clear m (\<theta> - 100) \<and> clear m (8 * mesh_f \<theta>) \<and> clear m (60 * mesh_g \<theta> / 45) \<and> clear m (mesh_h \<theta> / (45 / 2)) \<and>
     clear m (mesh_i \<theta> / (45 / 4))"

text \<open>Rests are between 0 and the divisor.\<close>

lemma fraction: "0 \<le> v - of_int \<lfloor>v\<rfloor>" "v - of_int \<lfloor>v\<rfloor> \<le> (1 :: real)"
  by linarith+

lemma rest_bounds:
  fixes c :: real
  assumes "0 < c"
  shows "0 \<le> v - c * of_int \<lfloor>v / c\<rfloor>" "v - c * of_int \<lfloor>v / c\<rfloor> \<le> c"
proof -
  have "v - c * of_int \<lfloor>v / c\<rfloor> = c * (v / c - of_int \<lfloor>v / c\<rfloor>)"
    using assms by (simp add: right_diff_distrib)
  then show "0 \<le> v - c * of_int \<lfloor>v / c\<rfloor>" "v - c * of_int \<lfloor>v / c\<rfloor> \<le> c"
    using assms fraction [of "v / c"] by (simp_all only: mult_nonneg_nonneg less_imp_le mult_left_le)
qed

lemma lat_bounds:
  "0 \<le> mesh_a \<phi>" "mesh_a \<phi> \<le> 40" "0 \<le> mesh_b \<phi>" "mesh_b \<phi> \<le> 5" "0 \<le> mesh_c \<phi>" "mesh_c \<phi> \<le> 30" "0 \<le> mesh_d \<phi>" "mesh_d \<phi> \<le> 15"
proof -
  show "0 \<le> mesh_a \<phi>" "mesh_a \<phi> \<le> 40"
    using fraction [of "3 / 2 * \<phi>"] unfolding mesh_a_def mesh_p_def by linarith+
  show "0 \<le> mesh_b \<phi>" "mesh_b \<phi> \<le> 5"
    using rest_bounds [of 5 "mesh_a \<phi>"] by (simp_all add: mesh_b_def mesh_q_def)
  show "0 \<le> mesh_c \<phi>" "mesh_c \<phi> \<le> 30"
    using fraction [of "2 * mesh_b \<phi>"] unfolding mesh_c_def mesh_r_def by linarith+
  show "0 \<le> mesh_d \<phi>" "mesh_d \<phi> \<le> 15"
    using rest_bounds [of 15 "mesh_c \<phi>"] by (simp_all add: mesh_d_def mesh_s_def)
qed

lemma lon_bounds:
  "0 \<le> mesh_f \<theta>" "mesh_f \<theta> \<le> 1" "0 \<le> mesh_g \<theta>" "mesh_g \<theta> \<le> 15 / 2" "0 \<le> mesh_h \<theta>" "mesh_h \<theta> \<le> 45" "0 \<le> mesh_i \<theta>" "mesh_i \<theta> \<le> 45 / 2"
proof -
  show "0 \<le> mesh_f \<theta>" "mesh_f \<theta> \<le> 1"
    using fraction [of "\<theta> - 100"] unfolding mesh_f_def mesh_u_def by linarith+
  show "0 \<le> mesh_g \<theta>" "mesh_g \<theta> \<le> 15 / 2"
    using fraction [of "8 * mesh_f \<theta>"] unfolding mesh_g_def mesh_v_def by linarith+
  show "0 \<le> mesh_h \<theta>" "mesh_h \<theta> \<le> 45"
    using rest_bounds [of 45 "60 * mesh_g \<theta>"] unfolding mesh_h_def mesh_w_def by simp_all
  show "0 \<le> mesh_i \<theta>" "mesh_i \<theta> \<le> 45 / 2"
    using rest_bounds [of "45 / 2" "mesh_h \<theta>"] unfolding mesh_i_def mesh_x_def by simp_all
qed

subsection \<open>The digits of shared coordinates\<close>

definition mesh_numbers :: "'d dec \<Rightarrow> bool" where
  "mesh_numbers D \<longleftrightarrow> (\<forall>(s, k) \<in> set [(''1.5'', 150000000), (''60'', 6000000000), (''40'', 4000000000), (''5'', 500000000), (''2'', 200000000),
     (''30'', 3000000000), (''15'', 1500000000), (''7.5'', 750000000), (''100'', 10000000000), (''8'', 800000000), (''45'', 4500000000),
     (''22.5'', 2250000000), (''11.25'', 1125000000), (''1'', 100000000)]. fp_of_string D s = FP k)"

definition mesh_margin :: "nat \<Rightarrow> real" where
  "mesh_margin n = 400 * floor_error n"

lemma floor_error_bounds:
  assumes "0 < n" "n \<le> 100"
  shows "502 * real n \<le> floor_error n" "1266 \<le> floor_error n" "floor_error n \<le> 51000"
  using assms by (simp_all add: floor_error_def Suc_le_eq [symmetric])

lemma lat_clearD:
  assumes "lat_clear m \<phi>"
  shows "\<bar>3 / 2 * \<phi>\<bar> \<le> 600 \<and> clear m (3 / 2 * \<phi>)" "\<bar>mesh_a \<phi> / 5\<bar> \<le> 600 \<and> clear m (mesh_a \<phi> / 5)"
    "\<bar>2 * mesh_b \<phi>\<bar> \<le> 600 \<and> clear m (2 * mesh_b \<phi>)" "\<bar>mesh_c \<phi> / 15\<bar> \<le> 600 \<and> clear m (mesh_c \<phi> / 15)"
    "\<bar>mesh_d \<phi> / (15 / 2)\<bar> \<le> 600 \<and> clear m (mesh_d \<phi> / (15 / 2))"
  using assms lat_bounds [of \<phi>] by (auto simp: lat_clear_def abs_le_iff)

lemma lon_clearD:
  assumes "lon_clear m \<theta>"
  shows "\<bar>\<theta> - 100\<bar> \<le> 600 \<and> clear m (\<theta> - 100)" "\<bar>8 * mesh_f \<theta>\<bar> \<le> 600 \<and> clear m (8 * mesh_f \<theta>)"
    "\<bar>60 * mesh_g \<theta> / 45\<bar> \<le> 600 \<and> clear m (60 * mesh_g \<theta> / 45)" "\<bar>mesh_h \<theta> / (45 / 2)\<bar> \<le> 600 \<and> clear m (mesh_h \<theta> / (45 / 2))"
    "\<bar>mesh_i \<theta> / (45 / 4)\<bar> \<le> 600 \<and> clear m (mesh_i \<theta> / (45 / 4))"
  using assms lon_bounds [of \<theta>] by (auto simp: lon_clear_def abs_le_iff)

text \<open>The numbers the code writes as strings, and their values.\<close>

lemma mesh_numbersD:
  assumes "mesh_numbers D"
  shows "fpVal (fp_of_string D ''1.5'') = 150000000" "fpVal (fp_of_string D ''60'') = 6000000000" "fpVal (fp_of_string D ''40'') = 4000000000"
    "fpVal (fp_of_string D ''5'') = 500000000" "fpVal (fp_of_string D ''2'') = 200000000" "fpVal (fp_of_string D ''30'') = 3000000000"
    "fpVal (fp_of_string D ''15'') = 1500000000" "fpVal (fp_of_string D ''7.5'') = 750000000" "fpVal (fp_of_string D ''100'') = 10000000000"
    "fpVal (fp_of_string D ''8'') = 800000000" "fpVal (fp_of_string D ''45'') = 4500000000" "fpVal (fp_of_string D ''22.5'') = 2250000000"
    "fpVal (fp_of_string D ''11.25'') = 1125000000" "fpVal (fp_of_string D ''1'') = 100000000"
  using assms by (simp_all add: mesh_numbers_def)

lemma mesh_values:
  "of_int 150000000 = real_of_int shift * (3 / 2)" "of_int 6000000000 = real_of_int shift * 60" "of_int 4000000000 = real_of_int shift * 40"
  "of_int 500000000 = real_of_int shift * 5" "of_int 200000000 = real_of_int shift * 2" "of_int 3000000000 = real_of_int shift * 30"
  "of_int 1500000000 = real_of_int shift * 15" "of_int 750000000 = real_of_int shift * (15 / 2)" "of_int 10000000000 = real_of_int shift * 100"
  "of_int 800000000 = real_of_int shift * 8" "of_int 4500000000 = real_of_int shift * 45" "of_int 2250000000 = real_of_int shift * (45 / 2)"
  "of_int 1125000000 = real_of_int shift * (45 / 4)" "of_int 100000000 = real_of_int shift * 1"
  by (simp_all add: shift_eq)

lemma wpS_mesh_latitude:
  assumes w: "wf_world P T J n sp w" and F: "boost_ok F" "n \<le> 100" "enough P E fuel" and c: "mesh_numbers (decs F)"
    and l: "apps n 0 (\<lambda>\<phi>. \<phi>) \<phi>s latitude" and m: "\<forall>\<phi> \<in> set \<phi>s. lat_clear (mesh_margin n) \<phi>"
    and post: "\<And>p q r s t w'. wf_world P T J n sp w' \<Longrightarrow> apps n (floor_error n) (\<lambda>\<phi>. of_int (mesh_p \<phi>)) \<phi>s p \<Longrightarrow>
      apps n (floor_error n) (\<lambda>\<phi>. of_int (mesh_q \<phi>)) \<phi>s q \<Longrightarrow> apps n (floor_error n) (\<lambda>\<phi>. of_int (mesh_r \<phi>)) \<phi>s r \<Longrightarrow>
      apps n (floor_error n) (\<lambda>\<phi>. of_int (mesh_s \<phi>)) \<phi>s s \<Longrightarrow> apps n (floor_error n) (\<lambda>\<phi>. of_int (mesh_t \<phi>)) \<phi>s t \<Longrightarrow> Q (p, q, r, s, t) w'"
  shows "wpS E Q (mesh_latitude F fuel latitude) w"
proof -
  let ?E = "floor_error n" and ?D = "decs F"
  have n: "0 < n" using w by (auto simp: wf_world_def)
  note E = floor_error_bounds [OF n F(2)]
  note k = mesh_numbersD [OF c] and C = mesh_values
  have b: "\<forall>\<phi> \<in> set \<phi>s. \<bar>3 / 2 * \<phi>\<bar> \<le> 600 \<and> clear (mesh_margin n) (3 / 2 * \<phi>)"
    "\<forall>\<phi> \<in> set \<phi>s. \<bar>mesh_a \<phi> / 5\<bar> \<le> 600 \<and> clear (mesh_margin n) (mesh_a \<phi> / 5)"
    "\<forall>\<phi> \<in> set \<phi>s. \<bar>2 * mesh_b \<phi>\<bar> \<le> 600 \<and> clear (mesh_margin n) (2 * mesh_b \<phi>)"
    "\<forall>\<phi> \<in> set \<phi>s. \<bar>mesh_c \<phi> / 15\<bar> \<le> 600 \<and> clear (mesh_margin n) (mesh_c \<phi> / 15)"
    "\<forall>\<phi> \<in> set \<phi>s. \<bar>mesh_d \<phi> / (15 / 2)\<bar> \<le> 600 \<and> clear (mesh_margin n) (mesh_d \<phi> / (15 / 2))"
    using m lat_clearD by blast+
  have r: "\<bar>mesh_a \<phi>\<bar> \<le> 500" "\<bar>mesh_c \<phi>\<bar> \<le> 500" "\<bar>mesh_d \<phi>\<bar> \<le> 500" for \<phi>
    using lat_bounds [of \<phi>] by (simp_all add: abs_of_nonneg)
  define ea where "ea = 2 * real n + 40 * ?E"
  define eb where "eb = ea + (real n + 5 * ?E)"
  define ec where "ec = 2 * real n + 60 * eb + 30 * ?E"
  define ed where "ed = ec + (real n + 15 * ?E)"
  have e: "ea \<le> 41 * ?E" "eb \<le> 46 * ?E" "ec \<le> 2731 * ?E" "ed \<le> 2746 * ?E" "400 * ?E \<le> mesh_margin n"
    using E unfolding ea_def eb_def ec_def ed_def mesh_margin_def by (simp_all add: distrib_left)
  have ed: "ed / (15 / 2) \<le> 367 * ?E" using e(4) E by simp
  have s: "apps n (real n) (\<lambda>x. 3 / 2 * x) \<phi>s (vec_scale (fp_of_string ?D ''1.5'') latitude)"
    "apps n (real n) (\<lambda>x. 60 * x) \<phi>s (vec_scale (fp_of_string ?D ''60'') latitude)"
    by (rule apps_scale [OF l k(1) C(1)], simp_all) (rule apps_scale [OF l k(2) C(2)], simp_all)
  show ?thesis
    unfolding mesh_latitude_def Let_def
    apply (rule wpS_digit [OF w F s(1) _ _ b(1) s(2) k(3) C(3), where d = ea]; (use E e in \<open>simp add: ea_def eb_def ec_def ed_def; fail\<close> | use E e ed in linarith)?)
    subgoal premises 1 for p a w1
    proof -
      have a: "apps n ea mesh_a \<phi>s a" using 1(3) by (simp add: mesh_a_def [abs_def] mesh_p_def)
      have "apps n (real n + ea / 5 + 510) (\<lambda>x. mesh_a x / 5) \<phi>s (vec_fdiv ?D a (fp_of_string ?D ''5''))"
        by (rule apps_fdiv [OF a F(1) k(4) C(4)]) (use E e r in \<open>simp_all\<close>)
      note q = wpS_digit [OF 1(1) F this _ _ b(2) a k(4) C(4), where d = eb]
      show ?thesis
        apply (rule q; (use E e in \<open>simp add: ea_def eb_def ec_def ed_def; fail\<close> | use E e ed in linarith)?)
        subgoal premises 2 for q b w2
        proof -
          have b': "apps n eb mesh_b \<phi>s b" using 2(3) by (simp add: mesh_b_def [abs_def] mesh_q_def)
          have "apps n (real n + 2 * eb) (\<lambda>x. 2 * mesh_b x) \<phi>s (vec_scale (fp_of_string ?D ''2'') b)"
            "apps n (real n + 60 * eb) (\<lambda>x. 60 * mesh_b x) \<phi>s (vec_scale (fp_of_string ?D ''60'') b)"
            by (rule apps_scale [OF b' k(5) C(5)], simp_all) (rule apps_scale [OF b' k(2) C(2)], simp_all)
          note r1 = wpS_digit [OF 2(1) F this(1) _ _ b(3) this(2) k(6) C(6), where d = ec]
          show ?thesis
            apply (rule r1; (use E e in \<open>simp add: ea_def eb_def ec_def ed_def; fail\<close> | use E e ed in linarith)?)
            subgoal premises 3 for r' c' w3
            proof -
              have c': "apps n ec mesh_c \<phi>s c'" using 3(3) by (simp add: mesh_c_def [abs_def] mesh_r_def)
              have "apps n (real n + ec / 15 + 510) (\<lambda>x. mesh_c x / 15) \<phi>s (vec_fdiv ?D c' (fp_of_string ?D ''15''))"
                by (rule apps_fdiv [OF c' F(1) k(7) C(7)]) (use E e r in \<open>simp_all\<close>)
              note s1 = wpS_digit [OF 3(1) F this _ _ b(4) c' k(7) C(7), where d = ed]
              show ?thesis
                apply (rule s1; (use E e in \<open>simp add: ea_def eb_def ec_def ed_def; fail\<close> | use E e ed in linarith)?)
                subgoal premises 4 for s' d w4
                proof -
                  have d: "apps n ed mesh_d \<phi>s d" using 4(3) by (simp add: mesh_d_def [abs_def] mesh_s_def)
                  have "apps n (real n + ed / (15 / 2) + 510) (\<lambda>x. mesh_d x / (15 / 2)) \<phi>s (vec_fdiv ?D d (fp_of_string ?D ''7.5''))"
                    by (rule apps_fdiv [OF d F(1) k(8) C(8)]) (use E e r in \<open>simp_all\<close>)
                  note t1 = wpS_digit [OF 4(1) F this _ _ b(5) d k(8) C(8) _ order_refl]
                  show ?thesis
                    apply (rule t1; (use E e ed in linarith)?)
                    subgoal premises 5
                      using post [OF 5(1)] 1(2) 2(2) 3(2) 4(2) 5(2) by (simp add: mesh_p_def mesh_q_def mesh_r_def mesh_s_def mesh_t_def)
                    done
                qed
                done
            qed
            done
        qed
        done
    qed
    done
qed

lemma wpS_mesh_longitude:
  assumes w: "wf_world P T J n sp w" and F: "boost_ok F" "n \<le> 100" "enough P E fuel" and c: "mesh_numbers (decs F)"
    and l: "apps n 0 (\<lambda>\<theta>. \<theta>) \<theta>s longitude" and m: "\<forall>\<theta> \<in> set \<theta>s. lon_clear (mesh_margin n) \<theta>"
    and post: "\<And>u v z x y w'. wf_world P T J n sp w' \<Longrightarrow> apps n (floor_error n) (\<lambda>\<theta>. of_int (mesh_u \<theta>)) \<theta>s u \<Longrightarrow>
      apps n (floor_error n) (\<lambda>\<theta>. of_int (mesh_v \<theta>)) \<theta>s v \<Longrightarrow> apps n (floor_error n) (\<lambda>\<theta>. of_int (mesh_w \<theta>)) \<theta>s z \<Longrightarrow>
      apps n (floor_error n) (\<lambda>\<theta>. of_int (mesh_x \<theta>)) \<theta>s x \<Longrightarrow> apps n (floor_error n) (\<lambda>\<theta>. of_int (mesh_y \<theta>)) \<theta>s y \<Longrightarrow> Q (u, v, z, x, y) w'"
  shows "wpS E Q (mesh_longitude F fuel longitude) w"
proof -
  let ?E = "floor_error n" and ?D = "decs F"
  have n: "0 < n" "w_sp w = sp" "sp < n" using w by (auto simp: wf_world_def)
  note E = floor_error_bounds [OF n(1) F(2)]
  note k = mesh_numbersD [OF c] and C = mesh_values
  have b: "\<forall>\<theta> \<in> set \<theta>s. \<bar>\<theta> - 100\<bar> \<le> 600 \<and> clear (mesh_margin n) (\<theta> - 100)"
    "\<forall>\<theta> \<in> set \<theta>s. \<bar>8 * mesh_f \<theta>\<bar> \<le> 600 \<and> clear (mesh_margin n) (8 * mesh_f \<theta>)"
    "\<forall>\<theta> \<in> set \<theta>s. \<bar>60 * mesh_g \<theta> / 45\<bar> \<le> 600 \<and> clear (mesh_margin n) (60 * mesh_g \<theta> / 45)"
    "\<forall>\<theta> \<in> set \<theta>s. \<bar>mesh_h \<theta> / (45 / 2)\<bar> \<le> 600 \<and> clear (mesh_margin n) (mesh_h \<theta> / (45 / 2))"
    "\<forall>\<theta> \<in> set \<theta>s. \<bar>mesh_i \<theta> / (45 / 4)\<bar> \<le> 600 \<and> clear (mesh_margin n) (mesh_i \<theta> / (45 / 4))"
    using m lon_clearD by blast+
  have r: "\<bar>60 * mesh_g \<theta>\<bar> \<le> 500" "\<bar>mesh_h \<theta>\<bar> \<le> 500" "\<bar>mesh_i \<theta>\<bar> \<le> 500" for \<theta>
    using lon_bounds [of \<theta>] by (simp_all add: abs_of_nonneg)
  define eg where "eg = 2 * real n + 60 * ?E + 15 / 2 * ?E"
  define eh where "eh = 2 * real n + 60 * eg + 45 * ?E"
  define ei where "ei = eh + (real n + 45 / 2 * ?E)"
  have e: "eg \<le> 68 * ?E" "eh \<le> 4126 * ?E" "ei \<le> 4150 * ?E" "400 * ?E \<le> mesh_margin n" "0 \<le> eg"
    using E unfolding eg_def eh_def ei_def mesh_margin_def by (simp_all add: distrib_left)
  have d: "eh / (45 / 2) \<le> 184 * ?E" "ei / (45 / 4) \<le> 369 * ?E" "eg / 45 \<le> 2 * ?E" using e E by simp_all
  have l': "apps n 0 (\<lambda>x. x - 100) \<theta>s (vec_subc sp longitude (fp_of_string ?D ''100''))"
    using l n(3) unfolding apps_def vec_subc_def vec_addc_def list_all2_map2 by (auto elim!: list_all2_mono intro: app_subc [OF _ _ k(9) C(9)])
  show ?thesis
    unfolding mesh_longitude_def Let_def wpS_withW n(2)
    apply (rule wpS_digit0 [OF w F l' _ _ b(1)]; (use E e in linarith)?)
    subgoal premises 1 for u f w1
    proof -
      have f: "apps n ?E mesh_f \<theta>s f" using 1(3) by (simp add: mesh_f_def [abs_def] mesh_u_def)
      have "apps n (real n + 8 * ?E) (\<lambda>x. 8 * mesh_f x) \<theta>s (vec_scale (fp_of_string ?D ''8'') f)"
        "apps n (real n + 60 * ?E) (\<lambda>x. 60 * mesh_f x) \<theta>s (vec_scale (fp_of_string ?D ''60'') f)"
        by (rule apps_scale [OF f k(10) C(10)], simp_all) (rule apps_scale [OF f k(2) C(2)], simp_all)
      note v = wpS_digit [OF 1(1) F this(1) _ _ b(2) this(2) k(8) C(8), where d = eg]
      show ?thesis
        apply (rule v; (use E e in \<open>simp add: eg_def; fail\<close> | use E e in linarith)?)
        subgoal premises 2 for v g w2
        proof -
          have g: "apps n eg mesh_g \<theta>s g" using 2(3) by (simp add: mesh_g_def [abs_def] mesh_v_def)
          have g60: "apps n (real n + 60 * eg) (\<lambda>x. 60 * mesh_g x) \<theta>s (vec_scale (fp_of_string ?D ''60'') g)"
            by (rule apps_scale [OF g k(2) C(2)], simp_all)
          have "apps n (510 + 2 * real n + 3 * eg) (\<lambda>x. 60 * mesh_g x / 45) \<theta>s (vec_fdiv ?D (vec_scale (fp_of_string ?D ''60'') g) (fp_of_string ?D ''45''))"
            by (rule apps_fdiv [OF g60 F(1) k(11) C(11)]) (use E e r in \<open>simp_all\<close>)
          note z = wpS_digit [OF 2(1) F this _ _ b(3) g60 k(11) C(11), where d = eh]
          show ?thesis
            apply (rule z; (use E e in \<open>simp add: eh_def; fail\<close> | use E e in linarith)?)
            subgoal premises 3 for z h w3
            proof -
              have h: "apps n eh mesh_h \<theta>s h" using 3(3) by (simp add: mesh_h_def [abs_def] mesh_w_def)
              have "apps n (real n + eh / (45 / 2) + 510) (\<lambda>x. mesh_h x / (45 / 2)) \<theta>s (vec_fdiv ?D h (fp_of_string ?D ''22.5''))"
                by (rule apps_fdiv [OF h F(1) k(12) C(12)]) (use E e r in \<open>simp_all\<close>)
              note x = wpS_digit [OF 3(1) F this _ _ b(4) h k(12) C(12), where d = ei]
              show ?thesis
                apply (rule x; (use E e in \<open>simp add: ei_def; fail\<close> | use E e d in linarith)?)
                subgoal premises 4 for x i w4
                proof -
                  have i: "apps n ei mesh_i \<theta>s i" using 4(3) by (simp add: mesh_i_def [abs_def] mesh_x_def)
                  have "apps n (real n + ei / (45 / 4) + 510) (\<lambda>x. mesh_i x / (45 / 4)) \<theta>s (vec_fdiv ?D i (fp_of_string ?D ''11.25''))"
                    by (rule apps_fdiv [OF i F(1) k(13) C(13)]) (use E e r in \<open>simp_all\<close>)
                  note y = wpS_digit [OF 4(1) F this _ _ b(5) i k(13) C(13) _ order_refl]
                  show ?thesis
                    apply (rule y; (use E e d in linarith)?)
                    subgoal premises 5
                      using post [OF 5(1)] 1(2) 2(2) 3(2) 4(2) 5(2) by (simp add: mesh_u_def mesh_v_def mesh_w_def mesh_x_def mesh_y_def)
                    done
                qed
                done
            qed
            done
        qed
        done
    qed
    done
qed

subsection \<open>Codes\<close>

definition mesh_code :: "real \<Rightarrow> real \<Rightarrow> int list" where
  "mesh_code \<phi> \<theta> = [mesh_p \<phi>, mesh_u \<theta>, mesh_q \<phi>, mesh_v \<theta>, mesh_r \<phi>, mesh_w \<theta>, 2 * mesh_s \<phi> + mesh_x \<theta> + 1, 2 * mesh_t \<phi> + mesh_y \<theta> + 1]"

text \<open>A list of shares holds the numbers \<open>ks\<close>, each up to \<open>e\<close> units.\<close>

definition codes :: "nat \<Rightarrow> real \<Rightarrow> int list \<Rightarrow> fp list list \<Rightarrow> bool" where
  "codes n e ks zs \<longleftrightarrow> list_all2 (\<lambda>k z. length z = n \<and> \<bar>of_int (fpVal (recons z)) - of_int (shift * k)\<bar> \<le> e) ks zs"

lemma app_weaken: "app n e v z \<Longrightarrow> e \<le> e' \<Longrightarrow> app n e' v z"
  by (simp add: app_def)

lemma apps_nth: "apps n e f xs zs \<Longrightarrow> i < length xs \<Longrightarrow> app n e (f (xs ! i)) (zs ! i)"
  by (simp add: apps_def list_all2_conv_all_nth)

lemma apps_fst: "apps n e f (map g xs) zs \<longleftrightarrow> apps n e (\<lambda>x. f (g x)) xs zs"
  by (simp add: apps_def list_all2_map1)

lemma apps_addc:
  assumes "apps n e f xs zs" "sp < n" "fpVal c = k" "of_int k = of_int shift * C"
  shows "apps n e (\<lambda>x. f x + C) xs (vec_addc sp zs c)"
  using assms(1) unfolding apps_def vec_addc_def list_all2_map2 by (auto elim!: list_all2_mono intro: app_addc [OF _ assms(2-)])

lemma app_code:
  "app n e v z \<Longrightarrow> v = of_int k \<Longrightarrow> e \<le> e' \<Longrightarrow> length z = n \<and> \<bar>of_int (fpVal (recons z)) - of_int (shift * k)\<bar> \<le> e'"
  by (simp add: app_def fpVal_recons)

lemma codes_row:
  assumes "apps n e (\<lambda>x. of_int (mesh_p (fst x))) cs p" "apps n e (\<lambda>x. of_int (mesh_q (fst x))) cs q" "apps n e (\<lambda>x. of_int (mesh_r (fst x))) cs r"
    "apps n e (\<lambda>x. of_int (mesh_u (snd x))) cs u" "apps n e (\<lambda>x. of_int (mesh_v (snd x))) cs v" "apps n e (\<lambda>x. of_int (mesh_w (snd x))) cs z"
    "apps n e' (\<lambda>x. 2 * of_int (mesh_s (fst x)) + (of_int (mesh_x (snd x)) + 1)) cs m"
    "apps n e' (\<lambda>x. 2 * of_int (mesh_t (fst x)) + (of_int (mesh_y (snd x)) + 1)) cs m'"
    and e: "e \<le> e'" and i: "i < length cs"
  shows "codes n e' (mesh_code (fst (cs ! i)) (snd (cs ! i))) [p ! i, u ! i, q ! i, v ! i, r ! i, z ! i, m ! i, m' ! i]"
  unfolding codes_def mesh_code_def list.rel_inject
  by (intro conjI list.rel_intros TrueI app_code [OF apps_nth, OF assms(1) i refl e] app_code [OF apps_nth, OF assms(2) i refl e]
    app_code [OF apps_nth, OF assms(3) i refl e] app_code [OF apps_nth, OF assms(4) i refl e] app_code [OF apps_nth, OF assms(5) i refl e]
    app_code [OF apps_nth, OF assms(6) i refl e] app_code [OF apps_nth, OF assms(7) i _ order_refl] app_code [OF apps_nth, OF assms(8) i _ order_refl]) simp_all

lemma wpS_meshcode_transform:
  assumes w: "wf_world P T J n sp w" and F: "boost_ok F" "n \<le> 100" "enough P E fuel" and c: "mesh_numbers (decs F)"
    and l: "apps n 0 fst cs latitude" "apps n 0 snd cs longitude"
    and m: "\<forall>(\<phi>, \<theta>) \<in> set cs. lat_clear (mesh_margin n) \<phi> \<and> lon_clear (mesh_margin n) \<theta>"
  shows "wpS E (\<lambda>rows w'. wf_world P T J n sp w' \<and> list_all2 (\<lambda>(\<phi>, \<theta>) row. codes n (4 * floor_error n) (mesh_code \<phi> \<theta>) row) cs rows)
    (meshcode_transform F fuel latitude longitude) w"
proof -
  let ?E = "floor_error n" and ?D = "decs F"
  have n: "0 < n" "sp < n" using w by (auto simp: wf_world_def)
  note E = floor_error_bounds [OF n(1) F(2)] and k = mesh_numbersD [OF c] and C = mesh_values
  have len: "length latitude = length cs" using l(1) by (simp add: apps_def list_all2_lengthD)
  have lat: "apps n 0 (\<lambda>\<phi>. \<phi>) (map fst cs) latitude" "\<forall>\<phi> \<in> set (map fst cs). lat_clear (mesh_margin n) \<phi>"
    and lon: "apps n 0 (\<lambda>\<theta>. \<theta>) (map snd cs) longitude" "\<forall>\<theta> \<in> set (map snd cs). lon_clear (mesh_margin n) \<theta>"
    using l m by (auto simp: apps_fst)
  show ?thesis
    unfolding meshcode_transform_def wpS_bindS
    apply (rule wpS_mesh_latitude [OF w F c lat])
    subgoal premises 1 for p q r s t w1
      unfolding prod.case wpS_bindS
      apply (rule wpS_mesh_longitude [OF 1(1) F c lon])
      subgoal premises 2 for u v z x y w2
      proof -
        have sp: "w_sp w2 = sp" using 2(1) by (simp add: wf_world_def)
        note a = 1(2-6) [unfolded apps_fst] and o = 2(2-6) [unfolded apps_fst]
        note s2 = apps_scale [OF a(4) k(5) C(5) _ order_refl] apps_scale [OF a(5) k(5) C(5) _ order_refl]
        note x1 = apps_addc [OF o(4) n(2) k(14) C(14)] apps_addc [OF o(5) n(2) k(14) C(14)]
        show ?thesis
          unfolding prod.case wpS_withW Let_def sp wpS_bindS
          apply (rule wpS_apps_add [OF s2(1) x1(1), where d = "4 * ?E"]; (use E in linarith)?)
          subgoal premises 3 for m
            apply (rule wpS_apps_add [OF s2(2) x1(2), where d = "4 * ?E"]; (use E in linarith)?)
            subgoal premises 4 for n'
              using codes_row [OF a(1-3) o(1-3) 3 4] E 2(1)
              by (auto simp: wpS_retS list_all2_conv_all_nth len case_prod_unfold)
            done
          done
      qed
      done
    done
qed

subsection \<open>The job\<close>

text \<open>The job takes the latitudes from the first record of the table and the longitudes from the second; further records are ignored.\<close>

lemma MeshCodeJob_records:
  "MeshCodeJob_compute F fuel (lat # lon # tbl) arg = MeshCodeJob_compute F fuel [lat, lon] arg"
  "js \<noteq> [] \<Longrightarrow> MeshCodeJob_compute F fuel [lat] (js # arg) w = Inl UndefinedBehaviour"
  by (auto simp: MeshCodeJob_compute_def nth_or_ub_def pick_def bindS_def liftS_def neq_Nil_conv split: sum.splits if_splits)

text \<open>
  C20. The mesh code job: coordinates (up to 180 degrees) are shared exactly by up to 100 parties, the latitudes in the first record of the
  table, the longitudes in the second, and every quotient of the algorithm for them stays \<open>mesh_margin\<close> units away from whole numbers. Unless
  a random bit is still being drawn, every row of the result holds the eight numbers of the mesh code that exact arithmetic gives
  (degrees, quotients by 5 and 7.5 minutes, half and three quarter minutes, quarter grid square), each up to \<open>4 * floor_error\<close> units in the last
  place. If every party's draws are positive, one unit of fuel is enough.
\<close>

theorem meshcode_correct:
  assumes w: "wf_world P T J n sp w" and F: "boost_ok F" "n \<le> 100" "mesh_numbers (decs F)"
    and js: "\<forall>j \<in> set js. 1 \<le> j \<and> j \<le> int (length lat) \<and> j \<le> int (length lon)"
    and l: "apps n 0 fst cs (map (\<lambda>j. lat ! nat (j - 1)) js)" "apps n 0 snd cs (map (\<lambda>j. lon ! nat (j - 1)) js)"
    and m: "\<forall>(\<phi>, \<theta>) \<in> set cs. lat_clear (mesh_margin n) \<phi> \<and> lon_clear (mesh_margin n) \<theta>"
  shows "(case MeshCodeJob_compute F fuel (lat # lon # tbl) (js # arg) w of Inl e \<Rightarrow> e = OutOfFuel
      | Inr (rows, w') \<Rightarrow> wf_world P T J n sp w' \<and>
          list_all2 (\<lambda>(\<phi>, \<theta>) row. codes n (4 * floor_error n) (mesh_code \<phi> \<theta>) row) cs rows) \<and>
    (positive_draws P \<and> 0 < fuel \<longrightarrow> MeshCodeJob_compute F fuel (lat # lon # tbl) (js # arg) w \<noteq> Inl OutOfFuel)"
proof -
  let ?R = "\<lambda>(\<phi>, \<theta>) row. codes n (4 * floor_error n) (mesh_code \<phi> \<theta>) row"
  have p: "mapE (\<lambda>j. bindE (pick lat j) (\<lambda>x. bindE (pick lon j) (\<lambda>y. Inr (x, y)))) js = Inr (map (\<lambda>j. (lat ! nat (j - 1), lon ! nat (j - 1))) js)"
    using js by (intro mapE_Inr) (simp add: pick_ok)
  have 1: "wpS E (\<lambda>rows w'. wf_world P T J n sp w' \<and> list_all2 ?R cs rows) (MeshCodeJob_compute F fuel (lat # lon # tbl) (js # arg)) w"
    if e: "enough P E fuel" for E
    using wpS_meshcode_transform [OF w F(1,2) e F(3) l m]
    by (simp add: MeshCodeJob_compute_def nth_or_ub_def p comp_def)
  have "MeshCodeJob_compute F fuel (lat # lon # tbl) (js # arg) w \<noteq> Inl OutOfFuel" if "positive_draws P \<and> 0 < fuel"
    using 1 [of "\<lambda>_. False"] that by (auto simp: enough_def wpS_total)
  then show ?thesis
    by (intro conjI wpS_case 1) (auto simp: enough_def)
qed

definition mesh_tab :: "(string \<times> rat) list" where
  "mesh_tab = [(''1.5'', 3 / 2), (''60'', 60), (''40'', 40), (''5'', 5), (''2'', 2), (''30'', 30), (''15'', 15), (''7.5'', 15 / 2), (''100'', 100), (''8'', 8),
     (''45'', 45), (''22.5'', 45 / 2), (''11.25'', 45 / 4), (''1'', 1)]"

lemma mesh_numbers_tab: "mesh_numbers (decs (ref_boost_with mesh_tab))"
  by (simp add: mesh_numbers_def fp_of_string_with mesh_tab_def shift_eq dtrunc_def)

definition demo_lat :: real where "demo_lat = 3570078000 / 100000000"

definition demo_lon :: real where "demo_lon = 13971474990 / 100000000"

lemma demo_digits:
  "mesh_p demo_lat = 53" "mesh_a demo_lat = 220468 / 10000" "mesh_q demo_lat = 4" "mesh_b demo_lat = 20468 / 10000" "mesh_r demo_lat = 4"
  "mesh_c demo_lat = 28080 / 10000" "mesh_s demo_lat = 0" "mesh_d demo_lat = 28080 / 10000" "mesh_t demo_lat = 0"
  "mesh_u demo_lon = 39" "mesh_f demo_lon = 7147499 / 10000000" "mesh_v demo_lon = 5" "mesh_g demo_lon = 53849940 / 10000000" "mesh_w demo_lon = 7"
  "mesh_h demo_lon = 80996400 / 10000000" "mesh_x demo_lon = 0" "mesh_i demo_lon = 80996400 / 10000000" "mesh_y demo_lon = 0"
proof -
  show p: "mesh_p demo_lat = 53" unfolding mesh_p_def by (simp add: demo_lat_def)
  show a: "mesh_a demo_lat = 220468 / 10000" unfolding mesh_a_def p by (simp add: demo_lat_def)
  show q: "mesh_q demo_lat = 4" unfolding mesh_q_def by (simp add: a)
  show b: "mesh_b demo_lat = 20468 / 10000" unfolding mesh_b_def by (simp add: a q)
  show r: "mesh_r demo_lat = 4" unfolding mesh_r_def by (simp add: b)
  show c: "mesh_c demo_lat = 28080 / 10000" unfolding mesh_c_def by (simp add: b r)
  show s: "mesh_s demo_lat = 0" unfolding mesh_s_def by (simp add: c)
  show d: "mesh_d demo_lat = 28080 / 10000" unfolding mesh_d_def by (simp add: c s)
  show "mesh_t demo_lat = 0" unfolding mesh_t_def by (simp add: d)
  show u: "mesh_u demo_lon = 39" unfolding mesh_u_def by (simp add: demo_lon_def)
  show f: "mesh_f demo_lon = 7147499 / 10000000" unfolding mesh_f_def u by (simp add: demo_lon_def)
  show v: "mesh_v demo_lon = 5" unfolding mesh_v_def by (simp add: f)
  show g: "mesh_g demo_lon = 53849940 / 10000000" unfolding mesh_g_def by (simp add: f v)
  show z: "mesh_w demo_lon = 7" unfolding mesh_w_def by (simp add: g)
  show h: "mesh_h demo_lon = 80996400 / 10000000" unfolding mesh_h_def by (simp add: g z)
  show x: "mesh_x demo_lon = 0" unfolding mesh_x_def by (simp add: h)
  show i: "mesh_i demo_lon = 80996400 / 10000000" unfolding mesh_i_def by (simp add: h x)
  show "mesh_y demo_lon = 0" unfolding mesh_y_def by (simp add: i)
qed

theorem meshcode_correct_witness:
  "\<exists>row w'. MeshCodeJob_compute (ref_boost_with mesh_tab) 1 [[[FP 3500000000, FP 70078000]], [[FP 0, FP 13971474990]]] [[1]] positive_world = Inr ([row], w') \<and>
     codes 2 7072 [53, 39, 4, 5, 4, 7, 1, 1] row"
proof -
  let ?F = "ref_boost_with mesh_tab"
  have m: "\<forall>(\<phi>, \<theta>) \<in> set [(demo_lat, demo_lon)]. lat_clear (mesh_margin 2) \<phi> \<and> lon_clear (mesh_margin 2) \<theta>"
    by (simp add: lat_clear_def lon_clear_def demo_digits clear_def mesh_margin_def floor_error_def shift_eq) (simp add: demo_lat_def demo_lon_def)
  have l: "apps 2 0 fst [(demo_lat, demo_lon)] (map (\<lambda>j. [[FP 3500000000, FP 70078000]] ! nat (j - 1)) [1])"
    "apps 2 0 snd [(demo_lat, demo_lon)] (map (\<lambda>j. [[FP 0, FP 13971474990]] ! nat (j - 1)) [1])"
    by (simp_all add: apps_def app_def fsec_def shift_eq demo_lat_def demo_lon_def)
  have js: "\<forall>j \<in> set [1 :: int]. 1 \<le> j \<and> j \<le> int (length [[FP 3500000000, FP 70078000]]) \<and> j \<le> int (length [[FP 0, FP 13971474990]])"
    by simp
  have c: "mesh_code demo_lat demo_lon = [53, 39, 4, 5, 4, 7, 1, 1]" "4 * floor_error 2 = 7072"
    by (simp_all add: mesh_code_def demo_digits floor_error_def)
  show ?thesis
    using meshcode_correct [OF wf_positive_world boost_ok_with _ mesh_numbers_tab js l m, of 1 "[]" "[]"] positive_draws_positive
    by (auto simp: list_all2_Cons1 c simp del: list.map split: sum.splits)
qed

end
