(* ===== verification/JobComp.thy ===== *)
theory JobComp
  imports Math Columns Json
begin

section \<open>Statistical jobs\<close>

text \<open>
  The computations of \<open>Job/Jobs/MathJob.hpp\<close>, \<open>CorrelJob.hpp\<close> and \<open>JoinTableJob.hpp\<close>, and the older entry of \<open>Computation/Computation.cpp\<close>. A
  job gets the joined table of shares, its column names and the column numbers of the request, counted from 1.
\<close>

subsection \<open>The jobs\<close>

text \<open>
  \<open>MathJob\<close> and \<open>CorrelJob\<close> measure the first record before they look at the columns: an empty table is undefined behaviour. Numbers of
  records and columns are stored in an \<open>int\<close>; \<open>MathJob\<close> reserves room for their product.
\<close>

definition MathJob_compute :: "(fp list list \<Rightarrow> (world, fp list) comp) \<Rightarrow> fp list list list \<Rightarrow> int list list \<Rightarrow> (world, fp list list) comp" where
  "MathJob_compute f tbl arg =
     bindS (liftS (bindE (nth_or_ub tbl 0) (\<lambda>row0. bindE (nth_or_ub arg 0) (\<lambda>a0. bindE (mapE (int_column tbl) a0) (\<lambda>cs.
       bindE (int32_times (isize tbl) (isize row0)) (\<lambda>nm. bindE (vector_size nm) (\<lambda>_. Inr cs))))))) (\<lambda>cs. mapS f cs)"

definition CorrelJob_compute :: "'d dec \<Rightarrow> 'e hi \<Rightarrow> fp list list list \<Rightarrow> int list list \<Rightarrow> (world, fp list list list) comp" where
  "CorrelJob_compute D H tbl arg =
     bindS (liftS (bindE (nth_or_ub tbl 0) (\<lambda>row0. bindE (nth_or_ub arg 0) (\<lambda>a0. bindE (mapE (int_column tbl) a0) (\<lambda>cs.
       bindE (nth_or_ub arg 1) (\<lambda>a1. bindE (mapE (int_column tbl) a1) (\<lambda>targets.
       bindE (vector_size (isize tbl)) (\<lambda>_. Inr (row0, cs, targets))))))))) (\<lambda>(row0, cs, targets).
     mapS (\<lambda>target. bindS (liftS (vector_size (isize row0))) (\<lambda>_. mapS (\<lambda>col. correl D H col target) cs)) targets)"

text \<open>The joined table itself, of one party: the texts of its shares without the first column and the one the tables were joined by.\<close>

definition JoinTableJob_compute :: "'d dec \<Rightarrow> fp list list \<Rightarrow> string list \<Rightarrow> int list list \<Rightarrow> json res" where
  "JoinTableJob_compute D tbl names arg =
     bindE (nth_or_ub arg 0) (\<lambda>a0. bindE (removeIdColumn (map (map (fp_getStrVal D)) tbl) names a0) (\<lambda>(remove_id_table, remove_id_schema).
     Inr (JObj [(''schema'', JArr (map JStr remove_id_schema)), (''table'', JArr (map (JArr \<circ> map JStr) remove_id_table))])))"

subsection \<open>The older entry\<close>

text \<open>
  \<open>json\<close> is read with the accesses of values that are not constant; an index into an object or a scalar throws. \<open>stod\<close> is the
  standard library's: None for a text without a number.
\<close>

definition json_elements :: "json \<Rightarrow> json list res" where
  "json_elements j = (case j of JNull \<Rightarrow> Inr [] | JArr vs \<Rightarrow> Inr vs | JObj [] \<Rightarrow> Inr [] | _ \<Rightarrow> Inl JsonError)"

definition parse_datum :: "(string \<Rightarrow> rat option) \<Rightarrow> json \<Rightarrow> fp res" where
  "parse_datum stod v = bindE (json_string v) (\<lambda>s. case stod s of None \<Rightarrow> Inl InvalidArgument | Some x \<Rightarrow> Inr (fp_of_double x))"

definition parseData :: "(string \<Rightarrow> json res) \<Rightarrow> (string \<Rightarrow> rat option) \<Rightarrow> string list \<Rightarrow> string list \<Rightarrow> fp list res" where
  "parseData parse stod values data_ids =
     bindE (mapE (\<lambda>i. bindE (nth_or_ub values i) (\<lambda>v. bindE (parse v) (\<lambda>json.
       bindE (json_member json (data_ids ! i)) (\<lambda>d. bindE (json_first d) (\<lambda>row. bindE (json_elements row) (\<lambda>vs. mapE (parse_datum stod) (take (nat (isize vs)) vs)))))))
       [0..<nat (isize data_ids)]) (\<lambda>shares. Inr (concat shares))"

text \<open>
  \<open>compute\<close> on the shares the parties have parsed: the flag \<open>is_computing\<close> it leaves, the texts appended to the results of every party,
  and whether it succeeds.
\<close>

definition Computation_compute :: "'d dec \<Rightarrow> fp list list \<Rightarrow> int \<Rightarrow> (world, bool \<times> string list \<times> bool) comp" where
  "Computation_compute D shares methodId = withW (\<lambda>w.
     if methodId = 1 then retS (False, map (fp_getStrVal D) (smean D (n_parties w) shares), True)
     else if methodId = 2 then bindS (variance D shares) (\<lambda>var. retS (False, map (fp_getStrVal D) var, True))
     else retS (True, [], False))"

subsection \<open>Lemmas\<close>

lemma dtrunc_milli:
  assumes "\<bar>x - 100000\<bar> < 1"
  shows "dtrunc x \<in> {99999, 100000}"
proof -
  have "0 \<le> x" using assms by linarith
  then have "of_int (dtrunc x) \<le> x" "x < of_int (dtrunc x) + 1" using floor_correct [of x] by (auto simp: dtrunc_def)
  then have "of_int (dtrunc x) < (100001 :: rat)" "99998 < (of_int (dtrunc x) :: rat)" using assms by linarith+
  then have "dtrunc x < 100001" "99998 < dtrunc x" by linarith+
  then show ?thesis by auto
qed

lemma rnd_near:
  assumes "\<bar>y - c\<bar> \<le> 1 / 1000" "\<bar>c\<bar> = 100000"
  shows "\<bar>rnd y - c\<bar> < 1"
proof -
  have "\<bar>y\<bar> \<le> 100001" using assms unfolding abs_le_iff by linarith
  then have "\<bar>rnd y - y\<bar> \<le> 1 / 1000" using rnd_close [of y] by simp
  then show ?thesis using assms(1) by linarith
qed

lemma fp_milli: "fpVal (fp_of_double (rnd (1 / 1000))) \<in> {99999, 100000}" "fpVal (fp_of_double (- rnd (1 / 1000))) \<in> {- 99999, - 100000}"
proof -
  let ?x = "rnd (1 / 1000)"
  have x: "\<bar>?x - 1 / 1000\<bar> * 2 ^ 53 \<le> 1 / 1000" using rnd_close [of "1 / 1000"] by simp
  then have "\<bar>?x - 1 / 1000\<bar> \<le> 1 / 1000000000000" by simp
  then have "1 / 1000 - 1 / 1000000000000 \<le> ?x" "?x \<le> 1 / 1000 + 1 / 1000000000000" unfolding abs_le_iff by linarith+
  then have x1: "\<bar>?x * of_int shift - 100000\<bar> \<le> 1 / 1000" "\<bar>?x\<bar> < 1" unfolding abs_le_iff abs_less_iff by (simp_all add: shift_eq)
  have 1: "\<bar>rnd (?x * of_int shift) - 100000\<bar> < 1" by (rule rnd_near [OF x1(1)]) simp
  have "\<bar>- ?x * of_int shift - - 100000\<bar> \<le> 1 / 1000" using x1(1) by (simp add: abs_minus_commute)
  then have "\<bar>rnd (- ?x * of_int shift) - - 100000\<bar> < 1" by (rule rnd_near) simp
  then have 2: "\<bar>- rnd (- ?x * of_int shift) - 100000\<bar> < 1" by (simp add: abs_less_iff)
  have "\<not> isinf ?x" "\<not> isinf (- ?x)" using x1(2) by (simp_all add: isinf_def not_le less_le_trans)
  moreover have "dtrunc (- y) = - dtrunc y" for y by (auto simp: dtrunc_def ceiling_def)
  ultimately show "fpVal (fp_of_double ?x) \<in> {99999, 100000}" "fpVal (fp_of_double (- ?x)) \<in> {- 99999, - 100000}"
    using dtrunc_milli [OF 1] dtrunc_milli [OF 2] by (auto simp: fp_of_double_def)
qed

lemma not_tiny_max:
  assumes "fp_of_string D ''0.001'' = FP 100000" "0 \<le> fpVal s"
  shows "fpVal (not_tiny D s) = max (fpVal s) 100000"
  using fp_milli assms by (auto simp: not_tiny_def fp_less_def Let_def max_def)

text \<open>What the join job stores is read back as the columns it keeps; an unknown method leaves the flag set.\<close>

lemma JoinTableJob_read:
  assumes "JoinTableJob_compute D tbl names ((c # cs) # arg) = Inr doc"
  defines "m \<equiv> nat ((c - 1) mod 2 ^ 64)"
  shows "bindE (json_at doc ''table'') (\<lambda>t. mapE json_strings (json_items t)) = Inr (map (drop_columns m \<circ> map (fp_getStrVal D)) tbl)"
    "bindE (json_at doc ''schema'') json_strings = Inr (drop_columns m names)"
proof -
  have s: "mapE json_string (map JStr ss) = Inr ss" for ss by (induction ss) (simp_all add: json_string_def)
  have t: "mapE json_strings (map (\<lambda>r. JArr (map JStr (f r))) rs) = Inr (map f rs)" for f :: "fp list \<Rightarrow> string list" and rs
    by (induction rs) (simp_all add: json_strings_def s)
  show "bindE (json_at doc ''table'') (\<lambda>t. mapE json_strings (json_items t)) = Inr (map (drop_columns m \<circ> map (fp_getStrVal D)) tbl)"
    "bindE (json_at doc ''schema'') json_strings = Inr (drop_columns m names)"
    using assms(1) t s by (auto simp: JoinTableJob_compute_def nth_or_ub_def removeIdColumn_def Let_def json_at_def json_items_def json_strings_def m_def comp_def)
qed

lemma Computation_unknown: "methodId \<noteq> 1 \<Longrightarrow> methodId \<noteq> 2 \<Longrightarrow> Computation_compute D shares methodId w = Inr ((True, [], False), w)"
  by (simp add: Computation_compute_def withW_def retS_def)

subsection \<open>Correlation\<close>

text \<open>A quotient of bounded shares is bounded.\<close>

lemma fdiv_bound:
  assumes F: "boost_ok F" and v: "0 < fpVal v" "fpVal v < dec_range" and c: "0 \<le> c" "c < dec_range" and b: "fbound c xs"
  shows "fbound (1 + 2 * c * shift div fpVal v) (share_fdiv (decs F) v xs)"
  unfolding fbound_def share_fdiv_def list_all_iff
proof (intro ballI, simp only: set_map)
  fix q assume "q \<in> (\<lambda>x. fp_div (decs F) x v) ` set xs"
  then obtain x where x: "x \<in> set xs" "q = fp_div (decs F) x v" by blast
  let ?k = "fpVal v"
  have "\<bar>fpVal x\<bar> \<le> c" using b x(1) by (auto simp: fbound_def)
  then have r: "\<bar>fpVal x\<bar> < dec_range" "\<bar>?k\<bar> < dec_range" "?k \<noteq> 0" "\<bar>fpVal x * shift\<bar> \<le> c * shift"
    using c v by (simp_all add: abs_mult)
  have "\<bar>fpVal q * ?k - fpVal x * shift\<bar> * 10 ^ 48 \<le> ?k * 10 ^ 48 + c * shift"
    using boost_div [OF F r(3,1,2)] r(4) v(1) by (simp add: x(2))
  moreover have "0 \<le> c * shift" using c(1) by simp
  ultimately have "\<bar>fpVal q * ?k - fpVal x * shift\<bar> \<le> ?k + c * shift" by simp
  then have "\<bar>fpVal q * ?k\<bar> \<le> ?k + 2 * c * shift" using r(4) by linarith
  then have "(\<bar>fpVal q\<bar> - 1) * ?k \<le> 2 * c * shift" using v(1) by (simp add: abs_mult left_diff_distrib)
  note zdiv_mono1 [OF this v(1)]
  then have "\<bar>fpVal q\<bar> - 1 \<le> 2 * c * shift div ?k" using v(1) by simp
  then show "\<bar>fpVal q\<bar> \<le> 1 + 2 * c * shift div ?k" by simp
qed

text \<open>The three divisions of \<open>correl\<close>: \<open>Q1 = S / k\<close>, \<open>Q2 = Q1 / l\<close>, \<open>z = Q2 / N\<close>, of shares bounded by \<open>c1\<close>, \<open>c2\<close>, \<open>c3\<close>.\<close>

lemma three_divisions:
  fixes k l N S z n W sh :: int
  assumes 1: "\<bar>Q1 * k - S * sh\<bar> * W \<le> (k * W + c1 * sh) * n" and 2: "\<bar>Q2 * l - Q1 * sh\<bar> * W \<le> (l * W + c2 * sh) * n"
    and 3: "\<bar>z * N - Q2\<bar> * W \<le> (N * W + c3) * n" and c: "c2 * k \<le> k + 2 * c1 * sh" "c3 * l \<le> l + 2 * c2 * sh"
    and pos: "0 < k" "0 < l" "0 < N" "0 \<le> n" "0 < sh" "3 \<le> W" and c1: "7 * c1 * sh \<le> W * X"
  shows "\<bar>z * k * l * N - sh * sh * S\<bar> \<le> n * ((N + 2) * k * l + 2 * k * sh + X * sh)"
proof -
  have "z * k * l * N - sh * sh * S = (z * N - Q2) * (l * k) + ((Q2 * l - Q1 * sh) * k + (Q1 * k - S * sh) * sh)"
    by (simp add: algebra_simps)
  then have "\<bar>z * k * l * N - sh * sh * S\<bar> \<le> \<bar>(z * N - Q2) * (l * k)\<bar> + (\<bar>(Q2 * l - Q1 * sh) * k\<bar> + \<bar>(Q1 * k - S * sh) * sh\<bar>)"
    by linarith
  also have "\<dots> = \<bar>z * N - Q2\<bar> * (l * k) + (\<bar>Q2 * l - Q1 * sh\<bar> * k + \<bar>Q1 * k - S * sh\<bar> * sh)"
    using pos by (simp add: abs_mult)
  finally have "\<bar>z * k * l * N - sh * sh * S\<bar> * W \<le> (\<bar>z * N - Q2\<bar> * (l * k) + (\<bar>Q2 * l - Q1 * sh\<bar> * k + \<bar>Q1 * k - S * sh\<bar> * sh)) * W"
    using pos by (intro mult_right_mono) auto
  also have "\<dots> = (\<bar>z * N - Q2\<bar> * W) * (l * k) + ((\<bar>Q2 * l - Q1 * sh\<bar> * W) * k + (\<bar>Q1 * k - S * sh\<bar> * W) * sh)"
    by (simp add: algebra_simps)
  also have "\<dots> \<le> ((N * W + c3) * n) * (l * k) + (((l * W + c2 * sh) * n) * k + ((k * W + c1 * sh) * n) * sh)"
    using pos by (intro add_mono mult_right_mono 1 2 3) auto
  also have "\<dots> = n * (W * (N * (l * k) + l * k + k * sh) + (c3 * l * k + c2 * k * sh + c1 * sh * sh))"
    by (simp add: algebra_simps)
  also have "\<dots> \<le> n * (W * (N * (l * k) + l * k + k * sh) + W * (l * k + k * sh + X * sh))"
  proof (intro mult_left_mono add_left_mono)
    have "c2 * k * sh \<le> (k + 2 * c1 * sh) * sh" using c(1) pos by (intro mult_right_mono) auto
    moreover have "c3 * l * k \<le> (l + 2 * c2 * sh) * k" using c(2) pos by (intro mult_right_mono) auto
    moreover have "7 * c1 * sh * sh \<le> W * X * sh" using c1 pos by (intro mult_right_mono) auto
    moreover have "1 * (l * k) \<le> W * (l * k)" "3 * (k * sh) \<le> W * (k * sh)" using pos by (auto intro!: mult_right_mono)
    ultimately show "c3 * l * k + c2 * k * sh + c1 * sh * sh \<le> W * (l * k + k * sh + X * sh)"
      by (simp add: algebra_simps)
  qed (use pos in auto)
  also have "\<dots> = (n * ((N + 2) * k * l + 2 * k * sh + X * sh)) * W"
    by (simp add: algebra_simps)
  finally show ?thesis
    using pos by (simp add: mult_le_cancel_right)
qed

lemma covariance_identity:
  fixes m m' :: int
  assumes "length v = length u"
  shows "int (length v) * sum_list (map2 (\<lambda>s t. (s - m) * (t - m')) v u) =
    int (length v) * sum_list (map2 (*) v u) - sum_list v * sum_list u +
      (int (length v) * m - sum_list v) * (int (length v) * m' - sum_list u)"
proof -
  have "sum_list (map2 (\<lambda>s t. (s - m) * (t - m')) v u) =
      sum_list (map2 (*) v u) - m * sum_list u - m' * sum_list v + int (length v) * (m * m')"
    using assms by (induction v u rule: list_induct2) (simp_all add: algebra_simps)
  moreover have "N * (Q - m * U - m' * V + N * (m * m')) = N * Q - V * U + (N * m - V) * (N * m' - U)" for N Q U V :: int
    by (simp add: algebra_simps)
  ultimately show ?thesis
    by (simp only:)
qed

text \<open>\<open>correl_of n x y k l z\<close>: the covariance of the columns, divided by the numbers \<open>k\<close> and \<open>l\<close>, is \<open>z\<close> up to the rounding.\<close>

definition correl_of :: "nat \<Rightarrow> int list \<Rightarrow> int list \<Rightarrow> int \<Rightarrow> int \<Rightarrow> int \<Rightarrow> bool" where
  "correl_of n x y k l z \<longleftrightarrow> (let N = int (length x); cov = N * sum_list (map2 (*) x y) - sum_list x * sum_list y in
     \<bar>z * k * l * (N * N) - shift * cov\<bar> \<le> N * N * (int n * (3 * k * l + 2 * k * shift + 8 * 10 ^ 19) + shift * shift + 4 * int n * int n * shift))"

lemma correl_combine:
  fixes k l N S z A cov P n sh B :: int
  assumes "\<bar>z * k * l * N - sh * sh * S\<bar> \<le> n * ((N + 2) * k * l + 2 * k * sh + N * B)" "\<bar>sh * S - P\<bar> \<le> N * sh"
    "\<bar>N * P - cov\<bar> \<le> 4 * (N * N) * (n * n)" and pos: "0 < k" "0 < l" "1 \<le> N" "0 \<le> n" "0 < sh" "0 \<le> B"
  shows "\<bar>z * k * l * (N * N) - sh * cov\<bar> \<le> N * N * (n * (3 * k * l + 2 * k * sh + B) + sh * sh + 4 * n * n * sh)"
proof -
  have "\<bar>z * k * l * (N * N) - sh * cov\<bar> = \<bar>N * (z * k * l * N - sh * sh * S) + sh * (N * (sh * S - P) + (N * P - cov))\<bar>"
    by (simp add: algebra_simps)
  also have "\<dots> \<le> N * \<bar>z * k * l * N - sh * sh * S\<bar> + sh * (N * \<bar>sh * S - P\<bar> + \<bar>N * P - cov\<bar>)"
    using pos by (intro order_trans [OF abs_triangle_ineq] add_mono) (auto simp: abs_mult intro: order_trans [OF abs_triangle_ineq])
  also have "\<dots> \<le> N * (n * ((N + 2) * k * l + 2 * k * sh + N * B)) + sh * (N * (N * sh) + 4 * (N * N) * (n * n))"
    using assms(1-3) pos by (intro add_mono mult_left_mono) auto
  also have "\<dots> \<le> N * (n * (N * (3 * k * l + 2 * k * sh + B))) + sh * (N * (N * sh) + 4 * (N * N) * (n * n))"
  proof (intro add_right_mono mult_left_mono)
    have "1 * (k * l) \<le> N * (k * l)" "1 * (k * sh) \<le> N * (k * sh)" using pos by (auto intro!: mult_right_mono)
    then show "(N + 2) * k * l + 2 * k * sh + N * B \<le> N * (3 * k * l + 2 * k * sh + B)" by (simp add: algebra_simps)
  qed (use pos in auto)
  finally show ?thesis by (simp add: algebra_simps)
qed

lemma root_upper:
  assumes "root_of v k" "v \<le> 10 ^ 50"
  shows "k \<le> 10 ^ 30"
proof (rule ccontr)
  assume k: "\<not> k \<le> 10 ^ 30"
  then have "10 ^ 30 * 10 ^ 30 \<le> (k - 1) * (k - 1)" by (intro mult_mono) auto
  also have "\<dots> \<le> v * shift" using assms(1) k by (auto simp: root_of_def)
  also have "\<dots> \<le> 10 ^ 50 * shift" using assms(2) by (intro mult_right_mono) auto
  finally show False by (simp add: shift_eq)
qed

lemma stats_mean:
  assumes "stats_ok n x" "boost_ok F" "n \<le> 100"
  shows "length (smean (decs F) n x) = n" "\<bar>fsec (smean (decs F) n x)\<bar> \<le> 2 * 10 ^ 24"
    "\<bar>int (length x) * fsec (smean (decs F) n x) - sum_list (map fsec x)\<bar> \<le> 2 * int (length x) * int n"
proof -
  have x: "shares_ok n (10 ^ 48) x" "x \<noteq> []" "length x < 2 ^ 31" "\<forall>a \<in> set x. \<bar>fsec a\<bar> \<le> 10 ^ 24"
    using assms(1) unfolding stats_ok_def by blast+
  show "length (smean (decs F) n x) = n" "\<bar>fsec (smean (decs F) n x)\<bar> \<le> 2 * 10 ^ 24"
    by (rule smean_error(1) [OF assms(2) x(1-3)], rule smean_bound [OF assms(2) x(1-3) assms(3) x(4)])
  show "\<bar>int (length x) * fsec (smean (decs F) n x) - sum_list (map fsec x)\<bar> \<le> 2 * int (length x) * int n"
    using smean_error(2) [OF assms(2) x(1-3)] by (simp only: mult.commute)
qed

lemma stats_centred:
  assumes "stats_ok n x" "boost_ok F" "n \<le> 100"
  shows "\<forall>a \<in> set (map (\<lambda>a. share_sub a (smean (decs F) n x)) x). length a = n \<and> \<bar>fsec a\<bar> \<le> 10 ^ 25"
    "map fsec (map (\<lambda>a. share_sub a (smean (decs F) n x)) x) = map (\<lambda>a. fsec a - fsec (smean (decs F) n x)) x"
proof -
  have x: "shares_ok n (10 ^ 48) x" "\<forall>a \<in> set x. \<bar>fsec a\<bar> \<le> 10 ^ 24"
    using assms(1) unfolding stats_ok_def by blast+
  note centred [OF x(1) stats_mean(1) [OF assms] x(2) stats_mean(2) [OF assms]]
  then show "\<forall>a \<in> set (map (\<lambda>a. share_sub a (smean (decs F) n x)) x). length a = n \<and> \<bar>fsec a\<bar> \<le> 10 ^ 25"
    "map fsec (map (\<lambda>a. share_sub a (smean (decs F) n x)) x) = map (\<lambda>a. fsec a - fsec (smean (decs F) n x)) x" .
qed

lemma map2_centred:
  "map2 (\<lambda>x y. f x * f y) (map (\<lambda>a. share_sub a m) x) (map (\<lambda>a. share_sub a m') y) = map2 (*) (map f (map (\<lambda>a. share_sub a m) x)) (map f (map (\<lambda>a. share_sub a m') y))"
  by (simp add: zip_map1 zip_map2 case_prod_unfold comp_def)

lemma correl_value:
  assumes F: "boost_ok F" "n \<le> 100" and x: "stats_ok n x" and y: "stats_ok n y" "length y = length x"
    and zs: "shares_ok n (10 ^ 51) zs" "length zs = length x"
      "\<bar>shift * sum_list (map fsec zs) - sum_list (map2 (\<lambda>s t. (s - fsec (smean (decs F) n x)) * (t - fsec (smean (decs F) n y))) (map fsec x) (map fsec y))\<bar>
        \<le> int (length x) * shift"
    and kl: "0 < fpVal k" "fpVal k \<le> 10 ^ 30" "0 < fpVal l" "fpVal l \<le> 10 ^ 30"
  defines "z \<equiv> share_fdiv (decs F) (fp_of_int (int (length x))) (share_fdiv (decs F) l (share_fdiv (decs F) k (sum_share n zs)))"
  shows "length z = n \<and> correl_of n (map fsec x) (map fsec y) (fpVal k) (fpVal l) (fsec z)"
proof -
  define N where "N = int (length x)"
  define Q1 where "Q1 = share_fdiv (decs F) k (sum_share n zs)"
  define Q2 where "Q2 = share_fdiv (decs F) l Q1"
  define c1 where "c1 = N * 10 ^ 51"
  define c2 where "c2 = 1 + 2 * c1 * shift div fpVal k"
  define c3 where "c3 = 1 + 2 * c2 * shift div fpVal l"
  have z: "z = share_fdiv (decs F) (fp_of_int N) Q2" by (simp add: z_def Q1_def Q2_def N_def)
  have "length x < 2 ^ 31" "x \<noteq> []" using x by (simp_all add: stats_ok_def)
  then have N: "1 \<le> N" "N \<le> 10 ^ 20" by (simp_all add: N_def Suc_le_eq)
  have c1: "0 \<le> c1" "c1 \<le> 10 ^ 71" using N by (simp_all add: c1_def)
  have "0 \<le> 2 * c1 * shift div fpVal k" "2 * c1 * shift div fpVal k \<le> 2 * c1 * shift"
    using kl c1 zdiv_mono2 [of "2 * c1 * shift" 1 "fpVal k"] by (simp_all add: pos_imp_zdiv_nonneg_iff)
  then have c2: "0 \<le> c2" "c2 \<le> 10 ^ 81" using c1 by (simp_all add: c2_def shift_eq)
  have "0 \<le> 2 * c2 * shift div fpVal l" "2 * c2 * shift div fpVal l \<le> 2 * c2 * shift"
    using kl c2 zdiv_mono2 [of "2 * c2 * shift" 1 "fpVal l"] by (simp_all add: pos_imp_zdiv_nonneg_iff)
  then have c3: "0 \<le> c3" "c3 \<le> 10 ^ 91" using c2 by (simp_all add: c3_def shift_eq)
  have r: "fpVal k < dec_range" "fpVal l < dec_range" "c1 < dec_range" "c2 < dec_range" "c3 < dec_range" "N * shift < dec_range"
    by (rule less_dec_range [OF kl(2)], simp, rule less_dec_range [OF kl(4)], simp, rule less_dec_range [OF c1(2)], simp,
      rule less_dec_range [OF c2(2)], simp, rule less_dec_range [OF c3(2)], simp, rule less_dec_range [of _ 100], insert N, simp add: shift_eq, simp)
  have b1: "fbound c1 (sum_share n zs)" using fbound_sum_share [OF zs(1)] zs(2) by (simp add: c1_def N_def)
  have b2: "fbound c2 Q1" unfolding Q1_def c2_def by (rule fdiv_bound [OF F(1) kl(1) r(1) c1(1) r(3) b1])
  have b3: "fbound c3 Q2" unfolding Q2_def c3_def by (rule fdiv_bound [OF F(1) kl(3) r(2) c2(1) r(4) b2])
  have len: "length (sum_share n zs) = n" "length Q1 = n" "length Q2 = n" using zs(1) by (simp_all add: Q1_def Q2_def)
  have 1: "\<bar>fsec Q1 * fpVal k - fsec (sum_share n zs) * shift\<bar> * 10 ^ 48 \<le> (fpVal k * 10 ^ 48 + c1 * shift) * int n"
    using fdiv_error [OF F(1) kl(1) r(1,3) b1] len by (simp add: Q1_def)
  have 2: "\<bar>fsec Q2 * fpVal l - fsec Q1 * shift\<bar> * 10 ^ 48 \<le> (fpVal l * 10 ^ 48 + c2 * shift) * int n"
    using fdiv_error [OF F(1) kl(3) r(2,4) b2] len by (simp add: Q2_def)
  have 3: "\<bar>fsec z * N - fsec Q2\<bar> * 10 ^ 48 \<le> (N * 10 ^ 48 + c3) * int n"
    using fdiv_int_error [OF F(1) _ r(6,5) b3] len N by (simp add: z)
  have d: "c2 * fpVal k \<le> fpVal k + 2 * c1 * shift" "c3 * fpVal l \<le> fpVal l + 2 * c2 * shift"
    using kl by (simp_all add: c2_def c3_def distrib_right minus_mod_eq_div_mult [symmetric])
  have v: "\<bar>fsec z * fpVal k * fpVal l * N - shift * shift * fsec (sum_share n zs)\<bar> \<le>
      int n * ((N + 2) * fpVal k * fpVal l + 2 * fpVal k * shift + N * (7 * 10 ^ 11) * shift)"
    by (rule three_divisions [OF 1 2 3 d]) (use kl N in \<open>simp_all add: c1_def shift_eq\<close>)
  define mx where "mx = fsec (smean (decs F) n x)"
  define my where "my = fsec (smean (decs F) n y)"
  define P where "P = sum_list (map2 (\<lambda>s t. (s - mx) * (t - my)) (map fsec x) (map fsec y))"
  define cov where "cov = N * sum_list (map2 (*) (map fsec x) (map fsec y)) - sum_list (map fsec x) * sum_list (map fsec y)"
  have S: "\<bar>shift * fsec (sum_share n zs) - P\<bar> \<le> N * shift"
    using zs(3) zs(1) by (simp add: P_def mx_def my_def N_def share_simps)
  have m: "\<bar>N * mx - sum_list (map fsec x)\<bar> \<le> 2 * N * int n" "\<bar>N * my - sum_list (map fsec y)\<bar> \<le> 2 * N * int n"
    using stats_mean(3) [OF x F] stats_mean(3) [OF y(1) F] by (simp_all add: mx_def my_def N_def y(2))
  have "N * P - cov = (N * mx - sum_list (map fsec x)) * (N * my - sum_list (map fsec y))"
    using covariance_identity [of "map fsec x" "map fsec y" mx my] y(2) by (simp add: P_def cov_def N_def)
  then have "\<bar>N * P - cov\<bar> \<le> (2 * N * int n) * (2 * N * int n)"
    using m N by (simp only: abs_mult) (intro mult_mono, simp_all)
  then have C: "\<bar>N * P - cov\<bar> \<le> 4 * (N * N) * (int n * int n)" by (simp add: algebra_simps)
  have v': "\<bar>fsec z * fpVal k * fpVal l * N - shift * shift * fsec (sum_share n zs)\<bar> \<le>
      int n * ((N + 2) * fpVal k * fpVal l + 2 * fpVal k * shift + N * (8 * 10 ^ 19))"
    by (rule order_trans [OF v], intro mult_left_mono add_left_mono) (use N in \<open>simp_all add: shift_eq\<close>)
  have "\<bar>fsec z * fpVal k * fpVal l * (N * N) - shift * cov\<bar> \<le>
      N * N * (int n * (3 * fpVal k * fpVal l + 2 * fpVal k * shift + 8 * 10 ^ 19) + shift * shift + 4 * int n * int n * shift)"
    by (rule correl_combine [OF v' S C kl(1,3) N(1)]) simp_all
  then have "correl_of n (map fsec x) (map fsec y) (fpVal k) (fpVal l) (fsec z)"
    by (simp add: correl_of_def Let_def N_def cov_def)
  moreover have "length z = n" using len by (simp add: z)
  ultimately show ?thesis by simp
qed

text \<open>The standard deviation of a column that \<open>correl\<close> divides by: at least 0.001.\<close>

definition stdev_of :: "nat \<Rightarrow> fp list list \<Rightarrow> int \<Rightarrow> bool" where
  "stdev_of n x k \<longleftrightarrow> (\<exists>v k0. variance_of n x v \<and> root_of (max 0 v) k0 \<and> k = max k0 100000)"

lemma wpS_stdev_of:
  assumes w: "wf_world P T J n sp w" and F: "boost_ok F" and H: "hi_ok (decs F) H" and n: "n \<le> 100" and v: "stats_ok n v"
    and milli: "fp_of_string (decs F) ''0.001'' = FP 100000"
    and post: "\<And>k w'. wf_world P T J n sp w' \<Longrightarrow> stdev_of n v (fpVal (not_tiny (decs F) k)) \<Longrightarrow> 0 < fpVal (not_tiny (decs F) k) \<Longrightarrow>
      fpVal (not_tiny (decs F) k) \<le> 10 ^ 30 \<Longrightarrow> Q k w'"
  shows "wpS E Q (stdev (decs F) H v) w"
proof (rule wpS_stdev [OF w F H n v])
  fix k w' z assume w': "wf_world P T J n sp w'" and z: "variance_of n v z" "root_of (max 0 z) (fpVal k)"
  have k: "fpVal (not_tiny (decs F) k) = max (fpVal k) 100000"
    using z(2) by (intro not_tiny_max [OF milli]) (simp add: root_of_def)
  have "fpVal k \<le> 10 ^ 30" using variance_size [OF v n z(1)] by (intro root_upper [OF z(2)]) simp
  moreover have "stdev_of n v (max (fpVal k) 100000)" using z by (auto simp: stdev_of_def)
  ultimately show "Q k w'" using w' by (intro post) (simp_all add: k)
qed

lemma wpS_correl:
  assumes w: "wf_world P T J n sp w" and F: "boost_ok F" "n \<le> 100" and H: "hi_ok (decs F) H" and x: "stats_ok n x"
    and y: "stats_ok n y" "length y = length x" and milli: "fp_of_string (decs F) ''0.001'' = FP 100000"
    and post: "\<And>z w' k l. wf_world P T J n sp w' \<Longrightarrow> length z = n \<Longrightarrow> stdev_of n x k \<Longrightarrow> stdev_of n y l \<Longrightarrow>
      correl_of n (map fsec x) (map fsec y) k l (fsec z) \<Longrightarrow> Q z w'"
  shows "wpS E Q (correl (decs F) H x y) w"
proof -
  let ?mx = "smean (decs F) n x" and ?my = "smean (decs F) n y"
  let ?xs = "map (\<lambda>a. share_sub a ?mx) x" and ?ys = "map (\<lambda>a. share_sub a ?my) y"
  have np: "n_parties w = n" using w by (simp add: wf_world_def n_parties_def)
  have sz: "isize x = int (length x)" "isize y = int (length x)" "vector_size (int (length x)) = Inr ()"
      "take (nat (int (length x))) x = x" "take (nat (int (length x))) y = y" "(int (length x) \<noteq> int (length x)) = False"
    using x y by (simp_all add: stats_ok_def isize_small)
  have m: "length ?mx = n" "length ?my = n"
    by (rule stats_mean [OF x F] stats_mean [OF y(1) F])+
  have cx: "\<forall>a \<in> set ?xs. length a = n \<and> \<bar>fsec a\<bar> \<le> 10 ^ 25" "map fsec ?xs = map (\<lambda>a. fsec a - fsec ?mx) x"
    by (rule stats_centred [OF x F])+
  have cy: "\<forall>a \<in> set ?ys. length a = n \<and> \<bar>fsec a\<bar> \<le> 10 ^ 25" "map fsec ?ys = map (\<lambda>a. fsec a - fsec ?my) y"
    by (rule stats_centred [OF y(1) F])+
  show ?thesis
    unfolding correl_def Let_def sz if_False wpS_withW np wpS_eta wpE_Inr
  proof (rule wpS_stdev_of [OF w F(1) H F(2) x milli])
    fix k w1 assume w1: "wf_world P T J n sp w1" and k: "stdev_of n x (fpVal (not_tiny (decs F) k))" "0 < fpVal (not_tiny (decs F) k)"
      "fpVal (not_tiny (decs F) k) \<le> 10 ^ 30"
    show "wpS E (\<lambda>l. wpS E (\<lambda>t. Q (share_fdiv (decs F) (fp_of_int (int (length x))) (share_fdiv (decs F) (not_tiny (decs F) l)
        (share_fdiv (decs F) (not_tiny (decs F) k) (sum_share n t))))) (fp_vec_mult ?xs ?ys)) (stdev (decs F) H y) w1"
    proof (rule wpS_stdev_of [OF w1 F(1) H F(2) y(1) milli])
      fix l w2 assume w2: "wf_world P T J n sp w2" and l: "stdev_of n y (fpVal (not_tiny (decs F) l))" "0 < fpVal (not_tiny (decs F) l)"
        "fpVal (not_tiny (decs F) l) \<le> 10 ^ 30"
      show "wpS E (\<lambda>t. Q (share_fdiv (decs F) (fp_of_int (int (length x))) (share_fdiv (decs F) (not_tiny (decs F) l)
        (share_fdiv (decs F) (not_tiny (decs F) k) (sum_share n t))))) (fp_vec_mult ?xs ?ys) w2"
      proof (rule wpS_fp_vec_mult_ok [OF w2])
        fix zs w3 assume w3: "wf_world P T J n sp w3" and zs: "length zs = length ?xs" "\<forall>i < length ?xs. mult_ok n (?xs ! i) (?ys ! i) (zs ! i)"
        have s: "shares_ok n (10 ^ 51) zs" "\<bar>shift * sum_list (map fsec zs) - sum_list (map2 (\<lambda>x y. fsec x * fsec y) ?xs ?ys)\<bar> \<le> int (length ?xs) * shift"
          by (rule products_sum [OF zs(1) _ zs(2) F(2)]; use cx cy y(2) in simp)+
        have "map2 (\<lambda>x y. fsec x * fsec y) ?xs ?ys = map2 (\<lambda>s t. (s - fsec ?mx) * (t - fsec ?my)) (map fsec x) (map fsec y)"
          unfolding map2_centred cx(2) cy(2) by (simp add: zip_map1 zip_map2 case_prod_unfold comp_def)
        then have "\<bar>shift * sum_list (map fsec zs) - sum_list (map2 (\<lambda>s t. (s - fsec ?mx) * (t - fsec ?my)) (map fsec x) (map fsec y))\<bar>
            \<le> int (length x) * shift"
          using s(2) by simp
        from correl_value [OF F x y s(1) _ this k(2,3) l(2,3)] zs(1)
        show "Q (share_fdiv (decs F) (fp_of_int (int (length x))) (share_fdiv (decs F) (not_tiny (decs F) l)
          (share_fdiv (decs F) (not_tiny (decs F) k) (sum_share n zs)))) w3"
          by (auto intro: post [OF w3 _ k(1) l(1)])
      qed (use cx cy y(2) in simp_all)
    qed
  qed
qed

subsection \<open>Properties\<close>

definition column :: "'a list list \<Rightarrow> int \<Rightarrow> 'a list" where
  "column tbl j = map (\<lambda>row. row ! nat (j - 1)) tbl"

definition columns_ok :: "nat \<Rightarrow> fp list list list \<Rightarrow> int list \<Rightarrow> bool" where
  "columns_ok n tbl js \<longleftrightarrow> tbl \<noteq> [] \<and> length tbl < 2 ^ 31 \<and> length (tbl ! 0) < 2 ^ 31 \<and> (\<forall>row \<in> set tbl. \<forall>j \<in> set js. 1 \<le> j \<and> j \<le> int (length row)) \<and> (\<forall>j \<in> set js. stats_ok n (column tbl j))"

lemma column_length: "length (column tbl j) = length tbl"
  by (simp add: column_def)

lemma pick_columns_ok: "columns_ok n tbl js \<Longrightarrow> mapE (int_column tbl) js = Inr (map (column tbl) js)"
  unfolding columns_ok_def column_def pick_column_def int_column_def by (intro mapE_Inr) (auto simp: pick_ok int_rows_small intro!: mapE_Inr)

lemma MathJob_columns:
  assumes "columns_ok n tbl js"
  shows "MathJob_compute f tbl (js # arg) = bindS (liftS (if length tbl * length (tbl ! 0) < 2 ^ 31 then Inr (map (column tbl) js) else Inl UndefinedBehaviour)) (mapS f)"
proof -
  have "nth_or_ub tbl 0 = Inr (tbl ! 0)" "isize tbl = int (length tbl)" "isize (tbl ! 0) = int (length (tbl ! 0))"
    using assms by (simp_all add: columns_ok_def isize_small nth_or_ub_def)
  then show ?thesis
    by (simp add: MathJob_compute_def nth_or_ub_def pick_columns_ok [OF assms] int32_times_nat)
qed

lemma MathJob_ok:
  assumes w: "wf_world P T J n sp w" and t: "columns_ok n tbl js" and fits: "length tbl * length (tbl ! 0) < 2 ^ 31"
    and f: "\<And>v w. wf_world P T J n sp w \<Longrightarrow> stats_ok n v \<Longrightarrow> wpS (\<lambda>_. False) (\<lambda>z w'. wf_world P T J n sp w' \<and> R v z) (f v) w"
  shows "\<exists>zs w'. MathJob_compute f tbl (js # arg) w = Inr (zs, w') \<and> wf_world P T J n sp w' \<and> list_all2 (\<lambda>j z. R (column tbl j) z) js zs"
proof -
  have "wpS (\<lambda>_. False) (\<lambda>zs w'. wf_world P T J n sp w' \<and> list_all2 R (map (column tbl) js) zs) (mapS f (map (column tbl) js)) w"
    using t by (intro wpS_mapS [where I = "wf_world P T J n sp" and R = R]) (auto simp: w columns_ok_def intro: f)
  moreover note MathJob_columns [OF t, of f arg]
  ultimately have "wpS (\<lambda>_. False) (\<lambda>zs w'. wf_world P T J n sp w' \<and> list_all2 R (map (column tbl) js) zs) (MathJob_compute f tbl (js # arg)) w"
    using fits by (simp add: liftS_def bindS_def)
  then show ?thesis by (simp add: wpS_total list_all2_map1)
qed

text \<open>
  C21. The mathematical jobs on a table with at least one record, whose numbers of records and columns fit into an \<open>int\<close> and whose selected columns hold
  shared numbers below \<open>10 ^ 16\<close>, for up to 100 parties. If the product of the two numbers fits as well, every selected column gives one
  share, of exactly the sum of its secrets, of their mean up to \<open>2 n\<close> units in the last place, or of
  their variance up to \<open>1001 n + 2\<close> units. If it does not, and on an empty table, every job is undefined behaviour.
\<close>

theorem math_jobs_correct:
  assumes w: "wf_world P T J n sp w" and F: "boost_ok F" "n \<le> 100" and t: "columns_ok n tbl js"
  defines "S \<equiv> \<lambda>j. map (\<lambda>s. fpVal (recons s)) (column tbl j)" and "N \<equiv> int (length tbl)"
  shows "(if length tbl * length (tbl ! 0) < 2 ^ 31 then
      (\<exists>zs w'. MathJob_compute (\<lambda>v. withW (\<lambda>w. retS (sum_share (n_parties w) v))) tbl (js # arg) w = Inr (zs, w') \<and>
        list_all2 (\<lambda>j z. length z = n \<and> fpVal (recons z) = sum_list (S j)) js zs) \<and>
      (\<exists>zs w'. MathJob_compute (\<lambda>v. withW (\<lambda>w. retS (smean (decs F) (n_parties w) v))) tbl (js # arg) w = Inr (zs, w') \<and>
        list_all2 (\<lambda>j z. length z = n \<and> \<bar>N * fpVal (recons z) - sum_list (S j)\<bar> \<le> 2 * N * int n) js zs) \<and>
      (\<exists>zs w'. MathJob_compute (variance (decs F)) tbl (js # arg) w = Inr (zs, w') \<and>
        list_all2 (\<lambda>j z. length z = n \<and> \<bar>shift * N * N * fpVal (recons z) - (N * sum_list (map (\<lambda>s. s * s) (S j)) - sum_list (S j) * sum_list (S j))\<bar>
          \<le> N * N * (shift * (1001 * int n + 1) + 4 * int n * int n)) js zs)
    else MathJob_compute f tbl (js # arg) w = Inl UndefinedBehaviour) \<and>
    MathJob_compute f [] arg w = Inl UndefinedBehaviour"
proof (intro conjI)
  show "MathJob_compute f [] arg w = Inl UndefinedBehaviour"
    by (simp add: MathJob_compute_def nth_or_ub_def bindS_def liftS_def)
  have np: "n_parties w = n" if "wf_world P T J n sp w" for w using that by (simp add: wf_world_def n_parties_def)
  have S: "S j = map fsec (column tbl j)" "N = int (length (column tbl j))" for j
    by (simp_all add: S_def N_def column_def fpVal_recons)
  show "if length tbl * length (tbl ! 0) < 2 ^ 31 then
      (\<exists>zs w'. MathJob_compute (\<lambda>v. withW (\<lambda>w. retS (sum_share (n_parties w) v))) tbl (js # arg) w = Inr (zs, w') \<and>
        list_all2 (\<lambda>j z. length z = n \<and> fpVal (recons z) = sum_list (S j)) js zs) \<and>
      (\<exists>zs w'. MathJob_compute (\<lambda>v. withW (\<lambda>w. retS (smean (decs F) (n_parties w) v))) tbl (js # arg) w = Inr (zs, w') \<and>
        list_all2 (\<lambda>j z. length z = n \<and> \<bar>N * fpVal (recons z) - sum_list (S j)\<bar> \<le> 2 * N * int n) js zs) \<and>
      (\<exists>zs w'. MathJob_compute (variance (decs F)) tbl (js # arg) w = Inr (zs, w') \<and>
        list_all2 (\<lambda>j z. length z = n \<and> \<bar>shift * N * N * fpVal (recons z) - (N * sum_list (map (\<lambda>s. s * s) (S j)) - sum_list (S j) * sum_list (S j))\<bar>
          \<le> N * N * (shift * (1001 * int n + 1) + 4 * int n * int n)) js zs)
    else MathJob_compute f tbl (js # arg) w = Inl UndefinedBehaviour"
  proof (cases "length tbl * length (tbl ! 0) < 2 ^ 31")
    case True
    have "\<exists>zs w'. MathJob_compute (\<lambda>v. withW (\<lambda>w. retS (sum_share (n_parties w) v))) tbl (js # arg) w = Inr (zs, w') \<and> wf_world P T J n sp w' \<and>
        list_all2 (\<lambda>j z. length z = n \<and> fsec z = sum_list (map fsec (column tbl j))) js zs"
      by (rule MathJob_ok [OF w t True, where R = "\<lambda>v z. length z = n \<and> fsec z = sum_list (map fsec v)"]) (auto simp: np stats_ok_def intro: length_sum_share fsec_sum_share)
    moreover have "\<exists>zs w'. MathJob_compute (\<lambda>v. withW (\<lambda>w. retS (smean (decs F) (n_parties w) v))) tbl (js # arg) w = Inr (zs, w') \<and> wf_world P T J n sp w' \<and>
        list_all2 (\<lambda>j z. length z = n \<and> \<bar>int (length (column tbl j)) * fsec z - sum_list (map fsec (column tbl j))\<bar> \<le> 2 * int (length (column tbl j)) * int n) js zs"
      by (rule MathJob_ok [OF w t True, where R = "\<lambda>v z. length z = n \<and> \<bar>int (length v) * fsec z - sum_list (map fsec v)\<bar> \<le> 2 * int (length v) * int n"])
        (simp add: np stats_mean [OF _ F])
    moreover have "\<exists>zs w'. MathJob_compute (variance (decs F)) tbl (js # arg) w = Inr (zs, w') \<and> wf_world P T J n sp w' \<and>
        list_all2 (\<lambda>j z. length z = n \<and> variance_of n (column tbl j) (fsec z)) js zs"
      by (rule MathJob_ok [OF w t True, where R = "\<lambda>v z. length z = n \<and> variance_of n v (fsec z)"]) (rule wpS_variance [OF _ F], simp_all)
    ultimately show ?thesis
      using True by (auto simp: variance_of_def Let_def S(1) N_def column_length fpVal_recons)
  next
    case False
    then show ?thesis by (simp add: MathJob_columns [OF t] bindS_def liftS_def)
  qed
qed

definition demo_records :: "fp list list list" where
  "demo_records = [[[FP 100000000, FP 100000000], [FP 0, FP 100000000]], [[FP 400000000, FP 0], [FP 0, FP 300000000]]]"

lemma demo_records_ok: "columns_ok 2 demo_records [1, 2]"
  by (simp add: columns_ok_def demo_records_def column_def stats_ok_def shares_ok_def fbound_def fsec_def)

theorem math_jobs_correct_witness:
  "\<exists>y z w'. MathJob_compute (\<lambda>v. withW (\<lambda>w. retS (smean (decs ref_boost) (n_parties w) v))) demo_records [[1, 2]] demo_world = Inr ([y, z], w') \<and>
     \<bar>fpVal (recons y) - 300000000\<bar> \<le> 4 \<and> \<bar>fpVal (recons z) - 200000000\<bar> \<le> 4"
proof -
  have S: "map (\<lambda>s. fpVal (recons s)) (column demo_records 1) = [200000000, 400000000]"
    "map (\<lambda>s. fpVal (recons s)) (column demo_records 2) = [100000000, 300000000]" "int (length demo_records) = 2"
    by (simp_all add: demo_records_def column_def fpVal_recons fsec_def)
  have fits: "length demo_records * length (demo_records ! 0) < 2 ^ 31" by (simp add: demo_records_def)
  from math_jobs_correct [OF wf_demo_world boost_ok_ref _ demo_records_ok, of "[]"]
  obtain zs w' where "MathJob_compute (\<lambda>v. withW (\<lambda>w. retS (smean (decs ref_boost) (n_parties w) v))) demo_records [[1, 2]] demo_world = Inr (zs, w')"
    and zs: "list_all2 (\<lambda>j z. length z = 2 \<and> \<bar>2 * fpVal (recons z) - sum_list (map (\<lambda>s. fpVal (recons s)) (column demo_records j))\<bar> \<le> 8) [1, 2] zs"
    using fits by (simp add: S(3)) blast
  moreover obtain y z where "zs = [y, z]" using zs by (auto simp: list_all2_Cons1)
  ultimately show ?thesis using zs by (simp add: S abs_le_iff)
qed

text \<open>
  C22. The correlation job on a table with at least one record, whose numbers of records and columns fit into an \<open>int\<close>, with the same bounds on its columns: the result has one row per target and in it one share per
  selected column. With \<open>k\<close> and \<open>l\<close> the standard deviations of the two columns, of which at least 0.001 counts, its secret is the
  covariance divided by \<open>k\<close> and \<open>l\<close>, up to rounding errors which are small as long as \<open>k\<close> and \<open>l\<close> are not (\<open>correl_of\<close>).
\<close>

theorem correl_job_correct:
  assumes w: "wf_world P T J n sp w" and F: "boost_ok F" "n \<le> 100" and H: "hi_ok (decs F) H" "fp_of_string (decs F) ''0.001'' = FP 100000"
    and t: "columns_ok n tbl (js @ ts)"
  shows "\<exists>zss w'. CorrelJob_compute (decs F) H tbl (js # ts # arg) w = Inr (zss, w') \<and> wf_world P T J n sp w' \<and>
    list_all2 (\<lambda>t zs. list_all2 (\<lambda>j z. length z = n \<and> (\<exists>k l. stdev_of n (column tbl j) k \<and> stdev_of n (column tbl t) l \<and>
      correl_of n (map (\<lambda>s. fpVal (recons s)) (column tbl j)) (map (\<lambda>s. fpVal (recons s)) (column tbl t)) k l (fpVal (recons z)))) js zs) ts zss"
proof -
  let ?R = "\<lambda>y x z. length z = n \<and> (\<exists>k l. stdev_of n x k \<and> stdev_of n y l \<and> correl_of n (map fsec x) (map fsec y) k l (fsec z))"
  have tj: "columns_ok n tbl js" and tt: "columns_ok n tbl ts" using t by (auto simp: columns_ok_def)
  have row: "wpS (\<lambda>_. False) (\<lambda>zs w'. wf_world P T J n sp w' \<and> list_all2 (?R (column tbl i)) (map (column tbl) js) zs)
      (mapS (\<lambda>col. correl (decs F) H col (column tbl i)) (map (column tbl) js)) w" if "wf_world P T J n sp w" "i \<in> set ts" for i w
  proof (rule wpS_mapS [where I = "wf_world P T J n sp" and R = "?R (column tbl i)"])
    fix x w assume x: "x \<in> set (map (column tbl) js)" and w: "wf_world P T J n sp w"
    have "stats_ok n x" "stats_ok n (column tbl i)" "length (column tbl i) = length x"
      using x that(2) tj tt by (auto simp: columns_ok_def column_length)
    then show "wpS (\<lambda>_. False) (\<lambda>z w'. wf_world P T J n sp w' \<and> ?R (column tbl i) x z) (correl (decs F) H x (column tbl i)) w"
      by (intro wpS_correl [OF w F H(1) _ _ _ H(2)]) auto
  qed (simp_all add: that)
  have "wpS (\<lambda>_. False) (\<lambda>zss w'. wf_world P T J n sp w' \<and> list_all2 (\<lambda>y zs. list_all2 (?R y) (map (column tbl) js) zs) (map (column tbl) ts) zss)
      (mapS (\<lambda>target. mapS (\<lambda>col. correl (decs F) H col target) (map (column tbl) js)) (map (column tbl) ts)) w"
  proof (rule wpS_mapS [where I = "wf_world P T J n sp" and R = "\<lambda>y zs. list_all2 (?R y) (map (column tbl) js) zs"])
    fix y w assume y: "y \<in> set (map (column tbl) ts)" and w: "wf_world P T J n sp w"
    then obtain i where "i \<in> set ts" "y = column tbl i" by auto
    with row [OF w] show "wpS (\<lambda>_. False) (\<lambda>zs w'. wf_world P T J n sp w' \<and> list_all2 (?R y) (map (column tbl) js) zs)
        (mapS (\<lambda>col. correl (decs F) H col y) (map (column tbl) js)) w" by blast
  qed (simp_all add: w)
  moreover have "CorrelJob_compute (decs F) H tbl (js # ts # arg) = mapS (\<lambda>target. mapS (\<lambda>col. correl (decs F) H col target) (map (column tbl) js)) (map (column tbl) ts)"
    using tj pick_columns_ok [OF tj] pick_columns_ok [OF tt]
    by (simp add: CorrelJob_compute_def nth_or_ub_def columns_ok_def isize_small bindS_lift)
  ultimately have "wpS (\<lambda>_. False) (\<lambda>zss w'. wf_world P T J n sp w' \<and> list_all2 (\<lambda>y zs. list_all2 (?R y) (map (column tbl) js) zs) (map (column tbl) ts) zss)
      (CorrelJob_compute (decs F) H tbl (js # ts # arg)) w"
    by simp
  then show ?thesis
    by (simp add: wpS_total list_all2_map1 fpVal_recons)
qed

definition milli_boost :: "rat boost" where
  "milli_boost = ref_boost'\<lparr>decs := (decs ref_boost')\<lparr>d_of_string := (\<lambda>_. 1 / 1000)\<rparr>\<rparr>"

lemma milli_boost_ok: "boost_ok milli_boost" "hi_ok (decs milli_boost) ref_hi" "fp_of_string (decs milli_boost) ''0.001'' = FP 100000"
proof -
  have "fp_div (decs milli_boost) = fp_div (decs ref_boost')" "fp_getInv (decs milli_boost) = fp_getInv (decs ref_boost')"
    "to_double milli_boost = to_double ref_boost'"
    by (auto intro!: ext simp: fp_div_def fp_getInv_def fp_of_dec_def fp_clamp_def milli_boost_def Let_def)
  with boost_ok_ref' show "boost_ok milli_boost" by (simp only: boost_ok_def)
  have "fp_getStrVal (decs milli_boost) = fp_getStrVal (decs ref_boost')"
    by (auto intro!: ext simp: fp_getStrVal_def fp_clamp_def milli_boost_def Let_def)
  with hi_ok_ref show "hi_ok (decs milli_boost) ref_hi" by (simp add: hi_ok_def)
  show "fp_of_string (decs milli_boost) ''0.001'' = FP 100000"
    by (simp add: fp_of_string_def milli_boost_def ref_boost'_def ref_boost_def shift_eq dtrunc_def)
qed

theorem correl_job_correct_witness:
  "\<exists>z w'. CorrelJob_compute (decs milli_boost) ref_hi demo_records [[1], [2]] demo_world = Inr ([[z]], w') \<and> length z = 2 \<and>
    (\<exists>k l. stdev_of 2 (column demo_records 1) k \<and> stdev_of 2 (column demo_records 2) l \<and> correl_of 2 [200000000, 400000000] [100000000, 300000000] k l (fpVal (recons z)))"
proof -
  have "columns_ok 2 demo_records ([1] @ [2])" using demo_records_ok by simp
  moreover have "map (\<lambda>s. fpVal (recons s)) (column demo_records 1) = [200000000, 400000000]"
    "map (\<lambda>s. fpVal (recons s)) (column demo_records 2) = [100000000, 300000000]"
    by (simp_all add: demo_records_def column_def fpVal_recons fsec_def)
  ultimately show ?thesis
    using correl_job_correct [OF wf_demo_world milli_boost_ok(1) _ milli_boost_ok(2,3), of demo_records "[1]" "[2]" "[]"]
    by (auto simp: list_all2_Cons1)
qed

end
