(* ===== verification/LinReg.thy ===== *)
theory LinReg
  imports Matrix JobComp Optim
begin

section \<open>Inverse matrices and linear regression\<close>

text \<open>
  \<open>ShareMatrix::inverse\<close> (modelled in \<open>Matrix\<close>) and \<open>Job/Jobs/LinearRegressionJob.hpp\<close>, which solves the normal equations with it. The inverse
  of the public matrix is Eigen's, the argument \<open>einv\<close>; the theorems say how its accuracy on the matrix that is opened carries over.
\<close>

subsection \<open>The job\<close>

definition LinearRegressionJob_parse_table :: "'a \<Rightarrow> 'a list list \<Rightarrow> int list list \<Rightarrow> ('a list list \<times> 'a list list) res" where
  "LinearRegressionJob_parse_table one tbl arg =
     bindE (nth_or_ub arg 0) (\<lambda>a0. bindE (design_rows one tbl a0) (\<lambda>x.
     bindE (nth_or_ub arg 1) (\<lambda>a1. case a1 of [] \<Rightarrow> Inl UndefinedBehaviour
       | j # _ \<Rightarrow> bindE (int_column tbl j) (\<lambda>y. Inr (x, map (\<lambda>v. [v]) y)))))"

definition LinearRegressionJob_compute ::
    "'d boost \<Rightarrow> (fp matrix \<Rightarrow> fp matrix) \<Rightarrow> fp list list list \<Rightarrow> int list list \<Rightarrow> (world, fp list list) comp" where
  "LinearRegressionJob_compute F einv tbl arg = withW (\<lambda>w.
     let one = getConstantShare (n_parties w) (w_sp w) (fp_of_string (decs F) ''1'') in
     bindS (liftS (LinearRegressionJob_parse_table one tbl arg)) (\<lambda>(x, y).
     bindS (liftS (setFromVector x)) (\<lambda>mat_x. bindS (liftS (setFromVector y)) (\<lambda>mat_y.
     let mat_x_trans = matrix_transpose mat_x in
     bindS (matrix_mult mat_x_trans mat_x) (\<lambda>mat_mul. bindS (matrix_inverse F einv mat_mul) (\<lambda>mat_mul_inv.
     bindS (matrix_mult mat_mul_inv mat_x_trans) (\<lambda>p. bindS (matrix_mult p mat_y) (\<lambda>v.
     liftS (nth_or_ub (get_row (matrix_transpose v)) 0)))))))))"

subsection \<open>Masked matrices\<close>

text \<open>The first half of \<open>inverse\<close>: the shared mask and the opened product.\<close>

definition inverse_mask :: "'d boost \<Rightarrow> fp list matrix \<Rightarrow> (world, fp list matrix \<times> fp matrix) comp" where
  "inverse_mask F A =
     bindS (mapS (\<lambda>i. mapS (\<lambda>j.
       bindS (on_rngs (getRand_fp 0 100)) (\<lambda>r. retS (share_fdiv (decs F) (fp_of_double 50) r)))
         [0..<cols A]) [0..<rows A]) (\<lambda>R'.
     bindS (liftS (setFromVector R')) (\<lambda>R. bindS (matrix_mult R A) (\<lambda>U_s.
     bindS (liftS (setFromVector (open_and_recons U_s))) (\<lambda>U. retS (R, U)))))"

lemma bindS_assoc: "bindS (bindS m f) g = bindS m (\<lambda>x. bindS (f x) g)"
proof
  show "bindS (bindS m f) g w = bindS m (\<lambda>x. bindS (f x) g) w" for w
    by (cases "m w") (auto simp: bindS_def)
qed

lemma bindS_retS: "bindS (retS x) f = f x"
  by (rule ext) (simp add: bindS_def retS_def)

lemma matrix_inverse_mask:
  "matrix_inverse F einv A = bindS (inverse_mask F A) (\<lambda>(R, U). bindS (sharize_mat (einv U)) (\<lambda>V. matrix_mult V R))"
  by (simp add: matrix_inverse_def inverse_mask_def bindS_assoc bindS_retS)

definition square :: "nat \<Rightarrow> 'a matrix \<Rightarrow> bool" where
  "square d A \<longleftrightarrow> wf_matrix A \<and> rows A = d \<and> cols A = d"

text \<open>What one run masks: \<open>U\<close> is the product of \<open>R\<close> and \<open>A\<close> up to the rounding.\<close>

definition masked :: "nat \<Rightarrow> nat \<Rightarrow> fp list matrix \<Rightarrow> fp list matrix \<Rightarrow> fp matrix \<Rightarrow> bool" where
  "masked n d A R U \<longleftrightarrow> matrix_of n R \<and> square d R \<and> square d U \<and>
     (\<forall>i < d. \<forall>j < d. \<bar>fsec (cell R i j)\<bar> \<le> 5 * int n * shift \<and>
        \<bar>shift * fpVal (cell U i j) - (\<Sum>k < d. fsec (cell R i k) * fsec (cell A k j))\<bar> \<le> int d * shift)"

lemma d50: "fp_of_double 50 = fp_of_int 50"
  using fp_of_double_int [of 50] by simp

lemma mask_entry:
  assumes w: "wf_world P T J n sp w" and F: "boost_ok F"
  shows "wpS E (\<lambda>z w'. wf_world P T J n sp w' \<and> length z = n \<and> \<bar>fsec z\<bar> \<le> 5 * int n * shift)
    (bindS (on_rngs (getRand_fp 0 100)) (\<lambda>r. retS (share_fdiv (decs F) (fp_of_double 50) r))) w"
  unfolding wpS_eta d50
proof (rule wpS_draws [OF w])
  fix ks w' assume w': "wf_world P T J n sp w'" and ks: "length ks = n" "drawn_fp P 0 100 ks"
  have v: "fpVal (fp_of_int 50) = 50 * shift"
    by (simp add: fp_of_int_def)
  have "\<forall>k \<in> set ks. \<bar>k\<bar> \<le> 100" using drawn_fp_range [OF ks(2)] by fastforce
  then have b: "fbound (100 * shift) (map fp_of_int ks)"
    by (auto simp: fbound_def fp_of_int_def abs_mult)
  have r: "50 * shift < dec_range" "100 * shift < dec_range"
    by (rule less_dec_range [of _ 50]; simp add: shift_eq)+
  have "fbound (1 + 2 * (100 * shift) * shift div (50 * shift)) (share_fdiv (decs F) (fp_of_int 50) (map fp_of_int ks))"
    using fdiv_bound [OF F _ _ _ r(2) b, of "fp_of_int 50"] r(1) unfolding v by simp
  then have "fbound (5 * shift) (share_fdiv (decs F) (fp_of_int 50) (map fp_of_int ks))"
    by (fastforce simp: fbound_def shift_eq list_all_iff)
  then have "\<bar>fsec (share_fdiv (decs F) (fp_of_int 50) (map fp_of_int ks))\<bar> \<le> 5 * shift * int n"
    using sum_list_bound [of "map fpVal (share_fdiv (decs F) (fp_of_int 50) (map fp_of_int ks))" "5 * shift"] ks(1)
    by (simp add: fbound_def list_all_iff fsec_def)
  with w' ks(1) show "wf_world P T J n sp w' \<and> length (share_fdiv (decs F) (fp_of_int 50) (map fp_of_int ks)) = n \<and>
      \<bar>fsec (share_fdiv (decs F) (fp_of_int 50) (map fp_of_int ks))\<bar> \<le> 5 * int n * shift"
    by (simp add: mult_ac)
qed simp_all

text \<open>A matrix whose entries come from one computation each.\<close>

lemma wpS_entries:
  assumes w: "wf_world P T J n sp w" and d: "0 < h" "0 < q" "h < 2 ^ 31" "q < 2 ^ 31"
    and m: "\<And>i j w. i < h \<Longrightarrow> j < q \<Longrightarrow> wf_world P T J n sp w \<Longrightarrow> wpS E (\<lambda>z w'. wf_world P T J n sp w' \<and> R i j z) (m i j) w"
    and post: "\<And>C w'. wf_world P T J n sp w' \<Longrightarrow> wf_matrix C \<Longrightarrow> rows C = h \<Longrightarrow> cols C = q \<Longrightarrow>
      (\<forall>i < h. \<forall>j < q. R i j (cell C i j)) \<Longrightarrow> wpS E Q (K C) w'"
  shows "wpS E Q (bindS (mapS (\<lambda>i. mapS (\<lambda>j. m i j) [0..<q]) [0..<h]) (\<lambda>ret. bindS (liftS (setFromVector ret)) (\<lambda>C. K C))) w"
  unfolding wpS_bindS
proof (rule wpS_mapS [where I = "wf_world P T J n sp" and R = "\<lambda>i r. list_all2 (R i) [0..<q] r"])
  fix i w assume "i \<in> set [0..<h]" "wf_world P T J n sp w"
  then show "wpS E (\<lambda>y s'. wf_world P T J n sp s' \<and> list_all2 (R i) [0..<q] y) (mapS (m i) [0..<q]) w"
    by (intro wpS_mapS [where I = "wf_world P T J n sp" and R = "R i"]) (auto intro: m)
next
  fix C w' assume w': "wf_world P T J n sp w'" and C: "list_all2 (\<lambda>i. list_all2 (R i) [0..<q]) [0..<h] C"
  have len: "length C = h" "\<forall>r \<in> set C. length r = q" "\<forall>i < h. \<forall>j < q. R i j (C ! i ! j)"
    using C by (auto simp: list_all2_conv_all_nth in_set_conv_nth)
  then have "setFromVector C = Inr \<lparr>rows = h, cols = q, cells = C\<rparr>"
    using d setFromVector_ok [of C q] by fastforce
  then show "wpS E (\<lambda>x. wpS E Q (K x)) (liftS (setFromVector C)) w'"
    using post [OF w', of "\<lparr>rows = h, cols = q, cells = C\<rparr>"] len d by (simp add: wf_matrix_def cell_def)
qed (rule w)

lemma size_fits: "0 < s \<Longrightarrow> s * d * d < k \<Longrightarrow> d * d < (k :: nat)"
  by (rule le_less_trans [of _ "s * d * d"]) simp_all

lemma cube_fits: "0 < d \<Longrightarrow> d * d * d < k \<Longrightarrow> d * d < (k :: nat)"
  by (rule le_less_trans [of _ "d * d * d"]) simp_all

lemma wpS_inverse_mask:
  assumes w: "wf_world P T J n sp w" and F: "boost_ok F" and A: "matrix_of n A" "square d A" "0 < d" "d * d * d < 2 ^ 31"
    and post: "\<And>R U w'. wf_world P T J n sp w' \<Longrightarrow> masked n d A R U \<Longrightarrow> Q (R, U) w'"
  shows "wpS E Q (inverse_mask F A) w"
  unfolding inverse_mask_def
proof (rule wpS_entries [OF w, where R = "\<lambda>_ _ z. length z = n \<and> \<bar>fsec z\<bar> \<le> 5 * int n * shift"])
  fix R w' assume w': "wf_world P T J n sp w'" and R: "wf_matrix R" "rows R = rows A" "cols R = cols A"
    "\<forall>i < rows A. \<forall>j < cols A. length (cell R i j) = n \<and> \<bar>fsec (cell R i j)\<bar> \<le> 5 * int n * shift"
  have d: "rows A = d" "cols A = d" "d < 2 ^ 31" "d * d < 2 ^ 31" using A(2,3) cube_fits [OF A(3,4)] by (simp_all add: square_def wf_matrix_def)
  have Rn: "matrix_of n R" using R by (simp add: matrix_of_def)
  show "wpS E Q (bindS (matrix_mult R A) (\<lambda>U_s. bindS (liftS (setFromVector (open_and_recons U_s))) (\<lambda>U. retS (R, U)))) w'"
    unfolding wpS_bindS
  proof (rule wpS_matrix_mult [OF w' Rn _ A(1)])
    fix U_s w2 assume w2: "wf_world P T J n sp w2" and U: "product_error n R A U_s"
    let ?U = "\<lparr>rows = d, cols = d, cells = open_and_recons U_s\<rparr>"
    have dU: "rows U_s = d" "cols U_s = d" using U R d by (simp_all add: product_error_def)
    then have "setFromVector (open_and_recons U_s) = Inr ?U"
      using A(3) d(3) setFromVector_ok [of "open_and_recons U_s" d] by (simp add: open_and_recons_def)
    moreover have "masked n d A R ?U"
      using U R Rn d dU by (auto simp: masked_def square_def wf_matrix_def product_error_def open_and_recons_def cell_def fpVal_recons)
    ultimately show "wpS E (\<lambda>x. wpS E Q (retS (R, x))) (liftS (setFromVector (open_and_recons U_s))) w2"
      using post [OF w2] by simp
  qed (use R A(3,4) d in \<open>simp_all add: mult_fits_def\<close>)
qed (rule mask_entry [OF _ F] | use A(2,3) in \<open>simp add: square_def wf_matrix_def\<close>)+

lemma inverse_overflow:
  assumes w: "wf_world P T J n sp w" and F: "boost_ok F" and A: "square d A" "0 < d" "\<not> d * d * d < 2 ^ 31"
  shows "matrix_inverse F einv A w = Inl UndefinedBehaviour"
proof -
  have "wpS (\<lambda>e. e = UndefinedBehaviour) (\<lambda>_ _. False) (inverse_mask F A) w"
    unfolding inverse_mask_def
  proof (rule wpS_entries [OF w, where R = "\<lambda>_ _ z. length z = n \<and> \<bar>fsec z\<bar> \<le> 5 * int n * shift"])
    fix R :: "fp list matrix" and w' assume "rows R = rows A" "cols R = cols A"
    then have "matrix_mult R A w' = Inl UndefinedBehaviour"
      using A by (intro matrix_mult_overflow) (auto simp: mult_fits_def square_def)
    then show "wpS (\<lambda>e. e = UndefinedBehaviour) (\<lambda>_ _. False)
        (bindS (matrix_mult R A) (\<lambda>U_s. bindS (liftS (setFromVector (open_and_recons U_s))) (\<lambda>U. retS (R, U)))) w'"
      unfolding wpS_bindS by (simp add: wpS_def)
  qed (rule mask_entry [OF _ F] | use A(1,2) in \<open>simp add: square_def wf_matrix_def\<close>)+
  then have "inverse_mask F A w = Inl UndefinedBehaviour"
    by (cases "inverse_mask F A w") (auto simp: wpS_def)
  then show ?thesis by (simp add: matrix_inverse_mask bindS_def)
qed

lemma bindS_right: "bindS m retS = m"
proof
  show "bindS m retS w = m w" for w by (cases "m w") (auto simp: bindS_def retS_def)
qed

lemma wpS_sharize_mat:
  assumes w: "wf_world P T J n sp w" and V: "square d V" "0 < d"
    and post: "\<And>C w'. wf_world P T J n sp w' \<Longrightarrow> matrix_of n C \<Longrightarrow> square d C \<Longrightarrow>
      (\<forall>i < d. \<forall>j < d. fsec (cell C i j) = fpVal (cell V i j)) \<Longrightarrow> Q C w'"
  shows "wpS E Q (sharize_mat V) w"
proof -
  have d: "rows V = d" "cols V = d" "d < 2 ^ 31" using V(1) by (simp_all add: square_def wf_matrix_def)
  have "wpS E Q (bindS (mapS (\<lambda>i. mapS (\<lambda>j. fp_sharize (cell V i j)) [0..<d]) [0..<d]) (\<lambda>ret. bindS (liftS (setFromVector ret)) (\<lambda>C. retS C))) w"
  proof (rule wpS_entries [OF w V(2) V(2) d(3) d(3), where R = "\<lambda>i j z. length z = n \<and> fsec z = fpVal (cell V i j)"])
    show "wpS E (\<lambda>z w'. wf_world P T J n sp w' \<and> length z = n \<and> fsec z = fpVal (cell V i j)) (fp_sharize (cell V i j)) w"
      if "wf_world P T J n sp w" for i j w
      by (rule wpS_fp_sharize [OF that]) simp
    show "wpS E Q (retS C) w'" if "wf_world P T J n sp w'" "wf_matrix C" "rows C = d" "cols C = d"
      "\<forall>i < d. \<forall>j < d. length (cell C i j) = n \<and> fsec (cell C i j) = fpVal (cell V i j)" for C w'
      using that by (auto simp: matrix_of_def square_def intro: post)
  qed
  then show ?thesis by (simp add: sharize_mat_def d bindS_right)
qed

subsection \<open>Errors of products\<close>

lemma sum_times_close:
  fixes f g c :: "nat \<Rightarrow> int"
  assumes "\<And>k. k < s \<Longrightarrow> \<bar>f k - g k\<bar> \<le> e" "\<And>k. k < s \<Longrightarrow> \<bar>c k\<bar> \<le> B"
  shows "\<bar>(\<Sum>k < s. f k * c k) - (\<Sum>k < s. g k * c k)\<bar> \<le> int s * (e * B)"
proof -
  have "\<bar>(f k - g k) * c k\<bar> \<le> e * B" if "k < s" for k
    using assms [OF that] by (simp add: abs_mult mult_mono')
  then have "(\<Sum>k < s. \<bar>(f k - g k) * c k\<bar>) \<le> (\<Sum>k < s. e * B)" by (intro sum_mono) simp
  moreover have "(\<Sum>k < s. f k * c k) - (\<Sum>k < s. g k * c k) = (\<Sum>k < s. (f k - g k) * c k)"
    by (simp add: left_diff_distrib sum_subtractf)
  ultimately show ?thesis by (simp add: order_trans [OF sum_abs])
qed

lemma sum_close:
  fixes f g :: "nat \<Rightarrow> int"
  assumes "\<And>k. k < s \<Longrightarrow> \<bar>f k - g k\<bar> \<le> e"
  shows "\<bar>(\<Sum>k < s. f k) - (\<Sum>k < s. g k)\<bar> \<le> int s * e"
  using sum_times_close [of s f g e "\<lambda>_. 1" 1] assms by simp

lemma sums_swap:
  fixes f :: "nat \<Rightarrow> int"
  shows "(\<Sum>k < s. (\<Sum>l < d. f l * g l k) * h k) = (\<Sum>l < d. f l * (\<Sum>k < s. g l k * h k))"
  by (simp add: sum_distrib_left sum_distrib_right mult.assoc) (rule sum.swap)

text \<open>\<open>m = v r\<close> inverts \<open>a\<close> when \<open>v\<close> inverts \<open>u = r a\<close>, all products rounded to units.\<close>

lemma masked_inverse:
  fixes v r u a m :: "nat \<Rightarrow> nat \<Rightarrow> int"
  assumes u: "\<And>l. l < d \<Longrightarrow> \<bar>sh * u l j - (\<Sum>k < d. r l k * a k j)\<bar> \<le> int d * sh"
    and m: "\<And>k. k < d \<Longrightarrow> \<bar>sh * m i k - (\<Sum>l < d. v i l * r l k)\<bar> \<le> int d * sh"
    and v: "\<bar>(\<Sum>l < d. v i l * u l j) - \<delta>\<bar> \<le> \<epsilon>" "\<And>l. l < d \<Longrightarrow> \<bar>v i l\<bar> \<le> B" and a: "\<And>k. k < d \<Longrightarrow> \<bar>a k j\<bar> \<le> B'" and sh: "0 < sh"
  shows "\<bar>(\<Sum>k < d. m i k * a k j) - \<delta>\<bar> \<le> \<epsilon> + int d * int d * (B + B')"
proof -
  have 1: "\<bar>(\<Sum>k < d. sh * m i k * a k j) - (\<Sum>k < d. (\<Sum>l < d. v i l * r l k) * a k j)\<bar> \<le> int d * ((int d * sh) * B')"
    by (rule sum_times_close) (simp_all add: m a)
  have 2: "\<bar>(\<Sum>l < d. sh * u l j * v i l) - (\<Sum>l < d. (\<Sum>k < d. r l k * a k j) * v i l)\<bar> \<le> int d * ((int d * sh) * B)"
    by (rule sum_times_close) (simp_all add: u v)
  have e1: "(\<Sum>k < d. sh * m i k * a k j) = sh * (\<Sum>k < d. m i k * a k j)" by (simp add: sum_distrib_left mult.assoc)
  have e2: "(\<Sum>l < d. sh * u l j * v i l) = sh * (\<Sum>l < d. v i l * u l j)" by (simp add: sum_distrib_left mult_ac)
  have e3: "(\<Sum>l < d. (\<Sum>k < d. r l k * a k j) * v i l) = (\<Sum>l < d. v i l * (\<Sum>k < d. r l k * a k j))" by (simp add: mult.commute)
  have 3: "\<bar>sh * (\<Sum>l < d. v i l * u l j) - sh * \<delta>\<bar> \<le> sh * \<epsilon>"
    using v(1) sh by (simp add: abs_mult flip: right_diff_distrib)
  have "sh * \<bar>(\<Sum>k < d. m i k * a k j) - \<delta>\<bar> = \<bar>sh * (\<Sum>k < d. m i k * a k j) - sh * \<delta>\<bar>"
    using sh by (simp add: abs_mult flip: right_diff_distrib)
  also have "\<dots> \<le> int d * ((int d * sh) * B') + int d * ((int d * sh) * B) + sh * \<epsilon>"
    using 1 2 3 unfolding e1 e2 e3 sums_swap by linarith
  finally have "sh * \<bar>(\<Sum>k < d. m i k * a k j) - \<delta>\<bar> \<le> sh * (\<epsilon> + int d * int d * (B + B'))"
    by (simp add: algebra_simps)
  then show ?thesis using sh by (simp add: mult_le_cancel_left)
qed

subsection \<open>The inverse\<close>

definition close_inverse :: "nat \<Rightarrow> int \<Rightarrow> int \<Rightarrow> fp matrix \<Rightarrow> fp matrix \<Rightarrow> bool" where
  "close_inverse d B \<epsilon> U V \<longleftrightarrow> square d V \<and> (\<forall>i < d. \<forall>j < d. \<bar>fpVal (cell V i j)\<bar> \<le> B \<and>
     \<bar>(\<Sum>l < d. fpVal (cell V i l) * fpVal (cell U l j)) - (if i = j then shift * shift else 0)\<bar> \<le> \<epsilon>)"

definition left_inverse :: "nat \<Rightarrow> nat \<Rightarrow> int \<Rightarrow> int \<Rightarrow> fp list matrix \<Rightarrow> fp list matrix \<Rightarrow> bool" where
  "left_inverse n d B \<epsilon> A M \<longleftrightarrow> matrix_of n M \<and> square d M \<and> (\<forall>i < d. \<forall>j < d. \<bar>fsec (cell M i j)\<bar> \<le> B \<and>
     \<bar>(\<Sum>k < d. fsec (cell M i k) * fsec (cell A k j)) - (if i = j then shift * shift else 0)\<bar> \<le> \<epsilon>)"

lemma wpS_unmask:
  assumes w: "wf_world P T J n sp w" and R: "masked n d A R U" "0 < d" and fits: "d * d * d < 2 ^ 31" and V: "close_inverse d B \<epsilon> U V0"
    and A: "\<forall>i < d. \<forall>j < d. \<bar>fsec (cell A i j)\<bar> \<le> B'"
  shows "wpS E (\<lambda>M w'. wf_world P T J n sp w' \<and> left_inverse n d (int d * (5 * int n * B + 1)) (\<epsilon> + int d * int d * (B + B')) A M)
    (bindS (sharize_mat V0) (\<lambda>V. matrix_mult V R)) w"
  unfolding wpS_bindS
proof (rule wpS_sharize_mat [OF w _ R(2)])
  show "square d V0" using V by (simp add: close_inverse_def)
  fix V w' assume w': "wf_world P T J n sp w'" and V': "matrix_of n V" "square d V" "\<forall>i < d. \<forall>j < d. fsec (cell V i j) = fpVal (cell V0 i j)"
  have d: "rows V = d" "cols V = d" "rows R = d" "cols R = d" "matrix_of n R"
    using V'(2) R(1) by (simp_all add: square_def masked_def)
  have v: "\<bar>fsec (cell V i j)\<bar> \<le> B" "\<bar>(\<Sum>l < d. fsec (cell V i l) * fpVal (cell U l j)) - (if i = j then shift * shift else 0)\<bar> \<le> \<epsilon>"
    if "i < d" "j < d" for i j
    using V V'(3) that by (simp_all add: close_inverse_def)
  show "wpS E (\<lambda>M w'. wf_world P T J n sp w' \<and> left_inverse n d (int d * (5 * int n * B + 1)) (\<epsilon> + int d * int d * (B + B')) A M) (matrix_mult V R) w'"
  proof (rule wpS_matrix_mult [OF w' V'(1)])
    fix M w2 assume w2: "wf_world P T J n sp w2" and M: "product_error n V R M"
    have m: "matrix_of n M" "square d M" and e: "\<bar>shift * fsec (cell M i j) - (\<Sum>k < d. fsec (cell V i k) * fsec (cell R k j))\<bar> \<le> int d * shift"
      if "i < d" "j < d" for i j
      using M d that by (auto simp: product_error_def square_def matrix_of_def)
    have "\<bar>fsec (cell M i j)\<bar> \<le> int d * (5 * int n * B + 1)" if "i < d" "j < d" for i j
    proof -
      have "\<bar>\<Sum>k < d. fsec (cell V i k) * fsec (cell R k j)\<bar> \<le> int d * (B * (5 * int n * shift))"
        using sum_times_close [of d "\<lambda>k. fsec (cell V i k)" "\<lambda>_. 0" B "\<lambda>k. fsec (cell R k j)" "5 * int n * shift"] v R(1) that
        by (simp add: masked_def)
      then have "\<bar>shift * fsec (cell M i j)\<bar> \<le> shift * (int d * (5 * int n * B + 1))"
        using e [OF that] by (simp add: algebra_simps)
      then show ?thesis by (simp add: abs_mult)
    qed
    moreover have "\<bar>(\<Sum>k < d. fsec (cell M i k) * fsec (cell A k j)) - (if i = j then shift * shift else 0)\<bar> \<le> \<epsilon> + int d * int d * (B + B')"
      if "i < d" "j < d" for i j
      by (rule masked_inverse [where v = "\<lambda>i j. fsec (cell V i j)" and r = "\<lambda>i j. fsec (cell R i j)" and u = "\<lambda>i j. fpVal (cell U i j)" and sh = shift])
        (use R(1) e v A that in \<open>simp_all add: masked_def\<close>)
    ultimately show "wf_world P T J n sp w2 \<and> left_inverse n d (int d * (5 * int n * B + 1)) (\<epsilon> + int d * int d * (B + B')) A M"
      using w2 m R(2) by (simp add: left_inverse_def)
  qed (use d R(2) fits cube_fits [OF R(2) fits] in \<open>simp_all add: mult_fits_def\<close>)
qed

text \<open>
  C26. The inverse of a shared matrix with \<open>d\<close> rows and columns. If \<open>d ^ 3\<close> is below \<open>2 ^ 31\<close> (at most 1290 rows), one run draws a mask \<open>R\<close> and opens
  only \<open>U\<close>, the product of \<open>R\<close> with the matrix up to the rounding.
  If the library's inverse of that \<open>U\<close> has entries up to \<open>B\<close> and its product with \<open>U\<close> is the unit matrix up to \<open>e\<close>, then the
  result times the matrix is the unit matrix up to \<open>e\<close> and \<open>d ^ 2 (B + B')\<close> squares of the unit in the last place, where \<open>B'\<close>
  bounds the entries of the matrix. For larger matrices the size of the product overflows, which is undefined behaviour.
\<close>

theorem matrix_inverse_correct:
  assumes w: "wf_world P T J n sp w" and F: "boost_ok F" and A: "matrix_of n A" "square d A" "0 < d"
    and B: "\<forall>i < d. \<forall>j < d. \<bar>fpVal (recons (cell A i j))\<bar> \<le> B'"
  shows "if d * d * d < 2 ^ 31 then \<exists>R U w1. inverse_mask F A w = Inr ((R, U), w1) \<and>
    (\<forall>i < d. \<forall>j < d. \<bar>shift * fpVal (cell U i j) - (\<Sum>k < d. fpVal (recons (cell R i k)) * fpVal (recons (cell A k j)))\<bar> \<le> int d * shift) \<and>
    (close_inverse d B \<epsilon> U (einv U) \<longrightarrow> (\<exists>M w'. matrix_inverse F einv A w = Inr (M, w') \<and> wf_world P T J n sp w' \<and> matrix_of n M \<and> square d M \<and>
      (\<forall>i < d. \<forall>j < d. \<bar>(\<Sum>k < d. fpVal (recons (cell M i k)) * fpVal (recons (cell A k j))) - (if i = j then shift * shift else 0)\<bar> \<le>
        \<epsilon> + int d * int d * (B + B'))))
    else matrix_inverse F einv A w = Inl UndefinedBehaviour"
proof (cases "d * d * d < 2 ^ 31")
  case fits: True
  have "wpS (\<lambda>_. False) (\<lambda>(R, U) w1. wf_world P T J n sp w1 \<and> masked n d A R U) (inverse_mask F A) w"
    by (rule wpS_inverse_mask [OF w F A fits]) simp
  then obtain R U w1 where 1: "inverse_mask F A w = Inr ((R, U), w1)" "wf_world P T J n sp w1" "masked n d A R U"
    by (auto simp: wpS_total)
  have "\<exists>M w'. matrix_inverse F einv A w = Inr (M, w') \<and> wf_world P T J n sp w' \<and> left_inverse n d (int d * (5 * int n * B + 1)) (\<epsilon> + int d * int d * (B + B')) A M"
    if V: "close_inverse d B \<epsilon> U (einv U)"
  proof -
    have "\<forall>i < d. \<forall>j < d. \<bar>fsec (cell A i j)\<bar> \<le> B'" using B by (simp add: fpVal_recons)
    note wpS_unmask [OF 1(2,3) A(3) fits V this, of "\<lambda>_. False", unfolded wpS_total]
    moreover have "matrix_inverse F einv A w = bindS (sharize_mat (einv U)) (\<lambda>V. matrix_mult V R) w1"
      by (simp add: matrix_inverse_mask bindS_def [of "inverse_mask F A"] 1(1))
    ultimately show ?thesis by simp
  qed
  with fits show ?thesis
    using 1(1,3) unfolding left_inverse_def masked_def fpVal_recons if_P [OF fits] by blast
next
  case False
  then show ?thesis using inverse_overflow [OF w F A(2,3)] by simp
qed

text \<open>An inverse of matrices of one entry, rounded towards zero.\<close>

definition ref_inverse :: "fp matrix \<Rightarrow> fp matrix" where
  "ref_inverse U = (let u = fpVal (cell U 0 0) in \<lparr>rows = 1, cols = 1, cells = [[FP (sgn u * (shift * shift div \<bar>u\<bar>))]]\<rparr>)"

lemma ref_inverse_close: "close_inverse 1 (shift * shift) (shift * shift) U (ref_inverse U)"
proof -
  define u where "u = fpVal (cell U 0 0)"
  define q where "q = shift * shift div \<bar>u\<bar>"
  have q: "0 \<le> q" "q * \<bar>u\<bar> \<le> shift * shift" "q \<le> shift * shift"
    using zdiv_mono2 [of "shift * shift" 1 "\<bar>u\<bar>"] by (cases "u = 0"; simp add: q_def pos_imp_zdiv_nonneg_iff minus_mod_eq_div_mult [symmetric])+
  have "sgn u * q * u = q * \<bar>u\<bar>" by (simp add: abs_sgn mult_ac)
  then have 1: "\<bar>sgn u * q * u - shift * shift\<bar> \<le> shift * shift" using q(2) mult_nonneg_nonneg [OF q(1) abs_ge_zero [of u]] by linarith
  have 2: "\<bar>sgn u * q\<bar> \<le> shift * shift" using q by (simp add: abs_mult sgn_if)
  have "cell (ref_inverse U) 0 0 = FP (sgn u * q)" "square 1 (ref_inverse U)"
    by (simp_all add: ref_inverse_def Let_def square_def wf_matrix_def cell_def u_def q_def)
  with 1 2 show ?thesis by (simp add: close_inverse_def u_def)
qed

theorem matrix_inverse_correct_witness:
  "\<exists>M w'. matrix_inverse ref_boost ref_inverse \<lparr>rows = 1, cols = 1, cells = [[[FP 200000000, FP 100000000]]]\<rparr> demo_world = Inr (M, w') \<and>
     matrix_of 2 M \<and> square 1 M"
proof -
  let ?A = "\<lparr>rows = 1, cols = 1, cells = [[[FP 200000000, FP 100000000]]]\<rparr> :: fp list matrix"
  have "matrix_of 2 ?A" "square 1 ?A" "\<forall>i < 1. \<forall>j < 1. \<bar>fpVal (recons (cell ?A i j))\<bar> \<le> 300000000"
    by (simp_all add: matrix_of_def square_def wf_matrix_def cell_def fpVal_recons fsec_def)
  from matrix_inverse_correct [OF wf_demo_world boost_ok_ref this(1,2) _ this(3), of "shift * shift" "shift * shift" ref_inverse] ref_inverse_close
  show ?thesis by auto
qed

subsection \<open>Normal equations\<close>

text \<open>
  \<open>m\<close> is a row of the approximate inverse of \<open>a\<close>, the rounded product of the data with themselves; \<open>p\<close> and \<open>v\<close> are the rounded products that
  the job forms with it. If \<open>\<theta>\<close> solves the normal equations of the data up to \<open>\<rho>\<close>, then \<open>v\<close> is close to its entry \<open>i\<close>.
\<close>

definition regression_error :: "int \<Rightarrow> nat \<Rightarrow> nat \<Rightarrow> int \<Rightarrow> int \<Rightarrow> int \<Rightarrow> int \<Rightarrow> int \<Rightarrow> int" where
  "regression_error sh s d Bm By B\<theta> \<eta> \<rho> =
     sh * sh * (int s * sh) + sh * (int s * ((int d * sh) * By)) + int d * (\<rho> * Bm) + int d * ((int d * ((int s * sh) * B\<theta>)) * Bm) + sh * (int d * (\<eta> * B\<theta>))"

lemma normal_equations:
  fixes x :: "nat \<Rightarrow> nat \<Rightarrow> int"
  assumes a: "\<And>l j. l < d \<Longrightarrow> j < d \<Longrightarrow> \<bar>sh * a l j - (\<Sum>k < s. x k l * x k j)\<bar> \<le> int s * sh"
    and m: "\<And>j. j < d \<Longrightarrow> \<bar>(\<Sum>l < d. m l * a l j) - (if i = j then sh * sh else 0)\<bar> \<le> \<eta>" "\<And>l. l < d \<Longrightarrow> \<bar>m l\<bar> \<le> Bm"
    and p: "\<And>k. k < s \<Longrightarrow> \<bar>sh * p k - (\<Sum>l < d. m l * x k l)\<bar> \<le> int d * sh"
    and v: "\<bar>sh * v - (\<Sum>k < s. p k * y k)\<bar> \<le> int s * sh"
    and \<theta>: "\<And>l. l < d \<Longrightarrow> \<bar>sh * (\<Sum>k < s. x k l * y k) - (\<Sum>j < d. (\<Sum>k < s. x k l * x k j) * \<theta> j)\<bar> \<le> \<rho>"
    and B: "\<And>k. k < s \<Longrightarrow> \<bar>y k\<bar> \<le> By" "\<And>j. j < d \<Longrightarrow> \<bar>\<theta> j\<bar> \<le> B\<theta>" and sh: "0 < sh" "i < d"
  shows "sh * sh * sh * \<bar>v - \<theta> i\<bar> \<le> regression_error sh s d Bm By B\<theta> \<eta> \<rho>"
proof -
  let ?G = "\<lambda>l j. \<Sum>k < s. x k l * x k j" and ?Xy = "\<lambda>l. \<Sum>k < s. x k l * y k"
  have "\<bar>sh * sh * (sh * v) - sh * sh * (\<Sum>k < s. p k * y k)\<bar> \<le> sh * sh * (int s * sh)"
    using v sh by (simp add: abs_mult flip: right_diff_distrib)
  moreover have "sh * sh * (\<Sum>k < s. p k * y k) = sh * (\<Sum>k < s. sh * p k * y k)"
    by (simp add: sum_distrib_left mult.assoc)
  moreover have "\<bar>(\<Sum>k < s. sh * p k * y k) - (\<Sum>k < s. (\<Sum>l < d. m l * x k l) * y k)\<bar> \<le> int s * ((int d * sh) * By)"
    by (rule sum_times_close) (simp_all add: p B)
  then have "\<bar>sh * (\<Sum>k < s. sh * p k * y k) - sh * (\<Sum>k < s. (\<Sum>l < d. m l * x k l) * y k)\<bar> \<le> sh * (int s * ((int d * sh) * By))"
    using sh by (simp add: abs_mult flip: right_diff_distrib)
  moreover have "sh * (\<Sum>k < s. (\<Sum>l < d. m l * x k l) * y k) = (\<Sum>l < d. sh * ?Xy l * m l)"
    unfolding sums_swap [where f = m and g = "\<lambda>l k. x k l" and h = y] by (simp add: sum_distrib_left mult_ac)
  moreover have "\<bar>(\<Sum>l < d. sh * ?Xy l * m l) - (\<Sum>l < d. (\<Sum>j < d. ?G l j * \<theta> j) * m l)\<bar> \<le> int d * (\<rho> * Bm)"
    by (rule sum_times_close) (simp_all add: \<theta> m)
  moreover have "\<bar>(\<Sum>l < d. (\<Sum>j < d. sh * a l j * \<theta> j) * m l) - (\<Sum>l < d. (\<Sum>j < d. ?G l j * \<theta> j) * m l)\<bar> \<le> int d * ((int d * ((int s * sh) * B\<theta>)) * Bm)"
    by (intro sum_times_close) (simp_all add: a m B)
  moreover have "(\<Sum>l < d. (\<Sum>j < d. sh * a l j * \<theta> j) * m l) = sh * (\<Sum>j < d. (\<Sum>l < d. m l * a l j) * \<theta> j)"
    unfolding sums_swap [where f = m and g = a and h = \<theta>] by (simp add: sum_distrib_left mult_ac)
  moreover have "\<bar>(\<Sum>j < d. (\<Sum>l < d. m l * a l j) * \<theta> j) - (\<Sum>j < d. (if i = j then sh * sh else 0) * \<theta> j)\<bar> \<le> int d * (\<eta> * B\<theta>)"
    by (rule sum_times_close) (simp_all add: m B)
  then have "\<bar>sh * (\<Sum>j < d. (\<Sum>l < d. m l * a l j) * \<theta> j) - sh * (sh * sh * \<theta> i)\<bar> \<le> sh * (int d * (\<eta> * B\<theta>))"
    using sh by (simp add: abs_mult if_distrib [of "\<lambda>z. z * _"] sum.delta cong: if_cong flip: right_diff_distrib)
  ultimately have "\<bar>sh * sh * (sh * v) - sh * (sh * sh * \<theta> i)\<bar> \<le> regression_error sh s d Bm By B\<theta> \<eta> \<rho>"
    unfolding regression_error_def by linarith
  moreover have "sh * sh * sh * \<bar>v - \<theta> i\<bar> = \<bar>sh * sh * (sh * v) - sh * (sh * sh * \<theta> i)\<bar>"
    using sh by (simp add: abs_mult mult.assoc flip: right_diff_distrib)
  ultimately show ?thesis by simp
qed

subsection \<open>Linear regression\<close>

definition design_matrix :: "'a \<Rightarrow> 'a list list \<Rightarrow> int list \<Rightarrow> 'a matrix" where
  "design_matrix one tbl js = \<lparr>rows = length tbl, cols = Suc (length js), cells = map (\<lambda>row. one # map (\<lambda>j. row ! nat (j - 1)) js) tbl\<rparr>"

definition target_matrix :: "'a list list \<Rightarrow> int \<Rightarrow> 'a matrix" where
  "target_matrix tbl t = \<lparr>rows = length tbl, cols = 1, cells = map (\<lambda>row. [row ! nat (t - 1)]) tbl\<rparr>"

lemma linear_parse_ok:
  assumes "\<forall>row \<in> set tbl. \<forall>j \<in> set (t # js). 1 \<le> j \<and> j \<le> int (length row)" "tbl \<noteq> []" "length tbl < 2 ^ 31" "length js < 2 ^ 31 - 1"
  shows "\<exists>x y. LinearRegressionJob_parse_table one tbl (js # (t # ts) # arg) = Inr (x, y) \<and> setFromVector x = Inr (design_matrix one tbl js) \<and>
    setFromVector y = Inr (target_matrix tbl t)"
proof -
  have "pick_with_one one tbl js = Inr (map (\<lambda>row. one # map (\<lambda>j. row ! nat (j - 1)) js) tbl) \<and>
      pick_column tbl t = Inr (map (\<lambda>row. row ! nat (t - 1)) tbl)"
    using parse_regression_ok [OF assms(1,3,4), of one ts arg]
    by (cases "pick_with_one one tbl js"; cases "pick_column tbl t")
      (simp_all add: parse_regression_def nth_or_ub_def design_rows_small [OF assms(3,4)] int_column_small [OF assms(3)])
  then have p: "LinearRegressionJob_parse_table one tbl (js # (t # ts) # arg) =
      Inr (map (\<lambda>row. one # map (\<lambda>j. row ! nat (j - 1)) js) tbl, map (\<lambda>row. [row ! nat (t - 1)]) tbl)"
    by (simp add: LinearRegressionJob_parse_table_def nth_or_ub_def comp_def design_rows_small [OF assms(3,4)] int_column_small [OF assms(3)])
  show ?thesis
    unfolding p design_matrix_def target_matrix_def using assms(2-4)
    by (auto simp: setFromVector_ok [where w = "Suc (length js)"] setFromVector_ok [where w = 1])
qed

lemma product_bound:
  assumes "product_error n A B C" "i < rows A" "j < cols B" "\<And>k. k < cols A \<Longrightarrow> \<bar>fsec (cell A i k)\<bar> \<le> b" "\<And>k. k < cols A \<Longrightarrow> \<bar>fsec (cell B k j)\<bar> \<le> b"
    "int (cols A) * (b * b) + int (cols A) * shift \<le> shift * c"
  shows "\<bar>fsec (cell C i j)\<bar> \<le> c"
proof -
  have "\<bar>\<Sum>k < cols A. fsec (cell A i k) * fsec (cell B k j)\<bar> \<le> int (cols A) * (b * b)"
    using sum_times_close [of "cols A" "\<lambda>k. fsec (cell A i k)" "\<lambda>_. 0" b "\<lambda>k. fsec (cell B k j)" b] assms(4,5) by simp
  moreover have "\<bar>shift * fsec (cell C i j) - (\<Sum>k < cols A. fsec (cell A i k) * fsec (cell B k j))\<bar> \<le> int (cols A) * shift"
    using assms(1-3) by (simp add: product_error_def)
  ultimately have "\<bar>shift * fsec (cell C i j)\<bar> \<le> shift * c" using assms(6) by linarith
  then show ?thesis by (simp add: abs_mult)
qed

text \<open>The products after the inverse.\<close>

lemma wpS_solve:
  assumes w: "wf_world P T J n sp w" and M: "left_inverse n d Bm \<eta> A M" "0 < d" and X: "matrix_of n X" "rows X = s" "cols X = d"
    and Y: "matrix_of n Y" "rows Y = s" "cols Y = 1" and A: "product_error n (matrix_transpose X) X A"
    and fits: "s * d * d < 2 ^ 31"
    and By: "\<And>k. k < s \<Longrightarrow> \<bar>fsec (cell Y k 0)\<bar> \<le> By" and \<theta>: "\<And>j. j < d \<Longrightarrow> \<bar>\<theta> j\<bar> \<le> B\<theta>"
      "\<And>l. l < d \<Longrightarrow> \<bar>shift * (\<Sum>k < s. fsec (cell X k l) * fsec (cell Y k 0)) - (\<Sum>j < d. (\<Sum>k < s. fsec (cell X k l) * fsec (cell X k j)) * \<theta> j)\<bar> \<le> \<rho>"
  shows "wpS E (\<lambda>v w'. wf_world P T J n sp w' \<and> length v = d \<and> (\<forall>i < d. length (v ! i) = n \<and>
      shift * shift * shift * \<bar>fsec (v ! i) - \<theta> i\<bar> \<le> regression_error shift s d Bm By B\<theta> \<eta> \<rho>))
    (bindS (matrix_mult M (matrix_transpose X)) (\<lambda>p. bindS (matrix_mult p Y) (\<lambda>v. liftS (nth_or_ub (get_row (matrix_transpose v)) 0)))) w"
  unfolding wpS_bindS
proof (rule wpS_matrix_mult [OF w])
  have Md: "rows M = d" "cols M = d" using M(1) by (simp_all add: left_inverse_def square_def)
  have sizes: "d * s < 2 ^ 31" "d < 2 ^ 31" "d * s * d < 2 ^ 31"
  proof -
    have "d * s \<le> s * d * d" using M(2) by simp
    then show "d * s < 2 ^ 31" using fits by (rule le_less_trans)
    show "d * s * d < 2 ^ 31" using fits by (simp only: mult.commute [of d s])
  qed (use M(1) in \<open>simp add: left_inverse_def square_def wf_matrix_def\<close>)
  show "mult_fits M (matrix_transpose X)" using sizes Md X by (simp add: mult_fits_def)
  show "matrix_of n M" "0 < rows M" "matrix_of n (matrix_transpose X)" "cols M = rows (matrix_transpose X)"
    using M X matrix_of_transpose Md by (simp_all add: left_inverse_def)
  fix p w1 assume w1: "wf_world P T J n sp w1" and p: "product_error n M (matrix_transpose X) p"
  have pd: "matrix_of n p" "rows p = d" "cols p = s" using p Md X by (simp_all add: product_error_def)
  show "wpS E (\<lambda>v. wpS E (\<lambda>v w'. wf_world P T J n sp w' \<and> length v = d \<and> (\<forall>i < d. length (v ! i) = n \<and>
      shift * shift * shift * \<bar>fsec (v ! i) - \<theta> i\<bar> \<le> regression_error shift s d Bm By B\<theta> \<eta> \<rho>))
      (liftS (nth_or_ub (get_row (matrix_transpose v)) 0))) (matrix_mult p Y) w1"
  proof (rule wpS_matrix_mult [OF w1 pd(1) _ Y(1)])
    fix v w2 assume w2: "wf_world P T J n sp w2" and v: "product_error n p Y v"
    have vd: "matrix_of n v" "rows v = d" "cols v = 1" using v pd Y by (simp_all add: product_error_def)
    have r: "get_row (matrix_transpose v) = [map (\<lambda>i. cell v i 0) [0..<d]]"
      using vd by (simp add: get_row_def)
    have "shift * shift * shift * \<bar>fsec (cell v i 0) - \<theta> i\<bar> \<le> regression_error shift s d Bm By B\<theta> \<eta> \<rho>" if i: "i < d" for i
    proof (rule normal_equations [where x = "\<lambda>k l. fsec (cell X k l)" and a = "\<lambda>l j. fsec (cell A l j)" and m = "\<lambda>l. fsec (cell M i l)" and
        p = "\<lambda>k. fsec (cell p i k)" and y = "\<lambda>k. fsec (cell Y k 0)" and \<theta> = \<theta> and i = i and By = By])
      show "\<bar>shift * fsec (cell A l j) - (\<Sum>k < s. fsec (cell X k l) * fsec (cell X k j))\<bar> \<le> int s * shift" if "l < d" "j < d" for l j
        using A X that by (simp add: product_error_def)
      show "\<bar>shift * fsec (cell p i k) - (\<Sum>l < d. fsec (cell M i l) * fsec (cell X k l))\<bar> \<le> int d * shift" if "k < s" for k
        using p Md X i that by (simp add: product_error_def)
      show "\<bar>shift * fsec (cell v i 0) - (\<Sum>k < s. fsec (cell p i k) * fsec (cell Y k 0))\<bar> \<le> int s * shift"
        using v pd Y i by (simp add: product_error_def)
    qed (use M i By \<theta> in \<open>auto simp: left_inverse_def\<close>)
    moreover have "length (cell v i 0) = n" if "i < d" for i using vd that by (simp add: matrix_of_def)
    ultimately show "wpS E (\<lambda>v w'. wf_world P T J n sp w' \<and> length v = d \<and> (\<forall>i < d. length (v ! i) = n \<and>
        shift * shift * shift * \<bar>fsec (v ! i) - \<theta> i\<bar> \<le> regression_error shift s d Bm By B\<theta> \<eta> \<rho>))
        (liftS (nth_or_ub (get_row (matrix_transpose v)) 0)) w2"
      using w2 by (simp add: r nth_or_ub_def)
  qed (use pd Y M sizes in \<open>simp_all add: mult_fits_def\<close>)
qed

lemma design_matrix_of:
  assumes "\<forall>row \<in> set tbl. \<forall>j \<in> set js. length (row ! nat (j - 1)) = n" "length one = n" "length tbl < 2 ^ 31" "length js < 2 ^ 31 - 1"
  shows "matrix_of n (design_matrix one tbl js)"
    "k < length tbl \<Longrightarrow> l < Suc (length js) \<Longrightarrow> cell (design_matrix one tbl js) k l = (if l = 0 then one else tbl ! k ! nat (js ! (l - 1) - 1))"
  using assms by (auto simp: matrix_of_def wf_matrix_def design_matrix_def cell_def nth_Cons')

lemma target_matrix_of:
  assumes "\<forall>row \<in> set tbl. length (row ! nat (t - 1)) = n" "length tbl < 2 ^ 31"
  shows "matrix_of n (target_matrix tbl t)" "k < length tbl \<Longrightarrow> cell (target_matrix tbl t) k 0 = tbl ! k ! nat (t - 1)"
  using assms by (auto simp: matrix_of_def wf_matrix_def target_matrix_def cell_def)

text \<open>
  C8. Linear regression on a table with at least one record, feature columns \<open>js\<close> and target column \<open>t\<close>: the job forms the product of the design matrix (a
  column of ones, then the features) with its transpose and inverts it as in the theorem above. With \<open>s\<close> records and \<open>d\<close> columns of the design
  matrix, if \<open>s d ^ 2\<close> and \<open>d ^ 3\<close> are below \<open>2 ^ 31\<close> and the library's inverse of the opened matrix is close, the job ends normally with one share per column of the design matrix, and for every vector \<open>th\<close> that solves
  the normal equations of the secrets up to \<open>r\<close>, every secret weight is the entry of \<open>th\<close> up to \<open>regression_error\<close>. On larger tables a size overflows, which is undefined behaviour.
\<close>

theorem linear_regression_correct:
  assumes w: "wf_world P T J n sp w" and F: "boost_ok F" "fp_of_string (decs F) ''1'' = fp_of_int 1"
    and tbl: "tbl \<noteq> []" "\<forall>row \<in> set tbl. \<forall>j \<in> set (t # js). 1 \<le> j \<and> j \<le> int (length row) \<and> length (row ! nat (j - 1)) = n"
    and s: "s = length tbl" "d = Suc (length js)" "s < 2 ^ 31" "d < 2 ^ 31"
    and x: "x = (\<lambda>k l. if l = 0 then shift else fpVal (recons (tbl ! k ! nat (js ! (l - 1) - 1))))" "y = (\<lambda>k. fpVal (recons (tbl ! k ! nat (t - 1))))"
    and B: "\<forall>k < s. \<forall>l < d. \<bar>x k l\<bar> \<le> Bx" "\<forall>k < s. \<bar>y k\<bar> \<le> By" "int s * (Bx * Bx) + int s * shift \<le> shift * Ba"
    and \<theta>: "\<forall>j < d. \<bar>\<theta> j\<bar> \<le> B\<theta>"
      "\<forall>l < d. \<bar>shift * (\<Sum>k < s. x k l * y k) - (\<Sum>j < d. (\<Sum>k < s. x k l * x k j) * \<theta> j)\<bar> \<le> \<rho>"
  shows "if s * d * d < 2 ^ 31 \<and> d * d * d < 2 ^ 31 then \<exists>A w1 R U w2. matrix_mult (matrix_transpose (design_matrix (getConstantShare n sp (fp_of_int 1)) tbl js))
        (design_matrix (getConstantShare n sp (fp_of_int 1)) tbl js) w = Inr (A, w1) \<and> inverse_mask F A w1 = Inr ((R, U), w2) \<and>
    (close_inverse d B \<epsilon> U (einv U) \<longrightarrow> (\<exists>v w'. LinearRegressionJob_compute F einv tbl (js # (t # ts) # arg) w = Inr (v, w') \<and>
      wf_world P T J n sp w' \<and> length v = d \<and> (\<forall>i < d. length (v ! i) = n \<and> shift * shift * shift * \<bar>fpVal (recons (v ! i)) - \<theta> i\<bar> \<le>
        regression_error shift s d (int d * (5 * int n * B + 1)) By B\<theta> (\<epsilon> + int d * int d * (B + Ba)) \<rho>)))
    else LinearRegressionJob_compute F einv tbl (js # (t # ts) # arg) w = Inl UndefinedBehaviour"
proof -
  let ?one = "getConstantShare n sp (fp_of_int 1)"
  let ?X = "design_matrix ?one tbl js" and ?Y = "target_matrix tbl t"
  have n: "0 < n" "w_sp w = sp" "sp < n" "n_parties w = n" using w by (auto simp: wf_world_def n_parties_def)
  have one: "fsec ?one = shift" using n(3) by (simp add: getConstantShare_def share_simps fp_of_int_def)
  have X: "matrix_of n ?X" "rows ?X = s" "cols ?X = d" "0 < d"
    using design_matrix_of(1) [of tbl js n ?one] tbl(2) s(3,4) by (simp_all add: design_matrix_def s(1,2))
  have xc: "fsec (cell ?X k l) = x k l" if "k < s" "l < d" for k l
    using design_matrix_of(2) [of tbl js n ?one k l] tbl(2) s(3,4) that by (simp add: s(1,2) x(1) one fpVal_recons)
  have Y: "matrix_of n ?Y" "rows ?Y = s" "cols ?Y = 1" and yc: "k < s \<Longrightarrow> fsec (cell ?Y k 0) = y k" for k
    using target_matrix_of [of tbl t n] tbl(2) s(3) by (simp_all add: target_matrix_def s(1,2) x(2) fpVal_recons cell_def)
  have "\<forall>row \<in> set tbl. \<forall>j \<in> set (t # js). 1 \<le> j \<and> j \<le> int (length row)" using tbl(2) by blast
  from linear_parse_ok [OF this tbl(1), of ?one ts arg] s
  obtain xs ys where parsed: "LinearRegressionJob_parse_table ?one tbl (js # (t # ts) # arg) = Inr (xs, ys)" "setFromVector xs = Inr ?X" "setFromVector ys = Inr ?Y"
    by auto
  have compute: "LinearRegressionJob_compute F einv tbl (js # (t # ts) # arg) w = bindS (matrix_mult (matrix_transpose ?X) ?X) (\<lambda>A.
      bindS (matrix_inverse F einv A) (\<lambda>M. bindS (matrix_mult M (matrix_transpose ?X)) (\<lambda>p. bindS (matrix_mult p ?Y) (\<lambda>v.
      liftS (nth_or_ub (get_row (matrix_transpose v)) 0))))) w"
    by (simp add: LinearRegressionJob_compute_def withW_def Let_def n F(2) parsed bindS_lift)
  have fits: "mult_fits (matrix_transpose ?X) ?X \<longleftrightarrow> s * d * d < 2 ^ 31"
    using size_fits [of s d "2 ^ 31"] X(2,4) tbl(1) by (auto simp: mult_fits_def X mult_ac s(1))
  have first: "\<exists>A w1. matrix_mult (matrix_transpose ?X) ?X w = Inr (A, w1) \<and> wf_world P T J n sp w1 \<and> product_error n (matrix_transpose ?X) ?X A"
    if "s * d * d < 2 ^ 31"
  proof -
    have "wpS (\<lambda>_. False) (\<lambda>A w1. wf_world P T J n sp w1 \<and> product_error n (matrix_transpose ?X) ?X A) (matrix_mult (matrix_transpose ?X) ?X) w"
      using X that fits by (intro wpS_matrix_mult [OF w matrix_of_transpose [OF X(1)] _ X(1)]) simp_all
    then show ?thesis by (simp add: wpS_total)
  qed
  show ?thesis
  proof (cases "s * d * d < 2 ^ 31 \<and> d * d * d < 2 ^ 31")
    case False
    have "LinearRegressionJob_compute F einv tbl (js # (t # ts) # arg) w = Inl UndefinedBehaviour"
    proof (cases "s * d * d < 2 ^ 31")
      case True
      then obtain A w1 where A: "matrix_mult (matrix_transpose ?X) ?X w = Inr (A, w1)" "wf_world P T J n sp w1" "product_error n (matrix_transpose ?X) ?X A"
        using first by blast
      then have "square d A" using X by (simp add: product_error_def square_def matrix_of_def)
      then have "matrix_inverse F einv A w1 = Inl UndefinedBehaviour"
        using False True by (intro inverse_overflow [OF A(2) F(1) _ X(4)]) auto
      then show ?thesis unfolding compute by (simp add: bindS_def A(1))
    next
      case False
      then have "matrix_mult (matrix_transpose ?X) ?X w = Inl UndefinedBehaviour"
        using fits X by (intro matrix_mult_overflow) simp_all
      then show ?thesis unfolding compute by (simp add: bindS_def)
    qed
    with False show ?thesis by (simp only: if_False)
  next
    case fits': True
    obtain A w1 where A: "matrix_mult (matrix_transpose ?X) ?X w = Inr (A, w1)" "wf_world P T J n sp w1" "product_error n (matrix_transpose ?X) ?X A"
      using first fits' by blast
  have Ad: "matrix_of n A" "square d A" using A(3) X by (simp_all add: product_error_def square_def matrix_of_def)
  have Ba: "\<forall>i < d. \<forall>j < d. \<bar>fsec (cell A i j)\<bar> \<le> Ba"
    using X B(1,3) xc by (intro allI impI product_bound [OF A(3)]) simp_all
  have "wpS (\<lambda>_. False) (\<lambda>(R, U) w2. wf_world P T J n sp w2 \<and> masked n d A R U) (inverse_mask F A) w1"
    using fits' by (intro wpS_inverse_mask [OF A(2) F(1) Ad X(4)]) simp_all
  then obtain R U w2 where R: "inverse_mask F A w1 = Inr ((R, U), w2)" "wf_world P T J n sp w2" "masked n d A R U"
    by (auto simp: wpS_total)
  have "\<exists>v w'. LinearRegressionJob_compute F einv tbl (js # (t # ts) # arg) w = Inr (v, w') \<and>
      wf_world P T J n sp w' \<and> length v = d \<and> (\<forall>i < d. length (v ! i) = n \<and> shift * shift * shift * \<bar>fsec (v ! i) - \<theta> i\<bar> \<le>
        regression_error shift s d (int d * (5 * int n * B + 1)) By B\<theta> (\<epsilon> + int d * int d * (B + Ba)) \<rho>)"
    if V: "close_inverse d B \<epsilon> U (einv U)"
  proof -
    let ?Q = "\<lambda>v w'. wf_world P T J n sp w' \<and> length v = d \<and> (\<forall>i < d. length (v ! i) = n \<and> shift * shift * shift * \<bar>fsec (v ! i) - \<theta> i\<bar> \<le>
        regression_error shift s d (int d * (5 * int n * B + 1)) By B\<theta> (\<epsilon> + int d * int d * (B + Ba)) \<rho>)"
    let ?solve = "\<lambda>M. bindS (matrix_mult M (matrix_transpose ?X)) (\<lambda>p. bindS (matrix_mult p ?Y) (\<lambda>v. liftS (nth_or_ub (get_row (matrix_transpose v)) 0)))"
    have solve: "wpS (\<lambda>_. False) ?Q (?solve M) w3"
      if "wf_world P T J n sp w3" "left_inverse n d (int d * (5 * int n * B + 1)) (\<epsilon> + int d * int d * (B + Ba)) A M" for M w3
    proof (rule wpS_solve [OF that X(4,1-3) Y A(3) conjunct1 [OF fits']])
      fix l assume "l < d"
      then show "\<bar>shift * (\<Sum>k < s. fsec (cell ?X k l) * fsec (cell ?Y k 0)) - (\<Sum>j < d. (\<Sum>k < s. fsec (cell ?X k l) * fsec (cell ?X k j)) * \<theta> j)\<bar> \<le> \<rho>"
        using \<theta>(2) by (simp add: xc yc)
    qed (use B(2) \<theta>(1) in \<open>simp_all add: yc\<close>)
    have "wpS (\<lambda>_. False) ?Q (bindS (bindS (sharize_mat (einv U)) (\<lambda>V. matrix_mult V R)) ?solve) w2"
      unfolding wpS_bindS [of _ _ "bindS (sharize_mat (einv U)) (\<lambda>V. matrix_mult V R)"]
      by (rule wpS_mono [OF wpS_unmask [OF R(2,3) X(4) conjunct2 [OF fits'] V Ba]]) (elim conjE, rule solve)
    moreover have "LinearRegressionJob_compute F einv tbl (js # (t # ts) # arg) w = bindS (bindS (sharize_mat (einv U)) (\<lambda>V. matrix_mult V R)) ?solve w2"
      unfolding compute by (simp add: bindS_def A(1) R(1) matrix_inverse_mask)
    ultimately show ?thesis by (simp only: wpS_total)
  qed
  then show ?thesis
    using A(1) R(1) unfolding fpVal_recons if_P [OF fits'] by blast
  qed
qed

theorem linear_regression_correct_witness:
  "\<exists>z w'. LinearRegressionJob_compute (ref_boost_with [(''1'', 1)]) ref_inverse [[[FP 300000000, FP 0]], [[FP 0, FP 500000000]]] [[], [1]] demo_world = Inr ([z], w') \<and>
     shift * shift * shift * \<bar>fpVal (recons z) - 4 * shift\<bar> \<le> regression_error shift 2 1 (10 * shift * shift + 1) (5 * shift) (4 * shift) (2 * shift * shift + 2 * shift + 2) 0"
proof -
  let ?tbl = "[[[FP 300000000, FP 0]], [[FP 0, FP 500000000]]]"
  let ?x = "\<lambda>k l. if l = 0 then shift else fpVal (recons (?tbl ! k ! nat (([] :: int list) ! (l - 1) - 1)))" and ?y = "\<lambda>k. fpVal (recons (?tbl ! k ! nat (1 - 1)))"
  have one: "fp_of_string (decs (ref_boost_with [(''1'', 1)])) ''1'' = fp_of_int 1"
    by (simp add: fp_of_string_with fp_of_int_def shift_eq dtrunc_def)
  have t: "\<forall>row \<in> set ?tbl. \<forall>j \<in> set [1 :: int]. 1 \<le> j \<and> j \<le> int (length row) \<and> length (row ! nat (j - 1)) = 2" by simp
  have less_2: "k < (2 :: nat) \<longleftrightarrow> k = 0 \<or> k = 1" for k by auto
  have B: "\<forall>k < 2. \<forall>l < 1. \<bar>?x k l\<bar> \<le> shift" "\<forall>k < 2. \<bar>?y k\<bar> \<le> 5 * shift" "int 2 * (shift * shift) + int 2 * shift \<le> shift * (2 * shift + 2)"
    by (auto simp: less_2 fpVal_recons fsec_def shift_eq)
  have th: "\<forall>j < 1. \<bar>4 * shift\<bar> \<le> 4 * shift" "\<forall>l < 1. \<bar>shift * (\<Sum>k < 2. ?x k l * ?y k) - (\<Sum>j < 1. (\<Sum>k < 2. ?x k l * ?x k j) * (4 * shift))\<bar> \<le> 0"
    by (simp_all add: numeral_2_eq_2 fpVal_recons fsec_def shift_eq)
  from linear_regression_correct [OF wf_demo_world boost_ok_with one _ t _ _ _ _ refl refl B th, of "shift * shift" "shift * shift" ref_inverse "[]" "[]"] ref_inverse_close
  show ?thesis by (auto simp: length_Suc_conv algebra_simps)
qed

end
