(* ===== verification/ShareMod.thy ===== *)
theory ShareMod
  imports Lsb
begin

section \<open>Remainders\<close>

text \<open>
  \<open>operator%\<close> of \<open>Share/Share.hpp\<close>: the remainder of a shared number by a public one, opened. Every party masks with a random multiple of the
  modulus; the rest is arithmetic on doubles, which here are the rationals rounded by \<open>rnd\<close>. The standard library's \<open>stod\<close> and
  \<open>to_string\<close> on doubles are arguments.
\<close>

definition dround :: "rat \<Rightarrow> int" where
  "dround x = (if 0 \<le> x then \<lfloor>x + 1 / 2\<rfloor> else \<lceil>x - 1 / 2\<rceil>)"

text \<open>The remainder from the opened masked value \<open>r\<close>, and the bound of the masks.\<close>

definition mod_value :: "rat \<Rightarrow> rat \<Rightarrow> int" where
  "mod_value p r = (let tmp = - rnd (r / p) in dround (rnd (p * rnd (tmp - of_int \<lfloor>tmp\<rfloor>))))"

definition mask_bounds :: "rat \<Rightarrow> int \<times> int" where
  "mask_bounds p = (let rand_max_value = dtrunc (rnd (of_int maxInt / p)); rand_min_value = - rand_max_value
     in if rand_max_value < rand_min_value then (rand_max_value, rand_min_value) else (rand_min_value, rand_max_value))"

definition share_mod :: "'d boost \<Rightarrow> (string \<Rightarrow> rat) \<Rightarrow> (rat \<Rightarrow> string) \<Rightarrow> fp list \<Rightarrow> fp \<Rightarrow> (world, fp) comp" where
  "share_mod F stod print_double left right =
     (let p = stod (fp_getStrVal (decs F) right) in
      if p = 0 then raiseS UndefinedBehaviour
      else case mask_bounds p of (lo, hi) \<Rightarrow> bindS (on_rngs (getRand_fp lo hi)) (\<lambda>k.
        let r = stod (fp_getStrVal (decs F) (recons (share_sub (share_scale right k) left)))
        in retS (fp_of_string (decs F) (print_double (of_int (mod_value p r))))))"

text \<open>What is assumed of the texts: numbers are read back up to the precision of doubles, whole numbers exactly.\<close>

definition texts_ok :: "'d dec \<Rightarrow> (string \<Rightarrow> rat) \<Rightarrow> (rat \<Rightarrow> string) \<Rightarrow> bool" where
  "texts_ok D stod print_double \<longleftrightarrow>
     (\<forall>v. \<bar>v\<bar> \<le> 10 ^ 25 \<longrightarrow> stod (fp_getStrVal D (FP v)) = rnd (of_int v / of_int shift)) \<and>
     (\<forall>i. \<bar>i\<bar> \<le> 10 ^ 10 \<longrightarrow> fp_of_string D (print_double (of_int i)) = fp_of_int i)"

subsection \<open>The arithmetic on doubles\<close>

lemma rnd_within: "\<bar>x\<bar> \<le> c \<Longrightarrow> \<bar>rnd x - x\<bar> * 2 ^ 53 \<le> c"
  using rnd_close [of x] by linarith

lemma dround_near:
  assumes "\<bar>x - of_int b\<bar> < 1 / 2"
  shows "dround x = b"
proof -
  have "of_int b - 1 / 2 < x" "x < of_int b + 1 / 2" using assms unfolding abs_less_iff by linarith+
  then have "\<lfloor>x + 1 / 2\<rfloor> = b" "\<lceil>x - 1 / 2\<rceil> = b" by (auto intro!: floor_unique ceiling_unique)
  then show ?thesis by (simp add: dround_def)
qed

lemma mod_bounds:
  fixes a p :: int
  assumes "p \<noteq> 0" "a mod p \<noteq> 0"
  shows "1 / \<bar>of_int p\<bar> \<le> of_int (a mod p) / (of_int p :: rat)" "of_int (a mod p) / (of_int p :: rat) \<le> 1 - 1 / \<bar>of_int p\<bar>"
proof -
  have s: "0 < p \<Longrightarrow> 0 < a mod p \<and> a mod p < p" "p < 0 \<Longrightarrow> a mod p < 0 \<and> p < a mod p"
    using assms(2) pos_mod_bound [of p a] neg_mod_bound [of p a] pos_mod_sign [of p a] neg_mod_sign [of p a] by linarith+
  have "1 \<le> \<bar>a mod p\<bar>" "\<bar>a mod p\<bar> \<le> \<bar>p\<bar> - 1"
    using s assms(1) by (cases "0 < p"; auto)+
  then have "of_int 1 \<le> (of_int \<bar>a mod p\<bar> :: rat)" "(of_int \<bar>a mod p\<bar> :: rat) \<le> of_int (\<bar>p\<bar> - 1)"
    by (simp_all only: of_int_le_iff)
  moreover have "(of_int (a mod p) / of_int p :: rat) = of_int \<bar>a mod p\<bar> / of_int \<bar>p\<bar>"
    using s assms(1) by (cases "0 < p") auto
  ultimately show "1 / \<bar>of_int p\<bar> \<le> of_int (a mod p) / (of_int p :: rat)" "of_int (a mod p) / (of_int p :: rat) \<le> 1 - 1 / \<bar>of_int p\<bar>"
    using assms(1) by (simp_all add: field_simps)
qed

lemma mod_value_correct:
  assumes p: "p \<noteq> 0" "\<bar>p\<bar> \<le> 10 ^ 5" and N: "\<bar>K * p - a\<bar> \<le> 2 * 10 ^ 12"
  shows "mod_value (of_int p) (of_int (K * p - a)) = a mod p"
proof -
  define P :: rat where "P = of_int p"
  define x :: rat where "x = of_int (K * p - a) / P"
  have P: "P \<noteq> 0" "1 \<le> \<bar>P\<bar>" "\<bar>P\<bar> \<le> 100000"
  proof -
    have "1 \<le> \<bar>p\<bar>" using p(1) by simp
    then have "of_int 1 \<le> (of_int \<bar>p\<bar> :: rat)" "(of_int \<bar>p\<bar> :: rat) \<le> of_int (10 ^ 5)" using p(2) by (simp_all only: of_int_le_iff)
    then show "P \<noteq> 0" "1 \<le> \<bar>P\<bar>" "\<bar>P\<bar> \<le> 100000" by (simp_all add: P_def)
  qed
  have Nr: "\<bar>of_int (K * p - a) :: rat\<bar> \<le> 2 * 10 ^ 12"
    using of_int_abs_le [OF N] by simp
  have "(of_int a :: rat) = of_int (p * (a div p) + a mod p)" by simp
  then have q: "(of_int a :: rat) = P * of_int (a div p) + of_int (a mod p)" by (simp only: of_int_add of_int_mult P_def)
  have "x = - (of_int (a div p - K) + of_int (a mod p) / P)"
    using P(1) by (simp add: x_def q field_simps flip: P_def)
  moreover define fl \<beta> where "fl = a div p - K" and "\<beta> = of_int (a mod p) / P"
  ultimately have x: "x = - (of_int fl + \<beta>)" by simp
  define e where "e = rnd x - x"
  have "\<bar>x\<bar> * \<bar>P\<bar> \<le> 2 * 10 ^ 12" using Nr P(1) by (simp add: x_def)
  moreover have "\<bar>e\<bar> * 2 ^ 53 \<le> \<bar>x\<bar>" unfolding e_def by (rule rnd_close)
  then have "\<bar>e\<bar> * 2 ^ 53 * \<bar>P\<bar> \<le> \<bar>x\<bar> * \<bar>P\<bar>" by (rule mult_right_mono) simp
  ultimately have eP: "\<bar>e\<bar> * \<bar>P\<bar> \<le> 1 / 4000" by simp
  have t: "- rnd x = of_int fl + (\<beta> - e)" by (simp add: e_def x)
  have m: "mod_value (of_int p) (of_int (K * p - a)) = dround (rnd (P * rnd (- rnd x - of_int \<lfloor>- rnd x\<rfloor>)))"
    by (simp add: mod_value_def Let_def x_def P_def)
  show ?thesis
  proof (cases "a mod p = 0")
    case True
    then have x0: "x = of_int (- fl)" by (simp add: x \<beta>_def)
    have "\<bar>x\<bar> * 1 \<le> \<bar>x\<bar> * \<bar>P\<bar>" using P(2) by (rule mult_left_mono) simp
    with \<open>\<bar>x\<bar> * \<bar>P\<bar> \<le> 2 * 10 ^ 12\<close> have "(of_int \<bar>fl\<bar> :: rat) \<le> of_int (2 * 10 ^ 12)" by (simp add: x0)
    then have "\<bar>- fl\<bar> \<le> 2 ^ 53" by (simp only: of_int_le_iff) simp
    then have "rnd x = of_int (- fl)" unfolding x0 by (rule rnd_int)
    then have "- rnd x - of_int \<lfloor>- rnd x\<rfloor> = 0" by simp
    moreover have "dround 0 = 0" by (rule dround_near) simp
    ultimately show ?thesis unfolding m by (simp add: True)
  next
    case False
    have "1 / \<bar>P\<bar> \<le> \<beta>" "\<beta> \<le> 1 - 1 / \<bar>P\<bar>" unfolding P_def \<beta>_def by (rule mod_bounds [OF p(1) False])+
    moreover have "\<bar>e\<bar> \<le> 1 / 4000 / \<bar>P\<bar>" using eP P(2) by (simp add: pos_le_divide_eq)
    moreover have "1 / 4000 / \<bar>P\<bar> < 1 / \<bar>P\<bar>" using P(2) by (intro divide_strict_right_mono) simp_all
    ultimately have b: "0 \<le> \<beta> - e" "\<beta> - e < 1" by linarith+
    then have "\<lfloor>- rnd x\<rfloor> = fl" unfolding t by (intro floor_unique) simp_all
    then have z: "- rnd x - of_int \<lfloor>- rnd x\<rfloor> = \<beta> - e" by (simp add: t)
    define u where "u = rnd (\<beta> - e)"
    have u: "\<bar>u - (\<beta> - e)\<bar> * 2 ^ 53 \<le> 1" unfolding u_def by (rule rnd_within) (use b in simp)
    have "\<bar>P * (u - \<beta>)\<bar> \<le> \<bar>P\<bar> * \<bar>u - (\<beta> - e)\<bar> + \<bar>P\<bar> * \<bar>e\<bar>"
      unfolding abs_mult distrib_left [symmetric] by (intro mult_left_mono) linarith+
    moreover have "\<bar>P\<bar> * (\<bar>u - (\<beta> - e)\<bar> * 2 ^ 53) \<le> 100000 * 1" using P(3) u by (intro mult_mono) auto
    ultimately have w: "\<bar>P * u - of_int (a mod p)\<bar> \<le> 1 / 2000"
      using eP P(1) by (simp add: right_diff_distrib \<beta>_def mult.commute)
    have "\<bar>of_int (a mod p) :: rat\<bar> \<le> 100000"
    proof -
      have "\<bar>a mod p\<bar> \<le> 10 ^ 5" using p abs_mod_less [of p a] by linarith
      from of_int_abs_le [OF this] show ?thesis by simp
    qed
    then have "\<bar>P * u\<bar> \<le> 100001" using w by linarith
    from rnd_within [OF this] have "\<bar>rnd (P * u) - P * u\<bar> \<le> 1 / 2000" by simp
    then have "\<bar>rnd (P * u) - of_int (a mod p)\<bar> < 1 / 2" using w by linarith
    then show ?thesis unfolding m z u_def [symmetric] by (rule dround_near)
  qed
qed

lemma dtrunc_abs: "\<bar>of_int (dtrunc y)\<bar> \<le> \<bar>y\<bar>" "\<bar>y\<bar> < \<bar>of_int (dtrunc y)\<bar> + 1"
proof -
  have "\<bar>of_int (dtrunc y)\<bar> \<le> \<bar>y\<bar> \<and> \<bar>y\<bar> < \<bar>of_int (dtrunc y)\<bar> + 1"
  proof (cases "0 \<le> y")
    case True
    then have "0 \<le> \<lfloor>y\<rfloor>" by simp
    then have "0 \<le> (of_int \<lfloor>y\<rfloor> :: rat)" by (simp only: of_int_0_le_iff)
    with True floor_correct [of y] show ?thesis by (simp add: dtrunc_def)
  next
    case False
    then have "\<lceil>y\<rceil> \<le> 0" by (simp add: ceiling_le_iff)
    then have "(of_int \<lceil>y\<rceil> :: rat) \<le> 0" by (simp only: of_int_le_0_iff)
    with False ceiling_correct [of y] show ?thesis by (simp add: dtrunc_def)
  qed
  then show "\<bar>of_int (dtrunc y)\<bar> \<le> \<bar>y\<bar>" "\<bar>y\<bar> < \<bar>of_int (dtrunc y)\<bar> + 1" by blast+
qed

lemma mask_bounds_ok:
  assumes "p \<noteq> 0" "\<bar>p\<bar> \<le> 10 ^ 5"
  shows "\<exists>m. mask_bounds (of_int p) = (- m, m) \<and> 0 < m \<and> m * \<bar>p\<bar> \<le> 10 ^ 10"
proof -
  define P :: rat where "P = of_int p"
  define x where "x = of_int maxInt / P"
  define c where "c = dtrunc (rnd x)"
  have "1 \<le> \<bar>p\<bar>" using assms(1) by simp
  then have "of_int 1 \<le> (of_int \<bar>p\<bar> :: rat)" "(of_int \<bar>p\<bar> :: rat) \<le> of_int (10 ^ 5)" using assms(2) by (simp_all only: of_int_le_iff)
  then have P: "1 \<le> \<bar>P\<bar>" "\<bar>P\<bar> \<le> 100000" by (simp_all add: P_def)
  have x: "\<bar>x\<bar> * \<bar>P\<bar> = 10 ^ 10" using P by (simp add: x_def maxInt_def)
  have c: "\<bar>of_int c :: rat\<bar> \<le> \<bar>rnd x\<bar>" "\<bar>rnd x\<bar> < \<bar>of_int c\<bar> + 1"
    using dtrunc_abs [of "rnd x"] by (simp_all add: c_def)
  have r: "\<bar>rnd x - x\<bar> * 2 ^ 53 \<le> \<bar>x\<bar>" by (rule rnd_close)
  have "\<bar>rnd x - x\<bar> * 2 ^ 53 * \<bar>P\<bar> \<le> \<bar>x\<bar> * \<bar>P\<bar>" using r by (rule mult_right_mono) simp
  then have rP: "\<bar>rnd x - x\<bar> * \<bar>P\<bar> \<le> 1 / 100" using x by (simp add: mult.commute)
  have "\<bar>rnd x\<bar> * \<bar>P\<bar> \<le> (\<bar>rnd x - x\<bar> + \<bar>x\<bar>) * \<bar>P\<bar>" by (rule mult_right_mono) linarith+
  then have "\<bar>rnd x\<bar> * \<bar>P\<bar> < 10 ^ 10 + 1" using rP x by (simp add: distrib_right)
  moreover have "\<bar>of_int c :: rat\<bar> * \<bar>P\<bar> \<le> \<bar>rnd x\<bar> * \<bar>P\<bar>" using c(1) by (rule mult_right_mono) simp
  ultimately have "(of_int (\<bar>c\<bar> * \<bar>p\<bar>) :: rat) < of_int (10 ^ 10 + 1)" by (simp add: P_def)
  then have cp: "\<bar>c\<bar> * \<bar>p\<bar> \<le> 10 ^ 10" by (simp only: of_int_less_iff)
  have "c \<noteq> 0"
  proof
    assume "c = 0"
    then have "\<bar>rnd x\<bar> < 1" using c(2) by simp
    moreover have "\<bar>x\<bar> \<le> \<bar>rnd x\<bar> + \<bar>rnd x - x\<bar>" by linarith
    moreover have "\<bar>rnd x - x\<bar> \<le> \<bar>x\<bar> / 2" using r by simp
    ultimately have "\<bar>x\<bar> < 2" by linarith
    then have "\<bar>x\<bar> * \<bar>P\<bar> \<le> 2 * 100000" using P by (intro mult_mono) auto
    then show False by (simp add: x)
  qed
  then have "mask_bounds (of_int p) = (- \<bar>c\<bar>, \<bar>c\<bar>)"
    by (auto simp: mask_bounds_def Let_def c_def x_def P_def abs_if)
  with \<open>c \<noteq> 0\<close> cp show ?thesis by (intro exI [of _ "\<bar>c\<bar>"]) simp
qed

subsection \<open>The property\<close>

text \<open>
  C3. \<open>operator%\<close> of a shared whole number up to \<open>10 ^ 10\<close> by a whole number up to \<open>10 ^ 5\<close>, for up to 100 parties: the result, which is
  public, is the remainder with the sign of the modulus. Modulus 0 is undefined behaviour.
\<close>

theorem share_mod_correct:
  assumes w: "wf_world P T J n sp w" and n: "n \<le> 100" and t: "texts_ok (decs F) stod print_double"
    and left: "length left = n" "fpVal (recons left) = a * shift" "\<bar>a\<bar> \<le> 10 ^ 10" and p: "\<bar>p\<bar> \<le> 10 ^ 5"
  shows "(p \<noteq> 0 \<longrightarrow> (\<exists>w'. share_mod F stod print_double left (fp_of_int p) w = Inr (fp_of_int (a mod p), w') \<and> wf_world P T J n sp w')) \<and>
    (p = 0 \<longrightarrow> share_mod F stod print_double left (fp_of_int p) w = Inl UndefinedBehaviour)"
proof -
  have parsed: "stod (fp_getStrVal (decs F) (FP (v * shift))) = of_int v" if "\<bar>v\<bar> \<le> 2 * 10 ^ 12" for v
  proof -
    have "\<bar>v * shift\<bar> \<le> 10 ^ 25" "\<bar>v\<bar> \<le> 2 ^ 53" using that by (simp_all add: abs_mult shift_eq)
    then have "stod (fp_getStrVal (decs F) (FP (v * shift))) = rnd (of_int (v * shift) / of_int shift)" using t by (simp only: texts_ok_def)
    also have "\<dots> = rnd (of_int v)" by simp
    also have "\<dots> = of_int v" using \<open>\<bar>v\<bar> \<le> 2 ^ 53\<close> by (rule rnd_int)
    finally show ?thesis .
  qed
  have q: "stod (fp_getStrVal (decs F) (fp_of_int p)) = of_int p"
    using parsed [of p] p by (simp add: fp_of_int_def)
  have "\<exists>w'. share_mod F stod print_double left (fp_of_int p) w = Inr (fp_of_int (a mod p), w') \<and> wf_world P T J n sp w'" if p0: "p \<noteq> 0"
  proof -
    obtain m where m: "mask_bounds (of_int p) = (- m, m)" "0 < m" "m * \<bar>p\<bar> \<le> 10 ^ 10"
      using mask_bounds_ok [OF p0 p] by blast
    have cond: "((of_int p :: rat) = 0) = False" using p0 by simp
    have "m * 1 \<le> m * \<bar>p\<bar>" using m(2) p0 by (intro mult_left_mono) auto
    then have m36: "m < 2 ^ 36" using m(3) by simp
    have "wpS (\<lambda>_. False) (\<lambda>z w'. z = fp_of_int (a mod p) \<and> wf_world P T J n sp w') (share_mod F stod print_double left (fp_of_int p)) w"
      unfolding share_mod_def q Let_def m(1) prod.case cond if_False wpS_bindS wpS_retS
    proof (rule wpS_draws [OF w])
      fix ks w' assume w': "wf_world P T J n sp w'" and ks: "length ks = n" "drawn_fp P (- m) m ks"
      define K where "K = sum_list ks"
      have "\<forall>k \<in> set ks. \<bar>k\<bar> \<le> m" using drawn_fp_range [OF ks(2)] m(2) by fastforce
      then have "\<bar>K\<bar> \<le> m * int n" unfolding K_def ks(1) [symmetric] by (rule sum_list_bound)
      then have "\<bar>K * p\<bar> \<le> (m * int n) * \<bar>p\<bar>" unfolding abs_mult by (rule mult_right_mono) simp
      also have "\<dots> = (m * \<bar>p\<bar>) * int n" by simp
      also have "\<dots> \<le> 10 ^ 10 * 100" using m(2,3) n by (intro mult_mono) auto
      finally have N: "\<bar>K * p - a\<bar> \<le> 2 * 10 ^ 12" using left(3) by simp
      have "fsec (map fp_of_int ks) = K * shift"
        by (simp add: fsec_def fp_of_int_def comp_def K_def sum_list_mult_const)
      then have "fsec (share_sub (share_scale (fp_of_int p) (map fp_of_int ks)) left) = (K * p - a) * shift"
        using left ks(1) by (simp add: share_simps fpVal_recons left_diff_distrib)
      then have r: "recons (share_sub (share_scale (fp_of_int p) (map fp_of_int ks)) left) = FP ((K * p - a) * shift)"
        by (intro fp.expand) (simp add: fpVal_recons)
      have "\<bar>a mod p\<bar> \<le> 10 ^ 10" using p abs_mod_less [OF p0, of a] by simp
      then have "fp_of_string (decs F) (print_double (of_int (a mod p))) = fp_of_int (a mod p)" using t by (simp only: texts_ok_def)
      then show "fp_of_string (decs F) (print_double (of_int (mod_value (of_int p) (stod (fp_getStrVal (decs F)
          (recons (share_sub (share_scale (fp_of_int p) (map fp_of_int ks)) left))))))) = fp_of_int (a mod p) \<and> wf_world P T J n sp w'"
        unfolding r parsed [OF N] mod_value_correct [OF p0 p N] using w' by simp
    qed (use m(2) m36 in simp_all)
    then show ?thesis by (auto simp: wpS_total)
  qed
  moreover have "share_mod F stod print_double left (fp_of_int p) w = Inl UndefinedBehaviour" if "p = 0"
    using q that by (simp add: share_mod_def raiseS_def)
  ultimately show ?thesis by blast
qed

text \<open>An instance, with texts in unary.\<close>

definition unary_text :: "rat \<Rightarrow> string" where
  "unary_text v = replicate (nat \<bar>dtrunc (v * of_int shift)\<bar>) (if v < 0 then CHR ''-'' else CHR ''1'')"

definition unary_value :: "string \<Rightarrow> rat" where
  "unary_value s = (if s \<noteq> [] \<and> hd s = CHR ''-'' then - of_nat (length s) else of_nat (length s)) / of_int shift"

definition unary_boost :: "rat boost" where
  "unary_boost = ref_boost\<lparr>decs := (decs ref_boost)\<lparr>d_str20 := unary_text, d_of_string := unary_value\<rparr>\<rparr>"

lemma unary_value_text: "unary_value (unary_text (of_int v / of_int shift)) = of_int v / of_int shift"
  using dtrunc_int [of 0] by (cases "v = 0") (auto simp: unary_value_def unary_text_def divide_less_0_iff not_less)

lemma texts_ok_unary: "texts_ok (decs unary_boost) (rnd \<circ> unary_value) unary_text"
  unfolding texts_ok_def
proof (intro conjI allI impI)
  fix v :: int
  have "fp_getStrVal (decs unary_boost) (FP v) = unary_text (of_int v / of_int shift)"
    by (simp add: fp_getStrVal_def fp_clamp_def unary_boost_def ref_boost_def)
  then show "(rnd \<circ> unary_value) (fp_getStrVal (decs unary_boost) (FP v)) = rnd (of_int v / of_int shift)"
    by (simp add: unary_value_text)
  have "unary_value (unary_text (of_int v)) = of_int v"
    using unary_value_text [of "v * shift"] by simp
  then have "fp_of_string (decs unary_boost) (unary_text (of_int v)) = FP (dtrunc (of_int v * of_int shift))"
    by (simp add: fp_of_string_def unary_boost_def ref_boost_def)
  also have "(of_int v * of_int shift :: rat) = of_int (v * shift)" by simp
  finally show "fp_of_string (decs unary_boost) (unary_text (of_int v)) = fp_of_int v"
    by (simp only: dtrunc_int fp_of_int_def)
qed

theorem share_mod_correct_witness:
  "\<exists>w'. share_mod unary_boost (rnd \<circ> unary_value) unary_text [FP (- 2000000000), FP 500000000] (fp_of_int 11) demo_world = Inr (fp_of_int 7, w')"
proof -
  have "length [FP (- 2000000000), FP 500000000] = 2" "fpVal (recons [FP (- 2000000000), FP 500000000]) = - 15 * shift" "\<bar>- 15 :: int\<bar> \<le> 10 ^ 10" "\<bar>11 :: int\<bar> \<le> 10 ^ 5"
    by (simp_all add: fpVal_recons fsec_def shift_eq)
  from share_mod_correct [OF wf_demo_world _ texts_ok_unary this] show ?thesis by auto
qed

end
