(* ===== verification/Queue.thy ===== *)
theory Queue
  imports Prelude
begin

section \<open>The transaction queue\<close>

text \<open>
  \<open>TransactionQueue/TransactionQueue.hpp\<close>: a bounded first-in first-out queue shared by threads. \<open>pop\<close> waits
  while the queue is empty and \<open>push\<close> while it is full; both hold the mutex for their whole effect, so each
  is one atomic step, and a wait that is not over yet is \<open>Blocked\<close>. The locale \<open>bounded_fifo\<close> is the contract
  a client of the queue uses; \<open>tqueue\<close> interprets it on the model of the class.
\<close>

record 'a tqueue =
  tq_items :: "'a list"
  tq_max :: nat

definition setMax :: "nat \<Rightarrow> 'a tqueue \<Rightarrow> 'a tqueue" where
  "setMax q_size s = s\<lparr>tq_max := q_size\<rparr>"

definition tq_new :: "'a tqueue" where
  "tq_new = \<lparr>tq_items = [], tq_max = 5000\<rparr>"

definition tq_pop :: "('a tqueue, 'a) comp" where
  "tq_pop s = (case tq_items s of [] \<Rightarrow> Inl Blocked | x # xs \<Rightarrow> Inr (x, s\<lparr>tq_items := xs\<rparr>))"

definition tq_push :: "'a \<Rightarrow> ('a tqueue, unit) comp" where
  "tq_push x s = (if length (tq_items s) < tq_max s then Inr ((), s\<lparr>tq_items := tq_items s @ [x]\<rparr>) else Inl Blocked)"

definition tq_size :: "'a tqueue \<Rightarrow> nat" where
  "tq_size s = length (tq_items s)"

definition tq_empty :: "'a tqueue \<Rightarrow> bool" where
  "tq_empty s \<longleftrightarrow> tq_items s = []"

subsection \<open>The contract of a bounded queue\<close>

datatype 'a qop = Push 'a | Pop

fun run_ops :: "('a \<Rightarrow> ('s, unit) comp) \<Rightarrow> ('s, 'a) comp \<Rightarrow> 'a qop list \<Rightarrow> ('s, 'a list) comp" where
  "run_ops push pop [] s = Inr ([], s)"
| "run_ops push pop (Push x # ops) s = bindE (push x s) (\<lambda>(_, s1). run_ops push pop ops s1)"
| "run_ops push pop (Pop # ops) s = bindE (pop s) (\<lambda>(y, s1). bindE (run_ops push pop ops s1) (\<lambda>(ys, s2). Inr (y # ys, s2)))"

fun pushed :: "'a qop list \<Rightarrow> 'a list" where
  "pushed [] = []"
| "pushed (Push x # ops) = x # pushed ops"
| "pushed (Pop # ops) = pushed ops"

locale bounded_fifo =
  fixes push :: "'a \<Rightarrow> ('s, unit) comp" and pop :: "('s, 'a) comp"
    and items :: "'s \<Rightarrow> 'a list" and cap :: "'s \<Rightarrow> nat"
  assumes push_room: "length (items s) < cap s \<Longrightarrow> \<exists>s'. push x s = Inr ((), s') \<and> items s' = items s @ [x] \<and> cap s' = cap s"
    and push_full: "cap s \<le> length (items s) \<Longrightarrow> push x s = Inl Blocked"
    and pop_item: "items s = x # xs \<Longrightarrow> \<exists>s'. pop s = Inr (x, s') \<and> items s' = xs \<and> cap s' = cap s"
    and pop_none: "items s = [] \<Longrightarrow> pop s = Inl Blocked"
begin

lemma push_cases: "push x s = Inr ((), s') \<Longrightarrow> length (items s) < cap s \<and> items s' = items s @ [x] \<and> cap s' = cap s"
  using push_room [of s x] push_full [of s x] by (cases "length (items s) < cap s") auto

lemma pop_cases: "pop s = Inr (x, s') \<Longrightarrow> items s = x # items s' \<and> cap s' = cap s"
  using pop_item pop_none [of s] by (cases "items s") fastforce+

lemma history:
  "run_ops push pop ops s = Inr (out, s') \<Longrightarrow>
   out @ items s' = items s @ pushed ops \<and> cap s' = cap s \<and>
   (length (items s) \<le> cap s \<longrightarrow> length (items s') \<le> cap s')"
proof (induction ops arbitrary: s out)
  case (Cons a ops)
  show ?case
  proof (cases a)
    case (Push x)
    then obtain s1 where s1: "push x s = Inr ((), s1)" "run_ops push pop ops s1 = Inr (out, s')"
      using Cons.prems by (auto simp: bindE_eq_Inr)
    from Cons.IH [OF s1(2)] push_cases [OF s1(1)] Push show ?thesis by auto
  next
    case Pop
    then obtain y s1 ys where s1: "pop s = Inr (y, s1)" "run_ops push pop ops s1 = Inr (ys, s')" "out = y # ys"
      using Cons.prems by (auto simp: bindE_eq_Inr)
    from Cons.IH [OF s1(2)] pop_cases [OF s1(1)] Pop s1(3) show ?thesis by auto
  qed
qed auto

lemma no_deadlock: "0 < cap s \<Longrightarrow> (\<exists>s'. push x s = Inr ((), s')) \<or> (\<exists>y s'. pop s = Inr (y, s'))"
proof (cases "items s")
  case Nil
  then show ?thesis if "0 < cap s" using that push_room [of s x] by auto
next
  case (Cons y ys)
  then show ?thesis using pop_item [of s y ys] by auto
qed

end

interpretation tqueue: bounded_fifo tq_push tq_pop tq_items tq_max
  by unfold_locales (auto simp: tq_push_def tq_pop_def)

text \<open>
  C34. A queue delivers every element exactly once and in order: after any sequence of pushes and pops that did
  not have to wait, the popped elements followed by those still queued are the initial ones followed by the
  pushed ones; the queue never exceeds its maximal size; and as long as that is positive a waiting producer
  and a waiting consumer cannot both be stuck.
\<close>

theorem queue_fifo:
  "(run_ops tq_push tq_pop ops s = Inr (out, s') \<longrightarrow>
     out @ tq_items s' = tq_items s @ pushed ops \<and> (length (tq_items s) \<le> tq_max s \<longrightarrow> length (tq_items s') \<le> tq_max s')) \<and>
   (0 < tq_max s \<longrightarrow> tq_push x s \<noteq> Inl Blocked \<or> tq_pop s \<noteq> Inl Blocked)"
  using tqueue.history [of ops s out s'] tqueue.no_deadlock [of s x] by auto

theorem queue_fifo_witness:
  "\<exists>s'. run_ops tq_push tq_pop [Push 1, Push 2, Pop] (tq_new :: nat tqueue) = Inr ([1], s') \<and> [1] @ tq_items s' = [1, 2]"
proof -
  have "run_ops tq_push tq_pop [Push 1, Push 2, Pop] (tq_new :: nat tqueue) = Inr ([1], \<lparr>tq_items = [2], tq_max = 5000\<rparr>)"
    by (simp add: tq_new_def tq_push_def tq_pop_def)
  then show ?thesis
    using queue_fifo [of "[Push 1, Push 2, Pop]" tq_new "[1]" _ 0] by (auto simp: tq_new_def)
qed

end
