(* ===== verification/Network.thy ===== *)
theory Network
  imports Share
begin

section \<open>Exchanging shares between the parties\<close>

text \<open>
  \<open>Share/AddressId.hpp\<close>, \<open>Server/\<close> and \<open>Client/ComputationToComputationContainer\<close> and
  \<open>Share/Networking.hpp\<close>: how the value of a share travels to the other parties. A share carries an
  address (a number counted up per thread, the job of the thread); a party sends its values in
  messages of about 1 MB, the receiving server files them in a map under the sender's id and the
  address, and \<open>recons\<close> takes them out again, waiting for those that have not arrived.

  The client's retry loop takes fuel and the outcomes of its remote calls as a parameter. The theory
  ends with the interleavings of one round: every party opens a vector of shares and reconstructs it,
  while messages arrive in any order and sends may fail half-way and be repeated. The number formats of
  boost are parameters, with the locale \<open>boost_int\<close> for what the code relies on.
\<close>

subsection \<open>Addresses\<close>

record address_id =
  ai_share_id :: "32 word"
  ai_job_id :: "32 word"
  ai_thread_id :: int

record id_state =
  share_id_generator :: "32 word"
  job_id_assigned_in_thread :: "32 word"

definition AddressId :: "id_state \<Rightarrow> address_id \<times> id_state" where
  "AddressId g =
     (\<lparr>ai_share_id = share_id_generator g, ai_job_id = job_id_assigned_in_thread g, ai_thread_id = 0\<rparr>,
      g\<lparr>share_id_generator := share_id_generator g + 1\<rparr>)"

definition setJobId :: "32 word \<Rightarrow> id_state \<Rightarrow> id_state" where
  "setJobId j g = g\<lparr>job_id_assigned_in_thread := j\<rparr>"

fun newIds :: "nat \<Rightarrow> id_state \<Rightarrow> address_id list \<times> id_state" where
  "newIds 0 g = ([], g)"
| "newIds (Suc k) g = (let (a, g1) = AddressId g; (as, g2) = newIds k g1 in (a # as, g2))"

subsection \<open>Messages\<close>

record pb_share =
  pb_address :: address_id
  pb_value :: string
  pb_party :: int

record pb_shares =
  pbs_party :: int
  pbs_list :: "(address_id \<times> string) list"

definition pb_address_id :: "address_id \<Rightarrow> address_id" where
  "pb_address_id a = \<lparr>ai_share_id = ai_share_id a, ai_job_id = ai_job_id a, ai_thread_id = 0\<rparr>"

definition makeShare :: "string \<Rightarrow> address_id \<Rightarrow> int \<Rightarrow> pb_share" where
  "makeShare v a party_id = \<lparr>pb_address = pb_address_id a, pb_value = v, pb_party = party_id\<rparr>"

definition addressId_size :: nat where "addressId_size = 12"

definition party_id_size :: nat where "party_id_size = 4"

definition max_message :: nat where "max_message = 1000000"

fun makeShares_loop ::
    "int \<Rightarrow> nat \<Rightarrow> (address_id \<times> string) list \<Rightarrow> pb_shares list \<Rightarrow> (string \<times> address_id) list \<Rightarrow> pb_shares list" where
  "makeShares_loop party_id sz s share_vec [] = share_vec @ [\<lparr>pbs_party = party_id, pbs_list = s\<rparr>]"
| "makeShares_loop party_id sz s share_vec ((v, a) # rest) =
     (let value_size = length v in
      if sz + value_size + addressId_size + party_id_size > max_message
      then makeShares_loop party_id (value_size + addressId_size) [(pb_address_id a, v)]
             (share_vec @ [\<lparr>pbs_party = party_id, pbs_list = s\<rparr>]) rest
      else makeShares_loop party_id (sz + value_size + addressId_size) (s @ [(pb_address_id a, v)]) share_vec rest)"

definition makeShares :: "string list \<Rightarrow> address_id list \<Rightarrow> int \<Rightarrow> pb_shares list" where
  "makeShares values share_ids party_id = makeShares_loop party_id 0 [] [] (zip values share_ids)"

subsection \<open>The server\<close>

type_synonym address = "int \<times> 32 word \<times> 32 word \<times> int"

record server =
  ccClients :: "int list"
  shares :: "address \<rightharpoonup> string"

definition Server_init :: "int \<Rightarrow> int \<Rightarrow> server" where
  "Server_init n_pt party_id = \<lparr>ccClients = filter (\<lambda>pt. pt \<noteq> party_id) [1..n_pt], shares = Map.empty\<rparr>"

definition getClient :: "int \<Rightarrow> server \<Rightarrow> int res" where
  "getClient pt_id s = (if pt_id \<in> set (ccClients s) then Inr pt_id else Inl (RuntimeError ''Client non-existant''))"

definition address_key :: "int \<Rightarrow> address_id \<Rightarrow> address" where
  "address_key party_id a = (party_id, ai_share_id a, ai_job_id a, ai_thread_id a)"

definition ExchangeShare :: "pb_share \<Rightarrow> server \<Rightarrow> server" where
  "ExchangeShare m s = s\<lparr>shares := (shares s)(address_key (pb_party m) (pb_address m) \<mapsto> pb_value m)\<rparr>"

definition store_message :: "server \<Rightarrow> pb_shares \<Rightarrow> server" where
  "store_message s m =
     foldl (\<lambda>s (a, v). s\<lparr>shares := (shares s)(address_key (pbs_party m) a \<mapsto> v)\<rparr>) s (pbs_list m)"

definition ExchangeShares :: "pb_shares list \<Rightarrow> server \<Rightarrow> server" where
  "ExchangeShares ms s = foldl store_message s ms"

definition getShare :: "int \<Rightarrow> address_id \<Rightarrow> (server, string) comp" where
  "getShare party_id a s =
     (case shares s (address_key party_id a) of
        None \<Rightarrow> Inl Blocked
      | Some v \<Rightarrow> Inr (v, s\<lparr>shares := (shares s)(address_key party_id a := None)\<rparr>))"

definition getShares :: "int \<Rightarrow> address_id list \<Rightarrow> (server, string list) comp" where
  "getShares party_id share_ids = mapS (getShare party_id) share_ids"

subsection \<open>The client\<close>

text \<open>
  An attempt of a remote call: how many of the messages reached the other server, and whether the call
  ended with status OK. \<open>rpc_honest\<close>: a call with status OK has delivered everything.
\<close>

record attempt =
  delivered :: nat
  status_ok :: bool

fun exchangeShare :: "(nat \<Rightarrow> attempt) \<Rightarrow> nat \<Rightarrow> nat \<Rightarrow> pb_share \<Rightarrow> (server, bool) comp" where
  "exchangeShare rpc 0 k m s = Inl OutOfFuel"
| "exchangeShare rpc (Suc fuel) k m s =
     (let s1 = (if 0 < delivered (rpc k) then ExchangeShare m s else s)
      in if status_ok (rpc k) then Inr (True, s1) else exchangeShare rpc fuel (Suc k) m s1)"

fun exchangeShares :: "(nat \<Rightarrow> attempt) \<Rightarrow> nat \<Rightarrow> nat \<Rightarrow> pb_shares list \<Rightarrow> (server, bool) comp" where
  "exchangeShares rpc 0 k ms s = Inl OutOfFuel"
| "exchangeShares rpc (Suc fuel) k ms s =
     (let s1 = ExchangeShares (take (delivered (rpc k)) ms) s
      in if status_ok (rpc k) then Inr (True, s1) else exchangeShares rpc fuel (Suc k) ms s1)"

definition rpc_honest :: "nat \<Rightarrow> (nat \<Rightarrow> attempt) \<Rightarrow> bool" where
  "rpc_honest k rpc \<longleftrightarrow> (\<forall>i. status_ok (rpc i) \<longrightarrow> k \<le> delivered (rpc i))"

subsection \<open>Sending and reconstructing\<close>

definition send_share :: "('v \<Rightarrow> string) \<Rightarrow> (nat \<Rightarrow> attempt) \<Rightarrow> nat \<Rightarrow> int \<Rightarrow> 'v \<Rightarrow> address_id \<Rightarrow> (server, bool) comp" where
  "send_share str rpc fuel party_id v a = exchangeShare rpc fuel 0 (makeShare (str v) a party_id)"

definition send_shares ::
    "('v \<Rightarrow> string) \<Rightarrow> (nat \<Rightarrow> attempt) \<Rightarrow> nat \<Rightarrow> int \<Rightarrow> 'v list \<Rightarrow> address_id list \<Rightarrow> (server, bool) comp" where
  "send_shares str rpc fuel party_id vs ids = exchangeShares rpc fuel 0 (makeShares (map str vs) ids party_id)"

definition receive :: "(string \<Rightarrow> 'v res) \<Rightarrow> int \<Rightarrow> address_id \<Rightarrow> (server, 'v) comp" where
  "receive parse sp_id a = bindS (getShare sp_id a) (\<lambda>v. liftS (parse v))"

fun recons_loop ::
    "(string \<Rightarrow> 'v res) \<Rightarrow> int \<Rightarrow> 'v :: plus \<Rightarrow> address_id \<Rightarrow> int list \<Rightarrow> 'v \<Rightarrow> (server, 'v) comp" where
  "recons_loop parse party_id v a [] ret = retS ret"
| "recons_loop parse party_id v a (pt_id # pts) ret =
     (if pt_id = party_id then recons_loop parse party_id v a pts (ret + v)
      else bindS (receive parse pt_id a) (\<lambda>x. recons_loop parse party_id v a pts (ret + x)))"

definition recons_share ::
    "(string \<Rightarrow> 'v res) \<Rightarrow> int \<Rightarrow> int \<Rightarrow> 'v :: {plus, zero} \<Rightarrow> address_id \<Rightarrow> (server, 'v) comp" where
  "recons_share parse n_pt party_id v a = recons_loop parse party_id v a [1..n_pt] 0"

fun recons_vec_loop ::
    "(string \<Rightarrow> 'v res) \<Rightarrow> int \<Rightarrow> 'v :: plus list \<Rightarrow> address_id list \<Rightarrow> int list \<Rightarrow> 'v list \<Rightarrow> (server, 'v list) comp" where
  "recons_vec_loop parse party_id vs ids [] ret = retS ret"
| "recons_vec_loop parse party_id vs ids (pt_id # pts) ret =
     (if pt_id = party_id then recons_vec_loop parse party_id vs ids pts (map2 (+) ret vs)
      else bindS (getShares pt_id ids) (\<lambda>values. bindS (liftS (mapE parse values)) (\<lambda>xs.
             recons_vec_loop parse party_id vs ids pts (map2 (+) ret xs))))"

definition recons_vec ::
    "(string \<Rightarrow> 'v res) \<Rightarrow> int \<Rightarrow> int \<Rightarrow> 'v :: {plus, zero} list \<Rightarrow> address_id list \<Rightarrow> (server, 'v list) comp" where
  "recons_vec parse n_pt party_id vs ids =
     recons_vec_loop parse party_id vs ids [1..n_pt] (replicate (length vs) 0)"

text \<open>The wire format of a field element, over the conversions of boost's checked 128-bit integers.\<close>

definition pf_getStrVal :: "(int \<Rightarrow> string) \<Rightarrow> pf \<Rightarrow> string" where
  "pf_getStrVal str v = str (getVal v)"

definition pf_of_string :: "(string \<Rightarrow> int res) \<Rightarrow> string \<Rightarrow> pf res" where
  "pf_of_string parse s = bindE (parse s) pf_make"

subsection \<open>Messages carry the shares in order\<close>

definition entries :: "pb_shares list \<Rightarrow> (address_id \<times> string) list" where
  "entries ms = concat (map pbs_list ms)"

definition message_size :: "pb_shares \<Rightarrow> nat" where
  "message_size m = party_id_size + (\<Sum>(a, v) \<leftarrow> pbs_list m. length v + addressId_size)"

definition message_fits :: "pb_shares \<Rightarrow> bool" where
  "message_fits m \<longleftrightarrow> message_size m \<le> max_message \<or> length (pbs_list m) = 1"

lemma makeShares_loop_entries:
  "entries (makeShares_loop p sz s vec rest) = entries vec @ s @ map (\<lambda>(v, a). (pb_address_id a, v)) rest"
  by (induction p sz s vec rest rule: makeShares_loop.induct) (simp_all add: entries_def Let_def)

lemma makeShares_loop_party:
  "\<forall>m \<in> set vec. pbs_party m = p \<Longrightarrow> \<forall>m \<in> set (makeShares_loop p sz s vec rest). pbs_party m = p"
  by (induction p sz s vec rest rule: makeShares_loop.induct) (simp_all add: Let_def)

lemma makeShares_loop_fits:
  assumes "\<forall>m \<in> set vec. message_fits m" "sz = (\<Sum>(a, v) \<leftarrow> s. length v + addressId_size)"
    "sz + party_id_size \<le> max_message \<or> length s = 1"
  shows "\<forall>m \<in> set (makeShares_loop p sz s vec rest). message_fits m"
  using assms
proof (induction p sz s vec rest rule: makeShares_loop.induct)
  case (1 p sz s vec)
  then show ?case by (auto simp: message_fits_def message_size_def)
next
  case (2 p sz s vec v a rest)
  have fits: "message_fits \<lparr>pbs_party = p, pbs_list = s\<rparr>"
    using "2.prems" by (auto simp: message_fits_def message_size_def)
  show ?case
    using 2 fits by (simp add: Let_def not_less)
qed

lemma makeShares_entries:
  "entries (makeShares vs ids p) = zip (map pb_address_id ids) vs"
  unfolding makeShares_def makeShares_loop_entries
  by (auto simp: entries_def zip_map1 zip_commute [of vs ids] intro!: map_cong)

subsection \<open>What a server holds\<close>

definition party_entries :: "int \<Rightarrow> (address_id \<times> string) list \<Rightarrow> (address \<times> string) list" where
  "party_entries p es = map (\<lambda>(a, v). (address_key p a, v)) es"

lemma shares_store_fold:
  "foldl (\<lambda>s (a, v). s\<lparr>shares := (shares s)(address_key p a \<mapsto> v)\<rparr>) s es =
   s\<lparr>shares := shares s ++ map_of (rev (party_entries p es))\<rparr>"
  by (induction es arbitrary: s) (auto simp: party_entries_def)

lemma ExchangeShares_shares:
  "\<forall>m \<in> set ms. pbs_party m = p \<Longrightarrow>
   ExchangeShares ms s = s\<lparr>shares := shares s ++ map_of (rev (party_entries p (entries ms)))\<rparr>"
proof (induction ms arbitrary: s)
  case (Cons m ms)
  then show ?case
    by (simp add: ExchangeShares_def store_message_def shares_store_fold entries_def party_entries_def)
qed (simp add: ExchangeShares_def entries_def party_entries_def)

lemma map_add_absorb: "dom f \<subseteq> dom g \<Longrightarrow> (m ++ f) ++ g = m ++ g"
  by (rule ext) (auto simp: map_add_def split: option.splits)

lemma ExchangeShares_absorb:
  assumes "\<forall>m \<in> set ms. pbs_party m = p"
  shows "ExchangeShares ms (ExchangeShares (take k ms) s) = ExchangeShares ms s"
proof -
  have "dom (map_of (rev (party_entries p (entries (take k ms))))) \<subseteq> dom (map_of (rev (party_entries p (entries ms))))"
    unfolding dom_map_of_conv_image_fst party_entries_def entries_def set_rev set_map set_concat
    by (intro image_mono UN_mono set_take_subset) simp
  moreover have "\<forall>m \<in> set (take k ms). pbs_party m = p"
    using assms by (auto dest: in_set_takeD)
  ultimately show ?thesis
    by (simp add: ExchangeShares_shares [OF assms] ExchangeShares_shares [of "take k ms" p] map_add_absorb)
qed

lemma makeShares_party: "\<forall>m \<in> set (makeShares vs ids p). pbs_party m = p"
  unfolding makeShares_def by (rule makeShares_loop_party) simp

text \<open>The retry loop: the server ends up as after one complete delivery.\<close>

lemma exchangeShares_delivers:
  assumes "\<forall>m \<in> set ms. pbs_party m = p" "rpc_honest (length ms) rpc"
    "status_ok (rpc (k + j))" "j < fuel"
  shows "exchangeShares rpc fuel k ms s = Inr (True, ExchangeShares ms s)"
  using assms(3,4)
proof (induction fuel arbitrary: j k s)
  case (Suc fuel)
  show ?case
  proof (cases "status_ok (rpc k)")
    case True
    with assms(2) have "length ms \<le> delivered (rpc k)" by (simp add: rpc_honest_def)
    with True show ?thesis by simp
  next
    case False
    with Suc.prems have "j \<noteq> 0" by (metis add_0_right)
    with Suc False show ?thesis
      using Suc.IH [of "Suc k" "j - 1"] by (simp add: ExchangeShares_absorb [OF assms(1)])
  qed
qed simp

lemma exchangeShare_delivers:
  assumes "rpc_honest 1 rpc" "status_ok (rpc (k + j))" "j < fuel"
  shows "exchangeShare rpc fuel k m s = Inr (True, ExchangeShare m s)"
  using assms(2,3)
proof (induction fuel arbitrary: j k s)
  case (Suc fuel)
  show ?case
  proof (cases "status_ok (rpc k)")
    case True
    with assms(1) have "0 < delivered (rpc k)" by (auto simp: rpc_honest_def dest: Suc_le_lessD)
    with True show ?thesis by simp
  next
    case False
    with Suc.prems have "j \<noteq> 0" by (metis add_0_right)
    moreover have "ExchangeShare m (ExchangeShare m s) = ExchangeShare m s" by (simp add: ExchangeShare_def)
    ultimately show ?thesis
      using Suc False Suc.IH [of "Suc k" "j - 1"] by simp
  qed
qed simp

subsection \<open>Fresh addresses\<close>

lemma newIds_eq:
  "newIds k g = (map (\<lambda>i. \<lparr>ai_share_id = share_id_generator g + of_nat i, ai_job_id = job_id_assigned_in_thread g,
       ai_thread_id = 0\<rparr>) [0..<k], g\<lparr>share_id_generator := share_id_generator g + of_nat k\<rparr>)"
proof (induction k arbitrary: g)
  case (Suc k)
  have "[0..<Suc k] = 0 # map Suc [0..<k]" by (simp add: upt_conv_Cons map_Suc_upt del: upt_Suc)
  with Suc show ?case by (simp add: AddressId_def add.assoc del: upt_Suc)
qed simp

lemma newIds_distinct:
  assumes "k \<le> 2 ^ 32"
  shows "distinct (map (address_key p) (fst (newIds k g)))"
proof -
  have "i = j" if "i < k" "j < k" "(of_nat i :: 32 word) = of_nat j" for i j
  proof -
    have "i < 2 ^ LENGTH(32)" "j < 2 ^ LENGTH(32)"
      using less_le_trans [OF that(1) assms] less_le_trans [OF that(2) assms] by (simp_all only: len_num0 len_num1 len_bit0 len_bit1) simp_all
    then show ?thesis
      using of_nat_inverse [OF that(3)] of_nat_inverse [OF refl, of j, where 'a = 32] by simp
  qed
  then show ?thesis
    by (auto simp: newIds_eq distinct_map inj_on_def address_key_def)
qed

subsection \<open>A round of openings, interleaved\<close>

text \<open>
  Party \<open>i < n\<close> (with id \<open>i + 1\<close>) holds the vector \<open>vals i\<close>, opens it under the addresses \<open>ids\<close> and
  reconstructs. A step of the round is a complete delivery to one party, a failed attempt that delivered
  only some messages (it will be repeated), or the next addition of some party's \<open>recons\<close>, which starts
  when its own sends have all returned. \<open>todo\<close> lists the pairs of party and index still to be added.
\<close>

record 'v round =
  servers :: "nat \<Rightarrow> server"
  unsent :: "(nat \<times> nat) set"
  todo :: "nat \<Rightarrow> (nat \<times> nat) list"
  got :: "nat \<Rightarrow> 'v list"

definition party_id :: "nat \<Rightarrow> int" where "party_id i = int i + 1"

definition schedule :: "nat \<Rightarrow> nat \<Rightarrow> (nat \<times> nat) list" where
  "schedule n k = concat (map (\<lambda>q. map (\<lambda>i. (q, i)) [0..<k]) [0..<n])"

definition messages :: "('v \<Rightarrow> string) \<Rightarrow> address_id list \<Rightarrow> (nat \<Rightarrow> 'v list) \<Rightarrow> nat \<Rightarrow> pb_shares list" where
  "messages str ids vals p = makeShares (map str (vals p)) ids (party_id p)"

definition round_init :: "nat \<Rightarrow> (nat \<Rightarrow> server) \<Rightarrow> nat \<Rightarrow> 'v :: zero round" where
  "round_init n srv k = \<lparr>servers = srv, unsent = {(p, q). p < n \<and> q < n \<and> p \<noteq> q},
     todo = (\<lambda>p. if p < n then schedule n k else []), got = (\<lambda>_. replicate k 0)\<rparr>"

definition add_at :: "nat \<Rightarrow> 'v :: plus \<Rightarrow> 'v list \<Rightarrow> 'v list" where
  "add_at i x ret = ret[i := ret ! i + x]"

inductive round_step ::
    "('v \<Rightarrow> string) \<Rightarrow> (string \<Rightarrow> 'v res) \<Rightarrow> address_id list \<Rightarrow> (nat \<Rightarrow> 'v list) \<Rightarrow> 'v :: plus round \<Rightarrow> 'v round \<Rightarrow> bool"
  for str parse ids vals where
  Deliver: "(p, q) \<in> unsent st \<Longrightarrow>
    round_step str parse ids vals st
      (st\<lparr>servers := (servers st)(q := ExchangeShares (messages str ids vals p) (servers st q)),
         unsent := unsent st - {(p, q)}\<rparr>)"
| Fail: "(p, q) \<in> unsent st \<Longrightarrow>
    round_step str parse ids vals st
      (st\<lparr>servers := (servers st)(q := ExchangeShares (take m (messages str ids vals p)) (servers st q))\<rparr>)"
| Own: "\<forall>q. (p, q) \<notin> unsent st \<Longrightarrow> todo st p = (p, i) # rest \<Longrightarrow>
    round_step str parse ids vals st
      (st\<lparr>todo := (todo st)(p := rest), got := (got st)(p := add_at i (vals p ! i) (got st p))\<rparr>)"
| Take: "\<forall>q. (p, q) \<notin> unsent st \<Longrightarrow> todo st p = (q, i) # rest \<Longrightarrow> q \<noteq> p \<Longrightarrow>
    receive parse (party_id q) (ids ! i) (servers st p) = Inr (x, s') \<Longrightarrow>
    round_step str parse ids vals st
      (st\<lparr>servers := (servers st)(p := s'), todo := (todo st)(p := rest),
         got := (got st)(p := add_at i x (got st p))\<rparr>)"

definition column :: "nat \<Rightarrow> (nat \<Rightarrow> 'v list) \<Rightarrow> nat \<Rightarrow> 'v list" where
  "column n vals i = map (\<lambda>q. vals q ! i) [0..<n]"

text \<open>What a round needs: vectors of equal length, distinct addresses, no leftover share under them.\<close>

definition round_ok ::
    "('v \<Rightarrow> bool) \<Rightarrow> nat \<Rightarrow> nat \<Rightarrow> address_id list \<Rightarrow> (nat \<Rightarrow> 'v list) \<Rightarrow> (nat \<Rightarrow> server) \<Rightarrow> bool" where
  "round_ok valid n k ids vals srv \<longleftrightarrow>
     length ids = k \<and> distinct (map (address_key 0) ids) \<and> (\<forall>a \<in> set ids. ai_thread_id a = 0) \<and>
     (\<forall>p < n. length (vals p) = k \<and> (\<forall>v \<in> set (vals p). valid v)) \<and>
     (\<forall>p < n. \<forall>q < n. \<forall>i < k. shares (srv p) (address_key (party_id q) (ids ! i)) = None)"

definition sums :: "nat \<Rightarrow> (nat \<Rightarrow> 'v :: {plus, zero} list) \<Rightarrow> (nat \<times> nat) list \<Rightarrow> 'v list" where
  "sums k vals ds = map (\<lambda>i. foldl (+) 0 (map (\<lambda>(q, _). vals q ! i) (filter (\<lambda>(_, j). j = i) ds))) [0..<k]"

lemma sums_snoc: "i < k \<Longrightarrow> sums k vals (ds @ [(q, i)]) = add_at i (vals q ! i) (sums k vals ds)"
  by (rule nth_equalityI) (auto simp: sums_def add_at_def nth_list_update)

lemma sums_Nil: "sums k vals [] = replicate k 0"
  by (simp add: sums_def map_replicate_const)

lemma schedule_column: "i < k \<Longrightarrow> filter (\<lambda>(_, j). j = i) (schedule n k) = map (\<lambda>q. (q, i)) [0..<n]"
proof (induction n)
  case (Suc n)
  have "filter (\<lambda>j. j = i) [0..<k] = [i]"
    using Suc.prems by (induction k) (auto simp: less_Suc_eq)
  then have "filter (\<lambda>(_, j). j = i) (map (\<lambda>j. (n, j)) [0..<k]) = [(n, i)]"
    by (simp add: filter_map o_def)
  with Suc show ?case by (simp add: schedule_def)
qed (simp add: schedule_def)

lemma sums_schedule: "sums k vals (schedule n k) = map (\<lambda>i. recons (column n vals i)) [0..<k]"
  by (auto simp: sums_def schedule_column recons_def column_def comp_def)

lemma set_schedule: "set (schedule n k) = {..<n} \<times> {..<k}"
  by (auto simp: schedule_def)

lemma distinct_schedule: "distinct (schedule n k)"
  by (induction n) (auto simp: schedule_def distinct_map inj_on_def)

lemma address_key_eq: "address_key p a = address_key q b \<longleftrightarrow> p = q \<and> address_key 0 a = address_key 0 b"
  by (auto simp: address_key_def)

lemma party_id_eq [simp]: "party_id p = party_id q \<longleftrightarrow> p = q"
  by (simp add: party_id_def)

lemma party_entries_messages:
  assumes "round_ok valid n k ids vals srv" "p < n"
  shows "(key, v) \<in> set (party_entries (party_id p) (entries (messages str ids vals p))) \<longleftrightarrow>
    (\<exists>i < k. key = address_key (party_id p) (ids ! i) \<and> v = str (vals p ! i))"
proof -
  have l: "length ids = k" "length (vals p) = k" using assms by (auto simp: round_ok_def)
  have "map pb_address_id ids = ids"
    using assms by (auto simp: round_ok_def pb_address_id_def intro!: map_idI)
  then show ?thesis
    using l by (force simp: messages_def makeShares_entries party_entries_def set_zip)
qed

lemma key_eq:
  assumes "round_ok valid n k ids vals srv" "i < k" "j < k"
  shows "address_key (party_id p) (ids ! i) = address_key (party_id q) (ids ! j) \<longleftrightarrow> p = q \<and> i = j"
  using assms nth_eq_iff_index_eq [of "map (address_key 0) ids" i j]
  by (subst address_key_eq) (auto simp: round_ok_def)

lemma message_entry:
  assumes "round_ok valid n k ids vals srv" "p < n"
    "map_of (rev (party_entries (party_id p) (entries (take m (messages str ids vals p))))) key = Some v"
  shows "\<exists>j < k. key = address_key (party_id p) (ids ! j) \<and> v = str (vals p ! j)"
proof -
  have "set (entries (take m (messages str ids vals p))) \<subseteq> set (entries (messages str ids vals p))"
    unfolding entries_def set_concat set_map by (intro UN_mono image_mono set_take_subset) simp
  then have "set (party_entries (party_id p) (entries (take m (messages str ids vals p)))) \<subseteq>
      set (party_entries (party_id p) (entries (messages str ids vals p)))"
    unfolding party_entries_def set_map by (rule image_mono)
  moreover have "(key, v) \<in> set (party_entries (party_id p) (entries (take m (messages str ids vals p))))"
    using map_of_SomeD [OF assms(3)] by simp
  ultimately show ?thesis
    using party_entries_messages [OF assms(1,2)] by blast
qed

lemma messages_shares:
  "ExchangeShares (take m (messages str ids vals p)) s =
     s\<lparr>shares := shares s ++ map_of (rev (party_entries (party_id p) (entries (take m (messages str ids vals p)))))\<rparr>"
proof -
  have "\<forall>x \<in> set (take m (messages str ids vals p)). pbs_party x = party_id p"
    using makeShares_party unfolding messages_def by (fastforce dest: in_set_takeD)
  then show ?thesis by (rule ExchangeShares_shares)
qed

lemma stored:
  fixes str :: "'v \<Rightarrow> string"
  assumes "round_ok valid n k ids vals srv" "p < n" "i < k"
  defines "stored m s r \<equiv> shares (ExchangeShares (take m (messages str ids vals p)) s) (address_key (party_id r) (ids ! i))"
  shows "r \<noteq> p \<Longrightarrow> stored m s r = shares s (address_key (party_id r) (ids ! i))"
    "stored m s p = shares s (address_key (party_id p) (ids ! i)) \<or> stored m s p = Some (str (vals p ! i))"
    "length (messages str ids vals p) \<le> m \<Longrightarrow> stored m s p = Some (str (vals p ! i))"
proof -
  let ?E = "party_entries (party_id p) (entries (take m (messages str ids vals p)))"
  have st: "stored m s r = (shares s ++ map_of (rev ?E)) (address_key (party_id r) (ids ! i))" for r
    by (simp add: stored_def messages_shares)
  have val: "r = p \<and> v = str (vals p ! i)" if "map_of (rev ?E) (address_key (party_id r) (ids ! i)) = Some v" for r v
    using message_entry [OF assms(1,2) that] key_eq [OF assms(1,3)] by auto
  show "r \<noteq> p \<Longrightarrow> stored m s r = shares s (address_key (party_id r) (ids ! i))"
    using val unfolding st by (auto simp: map_add_def split: option.splits)
  show "stored m s p = shares s (address_key (party_id p) (ids ! i)) \<or> stored m s p = Some (str (vals p ! i))"
    using val unfolding st by (auto simp: map_add_def split: option.splits)
  assume "length (messages str ids vals p) \<le> m"
  then have "(address_key (party_id p) (ids ! i), str (vals p ! i)) \<in> set (rev ?E)"
    using party_entries_messages [OF assms(1,2)] assms(3) by auto
  then have "map_of (rev ?E) (address_key (party_id p) (ids ! i)) \<noteq> None"
    unfolding map_of_eq_None_iff by force
  then show "stored m s p = Some (str (vals p ! i))"
    using val unfolding st by (auto simp: map_add_def)
qed

lemma foreign_messages:
  assumes "round_ok valid n k ids vals srv" "p < n" "\<forall>i < k. address_key 0 a \<noteq> address_key 0 (ids ! i)"
  shows "shares (ExchangeShares (take m (messages str ids vals p)) s) (address_key r a) = shares s (address_key r a)"
proof -
  have "map_of (rev (party_entries (party_id p) (entries (take m (messages str ids vals p))))) (address_key r a) = None"
  proof (rule ccontr)
    assume "\<not> ?thesis"
    then obtain v where "map_of (rev (party_entries (party_id p) (entries (take m (messages str ids vals p))))) (address_key r a) = Some v"
      by blast
    from message_entry [OF assms(1,2) this] assms(3) show False by (auto simp: address_key_eq [of r])
  qed
  then show ?thesis by (simp add: messages_shares map_add_def)
qed

text \<open>The vectors of the parties \<open>qs\<close> arrive one after the other.\<close>

definition arrive :: "('v \<Rightarrow> string) \<Rightarrow> address_id list \<Rightarrow> (nat \<Rightarrow> 'v list) \<Rightarrow> nat list \<Rightarrow> server \<Rightarrow> server" where
  "arrive str ids vals qs s = foldl (\<lambda>s q. ExchangeShares (messages str ids vals q) s) s qs"

lemma arrive_shares:
  assumes "round_ok valid n k ids vals srv" "set qs \<subseteq> {..<n}" "i < k"
  shows "shares (arrive str ids vals qs s) (address_key (party_id r) (ids ! i)) =
    (if r \<in> set qs then Some (str (vals r ! i)) else shares s (address_key (party_id r) (ids ! i)))"
  using assms(2)
proof (induction qs rule: rev_induct)
  case (snoc q qs)
  then have q: "q < n" by simp
  note st = stored [OF assms(1) q assms(3), where m = "length (messages str ids vals q)" and str = str and s = "arrive str ids vals qs s", simplified]
  show ?case
    using snoc st(1) [of r] st(3)
    by (cases "r = q") (auto simp: arrive_def)
qed (simp add: arrive_def)

definition cell_inv :: "('v \<Rightarrow> string) \<Rightarrow> address_id list \<Rightarrow> (nat \<Rightarrow> 'v list) \<Rightarrow> 'v round \<Rightarrow> nat \<Rightarrow> nat \<Rightarrow> nat \<Rightarrow> bool" where
  "cell_inv str ids vals st p q i \<longleftrightarrow>
     (let c = shares (servers st p) (address_key (party_id q) (ids ! i)) in
      (c = None \<or> c = Some (str (vals q ! i))) \<and>
      ((q, p) \<notin> unsent st \<and> (q, i) \<in> set (todo st p) \<longrightarrow> c = Some (str (vals q ! i))))"

definition round_inv ::
    "('v \<Rightarrow> string) \<Rightarrow> nat \<Rightarrow> nat \<Rightarrow> address_id list \<Rightarrow> (nat \<Rightarrow> 'v list) \<Rightarrow> 'v :: {plus, zero} round \<Rightarrow> bool" where
  "round_inv str n k ids vals st \<longleftrightarrow>
     unsent st \<subseteq> {(p, q). p < n \<and> q < n \<and> p \<noteq> q} \<and>
     (\<forall>p. \<not> p < n \<longrightarrow> todo st p = []) \<and>
     (\<forall>p < n. \<exists>ds. schedule n k = ds @ todo st p \<and> got st p = sums k vals ds) \<and>
     (\<forall>p < n. \<forall>q < n. \<forall>i < k. q \<noteq> p \<longrightarrow> cell_inv str ids vals st p q i)"

lemma round_inv_init:
  assumes "round_ok valid n k ids vals srv"
  shows "round_inv str n k ids vals (round_init n srv k)"
  using assms by (auto simp: round_inv_def round_init_def round_ok_def sums_Nil cell_inv_def)

lemma round_inv_todo:
  assumes "round_inv str n k ids vals st" "todo st p = (q, i) # rest"
  shows "p < n" "q < n" "i < k" "(q, i) \<notin> set rest"
    "\<exists>ds. schedule n k = ds @ rest \<and> add_at i (vals q ! i) (got st p) = sums k vals ds"
proof -
  show p: "p < n" using assms by (auto simp: round_inv_def)
  then obtain ds where ds: "schedule n k = ds @ (q, i) # rest" "got st p = sums k vals ds"
    using assms by (auto simp: round_inv_def)
  then have "(q, i) \<in> set (schedule n k)" by simp
  then show qi: "q < n" "i < k" by (auto simp: set_schedule)
  show "(q, i) \<notin> set rest"
    using distinct_schedule [of n k] ds(1) by simp
  show "\<exists>ds. schedule n k = ds @ rest \<and> add_at i (vals q ! i) (got st p) = sums k vals ds"
    using ds qi by (intro exI [of _ "ds @ [(q, i)]"]) (simp add: sums_snoc)
qed

lemma round_inv_cell:
  "round_inv str n k ids vals st \<Longrightarrow> p < n \<Longrightarrow> q < n \<Longrightarrow> i < k \<Longrightarrow> q \<noteq> p \<Longrightarrow> cell_inv str ids vals st p q i"
  by (simp add: round_inv_def)

locale wire =
  fixes str :: "'v :: {plus, zero} \<Rightarrow> string" and parse :: "string \<Rightarrow> 'v res" and valid :: "'v \<Rightarrow> bool"
  assumes wire: "valid v \<Longrightarrow> parse (str v) = Inr v"
begin

lemma receive_step:
  assumes "round_ok valid n k ids vals srv" "q < n" "i < k"
    "shares s (address_key (party_id q) (ids ! i)) = Some (str (vals q ! i))"
  shows "receive parse (party_id q) (ids ! i) s =
    Inr (vals q ! i, s\<lparr>shares := (shares s)(address_key (party_id q) (ids ! i) := None)\<rparr>)"
proof -
  have "valid (vals q ! i)" using assms by (auto simp: round_ok_def)
  then show ?thesis
    using assms(4) by (simp add: receive_def getShare_def bindS_def liftS_def wire)
qed

lemma inv_step:
  assumes "round_ok valid n k ids vals srv" "round_inv str n k ids vals st" "round_step str parse ids vals st st'"
  shows "round_inv str n k ids vals st'"
  using assms(3)
proof cases
  case (Deliver p q)
  have pq: "p < n" "q < n" "p \<noteq> q" using Deliver assms(2) by (auto simp: round_inv_def)
  note s = stored [OF assms(1) pq(1), where m = "length (messages str ids vals p)" and s = "servers st q" and str = str, simplified]
  have "cell_inv str ids vals st' p' q' i" if "p' < n" "q' < n" "i < k" "q' \<noteq> p'" for p' q' i
    using round_inv_cell [OF assms(2) that] s [OF that(3)]
    by (cases "q' = p") (auto simp: Deliver(1) cell_inv_def Let_def)
  with assms(2) show ?thesis by (auto simp: Deliver(1) round_inv_def)
next
  case (Fail p q m)
  have pq: "p < n" "q < n" "p \<noteq> q" using Fail assms(2) by (auto simp: round_inv_def)
  note s = stored [OF assms(1) pq(1), where m = m and s = "servers st q" and str = str]
  have "cell_inv str ids vals st' p' q' i" if "p' < n" "q' < n" "i < k" "q' \<noteq> p'" for p' q' i
    using round_inv_cell [OF assms(2) that] s(1,2) [OF that(3)] Fail(2)
    by (cases "q' = p") (auto simp: Fail(1) cell_inv_def Let_def)
  with assms(2) show ?thesis by (auto simp: Fail(1) round_inv_def)
next
  case (Own p i rest)
  note t = round_inv_todo [OF assms(2) Own(3)]
  have "cell_inv str ids vals st' p' q' i'" if "p' < n" "q' < n" "i' < k" "q' \<noteq> p'" for p' q' i'
    using round_inv_cell [OF assms(2) that] Own(3) by (auto simp: Own(1) cell_inv_def Let_def)
  with assms(2) t(1,5) show ?thesis by (auto simp: Own(1) round_inv_def)
next
  case (Take p q i rest x s')
  note t = round_inv_todo [OF assms(2) Take(3)]
  have "shares (servers st p) (address_key (party_id q) (ids ! i)) = Some (str (vals q ! i))"
  proof -
    have "shares (servers st p) (address_key (party_id q) (ids ! i)) \<noteq> None"
      using Take(5) by (auto simp: receive_def getShare_def bindS_def split: option.splits)
    then show ?thesis
      using round_inv_cell [OF assms(2) t(1-3) Take(4)] by (auto simp: cell_inv_def Let_def)
  qed
  from receive_step [OF assms(1) t(2,3) this] Take(5)
  have x: "x = vals q ! i" and s': "s' = (servers st p)\<lparr>shares := (shares (servers st p))(address_key (party_id q) (ids ! i) := None)\<rparr>"
    by simp_all
  have "cell_inv str ids vals st' p' q' i'" if "p' < n" "q' < n" "i' < k" "q' \<noteq> p'" for p' q' i'
    using round_inv_cell [OF assms(2) that] Take(3) t(3,4) key_eq [OF assms(1) that(3) t(3), of q' q]
    by (cases "p' = p") (auto simp: Take(1) s' cell_inv_def Let_def)
  with assms(2) t(1,5) show ?thesis by (auto simp: Take(1) round_inv_def x)
qed

lemma reachable_inv:
  assumes "round_ok valid n k ids vals srv" "(round_step str parse ids vals)\<^sup>*\<^sup>* (round_init n srv k) st"
  shows "round_inv str n k ids vals st"
  using assms(2) by (induction rule: rtranclp_induct) (use assms(1) in \<open>auto intro: round_inv_init inv_step\<close>)

lemma reachable_sums:
  assumes "round_ok valid n k ids vals srv" "(round_step str parse ids vals)\<^sup>*\<^sup>* (round_init n srv k) st" "p < n" "todo st p = []"
  shows "got st p = map (\<lambda>i. recons (column n vals i)) [0..<k]"
proof -
  obtain ds where "schedule n k = ds @ todo st p" "got st p = sums k vals ds"
    using reachable_inv [OF assms(1,2)] assms(3) unfolding round_inv_def by blast
  then show ?thesis using assms(4) sums_schedule [of k vals n] by simp
qed

lemma reachable_foreign:
  assumes "round_ok valid n k ids vals srv" "(round_step str parse ids vals)\<^sup>*\<^sup>* (round_init n srv k) st"
    "\<forall>i < k. address_key 0 a \<noteq> address_key 0 (ids ! i)"
  shows "shares (servers st p) (address_key r a) = shares (srv p) (address_key r a)"
  using assms(2)
proof (induction rule: rtranclp_induct)
  case base
  show ?case by (simp add: round_init_def)
next
  case (step st st')
  note inv = reachable_inv [OF assms(1) step(1)]
  from step(2) show ?case
  proof cases
    case (Deliver p' q)
    have "p' < n" using inv Deliver(2) by (auto simp: round_inv_def)
    from foreign_messages [OF assms(1) this assms(3), where m = "length (messages str ids vals p')" and str = str] step(3) Deliver(1)
    show ?thesis by auto
  next
    case (Fail p' q m)
    have "p' < n" using inv Fail(2) by (auto simp: round_inv_def)
    from foreign_messages [OF assms(1) this assms(3), where m = m and str = str] step(3) Fail(1) show ?thesis by auto
  next
    case (Take p' q i rest x s')
    note t = round_inv_todo [OF inv Take(3)]
    have "s' = (servers st p')\<lparr>shares := (shares (servers st p'))(address_key (party_id q) (ids ! i) := None)\<rparr>"
      using Take(5) by (auto simp: receive_def getShare_def bindS_def liftS_def bindE_eq_Inr split: option.splits)
    moreover have "address_key r a \<noteq> address_key (party_id q) (ids ! i)"
      using assms(3) t(3) by (simp add: address_key_eq [of r])
    ultimately show ?thesis using step(3) Take(1) by auto
  qed (use step(3) in simp)
qed

definition work :: "nat \<Rightarrow> 'v round \<Rightarrow> nat" where
  "work n st = card (unsent st) + (\<Sum>p < n. length (todo st p))"

lemma progress:
  assumes "round_ok valid n k ids vals srv" "round_inv str n k ids vals st" "p < n" "todo st p \<noteq> []"
  shows "\<exists>st'. round_step str parse ids vals st st' \<and> work n st' < work n st"
proof (cases "unsent st = {}")
  case False
  have "finite (unsent st)"
    using assms(2) by (auto simp: round_inv_def intro: finite_subset [of _ "{..<n} \<times> {..<n}"])
  moreover obtain a b where ab: "(a, b) \<in> unsent st" using False by auto
  ultimately have "card (unsent st - {(a, b)}) < card (unsent st)" by (intro psubset_card_mono) auto
  then show ?thesis
    using round_step.Deliver [OF ab, where str = str and parse = parse and ids = ids and vals = vals] by (fastforce simp: work_def)
next
  case True
  obtain q i rest where t: "todo st p = (q, i) # rest" using assms(4) by (cases "todo st p") auto
  note qi = round_inv_todo [OF assms(2) t]
  have less: "(\<Sum>x < n. length (((todo st)(p := rest)) x)) < (\<Sum>x < n. length (todo st x))"
    by (rule sum_strict_mono_ex1) (use assms(3) t in \<open>auto intro!: bexI [of _ p]\<close>)
  show ?thesis
  proof (cases "q = p")
    case True
    then have "todo st p = (p, i) # rest" using t by simp
    from round_step.Own [OF _ this, where str = str and parse = parse and ids = ids and vals = vals] show ?thesis
      using less \<open>unsent st = {}\<close> by (fastforce simp: work_def)
  next
    case False
    then have "shares (servers st p) (address_key (party_id q) (ids ! i)) = Some (str (vals q ! i))"
      using round_inv_cell [OF assms(2) qi(1-3)] t \<open>unsent st = {}\<close> by (simp add: cell_inv_def Let_def)
    from round_step.Take [OF _ t False receive_step [OF assms(1) qi(2,3) this], where str = str] show ?thesis
      using less \<open>unsent st = {}\<close> by (fastforce simp: work_def)
  qed
qed

lemma completes:
  assumes "round_ok valid n k ids vals srv" "round_inv str n k ids vals st"
  shows "\<exists>st'. (round_step str parse ids vals)\<^sup>*\<^sup>* st st' \<and> (\<forall>p < n. todo st' p = [])"
  using assms(2)
proof (induction "work n st" arbitrary: st rule: less_induct)
  case less
  show ?case
  proof (cases "\<forall>p < n. todo st p = []")
    case False
    then obtain st' where st': "round_step str parse ids vals st st'" "work n st' < work n st"
      using progress [OF assms(1) less.prems] by blast
    with less inv_step [OF assms(1)] show ?thesis by (meson converse_rtranclp_into_rtranclp)
  qed auto
qed

end

subsection \<open>Reconstruction run by one party\<close>

definition without :: "server \<Rightarrow> address set \<Rightarrow> server" where
  "without s ks = s\<lparr>shares := (shares s) |` (- ks)\<rparr>"

lemma without_without [simp]: "without (without s A) B = without s (A \<union> B)"
  by (simp add: without_def Int_commute)

lemma without_empty [simp]: "without s {} = s"
  by (simp add: without_def restrict_map_def)

lemma shares_without [simp]: "k \<notin> A \<Longrightarrow> shares (without s A) k = shares s k"
  by (simp add: without_def)

lemma getShare_without:
  "shares s (address_key p a) = Some v \<Longrightarrow> getShare p a s = Inr (v, without s {address_key p a})"
  by (simp add: getShare_def without_def restrict_complement_singleton_eq)

lemma getShares_correct:
  assumes "length vs = length ids" "distinct (map (address_key p) ids)"
    "\<forall>i < length ids. shares s (address_key p (ids ! i)) = Some (vs ! i)"
  shows "getShares p ids s = Inr (vs, without s (address_key p ` set ids))"
  using assms
proof (induction vs ids arbitrary: s rule: list_induct2)
  case (Cons v vs a ids)
  have "getShare p a s = Inr (v, without s {address_key p a})"
    using Cons.prems(2) by (intro getShare_without) force
  moreover have "getShares p ids (without s {address_key p a}) =
      Inr (vs, without (without s {address_key p a}) (address_key p ` set ids))"
  proof (rule Cons.IH)
    show "\<forall>i < length ids. shares (without s {address_key p a}) (address_key p (ids ! i)) = Some (vs ! i)"
    proof (intro allI impI)
      fix i assume i: "i < length ids"
      then have "address_key p (ids ! i) \<noteq> address_key p a" using Cons.prems(1) by (auto simp: image_iff) (metis nth_mem)
      with i Cons.prems(2) show "shares (without s {address_key p a}) (address_key p (ids ! i)) = Some (vs ! i)"
        by (metis (no_types) shares_without singletonD Suc_less_eq length_Cons nth_Cons_Suc)
    qed
  qed (use Cons.prems in simp)
  ultimately show ?case by (simp add: getShares_def insert_is_Un [symmetric] Un_commute)
qed (simp add: getShares_def)

lemma party_ids: "[1..int n] = map party_id [0..<n]"
proof (induction n)
  case (Suc n)
  have "[1..int (Suc n)] = [1..int n] @ [int (Suc n)]" by (simp add: upto_rec2)
  with Suc show ?case by (simp add: party_id_def)
qed simp

definition round_keys :: "nat set \<Rightarrow> address_id list \<Rightarrow> address set" where
  "round_keys Q ids = (\<Union>q \<in> Q. address_key (party_id q) ` set ids)"

context wire
begin

lemma recons_vec_loop_step:
  assumes "round_ok valid n k ids vals srv" "q < n" "q \<noteq> p"
    "\<forall>i < k. shares s (address_key (party_id q) (ids ! i)) = Some (str (vals q ! i))"
  shows "recons_vec_loop parse (party_id p) vs ids (party_id q # pts) ret s =
    recons_vec_loop parse (party_id p) vs ids pts (map2 (+) ret (vals q)) (without s (address_key (party_id q) ` set ids))"
proof -
  have len: "length ids = k" "length (vals q) = k" and v: "\<forall>v \<in> set (vals q). valid v"
    using assms(1,2) by (auto simp: round_ok_def)
  have "distinct (map (address_key (party_id q)) ids)"
    using assms(1) key_eq [OF assms(1)] len(1) by (simp add: distinct_conv_nth)
  then have gs: "getShares (party_id q) ids s = Inr (map str (vals q), without s (address_key (party_id q) ` set ids))"
    using assms(4) len by (intro getShares_correct) auto
  have ms: "mapE parse (map str (vals q)) = Inr (vals q)"
    using v by (simp add: mapE_eq_Inr wire)
  show ?thesis using gs ms assms(3) by (simp add: bindS_def liftS_def)
qed

lemma other_keys: "r \<noteq> q \<Longrightarrow> shares (without s (address_key (party_id q) ` set ids)) (address_key (party_id r) a) = shares s (address_key (party_id r) a)"
  by (rule shares_without) (auto simp: address_key_def)

lemma recons_vec_loop_correct:
  assumes "round_ok valid n k ids vals srv" "p < n" "length ret = k" "distinct qs"
    "\<forall>q \<in> set qs. q < n \<and> (q \<noteq> p \<longrightarrow> (\<forall>i < k. shares s (address_key (party_id q) (ids ! i)) = Some (str (vals q ! i))))"
  shows "recons_vec_loop parse (party_id p) (vals p) ids (map party_id qs) ret s =
    Inr (foldl (\<lambda>ret q. map2 (+) ret (vals q)) ret qs, without s (round_keys (set qs - {p}) ids))"
  using assms(3-5)
proof (induction qs arbitrary: ret s)
  case (Cons q qs)
  have len: "length (vals q) = k" using assms(1) Cons.prems(3) by (auto simp: round_ok_def)
  show ?case
  proof (cases "q = p")
    case True
    with Cons len show ?thesis by simp
  next
    case False
    let ?s = "without s (address_key (party_id q) ` set ids)"
    have "\<forall>r \<in> set qs. r < n \<and> (r \<noteq> p \<longrightarrow> (\<forall>i < k. shares ?s (address_key (party_id r) (ids ! i)) = Some (str (vals r ! i))))"
    proof
      fix r assume "r \<in> set qs"
      then have "r \<noteq> q" "r < n \<and> (r \<noteq> p \<longrightarrow> (\<forall>i < k. shares s (address_key (party_id r) (ids ! i)) = Some (str (vals r ! i))))"
        using Cons.prems(2,3) by auto
      then show "r < n \<and> (r \<noteq> p \<longrightarrow> (\<forall>i < k. shares ?s (address_key (party_id r) (ids ! i)) = Some (str (vals r ! i))))"
        by (simp add: other_keys)
    qed
    then have IH: "recons_vec_loop parse (party_id p) (vals p) ids (map party_id qs) (map2 (+) ret (vals q)) ?s =
        Inr (foldl (\<lambda>ret q. map2 (+) ret (vals q)) (map2 (+) ret (vals q)) qs, without ?s (round_keys (set qs - {p}) ids))"
      using Cons.prems len by (intro Cons.IH) auto
    have "round_keys (set (q # qs) - {p}) ids = address_key (party_id q) ` set ids \<union> round_keys (set qs - {p}) ids"
      using False by (auto simp: round_keys_def)
    moreover have "q < n" "\<forall>i < k. shares s (address_key (party_id q) (ids ! i)) = Some (str (vals q ! i))"
      using Cons.prems(3) False by auto
    note recons_vec_loop_step [OF assms(1) this(1) False this(2)]
    ultimately show ?thesis using IH by simp
  qed
qed (simp add: retS_def round_keys_def)

lemma recons_vec_loop_blocked:
  assumes "round_ok valid n k ids vals srv" "0 < k" "distinct qs" "q0 \<in> set qs" "q0 \<noteq> p" "q0 \<notin> D" "set qs \<subseteq> {..<n}"
    "\<forall>q \<in> set qs. q \<noteq> p \<longrightarrow> (\<forall>i < k. shares s (address_key (party_id q) (ids ! i)) = (if q \<in> D then Some (str (vals q ! i)) else None))"
  shows "recons_vec_loop parse (party_id p) vs ids (map party_id qs) ret s = Inl Blocked"
  using assms(3,4,7,8)
proof (induction qs arbitrary: ret s)
  case (Cons q qs)
  consider "q = p" | "q \<noteq> p" "q \<in> D" | "q \<noteq> p" "q \<notin> D" by blast
  then show ?case
  proof cases
    case 1
    with Cons assms(5) show ?thesis by simp
  next
    case 2
    let ?s = "without s (address_key (party_id q) ` set ids)"
    have "recons_vec_loop parse (party_id p) vs ids (map party_id qs) (map2 (+) ret (vals q)) ?s = Inl Blocked"
    proof (rule Cons.IH)
      show "\<forall>r \<in> set qs. r \<noteq> p \<longrightarrow> (\<forall>i < k. shares ?s (address_key (party_id r) (ids ! i)) = (if r \<in> D then Some (str (vals r ! i)) else None))"
        using Cons.prems(1,4) by (metis distinct.simps(2) list.set_intros(2) other_keys)
    qed (use Cons.prems 2 assms(6) in auto)
    moreover have "q < n" "\<forall>i < k. shares s (address_key (party_id q) (ids ! i)) = Some (str (vals q ! i))"
      using Cons.prems(3,4) 2 by auto
    note recons_vec_loop_step [OF assms(1) this(1) 2(1) this(2)]
    ultimately show ?thesis by simp
  next
    case 3
    obtain a as where "ids = a # as"
      using assms(1,2) by (cases ids) (auto simp: round_ok_def)
    moreover have "shares s (address_key (party_id q) (ids ! 0)) = None"
      using Cons.prems(4) 3 assms(2) by auto
    ultimately have "getShares (party_id q) ids s = Inl Blocked"
      by (simp add: getShares_def getShare_def)
    with 3 show ?thesis by (simp add: bindS_def)
  qed
qed simp

lemma foldl_columns:
  assumes "\<forall>q \<in> set qs. length (vals q) = k" "length ret = k"
  shows "foldl (\<lambda>ret q. map2 (+) ret (vals q)) ret qs = map (\<lambda>i. foldl (+) (ret ! i) (map (\<lambda>q. vals q ! i) qs)) [0..<k]"
  using assms
proof (induction qs arbitrary: ret)
  case (Cons q qs)
  then show ?case by simp
qed (auto intro: nth_equalityI)

lemma recons_vec_correct:
  assumes "round_ok valid n k ids vals srv" "p < n"
    "\<forall>q < n. q \<noteq> p \<longrightarrow> (\<forall>i < k. shares s (address_key (party_id q) (ids ! i)) = Some (str (vals q ! i)))"
  shows "recons_vec parse (int n) (party_id p) (vals p) ids s =
    Inr (map (\<lambda>i. recons (column n vals i)) [0..<k], without s (round_keys ({..<n} - {p}) ids))"
proof -
  have l: "length (vals p) = k" "\<forall>q \<in> set [0..<n]. length (vals q) = k"
    using assms(1,2) by (auto simp: round_ok_def)
  have "foldl (\<lambda>ret q. map2 (+) ret (vals q)) (replicate k 0) [0..<n] = map (\<lambda>i. recons (column n vals i)) [0..<k]"
    by (subst foldl_columns [OF l(2)]) (simp_all add: recons_def column_def)
  then show ?thesis
    unfolding recons_vec_def party_ids l(1)
    using assms(3) by (subst recons_vec_loop_correct [OF assms(1,2)]) (auto simp: atLeast0LessThan)
qed

lemma recons_vec_blocked:
  assumes "round_ok valid n k ids vals srv" "0 < k" "q0 < n" "q0 \<noteq> p" "q0 \<notin> D"
    "\<forall>q < n. q \<noteq> p \<longrightarrow> (\<forall>i < k. shares s (address_key (party_id q) (ids ! i)) = (if q \<in> D then Some (str (vals q ! i)) else None))"
  shows "recons_vec parse (int n) (party_id p) vs ids s = Inl Blocked"
  unfolding recons_vec_def party_ids
  by (rule recons_vec_loop_blocked [OF assms(1,2) distinct_upt _ assms(4,5)]) (use assms(3,6) in auto)

end

subsection \<open>The number format of boost\<close>

definition pf_canonical :: "pf \<Rightarrow> bool" where
  "pf_canonical v \<longleftrightarrow> 0 \<le> getVal v \<and> getVal v < pf_p"

locale boost_int =
  fixes bstr :: "int \<Rightarrow> string" and bparse :: "string \<Rightarrow> int res"
  assumes boost_roundtrip: "0 \<le> v \<Longrightarrow> v < 2 ^ 128 \<Longrightarrow> bparse (bstr v) = Inr v"

sublocale boost_int \<subseteq> pf: wire "pf_getStrVal bstr" "pf_of_string bparse" pf_canonical
proof
  fix v
  assume "pf_canonical v"
  then have v: "0 \<le> getVal v" "getVal v < pf_p" by (simp_all add: pf_canonical_def)
  then have "getVal v < 2 ^ 128" by (simp add: pf_p_def)
  with v show "pf_of_string bparse (pf_getStrVal bstr v) = Inr v"
    by (simp add: pf_of_string_def pf_getStrVal_def boost_roundtrip pf_make_def)
qed

context boost_int
begin

lemmas round_sums = pf.reachable_sums
lemmas round_completes = pf.completes [OF _ pf.reachable_inv]
lemmas recons_vec_sums = pf.recons_vec_correct
lemmas recons_vec_waits = pf.recons_vec_blocked
lemmas round_foreign = pf.reachable_foreign
lemmas round_invariant = pf.reachable_inv

end

interpretation decimal: boost_int to_string "\<lambda>s. Inr (parse_int s)"
  by unfold_locales (simp add: parse_int_to_string)

subsection \<open>Properties\<close>

text \<open>
  C36. Splitting a vector of shares into messages loses nothing: the messages of \<open>makeShares\<close>, read one after
  the other, hold the values in order under their addresses, all under the sender's id, and a message is
  larger than 1,000,000 bytes only if it holds a single share.
\<close>

theorem makeShares_roundtrip:
  "concat (map pbs_list (makeShares vs ids p)) = zip (map pb_address_id ids) vs \<and>
   (\<forall>m. m \<in> set (makeShares vs ids p) \<longrightarrow> pbs_party m = p \<and> message_fits m)"
proof (intro conjI allI impI)
  show "concat (map pbs_list (makeShares vs ids p)) = zip (map pb_address_id ids) vs"
    using makeShares_entries [of vs ids p] by (simp add: entries_def)
  show "pbs_party m = p" if "m \<in> set (makeShares vs ids p)" for m
    using makeShares_party that by blast
  have "\<forall>m \<in> set (makeShares vs ids p). message_fits m"
    unfolding makeShares_def
    by (rule makeShares_loop_fits) (simp_all add: party_id_size_def max_message_def)
  then show "message_fits m" if "m \<in> set (makeShares vs ids p)" for m
    using that by blast
qed

definition demo_id :: "nat \<Rightarrow> address_id" where
  "demo_id i = fst (newIds 2 \<lparr>share_id_generator = 7, job_id_assigned_in_thread = 1\<rparr>) ! i"

theorem makeShares_roundtrip_witness:
  "concat (map pbs_list (makeShares [''5'', ''17''] [demo_id 0, demo_id 1] 2)) =
     [(pb_address_id (demo_id 0), ''5''), (pb_address_id (demo_id 1), ''17'')]"
  using makeShares_roundtrip [of "[''5'', ''17'']" "[demo_id 0, demo_id 1]" 2] by simp

text \<open>
  The retry loops of the client: if a call reports success only after a complete delivery and the \<open>j\<close>-th
  call succeeds, \<open>exchangeShare\<close> and \<open>exchangeShares\<close> return true within \<open>j + 1\<close> tries, and however many
  messages the failed tries delivered, the server is left as after one complete delivery.
\<close>

theorem exchange_idempotent:
  assumes "rpc_honest (length (makeShares vs ids p)) rpc" "rpc_honest 1 rpc" "status_ok (rpc j)" "j < fuel"
  shows "exchangeShares rpc fuel 0 (makeShares vs ids p) s = Inr (True, ExchangeShares (makeShares vs ids p) s) \<and>
    exchangeShare rpc fuel 0 m s = Inr (True, ExchangeShare m s)"
  using exchangeShares_delivers [OF makeShares_party assms(1), of 0 j fuel s]
    exchangeShare_delivers [OF assms(2), of 0 j fuel m s] assms(3,4) by simp

theorem exchange_idempotent_witness:
  "exchangeShares (\<lambda>k. if k = 0 then \<lparr>delivered = 1, status_ok = False\<rparr> else \<lparr>delivered = 1, status_ok = True\<rparr>)
     2 0 (makeShares [''5''] [demo_id 0] 2) (Server_init 3 1) =
   Inr (True, ExchangeShares (makeShares [''5''] [demo_id 0] 2) (Server_init 3 1))"
proof -
  have "length (makeShares [''5''] [demo_id 0] 2) = 1"
    by (simp add: makeShares_def addressId_size_def party_id_size_def max_message_def)
  then show ?thesis
    using exchange_idempotent [of "[''5'']" "[demo_id 0]" 2
        "\<lambda>k. if k = 0 then \<lparr>delivered = 1, status_ok = False\<rparr> else \<lparr>delivered = 1, status_ok = True\<rparr>" 1 2]
    by (simp add: rpc_honest_def)
qed

text \<open>
  C5. Opening and reconstructing through the network implements the sum of all parties' values: in every
  interleaving of deliveries, failed and repeated sends and reads, a party that has finished \<open>recons\<close> holds
  the reconstruction of every share, the same for all parties; and \<open>recons\<close> run by one party on a server that
  holds the other parties' values returns it and removes exactly these entries.
\<close>

theorem exchange_refines_recons:
  assumes "boost_int str parse" "round_ok pf_canonical n k ids vals srv" "p < n"
  shows "((round_step (pf_getStrVal str) (pf_of_string parse) ids vals)\<^sup>*\<^sup>* (round_init n srv k) st \<and> todo st p = [] \<longrightarrow>
      got st p = map (\<lambda>i. recons (column n vals i)) [0..<k]) \<and>
    ((\<forall>q < n. q \<noteq> p \<longrightarrow> (\<forall>i < k. shares s (address_key (party_id q) (ids ! i)) = Some (pf_getStrVal str (vals q ! i)))) \<longrightarrow>
      recons_vec (pf_of_string parse) (int n) (party_id p) (vals p) ids s =
        Inr (map (\<lambda>i. recons (column n vals i)) [0..<k], without s (round_keys ({..<n} - {p}) ids)))"
  using boost_int.round_sums [OF assms(1,2) _ assms(3), of st]
    boost_int.recons_vec_sums [OF assms] by blast

text \<open>Two parties with one share each, on fresh servers.\<close>

definition demo_vals :: "nat \<Rightarrow> pf list" where
  "demo_vals p = [PF (5 + int p)]"

definition demo_servers :: "nat \<Rightarrow> server" where
  "demo_servers p = Server_init 2 (party_id p)"

lemma demo_round: "round_ok pf_canonical 2 1 [demo_id 0] demo_vals demo_servers"
  by (auto simp: round_ok_def demo_vals_def pf_canonical_def pf_p_def demo_servers_def Server_init_def
      demo_id_def newIds_eq less_Suc_eq numeral_2_eq_2)

theorem exchange_refines_recons_witness:
  "\<exists>s'. recons_vec (pf_of_string (\<lambda>s. Inr (parse_int s))) 2 (party_id 0) [PF 5] [demo_id 0]
     (ExchangeShares (makeShares [to_string 6] [demo_id 0] (party_id 1)) (demo_servers 0)) = Inr ([PF 11], s')"
proof -
  let ?s = "ExchangeShares (messages (pf_getStrVal to_string) [demo_id 0] demo_vals 1) (demo_servers 0)"
  have "shares ?s (address_key (party_id q) ([demo_id 0] ! i)) = Some (pf_getStrVal to_string (demo_vals q ! i))"
    if "q < 2" "q \<noteq> 0" "i < 1" for q i
  proof -
    have "q = 1" "i = 0" using that by auto
    then show ?thesis
      using stored(3) [OF demo_round, of 1 0 "pf_getStrVal to_string" "length (messages (pf_getStrVal to_string) [demo_id 0] demo_vals 1)"]
      by simp
  qed
  then have "recons_vec (pf_of_string (\<lambda>s. Inr (parse_int s))) (int 2) (party_id 0) (demo_vals 0) [demo_id 0] ?s =
      Inr (map (\<lambda>i. recons (column 2 demo_vals i)) [0..<1], without ?s (round_keys ({..<2} - {0}) [demo_id 0]))"
    using exchange_refines_recons [OF decimal.boost_int_axioms demo_round, of 0 undefined ?s] by simp
  moreover have "recons (column 2 demo_vals 0) = PF 11"
    by (simp add: column_def demo_vals_def recons_def upt_conv_Cons zero_pf_def plus_pf_def pf_p_def)
  ultimately show ?thesis
    by (simp add: messages_def demo_vals_def pf_getStrVal_def)
qed

text \<open>
  C27. A round of openings cannot get stuck: from every state that the parties can reach, whatever has been
  delivered or has failed so far, some continuation lets all parties finish their reconstruction.
\<close>

theorem exchange_completes:
  assumes "boost_int str parse" "round_ok pf_canonical n k ids vals srv"
    "(round_step (pf_getStrVal str) (pf_of_string parse) ids vals)\<^sup>*\<^sup>* (round_init n srv k) st"
  shows "\<exists>st'. (round_step (pf_getStrVal str) (pf_of_string parse) ids vals)\<^sup>*\<^sup>* st st' \<and>
    (\<forall>p < n. todo st' p = [] \<and> got st' p = map (\<lambda>i. recons (column n vals i)) [0..<k])"
proof -
  obtain st' where st': "(round_step (pf_getStrVal str) (pf_of_string parse) ids vals)\<^sup>*\<^sup>* st st'" "\<forall>p < n. todo st' p = []"
    using boost_int.round_completes [OF assms(1,2,2,3)] by blast
  with assms(3) have "(round_step (pf_getStrVal str) (pf_of_string parse) ids vals)\<^sup>*\<^sup>* (round_init n srv k) st'"
    by (meson rtranclp_trans)
  with st' boost_int.round_sums [OF assms(1,2)] show ?thesis by blast
qed

theorem exchange_completes_witness:
  "\<exists>st'. (round_step (pf_getStrVal to_string) (pf_of_string (\<lambda>s. Inr (parse_int s))) [demo_id 0] demo_vals)\<^sup>*\<^sup>*
      (round_init 2 demo_servers 1) st' \<and> (\<forall>p < 2. todo st' p = [] \<and> got st' p = [PF 11])"
proof -
  have "recons (column 2 demo_vals 0) = PF 11"
    by (simp add: column_def demo_vals_def recons_def upt_conv_Cons zero_pf_def plus_pf_def pf_p_def)
  with exchange_completes [OF decimal.boost_int_axioms demo_round rtranclp.rtrancl_refl] show ?thesis by simp
qed

text \<open>The addresses of the next \<open>k\<close> shares of a thread that works on job \<open>j\<close>.\<close>

definition job_ids :: "nat \<Rightarrow> 32 word \<Rightarrow> id_state \<Rightarrow> address_id list" where
  "job_ids k j g = fst (newIds k (setJobId j g))"

lemma job_ids_foreign:
  assumes "jA \<noteq> jB" "i < k" "i' < k'"
  shows "address_key 0 (job_ids k jB g ! i) \<noteq> address_key 0 (job_ids k' jA h ! i')"
  using assms by (simp add: job_ids_def newIds_eq setJobId_def address_key_def)

lemma round_stale:
  assumes "round_inv str n k ids vals st" "p < n" "q < n" "i < k" "q \<noteq> p" "(q, p) \<notin> unsent st" "(q, i) \<in> set (todo st p)"
  shows "shares (servers st p) (address_key (party_id q) (ids ! i)) = Some (str (vals q ! i))"
  using round_inv_cell [OF assms(1-5)] assms(6,7) by (simp add: cell_inv_def Let_def)

lemma round_ok_hybrid:
  assumes "round_ok valid n k ids valsA srv" "round_ok valid n k ids valsB srv"
  shows "round_ok valid n k ids (\<lambda>q. if q \<in> D then valsB q else valsA q) srv"
  using assms by (simp add: round_ok_def)

lemma round_ok_values:
  assumes "round_ok valid n k ids vals srv" "\<And>p. p < n \<Longrightarrow> length (vals' p) = k \<and> (\<forall>v \<in> set (vals' p). valid v)"
  shows "round_ok valid n k ids vals' srv"
  using assms by (simp add: round_ok_def)

text \<open>
  C40. The number of a job separates its shares from those of other jobs, and nothing else does. Job \<open>jA\<close> opens a vector on
  clean servers and is aborted in any state \<open>st\<close> of the round; the servers' maps are never cleared. Then job \<open>jB\<close>
  opens a vector under the same share numbers (every thread counts them from the start), and the vectors of the parties
  \<open>qs\<close> have arrived at party \<open>p\<close>. If the numbers differ, \<open>recons\<close> returns the sum of the vectors of job \<open>jB\<close> when all other parties
  are among \<open>qs\<close>, and waits otherwise. If the numbers are equal, it does not wait for a party whose vector for job \<open>jA\<close> arrived
  and was not read: it returns without an error the sum in which that party's vector is the one of the aborted job.
\<close>

theorem stale_shares_by_job:
  assumes "boost_int str parse" "p < n" "0 < k" "set qs \<subseteq> {..<n}"
    "round_ok pf_canonical n k (job_ids k jA g) valsA srv" "round_ok pf_canonical n k (job_ids k jB g) valsB srv"
    "(round_step (pf_getStrVal str) (pf_of_string parse) (job_ids k jA g) valsA)\<^sup>*\<^sup>* (round_init n srv k) st"
  shows "let s = arrive (pf_getStrVal str) (job_ids k jB g) valsB qs (servers st p);
       mixed = (\<lambda>q. if q = p \<or> q \<in> set qs then valsB q else valsA q);
       sum_of = (\<lambda>vals. Inr (map (\<lambda>i. recons (column n vals i)) [0..<k], without s (round_keys ({..<n} - {p}) (job_ids k jB g))));
       result = recons_vec (pf_of_string parse) (int n) (party_id p) (valsB p) (job_ids k jB g) s
     in (jA \<noteq> jB \<longrightarrow> result = (if \<forall>q < n. q = p \<or> q \<in> set qs then sum_of valsB else Inl Blocked)) \<and>
        (jA = jB \<and> (\<forall>q < n. q = p \<or> q \<in> set qs \<or> (q, p) \<notin> unsent st \<and> (\<forall>i < k. (q, i) \<in> set (todo st p))) \<longrightarrow>
           result = sum_of mixed)"
proof -
  let ?str = "pf_getStrVal str" and ?idsB = "job_ids k jB g"
  let ?s = "arrive ?str ?idsB valsB qs (servers st p)"
  let ?mixed = "\<lambda>q. if q = p \<or> q \<in> set qs then valsB q else valsA q"
  let ?sum = "\<lambda>vals. Inr (map (\<lambda>i. recons (column n vals i)) [0..<k], without ?s (round_keys ({..<n} - {p}) ?idsB))"
  let ?result = "recons_vec (pf_of_string parse) (int n) (party_id p) (valsB p) ?idsB ?s"
  note got = arrive_shares [OF assms(6,4), where s = "servers st p" and str = ?str]
  have "?result = (if \<forall>q < n. q = p \<or> q \<in> set qs then ?sum valsB else Inl Blocked)" if j: "jA \<noteq> jB"
  proof -
    have "shares (servers st p) (address_key (party_id q) (?idsB ! i)) = None" if "q < n" "i < k" for q i
      using boost_int.round_foreign [OF assms(1,5,7), of "?idsB ! i" p "party_id q"] job_ids_foreign [OF j that(2)]
        assms(2,6) that by (simp add: round_ok_def)
    then have cells: "shares ?s (address_key (party_id q) (?idsB ! i)) = (if q \<in> set qs then Some (?str (valsB q ! i)) else None)"
      if "q < n" "i < k" for q i
      using got that by simp
    show ?thesis
    proof (cases "\<forall>q < n. q = p \<or> q \<in> set qs")
      case True
      then have "\<forall>q < n. q \<noteq> p \<longrightarrow> (\<forall>i < k. shares ?s (address_key (party_id q) (?idsB ! i)) = Some (?str (valsB q ! i)))"
        using cells by auto
      from boost_int.recons_vec_sums [OF assms(1,6,2) this] True show ?thesis by simp
    next
      case False
      then obtain q0 where q0: "q0 < n" "q0 \<noteq> p" "q0 \<notin> set qs" by blast
      with boost_int.recons_vec_waits [OF assms(1,6,3) q0] cells False show ?thesis by simp
    qed
  qed
  moreover have "?result = ?sum ?mixed"
    if j: "jA = jB" and old: "\<forall>q < n. q = p \<or> q \<in> set qs \<or> (q, p) \<notin> unsent st \<and> (\<forall>i < k. (q, i) \<in> set (todo st p))"
  proof -
    note inv = boost_int.round_invariant [OF assms(1,5,7)]
    have ok: "round_ok pf_canonical n k ?idsB ?mixed srv"
      using round_ok_hybrid [OF assms(5) assms(6) [folded j], of "insert p (set qs)"] j by simp
    have "\<forall>q < n. q \<noteq> p \<longrightarrow> (\<forall>i < k. shares ?s (address_key (party_id q) (?idsB ! i)) = Some (?str (?mixed q ! i)))"
      using got round_stale [OF inv assms(2)] old j by auto
    from boost_int.recons_vec_sums [OF assms(1) ok assms(2) this] show ?thesis by simp
  qed
  ultimately show ?thesis unfolding Let_def by blast
qed

text \<open>Job 1 is aborted when party 2 has sent its 6 to party 1; in the next job with number 1, party 1 adds it to its 50.\<close>

definition demo_gen :: id_state where
  "demo_gen = \<lparr>share_id_generator = 7, job_id_assigned_in_thread = 0\<rparr>"

lemma demo_job_ids: "job_ids 1 1 demo_gen = [demo_id 0]"
  by (simp add: job_ids_def demo_gen_def demo_id_def newIds_eq setJobId_def upt_rec)

definition demo_vals2 :: "nat \<Rightarrow> pf list" where
  "demo_vals2 p = [PF (50 + int p)]"

theorem stale_shares_by_job_witness:
  "\<exists>st s'. (round_step (pf_getStrVal to_string) (pf_of_string (\<lambda>s. Inr (parse_int s))) (job_ids 1 1 demo_gen) demo_vals)\<^sup>*\<^sup>*
        (round_init 2 demo_servers 1) st \<and>
      recons_vec (pf_of_string (\<lambda>s. Inr (parse_int s))) 2 (party_id 0) (demo_vals2 0) (job_ids 1 1 demo_gen) (servers st 0) =
        Inr ([PF 56], s')"
proof -
  let ?st = "round_init 2 demo_servers 1 :: pf round" and ?str = "pf_getStrVal to_string"
  let ?step = "round_step ?str (pf_of_string (\<lambda>s. Inr (parse_int s))) (job_ids 1 1 demo_gen) demo_vals"
  let ?st1 = "?st\<lparr>servers := (servers ?st)(0 := ExchangeShares (messages ?str (job_ids 1 1 demo_gen) demo_vals 1) (servers ?st 0)),
    unsent := unsent ?st - {(1, 0)}\<rparr>"
  have "(1, 0) \<in> unsent ?st" by (simp add: round_init_def)
  then have "?step ?st ?st1" by (rule round_step.Deliver)
  then have reach: "?step\<^sup>*\<^sup>* ?st ?st1" by (rule r_into_rtranclp)
  have ok: "round_ok pf_canonical 2 1 (job_ids 1 1 demo_gen) demo_vals demo_servers"
    unfolding demo_job_ids by (rule demo_round)
  have ok2: "round_ok pf_canonical 2 1 (job_ids 1 1 demo_gen) demo_vals2 demo_servers"
    by (rule round_ok_values [OF ok]) (simp add: demo_vals2_def pf_canonical_def pf_p_def)
  have "\<forall>q < 2. q = 0 \<or> q \<in> set [] \<or> (q, 0) \<notin> unsent ?st1 \<and> (\<forall>i < 1. (q, i) \<in> set (todo ?st1 0))"
    by (simp add: round_init_def set_schedule less_2_cases_iff)
  moreover have "recons (column 2 (\<lambda>q. if q = 0 then demo_vals2 q else demo_vals q) 0) = PF 56"
    by (simp add: column_def demo_vals_def demo_vals2_def recons_def upt_conv_Cons zero_pf_def plus_pf_def pf_p_def)
  moreover note stale_shares_by_job [OF decimal.boost_int_axioms _ _ _ ok ok2 reach, of 0 "[]", unfolded Let_def]
  ultimately have "\<exists>s'. recons_vec (pf_of_string (\<lambda>s. Inr (parse_int s))) 2 (party_id 0) (demo_vals2 0) (job_ids 1 1 demo_gen) (servers ?st1 0) =
      Inr ([PF 56], s')"
    by (simp add: arrive_def)
  with reach show ?thesis by blast
qed

end
