(* ===== verification/Jobs.thy ===== *)
theory Jobs
  imports Queue Network
begin

section \<open>Jobs: status, execution and dispatch\<close>

text \<open>
  \<open>Job/\<close>, \<open>Model/ModelBase.cpp\<close>, \<open>Model/ModelManager.hpp\<close> and the two servers that start work
  (\<open>ManageToComputationContainer\<close>, \<open>ComputationToComputationContainerForJob\<close>).

  A job runs through the phases of \<open>JobStatus\<close>, telling the database each time; an exception stops it in
  the phase it has reached. State survives an exception in C++, so these functions are computations that
  return the state in either case (\<open>tcomp\<close>). The database's answers, the table that is read and the
  computation of the job are parameters.

  The second part is the dispatcher: the job manager of the trigger party takes a request and a free job
  number, tells every party to start, and the number becomes free again when the trigger party's own thread
  ends. \<open>job_do\<close> executes one atomic action of one of the threads involved, \<open>run_actions\<close> a schedule.
\<close>

subsection \<open>Computations that keep the state on an exception\<close>

type_synonym ('s, 'a) tcomp = "'s \<Rightarrow> 'a res \<times> 's"

definition bindT :: "('s, 'a) tcomp \<Rightarrow> ('a \<Rightarrow> ('s, 'b) tcomp) \<Rightarrow> ('s, 'b) tcomp" where
  "bindT m f s = (case m s of (Inl e, s') \<Rightarrow> (Inl e, s') | (Inr x, s') \<Rightarrow> f x s')"

definition liftT :: "'a res \<Rightarrow> ('s, 'a) tcomp" where
  "liftT r s = (r, s)"

definition is_runtime_error :: "exn \<Rightarrow> bool" where
  "is_runtime_error e \<longleftrightarrow> (case e of RuntimeError _ \<Rightarrow> True | RangeError \<Rightarrow> True | OverflowError \<Rightarrow> True | _ \<Rightarrow> False)"

definition is_std_exception :: "exn \<Rightarrow> bool" where
  "is_std_exception e \<longleftrightarrow> is_runtime_error e \<or>
     (case e of LogicError _ \<Rightarrow> True | OutOfRangeError \<Rightarrow> True | InvalidArgument \<Rightarrow> True | BadOptionalAccess \<Rightarrow> True
      | JsonError \<Rightarrow> True | _ \<Rightarrow> False)"

definition is_exception :: "exn \<Rightarrow> bool" where
  "is_exception e \<longleftrightarrow> is_std_exception e \<or> (case e of ThrownCString _ \<Rightarrow> True | _ \<Rightarrow> False)"

subsection \<open>Status of a job\<close>

datatype job_status = UNKNOWN | PRE_JOB | READ_DB | COMPUTE | WRITE_DB | COMPLETED

definition job_statuses :: "job_status list" where
  "job_statuses = [UNKNOWN, PRE_JOB, READ_DB, COMPUTE, WRITE_DB, COMPLETED]"

fun status_number :: "job_status \<Rightarrow> nat" where
  "status_number UNKNOWN = 0"
| "status_number PRE_JOB = 1"
| "status_number READ_DB = 2"
| "status_number COMPUTE = 3"
| "status_number WRITE_DB = 4"
| "status_number COMPLETED = 5"

datatype 'v job_result = Vec "'v list" | Mat "'v list list" | Json string

datatype db_call =
    RegisterJob string nat
  | UpdateJobStatus string nat
  | WriteComputationResult string "string job_result"

record status_manager =
  job_uuid :: "string option"
  status :: job_status
  db_log :: "db_call list"
  thread_ids :: id_state

definition db_query :: "(db_call list \<Rightarrow> db_call \<Rightarrow> exn option) \<Rightarrow> db_call \<Rightarrow> (status_manager, unit) tcomp" where
  "db_query db call m =
     (case db (db_log m) call of None \<Rightarrow> (Inr (), m\<lparr>db_log := db_log m @ [call]\<rparr>) | Some e \<Rightarrow> (Inl e, m))"

definition with_uuid :: "(string \<Rightarrow> (status_manager, 'a) tcomp) \<Rightarrow> (status_manager, 'a) tcomp" where
  "with_uuid f m = (case job_uuid m of None \<Rightarrow> (Inl BadOptionalAccess, m) | Some u \<Rightarrow> f u m)"

definition registerJob :: "(db_call list \<Rightarrow> db_call \<Rightarrow> exn option) \<Rightarrow> (status_manager, unit) tcomp" where
  "registerJob db m = with_uuid (\<lambda>u. db_query db (RegisterJob u (status_number (status m)))) m"

definition StatusManager_default :: "id_state \<Rightarrow> status_manager" where
  "StatusManager_default g = \<lparr>job_uuid = None, status = UNKNOWN, db_log = [], thread_ids = g\<rparr>"

definition StatusManager :: "(db_call list \<Rightarrow> db_call \<Rightarrow> exn option) \<Rightarrow> id_state \<Rightarrow> string \<Rightarrow> unit res \<times> status_manager" where
  "StatusManager db g u = registerJob db \<lparr>job_uuid = Some u, status = PRE_JOB, db_log = [], thread_ids = g\<rparr>"

definition initJobID :: "(db_call list \<Rightarrow> db_call \<Rightarrow> exn option) \<Rightarrow> string \<Rightarrow> (status_manager, unit) tcomp" where
  "initJobID db u m =
     (if job_uuid m \<noteq> None then (Inl (LogicError ''JobStatusError: JobUUID is already initialized''), m)
      else registerJob db (m\<lparr>job_uuid := Some u, status := PRE_JOB\<rparr>))"

definition nextStatus :: "(db_call list \<Rightarrow> db_call \<Rightarrow> exn option) \<Rightarrow> (status_manager, unit) tcomp" where
  "nextStatus db m =
     (let next_index = status_number (status m) + 1 in
      if next_index \<ge> length job_statuses then (Inl OutOfRangeError, m)
      else let m1 = m\<lparr>status := job_statuses ! next_index\<rparr>
           in with_uuid (\<lambda>u. db_query db (UpdateJobStatus u (status_number (status m1)))) m1)"

subsection \<open>Running a job\<close>

record exec_request =
  method_id :: int
  req_uuid :: string
  dataids :: "string list"
  req_join :: "int list"
  req_index :: "int list"
  arg_src :: "int list"
  arg_target :: "int list"

record 'v job_env =
  env_db :: "db_call list \<Rightarrow> db_call \<Rightarrow> exn option"
  env_table :: "string list \<Rightarrow> int list \<Rightarrow> int list \<Rightarrow> (string list list \<times> string list) res"
  env_conv :: "string \<Rightarrow> 'v res"
  env_str :: "'v \<Rightarrow> string"
  env_traced :: "exn \<Rightarrow> bool"

definition to_shares :: "(string \<Rightarrow> 'v res) \<Rightarrow> string list list \<Rightarrow> 'v list list res" where
  "to_shares conv values =
     (if values = [] then Inl UndefinedBehaviour
      else let w = length (values ! 0) in
        mapE (\<lambda>row. if length row < w then Inl UndefinedBehaviour else mapE conv (take w row)) values)"

definition readDb ::
    "'v job_env \<Rightarrow> string list \<Rightarrow> int list \<Rightarrow> int list \<Rightarrow> (status_manager, 'v list list \<times> string list) tcomp" where
  "readDb env ds js is' =
     bindT (nextStatus (env_db env)) (\<lambda>_.
     bindT (liftT (env_table env ds js is')) (\<lambda>(values, schemas).
     bindT (liftT (to_shares (env_conv env) values)) (\<lambda>share_table.
     bindT (nextStatus (env_db env)) (\<lambda>_. liftT (Inr (share_table, schemas))))))"

fun job_toString :: "('v \<Rightarrow> string) \<Rightarrow> 'v job_result \<Rightarrow> string job_result" where
  "job_toString str (Vec vs) = Vec (map str vs)"
| "job_toString str (Mat vss) = Mat (map (map str) vss)"
| "job_toString str (Json j) = Json j"

definition writeDb :: "'v job_env \<Rightarrow> string \<Rightarrow> 'v job_result \<Rightarrow> (status_manager, unit) tcomp" where
  "writeDb env u values =
     bindT (nextStatus (env_db env)) (\<lambda>_.
     bindT (db_query (env_db env) (WriteComputationResult u (job_toString (env_str env) values))) (\<lambda>_.
     nextStatus (env_db env)))"

definition job_body ::
    "'v job_env \<Rightarrow> ('v list list \<Rightarrow> string list \<Rightarrow> int list list \<Rightarrow> 'v job_result res) \<Rightarrow> exec_request \<Rightarrow>
     (status_manager, unit) tcomp" where
  "job_body env compute req =
     bindT (readDb env (dataids req) (req_join req) (req_index req)) (\<lambda>(share_table, schemas).
     bindT (liftT (compute share_table schemas [arg_src req, arg_target req])) (\<lambda>result.
     writeDb env (req_uuid req) result))"

text \<open>
  Both handlers of \<open>JobBase::run\<close> dereference the stack trace attached to the exception; an exception
  that was not thrown by \<open>throw_with_trace\<close> carries none.
\<close>

definition JobBase_run ::
    "'v job_env \<Rightarrow> ('v list list \<Rightarrow> string list \<Rightarrow> int list list \<Rightarrow> 'v job_result res) \<Rightarrow> exec_request \<Rightarrow>
     (status_manager, nat) tcomp" where
  "JobBase_run env compute req m =
     (case job_body env compute req m of
        (Inr _, m') \<Rightarrow> (Inr (status_number (status m')), m')
      | (Inl e, m') \<Rightarrow>
          if is_std_exception e
          then if env_traced env e then (Inr (status_number (status m')), m') else (Inl UndefinedBehaviour, m')
          else (Inl e, m'))"

definition JobBase_init :: "'v job_env \<Rightarrow> exec_request \<Rightarrow> 32 word \<Rightarrow> id_state \<Rightarrow> unit res \<times> status_manager" where
  "JobBase_init env req job_id g =
     (case StatusManager (env_db env) g (req_uuid req) of
        (Inl e, m) \<Rightarrow> (Inl e, m)
      | (Inr _, m) \<Rightarrow> (Inr (), m\<lparr>thread_ids := setJobId job_id (thread_ids m)\<rparr>))"

subsection \<open>Choosing the job\<close>

datatype job_kind =
    MathJob_smean | MathJob_variance | MathJob_sum | CorrelJob | LinearRegressionJob | LogisticRegressionJob
  | MeshCodeJob | SID3Job | JoinTableJob

definition JobSelector :: "int \<Rightarrow> job_kind option" where
  "JobSelector mid =
     (if mid = 1 then Some MathJob_smean
      else if mid = 2 then Some MathJob_variance
      else if mid = 3 then Some MathJob_sum
      else if mid = 4 then Some CorrelJob
      else if mid = 5 then Some LinearRegressionJob
      else if mid = 6 then Some LogisticRegressionJob
      else if mid = 7 then Some MeshCodeJob
      else if mid = 8 then Some SID3Job
      else if mid = 9 then Some JoinTableJob
      else None)"

text \<open>
  The thread of \<open>asyncRun\<close> up to the end of its \<open>try\<close> block: construct the selected job and run it. Every
  exception is caught; what is left over is the end of the process or a thread that does not end.
\<close>

definition job_thread ::
    "'v job_env \<Rightarrow> (job_kind \<Rightarrow> 'v list list \<Rightarrow> string list \<Rightarrow> int list list \<Rightarrow> 'v job_result res) \<Rightarrow>
     exec_request \<Rightarrow> 32 word \<Rightarrow> id_state \<Rightarrow> unit res" where
  "job_thread env compute req job_id g =
     (case JobSelector (method_id req) of
        None \<Rightarrow> Inr ()
      | Some k \<Rightarrow>
          let r = (case JobBase_init env req job_id g of
                     (Inl e, _) \<Rightarrow> Inl e
                   | (Inr _, m) \<Rightarrow> (case fst (JobBase_run env (compute k) req m) of Inl e \<Rightarrow> Inl e | Inr _ \<Rightarrow> Inr ()))
          in case r of Inl e \<Rightarrow> if is_exception e then Inr () else Inl e | Inr _ \<Rightarrow> Inr ())"

subsection \<open>Prediction requests\<close>

record predict_request =
  p_uuid :: string
  model_param_job_uuid :: string
  model_id :: int
  p_dataids :: "string list"
  p_join :: "int list"
  p_index :: "int list"
  p_src :: "int list"

definition ModelBase_readDb :: "'v job_env \<Rightarrow> predict_request \<Rightarrow> (status_manager, 'v list list \<times> string list) tcomp" where
  "ModelBase_readDb env req = readDb env (p_dataids req) (p_join req) (p_index req)"

definition ModelBase_writeDb :: "'v job_env \<Rightarrow> predict_request \<Rightarrow> 'v list \<Rightarrow> (status_manager, unit) tcomp" where
  "ModelBase_writeDb env req values = writeDb env (p_uuid req) (Vec values)"

definition model_body ::
    "'v job_env \<Rightarrow> ('v list list \<Rightarrow> string list \<Rightarrow> int list \<Rightarrow> string \<Rightarrow> 'v list res) \<Rightarrow> predict_request \<Rightarrow>
     (status_manager, unit) tcomp" where
  "model_body env predict req =
     bindT (ModelBase_readDb env req) (\<lambda>(share_table, schemas).
     bindT (liftT (predict share_table schemas (p_src req) (model_param_job_uuid req))) (\<lambda>result.
     ModelBase_writeDb env req result))"

definition ModelBase_run ::
    "'v job_env \<Rightarrow> ('v list list \<Rightarrow> string list \<Rightarrow> int list \<Rightarrow> string \<Rightarrow> 'v list res) \<Rightarrow> predict_request \<Rightarrow>
     (status_manager, nat) tcomp" where
  "ModelBase_run env predict req m =
     (case initJobID (env_db env) (p_uuid req) (m\<lparr>thread_ids := setJobId 1000 (thread_ids m)\<rparr>) of
        (Inl e, m1) \<Rightarrow> (Inl e, m1)
      | (Inr _, m1) \<Rightarrow>
          (case model_body env predict req m1 of
             (Inr _, m2) \<Rightarrow> (Inr (status_number (status m2)), m2)
           | (Inl e, m2) \<Rightarrow> if is_std_exception e then (Inr (status_number (status m2)), m2) else (Inl e, m2)))"

datatype model_kind = LinearRegression | LogisticRegression | DecisionTree | SID3Model

definition ModelManager_select :: "int \<Rightarrow> model_kind option" where
  "ModelManager_select mid =
     (if mid = 1 then Some LinearRegression else if mid = 2 then Some LogisticRegression
      else if mid = 3 then Some DecisionTree else if mid = 4 then Some SID3Model else None)"

definition ModelManager_push ::
    "'v job_env \<Rightarrow> (model_kind \<Rightarrow> 'v list list \<Rightarrow> string list \<Rightarrow> int list \<Rightarrow> string \<Rightarrow> 'v list res) \<Rightarrow> id_state \<Rightarrow>
     predict_request \<Rightarrow> nat res" where
  "ModelManager_push env predict g req =
     (case ModelManager_select (model_id req) of
        None \<Rightarrow> Inr 0
      | Some k \<Rightarrow> fst (ModelBase_run env (predict k) req (StatusManager_default g)))"

datatype predict_status = PredictOk | INVALID_ARGUMENT string | INTERNAL string | ABORTED string

definition Predict ::
    "'v job_env \<Rightarrow> (model_kind \<Rightarrow> 'v list list \<Rightarrow> string list \<Rightarrow> int list \<Rightarrow> string \<Rightarrow> 'v list res) \<Rightarrow> id_state \<Rightarrow>
     predict_request \<Rightarrow> predict_status res" where
  "Predict env predict g req =
     bindE (ModelManager_push env predict g req) (\<lambda>st.
       if st = 0 then Inr (INVALID_ARGUMENT ''Predict Method Error'')
       else if st = 1 then Inr (INTERNAL ''Read Db Error'')
       else if st = 2 then Inr (ABORTED ''Computation Error'')
       else Inr PredictOk)"

subsection \<open>Status and outcome\<close>

definition status_updates_ok :: "'v job_env \<Rightarrow> bool" where
  "status_updates_ok env \<longleftrightarrow> (\<forall>cs u k. env_db env cs (UpdateJobStatus u k) = None)"

definition ready :: "string \<Rightarrow> status_manager \<Rightarrow> bool" where
  "ready u m \<longleftrightarrow> job_uuid m = Some u \<and> status m = PRE_JOB"

text \<open>The manager after the status updates \<open>ks\<close> and further calls.\<close>

definition reached :: "status_manager \<Rightarrow> job_status \<Rightarrow> db_call list \<Rightarrow> status_manager" where
  "reached m st calls = m\<lparr>status := st, db_log := db_log m @ calls\<rparr>"

lemma status_reached [simp]: "status (reached m st cs) = st" "job_uuid (reached m st cs) = job_uuid m"
  "db_log (reached m st cs) = db_log m @ cs" "reached (reached m st cs) st' ds = reached m st' (cs @ ds)"
  by (simp_all add: reached_def)

lemma nextStatus_reached:
  assumes "status_updates_ok env" "job_uuid m = Some u" "st \<noteq> COMPLETED"
  shows "nextStatus (env_db env) (reached m st cs) =
    (Inr (), reached m (job_statuses ! (status_number st + 1))
       (cs @ [UpdateJobStatus u (status_number st + 1)]))"
  using assms by (cases st) (simp_all add: nextStatus_def with_uuid_def db_query_def status_updates_ok_def job_statuses_def Let_def reached_def)

lemma reached_start: "ready u m \<Longrightarrow> m = reached m PRE_JOB []"
  by (simp add: ready_def reached_def)

lemma bindT_liftT [simp]: "bindT (liftT r) f m = (case r of Inl e \<Rightarrow> (Inl e, m) | Inr x \<Rightarrow> f x m)"
  by (simp add: bindT_def liftT_def split: sum.splits)

lemma bindT_assoc: "bindT (bindT m f) g = bindT m (\<lambda>x. bindT (f x) g)"
  by (auto simp: bindT_def fun_eq_iff split: prod.splits sum.splits)

lemma nextStatus_bind:
  assumes "status_updates_ok env" "job_uuid m = Some u" "st \<noteq> COMPLETED"
  shows "bindT (nextStatus (env_db env)) f (reached m st cs) =
    f () (reached m (job_statuses ! (status_number st + 1)) (cs @ [UpdateJobStatus u (status_number st + 1)]))"
  by (simp add: bindT_def nextStatus_reached [OF assms])

text \<open>The phases shared by a job and a prediction: read, compute, write.\<close>

definition phases ::
    "'v job_env \<Rightarrow> string \<Rightarrow> string list \<Rightarrow> int list \<Rightarrow> int list \<Rightarrow> ('v list list \<Rightarrow> string list \<Rightarrow> 'r res) \<Rightarrow>
     ('r \<Rightarrow> 'v job_result) \<Rightarrow> (status_manager, unit) tcomp" where
  "phases env u ds js is' compute res =
     bindT (readDb env ds js is') (\<lambda>(t, sch). bindT (liftT (compute t sch)) (\<lambda>r. writeDb env u (res r)))"

lemma job_body_phases:
  "job_body env compute req = phases env (req_uuid req) (dataids req) (req_join req) (req_index req)
     (\<lambda>t sch. compute t sch [arg_src req, arg_target req]) (\<lambda>r. r)"
  by (simp add: job_body_def phases_def)

lemma model_body_phases:
  "model_body env predict req = phases env (p_uuid req) (p_dataids req) (p_join req) (p_index req)
     (\<lambda>t sch. predict t sch (p_src req) (model_param_job_uuid req)) Vec"
  by (simp add: model_body_def ModelBase_readDb_def ModelBase_writeDb_def phases_def)

definition write_outcome :: "'v job_env \<Rightarrow> string \<Rightarrow> 'v job_result \<Rightarrow> (status_manager, unit) tcomp" where
  "write_outcome env u r m =
     (let w = WriteComputationResult u (job_toString (env_str env) r);
          cs = [UpdateJobStatus u 2, UpdateJobStatus u 3, UpdateJobStatus u 4]
      in case env_db env (db_log m @ cs) w of
           Some e \<Rightarrow> (Inl e, reached m WRITE_DB cs)
         | None \<Rightarrow> (Inr (), reached m COMPLETED (cs @ [w, UpdateJobStatus u 5])))"

lemma phases_outcome:
  assumes "status_updates_ok env" "ready u m"
  shows "phases env u ds js is' compute res m =
    (case bindE (env_table env ds js is') (\<lambda>(vs, sch). bindE (to_shares (env_conv env) vs) (\<lambda>t. Inr (t, sch))) of
       Inl e \<Rightarrow> (Inl e, reached m READ_DB [UpdateJobStatus u 2])
     | Inr (t, sch) \<Rightarrow>
         (case compute t sch of
            Inl e \<Rightarrow> (Inl e, reached m COMPUTE [UpdateJobStatus u 2, UpdateJobStatus u 3])
          | Inr r \<Rightarrow> write_outcome env u (res r) m))"
proof -
  have u: "job_uuid m = Some u" using assms(2) by (simp add: ready_def)
  note nexts = nextStatus_bind [OF assms(1) u, of PRE_JOB, simplified] nextStatus_bind [OF assms(1) u, of READ_DB, simplified]
    nextStatus_bind [OF assms(1) u, of COMPUTE, simplified] nextStatus_reached [OF assms(1) u, of WRITE_DB, simplified]
    numeral_2_eq_2
  have wr: "writeDb env u r (reached m COMPUTE [UpdateJobStatus u 2, UpdateJobStatus u 3]) = write_outcome env u r m" for r
    by (simp add: writeDb_def nexts job_statuses_def)
      (simp add: bindT_def db_query_def write_outcome_def Let_def nexts job_statuses_def reached_def
        nextStatus_def with_uuid_def u assms(1) [unfolded status_updates_ok_def] numeral_2_eq_2 split: option.splits)
  have "phases env u ds js is' compute res m = phases env u ds js is' compute res (reached m PRE_JOB [])"
    by (subst reached_start [OF assms(2)]) simp
  then show ?thesis
    by (cases "env_table env ds js is'"; cases "to_shares (env_conv env) (fst (projr (env_table env ds js is')))")
      (auto simp: phases_def readDb_def bindT_assoc nexts job_statuses_def wr [unfolded numeral_2_eq_2] liftT_def [of "Inr _"] bindT_def [of "\<lambda>_. _"]
        split: sum.splits)
qed

subsection \<open>Properties\<close>

text \<open>
  C33. A job reports the phase in which it ended. When the database accepts the status updates, \<open>JobBase::run\<close>
  returns 5 after a complete run, having written the status 2, 3, 4, then the result, then 5; a traced exception
  while reading or converting the table gives 2, one in the computation 3 and one while writing the result 4, and
  the recorded statuses stop there. A standard exception without a stack trace makes the handler dereference a
  null pointer.
\<close>

theorem JobBase_run_phase:
  assumes "status_updates_ok env" "ready (req_uuid req) m"
    "input = bindE (env_table env (dataids req) (req_join req) (req_index req)) (\<lambda>(vs, sch).
       bindE (to_shares (env_conv env) vs) (\<lambda>t. Inr (t, sch)))"
    "upd = UpdateJobStatus (req_uuid req)"
  shows "(case input of
      Inl e \<Rightarrow> is_std_exception e \<longrightarrow>
        JobBase_run env compute req m =
          (if env_traced env e then Inr 2 else Inl UndefinedBehaviour, reached m READ_DB [upd 2])
    | Inr (t, sch) \<Rightarrow>
        (case compute t sch [arg_src req, arg_target req] of
           Inl e \<Rightarrow> is_std_exception e \<longrightarrow>
             JobBase_run env compute req m =
               (if env_traced env e then Inr 3 else Inl UndefinedBehaviour, reached m COMPUTE [upd 2, upd 3])
         | Inr r \<Rightarrow>
             let w = WriteComputationResult (req_uuid req) (job_toString (env_str env) r) in
             case env_db env (db_log m @ [upd 2, upd 3, upd 4]) w of
               Some e \<Rightarrow> is_std_exception e \<longrightarrow>
                 JobBase_run env compute req m =
                   (if env_traced env e then Inr 4 else Inl UndefinedBehaviour, reached m WRITE_DB [upd 2, upd 3, upd 4])
             | None \<Rightarrow> JobBase_run env compute req m = (Inr 5, reached m COMPLETED [upd 2, upd 3, upd 4, w, upd 5])))"
  unfolding JobBase_run_def job_body_phases phases_outcome [OF assms(1,2)] assms(3) [symmetric] assms(4) write_outcome_def
  by (auto simp: Let_def split: sum.splits option.splits)

text \<open>A job on a table with one row, whose computation returns the table.\<close>

definition demo_env :: "int job_env" where
  "demo_env = \<lparr>env_db = (\<lambda>_ _. None), env_table = (\<lambda>_ _ _. Inr ([[''7'']], [''x''])),
     env_conv = (\<lambda>s. Inr (parse_int s)), env_str = to_string, env_traced = (\<lambda>_. True)\<rparr>"

definition demo_req :: exec_request where
  "demo_req = \<lparr>method_id = 3, req_uuid = ''job'', dataids = [''d''], req_join = [], req_index = [1], arg_src = [1], arg_target = []\<rparr>"

definition demo_manager :: status_manager where
  "demo_manager = \<lparr>job_uuid = Some ''job'', status = PRE_JOB, db_log = [], thread_ids = \<lparr>share_id_generator = 0, job_id_assigned_in_thread = 1\<rparr>\<rparr>"

theorem JobBase_run_phase_witness:
  "fst (JobBase_run demo_env (\<lambda>t sch arg. Inr (Mat t)) demo_req demo_manager) = Inr 5"
proof -
  have "status_updates_ok demo_env" "ready (req_uuid demo_req) demo_manager"
    by (simp_all add: status_updates_ok_def demo_env_def ready_def demo_manager_def demo_req_def)
  from JobBase_run_phase [OF this refl refl, of "\<lambda>t sch arg. Inr (Mat t)"] show ?thesis
    by (simp add: demo_env_def to_shares_def Let_def)
qed

text \<open>
  The answers of \<open>Predict\<close> are shifted by one phase against the status numbers: when the database accepts the
  registration and the updates, a failed read of the table is answered as a computation error and a failed
  prediction as success, like a complete run; only an unknown model is answered as its comment says.
\<close>

theorem Predict_status_shift:
  assumes "status_updates_ok env" "env_db env [] (RegisterJob (p_uuid req) 1) = None"
    "input = bindE (env_table env (p_dataids req) (p_join req) (p_index req)) (\<lambda>(vs, sch).
       bindE (to_shares (env_conv env) vs) (\<lambda>t. Inr (t, sch)))"
  shows "case ModelManager_select (model_id req) of
      None \<Rightarrow> Predict env predict g req = Inr (INVALID_ARGUMENT ''Predict Method Error'')
    | Some k \<Rightarrow>
        (case input of
           Inl e \<Rightarrow> is_std_exception e \<longrightarrow> Predict env predict g req = Inr (ABORTED ''Computation Error'')
         | Inr (t, sch) \<Rightarrow>
             (case predict k t sch (p_src req) (model_param_job_uuid req) of
                Inl e \<Rightarrow> is_std_exception e \<longrightarrow> Predict env predict g req = Inr PredictOk
              | Inr r \<Rightarrow> (\<forall>cs w e. env_db env cs w = Some e \<longrightarrow> is_std_exception e) \<longrightarrow> Predict env predict g req = Inr PredictOk))"
proof (cases "ModelManager_select (model_id req)")
  case None
  then show ?thesis by (simp add: Predict_def ModelManager_push_def)
next
  case (Some k)
  define m where "m = \<lparr>job_uuid = Some (p_uuid req), status = PRE_JOB, db_log = [RegisterJob (p_uuid req) 1],
    thread_ids = setJobId 1000 g\<rparr>"
  have init: "initJobID (env_db env) (p_uuid req) ((StatusManager_default g)\<lparr>thread_ids := setJobId 1000 g\<rparr>) = (Inr (), m)"
    using assms(2) by (simp add: initJobID_def StatusManager_default_def registerJob_def with_uuid_def db_query_def m_def)
  have "ready (p_uuid req) m" by (simp add: ready_def m_def)
  note out = phases_outcome [OF assms(1) this]
  have run: "ModelBase_run env (predict k) req (StatusManager_default g) =
    (case model_body env (predict k) req m of
       (Inr _, m2) \<Rightarrow> (Inr (status_number (status m2)), m2)
     | (Inl e, m2) \<Rightarrow> if is_std_exception e then (Inr (status_number (status m2)), m2) else (Inl e, m2))"
    using init by (simp add: ModelBase_run_def StatusManager_default_def)
  show ?thesis
    unfolding Some Predict_def ModelManager_push_def option.case run model_body_phases out assms(3) [symmetric] write_outcome_def
    by (auto simp: Let_def split: sum.splits option.splits)
qed

theorem Predict_status_shift_witness:
  "Predict (demo_env\<lparr>env_table := (\<lambda>_ _ _. Inl (RuntimeError ''no table''))\<rparr>) (\<lambda>k t sch src u. Inr [])
     \<lparr>share_id_generator = 0, job_id_assigned_in_thread = 1\<rparr>
     \<lparr>p_uuid = ''job'', model_param_job_uuid = ''model'', model_id = 1, p_dataids = [''d''], p_join = [], p_index = [1], p_src = [1]\<rparr>
   = Inr (ABORTED ''Computation Error'')"
  using Predict_status_shift [OF _ _ refl, of "demo_env\<lparr>env_table := (\<lambda>_ _ _. Inl (RuntimeError ''no table''))\<rparr>"
      "\<lparr>p_uuid = ''job'', model_param_job_uuid = ''model'', model_id = 1, p_dataids = [''d''], p_join = [], p_index = [1], p_src = [1]\<rparr>"
      "\<lambda>k t sch src u. Inr []" "\<lparr>share_id_generator = 0, job_id_assigned_in_thread = 1\<rparr>"]
  by (simp add: status_updates_ok_def demo_env_def ModelManager_select_def is_std_exception_def is_runtime_error_def)

end
