(* ===== verification/Dispatch.thy ===== *)
theory Dispatch
  imports Jobs "HOL-Library.Multiset"
begin

section \<open>Dispatching jobs\<close>

text \<open>
  \<open>Job/JobManager.hpp\<close> with the server and client that start a job on every party
  (\<open>ComputationToComputationContainerForJob\<close>) and the request handler \<open>ExecuteComputation\<close> of
  \<open>ManageToComputationContainer\<close>. The manager thread of the trigger party repeats: take a request from
  \<open>job_req_queue\<close>, take a number from \<open>job_id_queue\<close>, call every party in turn. Each call makes that party
  start a thread for the job (\<open>asyncRun\<close>); when the trigger party's own thread ends, it puts the number back.

  A state is the two queues, the manager's position in its loop and the live job threads of every party. An
  action is one atomic step: \<open>job_do\<close> is \<open>Blocked\<close> where the thread would wait or is not at that point.
  \<open>Resend\<close> is a call whose handler ran although the caller did not see success, so that it is repeated.
\<close>

subsection \<open>Messages between the parties\<close>

record sp_request =
  exec_req :: exec_request
  sp_job_id :: nat
  is_job_trigger_party :: bool

definition convertExecuteComputationRequest :: "exec_request \<Rightarrow> nat \<Rightarrow> bool \<Rightarrow> sp_request" where
  "convertExecuteComputationRequest r job_id trigger =
     \<lparr>exec_req = \<lparr>method_id = method_id r, req_uuid = req_uuid r, dataids = foldl (\<lambda>xs x. xs @ [x]) [] (dataids r),
        req_join = foldl (\<lambda>xs x. xs @ [x]) [] (req_join r), req_index = foldl (\<lambda>xs x. xs @ [x]) [] (req_index r),
        arg_src = foldl (\<lambda>xs x. xs @ [x]) [] (arg_src r), arg_target = foldl (\<lambda>xs x. xs @ [x]) [] (arg_target r)\<rparr>,
      sp_job_id = job_id, is_job_trigger_party = trigger\<rparr>"

subsection \<open>The state of the dispatcher\<close>

datatype manager = Waiting | GotReq exec_request | Sending exec_request nat nat

record dispatch =
  job_req_queue :: "exec_request tqueue"
  job_id_queue :: "nat tqueue"
  manager :: manager
  threads :: "nat \<Rightarrow> sp_request list"

definition MAX_JOB_NUM :: nat where "MAX_JOB_NUM = 5"

definition pushJobId :: "nat \<Rightarrow> (dispatch, unit) comp" where
  "pushJobId j st = bindE (tq_push j (job_id_queue st)) (\<lambda>(_, qs). Inr ((), st\<lparr>job_id_queue := qs\<rparr>))"

definition pollingPopJobId :: "(dispatch, nat) comp" where
  "pollingPopJobId st = bindE (tq_pop (job_id_queue st)) (\<lambda>(j, qs). Inr (j, st\<lparr>job_id_queue := qs\<rparr>))"

definition pushJobReq :: "exec_request \<Rightarrow> (dispatch, unit) comp" where
  "pushJobReq r st = bindE (tq_push r (job_req_queue st)) (\<lambda>(_, qs). Inr ((), st\<lparr>job_req_queue := qs\<rparr>))"

definition pollingPopJobReq :: "(dispatch, exec_request) comp" where
  "pollingPopJobReq st = bindE (tq_pop (job_req_queue st)) (\<lambda>(r, qs). Inr (r, st\<lparr>job_req_queue := qs\<rparr>))"

definition JobManager :: "dispatch res" where
  "JobManager =
     bindE (mapS pushJobId [1..<MAX_JOB_NUM + 1]
              \<lparr>job_req_queue = tq_new, job_id_queue = tq_new, manager = Waiting, threads = (\<lambda>_. [])\<rparr>)
       (\<lambda>(_, st). Inr st)"

subsection \<open>Actions\<close>

definition ExecuteComputation :: "nat \<Rightarrow> nat \<Rightarrow> exec_request \<Rightarrow> (dispatch, unit) comp" where
  "ExecuteComputation party sp r st = (if party = sp then pushJobReq r st else Inr ((), st))"

definition asyncRun :: "nat \<Rightarrow> sp_request \<Rightarrow> dispatch \<Rightarrow> dispatch" where
  "asyncRun party r st = st\<lparr>threads := (threads st)(party := threads st party @ [r])\<rparr>"

definition ExecuteComputeFromSP :: "nat \<Rightarrow> sp_request \<Rightarrow> dispatch \<Rightarrow> dispatch" where
  "ExecuteComputeFromSP party r st = asyncRun party r st"

definition executeComputeFromSP :: "nat \<Rightarrow> nat \<Rightarrow> exec_request \<Rightarrow> nat \<Rightarrow> dispatch \<Rightarrow> dispatch" where
  "executeComputeFromSP me pt_id r job_id st =
     ExecuteComputeFromSP pt_id (convertExecuteComputationRequest r job_id (pt_id = me)) st"

definition thread_end :: "sp_request \<Rightarrow> (dispatch, unit) comp" where
  "thread_end r st = (if is_job_trigger_party r then pushJobId (sp_job_id r) st else Inr ((), st))"

datatype action =
    Submit nat exec_request
  | TakeReq
  | TakeId
  | Send
  | Resend
  | LoopEnd
  | Finish nat nat

text \<open>\<open>n\<close> parties with ids \<open>1..n\<close>; the manager runs on party \<open>sp\<close>.\<close>

fun job_do :: "nat \<Rightarrow> nat \<Rightarrow> action \<Rightarrow> dispatch \<Rightarrow> dispatch res" where
  "job_do n sp (Submit party r) st = bindE (ExecuteComputation party sp r st) (\<lambda>(_, st1). Inr st1)"
| "job_do n sp TakeReq st =
     (case manager st of
        Waiting \<Rightarrow> bindE (pollingPopJobReq st) (\<lambda>(r, st1). Inr (st1\<lparr>manager := GotReq r\<rparr>))
      | _ \<Rightarrow> Inl Blocked)"
| "job_do n sp TakeId st =
     (case manager st of
        GotReq r \<Rightarrow> bindE (pollingPopJobId st) (\<lambda>(j, st1). Inr (st1\<lparr>manager := Sending r j 1\<rparr>))
      | _ \<Rightarrow> Inl Blocked)"
| "job_do n sp Send st =
     (case manager st of
        Sending r j pt \<Rightarrow>
          if pt \<le> n then Inr ((executeComputeFromSP sp pt r j st)\<lparr>manager := Sending r j (pt + 1)\<rparr>) else Inl Blocked
      | _ \<Rightarrow> Inl Blocked)"
| "job_do n sp Resend st =
     (case manager st of
        Sending r j pt \<Rightarrow> if pt \<le> n then Inr (executeComputeFromSP sp pt r j st) else Inl Blocked
      | _ \<Rightarrow> Inl Blocked)"
| "job_do n sp LoopEnd st =
     (case manager st of
        Sending r j pt \<Rightarrow> if pt \<le> n then Inl Blocked else Inr (st\<lparr>manager := Waiting\<rparr>)
      | _ \<Rightarrow> Inl Blocked)"
| "job_do n sp (Finish party i) st =
     (if i < length (threads st party)
      then bindE (thread_end (threads st party ! i)
             (st\<lparr>threads := (threads st)(party := take i (threads st party) @ drop (Suc i) (threads st party))\<rparr>))
             (\<lambda>(_, st1). Inr st1)
      else Inl Blocked)"

fun run_actions :: "nat \<Rightarrow> nat \<Rightarrow> action list \<Rightarrow> dispatch \<Rightarrow> dispatch res" where
  "run_actions n sp [] st = Inr st"
| "run_actions n sp (a # as) st = bindE (job_do n sp a st) (run_actions n sp as)"

subsection \<open>Job numbers are conserved\<close>

definition held :: "nat \<Rightarrow> dispatch \<Rightarrow> nat multiset" where
  "held sp st = (case manager st of Sending r j pt \<Rightarrow> if pt \<le> sp then {#j#} else {#} | _ \<Rightarrow> {#})"

definition live_ids :: "nat \<Rightarrow> dispatch \<Rightarrow> nat list" where
  "live_ids party st = map sp_job_id (threads st party)"

definition job_numbers :: "nat multiset" where
  "job_numbers = mset [1..<MAX_JOB_NUM + 1]"

text \<open>
  The numbers of the calls to the trigger party itself that a schedule repeats after the handler ran already
  (the loop around the call in \<open>Client::executeComputeFromSP\<close>).
\<close>

definition resent :: "nat \<Rightarrow> action \<Rightarrow> dispatch \<Rightarrow> nat multiset" where
  "resent sp a st =
     (case (a, manager st) of (Resend, Sending r j pt) \<Rightarrow> if pt = sp then {#j#} else {#} | _ \<Rightarrow> {#})"

fun resent_numbers :: "nat \<Rightarrow> nat \<Rightarrow> action list \<Rightarrow> dispatch \<Rightarrow> nat multiset" where
  "resent_numbers n sp [] st = {#}"
| "resent_numbers n sp (a # as) st =
     (case job_do n sp a st of Inl e \<Rightarrow> {#} | Inr st1 \<Rightarrow> resent sp a st + resent_numbers n sp as st1)"

definition dispatch_inv :: "nat \<Rightarrow> nat multiset \<Rightarrow> dispatch \<Rightarrow> bool" where
  "dispatch_inv sp E st \<longleftrightarrow>
     mset (tq_items (job_id_queue st)) + held sp st + mset (live_ids sp st) = job_numbers + E \<and>
     set_mset E \<subseteq> set_mset job_numbers \<and> tq_max (job_id_queue st) = 5000 \<and>
     (\<forall>party. \<forall>r \<in> set (threads st party). is_job_trigger_party r \<longleftrightarrow> party = sp)"

lemma foldl_snoc [simp]: "foldl (\<lambda>xs x. xs @ [x]) ys zs = ys @ zs"
  by (induction zs arbitrary: ys) auto

lemma convert_simps [simp]:
  "exec_req (convertExecuteComputationRequest r j b) = r" "sp_job_id (convertExecuteComputationRequest r j b) = j"
  "is_job_trigger_party (convertExecuteComputationRequest r j b) = b"
  by (simp_all add: convertExecuteComputationRequest_def)

lemmas dispatch_defs = ExecuteComputation_def pushJobReq_def pollingPopJobReq_def pollingPopJobId_def pushJobId_def
  executeComputeFromSP_def ExecuteComputeFromSP_def asyncRun_def thread_end_def

lemma resent_none [simp]: "a \<noteq> Resend \<Longrightarrow> resent sp a st = {#}"
  by (simp add: resent_def split: action.split)

lemma resent_numbers_none: "Resend \<notin> set acts \<Longrightarrow> resent_numbers n sp acts st = {#}"
  by (induction acts arbitrary: st) (auto split: sum.split)

lemma dispatch_step:
  assumes "dispatch_inv sp E st" "1 \<le> sp" "sp \<le> n" "job_do n sp a st = Inr st'"
  shows "dispatch_inv sp (resent sp a st + E) st'"
proof (cases a)
  case (Submit party r)
  with assms show ?thesis
    by (auto simp: dispatch_defs tq_push_def dispatch_inv_def held_def live_ids_def split: if_splits)
next
  case TakeReq
  with assms show ?thesis
    by (auto simp: dispatch_defs tq_pop_def dispatch_inv_def held_def live_ids_def split: manager.splits list.splits)
next
  case TakeId
  with assms show ?thesis
    by (auto simp: dispatch_defs tq_pop_def dispatch_inv_def held_def live_ids_def split: manager.splits list.splits)
next
  case Send
  then obtain r j pt where m: "manager st = Sending r j pt" "pt \<le> n"
    "st' = (executeComputeFromSP sp pt r j st)\<lparr>manager := Sending r j (pt + 1)\<rparr>"
    using assms(4) by (auto split: manager.splits if_splits)
  with assms(1) Send show ?thesis
    by (cases "pt = sp") (auto simp: dispatch_defs dispatch_inv_def held_def live_ids_def not_le)
next
  case Resend
  then obtain r j pt where m: "manager st = Sending r j pt" "pt \<le> n" "st' = executeComputeFromSP sp pt r j st"
    using assms(4) by (auto split: manager.splits if_splits)
  show ?thesis
  proof (cases "pt = sp")
    case True
    have "mset (tq_items (job_id_queue st)) + {#j#} + mset (live_ids sp st) = job_numbers + E"
      using assms(1) m(1) True by (simp add: dispatch_inv_def held_def)
    then have "j \<in># job_numbers + E" by (metis union_iff union_single_eq_member add_mset_add_single)
    then have "j \<in># job_numbers" using assms(1) by (auto simp: dispatch_inv_def)
    with True Resend m assms(1) show ?thesis
      by (auto simp: dispatch_defs dispatch_inv_def held_def live_ids_def resent_def)
  next
    case False
    with Resend m assms(1) show ?thesis
      by (auto simp: dispatch_defs dispatch_inv_def held_def live_ids_def resent_def)
  qed
next
  case LoopEnd
  with assms show ?thesis
    by (auto simp: dispatch_defs dispatch_inv_def held_def live_ids_def split: manager.splits if_splits)
next
  case (Finish party i)
  then have none [simp]: "resent sp a st = {#}" by simp
  let ?ts = "threads st party" and ?rest = "take i (threads st party) @ drop (Suc i) (threads st party)"
  have i: "i < length ?ts" using assms(4) Finish by (auto split: if_splits)
  then have ts: "mset (map sp_job_id ?ts) = add_mset (sp_job_id (?ts ! i)) (mset (map sp_job_id ?rest))"
    by (subst id_take_nth_drop [OF i]) (simp add: min_def)
  have sub: "set ?rest \<subseteq> set ?ts" using set_take_subset set_drop_subset by fastforce
  show ?thesis
  proof (cases "party = sp")
    case True
    then have trig: "is_job_trigger_party (?ts ! i)"
      using assms(1) nth_mem [OF i] unfolding dispatch_inv_def by blast
    then have "st' = st\<lparr>threads := (threads st)(party := ?rest), job_id_queue := (job_id_queue st)\<lparr>tq_items := tq_items (job_id_queue st) @ [sp_job_id (?ts ! i)]\<rparr>\<rparr>"
      using assms(4) Finish i by (auto simp: dispatch_defs tq_push_def split: if_splits)
    then show ?thesis
      using assms(1) True ts sub by (auto simp: dispatch_inv_def held_def live_ids_def)
  next
    case False
    then have trig: "\<not> is_job_trigger_party (?ts ! i)"
      using assms(1) nth_mem [OF i] unfolding dispatch_inv_def by blast
    then have "st' = st\<lparr>threads := (threads st)(party := ?rest)\<rparr>"
      using assms(4) Finish i by (auto simp: dispatch_defs)
    then show ?thesis
      using assms(1) False sub by (auto simp: dispatch_inv_def held_def live_ids_def)
  qed
qed

lemma number_list: "[1..<MAX_JOB_NUM + 1] = [1, 2, 3, 4, 5]"
  by (simp add: MAX_JOB_NUM_def upt_rec)

lemma dispatch_init: "\<exists>st. JobManager = Inr st \<and> dispatch_inv sp {#} st \<and> (\<forall>p. threads st p = [])"
  using number_list
  by (simp add: JobManager_def pushJobId_def tq_push_def tq_new_def dispatch_inv_def held_def live_ids_def job_numbers_def)

lemma dispatch_reachable:
  assumes "1 \<le> sp" "sp \<le> n" "dispatch_inv sp E st" "run_actions n sp acts st = Inr st'"
  shows "dispatch_inv sp (resent_numbers n sp acts st + E) st'"
  using assms(3,4)
proof (induction acts arbitrary: st E)
  case (Cons a acts)
  then obtain st1 where st1: "job_do n sp a st = Inr st1" "run_actions n sp acts st1 = Inr st'"
    by (auto simp: bindE_eq_Inr)
  with Cons.IH [OF dispatch_step [OF Cons.prems(1) assms(1,2) st1(1)] st1(2)] show ?case
    by (simp add: ac_simps)
qed simp

lemma mset_numbers:
  assumes "mset xs + M = mset [1, 2, 3, 4, 5 :: nat]"
  shows "distinct xs" "set xs \<subseteq> {1..5}" "length xs \<le> 5"
proof -
  have sub: "mset xs \<subseteq># mset [1, 2, 3, 4, 5]" by (metis assms mset_subset_eq_add_left)
  have "count (mset xs) a \<le> 1" for a
    using mset_subset_eq_count [OF sub, of a] by (auto simp: count_eq_zero_iff [THEN iffD2] split: if_splits)
  then have "count (mset xs) a = (if a \<in> set xs then 1 else 0)" for a
    by (cases "a \<in> set xs") (auto simp: le_Suc_eq count_mset_0_iff)
  then show "distinct xs"
    by (simp add: distinct_count_atmost_1)
  have "set_mset (mset xs) \<subseteq> set_mset (mset [1, 2, 3, 4, 5])" using sub by (rule set_mset_mono)
  then show "set xs \<subseteq> {1..5}" by auto
  show "length xs \<le> 5" using size_mset_mono [OF sub] by simp
qed

text \<open>
  C15. Job numbers are never lost, and on the trigger party they are shared only by calls that are repeated. In every
  schedule, including those in which the client sends the start of a job again although the handler ran
  (\<open>Resend\<close>), the numbers that are free, in the manager's hand or used by a live job of the trigger party are the
  numbers 1 to 5, each once, and once more for every call to the trigger party itself that was repeated. So without
  such a repetition the free and the live numbers are all distinct. A job that ends can put its number back as long as there
  have been fewer than 4996 of these repetitions. With one, two live jobs can have the same number
  (lemma \<open>job_number_reused\<close>).
\<close>

theorem job_numbers_invariant:
  assumes "1 \<le> sp" "sp \<le> n" "JobManager = Inr st" "run_actions n sp acts st = Inr st'"
  shows "mset (tq_items (job_id_queue st')) + held sp st' + mset (live_ids sp st') =
      mset [1, 2, 3, 4, 5] + resent_numbers n sp acts st \<and>
    set (tq_items (job_id_queue st') @ live_ids sp st') \<subseteq> {1..5} \<and>
    (resent_numbers n sp acts st = {#} \<or> Resend \<notin> set acts \<longrightarrow> distinct (tq_items (job_id_queue st') @ live_ids sp st')) \<and>
    (\<forall>i. i < length (threads st' sp) \<and> size (resent_numbers n sp acts st) < 4996 \<longrightarrow>
      (\<exists>st''. job_do n sp (Finish sp i) st' = Inr st''))"
proof -
  let ?E = "resent_numbers n sp acts st" and ?xs = "tq_items (job_id_queue st') @ live_ids sp st'"
  have "dispatch_inv sp {#} st"
    using dispatch_init [of sp] assms(3) by (metis sum.inject(2))
  from dispatch_reachable [OF assms(1,2) this assms(4)]
  have inv: "dispatch_inv sp ?E st'" by simp
  have nums: "job_numbers = mset [1, 2, 3, 4, 5]"
    by (simp only: job_numbers_def number_list)
  with inv have eq: "mset (tq_items (job_id_queue st')) + held sp st' + mset (live_ids sp st') = mset [1, 2, 3, 4, 5] + ?E"
    and E: "set_mset ?E \<subseteq> set_mset (mset [1, 2, 3, 4, 5 :: nat])" and max: "tq_max (job_id_queue st') = 5000"
    unfolding dispatch_inv_def by simp_all
  from eq have xs: "mset ?xs + held sp st' = mset [1, 2, 3, 4, 5] + ?E"
    by (simp add: ac_simps)
  then have "set_mset (mset ?xs) \<subseteq> set_mset (mset [1, 2, 3, 4, 5] + ?E)"
    by (metis mset_subset_eq_add_left set_mset_mono)
  then have "set ?xs \<subseteq> {1, 2, 3, 4, 5} \<union> set_mset ?E" by simp
  also have "\<dots> \<subseteq> {1, 2, 3, 4, 5}" using E by simp
  also have "\<dots> \<subseteq> {1..5}" by simp
  finally have range: "set ?xs \<subseteq> {1..5}" .
  have "distinct ?xs" if "?E = {#} \<or> Resend \<notin> set acts"
  proof (rule mset_numbers(1))
    have "?E = {#}" using that resent_numbers_none [of acts n sp st] by blast
    with xs show "mset ?xs + held sp st' = mset [1, 2, 3, 4, 5]" by simp
  qed
  moreover have "\<exists>st''. job_do n sp (Finish sp i) st' = Inr st''" if i: "i < length (threads st' sp)" "size ?E < 4996" for i
  proof -
    have "size (mset ?xs) \<le> size (mset [1, 2, 3, 4, 5 :: nat] + ?E)"
      unfolding xs [symmetric] by simp
    with i have "length (tq_items (job_id_queue st')) < 5000"
      by (simp add: live_ids_def)
    with i(1) max show ?thesis by (auto simp: dispatch_defs tq_push_def)
  qed
  ultimately show ?thesis using eq range by blast
qed

definition demo_schedule :: "action list" where
  "demo_schedule = [Submit 1 demo_req, TakeReq, TakeId, Resend, Send, Send, LoopEnd]"

lemma JobManager_eq:
  "JobManager = Inr \<lparr>job_req_queue = tq_new, job_id_queue = \<lparr>tq_items = [1, 2, 3, 4, 5], tq_max = 5000\<rparr>,
     manager = Waiting, threads = (\<lambda>_. [])\<rparr>"
  using number_list by (simp add: JobManager_def pushJobId_def tq_push_def tq_new_def)

theorem job_numbers_invariant_witness:
  "\<exists>st st'. JobManager = Inr st \<and> run_actions 2 1 demo_schedule st = Inr st' \<and> live_ids 1 st' = [1, 1] \<and>
     mset (tq_items (job_id_queue st')) + mset [1, 1] = mset [1, 2, 3, 4, 5] + {#1#}"
proof -
  let ?st = "\<lparr>job_req_queue = tq_new, job_id_queue = \<lparr>tq_items = [1, 2, 3, 4, 5], tq_max = 5000\<rparr>, manager = Waiting,
    threads = (\<lambda>_. [])\<rparr>"
  obtain st' where st': "run_actions 2 1 demo_schedule ?st = Inr st'" "live_ids 1 st' = [1, 1]" "held 1 st' = {#}"
    "resent_numbers 2 1 demo_schedule ?st = {#1#}"
    by (simp add: demo_schedule_def dispatch_defs tq_push_def tq_pop_def tq_new_def live_ids_def held_def resent_def)
  with job_numbers_invariant [of 1 2, OF _ _ JobManager_eq st'(1)]
  have "mset (tq_items (job_id_queue st')) + mset [1, 1] = mset [1, 2, 3, 4, 5] + {#1#}" by simp
  with st' JobManager_eq show ?thesis by blast
qed

text \<open>Two parties; the trigger party has finished its part of every job, the other one none.\<close>

definition backlog :: "nat list \<Rightarrow> sp_request list \<Rightarrow> dispatch" where
  "backlog js ts = \<lparr>job_req_queue = tq_new, job_id_queue = \<lparr>tq_items = js, tq_max = 5000\<rparr>, manager = Waiting,
     threads = (\<lambda>p. if p = 2 then ts else [])\<rparr>"

definition one_job :: "action list" where
  "one_job = [Submit 1 demo_req, TakeReq, TakeId, Send, Send, LoopEnd, Finish 1 0]"

lemma run_actions_append:
  "run_actions n sp (as @ bs) st = bindE (run_actions n sp as st) (run_actions n sp bs)"
proof (induction as arbitrary: st)
  case (Cons a as)
  then show ?case by (cases "job_do n sp a st") simp_all
qed simp

lemma one_job_backlog:
  assumes "length js < 5000"
  shows "run_actions 2 1 one_job (backlog (j # js) ts) =
    Inr (backlog (js @ [j]) (ts @ [convertExecuteComputationRequest demo_req j False]))"
  using assms
  by (auto simp: one_job_def backlog_def dispatch_defs tq_push_def tq_pop_def tq_new_def fun_eq_iff)

text \<open>
  On the other parties job numbers do get shared. The number of a job returns to the pool when the trigger
  party's thread ends, whatever the other parties are doing: with two parties there is a schedule, each call taking
  effect once, after which party 2 runs two jobs with the same number, and hence with the same addresses. If a call
  takes effect twice, the trigger party itself does.
\<close>

theorem job_number_reused:
  "(\<exists>acts st st'. Resend \<notin> set acts \<and> JobManager = Inr st \<and> run_actions 2 1 acts st = Inr st' \<and> \<not> distinct (live_ids 2 st')) \<and>
   (\<exists>acts st st'. JobManager = Inr st \<and> run_actions 2 1 acts st = Inr st' \<and> \<not> distinct (live_ids 1 st'))"
proof
  have start: "JobManager = Inr (backlog [1, 2, 3, 4, 5] [])"
    by (auto simp: JobManager_eq backlog_def)
  have "run_actions 2 1 (one_job @ one_job @ one_job @ one_job @ one_job @ one_job) (backlog [1, 2, 3, 4, 5] []) =
      Inr (backlog [2, 3, 4, 5, 1] (map (\<lambda>j. convertExecuteComputationRequest demo_req j False) [1, 2, 3, 4, 5, 1]))"
    by (simp add: run_actions_append one_job_backlog [simplified])
  moreover have "Resend \<notin> set (one_job @ one_job @ one_job @ one_job @ one_job @ one_job)"
    by (simp add: one_job_def)
  ultimately show "\<exists>acts st st'. Resend \<notin> set acts \<and> JobManager = Inr st \<and> run_actions 2 1 acts st = Inr st' \<and> \<not> distinct (live_ids 2 st')"
    using start by (intro exI [of _ "(one_job @ one_job @ one_job @ one_job @ one_job @ one_job)"] exI conjI) (auto simp: live_ids_def backlog_def)
  have "\<exists>st'. run_actions 2 1 [Submit 1 demo_req, TakeReq, TakeId, Resend, Send] (backlog [1, 2, 3, 4, 5] []) = Inr st' \<and> \<not> distinct (live_ids 1 st')"
    by (simp add: backlog_def dispatch_defs tq_push_def tq_pop_def tq_new_def live_ids_def)
  with start show "\<exists>acts st st'. JobManager = Inr st \<and> run_actions 2 1 acts st = Inr st' \<and> \<not> distinct (live_ids 1 st')"
    by blast
qed

end
