(* ===== verification/Config.thy ===== *)
theory Config
  imports Triples
begin

section \<open>Configuration\<close>

text \<open>
  \<open>ConfigParse/ConfigParse.hpp\<close>: \<open>Url::Parse\<close>, the reading of the environment (or, in test runs, of a file of
  \<open>KEY=value\<close> lines) and the construction of the configuration. Iterators into a string are modelled by splitting
  it; moving one past the end is undefined behaviour. Exception texts are given in English.
\<close>

subsection \<open>Addresses of services\<close>

record url =
  u_url :: string
  u_path :: string
  u_protocol :: string
  u_host :: string
  u_port :: string

definition find_split :: "char \<Rightarrow> string \<Rightarrow> string \<times> string" where
  "find_split c s = (takeWhile (\<lambda>x. x \<noteq> c) s, dropWhile (\<lambda>x. x \<noteq> c) s)"

definition Url_Parse :: "string \<Rightarrow> url res" where
  "Url_Parse s =
     (if s = [] then Inl (RuntimeError ''ParseError: empty url'')
      else
        let (protocol, from_colon) = find_split (CHR '':'') s in
        if from_colon = [] then Inl (RuntimeError (s @ '' is not a url''))
        else if protocol \<noteq> ''http'' \<and> protocol \<noteq> ''https''
        then Inl (RuntimeError (''ParseError: '' @ protocol @ '' is not an admitted protocol''))
        else if length from_colon < 3 then Inl UndefinedBehaviour
        else
          let (authority, path) = find_split (CHR ''/'') (drop 3 from_colon);
              (host, from_port) = find_split (CHR '':'') authority
          in Inr \<lparr>u_url = s, u_path = path, u_protocol = protocol, u_host = host,
                  u_port = (if from_port = [] then [] else tl from_port)\<rparr>)"

definition getAddress :: "url \<Rightarrow> string" where
  "getAddress u = u_host u @ '':'' @ u_port u"

subsection \<open>Numbers\<close>

definition is_space :: "char \<Rightarrow> bool" where
  "is_space c \<longleftrightarrow> of_char c \<in> {9, 10, 11, 12, 13, 32 :: nat}"

definition is_digit :: "char \<Rightarrow> bool" where
  "is_digit c \<longleftrightarrow> 48 \<le> (of_char c :: nat) \<and> (of_char c :: nat) \<le> 57"

definition int_prefix :: "string \<Rightarrow> int option" where
  "int_prefix s =
     (let t = dropWhile is_space s;
          neg = (t \<noteq> [] \<and> hd t = CHR ''-'');
          ds = takeWhile is_digit (if t \<noteq> [] \<and> (hd t = CHR ''-'' \<or> hd t = CHR ''+'') then tl t else t)
      in if ds = [] then None else Some (if neg then - int (of_digits ds) else int (of_digits ds)))"

definition in_int :: "int \<Rightarrow> bool" where
  "in_int i \<longleftrightarrow> - (2 ^ 31) \<le> i \<and> i < 2 ^ 31"

definition stoi :: "string \<Rightarrow> int res" where
  "stoi s = (case int_prefix s of None \<Rightarrow> Inl InvalidArgument | Some i \<Rightarrow> if in_int i then Inr i else Inl OutOfRangeError)"

definition atoi :: "string \<Rightarrow> int res" where
  "atoi s = (case int_prefix s of None \<Rightarrow> Inr 0 | Some i \<Rightarrow> if in_int i then Inr i else Inl UndefinedBehaviour)"

subsection \<open>The environment\<close>

record environment =
  is_test :: bool
  env_vars :: "string \<rightharpoonup> string"
  env_file :: "string list"

type_synonym env_map = "string \<rightharpoonup> string"

definition env_line :: "string \<Rightarrow> string \<times> string" where
  "env_line l =
     (let (key, r) = find_split (CHR ''='') l
      in (key, if r = [] then [] else fst (find_split (CHR ''='') (tl r))))"

definition read_env_file :: "string list \<Rightarrow> env_map" where
  "read_env_file ls = foldl (\<lambda>m l. m(fst (env_line l) \<mapsto> snd (env_line l))) Map.empty ls"

definition not_defined :: "string \<Rightarrow> exn" where
  "not_defined s = RuntimeError (s @ '' is not defined'')"

definition getEnvInt :: "environment \<Rightarrow> string \<Rightarrow> (env_map, int) comp" where
  "getEnvInt e s m =
     (if is_test e
      then let m1 = (if m = Map.empty then read_env_file (env_file e) else m)
           in case m1 s of Some v \<Rightarrow> bindE (stoi v) (\<lambda>i. Inr (i, m1)) | None \<Rightarrow> Inl (not_defined s)
      else case env_vars e s of Some v \<Rightarrow> bindE (atoi v) (\<lambda>i. Inr (i, m)) | None \<Rightarrow> Inl (not_defined s))"

definition getEnvString :: "environment \<Rightarrow> string \<Rightarrow> (env_map, string) comp" where
  "getEnvString e s m =
     (case (if is_test e then m else env_vars e) s of Some v \<Rightarrow> Inr (v, m) | None \<Rightarrow> Inl (not_defined s))"

definition getEnvUrl :: "environment \<Rightarrow> string \<Rightarrow> (env_map, url) comp" where
  "getEnvUrl e s m =
     (case (if is_test e then m else env_vars e) s of
        Some v \<Rightarrow> bindE (Url_Parse v) (\<lambda>u. Inr (u, m))
      | None \<Rightarrow> Inl (not_defined s))"

record config =
  c_party_id :: int
  c_n_parties :: int
  c_sp_id :: int
  mc_to_cc :: url
  cc_to_bts :: url
  any_to_dbg :: url
  ip_addr_map :: "int \<rightharpoonup> url"
  ip_addr_for_job_map :: "int \<rightharpoonup> url"

definition Config :: "environment \<Rightarrow> config res" where
  "Config e =
     bindE (bindS (getEnvInt e ''PARTY_ID'') (\<lambda>pid.
       bindS (getEnvInt e ''N_PARTIES'') (\<lambda>np.
       bindS (getEnvInt e ''SP_ID'') (\<lambda>sp.
       bindS (getEnvUrl e ''MC_TO_CC'') (\<lambda>mc.
       bindS (getEnvUrl e ''ANY_TO_DBG'') (\<lambda>dbg.
       bindS (getEnvUrl e ''CC_TO_BTS'') (\<lambda>bts.
       bindS (getEnvString e ''PORT_FOR_JOB'') (\<lambda>port.
       bindS (getEnvUrl e ''PARTY_LIST1'') (\<lambda>u1.
       bindS (getEnvUrl e ''PARTY_LIST2'') (\<lambda>u2.
       bindS (getEnvUrl e ''PARTY_LIST3'') (\<lambda>u3.
       let addrs = [1 \<mapsto> u1, 2 \<mapsto> u2, 3 \<mapsto> u3] in
       retS \<lparr>c_party_id = pid, c_n_parties = np, c_sp_id = sp, mc_to_cc = mc, cc_to_bts = bts, any_to_dbg = dbg,
             ip_addr_map = addrs, ip_addr_for_job_map = (\<lambda>i. map_option (\<lambda>u. u\<lparr>u_port := port\<rparr>) (addrs i))\<rparr>)))))))))) Map.empty)
       (\<lambda>(c, _). Inr c)"

subsection \<open>Properties\<close>

lemma find_split_hit: "c \<notin> set xs \<Longrightarrow> find_split c (xs @ c # ys) = (xs, c # ys)"
  unfolding find_split_def by (induction xs) auto

lemma find_split_miss: "c \<notin> set xs \<Longrightarrow> find_split c xs = (xs, [])"
  unfolding find_split_def by (induction xs) auto

text \<open>Whatever \<open>N_PARTIES\<close> says, exactly three parties have addresses; the job service differs in the port only.\<close>

lemma Config_addresses:
  assumes "Config e = Inr c"
  shows "dom (ip_addr_map c) = {1, 2, 3} \<and>
    (\<exists>port. \<forall>i. ip_addr_for_job_map c i = map_option (\<lambda>u. u\<lparr>u_port := port\<rparr>) (ip_addr_map c i))"
  using assms by (auto simp: Config_def bindS_def bindE_eq_Inr retS_def Let_def split: if_splits)

text \<open>
  Addresses are read back as they are written: for an admitted protocol, a host without colon and slash, an
  optional port without slash and a path that is empty or starts with a slash, \<open>Url::Parse\<close> recovers the parts of
  \<open>protocol://host:port/path\<close>. It does not look at the two characters after the colon, and a text that ends less than
  two characters after it moves the iterator past the end.
\<close>

theorem Url_Parse_roundtrip:
  assumes "pr = ''http'' \<or> pr = ''https''" "CHR '':'' \<notin> set host" "CHR ''/'' \<notin> set host" "CHR ''/'' \<notin> set port"
    "path = [] \<or> hd path = CHR ''/''"
  shows "Url_Parse (pr @ '':'' @ [a, b] @ host @ '':'' @ port @ path) =
      Inr \<lparr>u_url = pr @ '':'' @ [a, b] @ host @ '':'' @ port @ path, u_path = path, u_protocol = pr, u_host = host, u_port = port\<rparr> \<and>
    Url_Parse (pr @ '':'' @ [a, b] @ host @ path) =
      Inr \<lparr>u_url = pr @ '':'' @ [a, b] @ host @ path, u_path = path, u_protocol = pr, u_host = host, u_port = []\<rparr> \<and>
    (length rest < 2 \<longrightarrow> Url_Parse (pr @ '':'' @ rest) = Inl UndefinedBehaviour)"
proof -
  have pr: "CHR '':'' \<notin> set pr" "pr \<noteq> []" using assms(1) by auto
  have p: "find_split (CHR '':'') (pr @ CHR '':'' # r) = (pr, CHR '':'' # r)" for r
    by (rule find_split_hit [OF pr(1)])
  have slash: "find_split (CHR ''/'') (xs @ path) = (xs, path)" if "CHR ''/'' \<notin> set xs" for xs
    using assms(5) find_split_miss [OF that] find_split_hit [OF that, of "tl path"] by (cases path) auto
  have s1: "find_split (CHR ''/'') (host @ CHR '':'' # port @ path) = (host @ CHR '':'' # port, path)"
    using slash [of "host @ CHR '':'' # port"] assms(3,4) by simp
  show ?thesis
    using assms(1) pr s1 slash [OF assms(3)] find_split_hit [OF assms(2), of port] find_split_miss [OF assms(2)]
    by (auto simp: Url_Parse_def p Let_def)
qed

theorem Url_Parse_roundtrip_witness:
  "Url_Parse ''http://cc1:50010/x'' =
     Inr \<lparr>u_url = ''http://cc1:50010/x'', u_path = ''/x'', u_protocol = ''http'', u_host = ''cc1'', u_port = ''50010''\<rparr>"
  using Url_Parse_roundtrip [of "''http''" "''cc1''" "''50010''" "''/x''" "CHR ''/''" "CHR ''/''" "[]"] by simp

end
